(* ===== verification/Net_Prelude.thy ===== *)
theory Net_Prelude
  imports Main "HOL-Library.Word" "HOL-Library.Sublist"
begin

section \<open>Shared types, errors and library lemmas\<close>

text \<open>
  What every component of the development uses: the result type that makes each
  failure of the C++ code a value, the C library's searching and printing routines
  as functions on byte lists, and the lemmas on lists that the component proofs
  share. Bytes are values of type \<open>char\<close>, a \<open>std::string\<close> and a memory range are
  lists of them, an object of type \<open>size_t\<close> is a natural number.
\<close>

named_theorems result_simps \<open>rewriting of the result monad\<close>
named_theorems copy_simps \<open>copying ranges of bytes\<close>

subsection \<open>Failures as values\<close>

text \<open>
  The library is built without \<open>NDEBUG\<close>, so a failed \<open>assert\<close> aborts the process.
  A read outside of an allocated range, a dereferenced null pointer and a call of an
  empty \<open>std::function\<close> are the other ways in which an operation can fail.
\<close>

datatype failure =
    AssertFail        \<comment> \<open>an \<open>assert\<close> of the code does not hold\<close>
  | OutOfBounds       \<comment> \<open>a memory range that is not part of the object\<close>
  | NullPointer       \<comment> \<open>a null pointer is dereferenced\<close>
  | BadFunctionCall   \<comment> \<open>an empty \<open>std::function\<close> is called\<close>
  | FatalLog          \<comment> \<open>a \<open>LOG_FATAL\<close> statement, whose destructor calls \<open>abort\<close>\<close>
  | SignedOverflow    \<comment> \<open>signed arithmetic leaves the range of its type\<close>
  | NoReturn          \<comment> \<open>a loop that never ends, where a caller has to go on with its result\<close>

type_synonym 'a result = "failure + 'a"

fun bind_result :: "'a result \<Rightarrow> ('a \<Rightarrow> 'b result) \<Rightarrow> 'b result" where
  "bind_result (Inl e) f = Inl e"
| "bind_result (Inr x) f = f x"

definition check :: "bool \<Rightarrow> unit result" where
  "check c = (if c then Inr () else Inl AssertFail)"

lemma check_True [simp]: "check True = Inr ()"
  by (simp add: check_def)

lemma check_bind [result_simps]:
  "bind_result (check c) f = (if c then f () else Inl AssertFail)"
  by (simp add: check_def)

lemma bind_result_eq_Inr:
  "bind_result m f = Inr y \<longleftrightarrow> (\<exists>x. m = Inr x \<and> f x = Inr y)"
  by (cases m) auto

lemma bind_result_eq_InrE [elim!]:
  assumes "bind_result m f = Inr y"
  obtains x where "m = Inr x" and "f x = Inr y"
  using assms by (auto simp: bind_result_eq_Inr)

lemma bind_result_assoc [result_simps]:
  "bind_result (bind_result m f) g = bind_result m (\<lambda>x. bind_result (f x) g)"
  by (cases m) simp_all

lemma bind_result_Inr_right [simp]: "bind_result m Inr = m"
  by (cases m) simp_all

subsection \<open>Searching\<close>

text \<open>
  \<open>std::find (first, last, c)\<close> returns the first position that holds \<open>c\<close>, and \<open>last\<close>
  when there is none: as an offset, the length of the range.
\<close>

fun find_char :: "char \<Rightarrow> char list \<Rightarrow> nat" where
  "find_char c [] = 0"
| "find_char c (x # xs) = (if x = c then 0 else Suc (find_char c xs))"

lemma find_char_le: "find_char c xs \<le> length xs"
  by (induction xs) auto

lemma find_char_less_iff: "find_char c xs < length xs \<longleftrightarrow> c \<in> set xs"
  by (induction xs) auto

lemma find_char_eq_length_iff: "find_char c xs = length xs \<longleftrightarrow> c \<notin> set xs"
  using find_char_le[of c xs] find_char_less_iff[of c xs] by linarith

lemma find_char_append_hit [simp]:
  "c \<notin> set xs \<Longrightarrow> find_char c (xs @ c # ys) = length xs"
  by (induction xs) auto

lemma find_char_nth: "c \<in> set xs \<Longrightarrow> xs ! find_char c xs = c"
  by (induction xs) auto

lemma find_char_take: "c \<notin> set (take (find_char c xs) xs)"
  by (induction xs) auto

text \<open>
  \<open>std::search\<close> for the two bytes of \<open>kCRLF\<close>: the offset of the first occurrence, if any.
\<close>

abbreviation CR :: char where "CR \<equiv> CHR 0x0D"
abbreviation LF :: char where "LF \<equiv> CHR 0x0A"

fun search_crlf :: "char list \<Rightarrow> nat option" where
  "search_crlf (x # y # zs) =
     (if x = CR \<and> y = LF then Some 0 else map_option Suc (search_crlf (y # zs)))"
| "search_crlf _ = None"

lemma search_crlf_bound: "search_crlf xs = Some i \<Longrightarrow> i + 2 \<le> length xs"
proof (induction xs arbitrary: i rule: search_crlf.induct)
  case (1 x y zs)
  then show ?case by (fastforce split: if_splits)
qed simp_all

lemma search_crlf_Some:
  "search_crlf xs = Some i \<Longrightarrow> xs ! i = CR \<and> xs ! Suc i = LF"
proof (induction xs arbitrary: i rule: search_crlf.induct)
  case (1 x y zs)
  then show ?case by (fastforce split: if_splits)
qed simp_all

lemma search_crlf_hit:
  "CR \<notin> set xs \<Longrightarrow> search_crlf (xs @ CR # LF # ys) = Some (length xs)"
proof (induction xs)
  case Nil
  then show ?case by simp
next
  case (Cons x xs)
  then show ?case by (cases xs) auto
qed

lemma search_crlf_none: "CR \<notin> set xs \<Longrightarrow> search_crlf xs = None"
  by (induction xs rule: search_crlf.induct) auto

lemma search_crlf_None_iff:
  "search_crlf xs = None \<longleftrightarrow> (\<nexists>us vs. xs = us @ CR # LF # vs)"
proof (induction xs rule: search_crlf.induct)
  case (1 x y zs)
  show ?case
  proof (cases "x = CR \<and> y = LF")
    case True
    then have "x # y # zs = [] @ CR # LF # zs" by simp
    then show ?thesis using True by auto
  next
    case False
    have "(\<exists>us vs. x # y # zs = us @ CR # LF # vs)
        \<longleftrightarrow> (\<exists>us vs. y # zs = us @ CR # LF # vs)"
    proof
      assume "\<exists>us vs. x # y # zs = us @ CR # LF # vs"
      then obtain us vs where eq: "x # y # zs = us @ CR # LF # vs" by blast
      with False obtain us' where "us = x # us'" by (cases us) auto
      with eq show "\<exists>us vs. y # zs = us @ CR # LF # vs" by auto
    next
      assume "\<exists>us vs. y # zs = us @ CR # LF # vs"
      then obtain us vs where "x # y # zs = (x # us) @ CR # LF # vs" by auto
      then show "\<exists>us vs. x # y # zs = us @ CR # LF # vs" by blast
    qed
    moreover have "search_crlf (x # y # zs) = None \<longleftrightarrow> search_crlf (y # zs) = None"
      using False by auto
    ultimately show ?thesis using "1.IH"[OF False] by simp
  qed
qed (auto simp: append_eq_Cons_conv)

subsection \<open>Copying ranges\<close>

text \<open>
  \<open>std::copy (src, src + len, dst + i)\<close>: the bytes at \<open>i\<close> and after are overwritten.
\<close>

definition copy_to :: "'a list \<Rightarrow> nat \<Rightarrow> 'a list \<Rightarrow> 'a list" where
  "copy_to dst i src = take i dst @ src @ drop (i + length src) dst"

lemma length_copy_to [simp]:
  "i + length src \<le> length dst \<Longrightarrow> length (copy_to dst i src) = length dst"
  by (simp add: copy_to_def)

lemma take_copy_to [simp]:
  "j \<le> i \<Longrightarrow> i \<le> length dst \<Longrightarrow> take j (copy_to dst i src) = take j dst"
  by (simp add: copy_to_def min_def)

lemma take_copy_to_end [copy_simps]:
  "i \<le> length dst \<Longrightarrow> take (i + length src) (copy_to dst i src) = take i dst @ src"
  by (simp add: copy_to_def)

lemma drop_copy_to [copy_simps]:
  "i + length src \<le> length dst \<Longrightarrow>
     drop (i + length src) (copy_to dst i src) = drop (i + length src) dst"
  by (simp add: copy_to_def)

lemma copy_to_Nil [simp]: "copy_to dst i [] = dst"
  by (simp add: copy_to_def)

text \<open>The bytes of \<open>[i, j)\<close> of a memory, and how they split.\<close>

definition segment :: "nat \<Rightarrow> nat \<Rightarrow> 'a list \<Rightarrow> 'a list" where
  "segment i j xs = drop i (take j xs)"

lemma length_segment [simp]: "length (segment i j xs) = min j (length xs) - i"
  by (simp add: segment_def)

lemma segment_empty [simp]: "j \<le> i \<Longrightarrow> segment i j xs = []"
  by (simp add: segment_def)

lemma take_segment: "take n (segment i j xs) = segment i (min j (i + n)) xs"
  by (simp add: segment_def take_drop min.commute add.commute)

lemma drop_segment: "drop n (segment i j xs) = segment (i + n) j xs"
  by (simp add: segment_def add.commute)

lemma segment_append_left: "j \<le> length xs \<Longrightarrow> segment i j (xs @ ys) = segment i j xs"
  by (simp add: segment_def)

lemma segment_copy_to_end [copy_simps]:
  "i \<le> j \<Longrightarrow> j \<le> length dst \<Longrightarrow>
     segment i (j + length src) (copy_to dst j src) = segment i j dst @ src"
  by (simp add: segment_def take_copy_to_end)

lemma segment_copy_to_before [copy_simps]:
  "j \<le> k \<Longrightarrow> k \<le> length dst \<Longrightarrow> segment i j (copy_to dst k src) = segment i j dst"
  by (simp add: segment_def)

lemma nth_segment [simp]: "i + n < j \<Longrightarrow> j \<le> length xs \<Longrightarrow> segment i j xs ! n = xs ! (i + n)"
  by (simp add: segment_def)

lemma segment_zero: "segment 0 j xs = take j xs"
  by (simp add: segment_def)

lemma segment_split:
  assumes "i \<le> j" and "j \<le> k"
  shows "segment i k xs = segment i j xs @ segment j k xs"
proof -
  from assms(2) obtain m where k: "k = j + m" using le_Suc_ex by blast
  have "take k xs = take j xs @ take m (drop j xs)" by (simp add: k take_add)
  moreover have "drop (i - length (take j xs)) (take m (drop j xs)) = take m (drop j xs)"
    using assms(1) by (cases "length xs \<le> j") simp_all
  moreover have "segment j k xs = take m (drop j xs)" by (simp add: segment_def k drop_take)
  ultimately show ?thesis by (simp add: segment_def)
qed

text \<open>\<open>isspace\<close> in the C locale.\<close>

definition isspace :: "char \<Rightarrow> bool" where
  "isspace c \<longleftrightarrow> c = CHR '' '' \<or> of_char c \<in> {9..13 :: nat}"

subsection \<open>Decimal output\<close>

text \<open>The digits that \<open>%d\<close>, \<open>%u\<close> and \<open>%zd\<close> print for a number that is not negative.\<close>

definition digit_char :: "nat \<Rightarrow> char" where
  "digit_char d = char_of (48 + d)"

fun decimal :: "nat \<Rightarrow> char list" where
  "decimal n = (if n < 10 then [digit_char n] else decimal (n div 10) @ [digit_char (n mod 10)])"

declare decimal.simps [simp del]

definition decimal_int :: "int \<Rightarrow> char list" where
  "decimal_int k = (if k < 0 then CHR ''-'' # decimal (nat (- k)) else decimal (nat k))"

text \<open>
  \<open>snprintf (buf, n, ...)\<close> keeps at most \<open>n - 1\<close> bytes of the formatted text.
\<close>

definition snprintf_keep :: "nat \<Rightarrow> char list \<Rightarrow> char list" where
  "snprintf_keep n s = take (n - 1) s"

text \<open>Reading the digits back.\<close>

definition char_digit :: "char \<Rightarrow> nat" where
  "char_digit c = of_char c - 48"

definition parse_decimal :: "char list \<Rightarrow> nat" where
  "parse_decimal cs = foldl (\<lambda>n c. 10 * n + char_digit c) 0 cs"

lemma char_digit_digit_char: "d < 10 \<Longrightarrow> char_digit (digit_char d) = d"
  by (simp add: char_digit_def digit_char_def)

lemma digit_char_0: "digit_char 0 = CHR ''0''"
  by code_simp

lemma unat_byte_less: "unat (b :: 8 word) < 256"
  using unsigned_less[of b, where 'a = nat] by simp

lemma unat_16_less: "unat (p :: 16 word) < 65536"
  using unsigned_less[of p, where 'a = nat] by simp

lemma decimal_nonempty [simp]: "decimal n \<noteq> []"
  by (subst decimal.simps) simp

lemma parse_decimal_decimal: "parse_decimal (decimal n) = n"
proof (induction n rule: decimal.induct)
  case (1 n)
  show ?case
  proof (cases "n < 10")
    case True
    then show ?thesis
      by (subst decimal.simps) (simp add: parse_decimal_def char_digit_digit_char)
  next
    case False
    have "parse_decimal (decimal n) = 10 * parse_decimal (decimal (n div 10)) + n mod 10"
      using False
      by (subst decimal.simps) (simp add: parse_decimal_def char_digit_digit_char)
    with 1[OF False] show ?thesis by simp
  qed
qed

lemma decimal_inject [simp]: "decimal m = decimal n \<longleftrightarrow> m = n"
  using parse_decimal_decimal[of m] parse_decimal_decimal[of n] by metis

lemma set_decimal: "set (decimal n) \<subseteq> digit_char ` {..<10}"
proof (induction n rule: decimal.induct)
  case (1 n)
  then show ?case by (subst decimal.simps) auto
qed

lemma digit_char_neq:
  "d < 10 \<Longrightarrow> of_char c \<notin> {48..<58 :: nat} \<Longrightarrow> digit_char d \<noteq> c"
  by (auto simp: digit_char_def)

lemma not_in_decimal: "of_char c \<notin> {48..<58 :: nat} \<Longrightarrow> c \<notin> set (decimal n)"
  using set_decimal[of n] digit_char_neq[of _ c] by blast

lemma length_decimal_le: "n < 10 ^ k \<Longrightarrow> 0 < k \<Longrightarrow> length (decimal n) \<le> k"
proof (induction n arbitrary: k rule: decimal.induct)
  case (1 n)
  show ?case
  proof (cases "n < 10")
    case True
    then show ?thesis using 1 by (subst decimal.simps) simp
  next
    case False
    have "1 < k"
    proof (rule ccontr)
      assume "\<not> 1 < k"
      with "1.prems" have "k = 1" by simp
      with "1.prems" False show False by simp
    qed
    then obtain k' where k: "k = Suc k'" "0 < k'" by (cases k) auto
    with "1.prems" have "n div 10 < 10 ^ k'" by (simp add: less_mult_imp_div_less mult.commute)
    then have "length (decimal (n div 10)) \<le> k'" using "1.IH"[OF False] k by simp
    then show ?thesis using False k by (subst decimal.simps) simp
  qed
qed

end
