(* ===== verification/Net_Buffer.thy ===== *)
theory Net_Buffer
  imports Net_Prelude
begin

section \<open>The byte buffer (src/net/Buffer.h, src/net/Buffer.cpp)\<close>

text \<open>
  A \<open>Buffer\<close> is a vector of bytes with a read and a write index. The state is the record
  \<open>buffer\<close>, one definition per member function follows; pointers into the buffer are
  offsets into its storage. Assertions of the code are \<open>check\<close>s of the model. The
  abstract value of a buffer is \<open>contents\<close>, the bytes between the two indices, and the
  locale \<open>byte_queue\<close> is the contract its clients rely on: a first-in first-out queue
  of bytes. Sizes are natural numbers: a \<open>std::vector<char>\<close> holds less than
  \<open>2 ^ 63\<close> bytes, so the sums of two sizes the code computes do not wrap.
\<close>

record buffer =
  store :: "char list"        \<comment> \<open>\<open>buffer_\<close>\<close>
  readerIndex :: nat          \<comment> \<open>\<open>readerIndex_\<close>\<close>
  writerIndex :: nat          \<comment> \<open>\<open>writerIndex_\<close>\<close>

definition kCheapPrepend :: nat where "kCheapPrepend = 8"
definition kInitialSize :: nat where "kInitialSize = 1024"

subsection \<open>Operations\<close>

definition Buffer :: "nat \<Rightarrow> buffer" where
  "Buffer initialSize =
     \<lparr>store = replicate (kCheapPrepend + initialSize) (CHR 0x00),
      readerIndex = kCheapPrepend, writerIndex = kCheapPrepend\<rparr>"

definition readableBytes :: "buffer \<Rightarrow> nat" where
  "readableBytes b = writerIndex b - readerIndex b"

definition writableBytes :: "buffer \<Rightarrow> nat" where
  "writableBytes b = length (store b) - writerIndex b"

definition prependableBytes :: "buffer \<Rightarrow> nat" where
  "prependableBytes b = readerIndex b"

text \<open>Reading \<open>len\<close> bytes from an address inside the storage.\<close>

definition read_range :: "buffer \<Rightarrow> nat \<Rightarrow> nat \<Rightarrow> char list result" where
  "read_range b from len =
     (if from + len \<le> length (store b) then Inr (segment from (from + len) (store b))
      else Inl OutOfBounds)"

definition retrieveAll :: "buffer \<Rightarrow> buffer" where
  "retrieveAll b = b\<lparr>readerIndex := kCheapPrepend, writerIndex := kCheapPrepend\<rparr>"

definition retrieve :: "nat \<Rightarrow> buffer \<Rightarrow> buffer result" where
  "retrieve len b =
     bind_result (check (len \<le> readableBytes b)) (\<lambda>_.
       if len < readableBytes b then Inr (b\<lparr>readerIndex := readerIndex b + len\<rparr>)
       else Inr (retrieveAll b))"

definition GetBufferAllAsString :: "buffer \<Rightarrow> char list result" where
  "GetBufferAllAsString b = read_range b (readerIndex b) (readableBytes b)"

definition retrieveAsString :: "nat \<Rightarrow> buffer \<Rightarrow> (char list \<times> buffer) result" where
  "retrieveAsString len b =
     bind_result (check (len \<le> readableBytes b)) (\<lambda>_.
     bind_result (read_range b (readerIndex b) len) (\<lambda>s.
     bind_result (retrieve len b) (\<lambda>b'. Inr (s, b'))))"

definition retrieveAllAsString :: "buffer \<Rightarrow> (char list \<times> buffer) result" where
  "retrieveAllAsString b = retrieveAsString (readableBytes b) b"

text \<open>\<open>end\<close> is an offset into the storage.\<close>

definition retrieveUntil :: "nat \<Rightarrow> buffer \<Rightarrow> buffer result" where
  "retrieveUntil end_ptr b =
     bind_result (check (readerIndex b \<le> end_ptr)) (\<lambda>_.
     bind_result (check (end_ptr \<le> writerIndex b)) (\<lambda>_.
       retrieve (end_ptr - readerIndex b) b))"

definition makeSpace :: "nat \<Rightarrow> buffer \<Rightarrow> buffer result" where
  "makeSpace len b =
     (if writableBytes b + prependableBytes b < len + kCheapPrepend
      then Inr (b\<lparr>store := take (writerIndex b + len) (store b)
                  @ replicate (writerIndex b + len - length (store b)) (CHR 0x00)\<rparr>)
      else bind_result (check (kCheapPrepend < readerIndex b)) (\<lambda>_.
        let readable = readableBytes b;
            b' = b\<lparr>store := copy_to (store b) kCheapPrepend
                              (segment (readerIndex b) (writerIndex b) (store b)),
                   readerIndex := kCheapPrepend,
                   writerIndex := kCheapPrepend + readable\<rparr>
        in bind_result (check (readable = readableBytes b')) (\<lambda>_. Inr b')))"

definition ensureWritableBytes :: "nat \<Rightarrow> buffer \<Rightarrow> buffer result" where
  "ensureWritableBytes len b =
     bind_result (if writableBytes b < len then makeSpace len b else Inr b) (\<lambda>b'.
     bind_result (check (writableBytes b' \<ge> len)) (\<lambda>_. Inr b'))"

definition append_buffer :: "char list \<Rightarrow> buffer \<Rightarrow> buffer result" where
  "append_buffer data b =
     bind_result (ensureWritableBytes (length data) b) (\<lambda>b'.
       Inr (b'\<lparr>store := copy_to (store b') (writerIndex b') data,
               writerIndex := writerIndex b' + length data\<rparr>))"

text \<open>The result is the offset of the first \<open>kCRLF\<close>, \<open>None\<close> for the null pointer.\<close>

definition findCRLF :: "buffer \<Rightarrow> nat option" where
  "findCRLF b = map_option (\<lambda>i. readerIndex b + i)
     (search_crlf (segment (readerIndex b) (writerIndex b) (store b)))"

subsection \<open>Reading from and writing to a descriptor\<close>

text \<open>
  What the kernel does at a call is an argument of the model: the bytes it has for a
  reader, of which \<open>readv\<close> delivers no more than the vectors hold, the number of bytes
  it takes from a writer, of which \<open>write\<close> reports no more than it was given, or the
  \<open>errno\<close> of a call that fails.
\<close>

datatype read_answer = ReadOk "char list" | ReadErr nat
datatype write_answer = WriteOk nat | WriteErr nat

definition extrabuf_size :: nat where "extrabuf_size = 65536"

definition sys_write :: "write_answer \<Rightarrow> char list \<Rightarrow> nat + char list" where
  "sys_write ans data = (case ans of WriteOk k \<Rightarrow> Inr (take k data) | WriteErr e \<Rightarrow> Inl e)"

definition readFd :: "read_answer \<Rightarrow> buffer \<Rightarrow> (int \<times> nat option \<times> buffer) result" where
  "readFd ans b =
     (let writable = writableBytes b;
          room = (if writable < extrabuf_size then writable + extrabuf_size else writable)
      in case ans of
           ReadErr e \<Rightarrow> Inr (-1, Some e, b)
         | ReadOk available \<Rightarrow>
             let data = take room available;
                 n = length data;
                 b' = b\<lparr>store := copy_to (store b) (writerIndex b) (take writable data)\<rparr>
             in if n \<le> writable
                then Inr (int n, None, b'\<lparr>writerIndex := writerIndex b' + n\<rparr>)
                else bind_result
                       (append_buffer (drop writable data)
                          (b'\<lparr>writerIndex := length (store b')\<rparr>))
                       (\<lambda>b''. Inr (int n, None, b'')))"

text \<open>The third component of the result is what the kernel took.\<close>

definition writeFd ::
    "write_answer \<Rightarrow> buffer \<Rightarrow> (int \<times> nat option \<times> char list \<times> buffer) result" where
  "writeFd ans b =
     bind_result (read_range b (readerIndex b) (readableBytes b)) (\<lambda>data.
       case sys_write ans data of
         Inl e \<Rightarrow> Inr (-1, Some e, [], b)
       | Inr taken \<Rightarrow> bind_result (retrieve (length taken) b)
           (\<lambda>b'. Inr (int (length taken), None, taken, b')))"

subsection \<open>Invariant and abstract value\<close>

definition wf_buffer :: "buffer \<Rightarrow> bool" where
  "wf_buffer b \<longleftrightarrow> kCheapPrepend \<le> readerIndex b \<and> readerIndex b \<le> writerIndex b
     \<and> writerIndex b \<le> length (store b)"

definition contents :: "buffer \<Rightarrow> char list" where
  "contents b = segment (readerIndex b) (writerIndex b) (store b)"

lemma wf_bufferD:
  assumes "wf_buffer b"
  shows "kCheapPrepend \<le> readerIndex b" "readerIndex b \<le> writerIndex b"
    "writerIndex b \<le> length (store b)"
  using assms by (simp_all add: wf_buffer_def)

lemma length_contents: "wf_buffer b \<Longrightarrow> length (contents b) = readableBytes b"
  by (simp add: contents_def readableBytes_def wf_buffer_def)

lemma wf_Buffer [simp]: "wf_buffer (Buffer n)"
  by (simp add: wf_buffer_def Buffer_def)

lemma contents_Buffer [simp]: "contents (Buffer n) = []"
  by (simp add: contents_def Buffer_def)

lemma wf_retrieveAll: "wf_buffer b \<Longrightarrow> wf_buffer (retrieveAll b)"
  by (simp add: wf_buffer_def retrieveAll_def)

lemma contents_retrieveAll [simp]: "contents (retrieveAll b) = []"
  by (simp add: contents_def retrieveAll_def)

lemma read_range_contents:
  "wf_buffer b \<Longrightarrow> len \<le> readableBytes b \<Longrightarrow>
     read_range b (readerIndex b) len = Inr (take len (contents b))"
proof -
  assume wf: "wf_buffer b" and len: "len \<le> readableBytes b"
  then have "readerIndex b + len \<le> writerIndex b" and "writerIndex b \<le> length (store b)"
    unfolding wf_buffer_def readableBytes_def by linarith+
  then show ?thesis by (simp add: read_range_def contents_def take_segment)
qed

lemma retrieve_too_much: "readableBytes b < len \<Longrightarrow> retrieve len b = Inl AssertFail"
  by (simp add: retrieve_def result_simps)

lemma retrieve_ok:
  assumes "wf_buffer b" and "len \<le> readableBytes b"
  shows "\<exists>b'. retrieve len b = Inr b' \<and> wf_buffer b' \<and> contents b' = drop len (contents b)
    \<and> store b' = store b"
proof (cases "len < readableBytes b")
  case True
  then have "retrieve len b = Inr (b\<lparr>readerIndex := readerIndex b + len\<rparr>)"
    by (simp add: retrieve_def)
  moreover have "wf_buffer (b\<lparr>readerIndex := readerIndex b + len\<rparr>)"
    using assms(1) True by (simp add: wf_buffer_def readableBytes_def)
  ultimately show ?thesis by (simp add: contents_def drop_segment)
next
  case False
  with assms(2) have len: "len = readableBytes b" by simp
  then have "retrieve len b = Inr (retrieveAll b)" by (simp add: retrieve_def)
  moreover have "drop len (contents b) = []" using length_contents[OF assms(1)] len by simp
  ultimately show ?thesis using wf_retrieveAll[OF assms(1)] by (simp add: retrieveAll_def contents_def)
qed

lemma retrieveAsString_ok:
  assumes "wf_buffer b" and "len \<le> readableBytes b"
  shows "\<exists>b'. retrieveAsString len b = Inr (take len (contents b), b') \<and> wf_buffer b'
    \<and> contents b' = drop len (contents b)"
  using retrieve_ok[OF assms] read_range_contents[OF assms] assms(2)
  by (auto simp: retrieveAsString_def)

lemma retrieveAsString_too_much:
  "readableBytes b < len \<Longrightarrow> retrieveAsString len b = Inl AssertFail"
  by (simp add: retrieveAsString_def result_simps)

lemma retrieveAllAsString_ok:
  assumes "wf_buffer b"
  shows "\<exists>b'. retrieveAllAsString b = Inr (contents b, b') \<and> wf_buffer b' \<and> contents b' = []"
  using retrieveAsString_ok[OF assms, of "readableBytes b"] length_contents[OF assms]
  by (simp add: retrieveAllAsString_def)

lemma retrieveUntil_ok:
  assumes "wf_buffer b" and "i \<le> readableBytes b"
  shows "\<exists>b'. retrieveUntil (readerIndex b + i) b = Inr b' \<and> wf_buffer b'
    \<and> contents b' = drop i (contents b) \<and> store b' = store b"
proof -
  have "readerIndex b + i \<le> writerIndex b"
    using assms unfolding readableBytes_def wf_buffer_def by linarith
  then have "retrieveUntil (readerIndex b + i) b = retrieve i b"
    by (simp add: retrieveUntil_def)
  with retrieve_ok[OF assms] show ?thesis by simp
qed

lemma findCRLF_contents:
  "findCRLF b = map_option (\<lambda>i. readerIndex b + i) (search_crlf (contents b))"
  by (simp add: findCRLF_def contents_def)

subsection \<open>Growing\<close>

lemma makeSpace_resize:
  assumes "wf_buffer b" and "writableBytes b < len"
    and "writableBytes b + prependableBytes b < len + kCheapPrepend"
  shows "\<exists>b'. makeSpace len b = Inr b' \<and> wf_buffer b' \<and> contents b' = contents b
    \<and> writableBytes b' = len \<and> readerIndex b' = readerIndex b"
proof -
  let ?s = "store b @ replicate (writerIndex b + len - length (store b)) (CHR 0x00)"
  have le: "length (store b) \<le> writerIndex b + len"
    using assms(1,2) by (simp add: writableBytes_def)
  have "makeSpace len b = Inr (b\<lparr>store := ?s\<rparr>)"
    using assms(3) le by (simp add: makeSpace_def)
  moreover have "wf_buffer (b\<lparr>store := ?s\<rparr>)" using assms(1) by (simp add: wf_buffer_def)
  moreover have "contents (b\<lparr>store := ?s\<rparr>) = contents b"
    using assms(1) by (simp add: contents_def wf_buffer_def segment_append_left)
  moreover have "writableBytes (b\<lparr>store := ?s\<rparr>) = len"
    using le by (simp add: writableBytes_def)
  ultimately show ?thesis by simp
qed

lemma makeSpace_compact:
  assumes wf: "wf_buffer b" and "writableBytes b < len"
    and "\<not> writableBytes b + prependableBytes b < len + kCheapPrepend"
  shows "\<exists>b'. makeSpace len b = Inr b' \<and> wf_buffer b' \<and> contents b' = contents b
    \<and> len \<le> writableBytes b' \<and> readerIndex b' = kCheapPrepend
    \<and> length (store b') = length (store b)"
proof -
  let ?data = "segment (readerIndex b) (writerIndex b) (store b)"
  let ?b = "b\<lparr>store := copy_to (store b) kCheapPrepend ?data, readerIndex := kCheapPrepend,
               writerIndex := kCheapPrepend + readableBytes b\<rparr>"
  have pre: "kCheapPrepend < readerIndex b"
    using assms(2,3) by (simp add: prependableBytes_def)
  have len: "length ?data = readableBytes b"
    using length_contents[OF wf] by (simp add: contents_def)
  have fits: "kCheapPrepend + length ?data \<le> length (store b)"
    using wf pre unfolding len readableBytes_def wf_buffer_def by linarith
  have store: "length (copy_to (store b) kCheapPrepend ?data) = length (store b)"
    using fits by (rule length_copy_to)
  have "makeSpace len b = Inr ?b"
    using assms(3) pre by (simp add: makeSpace_def Let_def readableBytes_def)
  moreover have "wf_buffer ?b"
    using fits unfolding len by (simp add: wf_buffer_def store)
  moreover have "contents ?b = contents b"
    using segment_copy_to_end[of kCheapPrepend kCheapPrepend "store b" ?data] fits
    unfolding len by (simp add: contents_def)
  moreover have "len \<le> writableBytes ?b"
    using assms(3) wf store
    by (simp add: writableBytes_def prependableBytes_def readableBytes_def wf_buffer_def)
  ultimately show ?thesis using store by fastforce
qed

lemma ensureWritableBytes_ok:
  assumes "wf_buffer b"
  shows "\<exists>b'. ensureWritableBytes len b = Inr b' \<and> wf_buffer b' \<and> contents b' = contents b
    \<and> len \<le> writableBytes b'"
proof (cases "writableBytes b < len")
  case True
  have "\<exists>b'. makeSpace len b = Inr b' \<and> wf_buffer b' \<and> contents b' = contents b
    \<and> len \<le> writableBytes b'"
    using makeSpace_resize[OF assms True] makeSpace_compact[OF assms True] by fastforce
  then show ?thesis using True by (auto simp: ensureWritableBytes_def)
next
  case False
  then show ?thesis using assms by (simp add: ensureWritableBytes_def)
qed

lemma append_buffer_ok:
  assumes "wf_buffer b"
  shows "\<exists>b'. append_buffer data b = Inr b' \<and> wf_buffer b' \<and> contents b' = contents b @ data"
proof -
  obtain b' where b': "ensureWritableBytes (length data) b = Inr b'" "wf_buffer b'"
      "contents b' = contents b" "length data \<le> writableBytes b'"
    using ensureWritableBytes_ok[OF assms] by blast
  let ?b = "b'\<lparr>store := copy_to (store b') (writerIndex b') data,
               writerIndex := writerIndex b' + length data\<rparr>"
  have fits: "writerIndex b' + length data \<le> length (store b')"
    using b'(2,4) unfolding writableBytes_def wf_buffer_def by linarith
  have "append_buffer data b = Inr ?b" by (simp add: append_buffer_def b'(1))
  moreover have "wf_buffer ?b" using b'(2) fits by (simp add: wf_buffer_def)
  moreover have "contents ?b = contents b @ data"
    using b'(2,3) fits by (simp add: contents_def copy_simps wf_buffer_def)
  ultimately show ?thesis by simp
qed

lemma store_append_buffer_fits:
  assumes "length data \<le> writableBytes b"
  shows "append_buffer data b =
    Inr (b\<lparr>store := copy_to (store b) (writerIndex b) data,
             writerIndex := writerIndex b + length data\<rparr>)"
  using assms by (simp add: append_buffer_def ensureWritableBytes_def)

subsection \<open>Descriptors\<close>

definition read_room :: "buffer \<Rightarrow> nat" where
  "read_room b = (if writableBytes b < extrabuf_size then writableBytes b + extrabuf_size
                  else writableBytes b)"

lemma extrabuf_le_read_room: "extrabuf_size \<le> read_room b"
  by (simp add: read_room_def)

lemma readFd_ok:
  assumes wf: "wf_buffer b"
  shows "\<exists>b'. readFd (ReadOk available) b
      = Inr (int (length (take (read_room b) available)), None, b')
    \<and> wf_buffer b' \<and> contents b' = contents b @ take (read_room b) available"
proof -
  let ?d = "take (read_room b) available" and ?w = "writableBytes b"
  let ?b1 = "b\<lparr>store := copy_to (store b) (writerIndex b) (take ?w ?d)\<rparr>"
  have fits: "writerIndex b + length (take ?w ?d) \<le> length (store b)"
  proof -
    have "length (take ?w ?d) \<le> ?w" by simp
    then show ?thesis using wf unfolding writableBytes_def wf_buffer_def by linarith
  qed
  have start: "contents (b\<lparr>store := copy_to (store b) (writerIndex b) (take ?w ?d),
      writerIndex := writerIndex b + length (take ?w ?d)\<rparr>) = contents b @ take ?w ?d"
    using wf fits by (simp add: contents_def copy_simps wf_buffer_def del: length_take)
  show ?thesis
  proof (cases "length ?d \<le> ?w")
    case True
    let ?b = "?b1\<lparr>writerIndex := writerIndex ?b1 + length ?d\<rparr>"
    have "readFd (ReadOk available) b = Inr (int (length ?d), None, ?b)"
      using True by (simp add: readFd_def Let_def read_room_def)
    moreover have "take ?w ?d = ?d" using True by (rule take_all)
    ultimately show ?thesis
      using start fits wf by (simp add: wf_buffer_def del: length_take take_take)
  next
    case False
    let ?b = "?b1\<lparr>writerIndex := length (store ?b1)\<rparr>"
    have w: "length (take ?w ?d) = ?w" using False by simp
    have st: "length (store ?b1) = length (store b)" using fits by simp
    have wi: "length (store b) = writerIndex b + length (take ?w ?d)"
      unfolding w using wf by (simp add: writableBytes_def wf_buffer_def)
    have wf': "wf_buffer ?b" using wf st by (simp add: wf_buffer_def)
    have cont: "contents ?b = contents b @ take ?w ?d" using start st wi by (simp add: contents_def)
    obtain b' where b': "append_buffer (drop ?w ?d) ?b = Inr b'" "wf_buffer b'"
        "contents b' = contents ?b @ drop ?w ?d"
      using append_buffer_ok[OF wf'] by blast
    have "readFd (ReadOk available) b = Inr (int (length ?d), None, b')"
      unfolding readFd_def Let_def read_answer.case read_room_def[symmetric] if_not_P[OF False]
      by (simp only: b'(1) bind_result.simps)
    moreover have "contents b' = contents b @ ?d"
      using b'(3) cont by (simp del: take_take)
    ultimately show ?thesis using b'(2) by blast
  qed
qed

lemma readFd_err: "readFd (ReadErr e) b = Inr (-1, Some e, b)"
  by (simp add: readFd_def)

lemma readFd_total: "wf_buffer b \<Longrightarrow> \<exists>n e b'. readFd ans b = Inr (n, e, b') \<and> wf_buffer b'"
  using readFd_ok[of b] readFd_err by (cases ans) fastforce+

lemma writeFd_ok:
  assumes wf: "wf_buffer b"
  shows "\<exists>b'. writeFd (WriteOk k) b
      = Inr (int (length (take k (contents b))), None, take k (contents b), b')
    \<and> wf_buffer b' \<and> contents b' = drop k (contents b)"
proof -
  have len: "length (contents b) = readableBytes b" by (rule length_contents[OF wf])
  let ?n = "length (take k (contents b))"
  obtain b' where b': "retrieve ?n b = Inr b'" "wf_buffer b'" "contents b' = drop ?n (contents b)"
    using retrieve_ok[OF wf, of ?n] len by auto
  have "drop ?n (contents b) = drop k (contents b)" by (simp add: min_def)
  moreover have "read_range b (readerIndex b) (readableBytes b) = Inr (contents b)"
    using read_range_contents[OF wf, of "readableBytes b"] len by simp
  ultimately show ?thesis
    using b' by (simp add: writeFd_def sys_write_def del: length_take)
qed

subsection \<open>The contract: a queue of bytes\<close>

text \<open>A client's calls, and what it reads while it makes them.\<close>

datatype queue_op = Put "char list" | Get nat

fun run_queue ::
    "(char list \<Rightarrow> 'q \<Rightarrow> 'q result) \<Rightarrow> (nat \<Rightarrow> 'q \<Rightarrow> (char list \<times> 'q) result)
       \<Rightarrow> queue_op list \<Rightarrow> 'q \<Rightarrow> (char list \<times> 'q) result" where
  "run_queue put get [] q = Inr ([], q)"
| "run_queue put get (Put xs # ops) q = bind_result (put xs q) (run_queue put get ops)"
| "run_queue put get (Get n # ops) q =
     bind_result (get n q) (\<lambda>(out, q').
     bind_result (run_queue put get ops q') (\<lambda>(out', q''). Inr (out @ out', q'')))"

fun put_bytes :: "queue_op list \<Rightarrow> char list" where
  "put_bytes [] = []"
| "put_bytes (Put xs # ops) = xs @ put_bytes ops"
| "put_bytes (Get n # ops) = put_bytes ops"

text \<open>No call reads more than the queue holds, starting with \<open>n\<close> bytes.\<close>

fun within :: "nat \<Rightarrow> queue_op list \<Rightarrow> bool" where
  "within n [] = True"
| "within n (Put xs # ops) = within (n + length xs) ops"
| "within n (Get k # ops) = (k \<le> n \<and> within (n - k) ops)"

locale byte_queue =
  fixes inv :: "'q \<Rightarrow> bool"
    and bytes :: "'q \<Rightarrow> char list"
    and put :: "char list \<Rightarrow> 'q \<Rightarrow> 'q result"
    and get :: "nat \<Rightarrow> 'q \<Rightarrow> (char list \<times> 'q) result"
  assumes put_ok: "inv q \<Longrightarrow> \<exists>q'. put xs q = Inr q' \<and> inv q' \<and> bytes q' = bytes q @ xs"
    and get_ok: "inv q \<Longrightarrow> n \<le> length (bytes q) \<Longrightarrow>
      \<exists>q'. get n q = Inr (take n (bytes q), q') \<and> inv q' \<and> bytes q' = drop n (bytes q)"
    and get_fail: "inv q \<Longrightarrow> length (bytes q) < n \<Longrightarrow> get n q = Inl AssertFail"
begin

lemma run_total:
  "inv q \<Longrightarrow> within (length (bytes q)) ops \<Longrightarrow>
     \<exists>out q'. run_queue put get ops q = Inr (out, q') \<and> inv q'
       \<and> out @ bytes q' = bytes q @ put_bytes ops"
proof (induction ops arbitrary: q)
  case Nil
  then show ?case by simp
next
  case (Cons op ops)
  show ?case
  proof (cases op)
    case (Put xs)
    obtain q1 where q1: "put xs q = Inr q1" "inv q1" "bytes q1 = bytes q @ xs"
      using put_ok Cons.prems(1) by blast
    show ?thesis using Cons.IH[OF q1(2)] Cons.prems q1 Put by simp
  next
    case (Get n)
    with Cons.prems have n: "n \<le> length (bytes q)" by simp
    obtain q1 where q1: "get n q = Inr (take n (bytes q), q1)" "inv q1"
        "bytes q1 = drop n (bytes q)"
      using get_ok[OF Cons.prems(1) n] by blast
    obtain out q2 where q2: "run_queue put get ops q1 = Inr (out, q2)" "inv q2"
        "out @ bytes q2 = bytes q1 @ put_bytes ops"
      using Cons.IH[OF q1(2)] Cons.prems(2) Get q1(3) by auto
    have "take n (bytes q) @ out @ bytes q2 = bytes q @ put_bytes ops"
      by (simp add: q2(3) q1(3))
    then show ?thesis using q1 q2 Get by simp
  qed
qed

lemma run_fail:
  "inv q \<Longrightarrow> \<not> within (length (bytes q)) ops \<Longrightarrow> run_queue put get ops q = Inl AssertFail"
proof (induction ops arbitrary: q)
  case Nil
  then show ?case by simp
next
  case (Cons op ops)
  show ?case
  proof (cases op)
    case (Put xs)
    obtain q1 where q1: "put xs q = Inr q1" "inv q1" "bytes q1 = bytes q @ xs"
      using put_ok Cons.prems(1) by blast
    show ?thesis using Cons.IH[OF q1(2)] Cons.prems q1 Put by simp
  next
    case (Get n)
    show ?thesis
    proof (cases "n \<le> length (bytes q)")
      case True
      obtain q1 where q1: "get n q = Inr (take n (bytes q), q1)" "inv q1"
          "bytes q1 = drop n (bytes q)"
        using get_ok[OF Cons.prems(1) True] by blast
      show ?thesis using Cons.IH[OF q1(2)] Cons.prems(2) Get q1 True by simp
    next
      case False
      then show ?thesis using get_fail Cons.prems(1) Get by simp
    qed
  qed
qed

end

interpretation bq: byte_queue wf_buffer contents append_buffer retrieveAsString
proof unfold_locales
  show "wf_buffer q \<Longrightarrow> length (contents q) < n \<Longrightarrow> retrieveAsString n q = Inl AssertFail" for q n
    by (simp add: length_contents retrieveAsString_too_much)
  show "wf_buffer q \<Longrightarrow> n \<le> length (contents q) \<Longrightarrow>
      \<exists>q'. retrieveAsString n q = Inr (take n (contents q), q') \<and> wf_buffer q'
        \<and> contents q' = drop n (contents q)" for q n
    using retrieveAsString_ok by (simp add: length_contents)
qed (rule append_buffer_ok)

subsection \<open>Property\<close>

text \<open>C10: a buffer is a queue of bytes. Over every sequence of \<open>append\<close> and \<open>retrieveAsString\<close>
  calls, whatever makes the storage grow or its contents move, what was read followed by what
  the buffer still holds is what it held followed by what was appended; no assertion fails,
  unless a call asks for more than the buffer holds at that point, when the assertion of
  \<open>retrieveAsString\<close> does.\<close>

theorem buffer_is_byte_queue:
  assumes "wf_buffer b"
  shows "if within (length (contents b)) ops
    then \<exists>out b'. run_queue append_buffer retrieveAsString ops b = Inr (out, b') \<and> wf_buffer b'
           \<and> out @ contents b' = contents b @ put_bytes ops
    else run_queue append_buffer retrieveAsString ops b = Inl AssertFail"
  using bq.run_total[OF assms] bq.run_fail[OF assms] by simp

theorem buffer_is_byte_queue_witness:
  "(\<exists>b'. run_queue append_buffer retrieveAsString [Put ''hello'', Get 2] (Buffer kInitialSize)
      = Inr (''he'', b'))
   \<and> run_queue append_buffer retrieveAsString [Put ''a'', Get 2] (Buffer kInitialSize) = Inl AssertFail"
proof -
  let ?run = "\<lambda>ops. run_queue append_buffer retrieveAsString ops (Buffer kInitialSize)"
  obtain out b' where r: "?run [Put ''hello'', Get 2] = Inr (out, b')" "out @ contents b' = ''hello''"
    using buffer_is_byte_queue[OF wf_Buffer, of kInitialSize "[Put ''hello'', Get 2]"] by auto
  obtain b1 where b1: "append_buffer ''hello'' (Buffer kInitialSize) = Inr b1" "wf_buffer b1"
      "contents b1 = ''hello''"
    using append_buffer_ok[OF wf_Buffer, of "''hello''" kInitialSize] by auto
  then have "2 \<le> readableBytes b1" using length_contents[of b1] by simp
  then have "out = ''he''"
    using r(1) b1 retrieveAsString_ok[OF b1(2), of 2] by auto
  moreover have "?run [Put ''a'', Get 2] = Inl AssertFail"
    using buffer_is_byte_queue[OF wf_Buffer, of kInitialSize "[Put ''a'', Get 2]"]
    by (simp del: run_queue.simps)
  ultimately show ?thesis using r(1) by blast
qed

end
