(* ===== verification/Time_Stamp.thy ===== *)
theory Time_Stamp
  imports Net_Prelude "HOL-Library.Signed_Division" "HOL-Library.Log_Nat" "HOL-Library.Product_Lexorder"
begin

section \<open>Time stamps (src/base/TimeStamp.h, src/base/TimeStamp.cpp)\<close>

text \<open>
  A \<open>TimeStamp\<close> is a count of microseconds, an \<open>int64_t\<close> in the code and an \<open>int\<close> here:
  the sums the code forms are exact as long as they stay in the range of \<open>int64_t\<close>,
  which all dates of the next 290000 years do. Quotients truncate towards zero, as in C
  (\<open>sdiv\<close>, \<open>smod\<close>). A finite \<open>double\<close> is its rational value; the one product the code
  forms with doubles is rounded to the nearest value with a 53 bit significand, ties to
  even, as IEEE 754 arithmetic does for results in the normal range.
\<close>

datatype TimeStamp = TimeStamp (microSecondsSinceEpoch: int)

definition kMicroSecondsPerSecond :: int where
  "kMicroSecondsPerSecond = 1000 * 1000"

definition TimeStamp_default :: TimeStamp where
  "TimeStamp_default = TimeStamp 0"

definition TimeStamp_invalid :: TimeStamp where
  "TimeStamp_invalid = TimeStamp_default"

text \<open>\<open>gettimeofday\<close> fills a \<open>struct timeval\<close>: seconds and microseconds.\<close>

definition TimeStamp_now :: "int \<times> int \<Rightarrow> TimeStamp" where
  "TimeStamp_now tv = TimeStamp (fst tv * kMicroSecondsPerSecond + snd tv)"

definition secondsSinceEpoch :: "TimeStamp \<Rightarrow> int" where
  "secondsSinceEpoch t = microSecondsSinceEpoch t sdiv kMicroSecondsPerSecond"

text \<open>\<open>operator<\<close> and \<open>operator==\<close> compare the counts: an order on the type.\<close>

instantiation TimeStamp :: linorder
begin

definition less_eq_TimeStamp :: "TimeStamp \<Rightarrow> TimeStamp \<Rightarrow> bool" where
  "less_eq_TimeStamp a b \<longleftrightarrow> microSecondsSinceEpoch a \<le> microSecondsSinceEpoch b"

definition less_TimeStamp :: "TimeStamp \<Rightarrow> TimeStamp \<Rightarrow> bool" where
  "less_TimeStamp a b \<longleftrightarrow> microSecondsSinceEpoch a < microSecondsSinceEpoch b"

instance
  by standard (auto simp: less_eq_TimeStamp_def less_TimeStamp_def intro: TimeStamp.expand)

end

lemma TimeStamp_less [simp]: "TimeStamp a < TimeStamp b \<longleftrightarrow> a < b"
  by (simp add: less_TimeStamp_def)

lemma TimeStamp_le [simp]: "TimeStamp a \<le> TimeStamp b \<longleftrightarrow> a \<le> b"
  by (simp add: less_eq_TimeStamp_def)

subsection \<open>Products of doubles\<close>

type_synonym double = rat

definition round_half_even :: "rat \<Rightarrow> int" where
  "round_half_even x =
     (let f = \<lfloor>x\<rfloor>; d = x - of_int f
      in if d < 1 / 2 then f else if 1 / 2 < d then f + 1 else if even f then f else f + 1)"

text \<open>The exponent of the leading binary digit of a positive number.\<close>

definition leading_exponent :: "rat \<Rightarrow> int" where
  "leading_exponent x =
     (let (p, q) = quotient_of x;
          k = int (floorlog 2 (nat p)) - int (floorlog 2 (nat q))
      in if 2 powi k \<le> x then k else k - 1)"

definition to_double :: "rat \<Rightarrow> double" where
  "to_double x =
     (if x = 0 then 0
      else let u = 2 powi (leading_exponent \<bar>x\<bar> - 52)
           in sgn x * of_int (round_half_even (\<bar>x\<bar> / u)) * u)"

definition double_mult :: "double \<Rightarrow> double \<Rightarrow> double" where
  "double_mult x y = to_double (x * y)"

text \<open>\<open>static_cast<int64_t>\<close> of a \<open>double\<close> drops the fraction.\<close>

definition int_of_double :: "double \<Rightarrow> int" where
  "int_of_double x = (if x < 0 then - \<lfloor>- x\<rfloor> else \<lfloor>x\<rfloor>)"

definition addTime :: "TimeStamp \<Rightarrow> double \<Rightarrow> TimeStamp" where
  "addTime timestamp seconds =
     (let delta = int_of_double (double_mult seconds (of_int kMicroSecondsPerSecond))
      in TimeStamp (microSecondsSinceEpoch timestamp + delta))"

subsection \<open>Facts about rounding\<close>

lemma round_half_even_of_int [simp]: "round_half_even (of_int n) = n"
  by (simp add: round_half_even_def)

lemma round_half_even_nonneg: "0 \<le> x \<Longrightarrow> 0 \<le> round_half_even x"
  by (simp add: round_half_even_def Let_def)

lemma to_double_nonneg: "0 \<le> x \<Longrightarrow> 0 \<le> to_double x"
  by (simp add: to_double_def Let_def round_half_even_nonneg)

lemma int_of_double_nonneg: "0 \<le> x \<Longrightarrow> 0 \<le> int_of_double x"
  by (simp add: int_of_double_def)

lemma int_of_double_of_int [simp]: "int_of_double (of_int n) = n"
  by (simp add: int_of_double_def flip: of_int_minus)

lemma leading_exponent_of_int:
  assumes "0 < n" and "n < 2 ^ 53"
  shows "leading_exponent (of_int n) \<le> 52"
proof -
  have "nat n < 2 ^ 53" using assms by (simp add: nat_less_iff)
  then have "floorlog 2 (nat n) \<le> 53" by (intro floorlog_leI) simp_all
  moreover have "floorlog 2 (nat 1) = 1" by (simp add: floorlog_def)
  ultimately show ?thesis by (simp add: leading_exponent_def Let_def)
qed

lemma to_double_of_int:
  assumes "0 \<le> n" and "n < 2 ^ 53"
  shows "to_double (of_int n) = of_int n"
proof (cases "n = 0")
  case True
  then show ?thesis by (simp add: to_double_def)
next
  case False
  with assms have pos: "0 < n" by simp
  let ?e = "leading_exponent (rat_of_int n) - 52"
  define k where "k = nat (- ?e)"
  have e: "?e = - int k"
    using leading_exponent_of_int[OF pos assms(2)] by (simp add: k_def)
  have u: "(2 :: rat) powi ?e = 1 / 2 ^ k" unfolding e by (simp add: power_int_minus field_simps)
  have "rat_of_int n / (1 / 2 ^ k) = of_int (n * 2 ^ k)" by simp
  then have "round_half_even (rat_of_int n / (1 / 2 ^ k)) = n * 2 ^ k"
    by (metis round_half_even_of_int)
  with pos u show ?thesis by (simp add: to_double_def Let_def)
qed

lemma addTime_whole_seconds:
  assumes "n * kMicroSecondsPerSecond < 2 ^ 53" and "0 \<le> n"
  shows "addTime t (of_int n) = TimeStamp (microSecondsSinceEpoch t + n * kMicroSecondsPerSecond)"
proof -
  have "double_mult (of_int n) (of_int kMicroSecondsPerSecond) = of_int (n * kMicroSecondsPerSecond)"
    using to_double_of_int[of "n * kMicroSecondsPerSecond"] assms
    by (simp add: double_mult_def kMicroSecondsPerSecond_def)
  then show ?thesis by (simp add: addTime_def del: of_int_mult)
qed

lemma addTime_mono: "0 \<le> s \<Longrightarrow> t \<le> addTime t s"
  by (cases t) (simp add: addTime_def double_mult_def kMicroSecondsPerSecond_def
      int_of_double_nonneg to_double_nonneg)

subsection \<open>Printing\<close>

text \<open>
  \<open>localtime\<close> is a parameter: the broken-down local time depends on the time zone of
  the process. The fields are those of \<open>struct tm\<close>.
\<close>

record tm =
  tm_sec :: int
  tm_min :: int
  tm_hour :: int
  tm_mday :: int
  tm_mon :: int
  tm_year :: int

text \<open>\<open>%0wd\<close> and \<open>%wd\<close>: at least \<open>w\<close> characters, filled with zeros or blanks.\<close>

definition pad_with :: "char \<Rightarrow> nat \<Rightarrow> char list \<Rightarrow> char list" where
  "pad_with c w s = replicate (w - length s) c @ s"

definition print_zero :: "nat \<Rightarrow> int \<Rightarrow> char list" where
  "print_zero w k =
     (if k < 0 then CHR ''-'' # pad_with (CHR ''0'') (w - 1) (decimal (nat (- k)))
      else pad_with (CHR ''0'') w (decimal (nat k)))"

definition print_blank :: "nat \<Rightarrow> int \<Rightarrow> char list" where
  "print_blank w k = pad_with (CHR '' '') w (decimal_int k)"

definition print_date :: "tm \<Rightarrow> char list" where
  "print_date x =
     print_blank 4 (tm_year x + 1900) @ ''-'' @ print_zero 2 (tm_mon x + 1) @ ''-''
     @ print_zero 2 (tm_mday x) @ '' '' @ print_zero 2 (tm_hour x) @ '':''
     @ print_zero 2 (tm_min x) @ '':'' @ print_zero 2 (tm_sec x)"

definition toFormattedString :: "(int \<Rightarrow> tm) \<Rightarrow> bool \<Rightarrow> TimeStamp \<Rightarrow> char list" where
  "toFormattedString localtime showMicroseconds t =
     (let seconds = microSecondsSinceEpoch t sdiv kMicroSecondsPerSecond;
          tm_time = localtime seconds
      in if showMicroseconds
         then let microseconds = microSecondsSinceEpoch t smod kMicroSecondsPerSecond
              in snprintf_keep 64 (print_date tm_time @ ''.'' @ print_zero 6 microseconds)
         else snprintf_keep 64 (print_date tm_time))"

text \<open>The ranges that the C standard gives for the fields, and a year of four digits.\<close>

definition wf_tm :: "tm \<Rightarrow> bool" where
  "wf_tm x \<longleftrightarrow> 0 \<le> tm_sec x \<and> tm_sec x \<le> 60 \<and> 0 \<le> tm_min x \<and> tm_min x \<le> 59
     \<and> 0 \<le> tm_hour x \<and> tm_hour x \<le> 23 \<and> 1 \<le> tm_mday x \<and> tm_mday x \<le> 31
     \<and> 0 \<le> tm_mon x \<and> tm_mon x \<le> 11 \<and> 1000 \<le> tm_year x + 1900 \<and> tm_year x + 1900 \<le> 9999"

lemma length_print_zero:
  assumes "0 \<le> k" and "k < 10 ^ w" and "0 < w"
  shows "length (print_zero w k) = w"
proof -
  have "nat k < 10 ^ w" using assms by (simp add: nat_less_iff)
  then have "length (decimal (nat k)) \<le> w" using assms(3) by (rule length_decimal_le)
  then show ?thesis using assms(1) by (simp add: print_zero_def pad_with_def)
qed

lemma length_print_date:
  assumes "wf_tm x"
  shows "length (print_date x) = 19"
proof -
  have "length (decimal (nat (tm_year x + 1900))) \<le> 4"
    using assms by (intro length_decimal_le) (auto simp: wf_tm_def)
  then have "length (print_blank 4 (tm_year x + 1900)) = 4"
    using assms by (simp add: print_blank_def pad_with_def decimal_int_def wf_tm_def)
  then show ?thesis
    using assms by (simp add: print_date_def length_print_zero wf_tm_def)
qed

lemma smod_million_bound:
  "0 \<le> t \<Longrightarrow> 0 \<le> t smod kMicroSecondsPerSecond \<and> t smod kMicroSecondsPerSecond < 10 ^ 6"
  by (cases "t = 0") (simp_all add: kMicroSecondsPerSecond_def signed_modulo_int_def)

lemma sdiv_smod_million:
  "(t sdiv kMicroSecondsPerSecond) * kMicroSecondsPerSecond + t smod kMicroSecondsPerSecond = t"
  by (rule sdiv_mult_smod_eq)

lemma length_toFormattedString:
  assumes "wf_tm (localtime (secondsSinceEpoch t))" and "0 \<le> microSecondsSinceEpoch t"
  shows "length (toFormattedString localtime us t) = (if us then 26 else 19)"
  using assms length_print_date length_print_zero[of _ 6] smod_million_bound
  by (simp add: toFormattedString_def Let_def snprintf_keep_def secondsSinceEpoch_def)


lemma parse_padded:
  assumes "0 \<le> k" and "k < 10 ^ w" and "0 < w"
  shows "parse_decimal (print_zero w k) = nat k"
proof -
  have "parse_decimal (replicate n (CHR ''0'') @ s) = parse_decimal s" for n s
    by (induction n) (simp_all add: parse_decimal_def char_digit_def)
  then show ?thesis
    using assms(1) by (simp add: print_zero_def pad_with_def parse_decimal_decimal)
qed

subsection \<open>Properties\<close>

text \<open>C40: a printed time is complete. \<open>toFormattedString\<close> fits its buffer of 64 bytes: for every
  time since 1970 whose local date has a year of four digits it is the date, in 19 characters, a
  point and six digits, and the digits with the second are the time again.\<close>

theorem formatted_time:
  assumes "wf_tm (localtime (secondsSinceEpoch t))" and "0 \<le> microSecondsSinceEpoch t"
  shows "length (toFormattedString localtime True t) = 26
    \<and> take 19 (toFormattedString localtime True t) = print_date (localtime (secondsSinceEpoch t))
    \<and> secondsSinceEpoch t * kMicroSecondsPerSecond
        + int (parse_decimal (drop 20 (toFormattedString localtime True t))) = microSecondsSinceEpoch t"
proof -
  let ?s = "toFormattedString localtime True t" and ?us = "microSecondsSinceEpoch t smod kMicroSecondsPerSecond"
  note b = smod_million_bound[OF assms(2)]
  have len: "length ?s = 26" using length_toFormattedString[where localtime = localtime, OF assms] by simp
  have s: "?s = print_date (localtime (secondsSinceEpoch t)) @ ''.'' @ print_zero 6 ?us"
    using length_print_date[OF assms(1)] length_print_zero[of ?us 6] b
    by (simp add: toFormattedString_def Let_def snprintf_keep_def secondsSinceEpoch_def)
  have "drop 20 ?s = print_zero 6 ?us" unfolding s using length_print_date[OF assms(1)] by simp
  then have "int (parse_decimal (drop 20 ?s)) = ?us" using parse_padded[of ?us 6] b by simp
  moreover have "take 19 ?s = print_date (localtime (secondsSinceEpoch t))"
    unfolding s using length_print_date[OF assms(1)] by simp
  ultimately show ?thesis
    using len sdiv_smod_million[of "microSecondsSinceEpoch t"] by (simp add: secondsSinceEpoch_def)
qed

theorem formatted_time_witness:
  "length (toFormattedString (\<lambda>_. \<lparr>tm_sec = 1, tm_min = 0, tm_hour = 8, tm_mday = 1, tm_mon = 0,
     tm_year = 70\<rparr>) True (TimeStamp 1000042)) = 26
   \<and> parse_decimal (drop 20 (toFormattedString (\<lambda>_. \<lparr>tm_sec = 1, tm_min = 0, tm_hour = 8, tm_mday = 1,
       tm_mon = 0, tm_year = 70\<rparr>) True (TimeStamp 1000042))) = 42"
proof -
  have "secondsSinceEpoch (TimeStamp 1000042) = 1"
    by (simp add: secondsSinceEpoch_def kMicroSecondsPerSecond_def)
  with formatted_time[of "\<lambda>_. \<lparr>tm_sec = 1, tm_min = 0, tm_hour = 8, tm_mday = 1, tm_mon = 0, tm_year = 70\<rparr>"
      "TimeStamp 1000042"]
  show ?thesis by (simp add: wf_tm_def kMicroSecondsPerSecond_def)
qed

end
