(* ===== verification/Net_Channel.thy ===== *)
theory Net_Channel
  imports Net_Prelude Time_Stamp
begin

unbundle bit_operations_syntax

section \<open>Channels (src/net/Channel.h, src/net/Channel.cpp)\<close>

text \<open>
  A \<open>Channel\<close> ties a descriptor to the events its owner wants and to four callbacks.
  The record \<open>channel\<close> is its data; \<open>events_\<close> and \<open>revents_\<close> are C \<open>int\<close>s used as
  bit sets, so they are 32 bit words. A callback is a function on the state of the
  program, absent where the \<open>std::function\<close> is empty. The object behind \<open>tie_\<close> is a
  number, and whether it still exists is an argument of \<open>handleEvent\<close>. The updates of
  the interest set in the poller are in \<open>Net_Poller\<close>.
\<close>

subsection \<open>Event bits of \<open>sys/epoll.h\<close>\<close>

definition EPOLLIN :: "32 word" where "EPOLLIN = 0x001"
definition EPOLLPRI :: "32 word" where "EPOLLPRI = 0x002"
definition EPOLLOUT :: "32 word" where "EPOLLOUT = 0x004"
definition EPOLLERR :: "32 word" where "EPOLLERR = 0x008"
definition EPOLLHUP :: "32 word" where "EPOLLHUP = 0x010"

lemmas epoll_bits = EPOLLIN_def EPOLLPRI_def EPOLLOUT_def EPOLLERR_def EPOLLHUP_def

definition kNoneEvent :: "32 word" where "kNoneEvent = 0"
definition kReadEvent :: "32 word" where "kReadEvent = EPOLLIN OR EPOLLPRI"
definition kWriteEvent :: "32 word" where "kWriteEvent = EPOLLOUT"

lemmas channel_events = kNoneEvent_def kReadEvent_def kWriteEvent_def epoll_bits

record channel =
  chan_fd :: int              \<comment> \<open>\<open>fd_\<close>\<close>
  events :: "32 word"         \<comment> \<open>\<open>events_\<close>\<close>
  revents :: "32 word"        \<comment> \<open>\<open>revents_\<close>\<close>
  index :: int                \<comment> \<open>\<open>index_\<close>\<close>
  tie_obj :: "nat option"     \<comment> \<open>\<open>tie_\<close>\<close>
  tied :: bool                \<comment> \<open>\<open>tied_\<close>\<close>

definition Channel :: "int \<Rightarrow> channel" where
  "Channel fd = \<lparr>chan_fd = fd, events = 0, revents = 0, index = -1, tie_obj = None, tied = False\<rparr>"

definition tie :: "nat \<Rightarrow> channel \<Rightarrow> channel" where
  "tie obj ch = ch\<lparr>tie_obj := Some obj, tied := True\<rparr>"

definition set_revents :: "32 word \<Rightarrow> channel \<Rightarrow> channel" where
  "set_revents revt ch = ch\<lparr>revents := revt\<rparr>"

definition isNoneEvent :: "channel \<Rightarrow> bool" where
  "isNoneEvent ch \<longleftrightarrow> events ch = kNoneEvent"

definition isWriting :: "channel \<Rightarrow> bool" where
  "isWriting ch \<longleftrightarrow> events ch AND kWriteEvent \<noteq> 0"

definition isReading :: "channel \<Rightarrow> bool" where
  "isReading ch \<longleftrightarrow> events ch AND kReadEvent \<noteq> 0"

text \<open>The changes of \<open>events_\<close> that precede \<open>update()\<close>.\<close>

definition want_read :: "channel \<Rightarrow> channel" where
  "want_read ch = ch\<lparr>events := events ch OR kReadEvent\<rparr>"

definition unwant_read :: "channel \<Rightarrow> channel" where
  "unwant_read ch = ch\<lparr>events := events ch AND NOT kReadEvent\<rparr>"

definition want_write :: "channel \<Rightarrow> channel" where
  "want_write ch = ch\<lparr>events := events ch OR kWriteEvent\<rparr>"

definition unwant_write :: "channel \<Rightarrow> channel" where
  "unwant_write ch = ch\<lparr>events := events ch AND NOT kWriteEvent\<rparr>"

definition unwant_all :: "channel \<Rightarrow> channel" where
  "unwant_all ch = ch\<lparr>events := kNoneEvent\<rparr>"

lemmas channel_defs = want_read_def unwant_read_def want_write_def unwant_write_def unwant_all_def

lemma isWriting_want_write [simp]: "isWriting (want_write ch)"
proof -
  have "(events ch OR kWriteEvent) AND kWriteEvent = kWriteEvent"
    by (simp add: word_ao_absorbs(2) or.commute)
  then show ?thesis by (simp add: isWriting_def want_write_def channel_events)
qed

lemma isWriting_unwant_write [simp]: "\<not> isWriting (unwant_write ch)"
  by (simp add: isWriting_def unwant_write_def and.assoc)

lemma isWriting_unwant_all [simp]: "\<not> isWriting (unwant_all ch)"
  by (simp add: isWriting_def unwant_all_def kNoneEvent_def)

lemma isNoneEvent_unwant_all [simp]: "isNoneEvent (unwant_all ch)"
  by (simp add: isNoneEvent_def unwant_all_def)

lemma isWriting_none: "isNoneEvent ch \<Longrightarrow> \<not> isWriting ch"
  by (simp add: isWriting_def isNoneEvent_def kNoneEvent_def)

lemma isWriting_want_read [simp]: "isWriting (want_read ch) = isWriting ch"
proof -
  have "kReadEvent AND kWriteEvent = 0" by (simp add: channel_events)
  then have "(events ch OR kReadEvent) AND kWriteEvent = events ch AND kWriteEvent"
    by (simp add: word_ao_dist)
  then show ?thesis by (simp add: isWriting_def want_read_def)
qed

subsection \<open>Dispatching an event\<close>

record 'w chan_callbacks =
  readCallback :: "(TimeStamp \<Rightarrow> 'w \<Rightarrow> 'w result) option"
  writeCallback :: "('w \<Rightarrow> 'w result) option"
  closeCallback :: "('w \<Rightarrow> 'w result) option"
  errorCallback :: "('w \<Rightarrow> 'w result) option"

text \<open>\<open>if (callback) callback ();\<close>\<close>

definition call_if_set :: "('w \<Rightarrow> 'w result) option \<Rightarrow> 'w \<Rightarrow> 'w result" where
  "call_if_set cb w = (case cb of None \<Rightarrow> Inr w | Some f \<Rightarrow> f w)"

definition handleEventWithGuard ::
    "'w chan_callbacks \<Rightarrow> 32 word \<Rightarrow> TimeStamp \<Rightarrow> 'w \<Rightarrow> 'w result" where
  "handleEventWithGuard cbs revt receiveTime w =
     bind_result (if revt AND EPOLLHUP \<noteq> 0 \<and> \<not> revt AND EPOLLIN \<noteq> 0
                  then call_if_set (closeCallback cbs) w else Inr w) (\<lambda>w1.
     bind_result (if revt AND EPOLLERR \<noteq> 0
                  then call_if_set (errorCallback cbs) w1 else Inr w1) (\<lambda>w2.
     bind_result (if revt AND (EPOLLIN OR EPOLLPRI) \<noteq> 0
                  then call_if_set (map_option (\<lambda>f. f receiveTime) (readCallback cbs)) w2
                  else Inr w2) (\<lambda>w3.
     if revt AND EPOLLOUT \<noteq> 0 then call_if_set (writeCallback cbs) w3 else Inr w3)))"

text \<open>\<open>tie_.lock ()\<close> is not empty iff the tied object still has an owner.\<close>

definition handleEvent ::
    "'w chan_callbacks \<Rightarrow> (nat \<Rightarrow> bool) \<Rightarrow> channel \<Rightarrow> TimeStamp \<Rightarrow> 'w \<Rightarrow> 'w result" where
  "handleEvent cbs alive ch receiveTime w =
     (if tied ch
      then if (case tie_obj ch of None \<Rightarrow> False | Some obj \<Rightarrow> alive obj)
           then handleEventWithGuard cbs (revents ch) receiveTime w else Inr w
      else handleEventWithGuard cbs (revents ch) receiveTime w)"

text \<open>
  A specification of the dispatch: the callbacks that a set of returned events calls, in
  order. \<open>call_sequence\<close> runs them, stopping at the first failure.
\<close>

datatype handler = OnClose | OnError | OnRead | OnWrite

definition handlers_for :: "32 word \<Rightarrow> handler list" where
  "handlers_for revt =
     (if bit revt 4 \<and> \<not> bit revt 0 then [OnClose] else [])
     @ (if bit revt 3 then [OnError] else [])
     @ (if bit revt 0 \<or> bit revt 1 then [OnRead] else [])
     @ (if bit revt 2 then [OnWrite] else [])"

fun call_handler :: "'w chan_callbacks \<Rightarrow> TimeStamp \<Rightarrow> handler \<Rightarrow> 'w \<Rightarrow> 'w result" where
  "call_handler cbs t OnClose = call_if_set (closeCallback cbs)"
| "call_handler cbs t OnError = call_if_set (errorCallback cbs)"
| "call_handler cbs t OnRead = call_if_set (map_option (\<lambda>f. f t) (readCallback cbs))"
| "call_handler cbs t OnWrite = call_if_set (writeCallback cbs)"

fun call_sequence :: "('h \<Rightarrow> 'w \<Rightarrow> 'w result) \<Rightarrow> 'h list \<Rightarrow> 'w \<Rightarrow> 'w result" where
  "call_sequence call [] w = Inr w"
| "call_sequence call (h # hs) w = bind_result (call h w) (call_sequence call hs)"

lemma call_sequence_fun:
  "call_sequence call [] = Inr"
  "call_sequence call (h # hs) = (\<lambda>w. bind_result (call h w) (call_sequence call hs))"
  by (simp_all add: fun_eq_iff)

lemma call_sequence_append:
  "call_sequence call (xs @ ys) = (\<lambda>w. bind_result (call_sequence call xs w) (call_sequence call ys))"
  by (induction xs) (simp_all add: call_sequence_fun result_simps)

lemma call_sequence_fails:
  "call_sequence call hs w = Inl e \<Longrightarrow>
     \<exists>xs h ys w1. hs = xs @ h # ys \<and> call_sequence call xs w = Inr w1 \<and> call h w1 = Inl e"
proof (induction hs arbitrary: w)
  case (Cons h hs)
  show ?case
  proof (cases "call h w")
    case (Inl a)
    then show ?thesis using Cons.prems by (intro exI[of _ "[]"]) simp
  next
    case (Inr w1)
    then have "call_sequence call hs w1 = Inl e" using Cons.prems by simp
    from Cons.IH[OF this] obtain xs g ys w2 where
      "hs = xs @ g # ys" "call_sequence call xs w1 = Inr w2" "call g w2 = Inl e" by blast
    then show ?thesis using Inr by (intro exI[of _ "h # xs"] exI[of _ g] exI[of _ ys] exI[of _ w2]) simp
  qed
qed simp

lemma epoll_bit_tests:
  "w AND EPOLLIN \<noteq> 0 \<longleftrightarrow> bit w 0" "w AND EPOLLERR \<noteq> 0 \<longleftrightarrow> bit w 3"
  "w AND EPOLLOUT \<noteq> 0 \<longleftrightarrow> bit w 2" "w AND EPOLLHUP \<noteq> 0 \<longleftrightarrow> bit w 4"
  "w AND (EPOLLIN OR EPOLLPRI) \<noteq> 0 \<longleftrightarrow> bit w 0 \<or> bit w 1"
proof -
  have "w AND (EPOLLIN OR EPOLLPRI) = (w AND 2 ^ 0) OR (w AND 2 ^ 1)"
    by (simp only: EPOLLIN_def EPOLLPRI_def word_ao_dist2 power_0 power_one_right)
  then show "w AND (EPOLLIN OR EPOLLPRI) \<noteq> 0 \<longleftrightarrow> bit w 0 \<or> bit w 1"
    by (simp only: or_eq_0_iff and_exp_eq_0_iff_not_bit de_Morgan_conj not_not)
  show "w AND EPOLLIN \<noteq> 0 \<longleftrightarrow> bit w 0" using and_exp_eq_0_iff_not_bit[of w 0] by (simp add: EPOLLIN_def)
  show "w AND EPOLLERR \<noteq> 0 \<longleftrightarrow> bit w 3" using and_exp_eq_0_iff_not_bit[of w 3] by (simp add: EPOLLERR_def)
  show "w AND EPOLLOUT \<noteq> 0 \<longleftrightarrow> bit w 2" using and_exp_eq_0_iff_not_bit[of w 2] by (simp add: EPOLLOUT_def)
  show "w AND EPOLLHUP \<noteq> 0 \<longleftrightarrow> bit w 4" using and_exp_eq_0_iff_not_bit[of w 4] by (simp add: EPOLLHUP_def)
qed

lemma handleEventWithGuard_sequence:
  "handleEventWithGuard cbs revt t w = call_sequence (call_handler cbs t) (handlers_for revt) w"
  by (simp add: handleEventWithGuard_def epoll_bit_tests handlers_for_def call_sequence_fun
      result_simps)

subsection \<open>Property\<close>

text \<open>Which callbacks an event calls. For every set of returned events, \<open>handleEvent\<close> calls,
  in this order, the close callback on a hangup without input, the error, read and write
  callbacks on theirs, each at most once and only if it is set, and none after one that fails;
  a channel that is tied to an object that has been destroyed calls none.\<close>

theorem dispatch_order:
  "handleEvent cbs alive ch t w =
     (if tied ch \<and> (tie_obj ch = None \<or> (\<exists>i. tie_obj ch = Some i \<and> \<not> alive i)) then Inr w
      else call_sequence (call_handler cbs t) (handlers_for (revents ch)) w)"
  by (auto simp: handleEvent_def handleEventWithGuard_sequence split: option.splits)

end
