(* ===== verification/Net_Poller.thy ===== *)
theory Net_Poller
  imports Net_Channel
begin

section \<open>The poller (src/net/poller/, Channel::update and Channel::remove)\<close>

text \<open>
  The state of the poller of one event loop: the channel objects by their address
  (\<open>heap\<close>), the map \<open>channels_\<close> from descriptors to channels (\<open>registry\<close>), the size of the
  vector \<open>events_\<close>, and the kernel's interest list of the epoll descriptor (\<open>interest\<close>),
  which \<open>epoll_ctl\<close> changes as its manual page says: adding a registered descriptor and
  changing or deleting one that is not registered fail. \<open>wf_poller\<close> relates the three
  views; the operations of a channel keep it and never reach the fatal log of \<open>update\<close>.
\<close>

record poll_state =
  heap :: "nat \<Rightarrow> channel option"
  registry :: "int \<Rightarrow> nat option"
  interest :: "int \<Rightarrow> (32 word \<times> nat) option"
  event_slots :: nat

definition kNew :: int where "kNew = -1"
definition kAdded :: int where "kAdded = 1"
definition kDeleted :: int where "kDeleted = 2"

lemmas index_defs = kNew_def kAdded_def kDeleted_def

definition kInitEventListSize :: nat where "kInitEventListSize = 16"

definition EPollPoller :: poll_state where
  "EPollPoller = \<lparr>heap = Map.empty, registry = Map.empty, interest = Map.empty,
                  event_slots = kInitEventListSize\<rparr>"

text \<open>
  \<open>newDefaultPoller\<close>; \<open>use_poll\<close> says whether the environment variable \<open>MUDUO_USE_POLL\<close> is set.
  \<open>None\<close> is a null pointer.
\<close>

definition newDefaultPoller :: "bool \<Rightarrow> poll_state option" where
  "newDefaultPoller use_poll = (if use_poll then None else Some EPollPoller)"

datatype ctl_op = EPOLL_CTL_ADD | EPOLL_CTL_MOD | EPOLL_CTL_DEL

text \<open>\<open>None\<close> is the return value \<open>-1\<close>.\<close>

fun epoll_ctl ::
    "ctl_op \<Rightarrow> int \<Rightarrow> 32 word \<times> nat \<Rightarrow> (int \<Rightarrow> (32 word \<times> nat) option)
       \<Rightarrow> (int \<Rightarrow> (32 word \<times> nat) option) option" where
  "epoll_ctl EPOLL_CTL_ADD fd ev il = (if il fd = None then Some (il(fd \<mapsto> ev)) else None)"
| "epoll_ctl EPOLL_CTL_MOD fd ev il = (if il fd = None then None else Some (il(fd \<mapsto> ev)))"
| "epoll_ctl EPOLL_CTL_DEL fd ev il = (if il fd = None then None else Some (il(fd := None)))"

subsection \<open>Registering interest\<close>

definition put_channel :: "nat \<Rightarrow> channel \<Rightarrow> 's poll_state_scheme \<Rightarrow> 's poll_state_scheme" where
  "put_channel c ch s = s\<lparr>heap := (heap s)(c \<mapsto> ch)\<rparr>"

text \<open>A failed \<open>EPOLL_CTL_DEL\<close> is only logged, the other failures are fatal.\<close>

definition poller_update ::
    "ctl_op \<Rightarrow> nat \<Rightarrow> channel \<Rightarrow> 's poll_state_scheme \<Rightarrow> 's poll_state_scheme result" where
  "poller_update operation c ch s =
     (case epoll_ctl operation (chan_fd ch) (events ch, c) (interest s) of
        Some il \<Rightarrow> Inr (s\<lparr>interest := il\<rparr>)
      | None \<Rightarrow> if operation = EPOLL_CTL_DEL then Inr s else Inl FatalLog)"

definition updateChannel :: "nat \<Rightarrow> 's poll_state_scheme \<Rightarrow> 's poll_state_scheme result" where
  "updateChannel c s =
     (case heap s c of None \<Rightarrow> Inl NullPointer | Some ch \<Rightarrow>
       if index ch = kNew \<or> index ch = kDeleted
       then bind_result
              (if index ch = kNew
               then Inr (s\<lparr>registry := (registry s)(chan_fd ch \<mapsto> c)\<rparr>)
               else bind_result (check (registry s (chan_fd ch) \<noteq> None)) (\<lambda>_.
                    bind_result (check (registry s (chan_fd ch) = Some c)) (\<lambda>_. Inr s)))
              (\<lambda>s1. let ch1 = ch\<lparr>index := kAdded\<rparr>
                    in poller_update EPOLL_CTL_ADD c ch1 (put_channel c ch1 s1))
       else if isNoneEvent ch
            then bind_result (poller_update EPOLL_CTL_DEL c ch s) (\<lambda>s1.
                   Inr (put_channel c (ch\<lparr>index := kDeleted\<rparr>) s1))
            else poller_update EPOLL_CTL_MOD c ch s)"

definition removeChannel :: "nat \<Rightarrow> 's poll_state_scheme \<Rightarrow> 's poll_state_scheme result" where
  "removeChannel c s =
     (case heap s c of None \<Rightarrow> Inl NullPointer | Some ch \<Rightarrow>
       let s1 = s\<lparr>registry := (registry s)(chan_fd ch := None)\<rparr>
       in bind_result (if index ch = kAdded then poller_update EPOLL_CTL_DEL c ch s1 else Inr s1)
            (\<lambda>s2. Inr (put_channel c (ch\<lparr>index := kNew\<rparr>) s2)))"

definition hasChannel :: "nat \<Rightarrow> 's poll_state_scheme \<Rightarrow> bool" where
  "hasChannel c s =
     (case heap s c of None \<Rightarrow> False | Some ch \<Rightarrow> registry s (chan_fd ch) = Some c)"

text \<open>
  \<open>enableReading\<close>, \<open>disableReading\<close>, \<open>enableWriting\<close>, \<open>disableWriting\<close> and \<open>disableAll\<close>
  of the channel at \<open>c\<close>: the change of \<open>events_\<close>, then \<open>update\<close>, which the loop passes
  on to the poller.
\<close>

definition change_events ::
    "(channel \<Rightarrow> channel) \<Rightarrow> nat \<Rightarrow> 's poll_state_scheme \<Rightarrow> 's poll_state_scheme result" where
  "change_events f c s =
     (case heap s c of None \<Rightarrow> Inl NullPointer
      | Some ch \<Rightarrow> updateChannel c (put_channel c (f ch) s))"

definition enableReading :: "nat \<Rightarrow> 's poll_state_scheme \<Rightarrow> 's poll_state_scheme result" where
  "enableReading = change_events want_read"

definition disableReading :: "nat \<Rightarrow> 's poll_state_scheme \<Rightarrow> 's poll_state_scheme result" where
  "disableReading = change_events unwant_read"

definition enableWriting :: "nat \<Rightarrow> 's poll_state_scheme \<Rightarrow> 's poll_state_scheme result" where
  "enableWriting = change_events want_write"

definition disableWriting :: "nat \<Rightarrow> 's poll_state_scheme \<Rightarrow> 's poll_state_scheme result" where
  "disableWriting = change_events unwant_write"

definition disableAll :: "nat \<Rightarrow> 's poll_state_scheme \<Rightarrow> 's poll_state_scheme result" where
  "disableAll = change_events unwant_all"

lemmas channel_ops = enableReading_def disableReading_def enableWriting_def disableWriting_def
  disableAll_def

definition channel_remove :: "nat \<Rightarrow> 's poll_state_scheme \<Rightarrow> 's poll_state_scheme result" where
  "channel_remove c s =
     (case heap s c of None \<Rightarrow> Inl NullPointer
      | Some ch \<Rightarrow> bind_result (check (isNoneEvent ch)) (\<lambda>_. removeChannel c s))"

subsection \<open>Waiting for events\<close>

text \<open>
  What \<open>epoll_wait\<close> returns is an argument: the events of ready descriptors, of which it
  reports at most \<open>events_.size ()\<close>, each with the pointer stored at registration, or the
  \<open>errno\<close> of a failed call, whose result is \<open>-1\<close>. The code keeps the result in a
  \<open>size_t\<close>. The log shows which branch was taken.
\<close>

datatype wait_answer = WaitOk "(32 word \<times> int) list" | WaitErr nat
datatype poll_log = EventsHappened "64 word" | NothingHappened | PollFailed nat

definition EINTR :: nat where "EINTR = 4"

definition ready_events ::
    "(32 word \<times> int) list \<Rightarrow> 's poll_state_scheme \<Rightarrow> (32 word \<times> nat) list" where
  "ready_events evs s = take (event_slots s)
     (List.map_filter (\<lambda>(e, fd). map_option (\<lambda>(_, c). (e, c)) (interest s fd)) evs)"

fun fill_channels ::
    "(32 word \<times> nat) list \<Rightarrow> nat list \<Rightarrow> 's poll_state_scheme
       \<Rightarrow> (nat list \<times> 's poll_state_scheme) result" where
  "fill_channels [] active s = Inr (active, s)"
| "fill_channels ((e, c) # evs) active s =
     (case heap s c of None \<Rightarrow> Inl NullPointer
      | Some ch \<Rightarrow> fill_channels evs (active @ [c]) (put_channel c (set_revents e ch) s))"

text \<open>\<open>numEvents\<close> is a C \<open>int\<close>: the loop runs for \<open>i = 0, ..., numEvents - 1\<close>.\<close>

definition fillActiveChannels ::
    "32 word \<Rightarrow> (32 word \<times> nat) list \<Rightarrow> nat list \<Rightarrow> 's poll_state_scheme
       \<Rightarrow> (nat list \<times> 's poll_state_scheme) result" where
  "fillActiveChannels numEvents slots active s =
     (let n = nat (sint numEvents)
      in if n \<le> length slots then fill_channels (take n slots) active s else Inl OutOfBounds)"

definition poll ::
    "wait_answer \<Rightarrow> TimeStamp \<Rightarrow> 's poll_state_scheme
       \<Rightarrow> (TimeStamp \<times> nat list \<times> poll_log option \<times> 's poll_state_scheme) result" where
  "poll ans now s =
     (let slots = (case ans of WaitOk evs \<Rightarrow> ready_events evs s | WaitErr _ \<Rightarrow> []);
          numEvents = (case ans of WaitOk _ \<Rightarrow> of_nat (length slots) | WaitErr _ \<Rightarrow> - 1) :: 64 word;
          savedErrno = (case ans of WaitOk _ \<Rightarrow> 0 | WaitErr e \<Rightarrow> e)
      in if numEvents > 0
         then bind_result (fillActiveChannels (ucast numEvents) slots [] s) (\<lambda>(active, s1).
                Inr (now, active, Some (EventsHappened numEvents),
                     if unat numEvents = event_slots s1
                     then s1\<lparr>event_slots := event_slots s1 * 2\<rparr> else s1))
         else if numEvents = 0 then Inr (now, [], Some NothingHappened, s)
         else Inr (now, [], if savedErrno \<noteq> EINTR then Some (PollFailed savedErrno) else None, s))"

subsection \<open>Invariant\<close>

definition wf_channel :: "'s poll_state_scheme \<Rightarrow> nat \<Rightarrow> channel \<Rightarrow> bool" where
  "wf_channel s c ch \<longleftrightarrow>
     index ch \<in> {kNew, kAdded, kDeleted}
     \<and> (index ch = kNew \<longleftrightarrow> registry s (chan_fd ch) \<noteq> Some c)
     \<and> (index ch = kAdded \<longrightarrow> interest s (chan_fd ch) = Some (events ch, c))"

definition wf_poller :: "'s poll_state_scheme \<Rightarrow> bool" where
  "wf_poller s \<longleftrightarrow>
     (\<forall>c ch. heap s c = Some ch \<longrightarrow> wf_channel s c ch)
     \<and> (\<forall>fd c. registry s fd = Some c \<longrightarrow> (\<exists>ch. heap s c = Some ch \<and> chan_fd ch = fd))
     \<and> (\<forall>fd e c. interest s fd = Some (e, c) \<longrightarrow>
          (\<exists>ch. heap s c = Some ch \<and> chan_fd ch = fd \<and> index ch = kAdded))"

text \<open>The descriptor of a new channel is not registered by another channel.\<close>

definition fd_free :: "nat \<Rightarrow> channel \<Rightarrow> 's poll_state_scheme \<Rightarrow> bool" where
  "fd_free c ch s \<longleftrightarrow> (index ch = kNew \<longrightarrow> registry s (chan_fd ch) = None)"

lemma wf_EPollPoller: "wf_poller EPollPoller"
  by (simp add: wf_poller_def EPollPoller_def)

lemma interest_registry:
  assumes "wf_poller s" and "interest s fd = Some (e, c)"
  shows "registry s fd = Some c"
  using assms by (fastforce simp: wf_poller_def wf_channel_def index_defs)

lemma wf_pollerD:
  assumes "wf_poller s" and "heap s c = Some ch"
  shows "index ch \<in> {kNew, kAdded, kDeleted}"
    and "index ch = kNew \<longleftrightarrow> registry s (chan_fd ch) \<noteq> Some c"
    and "index ch = kAdded \<longleftrightarrow> interest s (chan_fd ch) \<noteq> None \<and> registry s (chan_fd ch) = Some c"
    and "index ch = kAdded \<Longrightarrow> interest s (chan_fd ch) = Some (events ch, c)"
proof -
  from assms have wf: "wf_channel s c ch" by (simp add: wf_poller_def)
  then show "index ch \<in> {kNew, kAdded, kDeleted}" unfolding wf_channel_def by blast
  from wf show new: "index ch = kNew \<longleftrightarrow> registry s (chan_fd ch) \<noteq> Some c"
    unfolding wf_channel_def by blast
  from wf show added: "interest s (chan_fd ch) = Some (events ch, c)" if "index ch = kAdded"
    using that unfolding wf_channel_def by blast
  show "index ch = kAdded \<longleftrightarrow> interest s (chan_fd ch) \<noteq> None \<and> registry s (chan_fd ch) = Some c"
  proof
    assume "index ch = kAdded"
    with new added show "interest s (chan_fd ch) \<noteq> None \<and> registry s (chan_fd ch) = Some c"
      by (auto simp: index_defs)
  next
    assume r: "interest s (chan_fd ch) \<noteq> None \<and> registry s (chan_fd ch) = Some c"
    then obtain e c' where e: "interest s (chan_fd ch) = Some (e, c')" by auto
    with r interest_registry[OF assms(1)] have "c' = c" by fastforce
    with e assms show "index ch = kAdded" by (fastforce simp: wf_poller_def)
  qed
qed

text \<open>The state after a change of the events of a channel.\<close>

definition after_change :: "nat \<Rightarrow> channel \<Rightarrow> 's poll_state_scheme \<Rightarrow> 's poll_state_scheme" where
  "after_change c ch s =
     (if index ch = kAdded \<and> isNoneEvent ch
      then s\<lparr>heap := (heap s)(c \<mapsto> ch\<lparr>index := kDeleted\<rparr>),
             interest := (interest s)(chan_fd ch := None)\<rparr>
      else s\<lparr>heap := (heap s)(c \<mapsto> ch\<lparr>index := kAdded\<rparr>),
             registry := (registry s)(chan_fd ch \<mapsto> c),
             interest := (interest s)(chan_fd ch \<mapsto> (events ch, c))\<rparr>)"

lemma channel_index_same: "index (ch :: channel) = k \<Longrightarrow> ch\<lparr>index := k\<rparr> = ch"
  by (cases ch) simp

lemma wf_channel_cong:
  "registry s (chan_fd ch) = registry s' (chan_fd ch) \<Longrightarrow>
   interest s (chan_fd ch) = interest s' (chan_fd ch) \<Longrightarrow> wf_channel s c ch = wf_channel s' c ch"
  by (simp only: wf_channel_def)

lemma wf_poller_cong:
  "heap s = heap s' \<Longrightarrow> registry s = registry s' \<Longrightarrow> interest s = interest s' \<Longrightarrow>
     wf_poller s = wf_poller s'"
  by (simp only: wf_poller_def wf_channel_def)

lemma not_added_not_interested:
  assumes wf: "wf_poller s" and ch: "heap s c = Some ch" and free: "fd_free c ch s"
    and not_added: "index ch \<noteq> kAdded"
  shows "interest s (chan_fd ch) = None"
proof (rule ccontr)
  assume "interest s (chan_fd ch) \<noteq> None"
  then obtain e c' where e: "interest s (chan_fd ch) = Some (e, c')" by auto
  then have r: "registry s (chan_fd ch) = Some c'" by (rule interest_registry[OF wf])
  with free have "index ch \<noteq> kNew" by (auto simp: fd_free_def)
  then have "registry s (chan_fd ch) = Some c" using wf_pollerD(2)[OF wf ch] by blast
  then show False using wf_pollerD(3)[OF wf ch] e not_added by simp
qed

lemma change_events_ok:
  assumes wf: "wf_poller s" and ch: "heap s c = Some ch" and free: "fd_free c ch s"
    and f: "chan_fd (f ch) = chan_fd ch" "index (f ch) = index ch"
  shows "change_events f c s = Inr (after_change c (f ch) s)"
proof -
  note D = wf_pollerD[OF wf ch]
  let ?fd = "chan_fd ch"
  have same: "(registry s)(?fd \<mapsto> c) = registry s" if "index ch \<noteq> kNew"
    using D(2) that by (simp add: fun_upd_idem)
  consider (new) "index ch = kNew" | (deleted) "index ch = kDeleted" | (added) "index ch = kAdded"
    using D(1) by auto
  then show ?thesis
  proof cases
    case new
    then have "interest s ?fd = None"
      using not_added_not_interested[OF wf ch free] by (simp add: index_defs)
    then show ?thesis using new f ch
      by (simp add: change_events_def updateChannel_def put_channel_def poller_update_def
          after_change_def Let_def index_defs)
  next
    case deleted
    then have "interest s ?fd = None"
      using not_added_not_interested[OF wf ch free] by (simp add: index_defs)
    moreover have "registry s ?fd = Some c" using D(2) deleted by (simp add: index_defs)
    ultimately show ?thesis using same f ch deleted
      by (simp add: change_events_def updateChannel_def put_channel_def poller_update_def
          after_change_def Let_def index_defs)
  next
    case added
    have idx: "index ch \<noteq> kNew" "index ch \<noteq> kDeleted" using added by (simp_all add: index_defs)
    have int: "interest s ?fd = Some (events ch, c)" using D(4) added by blast
    have upd: "(heap s)(c \<mapsto> f ch\<lparr>index := kAdded\<rparr>) = (heap s)(c \<mapsto> f ch)"
      using f added by (simp add: channel_index_same)
    show ?thesis using same[OF idx(1)] int f ch added idx
      by (simp add: change_events_def updateChannel_def put_channel_def poller_update_def
          after_change_def upd[simplified])
  qed
qed

lemma heap_after_change:
  "heap (after_change c ch s) = (heap s)(c \<mapsto> ch\<lparr>index := (if index ch = kAdded \<and> isNoneEvent ch
     then kDeleted else kAdded)\<rparr>)"
  by (simp add: after_change_def)

lemma interest_after_change:
  "interest (after_change c ch s) = (interest s)(chan_fd ch := (if index ch = kAdded \<and> isNoneEvent ch
     then None else Some (events ch, c)))"
  by (simp add: after_change_def)

lemma registry_after_change:
  assumes "wf_poller s" and "heap s c = Some ch" and "chan_fd ch' = chan_fd ch" "index ch' = index ch"
  shows "registry (after_change c ch' s) = (registry s)(chan_fd ch \<mapsto> c)"
  using assms wf_pollerD(3)[OF assms(1,2)] by (auto simp: after_change_def fun_upd_idem)

lemma wf_after_change:
  assumes wf: "wf_poller s" and ch: "heap s c = Some ch" and free: "fd_free c ch s"
    and f: "chan_fd ch' = chan_fd ch" "index ch' = index ch"
  shows "wf_poller (after_change c ch' s)"
proof -
  let ?s = "after_change c ch' s"
  note views = heap_after_change interest_after_change registry_after_change[OF wf ch f]
  have other: "registry s (chan_fd ch) \<noteq> Some d" if "d \<noteq> c" for d
  proof (cases "index ch = kNew")
    case True
    then show ?thesis using free by (simp add: fd_free_def)
  next
    case False
    then have "registry s (chan_fd ch) = Some c" using wf_pollerD(2)[OF wf ch] by blast
    then show ?thesis using that by simp
  qed
  have "wf_channel ?s d dh" if "heap ?s d = Some dh" for d dh
  proof (cases "d = c")
    case True
    then show ?thesis using that f by (auto simp: views wf_channel_def index_defs split: if_splits)
  next
    case False
    with that have dh: "heap s d = Some dh" by (simp add: views)
    show ?thesis
    proof (cases "chan_fd dh = chan_fd ch")
      case True
      then have "index dh = kNew" using wf_pollerD(2)[OF wf dh] other[OF False] by metis
      then show ?thesis using True False by (simp add: views wf_channel_def index_defs)
    next
      case fd: False
      have "wf_channel s d dh" using wf dh by (simp add: wf_poller_def)
      moreover have "registry ?s (chan_fd dh) = registry s (chan_fd dh)"
        and "interest ?s (chan_fd dh) = interest s (chan_fd dh)"
        using fd f by (simp_all add: views)
      ultimately show ?thesis using wf_channel_cong by blast
    qed
  qed
  moreover have "\<exists>dh. heap ?s d = Some dh \<and> chan_fd dh = fd" if "registry ?s fd = Some d" for fd d
  proof (cases "fd = chan_fd ch")
    case True
    then show ?thesis using that f by (auto simp: views split: if_splits)
  next
    case False
    with that f have old: "registry s fd = Some d" by (simp add: views)
    then obtain dh where "heap s d = Some dh" "chan_fd dh = fd"
      using wf unfolding wf_poller_def by blast
    moreover from this False ch have "d \<noteq> c" by auto
    ultimately show ?thesis by (simp add: views)
  qed
  moreover have "\<exists>dh. heap ?s d = Some dh \<and> chan_fd dh = fd \<and> index dh = kAdded"
    if "interest ?s fd = Some (e, d)" for fd e d
  proof (cases "fd = chan_fd ch")
    case True
    then show ?thesis using that f by (auto simp: views split: if_splits)
  next
    case False
    with that f have old: "interest s fd = Some (e, d)" by (simp add: views)
    then obtain dh where "heap s d = Some dh" "chan_fd dh = fd" "index dh = kAdded"
      using wf unfolding wf_poller_def by blast
    moreover from this False ch have "d \<noteq> c" by auto
    ultimately show ?thesis by (simp add: views)
  qed
  ultimately show ?thesis unfolding wf_poller_def by blast
qed

text \<open>The five operations of a channel change its events only.\<close>

lemma want_simps [simp]:
  "chan_fd (want_read ch) = chan_fd ch" "index (want_read ch) = index ch"
  "chan_fd (unwant_read ch) = chan_fd ch" "index (unwant_read ch) = index ch"
  "chan_fd (want_write ch) = chan_fd ch" "index (want_write ch) = index ch"
  "chan_fd (unwant_write ch) = chan_fd ch" "index (unwant_write ch) = index ch"
  "chan_fd (unwant_all ch) = chan_fd ch" "index (unwant_all ch) = index ch"
  by (simp_all add: channel_defs)

lemma updateChannel_more: "updateChannel c s = Inr s' \<Longrightarrow> poll_state.more s' = poll_state.more s"
  by (auto simp: updateChannel_def poller_update_def put_channel_def Let_def check_def
      split: option.splits if_splits)

lemma change_events_more: "change_events f c s = Inr s' \<Longrightarrow> poll_state.more s' = poll_state.more s"
  by (auto simp: change_events_def put_channel_def dest!: updateChannel_more split: option.splits)

lemma channel_remove_more: "channel_remove c s = Inr s' \<Longrightarrow> poll_state.more s' = poll_state.more s"
  by (auto simp: channel_remove_def removeChannel_def poller_update_def put_channel_def Let_def
      check_def split: option.splits if_splits)

lemma channel_remove_ok:
  assumes wf: "wf_poller s" and ch: "heap s c = Some ch" and none: "isNoneEvent ch"
    and mine: "index ch \<noteq> kNew \<or> registry s (chan_fd ch) = None"
  shows "\<exists>s'. channel_remove c s = Inr s' \<and> wf_poller s'
    \<and> interest s' = (interest s)(chan_fd ch := None) \<and> registry s' = (registry s)(chan_fd ch := None)
    \<and> heap s' = (heap s)(c \<mapsto> ch\<lparr>index := kNew\<rparr>) \<and> event_slots s' = event_slots s
    \<and> poll_state.more s' = poll_state.more s"
proof -
  let ?fd = "chan_fd ch"
  let ?s = "s\<lparr>registry := (registry s)(?fd := None), interest := (interest s)(?fd := None),
    heap := (heap s)(c \<mapsto> ch\<lparr>index := kNew\<rparr>)\<rparr>"
  have free: "fd_free c ch s" using mine by (auto simp: fd_free_def)
  have reg: "registry s ?fd = None \<or> registry s ?fd = Some c"
    using mine wf_pollerD(2)[OF wf ch] by metis
  have other: "index dh = kNew" if "heap s d = Some dh" "chan_fd dh = ?fd" "d \<noteq> c" for d dh
    using wf_pollerD(2)[OF wf that(1)] reg that by auto
  have "channel_remove c s = Inr ?s"
  proof (cases "index ch = kAdded")
    case True
    then have "interest s ?fd = Some (events ch, c)" by (rule wf_pollerD(4)[OF wf ch])
    then show ?thesis using True ch none
      by (simp add: channel_remove_def removeChannel_def poller_update_def put_channel_def Let_def)
  next
    case False
    then have "interest s ?fd = None" by (rule not_added_not_interested[OF wf ch free])
    then have "(interest s)(?fd := None) = interest s" by (simp add: fun_upd_idem)
    then show ?thesis using False ch none
      by (simp add: channel_remove_def removeChannel_def put_channel_def Let_def)
  qed
  moreover have "wf_channel ?s d dh" if "heap ?s d = Some dh" for d dh
  proof (cases "d = c")
    case True
    then show ?thesis using that by (auto simp: wf_channel_def index_defs)
  next
    case False
    with that have dh: "heap s d = Some dh" by simp
    show ?thesis
    proof (cases "chan_fd dh = ?fd")
      case True
      then show ?thesis using other[OF dh True False] by (simp add: wf_channel_def index_defs)
    next
      case fd: False
      have "wf_channel s d dh" using wf dh by (simp add: wf_poller_def)
      moreover have "registry ?s (chan_fd dh) = registry s (chan_fd dh)"
        and "interest ?s (chan_fd dh) = interest s (chan_fd dh)" using fd by simp_all
      ultimately show ?thesis using wf_channel_cong by blast
    qed
  qed
  moreover have "\<exists>dh. heap ?s d = Some dh \<and> chan_fd dh = fd" if "registry ?s fd = Some d" for fd d
  proof -
    from that have fd: "fd \<noteq> ?fd" and old: "registry s fd = Some d" by (auto split: if_splits)
    then obtain dh where "heap s d = Some dh" "chan_fd dh = fd"
      using wf unfolding wf_poller_def by blast
    moreover from this fd ch have "d \<noteq> c" by auto
    ultimately show ?thesis by simp
  qed
  moreover have "\<exists>dh. heap ?s d = Some dh \<and> chan_fd dh = fd \<and> index dh = kAdded"
    if "interest ?s fd = Some (e, d)" for fd e d
  proof -
    from that have fd: "fd \<noteq> ?fd" and old: "interest s fd = Some (e, d)" by (auto split: if_splits)
    then obtain dh where "heap s d = Some dh" "chan_fd dh = fd" "index dh = kAdded"
      using wf unfolding wf_poller_def by blast
    moreover from this fd ch have "d \<noteq> c" by auto
    ultimately show ?thesis by simp
  qed
  ultimately have "channel_remove c s = Inr ?s \<and> wf_poller ?s" unfolding wf_poller_def by blast
  then show ?thesis by simp
qed

lemma wf_put_channel_new:
  assumes wf: "wf_poller s" and fresh: "heap s c = None"
  shows "wf_poller (put_channel c (Channel fd) s)"
proof -
  have reg: "registry s fd' \<noteq> Some c" for fd'
    using wf fresh unfolding wf_poller_def by (metis option.distinct(1))
  have int: "interest s fd' \<noteq> Some (e, c)" for fd' e
    using wf fresh unfolding wf_poller_def by (metis option.distinct(1))
  show ?thesis
    using wf reg int unfolding wf_poller_def wf_channel_def put_channel_def
    by (simp add: Channel_def index_defs) metis
qed

text \<open>A channel that is made and enabled for reading, and one that is given up.\<close>

lemma open_channel:
  assumes wf: "wf_poller s" and fresh: "heap s c = None" "registry s fd = None"
  shows "\<exists>s'. enableReading c (put_channel c (Channel fd) s) = Inr s' \<and> wf_poller s'
    \<and> interest s' = (interest s)(fd \<mapsto> (kReadEvent, c)) \<and> registry s' = (registry s)(fd \<mapsto> c)
    \<and> heap s' = (heap s)(c \<mapsto> want_read (Channel fd)\<lparr>index := kAdded\<rparr>)
    \<and> event_slots s' = event_slots s \<and> poll_state.more s' = poll_state.more s"
proof -
  let ?s = "put_channel c (Channel fd) s" and ?ch = "want_read (Channel fd)"
  have heap: "heap ?s c = Some (Channel fd)" by (simp add: put_channel_def)
  have free: "fd_free c (Channel fd) ?s" using fresh by (simp add: fd_free_def put_channel_def Channel_def)
  have fields: "chan_fd (Channel fd) = fd" "index (Channel fd) = kNew" "events ?ch = kReadEvent"
    by (simp_all add: Channel_def want_read_def index_defs)
  have wf': "wf_poller ?s" using wf fresh(1) by (rule wf_put_channel_new)
  have "enableReading c ?s = Inr (after_change c ?ch ?s)"
    using change_events_ok[OF wf' heap free, of want_read] by (simp add: channel_ops)
  moreover have "wf_poller (after_change c ?ch ?s)" using wf_after_change[OF wf' heap free] by simp
  ultimately show ?thesis using fields
    by (simp add: after_change_def put_channel_def index_defs)
qed

lemma close_channel:
  assumes wf: "wf_poller s" and ch: "heap s c = Some ch" and free: "fd_free c ch s"
  shows "\<exists>s'. bind_result (disableAll c s) (channel_remove c) = Inr s' \<and> wf_poller s'
    \<and> interest s' = (interest s)(chan_fd ch := None) \<and> registry s' = (registry s)(chan_fd ch := None)
    \<and> heap s' = (heap s)(c \<mapsto> unwant_all ch\<lparr>index := kNew\<rparr>)
    \<and> event_slots s' = event_slots s \<and> poll_state.more s' = poll_state.more s"
proof -
  let ?ch = "unwant_all ch"
  let ?s = "after_change c ?ch s"
  have all: "disableAll c s = Inr ?s"
    using change_events_ok[OF wf ch free, of unwant_all] by (simp add: channel_ops)
  have wf': "wf_poller ?s" using wf_after_change[OF wf ch free, of ?ch] by simp
  obtain i where i: "heap ?s = (heap s)(c \<mapsto> ?ch\<lparr>index := i\<rparr>)" "i \<noteq> kNew"
    by (auto simp: heap_after_change index_defs)
  have none: "isNoneEvent (?ch\<lparr>index := i\<rparr>)" and fd: "chan_fd (?ch\<lparr>index := i\<rparr>) = chan_fd ch"
    by (simp_all add: isNoneEvent_def unwant_all_def)
  have reg: "registry ?s = (registry s)(chan_fd ch \<mapsto> c)"
    using registry_after_change[OF wf ch, of ?ch] by simp
  have same: "event_slots ?s = event_slots s" "poll_state.more ?s = poll_state.more s"
    by (simp_all add: after_change_def)
  have "heap ?s c = Some (?ch\<lparr>index := i\<rparr>)" by (simp add: i(1))
  from channel_remove_ok[OF wf' this none] i(2)
  obtain s' where "channel_remove c ?s = Inr s'" "wf_poller s'"
    "interest s' = (interest ?s)(chan_fd ch := None)" "registry s' = (registry ?s)(chan_fd ch := None)"
    "heap s' = (heap ?s)(c \<mapsto> ?ch\<lparr>index := kNew\<rparr>)" "event_slots s' = event_slots ?s"
    "poll_state.more s' = poll_state.more ?s"
    unfolding fd by auto
  then show ?thesis unfolding all i(1) reg same by (simp add: interest_after_change)
qed

subsection \<open>Facts about waiting\<close>

text \<open>Replacing a channel by one with the same descriptor, index and events.\<close>

lemma wf_put_channel_same:
  assumes wf: "wf_poller s" and ch: "heap s c = Some ch"
    and fields: "chan_fd ch' = chan_fd ch" "index ch' = index ch" "events ch' = events ch"
  shows "wf_poller (put_channel c ch' s)"
proof -
  let ?s = "put_channel c ch' s"
  have same: "registry ?s = registry s" "interest ?s = interest s"
    "heap ?s = (heap s)(c \<mapsto> ch')" by (simp_all add: put_channel_def)
  have "wf_channel ?s d dh" if "heap ?s d = Some dh" for d dh
  proof (cases "d = c")
    case True
    have "wf_channel s c ch" using wf ch by (simp add: wf_poller_def)
    with True that show ?thesis
      unfolding wf_channel_def same using fields by (simp only: fun_upd_same option.inject) metis
  next
    case False
    with that have "wf_channel s d dh" using wf by (simp add: same wf_poller_def)
    then show ?thesis unfolding wf_channel_def same .
  qed
  moreover have "\<exists>dh. heap ?s d = Some dh \<and> chan_fd dh = fd" if "registry ?s fd = Some d" for fd d
    using that wf ch fields unfolding wf_poller_def same by (metis fun_upd_apply option.inject)
  moreover have "\<exists>dh. heap ?s d = Some dh \<and> chan_fd dh = fd \<and> index dh = kAdded"
    if "interest ?s fd = Some (e', d)" for fd e' d
    using that wf ch fields unfolding wf_poller_def same by (metis fun_upd_apply option.inject)
  ultimately show ?thesis unfolding wf_poller_def by blast
qed

lemma wf_set_revents:
  "wf_poller s \<Longrightarrow> heap s c = Some ch \<Longrightarrow> wf_poller (put_channel c (set_revents e ch) s)"
  by (rule wf_put_channel_same) (simp_all add: set_revents_def)

lemma fill_channels_ok:
  "wf_poller s \<Longrightarrow> \<forall>(e, c) \<in> set evs. heap s c \<noteq> None \<Longrightarrow>
     \<exists>s'. fill_channels evs active s = Inr (active @ map snd evs, s') \<and> wf_poller s'
       \<and> event_slots s' = event_slots s \<and> interest s' = interest s \<and> registry s' = registry s"
proof (induction evs arbitrary: active s)
  case Nil
  then show ?case by simp
next
  case (Cons ev evs)
  obtain e c where ev: "ev = (e, c)" by (cases ev)
  with Cons.prems obtain ch where ch: "heap s c = Some ch" by auto
  let ?s = "put_channel c (set_revents e ch) s"
  have "wf_poller ?s" using Cons.prems(1) ch by (rule wf_set_revents)
  moreover have "\<forall>(e, c) \<in> set evs. heap ?s c \<noteq> None"
    using Cons.prems(2) by (auto simp: put_channel_def)
  ultimately obtain s' where
    "fill_channels evs (active @ [c]) ?s = Inr ((active @ [c]) @ map snd evs, s')" "wf_poller s'"
    "event_slots s' = event_slots ?s" "interest s' = interest ?s" "registry s' = registry ?s"
    using Cons.IH by blast
  then show ?case using ev ch by (simp add: put_channel_def)
qed

lemma ready_events_live:
  assumes "wf_poller s" and "(e, c) \<in> set (ready_events evs s)"
  shows "heap s c \<noteq> None"
proof -
  from assms(2) obtain e' fd where "interest s fd = Some (e', c)"
    by (auto simp: ready_events_def List.map_filter_def dest!: in_set_takeD)
  with assms(1) show ?thesis unfolding wf_poller_def by blast
qed

lemma length_ready_events: "length (ready_events evs s) \<le> event_slots s"
  by (simp add: ready_events_def)

lemma poll_error:
  "poll (WaitErr e) now s = Inr (now, [], Some (EventsHappened (- 1)), s)" if "0 < event_slots s"
    and "event_slots s < 2 ^ 31"
proof -
  have "sint (ucast (- 1 :: 64 word) :: 32 word) = -1" by code_simp
  moreover have "unat (- 1 :: 64 word) = 2 ^ 64 - 1"
    by (simp add: unsigned_minus_1_eq_mask mask_eq_exp_minus_1)
  then have "unat (- 1 :: 64 word) \<noteq> event_slots s" using that by simp
  moreover have "(0 :: 64 word) < - 1" using word_neq_0_conv[of "- 1 :: 64 word"] by simp
  ultimately show ?thesis by (simp add: poll_def fillActiveChannels_def Let_def)
qed

lemma poll_ok:
  fixes evs :: "(32 word \<times> int) list" and s :: "'s poll_state_scheme"
  assumes wf: "wf_poller s" and slots: "event_slots s < 2 ^ 31"
  defines "evs' \<equiv> ready_events evs s"
  shows "\<exists>s' l. poll (WaitOk evs) now s = Inr (now, map snd evs', l, s') \<and> wf_poller s'
    \<and> interest s' = interest s
    \<and> event_slots s' = (if length evs' = event_slots s \<and> evs' \<noteq> [] then 2 * event_slots s
                         else event_slots s)"
proof (cases "evs' = []")
  case True
  then show ?thesis using wf by (simp add: poll_def evs'_def)
next
  case False
  have len: "length evs' < 2 ^ 31" using length_ready_events[of evs s] slots by (simp add: evs'_def)
  let ?n = "of_nat (length evs') :: 64 word"
  have n: "unat ?n = length evs'" using len by (simp add: unat_of_nat)
  have pos: "0 < ?n" using False n by (simp add: word_less_nat_alt)
  have cast: "ucast ?n = (of_nat (length evs') :: 32 word)"
    using len by (simp add: unsigned_of_nat take_bit_nat_eq_self)
  have "sint (of_nat (length evs') :: 32 word) = int (length evs')"
    using len by (simp add: signed_of_nat signed_take_bit_int_eq_self)
  then have fill: "fillActiveChannels (ucast ?n) evs' [] s = fill_channels evs' [] s"
    by (simp add: fillActiveChannels_def cast)
  have live: "\<forall>(e, c) \<in> set evs'. heap s c \<noteq> None"
    using ready_events_live[OF wf] unfolding evs'_def by blast
  obtain s1 where s1: "fill_channels evs' [] s = Inr (map snd evs', s1)" "wf_poller s1"
      "event_slots s1 = event_slots s" "interest s1 = interest s"
    using fill_channels_ok[OF wf live, of "[]"] by auto
  let ?s = "if unat ?n = event_slots s1 then s1\<lparr>event_slots := event_slots s1 * 2\<rparr> else s1"
  have "poll (WaitOk evs) now s = Inr (now, map snd evs', Some (EventsHappened ?n), ?s)"
    using pos fill s1(1) by (simp add: poll_def evs'_def[symmetric])
  moreover have "wf_poller ?s" using s1(2) wf_poller_cong[of s1 ?s] by simp
  ultimately show ?thesis using s1(3,4) n False by simp
qed

subsection \<open>Properties\<close>

text \<open>C16: the kernel watches what the channels ask for. Every operation that changes the events of a
  channel succeeds, in a consistent poller whose registry does not hold another channel for its descriptor, and decides the
  interest of the kernel in the descriptor. A channel that the poller watches (\<open>kAdded\<close>) is watched for
  the new events, and not at all when it has none. A channel that the poller has not seen before
  (\<open>kNew\<close>) or has stopped watching (\<open>kDeleted\<close>) is added with the new events, even when there are none:
  then the kernel has an entry with an empty mask, for which it still reports errors and hangups. The
  consistency of channels, poller and kernel is kept, and no other channel or descriptor is touched.\<close>

theorem interest_follows_channel:
  assumes wf: "wf_poller s" and ch: "heap s c = Some ch" and free: "fd_free c ch s"
    and f: "(chan_op, f) \<in> {(enableReading, want_read), (disableReading, unwant_read),
      (enableWriting, want_write), (disableWriting, unwant_write), (disableAll, unwant_all)}"
  shows "\<exists>s'. chan_op c s = Inr s' \<and> wf_poller s'
    \<and> interest s' = (interest s)(chan_fd ch := (if index ch = kAdded \<and> isNoneEvent (f ch) then None
                                               else Some (events (f ch), c)))
    \<and> (\<forall>d. d \<noteq> c \<longrightarrow> heap s' d = heap s d)"
proof -
  have same: "chan_fd (f ch) = chan_fd ch" "index (f ch) = index ch" using f by auto
  have "chan_op c s = Inr (after_change c (f ch) s)"
    using f change_events_ok[OF wf ch free] by (auto simp: channel_ops)
  then show ?thesis
    using wf_after_change[OF wf ch free same] same
    by (simp add: heap_after_change interest_after_change)
qed

definition sample_poller :: poll_state where
  "sample_poller = put_channel 1 (Channel 5) EPollPoller"

lemma sample_poller_ok: "wf_poller sample_poller" "heap sample_poller 1 = Some (Channel 5)"
  "fd_free 1 (Channel 5) sample_poller" "interest sample_poller = Map.empty"
  by (auto simp: sample_poller_def put_channel_def EPollPoller_def wf_poller_def wf_channel_def
      Channel_def fd_free_def index_defs)

theorem interest_follows_channel_witness:
  "\<exists>s'. enableReading 1 sample_poller = Inr s' \<and> interest s' 5 = Some (kReadEvent, 1)"
proof -
  have "events (want_read (Channel 5)) = kReadEvent" "chan_fd (Channel 5) = 5" "index (Channel 5) \<noteq> kAdded"
    by (simp_all add: want_read_def Channel_def index_defs)
  then show ?thesis
    using interest_follows_channel[OF sample_poller_ok(1-3), of enableReading want_read] by auto
qed

text \<open>A failed wait is taken for one with events. \<open>numEvents\<close> is a \<open>size_t\<close>, so the result
  \<open>-1\<close> of \<open>epoll_wait\<close> passes the test \<open>numEvents > 0\<close>: it is logged as a number of events,
  no channel is filled in, because \<open>fillActiveChannels\<close> takes it as the \<open>int\<close> that it was,
  and the branch that reports an error is never reached, for no \<open>errno\<close>.\<close>

theorem failed_wait_is_not_noticed:
  assumes "0 < event_slots s" and "event_slots s < 2 ^ 31"
  shows "poll (WaitErr e) now s = Inr (now, [], Some (EventsHappened (2 ^ 64 - 1)), s)"
  using poll_error[OF assms, of e now] by simp

theorem failed_wait_is_not_noticed_witness:
  "poll (WaitErr 9) TimeStamp_default EPollPoller
     = Inr (TimeStamp_default, [], Some (EventsHappened (2 ^ 64 - 1)), EPollPoller)"
  by (rule failed_wait_is_not_noticed) (simp_all add: EPollPoller_def kInitEventListSize_def)

end
