(* ===== verification/Net_EventLoop.thy ===== *)
theory Net_EventLoop
  imports Net_Poller
begin

section \<open>The event loop (src/net/EventLoop.h, src/net/EventLoop.cpp)\<close>

text \<open>
  An \<open>EventLoop\<close> owns a poller, a queue of functors that any thread may extend under a
  mutex, and an eventfd that wakes it from \<open>poll\<close>. The record \<open>eventloop\<close> extends the
  state of the poller. The members that only touch the loop are functions on it; the ones
  that run callbacks work on the state \<open>'w\<close> of a whole program, through the two accesses
  \<open>get\<close> and \<open>upd\<close> of the loop in it (locale \<open>loop_host\<close>). The last part is the protocol
  between the loop and the threads that queue functors, as a step relation over the
  same operations.
\<close>

record 'f eventloop = poll_state +
  looping :: bool                      \<comment> \<open>\<open>looping_\<close>\<close>
  quit_flag :: bool                    \<comment> \<open>\<open>quit_\<close>\<close>
  callingPendingFunctors :: bool       \<comment> \<open>\<open>callingPendingFunctors_\<close>\<close>
  threadId :: nat                      \<comment> \<open>\<open>threadId_\<close>\<close>
  pollReturnTime :: TimeStamp          \<comment> \<open>\<open>pollReturnTime_\<close>\<close>
  timerChannel :: nat                  \<comment> \<open>\<open>timerfdChannel_\<close> of \<open>timerQueue_\<close>\<close>
  wakeup_count :: nat                  \<comment> \<open>the counter behind \<open>wakeupFd_\<close>\<close>
  wakeupChannel :: nat                 \<comment> \<open>\<open>wakeupChannel_\<close>\<close>
  activeChannels :: "nat list"         \<comment> \<open>\<open>activeChannels_\<close>\<close>
  pendingFunctors :: "'f list"         \<comment> \<open>\<open>pendingFunctors_\<close>\<close>

text \<open>
  The constructor, called in the thread \<open>tid\<close>; \<open>other\<close> says whether \<open>t_loopInThisThread\<close>
  is set already, \<open>timerfd\<close> and \<open>evtfd\<close> are the new descriptors, \<open>ct\<close> and \<open>c\<close> the addresses of
  their channels. The timer queue, whose channel is the first one, comes before the eventfd, and
  \<open>createEventfd\<close> aborts if there is none. (What else the timer queue holds is modelled in
  \<open>Timer_Queue\<close>.)
\<close>

definition createEventfd :: "int \<Rightarrow> int result" where
  "createEventfd evtfd = (if evtfd < 0 then Inl FatalLog else Inr evtfd)"

definition EventLoop ::
    "bool \<Rightarrow> bool \<Rightarrow> nat \<Rightarrow> int \<Rightarrow> nat \<Rightarrow> int \<Rightarrow> nat \<Rightarrow> 'f eventloop result" where
  "EventLoop use_poll other tid timerfd ct evtfd c =
     (case newDefaultPoller use_poll of None \<Rightarrow> Inl NullPointer
      | Some p \<Rightarrow>
          let l = poll_state.extend p
                \<lparr>looping = False, quit_flag = False, callingPendingFunctors = False,
                 threadId = tid, pollReturnTime = TimeStamp_default, timerChannel = ct,
                 wakeup_count = 0, wakeupChannel = c, activeChannels = [], pendingFunctors = []\<rparr>
          in bind_result (enableReading ct (put_channel ct (Channel timerfd) l)) (\<lambda>l1.
             bind_result (createEventfd evtfd) (\<lambda>wakeupFd.
               if other then Inl FatalLog
               else enableReading c (put_channel c (Channel wakeupFd) l1))))"

definition isInLoopThread :: "nat \<Rightarrow> 'f eventloop \<Rightarrow> bool" where
  "isInLoopThread tid l \<longleftrightarrow> threadId l = tid"

text \<open>
  The destructor of a channel: in the thread of its loop, it must not be registered any more. Its
  memory is free afterwards.
\<close>

definition Channel_destroy :: "nat \<Rightarrow> nat \<Rightarrow> 'f eventloop \<Rightarrow> 'f eventloop result" where
  "Channel_destroy tid c l =
     (case heap l c of None \<Rightarrow> Inl NullPointer
      | Some _ \<Rightarrow> bind_result (check (isInLoopThread tid l \<longrightarrow> \<not> hasChannel c l))
                    (\<lambda>_. Inr (l\<lparr>heap := (heap l)(c := None)\<rparr>)))"

text \<open>
  The destructor of the loop: the wakeup channel leaves the poller. The members follow in the
  reverse of their declarations: the functors that are still queued (what they own is released
  with them, theory \<open>Conn_Owners\<close>), the wakeup channel, and the timer queue, whose destructor
  takes its channel out of the poller first.
\<close>

definition close_timerChannel :: "nat \<Rightarrow> 'f eventloop \<Rightarrow> 'f eventloop result" where
  "close_timerChannel tid l =
     bind_result (bind_result (disableAll (timerChannel l) l) (channel_remove (timerChannel l)))
       (Channel_destroy tid (timerChannel l))"

definition EventLoop_destroy :: "nat \<Rightarrow> 'f eventloop \<Rightarrow> 'f eventloop result" where
  "EventLoop_destroy tid l =
     bind_result
       (bind_result (bind_result (disableAll (wakeupChannel l) l) (channel_remove (wakeupChannel l)))
          (\<lambda>l1. Channel_destroy tid (wakeupChannel l) (l1\<lparr>pendingFunctors := []\<rparr>)))
       (close_timerChannel tid)"

text \<open>Writing the number 1 to an eventfd adds 1 to its counter.\<close>

definition wakeup :: "'f eventloop \<Rightarrow> 'f eventloop" where
  "wakeup l = l\<lparr>wakeup_count := wakeup_count l + 1\<rparr>"

text \<open>Reading it resets the counter; with a counter of 0 the read fails and is logged.\<close>

definition wakeup_handleRead :: "'f eventloop \<Rightarrow> bool \<times> 'f eventloop" where
  "wakeup_handleRead l =
     (if wakeup_count l = 0 then (False, l) else (True, l\<lparr>wakeup_count := 0\<rparr>))"

definition quit :: "nat \<Rightarrow> 'f eventloop \<Rightarrow> 'f eventloop" where
  "quit tid l =
     (let l1 = l\<lparr>quit_flag := True\<rparr> in if isInLoopThread tid l1 then l1 else wakeup l1)"

text \<open>\<open>queueInLoop\<close>: the critical section, then the decision to wake the loop.\<close>

definition push_functor :: "'f \<Rightarrow> 'f eventloop \<Rightarrow> 'f eventloop" where
  "push_functor cb l = l\<lparr>pendingFunctors := pendingFunctors l @ [cb]\<rparr>"

definition wake_after_push :: "nat \<Rightarrow> 'f eventloop \<Rightarrow> 'f eventloop" where
  "wake_after_push tid l =
     (if \<not> isInLoopThread tid l \<or> callingPendingFunctors l then wakeup l else l)"

definition queueInLoop :: "nat \<Rightarrow> 'f \<Rightarrow> 'f eventloop \<Rightarrow> 'f eventloop" where
  "queueInLoop tid cb l = wake_after_push tid (push_functor cb l)"

text \<open>\<open>act\<close> is what the functor \<open>cb\<close> does when it is called.\<close>

definition runInLoop ::
    "('w \<Rightarrow> 'f eventloop) \<Rightarrow> (('f eventloop \<Rightarrow> 'f eventloop) \<Rightarrow> 'w \<Rightarrow> 'w)
       \<Rightarrow> nat \<Rightarrow> 'f \<Rightarrow> ('w \<Rightarrow> 'w result) \<Rightarrow> 'w \<Rightarrow> 'w result" where
  "runInLoop get upd tid cb act w =
     (if isInLoopThread tid (get w) then act w else Inr (upd (queueInLoop tid cb) w))"

definition doPendingFunctors ::
    "('w \<Rightarrow> 'f eventloop) \<Rightarrow> (('f eventloop \<Rightarrow> 'f eventloop) \<Rightarrow> 'w \<Rightarrow> 'w)
       \<Rightarrow> ('f \<Rightarrow> 'w \<Rightarrow> 'w result) \<Rightarrow> 'w \<Rightarrow> 'w result" where
  "doPendingFunctors get upd exec w =
     (let w1 = upd (\<lambda>l. l\<lparr>callingPendingFunctors := True\<rparr>) w;
          functors = pendingFunctors (get w1);
          w2 = upd (\<lambda>l. l\<lparr>pendingFunctors := []\<rparr>) w1
      in bind_result (call_sequence exec functors w2)
           (\<lambda>w3. Inr (upd (\<lambda>l. l\<lparr>callingPendingFunctors := False\<rparr>) w3)))"

text \<open>
  One round of \<open>loop ()\<close>: \<open>ans\<close> and \<open>now\<close> are what \<open>epoll_wait\<close> and the clock return,
  \<open>handle\<close> is \<open>handleEvent\<close> of the channel at an address.
\<close>

definition loop_round ::
    "('w \<Rightarrow> 'f eventloop) \<Rightarrow> (('f eventloop \<Rightarrow> 'f eventloop) \<Rightarrow> 'w \<Rightarrow> 'w)
       \<Rightarrow> ('f \<Rightarrow> 'w \<Rightarrow> 'w result) \<Rightarrow> (nat \<Rightarrow> TimeStamp \<Rightarrow> 'w \<Rightarrow> 'w result)
       \<Rightarrow> wait_answer \<times> TimeStamp \<Rightarrow> 'w \<Rightarrow> 'w result" where
  "loop_round get upd exec handle env w =
     bind_result (poll (fst env) (snd env) (get w)) (\<lambda>(t, active, _, l).
       let w1 = upd (\<lambda>_. l\<lparr>activeChannels := active, pollReturnTime := t\<rparr>) w
       in bind_result (call_sequence (\<lambda>c. handle c t) active w1)
            (doPendingFunctors get upd exec))"

text \<open>
  \<open>loop ()\<close> against a finite list of answers of the kernel: it stops when \<open>quit_\<close> is set
  or the list is used up (the loop is then blocked in \<open>epoll_wait\<close>).
\<close>

fun loop_rounds ::
    "('w \<Rightarrow> 'f eventloop) \<Rightarrow> (('f eventloop \<Rightarrow> 'f eventloop) \<Rightarrow> 'w \<Rightarrow> 'w)
       \<Rightarrow> ('f \<Rightarrow> 'w \<Rightarrow> 'w result) \<Rightarrow> (nat \<Rightarrow> TimeStamp \<Rightarrow> 'w \<Rightarrow> 'w result)
       \<Rightarrow> (wait_answer \<times> TimeStamp) list \<Rightarrow> 'w \<Rightarrow> 'w result" where
  "loop_rounds get upd exec handle envs w =
     (if quit_flag (get w) then Inr (upd (\<lambda>l. l\<lparr>looping := False\<rparr>) w)
      else case envs of [] \<Rightarrow> Inr w
           | env # rest \<Rightarrow> bind_result (loop_round get upd exec handle env w)
                             (loop_rounds get upd exec handle rest))"

definition loop ::
    "('w \<Rightarrow> 'f eventloop) \<Rightarrow> (('f eventloop \<Rightarrow> 'f eventloop) \<Rightarrow> 'w \<Rightarrow> 'w)
       \<Rightarrow> ('f \<Rightarrow> 'w \<Rightarrow> 'w result) \<Rightarrow> (nat \<Rightarrow> TimeStamp \<Rightarrow> 'w \<Rightarrow> 'w result)
       \<Rightarrow> (wait_answer \<times> TimeStamp) list \<Rightarrow> 'w \<Rightarrow> 'w result" where
  "loop get upd exec handle envs w =
     loop_rounds get upd exec handle envs
       (upd (\<lambda>l. l\<lparr>looping := True, quit_flag := False\<rparr>) w)"

lemmas queue_defs = queueInLoop_def push_functor_def wake_after_push_def wakeup_def
  isInLoopThread_def

lemma queueInLoop_simps [simp]:
  "pendingFunctors (queueInLoop tid cb l) = pendingFunctors l @ [cb]"
  "callingPendingFunctors (queueInLoop tid cb l) = callingPendingFunctors l"
  "threadId (queueInLoop tid cb l) = threadId l"
  "quit_flag (queueInLoop tid cb l) = quit_flag l"
  "heap (queueInLoop tid cb l) = heap l"
  "registry (queueInLoop tid cb l) = registry l"
  "interest (queueInLoop tid cb l) = interest l"
  "event_slots (queueInLoop tid cb l) = event_slots l"
  "wakeup_count (queueInLoop tid cb l) = (if threadId l \<noteq> tid \<or> callingPendingFunctors l
     then wakeup_count l + 1 else wakeup_count l)"
  by (simp_all add: queue_defs)

subsection \<open>Making and destroying a loop\<close>

lemma loop_more_fields:
  assumes "poll_state.more l' = poll_state.more (l :: 'f eventloop)"
  shows "looping l' = looping l" "quit_flag l' = quit_flag l" "threadId l' = threadId l"
    "callingPendingFunctors l' = callingPendingFunctors l" "timerChannel l' = timerChannel l"
    "wakeup_count l' = wakeup_count l" "wakeupChannel l' = wakeupChannel l"
    "pendingFunctors l' = pendingFunctors l"
  using assms by (cases l; cases l'; simp)+

text \<open>A new loop watches its timerfd and its eventfd and nothing else.\<close>

lemma EventLoop_ok:
  assumes "timerfd \<noteq> evtfd" and "ct \<noteq> c" and "0 \<le> evtfd"
  shows "\<exists>l :: 'f eventloop. EventLoop False False tid timerfd ct evtfd c = Inr l \<and> wf_poller l
     \<and> heap l = [ct \<mapsto> want_read (Channel timerfd)\<lparr>index := kAdded\<rparr>,
                 c \<mapsto> want_read (Channel evtfd)\<lparr>index := kAdded\<rparr>]
     \<and> registry l = [timerfd \<mapsto> ct, evtfd \<mapsto> c]
     \<and> interest l = [timerfd \<mapsto> (kReadEvent, ct), evtfd \<mapsto> (kReadEvent, c)]
     \<and> event_slots l = kInitEventListSize \<and> threadId l = tid \<and> timerChannel l = ct
     \<and> wakeupChannel l = c \<and> pendingFunctors l = [] \<and> wakeup_count l = 0
     \<and> \<not> callingPendingFunctors l \<and> \<not> quit_flag l \<and> \<not> looping l"
proof -
  let ?l = "poll_state.extend EPollPoller
      \<lparr>looping = False, quit_flag = False, callingPendingFunctors = False, threadId = tid,
       pollReturnTime = TimeStamp_default, timerChannel = ct, wakeup_count = 0, wakeupChannel = c,
       activeChannels = [], pendingFunctors = []\<rparr> :: 'f eventloop"
  have views: "heap ?l = Map.empty" "registry ?l = Map.empty" "interest ?l = Map.empty"
    "event_slots ?l = kInitEventListSize"
    by (simp_all add: poll_state.defs EPollPoller_def)
  have "wf_poller ?l" unfolding wf_poller_def views by simp
  from open_channel[OF this, of ct timerfd] obtain l1 where l1:
    "enableReading ct (put_channel ct (Channel timerfd) ?l) = Inr l1" "wf_poller l1"
    "interest l1 = [timerfd \<mapsto> (kReadEvent, ct)]" "registry l1 = [timerfd \<mapsto> ct]"
    "heap l1 = [ct \<mapsto> want_read (Channel timerfd)\<lparr>index := kAdded\<rparr>]"
    "event_slots l1 = kInitEventListSize" "poll_state.more l1 = poll_state.more ?l"
    by (auto simp: views)
  from open_channel[OF l1(2), of c evtfd] obtain l2 where l2:
    "enableReading c (put_channel c (Channel evtfd) l1) = Inr l2" "wf_poller l2"
    "interest l2 = [timerfd \<mapsto> (kReadEvent, ct), evtfd \<mapsto> (kReadEvent, c)]"
    "registry l2 = [timerfd \<mapsto> ct, evtfd \<mapsto> c]"
    "heap l2 = [ct \<mapsto> want_read (Channel timerfd)\<lparr>index := kAdded\<rparr>,
                c \<mapsto> want_read (Channel evtfd)\<lparr>index := kAdded\<rparr>]"
    "event_slots l2 = kInitEventListSize" "poll_state.more l2 = poll_state.more ?l"
    using assms l1(3-7) by auto
  have "EventLoop False False tid timerfd ct evtfd c = Inr l2"
    using assms(3) l1(1) l2(1) by (simp add: EventLoop_def newDefaultPoller_def createEventfd_def)
  then show ?thesis using l2 by (cases l2) (simp add: poll_state.defs)
qed

text \<open>The destructor of a channel that has left the poller, and the end of one that has not yet.\<close>

lemma Channel_destroy_ok:
  assumes wf: "wf_poller l" and ch: "heap l c = Some ch" "index ch = kNew"
  shows "Channel_destroy tid c l = Inr (l\<lparr>heap := (heap l)(c := None)\<rparr>)"
    and "wf_poller (l\<lparr>heap := (heap l)(c := None)\<rparr>)"
proof -
  have "registry l (chan_fd ch) \<noteq> Some c" using wf_pollerD(2)[OF wf ch(1)] ch(2) by blast
  then show "Channel_destroy tid c l = Inr (l\<lparr>heap := (heap l)(c := None)\<rparr>)"
    using ch(1) by (simp add: Channel_destroy_def hasChannel_def)
  have "registry l fd \<noteq> Some c" for fd
    using wf ch \<open>registry l (chan_fd ch) \<noteq> Some c\<close> unfolding wf_poller_def by (metis option.inject)
  moreover have "interest l fd \<noteq> Some (e, c)" for fd e
    using calculation interest_registry[OF wf] by blast
  ultimately show "wf_poller (l\<lparr>heap := (heap l)(c := None)\<rparr>)"
    using wf unfolding wf_poller_def wf_channel_def by simp metis
qed

text \<open>A channel that is still registered must not be destroyed in the thread of its loop.\<close>

lemma Channel_destroy_registered:
  assumes "wf_poller l" and "heap l c = Some ch" and "index ch \<noteq> kNew" and "threadId l = tid"
  shows "Channel_destroy tid c l = Inl AssertFail"
  using assms wf_pollerD(2)[OF assms(1,2)]
  by (simp add: Channel_destroy_def hasChannel_def isInLoopThread_def check_def)

lemma give_up_channel:
  fixes l :: "'f eventloop"
  assumes wf: "wf_poller l" and ch: "heap l c = Some ch" and free: "fd_free c ch l"
  shows "\<exists>l'. bind_result (bind_result (disableAll c l) (channel_remove c))
      (\<lambda>l1. Channel_destroy tid c (pendingFunctors_update g l1)) = Inr l'
    \<and> wf_poller l' \<and> heap l' = (heap l)(c := None)
    \<and> interest l' = (interest l)(chan_fd ch := None) \<and> registry l' = (registry l)(chan_fd ch := None)
    \<and> threadId l' = threadId l \<and> timerChannel l' = timerChannel l \<and> wakeupChannel l' = wakeupChannel l
    \<and> pendingFunctors l' = g (pendingFunctors l)"
proof -
  obtain l1 where l1: "bind_result (disableAll c l) (channel_remove c) = Inr l1" "wf_poller l1"
    "interest l1 = (interest l)(chan_fd ch := None)" "registry l1 = (registry l)(chan_fd ch := None)"
    "heap l1 = (heap l)(c \<mapsto> unwant_all ch\<lparr>index := kNew\<rparr>)" "poll_state.more l1 = poll_state.more l"
    using close_channel[OF assms] by (elim exE conjE) (rule that)
  let ?l = "pendingFunctors_update g l1"
  have "wf_poller ?l" using l1(2) wf_poller_cong[of l1 ?l] by simp
  moreover have "heap ?l c = Some (unwant_all ch\<lparr>index := kNew\<rparr>)" by (simp add: l1(5))
  ultimately show ?thesis
    using Channel_destroy_ok[of ?l c "unwant_all ch\<lparr>index := kNew\<rparr>"] loop_more_fields[OF l1(6)]
    by (simp add: l1)
qed

lemma pendingFunctors_id: "pendingFunctors_update id l = (l :: 'f eventloop)"
  by (cases l) simp

lemma close_timerChannel_ok:
  fixes l :: "'f eventloop"
  assumes "wf_poller l" and "heap l (timerChannel l) = Some ch" and "fd_free (timerChannel l) ch l"
  shows "\<exists>l'. close_timerChannel tid l = Inr l' \<and> wf_poller l'
    \<and> heap l' = (heap l)(timerChannel l := None)
    \<and> interest l' = (interest l)(chan_fd ch := None) \<and> registry l' = (registry l)(chan_fd ch := None)"
  using give_up_channel[OF assms, of tid id] by (auto simp: pendingFunctors_id close_timerChannel_def)

text \<open>A loop that is destroyed watches neither of them any more, and its channels are gone.\<close>

lemma EventLoop_closes:
  assumes "timerfd \<noteq> evtfd" and "ct \<noteq> c" and "0 \<le> evtfd"
  shows "\<exists>l l' :: 'f eventloop. EventLoop False False tid timerfd ct evtfd c = Inr l
     \<and> EventLoop_destroy t l = Inr l' \<and> wf_poller l'
     \<and> heap l' = Map.empty \<and> interest l' = Map.empty \<and> registry l' = Map.empty"
proof -
  obtain l :: "'f eventloop" where l: "EventLoop False False tid timerfd ct evtfd c = Inr l" "wf_poller l"
    "heap l = [ct \<mapsto> want_read (Channel timerfd)\<lparr>index := kAdded\<rparr>,
               c \<mapsto> want_read (Channel evtfd)\<lparr>index := kAdded\<rparr>]"
    "registry l = [timerfd \<mapsto> ct, evtfd \<mapsto> c]"
    "interest l = [timerfd \<mapsto> (kReadEvent, ct), evtfd \<mapsto> (kReadEvent, c)]"
    "timerChannel l = ct" "wakeupChannel l = c"
    using EventLoop_ok[OF assms, of tid] by blast
  have added: "fd_free c' (want_read (Channel fd)\<lparr>index := kAdded\<rparr>) s"
    "chan_fd (want_read (Channel fd)\<lparr>index := kAdded\<rparr>) = fd" for c' fd and s :: "'f eventloop"
    by (simp_all add: fd_free_def Channel_def index_defs)
  have "heap l c = Some (want_read (Channel evtfd)\<lparr>index := kAdded\<rparr>)" by (simp add: l(3))
  from give_up_channel[OF l(2) this added(1), of t "\<lambda>_. []"]
  obtain l1 where l1: "bind_result (bind_result (disableAll c l) (channel_remove c))
      (\<lambda>l1. Channel_destroy t c (l1\<lparr>pendingFunctors := []\<rparr>)) = Inr l1" "wf_poller l1"
    "heap l1 = (heap l)(c := None)" "interest l1 = (interest l)(evtfd := None)"
    "registry l1 = (registry l)(evtfd := None)" "timerChannel l1 = ct" "pendingFunctors l1 = []"
    unfolding added(2) l(6,7) by metis
  have "heap l1 ct = Some (want_read (Channel timerfd)\<lparr>index := kAdded\<rparr>)"
    using assms(2) by (simp add: l1(3) l(3))
  from close_timerChannel_ok[OF l1(2), unfolded l1(6), OF this added(1), of t]
  obtain l2 where l2: "close_timerChannel t l1 = Inr l2" "wf_poller l2"
    "heap l2 = (heap l1)(ct := None)" "interest l2 = (interest l1)(timerfd := None)"
    "registry l2 = (registry l1)(timerfd := None)"
    unfolding added(2) by metis
  have "heap l2 = Map.empty" "interest l2 = Map.empty" "registry l2 = Map.empty"
    using l(3-5) l1(3-5) l2(3-5) assms(1,2) by (auto simp: fun_eq_iff)
  moreover have "EventLoop_destroy t l = Inr l2"
    using l1(1,6) l2(1) l(6,7) by (simp add: EventLoop_destroy_def)
  ultimately show ?thesis using l(1) l2(2) by blast
qed

subsection \<open>Running the queue\<close>

text \<open>
  What a functor may do to the queue of the loop while it runs in its thread: add
  functors at the end, and wake the loop when it does.
\<close>

definition adds_functors :: "'f list \<Rightarrow> 'f eventloop \<Rightarrow> 'f eventloop \<Rightarrow> bool" where
  "adds_functors fs l l' \<longleftrightarrow>
     pendingFunctors l' = pendingFunctors l @ fs
     \<and> callingPendingFunctors l' = callingPendingFunctors l
     \<and> wakeup_count l \<le> wakeup_count l'
     \<and> (fs \<noteq> [] \<longrightarrow> 0 < wakeup_count l')"

lemma adds_functors_refl: "adds_functors [] l l"
  by (simp add: adds_functors_def)

lemma adds_functors_trans:
  "adds_functors fs l l' \<Longrightarrow> adds_functors gs l' l'' \<Longrightarrow> adds_functors (fs @ gs) l l''"
  by (auto simp: adds_functors_def)

lemma adds_functors_queue:
  "callingPendingFunctors l \<Longrightarrow> adds_functors [cb] l (queueInLoop tid cb l)"
  by (simp add: adds_functors_def)

text \<open>
  The contract between a program and the loop it holds: the accesses to the loop, and
  what a functor adds to the queue.
\<close>

locale loop_host =
  fixes get :: "'w \<Rightarrow> 'f eventloop"
    and upd :: "('f eventloop \<Rightarrow> 'f eventloop) \<Rightarrow> 'w \<Rightarrow> 'w"
  assumes get_upd: "get (upd g w) = g (get w)"

locale functor_host = loop_host get upd
  for get :: "'w \<Rightarrow> 'f eventloop" and upd :: "('f eventloop \<Rightarrow> 'f eventloop) \<Rightarrow> 'w \<Rightarrow> 'w" +
  fixes exec :: "'f \<Rightarrow> 'w \<Rightarrow> 'w result"
  assumes exec_adds: "callingPendingFunctors (get w) \<Longrightarrow> exec f w = Inr w' \<Longrightarrow>
    \<exists>gs. adds_functors gs (get w) (get w')"
begin

lemma sequence_adds:
  "callingPendingFunctors (get w) \<Longrightarrow> call_sequence exec fs w = Inr w' \<Longrightarrow>
     \<exists>gs. adds_functors gs (get w) (get w')"
proof (induction fs arbitrary: w)
  case Nil
  then show ?case using adds_functors_refl by auto
next
  case (Cons f fs)
  then obtain w1 where w1: "exec f w = Inr w1" "call_sequence exec fs w1 = Inr w'" by auto
  obtain hs where a: "adds_functors hs (get w) (get w1)" using exec_adds Cons.prems(1) w1(1) by blast
  then have "callingPendingFunctors (get w1)" using Cons.prems(1) by (simp add: adds_functors_def)
  with Cons.IH w1(2) obtain gs where "adds_functors gs (get w1) (get w')" by blast
  then show ?case using adds_functors_trans[OF a] by blast
qed

text \<open>
  After \<open>doPendingFunctors\<close>, exactly the functors queued while it ran are pending, and
  the loop has been woken if there are any.
\<close>

lemma doPendingFunctors_wakes:
  assumes "doPendingFunctors get upd exec w = Inr w'"
  shows "\<not> callingPendingFunctors (get w')"
    and "pendingFunctors (get w') \<noteq> [] \<Longrightarrow> 0 < wakeup_count (get w')"
proof -
  let ?w2 = "upd (\<lambda>l. l\<lparr>pendingFunctors := []\<rparr>) (upd (\<lambda>l. l\<lparr>callingPendingFunctors := True\<rparr>) w)"
  from assms obtain w3 where w3: "call_sequence exec (pendingFunctors (get w)) ?w2 = Inr w3"
      "w' = upd (\<lambda>l. l\<lparr>callingPendingFunctors := False\<rparr>) w3"
    by (auto simp: doPendingFunctors_def Let_def get_upd)
  have "callingPendingFunctors (get ?w2)" by (simp add: get_upd)
  then obtain gs where "adds_functors gs (get ?w2) (get w3)" using sequence_adds w3(1) by blast
  then show "\<not> callingPendingFunctors (get w')"
    and "pendingFunctors (get w') \<noteq> [] \<Longrightarrow> 0 < wakeup_count (get w')"
    by (auto simp: w3(2) get_upd adds_functors_def)
qed

end

subsection \<open>The protocol of the loop and the queueing threads\<close>

text \<open>
  Where the loop thread is: outside of \<open>loop ()\<close>, blocked in \<open>poll\<close>, in the handlers of
  the active channels, or in \<open>doPendingFunctors\<close> with some functors left to call.
\<close>

datatype 'f position = Outside | InPoll | InHandlers | InFunctors "'f list"

text \<open>
  \<open>in_flight\<close> counts the threads that are in \<open>queueInLoop\<close> between the end of the
  critical section and \<open>wakeup\<close>; \<open>early\<close> says that the loop thread has queued a functor
  outside of \<open>loop ()\<close>; \<open>queued\<close> and \<open>called\<close> record the functors of the whole run.
\<close>

record 'f loop_run =
  the_loop :: "'f eventloop"
  pos :: "'f position"
  in_flight :: nat
  early :: bool
  queued :: "'f list"
  called :: "'f list"

definition begin_functors :: "'f eventloop \<Rightarrow> 'f eventloop" where
  "begin_functors l = l\<lparr>callingPendingFunctors := True, pendingFunctors := []\<rparr>"

inductive loop_step :: "'f loop_run \<Rightarrow> 'f loop_run \<Rightarrow> bool" where
  other_push:   \<comment> \<open>another thread: the critical section of \<open>queueInLoop\<close>\<close>
    "loop_step s (s\<lparr>the_loop := push_functor f (the_loop s), in_flight := in_flight s + 1,
                   queued := queued s @ [f]\<rparr>)"
| other_wake:   \<comment> \<open>and its second half\<close>
    "tid \<noteq> threadId (the_loop s) \<Longrightarrow> 0 < in_flight s \<Longrightarrow>
     loop_step s (s\<lparr>the_loop := wake_after_push tid (the_loop s), in_flight := in_flight s - 1\<rparr>)"
| other_quit:
    "tid \<noteq> threadId (the_loop s) \<Longrightarrow> loop_step s (s\<lparr>the_loop := quit tid (the_loop s)\<rparr>)"
| own_queue_outside:
    "pos s = Outside \<Longrightarrow>
     loop_step s (s\<lparr>the_loop := queueInLoop (threadId (the_loop s)) f (the_loop s),
                   queued := queued s @ [f], early := True\<rparr>)"
| enter_loop:
    "pos s = Outside \<Longrightarrow>
     loop_step s (s\<lparr>the_loop := (the_loop s)\<lparr>looping := True, quit_flag := False\<rparr>,
                   pos := InPoll\<rparr>)"
| poll_returns:
    "pos s = InPoll \<Longrightarrow> loop_step s (s\<lparr>pos := InHandlers\<rparr>)"
| handle_wakeup:
    "pos s = InHandlers \<Longrightarrow>
     loop_step s (s\<lparr>the_loop := snd (wakeup_handleRead (the_loop s))\<rparr>)"
| own_queue_handler:
    "pos s = InHandlers \<Longrightarrow>
     loop_step s (s\<lparr>the_loop := queueInLoop (threadId (the_loop s)) f (the_loop s),
                   queued := queued s @ [f]\<rparr>)"
| take_functors:
    "pos s = InHandlers \<Longrightarrow>
     loop_step s (s\<lparr>the_loop := begin_functors (the_loop s),
                   pos := InFunctors (pendingFunctors (the_loop s))\<rparr>)"
| call_functor:
    "pos s = InFunctors (f # fs) \<Longrightarrow>
     loop_step s (s\<lparr>pos := InFunctors fs, called := called s @ [f]\<rparr>)"
| own_queue_functor:
    "pos s = InFunctors fs \<Longrightarrow>
     loop_step s (s\<lparr>the_loop := queueInLoop (threadId (the_loop s)) f (the_loop s),
                   queued := queued s @ [f]\<rparr>)"
| next_round:
    "pos s = InFunctors [] \<Longrightarrow>
     loop_step s (s\<lparr>the_loop := (the_loop s)\<lparr>callingPendingFunctors := False,
                       looping := \<not> quit_flag (the_loop s)\<rparr>,
                   pos := (if quit_flag (the_loop s) then Outside else InPoll)\<rparr>)"

definition loop_initial :: "'f eventloop \<Rightarrow> 'f loop_run" where
  "loop_initial l = \<lparr>the_loop = l, pos = Outside, in_flight = 0, early = False,
                     queued = [], called = []\<rparr>"

definition fresh_loop :: "'f eventloop \<Rightarrow> bool" where
  "fresh_loop l \<longleftrightarrow> pendingFunctors l = [] \<and> \<not> callingPendingFunctors l"

inductive loop_reachable :: "'f loop_run \<Rightarrow> bool" where
  start: "fresh_loop l \<Longrightarrow> loop_reachable (loop_initial l)"
| step: "loop_reachable s \<Longrightarrow> loop_step s t \<Longrightarrow> loop_reachable t"

fun left_to_call :: "'f position \<Rightarrow> 'f list" where
  "left_to_call (InFunctors fs) = fs"
| "left_to_call _ = []"

fun in_functors :: "'f position \<Rightarrow> bool" where
  "in_functors (InFunctors fs) = True"
| "in_functors _ = False"

text \<open>
  The invariant: functors are called in the order in which they were queued, the flag
  \<open>callingPendingFunctors_\<close> says where the loop thread is, and whenever the loop does not
  look at the queue by itself, a pending functor comes with a wakeup.
\<close>

definition loop_inv :: "'f loop_run \<Rightarrow> bool" where
  "loop_inv s \<longleftrightarrow>
     queued s = called s @ left_to_call (pos s) @ pendingFunctors (the_loop s)
     \<and> callingPendingFunctors (the_loop s) = in_functors (pos s)
     \<and> (pos s \<noteq> InHandlers \<longrightarrow> pendingFunctors (the_loop s) \<noteq> [] \<longrightarrow>
          0 < wakeup_count (the_loop s) \<or> 0 < in_flight s \<or> early s)"

lemma loop_step_inv: "loop_step s t \<Longrightarrow> loop_inv s \<Longrightarrow> loop_inv t"
proof (induction rule: loop_step.induct)
  case (other_push s f)
  then show ?case by (simp add: loop_inv_def push_functor_def)
next
  case (other_wake tid s)
  then show ?case by (simp add: loop_inv_def wake_after_push_def isInLoopThread_def wakeup_def)
next
  case (other_quit tid s)
  then show ?case by (simp add: loop_inv_def quit_def isInLoopThread_def wakeup_def Let_def)
next
  case (own_queue_functor s fs f)
  then show ?case by (simp add: loop_inv_def)
next
  case (next_round s)
  then show ?case by (simp add: loop_inv_def)
qed (simp_all add: loop_inv_def wakeup_handleRead_def begin_functors_def)

lemma loop_inv_initial: "fresh_loop l \<Longrightarrow> loop_inv (loop_initial l)"
  by (simp add: loop_inv_def loop_initial_def fresh_loop_def)

lemma loop_reachable_inv: "loop_reachable s \<Longrightarrow> loop_inv s"
  by (induction rule: loop_reachable.induct) (blast intro: loop_inv_initial loop_step_inv)+

text \<open>The states of a run that starts with the constructor and queues one functor too early.\<close>

definition sample_loop :: "nat eventloop" where
  "sample_loop = poll_state.extend EPollPoller
     \<lparr>looping = False, quit_flag = False, callingPendingFunctors = False, threadId = 1,
      pollReturnTime = TimeStamp_default, timerChannel = 9, wakeup_count = 0, wakeupChannel = 0,
      activeChannels = [], pendingFunctors = []\<rparr>"

lemma fresh_sample_loop: "fresh_loop sample_loop"
  by (simp add: fresh_loop_def sample_loop_def poll_state.defs)

lemma sample_loop_simps [simp]:
  "threadId sample_loop = 1" "pendingFunctors sample_loop = []" "wakeup_count sample_loop = 0"
  "callingPendingFunctors sample_loop = False"
  by (simp_all add: sample_loop_def poll_state.defs)

text \<open>C14: functors are called exactly once each, in the order in which they were queued by
  whichever thread: at any moment the functors queued so far are those called, then those the
  loop has taken, then those that are pending.\<close>

theorem functors_called_in_order:
  assumes "loop_reachable s"
  shows "queued s = called s @ left_to_call (pos s) @ pendingFunctors (the_loop s)"
  using loop_reachable_inv[OF assms] by (simp add: loop_inv_def)

theorem functors_called_in_order_witness:
  "queued (loop_initial sample_loop) = called (loop_initial sample_loop)
     @ left_to_call (pos (loop_initial sample_loop))
     @ pendingFunctors (the_loop (loop_initial sample_loop))"
  by (rule functors_called_in_order[OF loop_reachable.start[OF fresh_sample_loop]])

text \<open>C15: no wakeup is lost. While the loop is blocked in \<open>poll\<close> with a functor pending, the
  eventfd is readable, so \<open>poll\<close> returns, or the thread that queued it is about to write to
  it. The one exception is a functor the loop thread itself queued before it entered
  \<open>loop ()\<close>.\<close>

theorem no_lost_wakeup:
  assumes "loop_reachable s" and "pos s = InPoll" and "pendingFunctors (the_loop s) \<noteq> []"
    and "\<not> early s"
  shows "0 < wakeup_count (the_loop s) \<or> 0 < in_flight s"
  using loop_reachable_inv[OF assms(1)] assms(2-4) by (simp add: loop_inv_def)

lemma sample_push_reachable:
  "\<exists>s. loop_reachable s \<and> pos s = InPoll \<and> pendingFunctors (the_loop s) = [7 :: nat] \<and> \<not> early s"
proof -
  let ?a = "loop_initial sample_loop"
  let ?b = "?a\<lparr>the_loop := (the_loop ?a)\<lparr>looping := True, quit_flag := False\<rparr>, pos := InPoll\<rparr>"
  let ?c = "?b\<lparr>the_loop := push_functor 7 (the_loop ?b), in_flight := in_flight ?b + 1,
      queued := queued ?b @ [7]\<rparr>"
  have "loop_step ?a ?b" by (rule loop_step.enter_loop) (simp add: loop_initial_def)
  then have "loop_reachable ?b"
    using loop_reachable.step loop_reachable.start[OF fresh_sample_loop] by blast
  then have "loop_reachable ?c" using loop_step.other_push by (rule loop_reachable.step)
  moreover have "pos ?c = InPoll" "pendingFunctors (the_loop ?c) = [7]" "\<not> early ?c"
    by (simp_all add: loop_initial_def push_functor_def)
  ultimately show ?thesis by blast
qed

theorem no_lost_wakeup_witness:
  "\<exists>s. loop_reachable s \<and> pos s = InPoll \<and> pendingFunctors (the_loop s) = [7 :: nat]
     \<and> (0 < wakeup_count (the_loop s) \<or> 0 < in_flight s)"
proof -
  obtain s where s: "loop_reachable s" "pos s = InPoll" "pendingFunctors (the_loop s) = [7 :: nat]"
      "\<not> early s"
    using sample_push_reachable by blast
  then have "0 < wakeup_count (the_loop s) \<or> 0 < in_flight s"
    by (intro no_lost_wakeup[OF s(1,2) _ s(4)]) simp
  with s show ?thesis by blast
qed

text \<open>The exception is real. A functor that the loop thread queues before it calls
  \<open>loop ()\<close> is pending while the loop is blocked in \<open>poll\<close> and nothing will wake it before
  the timeout of ten seconds.\<close>

theorem early_functor_not_woken:
  "\<exists>s. loop_reachable s \<and> pos s = InPoll \<and> pendingFunctors (the_loop s) = [7 :: nat]
     \<and> wakeup_count (the_loop s) = 0 \<and> in_flight s = 0"
proof -
  let ?a = "loop_initial sample_loop"
  let ?b = "?a\<lparr>the_loop := queueInLoop (threadId (the_loop ?a)) 7 (the_loop ?a),
                queued := queued ?a @ [7], early := True\<rparr>"
  let ?c = "?b\<lparr>the_loop := (the_loop ?b)\<lparr>looping := True, quit_flag := False\<rparr>, pos := InPoll\<rparr>"
  have "loop_step ?a ?b" by (rule loop_step.own_queue_outside) (simp add: loop_initial_def)
  then have "loop_reachable ?b"
    using loop_reachable.step loop_reachable.start[OF fresh_sample_loop] by blast
  moreover have "loop_step ?b ?c" by (rule loop_step.enter_loop) (simp add: loop_initial_def)
  ultimately have "loop_reachable ?c" by (rule loop_reachable.step)
  moreover have "pos ?c = InPoll" "pendingFunctors (the_loop ?c) = [7]"
      "wakeup_count (the_loop ?c) = 0" "in_flight ?c = 0"
    by (simp_all add: loop_initial_def)
  ultimately show ?thesis by blast
qed

end
