(* ===== verification/Loop_Threads.thy ===== *)
theory Loop_Threads
  imports Net_EventLoop
begin

section \<open>Threads that run a loop (src/net/EventLoopThread.*, src/net/EventLoopThreadPool.*)\<close>

text \<open>
  An \<open>EventLoopThreadPool\<close> owns a number of threads that each run one event loop and
  hands the loops out in turn. A loop is a number. The first part is the pool, whose
  \<open>start\<close> calls the user's callback once for every loop; the second part is the protocol
  between an \<open>EventLoopThread\<close>, the thread that starts and destroys it and the thread that
  runs the loop, as a step relation with one step per statement that touches shared state.
\<close>

subsection \<open>The pool\<close>

record loop_pool =
  baseLoop :: nat                     \<comment> \<open>\<open>baseLoop_\<close>\<close>
  pool_name :: "char list"            \<comment> \<open>\<open>name_\<close>\<close>
  pool_started :: bool                \<comment> \<open>\<open>started_\<close>\<close>
  numThreads :: int                   \<comment> \<open>\<open>numThreads_\<close>\<close>
  next_loop :: nat                    \<comment> \<open>\<open>next_\<close>\<close>
  pool_threads :: "char list list"    \<comment> \<open>\<open>threads_\<close>, by their names\<close>
  pool_loops :: "nat list"            \<comment> \<open>\<open>loops_\<close>\<close>

definition EventLoopThreadPool :: "nat \<Rightarrow> char list \<Rightarrow> loop_pool" where
  "EventLoopThreadPool base nameArg =
     \<lparr>baseLoop = base, pool_name = nameArg, pool_started = False, numThreads = 0,
      next_loop = 0, pool_threads = [], pool_loops = []\<rparr>"

definition setThreadNum :: "int \<Rightarrow> loop_pool \<Rightarrow> loop_pool" where
  "setThreadNum n p = p\<lparr>numThreads := n\<rparr>"

text \<open>
  The body of the loop of \<open>start\<close> for \<open>i\<close>: the name is printed into a buffer of
  \<open>name_.size () + 32\<close> bytes; \<open>startLoop\<close> returns when the new thread has made its loop,
  number \<open>fresh i\<close>, and has called the callback on it.
\<close>

definition start_thread ::
    "(nat \<Rightarrow> 'w \<Rightarrow> 'w result) option \<Rightarrow> (nat \<Rightarrow> nat) \<Rightarrow> nat \<Rightarrow> loop_pool \<times> 'w
       \<Rightarrow> (loop_pool \<times> 'w) result" where
  "start_thread cb fresh i pw =
     (let p = fst pw; w = snd pw;
          buf = snprintf_keep (length (pool_name p) + 32) (pool_name p @ decimal i)
      in bind_result (case cb of None \<Rightarrow> Inr w | Some f \<Rightarrow> f (fresh i) w) (\<lambda>w'.
           Inr (p\<lparr>pool_threads := pool_threads p @ [buf],
                  pool_loops := pool_loops p @ [fresh i]\<rparr>, w')))"

definition start_pool ::
    "(nat \<Rightarrow> 'w \<Rightarrow> 'w result) option \<Rightarrow> (nat \<Rightarrow> nat) \<Rightarrow> loop_pool \<Rightarrow> 'w
       \<Rightarrow> (loop_pool \<times> 'w) result" where
  "start_pool cb fresh p w =
     bind_result (call_sequence (start_thread cb fresh) [0..<nat (numThreads p)]
                    (p\<lparr>pool_started := True\<rparr>, w))
       (\<lambda>(p', w').
          if numThreads p' = 0
          then case cb of None \<Rightarrow> Inr (p', w')
               | Some f \<Rightarrow> bind_result (f (baseLoop p') w') (\<lambda>w''. Inr (p', w''))
          else Inr (p', w'))"

definition getNextLoop :: "loop_pool \<Rightarrow> (nat \<times> loop_pool) result" where
  "getNextLoop p =
     (if pool_loops p \<noteq> []
      then if next_loop p < length (pool_loops p)
           then let n = next_loop p + 1
                in Inr (pool_loops p ! next_loop p,
                        p\<lparr>next_loop := (if n \<ge> length (pool_loops p) then 0 else n)\<rparr>)
           else Inl OutOfBounds
      else Inr (baseLoop p, p))"

definition getAllLoops :: "loop_pool \<Rightarrow> nat list" where
  "getAllLoops p = (if pool_loops p = [] then [baseLoop p] else pool_loops p)"

text \<open>The loops that a number of calls hand out.\<close>

fun next_loops :: "nat \<Rightarrow> loop_pool \<Rightarrow> (nat list \<times> loop_pool) result" where
  "next_loops 0 p = Inr ([], p)"
| "next_loops (Suc k) p =
     bind_result (getNextLoop p) (\<lambda>(l, p').
     bind_result (next_loops k p') (\<lambda>(ls, p''). Inr (l # ls, p'')))"

definition wf_pool :: "loop_pool \<Rightarrow> bool" where
  "wf_pool p \<longleftrightarrow> (if pool_loops p = [] then next_loop p = 0
                  else next_loop p < length (pool_loops p))"

subsection \<open>Facts about the pool\<close>

lemma getNextLoop_ok:
  assumes "wf_pool p"
  shows "getNextLoop p = Inr (getAllLoops p ! (next_loop p mod length (getAllLoops p)),
    p\<lparr>next_loop := Suc (next_loop p) mod length (getAllLoops p)\<rparr>)"
proof (cases "pool_loops p = []")
  case True
  then have "next_loop p = 0" using assms by (simp add: wf_pool_def)
  then show ?thesis using True by (cases p) (simp add: getNextLoop_def getAllLoops_def)
next
  case False
  with assms have "next_loop p < length (pool_loops p)" by (simp add: wf_pool_def)
  moreover from this have "Suc (next_loop p) mod length (pool_loops p)
      = (if Suc (next_loop p) \<ge> length (pool_loops p) then 0 else Suc (next_loop p))"
    by (auto simp: le_Suc_eq)
  ultimately show ?thesis using False by (simp add: getNextLoop_def getAllLoops_def Let_def)
qed

lemma getNextLoop_wf: "wf_pool p \<Longrightarrow> wf_pool (p\<lparr>next_loop := Suc n mod length (getAllLoops p)\<rparr>)"
  by (simp add: wf_pool_def getAllLoops_def)

lemma next_loops_ok:
  "wf_pool p \<Longrightarrow> next_loops k p =
     Inr (map (\<lambda>j. getAllLoops p ! ((next_loop p + j) mod length (getAllLoops p))) [0..<k],
          p\<lparr>next_loop := (next_loop p + k) mod length (getAllLoops p)\<rparr>)"
proof (induction k arbitrary: p)
  case 0
  then have "next_loop p < length (getAllLoops p)" by (simp add: wf_pool_def getAllLoops_def split: if_splits)
  then show ?case by simp
next
  case (Suc k)
  let ?n = "length (getAllLoops p)"
  let ?p = "p\<lparr>next_loop := Suc (next_loop p) mod ?n\<rparr>"
  have same: "getAllLoops ?p = getAllLoops p" by (simp add: getAllLoops_def)
  have shift: "(Suc (next_loop p) mod ?n + j) mod ?n = (next_loop p + Suc j) mod ?n" for j
    by (simp add: mod_add_left_eq)
  have "[0..<Suc k] = 0 # map Suc [0..<k]" by (simp only: upt_conv_Cons map_Suc_upt zero_less_Suc)
  then show ?case
    using getNextLoop_ok[OF Suc.prems] Suc.IH[OF getNextLoop_wf[OF Suc.prems, of "next_loop p"]]
    by (simp add: same shift del: upt_Suc)
qed

lemma start_thread_eq:
  "start_thread cb fresh i (p, w) =
     bind_result (case cb of None \<Rightarrow> Inr w | Some f \<Rightarrow> f (fresh i) w) (\<lambda>w'.
       Inr (p\<lparr>pool_threads := pool_threads p @
                [snprintf_keep (length (pool_name p) + 32) (pool_name p @ decimal i)],
              pool_loops := pool_loops p @ [fresh i]\<rparr>, w'))"
  by (simp add: start_thread_def Let_def)

lemma start_threads_pool:
  "call_sequence (start_thread cb fresh) is (p, w) = Inr (p', w') \<Longrightarrow>
     p' = p\<lparr>pool_threads := pool_threads p @
               map (\<lambda>i. snprintf_keep (length (pool_name p) + 32) (pool_name p @ decimal i)) is,
            pool_loops := pool_loops p @ map fresh is\<rparr>
     \<and> (case cb of None \<Rightarrow> Inr w | Some f \<Rightarrow> call_sequence f (map fresh is) w) = Inr w'"
proof (induction "is" arbitrary: p w)
  case Nil
  then show ?case by (cases cb) auto
next
  case (Cons i "is")
  let ?buf = "snprintf_keep (length (pool_name p) + 32) (pool_name p @ decimal i)"
  let ?p = "p\<lparr>pool_threads := pool_threads p @ [?buf], pool_loops := pool_loops p @ [fresh i]\<rparr>"
  from Cons.prems obtain w1 where w1: "(case cb of None \<Rightarrow> Inr w | Some f \<Rightarrow> f (fresh i) w) = Inr w1"
      "call_sequence (start_thread cb fresh) is (?p, w1) = Inr (p', w')"
    by (auto simp: start_thread_eq)
  from Cons.IH[OF w1(2)] w1(1) show ?case by (cases cb) auto
qed

lemma start_pool_state:
  assumes "start_pool cb fresh p w = Inr (p', w')"
  shows "p' = p\<lparr>pool_started := True,
      pool_threads := pool_threads p @
        map (\<lambda>i. snprintf_keep (length (pool_name p) + 32) (pool_name p @ decimal i))
          [0..<nat (numThreads p)],
      pool_loops := pool_loops p @ map fresh [0..<nat (numThreads p)]\<rparr>"
  using assms start_threads_pool[of cb fresh "[0..<nat (numThreads p)]" "p\<lparr>pool_started := True\<rparr>" w]
  by (auto simp: start_pool_def split: if_splits option.splits)

text \<open>The callback has been called once for every loop that the pool hands out, in order.\<close>

lemma start_pool_calls:
  assumes "start_pool (Some f) fresh p w = Inr (p', w')" and "0 \<le> numThreads p" and "pool_loops p = []"
  shows "call_sequence f (getAllLoops p') w = Inr w'"
proof -
  obtain p1 w1 where p1: "call_sequence (start_thread (Some f) fresh) [0..<nat (numThreads p)]
      (p\<lparr>pool_started := True\<rparr>, w) = Inr (p1, w1)"
    and rest: "(if numThreads p1 = 0 then bind_result (f (baseLoop p1) w1) (\<lambda>w''. Inr (p1, w''))
        else Inr (p1, w1)) = Inr (p', w')"
    using assms(1) by (auto simp: start_pool_def cong: if_cong)
  note state = start_threads_pool[OF p1, simplified]
  show ?thesis
  proof (cases "numThreads p = 0")
    case True
    then have "f (baseLoop p1) w1 = Inr w'" "p' = p1" "w1 = w" using rest state by auto
    then show ?thesis using state True assms(3)
      by (simp add: getAllLoops_def call_sequence_fun)
  next
    case False
    then have "p' = p1" "w1 = w'" using rest state by auto
    moreover have "map fresh [0..<nat (numThreads p)] \<noteq> []" using False assms(2) by simp
    ultimately show ?thesis using state assms(3) by (simp add: getAllLoops_def)
  qed
qed

lemma round_robin_share:
  "0 < n \<Longrightarrow> length (filter (\<lambda>j. j mod n = i) [0..<m * n]) = (if i < n then m else 0)"
proof (induction m)
  case 0
  then show ?case by simp
next
  case (Suc m)
  have split: "[0..<n + m * n] = [0..<m * n] @ map (\<lambda>j. j + m * n) [0..<n]"
    using upt_add_eq_append[of 0 "m * n" n] map_add_upt[of "m * n" n] by (simp add: add.commute)
  have "filter (\<lambda>j. (j + m * n) mod n = i) [0..<n] = filter (\<lambda>j. j = i) [0..<n]"
    by (rule filter_cong) simp_all
  then have "length (filter (\<lambda>j. (j + m * n) mod n = i) [0..<n]) = (if i < n then 1 else 0)"
    by (simp add: distinct_length_filter Int_insert_right)
  then show ?case using Suc by (simp add: split filter_map o_def)
qed

text \<open>Connections are spread evenly. A pool that was started with \<open>n > 0\<close> threads hands
  out its loops round robin, so in \<open>m * n\<close> calls of \<open>getNextLoop\<close> each of them comes up
  exactly \<open>m\<close> times; a pool without threads always hands out the base loop. The callback
  has been called once on each of these loops.\<close>

theorem loops_round_robin:
  assumes start: "start_pool (Some f) fresh (setThreadNum n (EventLoopThreadPool base name)) w = Inr (p, w')"
    and n: "0 \<le> n"
  shows "(\<exists>p'. next_loops k p = Inr (map (\<lambda>j. getAllLoops p ! (j mod length (getAllLoops p))) [0..<k], p'))
    \<and> getAllLoops p = (if n = 0 then [base] else map fresh [0..<nat n])
    \<and> call_sequence f (getAllLoops p) w = Inr w'
    \<and> (\<forall>i < length (getAllLoops p).
         length (filter (\<lambda>j. j mod length (getAllLoops p) = i) [0..<m * length (getAllLoops p)]) = m)"
proof -
  let ?p0 = "setThreadNum n (EventLoopThreadPool base name)"
  note state = start_pool_state[OF start]
  have all: "getAllLoops p = (if n = 0 then [base] else map fresh [0..<nat n])"
    using n by (simp add: state getAllLoops_def setThreadNum_def EventLoopThreadPool_def)
  have next0: "next_loop p = 0" and wf: "wf_pool p"
    using n by (auto simp: state wf_pool_def setThreadNum_def EventLoopThreadPool_def)
  have pos: "0 < length (getAllLoops p)" by (simp add: getAllLoops_def)
  have "call_sequence f (getAllLoops p) w = Inr w'"
    by (rule start_pool_calls[OF start]) (use n in \<open>simp_all add: setThreadNum_def EventLoopThreadPool_def\<close>)
  then show ?thesis
    using next_loops_ok[OF wf, of k] next0 all round_robin_share[OF pos] by simp
qed

theorem loops_round_robin_witness:
  "\<exists>p p' w'. start_pool (Some (\<lambda>l w. Inr (w @ [l]))) (\<lambda>i. i + 10)
       (setThreadNum 3 (EventLoopThreadPool 1 ''srv'')) [] = Inr (p, w')
     \<and> next_loops 5 p = Inr ([10, 11, 12, 10, 11], p') \<and> w' = [10, 11, 12]"
proof -
  obtain p where p: "start_pool (Some (\<lambda>l w. Inr (w @ [l]))) (\<lambda>i. i + 10)
       (setThreadNum 3 (EventLoopThreadPool 1 ''srv'')) [] = Inr (p, [10, 11, 12])"
    by (simp add: start_pool_def start_thread_def setThreadNum_def EventLoopThreadPool_def Let_def
        upt_rec)
  from loops_round_robin[OF p, of 5 0] show ?thesis
    using p by (auto simp: upt_rec)
qed

subsection \<open>The protocol of one \<open>EventLoopThread\<close>\<close>

text \<open>
  Where \<open>threadFunc\<close> is: not started, running the callback on the new loop, between the
  publication of \<open>loop_\<close> and the reset of \<open>quit_\<close> in \<open>loop ()\<close>, inside of \<open>loop ()\<close>, behind
  it, behind the assignment of the null pointer (the loop object dies with the function),
  and ended. \<open>startLoop\<close> waits on the condition variable until \<open>loop_\<close> is set. The
  destructor tests \<open>loop_\<close>, calls \<open>quit\<close> on the pointer and joins the thread.
\<close>

datatype thread_pos = NotStarted | InCallback | Published | InLoop | LoopLeft | Cleared | Ended

datatype starter_pos = BeforeStart | WaitingForLoop | StartReturned

datatype destroyer_pos = Living | Tested | QuitCalled | Destroyed | UsedDeadLoop

record loop_thread =
  lt_loop :: bool            \<comment> \<open>\<open>loop_\<close> is not null\<close>
  lt_exiting :: bool         \<comment> \<open>\<open>exiting_\<close>\<close>
  lt_quit :: bool            \<comment> \<open>\<open>quit_\<close> of the loop\<close>
  lt_thread :: thread_pos
  lt_starter :: starter_pos
  lt_destroyer :: destroyer_pos

definition EventLoopThread :: loop_thread where
  "EventLoopThread = \<lparr>lt_loop = False, lt_exiting = False, lt_quit = False,
     lt_thread = NotStarted, lt_starter = BeforeStart, lt_destroyer = Living\<rparr>"

text \<open>The loop object exists.\<close>

fun loop_alive :: "thread_pos \<Rightarrow> bool" where
  "loop_alive NotStarted = False"
| "loop_alive Ended = False"
| "loop_alive _ = True"

inductive thread_step :: "loop_thread \<Rightarrow> loop_thread \<Rightarrow> bool" where
  start_thread:
    "lt_starter s = BeforeStart \<Longrightarrow> lt_destroyer s = Living \<Longrightarrow>
     thread_step s (s\<lparr>lt_starter := WaitingForLoop, lt_thread := InCallback\<rparr>)"
| publish:
    "lt_thread s = InCallback \<Longrightarrow> thread_step s (s\<lparr>lt_thread := Published, lt_loop := True\<rparr>)"
| start_returns:
    "lt_starter s = WaitingForLoop \<Longrightarrow> lt_loop s \<Longrightarrow> thread_step s (s\<lparr>lt_starter := StartReturned\<rparr>)"
| enter_loop:
    "lt_thread s = Published \<Longrightarrow> thread_step s (s\<lparr>lt_thread := InLoop, lt_quit := False\<rparr>)"
| leave_loop:
    "lt_thread s = InLoop \<Longrightarrow> lt_quit s \<Longrightarrow> thread_step s (s\<lparr>lt_thread := LoopLeft\<rparr>)"
| clear_pointer:
    "lt_thread s = LoopLeft \<Longrightarrow> thread_step s (s\<lparr>lt_thread := Cleared, lt_loop := False\<rparr>)"
| end_thread:
    "lt_thread s = Cleared \<Longrightarrow> thread_step s (s\<lparr>lt_thread := Ended\<rparr>)"
| loop_user_quits:
    "lt_starter s = StartReturned \<Longrightarrow> loop_alive (lt_thread s) \<Longrightarrow> lt_destroyer s = Living \<Longrightarrow>
     thread_step s (s\<lparr>lt_quit := True\<rparr>)"
| destroy_begins:
    "lt_starter s \<noteq> WaitingForLoop \<Longrightarrow> lt_destroyer s = Living \<Longrightarrow>
     thread_step s (s\<lparr>lt_exiting := True,
                     lt_destroyer := (if lt_loop s then Tested else Destroyed)\<rparr>)"
| destroy_quits:
    "lt_destroyer s = Tested \<Longrightarrow>
     thread_step s (if loop_alive (lt_thread s)
                    then s\<lparr>lt_quit := True, lt_destroyer := QuitCalled\<rparr>
                    else s\<lparr>lt_destroyer := UsedDeadLoop\<rparr>)"
| destroy_joins:
    "lt_destroyer s = QuitCalled \<Longrightarrow> lt_thread s = Ended \<Longrightarrow>
     thread_step s (s\<lparr>lt_destroyer := Destroyed\<rparr>)"

inductive thread_reachable :: "loop_thread \<Rightarrow> bool" where
  start: "thread_reachable EventLoopThread"
| step: "thread_reachable s \<Longrightarrow> thread_step s t \<Longrightarrow> thread_reachable t"

fun thread_stage :: "thread_pos \<Rightarrow> nat" where
  "thread_stage NotStarted = 0"
| "thread_stage InCallback = 1"
| "thread_stage Published = 2"
| "thread_stage InLoop = 3"
| "thread_stage LoopLeft = 4"
| "thread_stage Cleared = 5"
| "thread_stage Ended = 6"

definition thread_inv :: "loop_thread \<Rightarrow> bool" where
  "thread_inv s \<longleftrightarrow>
     (lt_loop s \<longleftrightarrow> lt_thread s \<in> {Published, InLoop, LoopLeft})
     \<and> (lt_starter s = BeforeStart \<longleftrightarrow> lt_thread s = NotStarted)
     \<and> (lt_starter s = StartReturned \<longrightarrow> 2 \<le> thread_stage (lt_thread s))
     \<and> (lt_destroyer s \<noteq> Living \<longrightarrow> lt_starter s \<noteq> WaitingForLoop)
     \<and> (lt_destroyer s \<in> {Tested, QuitCalled} \<longrightarrow> lt_starter s = StartReturned)
     \<and> (4 \<le> thread_stage (lt_thread s) \<longrightarrow> lt_quit s)"

lemma starter_cases: "x \<noteq> WaitingForLoop \<Longrightarrow> x \<noteq> BeforeStart \<Longrightarrow> x = StartReturned"
  by (cases x) simp_all

lemma thread_step_inv: "thread_step s t \<Longrightarrow> thread_inv s \<Longrightarrow> thread_inv t"
  by (induction rule: thread_step.induct) (auto simp: thread_inv_def dest: starter_cases)

lemma thread_reachable_inv: "thread_reachable s \<Longrightarrow> thread_inv s"
proof (induction rule: thread_reachable.induct)
  case start
  then show ?case by (simp add: thread_inv_def EventLoopThread_def)
next
  case step
  then show ?case using thread_step_inv by blast
qed

inductive_cases thread_stepE: "thread_step s t"

text \<open>The first steps of a run: the thread is started and \<open>startLoop\<close> has returned.\<close>

definition started_thread :: loop_thread where
  "started_thread = EventLoopThread\<lparr>lt_starter := StartReturned, lt_thread := Published,
     lt_loop := True\<rparr>"

lemma started_thread_reachable: "thread_reachable started_thread"
proof -
  let ?a = "EventLoopThread\<lparr>lt_starter := WaitingForLoop, lt_thread := InCallback\<rparr>"
  let ?b = "?a\<lparr>lt_thread := Published, lt_loop := True\<rparr>"
  have "thread_step EventLoopThread ?a"
    by (rule thread_step.start_thread) (simp_all add: EventLoopThread_def)
  then have "thread_reachable ?a" using thread_reachable.start thread_reachable.step by blast
  moreover have "thread_step ?a ?b" by (rule thread_step.publish) simp
  ultimately have "thread_reachable ?b" by (rule thread_reachable.step)
  moreover have "thread_step ?b (?b\<lparr>lt_starter := StartReturned\<rparr>)"
    by (rule thread_step.start_returns) simp_all
  ultimately have "thread_reachable (?b\<lparr>lt_starter := StartReturned\<rparr>)" by (rule thread_reachable.step)
  then show ?thesis by (simp add: started_thread_def EventLoopThread_def)
qed

text \<open>C38: \<open>startLoop\<close> returns a loop that exists. Once it has returned, the loop object is
  alive and published for as long as nobody has called \<open>quit\<close>.\<close>

theorem startLoop_returns_live_loop:
  assumes "thread_reachable s" and "lt_starter s = StartReturned" and "\<not> lt_quit s"
  shows "lt_loop s \<and> loop_alive (lt_thread s)"
proof -
  have "thread_inv s" using assms(1) by (rule thread_reachable_inv)
  with assms(2,3) show ?thesis by (cases "lt_thread s") (auto simp: thread_inv_def)
qed

theorem startLoop_returns_live_loop_witness:
  "lt_loop started_thread \<and> loop_alive (lt_thread started_thread)"
  by (rule startLoop_returns_live_loop[OF started_thread_reachable])
    (simp_all add: started_thread_def EventLoopThread_def)

text \<open>The destructor can hang. When it calls \<open>quit\<close> between the publication of the loop
  and the start of \<open>loop ()\<close>, which resets \<open>quit_\<close>, the request is lost: the thread stays in
  the loop, the destructor waits in \<open>join\<close>, and no step is possible any more.\<close>

theorem destructor_can_hang:
  "\<exists>s. thread_reachable s \<and> lt_destroyer s = QuitCalled \<and> lt_thread s = InLoop
     \<and> \<not> lt_quit s \<and> (\<forall>t. \<not> thread_step s t)"
proof -
  let ?a = "started_thread\<lparr>lt_exiting := True, lt_destroyer := Tested\<rparr>"
  let ?b = "?a\<lparr>lt_quit := True, lt_destroyer := QuitCalled\<rparr>"
  let ?c = "?b\<lparr>lt_thread := InLoop, lt_quit := False\<rparr>"
  have st: "lt_starter started_thread = StartReturned" "lt_destroyer started_thread = Living"
    "lt_loop started_thread" "lt_thread started_thread = Published"
    by (simp_all add: started_thread_def EventLoopThread_def)
  have "thread_step started_thread ?a" using thread_step.destroy_begins[of started_thread] st by simp
  then have "thread_reachable ?a" using started_thread_reachable thread_reachable.step by blast
  moreover have "thread_step ?a ?b" using thread_step.destroy_quits[of ?a] st by simp
  ultimately have "thread_reachable ?b" by (rule thread_reachable.step)
  moreover have "thread_step ?b ?c" by (rule thread_step.enter_loop) (simp add: st)
  ultimately have "thread_reachable ?c" by (rule thread_reachable.step)
  moreover have "\<not> thread_step ?c t" for t by (auto simp: st elim: thread_stepE)
  ultimately show ?thesis by (intro exI[of _ ?c]) (simp add: st)
qed

text \<open>A \<open>quit\<close> that comes later is honoured. If the destructor has called \<open>quit\<close> and the
  request is still set while the thread is in \<open>loop ()\<close>, the thread ends, and the join and
  the destructor return.\<close>

theorem destructor_returns:
  assumes "thread_reachable s" and "lt_destroyer s = QuitCalled" and "lt_thread s = InLoop"
    and "lt_quit s"
  shows "\<exists>t. thread_step\<^sup>*\<^sup>* s t \<and> lt_destroyer t = Destroyed \<and> lt_thread t = Ended"
proof -
  let ?a = "s\<lparr>lt_thread := LoopLeft\<rparr>"
  let ?b = "?a\<lparr>lt_thread := Cleared, lt_loop := False\<rparr>"
  let ?c = "?b\<lparr>lt_thread := Ended\<rparr>"
  let ?d = "?c\<lparr>lt_destroyer := Destroyed\<rparr>"
  have a: "thread_step s ?a" using assms(3,4) by (rule thread_step.leave_loop)
  have b: "thread_step ?a ?b" by (rule thread_step.clear_pointer) simp
  have c: "thread_step ?b ?c" by (rule thread_step.end_thread) simp
  have d: "thread_step ?c ?d" by (rule thread_step.destroy_joins) (simp_all add: assms)
  note into = converse_rtranclp_into_rtranclp[of thread_step]
  have "thread_step\<^sup>*\<^sup>* s ?d" by (rule into[OF a into[OF b into[OF c r_into_rtranclp[of thread_step, OF d]]]])
  then show ?thesis by (intro exI[of _ ?d]) simp
qed

lemma late_quit_reachable:
  "\<exists>s. thread_reachable s \<and> lt_destroyer s = QuitCalled \<and> lt_thread s = InLoop \<and> lt_quit s"
proof -
  let ?a = "started_thread\<lparr>lt_thread := InLoop, lt_quit := False\<rparr>"
  let ?b = "?a\<lparr>lt_exiting := True, lt_destroyer := Tested\<rparr>"
  let ?c = "?b\<lparr>lt_quit := True, lt_destroyer := QuitCalled\<rparr>"
  have st: "lt_starter started_thread = StartReturned" "lt_destroyer started_thread = Living"
    "lt_loop started_thread" "lt_thread started_thread = Published"
    by (simp_all add: started_thread_def EventLoopThread_def)
  have "thread_step started_thread ?a" by (rule thread_step.enter_loop) (simp add: st)
  then have "thread_reachable ?a" using started_thread_reachable thread_reachable.step by blast
  moreover have "thread_step ?a ?b" using thread_step.destroy_begins[of ?a] st by simp
  ultimately have "thread_reachable ?b" by (rule thread_reachable.step)
  moreover have "thread_step ?b ?c" using thread_step.destroy_quits[of ?b] by simp
  ultimately have "thread_reachable ?c" by (rule thread_reachable.step)
  then show ?thesis by (intro exI[of _ ?c]) simp
qed

theorem destructor_returns_witness:
  "\<exists>s t. thread_reachable s \<and> lt_destroyer s = QuitCalled \<and> thread_step\<^sup>*\<^sup>* s t
     \<and> lt_destroyer t = Destroyed"
  using late_quit_reachable destructor_returns by blast

end
