(* ===== verification/Net_Inet.thy ===== *)
theory Net_Inet
  imports Net_Prelude
begin

section \<open>Addresses and sockets (src/net/InetAddress.*, src/net/Socket.*)\<close>

text \<open>
  A \<open>sockaddr_in\<close> in memory: the port and the address are in network byte order, most
  significant byte first, so they are modelled as their bytes and the conversions
  \<open>htons\<close> and \<open>ntohs\<close> split and join them. \<open>inet_addr\<close> and \<open>inet_ntop\<close> are the C library's
  conversions for the dotted notation: the former takes one to four numbers in C
  notation (decimal, octal after \<open>0\<close>, hexadecimal after \<open>0x\<close>), the last of which fills the
  remaining bytes, and yields \<open>INADDR_NONE\<close> for anything else.
\<close>

type_synonym byte = "8 word"

record sockaddr_in =
  sin_port :: "byte \<times> byte"
  sin_addr :: "byte \<times> byte \<times> byte \<times> byte"

definition htons :: "16 word \<Rightarrow> byte \<times> byte" where
  "htons p = (ucast (drop_bit 8 p), ucast p)"

definition ntohs :: "byte \<times> byte \<Rightarrow> 16 word" where
  "ntohs b = of_nat (256 * unat (fst b) + unat (snd b))"

text \<open>The digits of a number in base 8, 10 or 16.\<close>

definition digit_value :: "char \<Rightarrow> nat option" where
  "digit_value c =
     (let n = of_char c :: nat
      in if 48 \<le> n \<and> n \<le> 57 then Some (n - 48)
         else if 97 \<le> n \<and> n \<le> 102 then Some (n - 87)
         else if 65 \<le> n \<and> n \<le> 70 then Some (n - 55) else None)"

fun number_in_base :: "nat \<Rightarrow> nat \<Rightarrow> char list \<Rightarrow> nat option" where
  "number_in_base base acc [] = Some acc"
| "number_in_base base acc (c # cs) =
     (case digit_value c of None \<Rightarrow> None
      | Some d \<Rightarrow> if d < base then number_in_base base (base * acc + d) cs else None)"

definition c_number :: "char list \<Rightarrow> nat option" where
  "c_number s =
     (case s of [] \<Rightarrow> None
      | c # cs \<Rightarrow>
          if c \<noteq> CHR ''0'' then number_in_base 10 0 s
          else case cs of [] \<Rightarrow> Some 0
               | x # ds \<Rightarrow> if x = CHR ''x'' \<or> x = CHR ''X''
                          then (if ds = [] then None else number_in_base 16 0 ds)
                          else number_in_base 8 0 cs)"

fun split_dots :: "char list \<Rightarrow> char list list" where
  "split_dots [] = [[]]"
| "split_dots (c # cs) =
     (if c = CHR ''.'' then [] # split_dots cs
      else case split_dots cs of [] \<Rightarrow> [[c]] | p # ps \<Rightarrow> (c # p) # ps)"

fun all_numbers :: "char list list \<Rightarrow> nat list option" where
  "all_numbers [] = Some []"
| "all_numbers (p # ps) =
     (case c_number p of None \<Rightarrow> None
      | Some n \<Rightarrow> map_option (\<lambda>ns. n # ns) (all_numbers ps))"

definition addr_bytes :: "nat \<Rightarrow> byte \<times> byte \<times> byte \<times> byte" where
  "addr_bytes n = (of_nat (n div 2 ^ 24), of_nat (n div 2 ^ 16), of_nat (n div 2 ^ 8), of_nat n)"

definition INADDR_NONE :: "byte \<times> byte \<times> byte \<times> byte" where
  "INADDR_NONE = (255, 255, 255, 255)"

definition inet_addr :: "char list \<Rightarrow> byte \<times> byte \<times> byte \<times> byte" where
  "inet_addr s =
     (case all_numbers (split_dots s) of
        Some [a] \<Rightarrow> if a < 2 ^ 32 then addr_bytes a else INADDR_NONE
      | Some [a, b] \<Rightarrow> if a < 256 \<and> b < 2 ^ 24 then addr_bytes (a * 2 ^ 24 + b) else INADDR_NONE
      | Some [a, b, c] \<Rightarrow>
          if a < 256 \<and> b < 256 \<and> c < 2 ^ 16 then addr_bytes (a * 2 ^ 24 + b * 2 ^ 16 + c)
          else INADDR_NONE
      | Some [a, b, c, d] \<Rightarrow>
          if a < 256 \<and> b < 256 \<and> c < 256 \<and> d < 256
          then (of_nat a, of_nat b, of_nat c, of_nat d) else INADDR_NONE
      | _ \<Rightarrow> INADDR_NONE)"

definition inet_ntop :: "byte \<times> byte \<times> byte \<times> byte \<Rightarrow> char list" where
  "inet_ntop a = (case a of (b1, b2, b3, b4) \<Rightarrow>
     decimal (unat b1) @ ''.'' @ decimal (unat b2) @ ''.'' @ decimal (unat b3)
     @ ''.'' @ decimal (unat b4))"

subsection \<open>\<open>InetAddress\<close>\<close>

definition InetAddress :: "16 word \<Rightarrow> char list \<Rightarrow> sockaddr_in" where
  "InetAddress port ip = \<lparr>sin_port = htons port, sin_addr = inet_addr ip\<rparr>"

definition toIp :: "sockaddr_in \<Rightarrow> char list" where
  "toIp a = inet_ntop (sin_addr a)"

definition toIpPort :: "sockaddr_in \<Rightarrow> char list" where
  "toIpPort a =
     (let buf = inet_ntop (sin_addr a); port = ntohs (sin_port a)
      in buf @ snprintf_keep (32 - length buf) (CHR '':'' # decimal (unat port)))"

definition toPort :: "sockaddr_in \<Rightarrow> 16 word" where
  "toPort a = ntohs (sin_port a)"

subsection \<open>Facts\<close>

lemma unat_ntohs: "unat (ntohs z) = 256 * unat (fst z) + unat (snd z)"
proof -
  have "256 * unat (fst z) + unat (snd z) < 65536"
    using unat_byte_less[of "fst z"] unat_byte_less[of "snd z"] by simp
  then show ?thesis unfolding ntohs_def unat_of_nat by simp
qed

lemma ntohs_htons [simp]: "ntohs (htons p) = p"
proof -
  have "unat p div 256 < 256" using unat_16_less[of p] by simp
  moreover have "unat (drop_bit 8 p) = unat p div 256"
    by (simp add: drop_bit_eq_div unat_div_distrib)
  ultimately have "unat (ntohs (htons p)) = unat p"
    by (simp add: unat_ntohs htons_def unsigned_ucast_eq take_bit_eq_mod del: drop_bit_eq_div)
  then show ?thesis by (simp add: word_eq_iff_unsigned[where 'a = nat])
qed

lemma split_dots_no_dot: "CHR ''.'' \<notin> set s \<Longrightarrow> split_dots s = [s]"
  by (induction s) auto

lemma split_dots_append:
  "CHR ''.'' \<notin> set s \<Longrightarrow> split_dots (s @ CHR ''.'' # t) = s # split_dots t"
  by (induction s) auto

lemma digit_value_digit_char: "d < 10 \<Longrightarrow> digit_value (digit_char d) = Some d"
  by (simp add: digit_value_def digit_char_def)

lemma number_in_base_digits:
  "\<forall>c \<in> set cs. \<exists>d < 10. c = digit_char d \<Longrightarrow>
     number_in_base 10 acc cs = Some (foldl (\<lambda>n c. 10 * n + char_digit c) acc cs)"
proof (induction cs arbitrary: acc)
  case Nil
  then show ?case by simp
next
  case (Cons c cs)
  then obtain d where d: "d < 10" "c = digit_char d" by auto
  with Cons show ?case by (simp add: digit_value_digit_char char_digit_digit_char)
qed

lemma decimal_leading_zero: "0 < n \<Longrightarrow> hd (decimal n) \<noteq> CHR ''0''"
proof (induction n rule: decimal.induct)
  case (1 n)
  show ?case
  proof (cases "n < 10")
    case True
    with "1.prems" have "digit_char n \<noteq> digit_char 0"
      using char_digit_digit_char[of n] char_digit_digit_char[of 0] by fastforce
    then show ?thesis using True by (subst decimal.simps) (simp add: digit_char_0)
  next
    case False
    then have "0 < n div 10" by simp
    then show ?thesis using "1.IH"[OF False] False by (subst decimal.simps) simp
  qed
qed

lemma c_number_decimal: "c_number (decimal n) = Some n"
proof (cases "n = 0")
  case True
  then show ?thesis by (simp add: decimal.simps[of 0] digit_char_0 c_number_def)
next
  case False
  have "\<forall>c \<in> set (decimal n). \<exists>d < 10. c = digit_char d" using set_decimal[of n] by auto
  then have "number_in_base 10 0 (decimal n) = Some n"
    using parse_decimal_decimal[of n] by (simp add: number_in_base_digits parse_decimal_def)
  moreover obtain c cs where "decimal n = c # cs" using decimal_nonempty by (cases "decimal n") auto
  moreover have "hd (decimal n) \<noteq> CHR ''0''" using decimal_leading_zero False by simp
  ultimately show ?thesis by (simp add: c_number_def del: number_in_base.simps)
qed

lemma dot_not_in_decimal [simp]: "CHR ''.'' \<notin> set (decimal n)"
  by (rule not_in_decimal) simp

lemma colon_not_in_decimal [simp]: "CHR '':'' \<notin> set (decimal n)"
  by (rule not_in_decimal) simp

lemma inet_addr_ntop: "inet_addr (inet_ntop a) = a"
proof -
  obtain b1 b2 b3 b4 where a: "a = (b1, b2, b3, b4)" by (cases a)
  note bound = unat_byte_less
  have "split_dots (inet_ntop a)
      = [decimal (unat b1), decimal (unat b2), decimal (unat b3), decimal (unat b4)]"
    by (simp add: a inet_ntop_def split_dots_append split_dots_no_dot)
  then show ?thesis by (simp add: a inet_addr_def c_number_decimal bound)
qed

lemma length_byte_decimal: "length (decimal (unat (b :: byte))) \<le> 3"
  using unat_byte_less[of b] by (intro length_decimal_le) simp_all

lemma length_inet_ntop: "length (inet_ntop a) \<le> 15"
proof -
  obtain b1 b2 b3 b4 where a: "a = (b1, b2, b3, b4)" by (cases a)
  show ?thesis
    using length_byte_decimal[of b1] length_byte_decimal[of b2] length_byte_decimal[of b3]
      length_byte_decimal[of b4] by (simp add: a inet_ntop_def)
qed

lemma length_port_decimal: "length (decimal (unat (p :: 16 word))) \<le> 5"
  using unat_16_less[of p] by (intro length_decimal_le) simp_all

lemma toIpPort_eq: "toIpPort a = toIp a @ CHR '':'' # decimal (unat (toPort a))"
  using length_inet_ntop[of "sin_addr a"] length_port_decimal[of "ntohs (sin_port a)"]
  by (simp add: toIpPort_def toIp_def toPort_def Let_def snprintf_keep_def)

lemma length_toIpPort: "length (toIpPort a) \<le> 21"
  using length_inet_ntop[of "sin_addr a"] length_port_decimal[of "ntohs (sin_port a)"]
  by (simp add: toIpPort_eq toIp_def toPort_def)

lemma colon_not_in_toIp: "CHR '':'' \<notin> set (toIp a)"
proof -
  obtain b1 b2 b3 b4 where a: "sin_addr a = (b1, b2, b3, b4)" by (cases "sin_addr a")
  then show ?thesis by (simp add: toIp_def inet_ntop_def)
qed

lemma split_at_colon:
  "xs @ c # ys = xs' @ c # ys' \<Longrightarrow> c \<notin> set xs \<Longrightarrow> c \<notin> set xs' \<Longrightarrow> xs = xs' \<and> ys = ys'"
proof (induction xs arbitrary: xs')
  case Nil
  then show ?case by (cases xs') auto
next
  case (Cons x xs)
  then show ?case by (cases xs') auto
qed

lemma toIp_inject: "toIp a = toIp b \<Longrightarrow> sin_addr a = sin_addr b"
  unfolding toIp_def by (metis inet_addr_ntop)

lemma ntohs_inject: "ntohs x = ntohs y \<Longrightarrow> x = y"
proof -
  assume eq: "ntohs x = ntohs y"
  then have e: "256 * unat (fst x) + unat (snd x) = 256 * unat (fst y) + unat (snd y)"
    by (metis unat_ntohs)
  have split: "(256 * m + n) div 256 = m" if "n < 256" for m n :: nat using that by simp
  have "unat (fst x) = unat (fst y)"
    using split[OF unat_byte_less, of "unat (fst x)" "snd x"]
      split[OF unat_byte_less, of "unat (fst y)" "snd y"] e by metis
  moreover from this e have "unat (snd x) = unat (snd y)" by linarith
  ultimately show "x = y" by (simp add: prod_eq_iff word_eq_iff_unsigned[where 'a = nat])
qed

lemma htons_ntohs [simp]: "htons (ntohs x) = x"
  by (rule ntohs_inject) simp

lemma address_text_inject: "toIp a = toIp b \<Longrightarrow> toPort a = toPort b \<Longrightarrow> a = b"
  using toIp_inject[of a b] ntohs_inject[of "sin_port a" "sin_port b"] by (simp add: toPort_def)

text \<open>An address that is printed and built again from its text and its port is the same
  address, and the port given to the constructor is the one that is read back.\<close>

theorem address_round_trip:
  "InetAddress (toPort a) (toIp a) = a \<and> toPort (InetAddress p ip) = p"
  by (simp add: InetAddress_def toPort_def toIp_def inet_addr_ntop)

text \<open>C5: the text \<open>Ip:port\<close> identifies the address, and it always fits into the 32 bytes
  that \<open>toIpPort\<close> formats it in.\<close>

theorem toIpPort_identifies:
  "(toIpPort a = toIpPort b \<longleftrightarrow> a = b) \<and> length (toIpPort a) \<le> 21
     \<and> toIpPort a = toIp a @ CHR '':'' # decimal (unat (toPort a))"
proof -
  have "a = b" if "toIpPort a = toIpPort b"
  proof -
    from that have "toIp a = toIp b" "decimal (unat (toPort a)) = decimal (unat (toPort b))"
      using split_at_colon[OF _ colon_not_in_toIp colon_not_in_toIp] unfolding toIpPort_eq by blast+
    then have "toIp a = toIp b" "toPort a = toPort b"
      by (simp_all add: word_eq_iff_unsigned[where 'a = nat])
    then show ?thesis using address_text_inject by metis
  qed
  then show ?thesis using length_toIpPort[of a] toIpPort_eq[of a] by blast
qed

end
