(* ===== verification/Net_TcpConnection.thy ===== *)
theory Net_TcpConnection
  imports Net_Buffer Net_EventLoop Net_Inet
begin

section \<open>Connections (src/net/TcpConnection.h, src/net/TcpConnection.cpp, src/net/Socket.cpp)\<close>

text \<open>
  The state is a \<open>world\<close>: the event loops and the connections by number, the thread that
  is running, and the answers that the kernel gives to the next reads and writes. A
  connection holds the fields of the class and the state of its socket: the bytes the
  kernel has taken (\<open>wire\<close>) and whether the write side is shut down. User callbacks are
  arguments, functions on the world. The functors that the code binds and queues are the
  constructors of \<open>loop_functor\<close>. Each handler is one definition; \<open>conn_inv\<close> is the invariant
  that relates the state of a connection, its channel and its output buffer.
\<close>

datatype StateE = kConnecting | kConnected | kDisconnecting | kDisconnected

datatype loop_functor =
    SendInLoop nat "char list"
  | ShutdownInLoop nat
  | CallWriteComplete nat
  | CallHighWaterMark nat nat
  | ConnectEstablished nat
  | ConnectDestroyed nat
  | RemoveConnectionInLoop nat
  | AcceptorListen
  | AddTimerInLoop nat nat
  | UserFunctor nat

record tcpconn =
  conn_loop :: nat                 \<comment> \<open>\<open>loop_\<close>\<close>
  conn_name :: "char list"         \<comment> \<open>\<open>name_\<close>\<close>
  conn_state :: StateE             \<comment> \<open>\<open>state_\<close>\<close>
  reading :: bool                  \<comment> \<open>\<open>reading_\<close>\<close>
  sockfd :: int                    \<comment> \<open>\<open>socket_\<close>\<close>
  conn_channel :: nat              \<comment> \<open>\<open>channel_\<close>\<close>
  localAddr :: sockaddr_in         \<comment> \<open>\<open>localAddr_\<close>\<close>
  peerAddr :: sockaddr_in          \<comment> \<open>\<open>peerAddr_\<close>\<close>
  highWaterMark :: nat             \<comment> \<open>\<open>highWaterMark_\<close>\<close>
  inputBuffer :: buffer            \<comment> \<open>\<open>inputBuffer_\<close>\<close>
  outputBuffer :: buffer           \<comment> \<open>\<open>outputBuffer_\<close>\<close>
  wire :: "char list"
  write_shut :: bool
  keep_alive :: bool
  no_delay :: bool

record world =
  loops :: "nat \<Rightarrow> loop_functor eventloop"
  conns :: "nat \<Rightarrow> tcpconn"
  cur_thread :: nat
  read_answers :: "nat \<Rightarrow> read_answer"
  write_answers :: "nat \<Rightarrow> write_answer"
  reads_done :: nat
  writes_done :: nat

record 'w conn_callbacks =
  connectionCallback :: "(nat \<Rightarrow> 'w \<Rightarrow> 'w result) option"
  messageCallback :: "(nat \<Rightarrow> TimeStamp \<Rightarrow> 'w \<Rightarrow> 'w result) option"
  writeCompleteCallback :: "(nat \<Rightarrow> 'w \<Rightarrow> 'w result) option"
  closeCallback_conn :: "(nat \<Rightarrow> 'w \<Rightarrow> 'w result) option"
  highWaterMarkCallback :: "(nat \<Rightarrow> nat \<Rightarrow> 'w \<Rightarrow> 'w result) option"

text \<open>Calling a \<open>std::function\<close> without looking whether it is empty.\<close>

definition call_function :: "'f option \<Rightarrow> ('f \<Rightarrow> 'w result) \<Rightarrow> 'w result" where
  "call_function cb k = (case cb of None \<Rightarrow> Inl BadFunctionCall | Some f \<Rightarrow> k f)"

subsection \<open>Accesses\<close>

definition cloop :: "nat \<Rightarrow> 's world_scheme \<Rightarrow> loop_functor eventloop" where
  "cloop i w = loops w (conn_loop (conns w i))"

definition upd_loop ::
    "nat \<Rightarrow> (loop_functor eventloop \<Rightarrow> loop_functor eventloop) \<Rightarrow> 's world_scheme \<Rightarrow> 's world_scheme" where
  "upd_loop l g w = w\<lparr>loops := (loops w)(l := g (loops w l))\<rparr>"

definition upd_cloop ::
    "nat \<Rightarrow> (loop_functor eventloop \<Rightarrow> loop_functor eventloop) \<Rightarrow> 's world_scheme \<Rightarrow> 's world_scheme" where
  "upd_cloop i g w = upd_loop (conn_loop (conns w i)) g w"

definition upd_conn :: "nat \<Rightarrow> (tcpconn \<Rightarrow> tcpconn) \<Rightarrow> 's world_scheme \<Rightarrow> 's world_scheme" where
  "upd_conn i g w = w\<lparr>conns := (conns w)(i := g (conns w i))\<rparr>"

definition get_chan :: "nat \<Rightarrow> 's world_scheme \<Rightarrow> channel result" where
  "get_chan i w =
     (case heap (cloop i w) (conn_channel (conns w i)) of
        None \<Rightarrow> Inl NullPointer | Some ch \<Rightarrow> Inr ch)"

text \<open>An operation of the channel of connection \<open>i\<close>, on the poller of its loop.\<close>

definition on_channel ::
    "(nat \<Rightarrow> loop_functor eventloop \<Rightarrow> loop_functor eventloop result) \<Rightarrow> nat
       \<Rightarrow> 's world_scheme \<Rightarrow> 's world_scheme result" where
  "on_channel chan_op i w =
     bind_result (chan_op (conn_channel (conns w i)) (cloop i w))
       (\<lambda>l. Inr (upd_cloop i (\<lambda>_. l) w))"

definition queue_conn :: "nat \<Rightarrow> loop_functor \<Rightarrow> 's world_scheme \<Rightarrow> 's world_scheme" where
  "queue_conn i f w = upd_cloop i (queueInLoop (cur_thread w) f) w"

definition run_conn ::
    "nat \<Rightarrow> loop_functor \<Rightarrow> ('s world_scheme \<Rightarrow> 's world_scheme result)
       \<Rightarrow> 's world_scheme \<Rightarrow> 's world_scheme result" where
  "run_conn i f act w = runInLoop (cloop i) (upd_cloop i) (cur_thread w) f act w"

definition setState :: "nat \<Rightarrow> StateE \<Rightarrow> 's world_scheme \<Rightarrow> 's world_scheme" where
  "setState i s w = upd_conn i (\<lambda>c. c\<lparr>conn_state := s\<rparr>) w"

definition EWOULDBLOCK :: nat where "EWOULDBLOCK = 11"
definition EPIPE :: nat where "EPIPE = 32"
definition ECONNRESET :: nat where "ECONNRESET = 104"

text \<open>\<open>::write\<close> on the socket: the result or \<open>errno\<close>, and the bytes the kernel takes.\<close>

definition socket_write ::
    "nat \<Rightarrow> char list \<Rightarrow> 's world_scheme \<Rightarrow> (nat + nat) \<times> 's world_scheme" where
  "socket_write i data w =
     (let w1 = w\<lparr>writes_done := Suc (writes_done w)\<rparr>
      in case sys_write (write_answers w (writes_done w)) data of
           Inl e \<Rightarrow> (Inl e, w1)
         | Inr taken \<Rightarrow> (Inr (length taken), upd_conn i (\<lambda>c. c\<lparr>wire := wire c @ taken\<rparr>) w1))"

subsection \<open>Construction\<close>

definition setKeepAlive :: "nat \<Rightarrow> bool \<Rightarrow> 's world_scheme \<Rightarrow> 's world_scheme" where
  "setKeepAlive i on w = upd_conn i (\<lambda>c. c\<lparr>keep_alive := on\<rparr>) w"

definition setTcpNoDelay :: "nat \<Rightarrow> bool \<Rightarrow> 's world_scheme \<Rightarrow> 's world_scheme" where
  "setTcpNoDelay i on w = upd_conn i (\<lambda>c. c\<lparr>no_delay := on\<rparr>) w"

definition new_conn ::
    "nat \<Rightarrow> char list \<Rightarrow> int \<Rightarrow> nat \<Rightarrow> sockaddr_in \<Rightarrow> sockaddr_in \<Rightarrow> tcpconn" where
  "new_conn l name fd ch local peer =
     \<lparr>conn_loop = l, conn_name = name, conn_state = kConnecting, reading = True, sockfd = fd,
      conn_channel = ch, localAddr = local, peerAddr = peer, highWaterMark = 64 * 1024 * 1024,
      inputBuffer = Buffer kInitialSize, outputBuffer = Buffer kInitialSize,
      wire = [], write_shut = False, keep_alive = False, no_delay = False\<rparr>"

text \<open>\<open>l\<close> is the loop, \<open>None\<close> a null pointer; \<open>ch\<close> the address of the new channel.\<close>

definition TcpConnection ::
    "nat option \<Rightarrow> char list \<Rightarrow> int \<Rightarrow> nat \<Rightarrow> sockaddr_in \<Rightarrow> sockaddr_in \<Rightarrow> nat
       \<Rightarrow> 's world_scheme \<Rightarrow> 's world_scheme result" where
  "TcpConnection lp name fd ch local peer i w =
     (case lp of None \<Rightarrow> Inl FatalLog
      | Some l \<Rightarrow>
          let w1 = upd_conn i (\<lambda>_. new_conn l name fd ch local peer) w;
              w2 = upd_loop l (put_channel ch (Channel fd)) w1
          in Inr (setKeepAlive i True w2))"

subsection \<open>Sending\<close>

text \<open>
  The two halves of \<open>sendInLoop\<close>: the direct write of an idle connection, which yields
  \<open>nwrote\<close>, \<open>remaining\<close> and \<open>faultError\<close>, and the buffering of the bytes that remain.
\<close>

definition direct_write ::
    "'s world_scheme conn_callbacks \<Rightarrow> nat \<Rightarrow> char list \<Rightarrow> channel \<Rightarrow> 's world_scheme
       \<Rightarrow> nat \<times> nat \<times> bool \<times> 's world_scheme" where
  "direct_write cbs i msg ch w =
     (let len = length msg in
      if \<not> isWriting ch \<and> readableBytes (outputBuffer (conns w i)) = 0
      then case socket_write i msg w of
             (Inr nwrote, w1) \<Rightarrow>
               let remaining = len - nwrote
               in (nwrote, remaining, False,
                   if remaining = 0 \<and> writeCompleteCallback cbs \<noteq> None
                   then queue_conn i (CallWriteComplete i) w1 else w1)
           | (Inl e, w1) \<Rightarrow> (0, len, e \<noteq> EWOULDBLOCK \<and> (e = EPIPE \<or> e = ECONNRESET), w1)
      else (0, len, False, w))"

definition buffer_remaining ::
    "'s world_scheme conn_callbacks \<Rightarrow> nat \<Rightarrow> char list \<Rightarrow> 's world_scheme \<Rightarrow> 's world_scheme result"
  where
  "buffer_remaining cbs i data w =
     (let remaining = length data;
          oldLen = readableBytes (outputBuffer (conns w i));
          hwm = highWaterMark (conns w i);
          w1 = (if oldLen + remaining \<ge> hwm \<and> oldLen < hwm \<and> highWaterMarkCallback cbs \<noteq> None
                then queue_conn i (CallHighWaterMark i (oldLen + remaining)) w else w)
      in bind_result (append_buffer data (outputBuffer (conns w1 i))) (\<lambda>out.
         let w2 = upd_conn i (\<lambda>c. c\<lparr>outputBuffer := out\<rparr>) w1
         in bind_result (get_chan i w2) (\<lambda>ch.
            if \<not> isWriting ch then on_channel enableWriting i w2 else Inr w2)))"

definition sendInLoop ::
    "'s world_scheme conn_callbacks \<Rightarrow> nat \<Rightarrow> char list \<Rightarrow> 's world_scheme \<Rightarrow> 's world_scheme result"
  where
  "sendInLoop cbs i msg w =
     (if conn_state (conns w i) = kDisconnected then Inr w
      else bind_result (get_chan i w) (\<lambda>ch.
        let (nwrote, remaining, faultError, w1) = direct_write cbs i msg ch w
        in if \<not> faultError \<and> remaining > 0
           then buffer_remaining cbs i (take remaining (drop nwrote msg)) w1
           else Inr w1))"

definition send_string ::
    "'s world_scheme conn_callbacks \<Rightarrow> nat \<Rightarrow> char list \<Rightarrow> 's world_scheme \<Rightarrow> 's world_scheme result"
  where
  "send_string cbs i message w =
     (if conn_state (conns w i) = kConnected
      then if isInLoopThread (cur_thread w) (cloop i w)
           then sendInLoop cbs i message w
           else run_conn i (SendInLoop i message) (sendInLoop cbs i message) w
      else Inr w)"

text \<open>
  The address that \<open>send (Buffer *)\<close> passes on is \<open>message->beginWrite ()\<close>. The result
  contains the buffer after the call.
\<close>

definition send_buffer ::
    "'s world_scheme conn_callbacks \<Rightarrow> nat \<Rightarrow> buffer \<Rightarrow> 's world_scheme
       \<Rightarrow> (buffer \<times> 's world_scheme) result" where
  "send_buffer cbs i message w =
     (if conn_state (conns w i) = kConnected
      then if isInLoopThread (cur_thread w) (cloop i w)
           then bind_result (read_range message (writerIndex message) (readableBytes message))
                  (\<lambda>data. bind_result (sendInLoop cbs i data w)
                  (\<lambda>w1. Inr (retrieveAll message, w1)))
           else bind_result (retrieveAllAsString message) (\<lambda>(data, message').
                bind_result (run_conn i (SendInLoop i data) (sendInLoop cbs i data) w)
                  (\<lambda>w1. Inr (message', w1)))
      else Inr (message, w))"

subsection \<open>Shutting down\<close>

definition shutdownWrite :: "nat \<Rightarrow> 's world_scheme \<Rightarrow> 's world_scheme" where
  "shutdownWrite i w = upd_conn i (\<lambda>c. c\<lparr>write_shut := True\<rparr>) w"

definition shutdownInLoop :: "nat \<Rightarrow> 's world_scheme \<Rightarrow> 's world_scheme result" where
  "shutdownInLoop i w =
     bind_result (get_chan i w) (\<lambda>ch. if \<not> isWriting ch then Inr (shutdownWrite i w) else Inr w)"

definition shutdown_conn :: "nat \<Rightarrow> 's world_scheme \<Rightarrow> 's world_scheme result" where
  "shutdown_conn i w =
     (if conn_state (conns w i) = kConnected
      then run_conn i (ShutdownInLoop i) (shutdownInLoop i) (setState i kDisconnecting w)
      else Inr w)"

subsection \<open>Opening and closing\<close>

definition connectEstablished ::
    "'s world_scheme conn_callbacks \<Rightarrow> nat \<Rightarrow> 's world_scheme \<Rightarrow> 's world_scheme result" where
  "connectEstablished cbs i w =
     (let w1 = setState i kConnected w
      in bind_result (get_chan i w1) (\<lambda>ch.
           let w2 = upd_cloop i (put_channel (conn_channel (conns w1 i)) (tie i ch)) w1
           in bind_result (on_channel enableReading i w2) (\<lambda>w3.
              call_function (connectionCallback cbs) (\<lambda>f. f i w3))))"

definition connectDestroyed ::
    "'s world_scheme conn_callbacks \<Rightarrow> nat \<Rightarrow> 's world_scheme \<Rightarrow> 's world_scheme result" where
  "connectDestroyed cbs i w =
     bind_result
       (if conn_state (conns w i) = kConnected
        then bind_result (on_channel disableAll i (setState i kDisconnected w)) (\<lambda>w1.
             call_function (connectionCallback cbs) (\<lambda>f. f i w1))
        else Inr w)
       (on_channel channel_remove i)"

definition handleClose ::
    "'s world_scheme conn_callbacks \<Rightarrow> nat \<Rightarrow> 's world_scheme \<Rightarrow> 's world_scheme result" where
  "handleClose cbs i w =
     bind_result (on_channel disableAll i (setState i kDisconnected w)) (\<lambda>w1.
     bind_result (call_function (connectionCallback cbs) (\<lambda>f. f i w1)) (\<lambda>w2.
     call_function (closeCallback_conn cbs) (\<lambda>f. f i w2)))"

text \<open>\<open>handleError\<close> reads the pending error of the socket and logs it.\<close>

definition handleError :: "nat \<Rightarrow> 's world_scheme \<Rightarrow> 's world_scheme result" where
  "handleError i w = Inr w"

subsection \<open>Reading and writing on events\<close>

definition handleRead ::
    "'s world_scheme conn_callbacks \<Rightarrow> nat \<Rightarrow> TimeStamp \<Rightarrow> 's world_scheme \<Rightarrow> 's world_scheme result"
  where
  "handleRead cbs i receiveTime w =
     bind_result (readFd (read_answers w (reads_done w)) (inputBuffer (conns w i)))
       (\<lambda>(n, savedErrno, b).
         let w1 = upd_conn i (\<lambda>c. c\<lparr>inputBuffer := b\<rparr>) (w\<lparr>reads_done := Suc (reads_done w)\<rparr>)
         in if n > 0 then call_function (messageCallback cbs) (\<lambda>f. f i receiveTime w1)
            else if n = 0 then handleClose cbs i w1
            else handleError i w1)"

definition handleWrite ::
    "'s world_scheme conn_callbacks \<Rightarrow> nat \<Rightarrow> 's world_scheme \<Rightarrow> 's world_scheme result" where
  "handleWrite cbs i w =
     bind_result (get_chan i w) (\<lambda>ch.
       if isWriting ch
       then let out = outputBuffer (conns w i)
            in bind_result (read_range out (writerIndex out) (readableBytes out)) (\<lambda>data.
               case socket_write i data w of
                 (Inl e, w1) \<Rightarrow> Inr w1
               | (Inr n, w1) \<Rightarrow>
                   if n > 0
                   then bind_result (retrieve n out) (\<lambda>out'.
                        let w2 = upd_conn i (\<lambda>c. c\<lparr>outputBuffer := out'\<rparr>) w1
                        in if readableBytes out' = 0
                           then bind_result (on_channel disableWriting i w2) (\<lambda>w3.
                                let w4 = (if writeCompleteCallback cbs \<noteq> None
                                          then queue_conn i (CallWriteComplete i) w3 else w3)
                                in if conn_state (conns w4 i) = kDisconnecting
                                   then shutdownInLoop i w4 else Inr w4)
                           else Inr w2)
                   else Inr w1)
       else Inr w)"

text \<open>The callbacks that the constructor stores in the channel.\<close>

definition conn_chan_callbacks ::
    "'s world_scheme conn_callbacks \<Rightarrow> nat \<Rightarrow> 's world_scheme chan_callbacks" where
  "conn_chan_callbacks cbs i =
     \<lparr>readCallback = Some (handleRead cbs i), writeCallback = Some (handleWrite cbs i),
      closeCallback = Some (handleClose cbs i), errorCallback = Some (handleError i)\<rparr>"

subsection \<open>Facts about the accesses\<close>

lemma upd_conn_simps [simp]:
  "conns (upd_conn i g w) = (conns w)(i := g (conns w i))"
  "loops (upd_conn i g w) = loops w" "cur_thread (upd_conn i g w) = cur_thread w"
  "write_answers (upd_conn i g w) = write_answers w" "writes_done (upd_conn i g w) = writes_done w"
  "read_answers (upd_conn i g w) = read_answers w" "reads_done (upd_conn i g w) = reads_done w"
  by (simp_all add: upd_conn_def)

lemma upd_cloop_simps [simp]:
  "conns (upd_cloop i g w) = conns w" "cur_thread (upd_cloop i g w) = cur_thread w"
  "write_answers (upd_cloop i g w) = write_answers w" "writes_done (upd_cloop i g w) = writes_done w"
  "read_answers (upd_cloop i g w) = read_answers w" "reads_done (upd_cloop i g w) = reads_done w"
  by (simp_all add: upd_cloop_def upd_loop_def)

lemma cloop_upd_cloop [simp]: "cloop i (upd_cloop i g w) = g (cloop i w)"
  by (simp add: cloop_def upd_cloop_def upd_loop_def)

lemma cloop_upd_conn [simp]:
  "conn_loop (g (conns w i)) = conn_loop (conns w i) \<Longrightarrow> cloop j (upd_conn i g w) = cloop j w"
  by (simp add: cloop_def upd_conn_def)

lemma queue_conn_simps [simp]:
  "conns (queue_conn i f w) = conns w" "cur_thread (queue_conn i f w) = cur_thread w"
  "cloop i (queue_conn i f w) = queueInLoop (cur_thread w) f (cloop i w)"
  "write_answers (queue_conn i f w) = write_answers w" "writes_done (queue_conn i f w) = writes_done w"
  by (simp_all add: queue_conn_def)

lemma setState_simps [simp]:
  "conns (setState i s w) = (conns w)(i := (conns w i)\<lparr>conn_state := s\<rparr>)"
  "cloop j (setState i s w) = cloop j w" "cur_thread (setState i s w) = cur_thread w"
  by (simp_all add: setState_def)

text \<open>The contract of \<open>Net_EventLoop\<close> holds for the loop of a connection.\<close>

interpretation conn_host: loop_host "cloop i" "upd_cloop i" for i
  by unfold_locales simp

subsection \<open>Invariant\<close>

definition channel_inv :: "tcpconn \<Rightarrow> channel \<Rightarrow> bool" where
  "channel_inv c ch \<longleftrightarrow>
     chan_fd ch = sockfd c
     \<and> (conn_state c = kConnecting \<longrightarrow> isNoneEvent ch \<and> contents (outputBuffer c) = [])
     \<and> (conn_state c \<in> {kConnected, kDisconnecting} \<longrightarrow>
          (isWriting ch \<longleftrightarrow> contents (outputBuffer c) \<noteq> []))
     \<and> (conn_state c = kDisconnected \<longrightarrow> isNoneEvent ch)"

definition conn_inv :: "nat \<Rightarrow> 's world_scheme \<Rightarrow> bool" where
  "conn_inv i w \<longleftrightarrow>
     wf_poller (cloop i w) \<and> wf_buffer (inputBuffer (conns w i))
     \<and> wf_buffer (outputBuffer (conns w i))
     \<and> (\<exists>ch. heap (cloop i w) (conn_channel (conns w i)) = Some ch
           \<and> fd_free (conn_channel (conns w i)) ch (cloop i w) \<and> channel_inv (conns w i) ch)"

lemma conn_invE:
  assumes "conn_inv i w"
  obtains ch where "heap (cloop i w) (conn_channel (conns w i)) = Some ch"
    and "fd_free (conn_channel (conns w i)) ch (cloop i w)" and "channel_inv (conns w i) ch"
    and "wf_poller (cloop i w)" and "wf_buffer (inputBuffer (conns w i))"
    and "wf_buffer (outputBuffer (conns w i))" and "get_chan i w = Inr ch"
  using assms by (auto simp: conn_inv_def get_chan_def)

lemma wf_poller_queueInLoop [simp]: "wf_poller (queueInLoop tid f l) = wf_poller l"
  by (rule wf_poller_cong) simp_all

lemma fd_free_queueInLoop [simp]: "fd_free c ch (queueInLoop tid f l) = fd_free c ch l"
  by (simp add: fd_free_def)

lemma conn_inv_queue_conn [simp]: "conn_inv i (queue_conn i f w) = conn_inv i w"
  by (simp add: conn_inv_def)

text \<open>A change of the events of the channel of a connection.\<close>

lemma on_channel_change:
  assumes inv: "conn_inv i w" and ch: "get_chan i w = Inr ch"
    and f: "\<And>x. chan_fd (f x) = chan_fd x" "\<And>x. index (f x) = index x"
    and op: "chan_op = change_events f"
  shows "on_channel chan_op i w = Inr (upd_cloop i (after_change (conn_channel (conns w i)) (f ch)) w)"
proof -
  from inv obtain ch' where ch': "heap (cloop i w) (conn_channel (conns w i)) = Some ch'"
      "fd_free (conn_channel (conns w i)) ch' (cloop i w)" "wf_poller (cloop i w)"
      "get_chan i w = Inr ch'"
    by (rule conn_invE) blast
  with ch have "ch' = ch" by simp
  then show ?thesis
    using change_events_ok[OF ch'(3,1,2), of f] f
    by (simp add: on_channel_def op upd_cloop_def upd_loop_def cloop_def)
qed

lemma fd_free_after_change: "fd_free c (ch\<lparr>index := k\<rparr>) s" if "k \<noteq> kNew" for ch :: channel
  using that by (simp add: fd_free_def)

lemma get_chan_after_change:
  "get_chan i (upd_cloop i (after_change (conn_channel (conns w i)) ch) w)
     = Inr (ch\<lparr>index := (if index ch = kAdded \<and> isNoneEvent ch then kDeleted else kAdded)\<rparr>)"
  by (simp add: get_chan_def heap_after_change)

lemma channel_inv_index [simp]: "channel_inv c (ch\<lparr>index := k\<rparr>) = channel_inv c ch"
  by (simp add: channel_inv_def isNoneEvent_def isWriting_def)

lemma conn_inv_after_change:
  assumes inv: "conn_inv i w" and ch: "get_chan i w = Inr ch"
    and f: "chan_fd ch' = chan_fd ch" "index ch' = index ch"
    and w': "cloop i w' = after_change (conn_channel (conns w i)) ch' (cloop i w)"
      "conn_channel (conns w' i) = conn_channel (conns w i)"
      "wf_buffer (inputBuffer (conns w' i))" "wf_buffer (outputBuffer (conns w' i))"
      "channel_inv (conns w' i) ch'"
  shows "conn_inv i w'"
proof -
  from inv ch have hp: "heap (cloop i w) (conn_channel (conns w i)) = Some ch"
    and free: "fd_free (conn_channel (conns w i)) ch (cloop i w)" and wf: "wf_poller (cloop i w)"
    by (auto simp: conn_inv_def get_chan_def)
  have "wf_poller (cloop i w')" unfolding w'(1) using wf_after_change[OF wf hp free f] .
  moreover have "kAdded \<noteq> kNew" "kDeleted \<noteq> kNew" by (simp_all add: index_defs)
  ultimately show ?thesis
    using w' by (simp add: conn_inv_def heap_after_change fd_free_def)
qed

subsection \<open>Sending\<close>

definition active :: "tcpconn \<Rightarrow> bool" where
  "active c \<longleftrightarrow> conn_state c = kConnected \<or> conn_state c = kDisconnecting"

lemma get_chan_upd_conn [simp]:
  "conn_loop (g (conns w i)) = conn_loop (conns w i) \<Longrightarrow>
   conn_channel (g (conns w i)) = conn_channel (conns w i) \<Longrightarrow>
     get_chan i (upd_conn i g w) = get_chan i w"
  by (simp add: get_chan_def)

lemma get_chan_queue_conn [simp]: "get_chan i (queue_conn i f w) = get_chan i w"
  by (simp add: get_chan_def)

lemma conn_inv_output:
  assumes inv: "conn_inv i w" and ch: "get_chan i w = Inr ch" and out: "wf_buffer out"
    and chi: "channel_inv ((conns w i)\<lparr>outputBuffer := out\<rparr>) ch"
  shows "conn_inv i (upd_conn i (\<lambda>c. c\<lparr>outputBuffer := out\<rparr>) w)"
  using assms by (auto simp: conn_inv_def get_chan_def)

text \<open>What buffering changes: the output buffer, the interest in writing and the queue.\<close>

definition same_conn :: "tcpconn \<Rightarrow> tcpconn \<Rightarrow> bool" where
  "same_conn c c' \<longleftrightarrow> c'\<lparr>outputBuffer := outputBuffer c, wire := wire c\<rparr> = c"

lemma same_connD:
  assumes "same_conn c c'"
  shows "conn_state c' = conn_state c" "conn_loop c' = conn_loop c"
    "conn_channel c' = conn_channel c" "inputBuffer c' = inputBuffer c"
    "sockfd c' = sockfd c" "conn_name c' = conn_name c" "write_shut c' = write_shut c"
  using assms by (cases c; cases c'; simp add: same_conn_def)+

lemma buffer_remaining_ok:
  assumes inv: "conn_inv i w" and act: "active (conns w i)" and data: "data \<noteq> []"
  shows "\<exists>w'. buffer_remaining cbs i data w = Inr w' \<and> conn_inv i w'
    \<and> contents (outputBuffer (conns w' i)) = contents (outputBuffer (conns w i)) @ data
    \<and> wire (conns w' i) = wire (conns w i) \<and> same_conn (conns w i) (conns w' i)"
proof -
  let ?oldLen = "readableBytes (outputBuffer (conns w i))"
  let ?hwm = "highWaterMark (conns w i)"
  define w1 where "w1 = (if ?oldLen + length data \<ge> ?hwm \<and> ?oldLen < ?hwm
      \<and> highWaterMarkCallback cbs \<noteq> None
    then queue_conn i (CallHighWaterMark i (?oldLen + length data)) w else w)"
  have inv1: "conn_inv i w1" using inv by (simp add: w1_def)
  have same: "conns w1 = conns w" by (simp add: w1_def)
  from inv1 obtain ch where ch: "get_chan i w1 = Inr ch" and chi: "channel_inv (conns w1 i) ch"
      and wf: "wf_buffer (outputBuffer (conns w1 i))" and wfi: "wf_buffer (inputBuffer (conns w1 i))"
    by (rule conn_invE) blast
  obtain out where out: "append_buffer data (outputBuffer (conns w1 i)) = Inr out" "wf_buffer out"
      "contents out = contents (outputBuffer (conns w1 i)) @ data"
    using append_buffer_ok[OF wf] by blast
  let ?w2 = "upd_conn i (\<lambda>c. c\<lparr>outputBuffer := out\<rparr>) w1"
  have ch2: "get_chan i ?w2 = Inr ch" using ch by simp
  have eq: "buffer_remaining cbs i data w
      = (if \<not> isWriting ch then on_channel enableWriting i ?w2 else Inr ?w2)"
    unfolding buffer_remaining_def Let_def w1_def[symmetric] using ch2 out(1) by simp
  show ?thesis
  proof (cases "isWriting ch")
    case True
    then have "conn_inv i ?w2"
      using conn_inv_output[OF inv1 ch out(2)] chi act data out(3) same
      by (auto simp: channel_inv_def active_def)
    then show ?thesis using True eq out(3) same by (simp add: same_conn_def)
  next
    case False
    have hp: "heap (cloop i w1) (conn_channel (conns w1 i)) = Some ch"
      using ch by (auto simp: get_chan_def split: option.splits)
    have free: "fd_free (conn_channel (conns w1 i)) ch (cloop i w1)"
      using inv1 hp by (auto simp: conn_inv_def)
    have wfp: "wf_poller (cloop i w1)" using inv1 by (simp add: conn_inv_def)
    let ?l = "after_change (conn_channel (conns w1 i)) (want_write ch) (cloop i w1)"
    have "on_channel enableWriting i ?w2 = Inr (upd_cloop i (\<lambda>_. ?l) ?w2)"
      using change_events_ok[OF wfp hp free, of want_write]
      by (simp add: on_channel_def enableWriting_def)
    moreover have "conn_inv i (upd_cloop i (\<lambda>_. ?l) ?w2)"
      by (rule conn_inv_after_change[OF inv1 ch, of "want_write ch"])
        (use chi act data out(2,3) same wfi in \<open>auto simp: channel_inv_def active_def\<close>)
    ultimately show ?thesis using False eq out(3) same by (simp add: same_conn_def)
  qed
qed

text \<open>The kernel's answer to the next write, when the code makes one.\<close>

definition peer_gone :: "write_answer \<Rightarrow> bool" where
  "peer_gone ans \<longleftrightarrow> ans = WriteErr EPIPE \<or> ans = WriteErr ECONNRESET"

lemma errno_distinct: "EWOULDBLOCK \<noteq> EPIPE" "EWOULDBLOCK \<noteq> ECONNRESET"
  by (simp_all add: EWOULDBLOCK_def EPIPE_def ECONNRESET_def)

definition taken_by :: "write_answer \<Rightarrow> char list \<Rightarrow> char list" where
  "taken_by ans data = (case ans of WriteOk k \<Rightarrow> take k data | WriteErr _ \<Rightarrow> [])"

lemma conn_inv_writes_done [simp]: "conn_inv i (w\<lparr>writes_done := n\<rparr>) = conn_inv i w"
  by (simp add: conn_inv_def cloop_def)

lemma conn_inv_wire: "conn_inv i (upd_conn i (\<lambda>c. c\<lparr>wire := f c\<rparr>) w) = conn_inv i w"
  by (simp add: conn_inv_def channel_inv_def)

lemma direct_write_idle:
  assumes "\<not> isWriting ch" and "readableBytes (outputBuffer (conns w i)) = 0"
  defines "ans \<equiv> write_answers w (writes_done w)"
  shows "\<exists>w1. direct_write cbs i msg ch w
      = (length (taken_by ans msg), length msg - length (taken_by ans msg), peer_gone ans, w1)
    \<and> conns w1 = (conns w)(i := (conns w i)\<lparr>wire := wire (conns w i) @ taken_by ans msg\<rparr>)
    \<and> (conn_inv i w \<longrightarrow> conn_inv i w1)"
proof (cases ans)
  case (WriteOk k)
  let ?t = "take k msg"
  let ?w0 = "upd_conn i (\<lambda>c. c\<lparr>wire := wire c @ ?t\<rparr>) (w\<lparr>writes_done := Suc (writes_done w)\<rparr>)"
  let ?w1 = "if length msg - length ?t = 0 \<and> writeCompleteCallback cbs \<noteq> None
    then queue_conn i (CallWriteComplete i) ?w0 else ?w0"
  have "direct_write cbs i msg ch w = (length ?t, length msg - length ?t, False, ?w1)"
    using assms(1,2) WriteOk
    by (simp add: direct_write_def socket_write_def sys_write_def ans_def Let_def)
  moreover have "conns ?w1 = (conns w)(i := (conns w i)\<lparr>wire := wire (conns w i) @ ?t\<rparr>)"
    by simp
  moreover have "conn_inv i w \<longrightarrow> conn_inv i ?w1" by (simp add: conn_inv_wire)
  ultimately show ?thesis using WriteOk by (simp add: taken_by_def peer_gone_def)
next
  case (WriteErr e)
  let ?w1 = "w\<lparr>writes_done := Suc (writes_done w)\<rparr>"
  have "direct_write cbs i msg ch w
      = (0, length msg, e \<noteq> EWOULDBLOCK \<and> (e = EPIPE \<or> e = ECONNRESET), ?w1)"
    using assms(1,2) WriteErr
    by (simp add: direct_write_def socket_write_def sys_write_def ans_def Let_def)
  moreover have "conn_inv i w \<longrightarrow> conn_inv i ?w1" by (simp add: conn_inv_def cloop_def)
  ultimately show ?thesis using WriteErr errno_distinct
    by (auto simp: taken_by_def peer_gone_def)
qed

lemma idle_iff_empty:
  assumes "conn_inv i w" and "active (conns w i)" and "get_chan i w = Inr ch"
  shows "(\<not> isWriting ch \<and> readableBytes (outputBuffer (conns w i)) = 0)
    \<longleftrightarrow> contents (outputBuffer (conns w i)) = []"
    "isWriting ch \<longleftrightarrow> contents (outputBuffer (conns w i)) \<noteq> []"
proof -
  from assms(1) obtain ch' where ch': "get_chan i w = Inr ch'" and chi: "channel_inv (conns w i) ch'"
      and wf: "wf_buffer (outputBuffer (conns w i))"
    by (rule conn_invE) blast
  with assms(3) have "ch' = ch" by simp
  with chi assms(2) show iw: "isWriting ch \<longleftrightarrow> contents (outputBuffer (conns w i)) \<noteq> []"
    by (auto simp: channel_inv_def active_def)
  have "readableBytes (outputBuffer (conns w i)) = 0 \<longleftrightarrow> contents (outputBuffer (conns w i)) = []"
    using length_contents[OF wf] by (metis length_0_conv)
  with iw show "(\<not> isWriting ch \<and> readableBytes (outputBuffer (conns w i)) = 0)
      \<longleftrightarrow> contents (outputBuffer (conns w i)) = []" by blast
qed

text \<open>
  \<open>sendInLoop\<close> on an active connection: it never fails, it keeps the invariant, and the
  bytes the kernel has taken followed by the bytes in the output buffer grow by exactly
  the message, except where the peer is gone.
\<close>

lemma sendInLoop_ok:
  assumes inv: "conn_inv i w" and act: "active (conns w i)"
  defines "out \<equiv> contents (outputBuffer (conns w i))"
  defines "gone \<equiv> out = [] \<and> peer_gone (write_answers w (writes_done w))"
  shows "\<exists>w'. sendInLoop cbs i msg w = Inr w' \<and> conn_inv i w' \<and> same_conn (conns w i) (conns w' i)
    \<and> wire (conns w' i) @ contents (outputBuffer (conns w' i))
        = wire (conns w i) @ out @ (if gone then [] else msg)"
proof -
  from inv obtain ch where ch: "get_chan i w = Inr ch" by (rule conn_invE) blast
  have nd: "conn_state (conns w i) \<noteq> kDisconnected" using act by (auto simp: active_def)
  note idle = idle_iff_empty[OF inv act ch]
  let ?ans = "write_answers w (writes_done w)"
  show ?thesis
  proof (cases "out = []")
    case True
    with idle have "\<not> isWriting ch" "readableBytes (outputBuffer (conns w i)) = 0"
      unfolding out_def by blast+
    from direct_write_idle[OF this, of cbs msg] inv obtain w1 where
      dw: "direct_write cbs i msg ch w = (length (taken_by ?ans msg),
             length msg - length (taken_by ?ans msg), peer_gone ?ans, w1)"
      and conns1: "conns w1 = (conns w)(i := (conns w i)\<lparr>wire := wire (conns w i) @ taken_by ?ans msg\<rparr>)"
      and inv1: "conn_inv i w1" by blast
    have act1: "active (conns w1 i)" using act conns1 by (simp add: active_def)
    show ?thesis
    proof (cases "peer_gone ?ans \<or> length msg \<le> length (taken_by ?ans msg)")
      case stop: True
      then have "sendInLoop cbs i msg w = Inr w1" using nd ch dw by (auto simp: sendInLoop_def)
      moreover have "taken_by ?ans msg = (if gone then [] else msg)"
        using stop True by (auto simp: taken_by_def gone_def peer_gone_def split: write_answer.splits)
      ultimately show ?thesis using inv1 conns1 True by (simp add: same_conn_def out_def)
    next
      case False
      let ?rest = "drop (length (taken_by ?ans msg)) msg"
      have "sendInLoop cbs i msg w = buffer_remaining cbs i ?rest w1"
        using False nd ch dw by (simp add: sendInLoop_def)
      moreover have "?rest \<noteq> []" using False by simp
      from buffer_remaining_ok[OF inv1 act1 this, of cbs] obtain w' where w':
          "buffer_remaining cbs i ?rest w1 = Inr w'" "conn_inv i w'"
          "contents (outputBuffer (conns w' i)) = contents (outputBuffer (conns w1 i)) @ ?rest"
          "wire (conns w' i) = wire (conns w1 i)" "same_conn (conns w1 i) (conns w' i)" by blast
      moreover have "taken_by ?ans msg @ ?rest = msg"
        by (auto simp: taken_by_def min_def split: write_answer.splits)
      moreover have "\<not> gone" using False by (simp add: gone_def)
      moreover have "same_conn (conns w i) (conns w' i)"
        using w'(5) conns1 by (cases "conns w i"; cases "conns w' i"; simp add: same_conn_def)
      ultimately show ?thesis using conns1 True by (simp add: out_def)
    qed
  next
    case False
    with idle have "direct_write cbs i msg ch w = (0, length msg, False, w)"
      unfolding out_def direct_write_def by (simp add: Let_def)
    then have eq: "sendInLoop cbs i msg w
        = (if msg = [] then Inr w else buffer_remaining cbs i msg w)"
      using nd ch by (simp add: sendInLoop_def)
    show ?thesis
    proof (cases "msg = []")
      case True
      then show ?thesis using eq inv by (simp add: same_conn_def out_def)
    next
      case nonempty: False
      from buffer_remaining_ok[OF inv act this, of cbs] show ?thesis
        using eq nonempty False by (auto simp: out_def gone_def)
    qed
  qed
qed

subsection \<open>The other handlers\<close>

text \<open>A change of the connection followed by a change of the events of its channel.\<close>

lemma on_channel_upd:
  assumes inv: "conn_inv i w" and ch: "get_chan i w = Inr ch" and op: "chan_op = change_events f"
    and f: "\<And>x. chan_fd (f x) = chan_fd x" "\<And>x. index (f x) = index x"
    and g: "conn_loop (g (conns w i)) = conn_loop (conns w i)"
      "conn_channel (g (conns w i)) = conn_channel (conns w i)"
      "wf_buffer (inputBuffer (g (conns w i)))" "wf_buffer (outputBuffer (g (conns w i)))"
      "channel_inv (g (conns w i)) (f ch)"
  shows "\<exists>w' k. on_channel chan_op i (upd_conn i g w) = Inr w' \<and> conn_inv i w'
    \<and> conns w' = (conns w)(i := g (conns w i)) \<and> cur_thread w' = cur_thread w
    \<and> get_chan i w' = Inr (f ch\<lparr>index := k\<rparr>)
    \<and> pendingFunctors (cloop i w') = pendingFunctors (cloop i w)
    \<and> threadId (cloop i w') = threadId (cloop i w)
    \<and> callingPendingFunctors (cloop i w') = callingPendingFunctors (cloop i w)"
proof -
  have hp: "heap (cloop i w) (conn_channel (conns w i)) = Some ch"
    using ch by (auto simp: get_chan_def split: option.splits)
  have free: "fd_free (conn_channel (conns w i)) ch (cloop i w)"
    using inv hp by (auto simp: conn_inv_def)
  have wfp: "wf_poller (cloop i w)" using inv by (simp add: conn_inv_def)
  let ?l = "after_change (conn_channel (conns w i)) (f ch) (cloop i w)"
  let ?w' = "upd_cloop i (\<lambda>_. ?l) (upd_conn i g w)"
  have "on_channel chan_op i (upd_conn i g w) = Inr ?w'"
    using change_events_ok[OF wfp hp free, of f] f g(1,2) by (simp add: on_channel_def op)
  moreover have "conn_inv i ?w'"
    by (rule conn_inv_after_change[OF inv ch, of "f ch"]) (use f g in simp_all)
  moreover have "\<exists>k. get_chan i ?w' = Inr (f ch\<lparr>index := k\<rparr>)"
    using g(2) by (simp add: get_chan_def heap_after_change) blast
  moreover have "pendingFunctors ?l = pendingFunctors (cloop i w)"
    "threadId ?l = threadId (cloop i w)"
    "callingPendingFunctors ?l = callingPendingFunctors (cloop i w)"
    by (simp_all add: after_change_def)
  ultimately show ?thesis by simp
qed

lemma on_channel_plain:
  assumes inv: "conn_inv i w" and ch: "get_chan i w = Inr ch" and op: "chan_op = change_events f"
    and f: "\<And>x. chan_fd (f x) = chan_fd x" "\<And>x. index (f x) = index x"
    and g: "channel_inv (conns w i) (f ch)"
  shows "\<exists>w' k. on_channel chan_op i w = Inr w' \<and> conn_inv i w'
    \<and> conns w' = conns w \<and> cur_thread w' = cur_thread w
    \<and> get_chan i w' = Inr (f ch\<lparr>index := k\<rparr>)"
proof -
  have "upd_conn i (\<lambda>c. c) w = w" by (simp add: upd_conn_def)
  then show ?thesis
    using on_channel_upd[OF inv ch op f, of "\<lambda>c. c"] g inv by (auto simp: conn_inv_def)
qed

lemma handleWrite_not_writing:
  "get_chan i w = Inr ch \<Longrightarrow> \<not> isWriting ch \<Longrightarrow> handleWrite cbs i w = Inr w"
  by (simp add: handleWrite_def)

definition bytes_after :: "buffer \<Rightarrow> char list" where
  "bytes_after b = segment (writerIndex b) (writerIndex b + readableBytes b) (store b)"

lemma handleWrite_out_of_bounds:
  assumes inv: "conn_inv i w" and act: "active (conns w i)"
    and out: "contents (outputBuffer (conns w i)) \<noteq> []"
    and "length (store (outputBuffer (conns w i)))
      < writerIndex (outputBuffer (conns w i)) + readableBytes (outputBuffer (conns w i))"
  shows "handleWrite cbs i w = Inl OutOfBounds"
proof -
  from inv obtain ch where ch: "get_chan i w = Inr ch" by (rule conn_invE) blast
  have "isWriting ch" using idle_iff_empty(2)[OF inv act ch] out by blast
  then show ?thesis using ch assms(4) by (simp add: handleWrite_def read_range_def)
qed

lemma length_bytes_after:
  assumes "writerIndex b + readableBytes b \<le> length (store b)"
  shows "length (bytes_after b) = readableBytes b"
  using assms by (simp add: bytes_after_def)

text \<open>A write event: what the kernel took is retrieved from the buffer, and an empty buffer ends the events.\<close>

lemma handleWrite_writes:
  assumes inv: "conn_inv i w" and act: "active (conns w i)" and nonempty: "contents (outputBuffer (conns w i)) \<noteq> []"
    and room: "writerIndex (outputBuffer (conns w i)) + readableBytes (outputBuffer (conns w i))
      \<le> length (store (outputBuffer (conns w i)))"
  defines "out \<equiv> outputBuffer (conns w i)" and "w0 \<equiv> w\<lparr>writes_done := Suc (writes_done w)\<rparr>"
  defines "taken \<equiv> taken_by (write_answers w (writes_done w)) (bytes_after out)"
  defines "w1 \<equiv> upd_conn i (\<lambda>c. c\<lparr>wire := wire c @ taken\<rparr>) w0"
  shows "taken = [] \<Longrightarrow> handleWrite cbs i w = Inr w0 \<or> handleWrite cbs i w = Inr w1"
    and "taken \<noteq> [] \<Longrightarrow> \<exists>out'. wf_buffer out' \<and> contents out' = drop (length taken) (contents out)
      \<and> handleWrite cbs i w = (let w2 = upd_conn i (\<lambda>c. c\<lparr>outputBuffer := out'\<rparr>) w1
          in if contents out' = []
             then bind_result (on_channel disableWriting i w2) (\<lambda>w3.
                 let w4 = (if writeCompleteCallback cbs \<noteq> None
                           then queue_conn i (CallWriteComplete i) w3 else w3)
                 in if conn_state (conns w4 i) = kDisconnecting
                    then shutdownInLoop i w4 else Inr w4)
             else Inr w2)"
proof -
  from inv obtain ch where ch: "get_chan i w = Inr ch" and wf: "wf_buffer out"
    unfolding out_def by (rule conn_invE) blast
  have iw: "isWriting ch" using idle_iff_empty(2)[OF inv act ch] nonempty by blast
  have rr: "read_range out (writerIndex out) (readableBytes out) = Inr (bytes_after out)"
    using room by (simp add: read_range_def bytes_after_def out_def)
  have len: "length (bytes_after out) = length (contents out)"
    using room length_contents[OF wf] by (simp add: length_bytes_after out_def)
  let ?ans = "write_answers w (writes_done w)"
  have sw: "socket_write i (bytes_after out) w = (case ?ans of WriteErr e \<Rightarrow> (Inl e, w0) | WriteOk k \<Rightarrow> (Inr (length taken), w1))"
    by (simp add: socket_write_def sys_write_def taken_def taken_by_def w0_def w1_def split: write_answer.splits)
  show "handleWrite cbs i w = Inr w0 \<or> handleWrite cbs i w = Inr w1" if "taken = []"
    using iw ch rr sw that by (cases ?ans) (simp_all add: handleWrite_def out_def Let_def)
  assume some: "taken \<noteq> []"
  then obtain k where k: "?ans = WriteOk k" by (cases ?ans) (simp_all add: taken_def taken_by_def)
  then have "length taken \<le> readableBytes out"
    using len length_contents[OF wf] by (simp add: taken_def taken_by_def)
  then obtain out' where out': "retrieve (length taken) out = Inr out'" "wf_buffer out'"
      "contents out' = drop (length taken) (contents out)"
    using retrieve_ok[OF wf] by blast
  have "readableBytes out' = 0 \<longleftrightarrow> contents out' = []"
    using length_contents[OF out'(2)] by (metis length_0_conv)
  then show "\<exists>out'. wf_buffer out' \<and> contents out' = drop (length taken) (contents out)
      \<and> handleWrite cbs i w = (let w2 = upd_conn i (\<lambda>c. c\<lparr>outputBuffer := out'\<rparr>) w1
          in if contents out' = []
             then bind_result (on_channel disableWriting i w2) (\<lambda>w3.
                 let w4 = (if writeCompleteCallback cbs \<noteq> None
                           then queue_conn i (CallWriteComplete i) w3 else w3)
                 in if conn_state (conns w4 i) = kDisconnecting
                    then shutdownInLoop i w4 else Inr w4)
             else Inr w2)"
    using out' some iw ch rr sw k
    by (intro exI[of _ out']) (simp add: handleWrite_def out_def Let_def)
qed

lemma handleWrite_drained:
  assumes inv: "conn_inv i w" and act: "active (conns w i)" and ch: "get_chan i w = Inr ch"
    and b: "wf_buffer b" "contents b = []"
  shows "\<exists>w'. bind_result (on_channel disableWriting i (upd_conn i (\<lambda>c. c\<lparr>outputBuffer := b\<rparr>) w)) (\<lambda>w3.
      let w4 = (if p then queue_conn i (CallWriteComplete i) w3 else w3)
      in if conn_state (conns w4 i) = kDisconnecting then shutdownInLoop i w4 else Inr w4) = Inr w'
    \<and> conn_inv i w' \<and> wire (conns w' i) = wire (conns w i) \<and> outputBuffer (conns w' i) = b
    \<and> conn_state (conns w' i) = conn_state (conns w i)
    \<and> (conn_state (conns w i) = kDisconnecting \<longrightarrow> write_shut (conns w' i))"
proof -
  let ?g = "\<lambda>c. c\<lparr>outputBuffer := b\<rparr>"
  from inv ch have chi: "channel_inv (conns w i) ch" and wfi: "wf_buffer (inputBuffer (conns w i))"
    by (auto elim!: conn_invE)
  have "channel_inv (?g (conns w i)) (unwant_write ch)"
    using chi b(2) act by (auto simp: channel_inv_def active_def)
  then obtain w3 k where w3: "on_channel disableWriting i (upd_conn i ?g w) = Inr w3" "conn_inv i w3"
      "conns w3 = (conns w)(i := ?g (conns w i))" "get_chan i w3 = Inr (unwant_write ch\<lparr>index := k\<rparr>)"
    using on_channel_upd[OF inv ch disableWriting_def, of ?g] b(1) wfi by auto
  let ?w4 = "if p then queue_conn i (CallWriteComplete i) w3 else w3"
  have w4: "conn_inv i ?w4" "conns ?w4 = conns w3" "get_chan i ?w4 = get_chan i w3" using w3(2) by simp_all
  have nw: "\<not> isWriting (unwant_write ch\<lparr>index := k\<rparr>)"
    using isWriting_unwant_write[of ch] by (simp add: isWriting_def)
  have shut: "shutdownInLoop i ?w4 = Inr (shutdownWrite i ?w4)" using w3(4) w4(3) nw by (simp add: shutdownInLoop_def)
  have "conn_inv i (shutdownWrite i ?w4)"
    using w4(1) by (simp add: shutdownWrite_def conn_inv_def channel_inv_def)
  then show ?thesis
    using w3(1,3) w4(1,2) shut by (cases "conn_state (conns w3 i) = kDisconnecting") (simp_all add: Let_def shutdownWrite_def)
qed

lemma handleWrite_ok:
  assumes inv: "conn_inv i w" and act: "active (conns w i)"
    and nonempty: "contents (outputBuffer (conns w i)) \<noteq> []"
    and room: "writerIndex (outputBuffer (conns w i)) + readableBytes (outputBuffer (conns w i))
      \<le> length (store (outputBuffer (conns w i)))"
  defines "out \<equiv> outputBuffer (conns w i)"
  defines "taken \<equiv> taken_by (write_answers w (writes_done w)) (bytes_after out)"
  shows "\<exists>w'. handleWrite cbs i w = Inr w' \<and> conn_inv i w'
    \<and> wire (conns w' i) = wire (conns w i) @ taken
    \<and> contents (outputBuffer (conns w' i)) = drop (length taken) (contents out)
    \<and> conn_state (conns w' i) = conn_state (conns w i)
    \<and> (length taken = length (contents out) \<and> conn_state (conns w i) = kDisconnecting
        \<longrightarrow> write_shut (conns w' i))"
proof -
  note hw = handleWrite_writes[OF inv act nonempty room, of cbs, folded out_def, folded taken_def]
  let ?w0 = "w\<lparr>writes_done := Suc (writes_done w)\<rparr>"
  let ?w1 = "upd_conn i (\<lambda>c. c\<lparr>wire := wire c @ taken\<rparr>) ?w0"
  have inv0: "conn_inv i ?w0" and inv1: "conn_inv i ?w1" using inv by (simp_all add: conn_inv_wire)
  show ?thesis
  proof (cases "taken = []")
    case True
    then show ?thesis using hw(1) inv0 inv1 nonempty by (auto simp: out_def)
  next
    case False
    from hw(2)[OF False] obtain b where b: "wf_buffer b" "contents b = drop (length taken) (contents out)"
      "handleWrite cbs i w = (let w2 = upd_conn i (\<lambda>c. c\<lparr>outputBuffer := b\<rparr>) ?w1
          in if contents b = []
             then bind_result (on_channel disableWriting i w2) (\<lambda>w3.
                 let w4 = (if writeCompleteCallback cbs \<noteq> None
                           then queue_conn i (CallWriteComplete i) w3 else w3)
                 in if conn_state (conns w4 i) = kDisconnecting
                    then shutdownInLoop i w4 else Inr w4)
             else Inr w2)" by blast
    obtain ch where ch: "get_chan i w = Inr ch" "channel_inv (conns w i) ch" using inv by (rule conn_invE) blast
    then have ch1: "get_chan i ?w1 = Inr ch" by (simp add: get_chan_def cloop_def)
    show ?thesis
    proof (cases "contents b = []")
      case True
      have "active (conns ?w1 i)" using act by (simp add: active_def)
      from handleWrite_drained[OF inv1 this ch1 b(1) True, of "writeCompleteCallback cbs \<noteq> None"] show ?thesis
        using b(2,3) True by (auto simp: Let_def)
    next
      case more: False
      have "isWriting ch" using idle_iff_empty(2)[OF inv act ch(1)] nonempty by blast
      then have "channel_inv ((conns ?w1 i)\<lparr>outputBuffer := b\<rparr>) ch"
        using ch(2) more act by (auto simp: channel_inv_def active_def)
      then have "conn_inv i (upd_conn i (\<lambda>c. c\<lparr>outputBuffer := b\<rparr>) ?w1)"
        using conn_inv_output[OF inv1 ch1 b(1)] by simp
      moreover have "length taken \<noteq> length (contents out)" using more b(2) by auto
      ultimately show ?thesis using b(2,3) more by simp
    qed
  qed
qed

end
