(* ===== verification/Conn_Lifecycle.thy ===== *)
theory Conn_Lifecycle
  imports Net_TcpConnection
begin

section \<open>The life of a connection\<close>

text \<open>
  The facts about the handlers of \<open>Net_TcpConnection\<close> that its clients use: the
  constructor establishes \<open>conn_inv\<close>; every handler keeps it and hands a consistent state
  to the user's callback; the state of a connection only moves forward. They are followed
  by the properties of the component, with two sample connections on which they are
  evaluated.
\<close>

subsection \<open>Construction\<close>

lemma TcpConnection_ok:
  assumes "wf_poller (loops w l)" and "heap (loops w l) ch = None" and "registry (loops w l) fd = None"
  shows "\<exists>w'. TcpConnection (Some l) name fd ch local peer i w = Inr w' \<and> conn_inv i w'
    \<and> conns w' = (conns w)(i := (new_conn l name fd ch local peer)\<lparr>keep_alive := True\<rparr>)
    \<and> loops w' = (loops w)(l := put_channel ch (Channel fd) (loops w l))
    \<and> cur_thread w' = cur_thread w"
  using wf_put_channel_new[OF assms(1,2), of fd] assms(3)
  by (simp add: TcpConnection_def Let_def setKeepAlive_def upd_loop_def upd_conn_def conn_inv_def
      cloop_def new_conn_def channel_inv_def put_channel_def fd_free_def Channel_def isNoneEvent_def
      kNoneEvent_def)

lemma conn_inv_loop_cong:
  assumes "conn_inv i w" and "conns w' i = conns w i" and "cloop i w' = cloop i w"
  shows "conn_inv i w'"
  using assms by (simp add: conn_inv_def)

subsection \<open>Handlers that close\<close>

text \<open>The state is set and all interest is dropped; both callers of \<open>disableAll\<close> do this.\<close>

lemma close_channel_ok:
  assumes inv: "conn_inv i w"
  shows "\<exists>w1. on_channel disableAll i (setState i kDisconnected w) = Inr w1 \<and> conn_inv i w1
    \<and> conns w1 = (conns w)(i := (conns w i)\<lparr>conn_state := kDisconnected\<rparr>)
    \<and> cur_thread w1 = cur_thread w
    \<and> (\<exists>ch. get_chan i w1 = Inr ch \<and> isNoneEvent ch)"
proof -
  from inv obtain ch where ch: "get_chan i w = Inr ch" and chi: "channel_inv (conns w i) ch"
      and wf: "wf_buffer (inputBuffer (conns w i))" "wf_buffer (outputBuffer (conns w i))"
    by (rule conn_invE) blast
  let ?g = "\<lambda>c. c\<lparr>conn_state := kDisconnected\<rparr>"
  have g: "channel_inv (?g (conns w i)) (unwant_all ch)" using chi by (simp add: channel_inv_def)
  obtain w1 k where w1: "on_channel disableAll i (upd_conn i ?g w) = Inr w1" "conn_inv i w1"
      "conns w1 = (conns w)(i := ?g (conns w i))" "cur_thread w1 = cur_thread w"
      "get_chan i w1 = Inr (unwant_all ch\<lparr>index := k\<rparr>)"
    using on_channel_upd[OF inv ch disableAll_def, of ?g] g wf by auto
  moreover have "isNoneEvent (unwant_all ch\<lparr>index := k\<rparr>)"
    by (simp add: isNoneEvent_def unwant_all_def)
  ultimately show ?thesis unfolding setState_def by blast
qed

lemma tie_simps [simp]:
  "chan_fd (tie j ch) = chan_fd ch" "index (tie j ch) = index ch" "events (tie j ch) = events ch"
  by (simp_all add: tie_def)

lemma upd_conn_more [simp]: "world.more (upd_conn i g w) = world.more w"
  by (simp add: upd_conn_def)

lemma world_more_upd_cloop [simp]: "world.more (upd_cloop i g w) = world.more w"
  by (simp add: upd_cloop_def upd_loop_def)

lemma on_channel_more: "on_channel chan_op i w = Inr w' \<Longrightarrow> world.more w' = world.more w"
  by (auto simp: on_channel_def)

lemma not_none_want_read: "\<not> isNoneEvent (want_read ch)"
proof
  assume "isNoneEvent (want_read ch)"
  then have "events ch OR kReadEvent = 0" by (simp add: isNoneEvent_def want_read_def kNoneEvent_def)
  then have "kReadEvent = 0" by (simp add: or_eq_0_iff)
  then show False by (simp add: channel_events)
qed

lemma established_ok:
  assumes inv: "conn_inv i w" and st: "conn_state (conns w i) = kConnecting"
  shows "\<exists>w3 ch. connectEstablished cbs i w
      = call_function (connectionCallback cbs) (\<lambda>f. f i w3)
    \<and> conn_inv i w3 \<and> conns w3 = (conns w)(i := (conns w i)\<lparr>conn_state := kConnected\<rparr>)
    \<and> cur_thread w3 = cur_thread w \<and> get_chan i w3 = Inr ch
    \<and> isReading ch \<and> tied ch \<and> tie_obj ch = Some i \<and> index ch = kAdded \<and> world.more w3 = world.more w"
proof -
  from inv obtain ch where ch: "get_chan i w = Inr ch" and chi: "channel_inv (conns w i) ch"
      and hp: "heap (cloop i w) (conn_channel (conns w i)) = Some ch"
      and free: "fd_free (conn_channel (conns w i)) ch (cloop i w)"
      and wf: "wf_poller (cloop i w)" "wf_buffer (inputBuffer (conns w i))"
        "wf_buffer (outputBuffer (conns w i))"
    by (rule conn_invE) blast
  let ?c = "conn_channel (conns w i)"
  let ?w1 = "setState i kConnected w"
  let ?w2 = "upd_cloop i (put_channel ?c (tie i ch)) ?w1"
  have none: "isNoneEvent ch" "contents (outputBuffer (conns w i)) = []"
    using chi st by (simp_all add: channel_inv_def)
  then have "\<not> isWriting (tie i ch)" using isWriting_none by (simp add: isWriting_def)
  moreover have "wf_poller (put_channel ?c (tie i ch) (cloop i w))"
    by (rule wf_put_channel_same[OF wf(1) hp]) simp_all
  ultimately have inv2: "conn_inv i ?w2"
    using free wf none chi by (simp add: conn_inv_def put_channel_def fd_free_def channel_inv_def)
  have ch2: "get_chan i ?w2 = Inr (tie i ch)"
    by (simp add: get_chan_def put_channel_def)
  have chi2: "channel_inv (conns ?w2 i) (want_read (tie i ch))"
    using inv2 ch2 by (auto simp: conn_inv_def get_chan_def channel_inv_def)
  obtain w3 k where w3: "on_channel enableReading i ?w2 = Inr w3" "conn_inv i w3"
      "conns w3 = conns ?w2" "cur_thread w3 = cur_thread ?w2"
      "get_chan i w3 = Inr (want_read (tie i ch)\<lparr>index := k\<rparr>)"
    using on_channel_plain[OF inv2 ch2 enableReading_def _ _ chi2] by auto
  have "(events ch OR kReadEvent) AND kReadEvent = kReadEvent"
    by (simp add: word_ao_absorbs(2) or.commute)
  then have "isReading (want_read (tie i ch)\<lparr>index := k\<rparr>)"
    by (simp add: isReading_def want_read_def) (simp add: channel_events)
  moreover have "on_channel enableReading i ?w2 = Inr (upd_cloop i (after_change ?c (want_read (tie i ch))) ?w2)"
    using on_channel_change[OF inv2 ch2 _ _ enableReading_def] by simp
  then have "get_chan i w3 = Inr (want_read (tie i ch)\<lparr>index := kAdded\<rparr>)"
    using w3(1) get_chan_after_change[of i ?w2 "want_read (tie i ch)"] not_none_want_read by simp
  then have "index (want_read (tie i ch)\<lparr>index := k\<rparr>) = kAdded" using w3(5) by simp
  moreover have "world.more w3 = world.more w" using on_channel_more[OF w3(1)] by (simp add: setState_def)
  moreover have "tied (want_read (tie i ch)\<lparr>index := k\<rparr>)"
      "tie_obj (want_read (tie i ch)\<lparr>index := k\<rparr>) = Some i"
    by (simp_all add: want_read_def tie_def)
  moreover have "connectEstablished cbs i w = call_function (connectionCallback cbs) (\<lambda>f. f i w3)"
    using ch get_chan_upd_conn[of "\<lambda>c. c\<lparr>conn_state := kConnected\<rparr>" w i] w3(1)
    by (simp add: connectEstablished_def Let_def setState_def)
  ultimately show ?thesis using w3 by auto
qed

lemma handleClose_ok:
  assumes inv: "conn_inv i w"
  shows "\<exists>w1 ch. handleClose cbs i w =
      bind_result (call_function (connectionCallback cbs) (\<lambda>f. f i w1))
        (\<lambda>w2. call_function (closeCallback_conn cbs) (\<lambda>f. f i w2))
    \<and> conn_inv i w1 \<and> conns w1 = (conns w)(i := (conns w i)\<lparr>conn_state := kDisconnected\<rparr>)
    \<and> cur_thread w1 = cur_thread w \<and> get_chan i w1 = Inr ch \<and> isNoneEvent ch"
  using close_channel_ok[OF inv] by (auto simp: handleClose_def)

text \<open>After \<open>channel_->remove ()\<close>: the poller no longer knows the channel.\<close>

lemma remove_channel_ok:
  assumes inv: "conn_inv i w" and ch: "get_chan i w = Inr ch" and none: "isNoneEvent ch"
  shows "\<exists>w' ch'. on_channel channel_remove i w = Inr w' \<and> conn_inv i w' \<and> conns w' = conns w
    \<and> registry (cloop i w') (sockfd (conns w i)) = None
    \<and> interest (cloop i w') (sockfd (conns w i)) = None
    \<and> get_chan i w' = Inr ch' \<and> index ch' = kNew"
proof -
  have hp: "heap (cloop i w) (conn_channel (conns w i)) = Some ch"
    using ch by (auto simp: get_chan_def split: option.splits)
  have free: "index ch \<noteq> kNew \<or> registry (cloop i w) (chan_fd ch) = None"
    and chi: "channel_inv (conns w i) ch" and wf: "wf_poller (cloop i w)"
    using inv hp by (auto simp: conn_inv_def fd_free_def)
  obtain l where l: "channel_remove (conn_channel (conns w i)) (cloop i w) = Inr l" "wf_poller l"
      "interest l (chan_fd ch) = None" "registry l (chan_fd ch) = None"
      "heap l = (heap (cloop i w))(conn_channel (conns w i) \<mapsto> ch\<lparr>index := kNew\<rparr>)"
    using channel_remove_ok[OF wf hp none free] by (metis fun_upd_same)
  let ?w = "upd_cloop i (\<lambda>_. l) w"
  have "on_channel channel_remove i w = Inr ?w" by (simp add: on_channel_def l(1))
  moreover have "conn_inv i ?w"
    using inv l chi by (simp add: conn_inv_def fd_free_def)
  moreover have "chan_fd ch = sockfd (conns w i)" using chi by (simp add: channel_inv_def)
  ultimately show ?thesis using l by (simp add: get_chan_def)
qed

lemma channel_remove_asserts:
  assumes "get_chan i w = Inr ch" and "\<not> isNoneEvent ch"
  shows "on_channel channel_remove i w = Inl AssertFail"
  using assms by (auto simp: get_chan_def on_channel_def channel_remove_def check_def split: option.splits)

lemma handleRead_ok:
  assumes inv: "conn_inv i w"
  shows "\<exists>n e b. readFd (read_answers w (reads_done w)) (inputBuffer (conns w i)) = Inr (n, e, b)
    \<and> wf_buffer b
    \<and> (let w1 = upd_conn i (\<lambda>c. c\<lparr>inputBuffer := b\<rparr>) (w\<lparr>reads_done := Suc (reads_done w)\<rparr>)
       in conn_inv i w1 \<and> handleRead cbs i t w =
         (if n > 0 then call_function (messageCallback cbs) (\<lambda>f. f i t w1)
          else if n = 0 then handleClose cbs i w1 else handleError i w1))"
proof -
  have wf: "wf_buffer (inputBuffer (conns w i))" using inv by (simp add: conn_inv_def)
  obtain n e b where r: "readFd (read_answers w (reads_done w)) (inputBuffer (conns w i)) = Inr (n, e, b)"
      "wf_buffer b"
    using readFd_total[OF wf] by blast
  have "conn_inv i (upd_conn i (\<lambda>c. c\<lparr>inputBuffer := b\<rparr>) (w\<lparr>reads_done := Suc (reads_done w)\<rparr>))"
    using inv r(2) by (simp add: conn_inv_def channel_inv_def cloop_def)
  then show ?thesis using r by (simp add: handleRead_def Let_def)
qed

lemma conn_inv_shutdown: "conn_inv i w \<Longrightarrow> conn_inv i (shutdownWrite i w)"
  by (simp add: shutdownWrite_def conn_inv_def channel_inv_def)

lemma conn_inv_disconnecting:
  "conn_inv i w \<Longrightarrow> active (conns w i) \<Longrightarrow> conn_inv i (setState i kDisconnecting w)"
  by (auto simp: conn_inv_def channel_inv_def active_def)

lemma shutdownInLoop_ok:
  assumes inv: "conn_inv i w" and act: "active (conns w i)"
  shows "\<exists>w'. shutdownInLoop i w = Inr w' \<and> conn_inv i w' \<and> conn_state (conns w' i) = conn_state (conns w i)
    \<and> write_shut (conns w' i) = (contents (outputBuffer (conns w i)) = [] \<or> write_shut (conns w i))
    \<and> outputBuffer (conns w' i) = outputBuffer (conns w i) \<and> wire (conns w' i) = wire (conns w i)
    \<and> inputBuffer (conns w' i) = inputBuffer (conns w i)"
proof -
  from inv obtain ch where ch: "get_chan i w = Inr ch" by (rule conn_invE) blast
  have "shutdownInLoop i w = Inr (if contents (outputBuffer (conns w i)) = [] then shutdownWrite i w else w)"
    using ch idle_iff_empty(2)[OF inv act ch] by (simp add: shutdownInLoop_def)
  then show ?thesis using inv conn_inv_shutdown[OF inv] by (simp add: shutdownWrite_def)
qed

lemma shutdown_ok:
  assumes inv: "conn_inv i w" and st: "conn_state (conns w i) = kConnected"
    and here: "isInLoopThread (cur_thread w) (cloop i w)"
  shows "\<exists>w'. shutdown_conn i w = Inr w' \<and> conn_inv i w'
    \<and> conn_state (conns w' i) = kDisconnecting
    \<and> write_shut (conns w' i) = (contents (outputBuffer (conns w i)) = [] \<or> write_shut (conns w i))
    \<and> outputBuffer (conns w' i) = outputBuffer (conns w i) \<and> wire (conns w' i) = wire (conns w i)
    \<and> inputBuffer (conns w' i) = inputBuffer (conns w i)"
proof -
  let ?w1 = "setState i kDisconnecting w"
  have "active (conns w i)" using st by (simp add: active_def)
  then have "conn_inv i ?w1" "active (conns ?w1 i)" using conn_inv_disconnecting[OF inv] by (simp_all add: active_def)
  moreover have "shutdown_conn i w = shutdownInLoop i ?w1"
    using st here by (simp add: shutdown_conn_def run_conn_def runInLoop_def)
  ultimately show ?thesis using shutdownInLoop_ok[of i ?w1] by simp
qed

text \<open>In another thread the functor goes to the end of the queue, and the loop is woken.\<close>

lemma run_conn_far:
  assumes "\<not> isInLoopThread (cur_thread w) (cloop i w)"
  shows "\<exists>w'. run_conn i f act w = Inr w' \<and> conns w' = conns w \<and> (conn_inv i w' \<longleftrightarrow> conn_inv i w)
    \<and> pendingFunctors (cloop i w') = pendingFunctors (cloop i w) @ [f] \<and> 0 < wakeup_count (cloop i w')"
proof -
  have "run_conn i f act w = Inr (queue_conn i f w)"
    using assms by (simp add: run_conn_def runInLoop_def queue_conn_def)
  moreover have "threadId (cloop i w) \<noteq> cur_thread w" using assms by (auto simp: isInLoopThread_def)
  ultimately show ?thesis using conn_inv_queue_conn[of i f w] by (auto simp: queue_conn_def)
qed

subsection \<open>Clients of a connection\<close>

fun state_rank :: "StateE \<Rightarrow> nat" where
  "state_rank kConnecting = 0"
| "state_rank kConnected = 1"
| "state_rank kDisconnecting = 2"
| "state_rank kDisconnected = 3"

lemma state_rank_le_3: "state_rank s \<le> 3"
  by (cases s) simp_all

lemma active_rank: "active c \<longleftrightarrow> state_rank (conn_state c) \<in> {1, 2}"
  by (cases "conn_state c") (simp_all add: active_def)

text \<open>
  What an operation on a connection guarantees: unless it fails, the invariant holds
  afterwards and the state has not moved back.
\<close>

definition keeps :: "nat \<Rightarrow> 's world_scheme \<Rightarrow> 's world_scheme result \<Rightarrow> bool" where
  "keeps i w r \<longleftrightarrow> (\<forall>w'. r = Inr w' \<longrightarrow>
     conn_inv i w' \<and> state_rank (conn_state (conns w i)) \<le> state_rank (conn_state (conns w' i)))"

lemma keeps_Inl [simp]: "keeps i w (Inl e)"
  by (simp add: keeps_def)

lemma keeps_Inr [simp]: "keeps i w (Inr w') \<longleftrightarrow>
  conn_inv i w' \<and> state_rank (conn_state (conns w i)) \<le> state_rank (conn_state (conns w' i))"
  by (simp add: keeps_def)

lemma keeps_bind:
  assumes "keeps i w r" and "\<And>w1. conn_inv i w1 \<Longrightarrow> keeps i w1 (k w1)"
  shows "keeps i w (bind_result r k)"
  using assms by (cases r) (auto simp: keeps_def intro: order_trans)

lemma keeps_from:
  assumes "keeps i w1 r" and "state_rank (conn_state (conns w i)) \<le> state_rank (conn_state (conns w1 i))"
  shows "keeps i w r"
  using assms by (auto simp: keeps_def)

lemma keeps_sendInLoop:
  assumes inv: "conn_inv i w" and st: "conn_state (conns w i) \<noteq> kConnecting"
  shows "keeps i w (sendInLoop cbs i msg w)"
proof (cases "active (conns w i)")
  case True
  from sendInLoop_ok[OF inv True, of cbs msg] show ?thesis by (auto simp: same_connD(1))
next
  case False
  then have "conn_state (conns w i) = kDisconnected"
    using st by (cases "conn_state (conns w i)") (simp_all add: active_def)
  then show ?thesis using inv by (simp add: sendInLoop_def)
qed

lemma keeps_run_conn:
  "conn_inv i w \<Longrightarrow> keeps i w (act w) \<Longrightarrow> keeps i w (run_conn i f act w)"
  by (simp add: run_conn_def runInLoop_def queue_conn_def[symmetric])

lemma keeps_send_string: "conn_inv i w \<Longrightarrow> keeps i w (send_string cbs i msg w)"
  by (simp add: send_string_def keeps_sendInLoop keeps_run_conn)

lemma keeps_send_buffer:
  assumes "conn_inv i w"
  shows "keeps i w (bind_result (send_buffer cbs i b w) (\<lambda>(b', w'). Inr w'))"
proof (cases "conn_state (conns w i) = kConnected")
  case True
  then have send: "keeps i w (sendInLoop cbs i data w)" for data
    using assms by (simp add: keeps_sendInLoop)
  have queue: "keeps i w (run_conn i f (sendInLoop cbs i data) w)" for f data
    using assms send by (rule keeps_run_conn)
  show ?thesis using True send queue
    by (auto simp: send_buffer_def keeps_def split: if_splits)
next
  case False
  then show ?thesis using assms by (simp add: send_buffer_def)
qed

lemma keeps_shutdown: "conn_inv i w \<Longrightarrow> keeps i w (shutdown_conn i w)"
proof (cases "conn_state (conns w i) = kConnected")
  case True
  assume inv: "conn_inv i w"
  let ?w1 = "setState i kDisconnecting w"
  have inv1: "conn_inv i ?w1" using inv True by (intro conn_inv_disconnecting) (simp_all add: active_def)
  have "keeps i ?w1 (shutdownInLoop i ?w1)"
    using inv1 conn_inv_shutdown[OF inv1]
    by (cases "get_chan i ?w1") (simp_all add: shutdownInLoop_def shutdownWrite_def)
  then have "keeps i ?w1 (run_conn i (ShutdownInLoop i) (shutdownInLoop i) ?w1)"
    using inv1 by (rule keeps_run_conn[rotated])
  then show ?thesis using True keeps_from[of i ?w1] by (simp add: shutdown_conn_def)
next
  case False
  then show "conn_inv i w \<Longrightarrow> ?thesis" by (simp add: shutdown_conn_def)
qed

text \<open>
  The contract of a user of connections: the callbacks keep the invariant of the
  connection they are called for and do not reopen it. Then so does every handler.
\<close>

locale conn_user =
  fixes cbs :: "'s world_scheme conn_callbacks" and i :: nat
  assumes connection_keeps: "connectionCallback cbs = Some f \<Longrightarrow> conn_inv i w \<Longrightarrow> keeps i w (f i w)"
    and message_keeps: "messageCallback cbs = Some g \<Longrightarrow> conn_inv i w \<Longrightarrow> keeps i w (g i t w)"
    and close_keeps: "closeCallback_conn cbs = Some f \<Longrightarrow> conn_inv i w \<Longrightarrow> keeps i w (f i w)"
begin

lemma connection_call: "conn_inv i w \<Longrightarrow> keeps i w (call_function (connectionCallback cbs) (\<lambda>f. f i w))"
  by (auto simp: call_function_def connection_keeps split: option.splits)

lemma message_call: "conn_inv i w \<Longrightarrow> keeps i w (call_function (messageCallback cbs) (\<lambda>f. f i t w))"
  by (auto simp: call_function_def message_keeps split: option.splits)

lemma close_call: "conn_inv i w \<Longrightarrow> keeps i w (call_function (closeCallback_conn cbs) (\<lambda>f. f i w))"
  by (auto simp: call_function_def close_keeps split: option.splits)

lemma established_keeps:
  assumes inv: "conn_inv i w" and st: "conn_state (conns w i) = kConnecting"
  shows "keeps i w (connectEstablished cbs i w)"
proof -
  obtain w3 ch where w3: "connectEstablished cbs i w = call_function (connectionCallback cbs) (\<lambda>f. f i w3)"
      "conn_inv i w3" "conns w3 = (conns w)(i := (conns w i)\<lparr>conn_state := kConnected\<rparr>)"
    using established_ok[OF inv st, of cbs] by auto
  show ?thesis unfolding w3(1)
    by (rule keeps_from[OF connection_call[OF w3(2)]]) (simp add: w3(3) st)
qed

lemma close_keeps_inv:
  assumes inv: "conn_inv i w"
  shows "keeps i w (handleClose cbs i w)"
proof -
  obtain w1 where w1: "handleClose cbs i w =
      bind_result (call_function (connectionCallback cbs) (\<lambda>f. f i w1))
        (\<lambda>w2. call_function (closeCallback_conn cbs) (\<lambda>f. f i w2))"
      "conn_inv i w1" "conns w1 = (conns w)(i := (conns w i)\<lparr>conn_state := kDisconnected\<rparr>)"
    using handleClose_ok[OF inv, of cbs] by auto
  show ?thesis unfolding w1(1)
    by (rule keeps_from[OF keeps_bind[OF connection_call[OF w1(2)] close_call]])
      (simp_all add: w1(3) state_rank_le_3)
qed

lemma read_keeps:
  assumes inv: "conn_inv i w"
  shows "keeps i w (handleRead cbs i t w)"
proof -
  obtain n e b where r: "let w1 = upd_conn i (\<lambda>c. c\<lparr>inputBuffer := b\<rparr>) (w\<lparr>reads_done := Suc (reads_done w)\<rparr>)
       in conn_inv i w1 \<and> handleRead cbs i t w =
         (if (n :: int) > 0 then call_function (messageCallback cbs) (\<lambda>f. f i t w1)
          else if n = 0 then handleClose cbs i w1 else handleError i w1)"
    using handleRead_ok[OF inv, of cbs t] by blast
  let ?w1 = "upd_conn i (\<lambda>c. c\<lparr>inputBuffer := b\<rparr>) (w\<lparr>reads_done := Suc (reads_done w)\<rparr>)"
  have "keeps i ?w1 (handleRead cbs i t w)"
    using r message_call close_keeps_inv by (simp add: Let_def handleError_def)
  then show ?thesis by (rule keeps_from) simp
qed

lemma destroyed_keeps:
  assumes inv: "conn_inv i w"
  shows "keeps i w (connectDestroyed cbs i w)"
proof -
  have remove: "keeps i w1 (on_channel channel_remove i w1)" if inv1: "conn_inv i w1" for w1
  proof -
    from inv1 obtain ch where ch: "get_chan i w1 = Inr ch" by (rule conn_invE) blast
    show ?thesis
      using remove_channel_ok[OF inv1 ch] channel_remove_asserts[OF ch]
      by (cases "isNoneEvent ch") auto
  qed
  have "keeps i w (if conn_state (conns w i) = kConnected
        then bind_result (on_channel disableAll i (setState i kDisconnected w)) (\<lambda>w1.
             call_function (connectionCallback cbs) (\<lambda>f. f i w1))
        else Inr w)"
  proof (cases "conn_state (conns w i) = kConnected")
    case True
    obtain w1 where w1: "on_channel disableAll i (setState i kDisconnected w) = Inr w1" "conn_inv i w1"
        "conns w1 = (conns w)(i := (conns w i)\<lparr>conn_state := kDisconnected\<rparr>)"
      using close_channel_ok[OF inv] by auto
    have "keeps i w (call_function (connectionCallback cbs) (\<lambda>f. f i w1))"
      by (rule keeps_from[OF connection_call[OF w1(2)]]) (simp add: w1(3) True)
    then show ?thesis using True w1(1) by simp
  qed (simp add: inv)
  then show ?thesis unfolding connectDestroyed_def using remove by (rule keeps_bind)
qed

lemma write_keeps:
  assumes inv: "conn_inv i w"
  shows "keeps i w (handleWrite cbs i w)"
proof -
  let ?c = "conns w i" and ?out = "outputBuffer (conns w i)"
  from inv obtain ch where ch: "get_chan i w = Inr ch" and chi: "channel_inv ?c ch"
    by (rule conn_invE) blast
  show ?thesis
  proof (cases "active ?c \<and> contents ?out \<noteq> []")
    case True
    then have act: "active ?c" "contents ?out \<noteq> []" by simp_all
    show ?thesis
    proof (cases "writerIndex ?out + readableBytes ?out \<le> length (store ?out)")
      case True
      from handleWrite_ok[OF inv act this, of cbs] show ?thesis by auto
    next
      case False
      then show ?thesis using handleWrite_out_of_bounds[OF inv act, of cbs] by simp
    qed
  next
    case False
    have "\<not> isWriting ch"
    proof (cases "active ?c")
      case True
      then show ?thesis using idle_iff_empty(2)[OF inv True ch] False by blast
    next
      case False
      then have "isNoneEvent ch"
        using chi by (cases "conn_state ?c") (simp_all add: active_def channel_inv_def)
      then show ?thesis by (rule isWriting_none)
    qed
    then show ?thesis using handleWrite_not_writing[OF ch] inv by simp
  qed
qed

lemma handler_keeps:
  "conn_inv i w \<Longrightarrow> keeps i w (call_handler (conn_chan_callbacks cbs i) t h w)"
  by (cases h) (simp_all add: conn_chan_callbacks_def call_if_set_def close_keeps_inv read_keeps
      write_keeps handleError_def)

lemma sequence_keeps:
  "conn_inv i w \<Longrightarrow> keeps i w (call_sequence (call_handler (conn_chan_callbacks cbs i) t) hs w)"
  by (induction hs arbitrary: w) (simp_all add: handler_keeps keeps_bind)

lemma event_keeps:
  "conn_inv i w \<Longrightarrow> keeps i w (handleEvent (conn_chan_callbacks cbs i) alive ch t w)"
  by (simp add: handleEvent_def handleEventWithGuard_sequence sequence_keeps)

end

subsection \<open>A sample connection\<close>

text \<open>Connection 0, established, on a loop that runs in thread 1.\<close>

definition sample_channel :: channel where
  "sample_channel = \<lparr>chan_fd = 5, events = kReadEvent, revents = 0, index = kAdded,
     tie_obj = Some 0, tied = True\<rparr>"

definition sample_eventloop :: "loop_functor eventloop" where
  "sample_eventloop = \<lparr>heap = [1 \<mapsto> sample_channel], registry = [5 \<mapsto> 1],
     interest = [5 \<mapsto> (kReadEvent, 1)], event_slots = kInitEventListSize, looping = True,
     quit_flag = False, callingPendingFunctors = False, threadId = 1,
     pollReturnTime = TimeStamp_default, timerChannel = 9, wakeup_count = 0, wakeupChannel = 0,
     activeChannels = [], pendingFunctors = []\<rparr>"

definition sample_world :: "write_answer \<Rightarrow> world" where
  "sample_world ans = \<lparr>loops = (\<lambda>_. sample_eventloop),
     conns = (\<lambda>_. (new_conn 0 ''c'' 5 1 (InetAddress 80 ''127.0.0.1'')
                 (InetAddress 4000 ''127.0.0.1''))\<lparr>conn_state := kConnected\<rparr>),
     cur_thread = 1, read_answers = (\<lambda>_. ReadOk ''hi''), write_answers = (\<lambda>_. ans),
     reads_done = 0, writes_done = 0\<rparr>"

lemma sample_conn [simp]:
  "conn_state (conns (sample_world ans) i) = kConnected"
  "outputBuffer (conns (sample_world ans) i) = Buffer kInitialSize"
  "inputBuffer (conns (sample_world ans) i) = Buffer kInitialSize"
  "wire (conns (sample_world ans) i) = []" "write_shut (conns (sample_world ans) i) = False"
  "isInLoopThread (cur_thread (sample_world ans)) (cloop i (sample_world ans))"
  "get_chan i (sample_world ans) = Inr sample_channel"
  "write_answers (sample_world ans) n = ans"
  by (simp_all add: sample_world_def new_conn_def isInLoopThread_def cloop_def get_chan_def
      sample_eventloop_def)

lemma sample_conn_inv [simp]: "conn_inv i (sample_world ans)"
proof -
  have "wf_poller sample_eventloop"
    by (simp add: wf_poller_def wf_channel_def sample_eventloop_def sample_channel_def index_defs)
  moreover have "channel_inv (conns (sample_world ans) i) sample_channel"
    by (simp add: channel_inv_def sample_channel_def isWriting_def channel_events)
      (simp add: sample_world_def new_conn_def)
  ultimately show ?thesis
    by (simp add: conn_inv_def) (simp add: sample_world_def cloop_def sample_eventloop_def
        new_conn_def fd_free_def sample_channel_def index_defs)
qed

lemma isNone_sample [simp]: "\<not> isNoneEvent sample_channel"
  by (simp add: isNoneEvent_def sample_channel_def channel_events)

definition no_callbacks :: "world conn_callbacks" where
  "no_callbacks = \<lparr>connectionCallback = Some (\<lambda>i w. Inr w), messageCallback = Some (\<lambda>i t w. Inr w),
     writeCompleteCallback = None, closeCallback_conn = Some (\<lambda>i w. Inr w),
     highWaterMarkCallback = None\<rparr>"

interpretation sample_user: conn_user no_callbacks i for i
  by unfold_locales (auto simp: no_callbacks_def)

subsection \<open>Properties\<close>

text \<open>The stream of a connection is what the kernel has taken, then what waits in the output buffer.\<close>

definition stream_grows ::
    "nat \<Rightarrow> char list \<Rightarrow> 's world_scheme \<Rightarrow> 's world_scheme result \<Rightarrow> bool" where
  "stream_grows i msg w r \<longleftrightarrow> (\<exists>w'. r = Inr w' \<and> conn_inv i w' \<and> conn_state (conns w' i) = conn_state (conns w i)
     \<and> wire (conns w' i) @ contents (outputBuffer (conns w' i))
         = wire (conns w i) @ contents (outputBuffer (conns w i))
           @ (if contents (outputBuffer (conns w i)) = []
                \<and> peer_gone (write_answers w (writes_done w)) then [] else msg))"

lemma sendInLoop_grows:
  "conn_inv i w \<Longrightarrow> active (conns w i) \<Longrightarrow> stream_grows i msg w (sendInLoop cbs i msg w)"
  using sendInLoop_ok[of i w cbs msg] same_connD(1) by (fastforce simp: stream_grows_def)

text \<open>C1: no byte of a stream is lost, repeated or reordered by \<open>send (const std::string &)\<close>. On a
  connected socket, in the thread of its loop, the call succeeds and keeps the invariant; what the
  kernel has taken followed by what waits in the output buffer grows by exactly the message, except that
  the message is dropped when nothing waits and the kernel reports that the peer is gone. In any other
  thread the call changes no connection: it queues \<open>sendInLoop\<close> with the whole message behind the
  functors that are queued, and wakes the loop. When that is called, in whatever state \<open>v\<close> the
  connection is then, the stream grows by the message in the same way, or the connection has been
  closed and nothing happens.\<close>

theorem send_keeps_stream:
  assumes "conn_inv i w" and "conn_state (conns w i) = kConnected"
  shows "(isInLoopThread (cur_thread w) (cloop i w) \<longrightarrow> stream_grows i msg w (send_string cbs i msg w))
    \<and> (\<not> isInLoopThread (cur_thread w) (cloop i w) \<longrightarrow>
         (\<exists>w'. send_string cbs i msg w = Inr w' \<and> conns w' = conns w \<and> conn_inv i w'
           \<and> pendingFunctors (cloop i w') = pendingFunctors (cloop i w) @ [SendInLoop i msg]
           \<and> 0 < wakeup_count (cloop i w')))
    \<and> (conn_inv i v \<and> active (conns v i) \<longrightarrow> stream_grows i msg v (sendInLoop cbs i msg v))
    \<and> (conn_state (conns v i) = kDisconnected \<longrightarrow> sendInLoop cbs i msg v = Inr v)"
proof -
  have "active (conns w i)" using assms(2) by (simp add: active_def)
  then have "stream_grows i msg w (send_string cbs i msg w)" if "isInLoopThread (cur_thread w) (cloop i w)"
    using sendInLoop_grows[OF assms(1), of msg cbs] assms(2) that by (simp add: send_string_def)
  moreover have "stream_grows i msg v (sendInLoop cbs i msg v)" if "conn_inv i v \<and> active (conns v i)"
    using that sendInLoop_grows by blast
  moreover have "sendInLoop cbs i msg v = Inr v" if "conn_state (conns v i) = kDisconnected"
    using that by (simp add: sendInLoop_def)
  ultimately show ?thesis using run_conn_far[of w i "SendInLoop i msg" "sendInLoop cbs i msg"] assms
    by (auto simp: send_string_def)
qed

theorem send_keeps_stream_witness:
  "\<exists>w' v'. send_string no_callbacks 0 ''hello'' (sample_world (WriteOk 2)) = Inr w' \<and> conn_inv 0 w'
    \<and> conn_state (conns w' 0) = kConnected
    \<and> wire (conns w' 0) @ contents (outputBuffer (conns w' 0)) = ''hello''
    \<and> send_string no_callbacks 0 ''hello'' ((sample_world (WriteOk 2))\<lparr>cur_thread := 5\<rparr>) = Inr v'
    \<and> pendingFunctors (cloop 0 v') = [SendInLoop 0 ''hello'']"
proof -
  let ?w = "sample_world (WriteOk 2)" and ?v = "(sample_world (WriteOk 2))\<lparr>cur_thread := 5\<rparr>"
  have v: "conn_inv 0 ?v" "conn_state (conns ?v 0) = kConnected" "\<not> isInLoopThread (cur_thread ?v) (cloop 0 ?v)"
    "pendingFunctors (cloop 0 ?v) = []"
    using sample_conn_inv[of 0 "WriteOk 2"]
    by (simp_all add: conn_inv_def cloop_def) (simp_all add: sample_world_def sample_eventloop_def isInLoopThread_def)
  have "stream_grows 0 ''hello'' ?w (send_string no_callbacks 0 ''hello'' ?w)"
    using send_keeps_stream[of 0 ?w "''hello''" no_callbacks ?w] by simp
  then have "\<exists>w'. send_string no_callbacks 0 ''hello'' ?w = Inr w' \<and> conn_inv 0 w' \<and> conn_state (conns w' 0) = kConnected
      \<and> wire (conns w' 0) @ contents (outputBuffer (conns w' 0)) = ''hello''"
    by (simp add: stream_grows_def peer_gone_def)
  moreover have "\<exists>v'. send_string no_callbacks 0 ''hello'' ?v = Inr v'
      \<and> pendingFunctors (cloop 0 v') = pendingFunctors (cloop 0 ?v) @ [SendInLoop 0 ''hello'']"
    using send_keeps_stream[OF v(1,2), of "''hello''" no_callbacks ?w] v(3) by blast
  ultimately show ?thesis using v(4) by auto
qed

lemma fresh_buffer_holding:
  assumes "append_buffer s (Buffer kInitialSize) = Inr m"
  shows "writerIndex m = kCheapPrepend + length s" "readerIndex m = kCheapPrepend"
    and "length s \<le> kInitialSize \<Longrightarrow>
      store m = replicate kCheapPrepend (CHR 0x00) @ s
                  @ replicate (kInitialSize - length s) (CHR 0x00)"
    and "kInitialSize < length s \<Longrightarrow> length (store m) = kCheapPrepend + length s"
proof -
  let ?b = "Buffer kInitialSize"
  have room: "writableBytes ?b = kInitialSize" "writerIndex ?b = kCheapPrepend"
      "readerIndex ?b = kCheapPrepend" "readableBytes ?b = 0" "prependableBytes ?b = kCheapPrepend"
    by (simp_all add: Buffer_def writableBytes_def readableBytes_def prependableBytes_def)
  show "writerIndex m = kCheapPrepend + length s" "readerIndex m = kCheapPrepend"
    and "length s \<le> kInitialSize \<Longrightarrow>
      store m = replicate kCheapPrepend (CHR 0x00) @ s
                  @ replicate (kInitialSize - length s) (CHR 0x00)"
    and "kInitialSize < length s \<Longrightarrow> length (store m) = kCheapPrepend + length s"
    using assms room
    by (auto simp: append_buffer_def ensureWritableBytes_def makeSpace_def check_def Buffer_def
        writableBytes_def copy_to_def replicate_add Let_def split: if_splits)
qed

lemma read_past_fresh_buffer:
  assumes "append_buffer s (Buffer kInitialSize) = Inr m"
  shows "read_range m (writerIndex m) (readableBytes m) =
    (if 2 * length s \<le> kInitialSize \<or> s = [] then Inr (replicate (length s) (CHR 0x00))
     else Inl OutOfBounds)"
proof -
  note fresh = fresh_buffer_holding[OF assms]
  have rb: "readableBytes m = length s" by (simp add: readableBytes_def fresh)
  show ?thesis
  proof (cases "length s \<le> kInitialSize")
    case True
    have "take (length s) (replicate (kInitialSize - length s) (CHR 0x00))
        = replicate (length s) (CHR 0x00)" if "2 * length s \<le> kInitialSize"
      using that by (simp add: min_def)
    then show ?thesis using True by (auto simp: read_range_def rb fresh(1,3) segment_def)
  next
    case False
    then have "length (store m) = kCheapPrepend + length s" by (simp add: fresh(4))
    then show ?thesis using False by (auto simp: read_range_def rb fresh(1))
  qed
qed

text \<open>\<open>send (Buffer *)\<close> does not send the contents of the buffer. It passes \<open>beginWrite ()\<close>
  on in place of \<open>peek ()\<close>: a fresh buffer that holds \<open>s\<close> is sent as as many zero bytes, and
  if \<open>s\<close> is longer than half of the initial size, the call reads past the end of the
  storage.\<close>

theorem send_buffer_wrong_bytes:
  assumes "conn_state (conns w i) = kConnected" and "isInLoopThread (cur_thread w) (cloop i w)"
    and "append_buffer s (Buffer kInitialSize) = Inr m"
  shows "send_buffer cbs i m w =
    (if 2 * length s \<le> kInitialSize \<or> s = []
     then bind_result (sendInLoop cbs i (replicate (length s) (CHR 0x00)) w)
            (\<lambda>w'. Inr (retrieveAll m, w'))
     else Inl OutOfBounds)"
  using assms(1,2) by (simp add: send_buffer_def read_past_fresh_buffer[OF assms(3)])

theorem send_buffer_wrong_bytes_witness:
  "\<exists>m. append_buffer ''ok'' (Buffer kInitialSize) = Inr m
     \<and> send_buffer no_callbacks 0 m (sample_world (WriteOk 2))
       = bind_result (sendInLoop no_callbacks 0 [CHR 0x00, CHR 0x00] (sample_world (WriteOk 2)))
           (\<lambda>w'. Inr (retrieveAll m, w'))"
proof -
  obtain m where m: "append_buffer ''ok'' (Buffer kInitialSize) = Inr m"
    using append_buffer_ok[OF wf_Buffer] by blast
  with send_buffer_wrong_bytes[OF _ _ m, of "sample_world (WriteOk 2)" 0 no_callbacks]
  show ?thesis by (simp add: kInitialSize_def numeral_2_eq_2)
qed

text \<open>C39: bytes that wait in the output buffer are not sent as they are. When the socket is writable,
  \<open>handleWrite\<close> writes the bytes behind the contents, from \<open>beginWrite ()\<close>, and then drops as many
  bytes of the contents. Let a message \<open>s\<close> of an open connection, not empty and at most 512 bytes long, have been buffered in a
  fresh buffer, and let the kernel take up to \<open>k\<close> bytes: then it gets zero bytes, as many as it takes, and as many bytes of \<open>s\<close>
  are dropped. When the buffer is drained, a connection that was shut down closes its write side. (For a
  longer message the read goes past the storage of the buffer.)\<close>

theorem handleWrite_wrong_bytes:
  assumes inv: "conn_inv i w" and act: "active (conns w i)"
    and out: "append_buffer s (Buffer kInitialSize) = Inr (outputBuffer (conns w i))"
    and s: "s \<noteq> []" "2 * length s \<le> kInitialSize" and ans: "write_answers w (writes_done w) = WriteOk k"
  shows "\<exists>w'. handleWrite cbs i w = Inr w' \<and> conn_inv i w'
    \<and> wire (conns w' i) = wire (conns w i) @ replicate (min k (length s)) (CHR 0x00)
    \<and> contents (outputBuffer (conns w' i)) = drop k s
    \<and> conn_state (conns w' i) = conn_state (conns w i)
    \<and> (length s \<le> k \<and> conn_state (conns w i) = kDisconnecting \<longrightarrow> write_shut (conns w' i))"
proof -
  let ?out = "outputBuffer (conns w i)"
  have cont: "contents ?out = s" using append_buffer_ok[OF wf_Buffer, of s kInitialSize] out by simp
  have rr: "read_range ?out (writerIndex ?out) (readableBytes ?out)
      = Inr (replicate (length s) (CHR 0x00))"
    using read_past_fresh_buffer[OF out] s(2) by simp
  then have room: "writerIndex ?out + readableBytes ?out \<le> length (store ?out)"
    and after: "bytes_after ?out = replicate (length s) (CHR 0x00)"
    by (auto simp: read_range_def bytes_after_def split: if_splits)
  have taken: "taken_by (write_answers w (writes_done w)) (bytes_after ?out)
      = replicate (min k (length s)) (CHR 0x00)"
    by (simp add: ans taken_by_def after)
  have drop: "drop (min k (length s)) s = drop k s" by (simp add: min_def)
  show ?thesis
    using handleWrite_ok[OF inv act _ room, of cbs, unfolded taken cont] s(1) drop
    by (auto simp: min_def)
qed

definition sample_waiting :: "buffer \<Rightarrow> world" where
  "sample_waiting out = (let w = sample_world (WriteOk 1);
     ch = sample_channel\<lparr>events := kReadEvent OR kWriteEvent\<rparr>
   in w\<lparr>loops := (\<lambda>_. sample_eventloop\<lparr>heap := [1 \<mapsto> ch],
            interest := [5 \<mapsto> (kReadEvent OR kWriteEvent, 1)]\<rparr>),
        conns := (\<lambda>i. (conns w i)\<lparr>outputBuffer := out\<rparr>)\<rparr>)"

lemma sample_waiting_inv:
  assumes "wf_buffer out" and "contents out \<noteq> []"
  shows "conn_inv i (sample_waiting out)"
proof -
  let ?ch = "sample_channel\<lparr>events := kReadEvent OR kWriteEvent\<rparr>"
  have "wf_poller (sample_eventloop\<lparr>heap := [1 \<mapsto> ?ch],
            interest := [5 \<mapsto> (kReadEvent OR kWriteEvent, 1)]\<rparr>)"
    by (simp add: wf_poller_def wf_channel_def sample_eventloop_def sample_channel_def index_defs)
  moreover have "isWriting ?ch"
    by (simp add: isWriting_def channel_events)
  ultimately show ?thesis using assms
    by (simp add: conn_inv_def sample_waiting_def Let_def cloop_def channel_inv_def)
      (simp add: sample_world_def new_conn_def sample_eventloop_def fd_free_def sample_channel_def
        index_defs)
qed

theorem handleWrite_wrong_bytes_witness:
  "\<exists>out w'. append_buffer ''ok'' (Buffer kInitialSize) = Inr out
    \<and> contents out = ''ok''
    \<and> handleWrite no_callbacks 0 (sample_waiting out) = Inr w'
    \<and> wire (conns w' 0) = [CHR 0x00] \<and> contents (outputBuffer (conns w' 0)) = ''k''"
proof -
  obtain out where out: "append_buffer ''ok'' (Buffer kInitialSize) = Inr out" "wf_buffer out"
      "contents out = ''ok''"
    using append_buffer_ok[OF wf_Buffer, of "''ok''" kInitialSize] by auto
  let ?w = "sample_waiting out"
  have "conn_inv 0 ?w" using out(2,3) by (simp add: sample_waiting_inv)
  moreover have "active (conns ?w 0)" "outputBuffer (conns ?w 0) = out" "wire (conns ?w 0) = []"
      "write_answers ?w (writes_done ?w) = WriteOk 1"
    by (simp_all add: sample_waiting_def Let_def active_def)
  ultimately show ?thesis
    using handleWrite_wrong_bytes[of 0 ?w "''ok''" 1 no_callbacks] out(1,3)
    by (auto simp: kInitialSize_def)
qed

text \<open>C35: \<open>shutdown ()\<close> is graceful. On an open connection it moves the state to \<open>kDisconnecting\<close>,
  after which \<open>send\<close> and \<open>shutdown\<close> have no effect. In the thread of the loop it closes the write side
  at once exactly when nothing waits in the output buffer (or the side was closed before); bytes that
  wait stay there. In any other thread it changes nothing else of the connection, queues
  \<open>shutdownInLoop\<close> behind the functors that are queued, and wakes the loop. When that is called, in
  whatever state \<open>v\<close> the connection is then, and the connection is not closed, it does the same.\<close>

theorem shutdown_is_graceful:
  assumes "conn_inv i w" and "conn_state (conns w i) = kConnected"
  shows "(isInLoopThread (cur_thread w) (cloop i w) \<longrightarrow> (\<exists>w'. shutdown_conn i w = Inr w' \<and> conn_inv i w'
       \<and> conn_state (conns w' i) = kDisconnecting
       \<and> (write_shut (conns w' i) \<longleftrightarrow> contents (outputBuffer (conns w i)) = [] \<or> write_shut (conns w i))
       \<and> outputBuffer (conns w' i) = outputBuffer (conns w i)
       \<and> send_string cbs i msg w' = Inr w' \<and> shutdown_conn i w' = Inr w'))
    \<and> (\<not> isInLoopThread (cur_thread w) (cloop i w) \<longrightarrow> (\<exists>w'. shutdown_conn i w = Inr w' \<and> conn_inv i w'
         \<and> conns w' = (conns w)(i := (conns w i)\<lparr>conn_state := kDisconnecting\<rparr>)
         \<and> pendingFunctors (cloop i w') = pendingFunctors (cloop i w) @ [ShutdownInLoop i]
         \<and> 0 < wakeup_count (cloop i w')
         \<and> send_string cbs i msg w' = Inr w' \<and> shutdown_conn i w' = Inr w'))
    \<and> (conn_inv i v \<and> active (conns v i) \<longrightarrow> (\<exists>v'. shutdownInLoop i v = Inr v' \<and> conn_inv i v'
         \<and> (write_shut (conns v' i) \<longleftrightarrow> contents (outputBuffer (conns v i)) = [] \<or> write_shut (conns v i))
         \<and> outputBuffer (conns v' i) = outputBuffer (conns v i)))"
proof -
  let ?w1 = "setState i kDisconnecting w"
  have quiet: "send_string cbs i msg w' = Inr w' \<and> shutdown_conn i w' = Inr w'"
    if "conn_state (conns w' i) = kDisconnecting" for w' :: "'a world_scheme"
    using that by (simp add: send_string_def shutdown_conn_def)
  have here: "\<exists>w'. shutdown_conn i w = Inr w' \<and> conn_inv i w' \<and> conn_state (conns w' i) = kDisconnecting
       \<and> (write_shut (conns w' i) \<longleftrightarrow> contents (outputBuffer (conns w i)) = [] \<or> write_shut (conns w i))
       \<and> outputBuffer (conns w' i) = outputBuffer (conns w i)" if "isInLoopThread (cur_thread w) (cloop i w)"
    using shutdown_ok[OF assms that] by blast
  have far: "\<exists>w'. shutdown_conn i w = Inr w' \<and> conn_inv i w'
         \<and> conns w' = (conns w)(i := (conns w i)\<lparr>conn_state := kDisconnecting\<rparr>)
         \<and> pendingFunctors (cloop i w') = pendingFunctors (cloop i w) @ [ShutdownInLoop i]
         \<and> 0 < wakeup_count (cloop i w')" if "\<not> isInLoopThread (cur_thread w) (cloop i w)"
  proof -
    have "conn_inv i ?w1" using assms by (intro conn_inv_disconnecting) (simp_all add: active_def)
    moreover have c: "conns ?w1 = (conns w)(i := (conns w i)\<lparr>conn_state := kDisconnecting\<rparr>)" "cloop i ?w1 = cloop i w"
      "cur_thread ?w1 = cur_thread w" by (simp_all add: setState_def upd_conn_def cloop_def)
    ultimately show ?thesis
      using run_conn_far[of ?w1 i "ShutdownInLoop i" "shutdownInLoop i"] assms(2) that unfolding c
      by (auto simp: shutdown_conn_def)
  qed
  have late: "\<exists>v'. shutdownInLoop i v = Inr v' \<and> conn_inv i v'
         \<and> (write_shut (conns v' i) \<longleftrightarrow> contents (outputBuffer (conns v i)) = [] \<or> write_shut (conns v i))
         \<and> outputBuffer (conns v' i) = outputBuffer (conns v i)" if "conn_inv i v" "active (conns v i)"
    using shutdownInLoop_ok[OF that] by blast
  show ?thesis using here far late quiet by (intro conjI impI) fastforce+
qed

theorem shutdown_is_graceful_witness:
  "\<exists>w'. shutdown_conn 0 (sample_world (WriteOk 0)) = Inr w' \<and> conn_inv 0 w'
    \<and> write_shut (conns w' 0) \<and> send_string no_callbacks 0 ''late'' w' = Inr w'"
  using shutdown_is_graceful[of 0 "sample_world (WriteOk 0)" no_callbacks "''late''"] by auto

text \<open>A connection that is shut down but not closed yet cannot be destroyed. The path of
  \<open>~TcpServer\<close>, which calls \<open>connectDestroyed\<close> on every connection, then reaches
  \<open>Channel::remove\<close> with events still enabled, whose assertion fails.\<close>

theorem destroy_after_shutdown_asserts:
  assumes inv: "conn_inv i w" and st: "conn_state (conns w i) = kConnected"
    and here: "isInLoopThread (cur_thread w) (cloop i w)"
    and ch: "get_chan i w = Inr ch" "\<not> isNoneEvent ch"
  shows "bind_result (shutdown_conn i w) (connectDestroyed cbs i) = Inl AssertFail"
proof -
  let ?w1 = "setState i kDisconnecting w"
  have ch1: "get_chan i ?w1 = Inr ch" "get_chan i (shutdownWrite i ?w1) = Inr ch"
    using ch(1) by (simp_all add: setState_def shutdownWrite_def)
  have "shutdown_conn i w = shutdownInLoop i ?w1"
    using st here by (simp add: shutdown_conn_def run_conn_def runInLoop_def)
  then have "shutdown_conn i w = Inr (if isWriting ch then ?w1 else shutdownWrite i ?w1)"
    using ch1 by (simp add: shutdownInLoop_def)
  then show ?thesis
    using channel_remove_asserts[OF ch1(1) ch(2)] channel_remove_asserts[OF ch1(2) ch(2)]
    by (simp add: connectDestroyed_def) (simp add: shutdownWrite_def)
qed

theorem destroy_after_shutdown_asserts_witness:
  "bind_result (shutdown_conn 0 (sample_world (WriteOk 0))) (connectDestroyed no_callbacks 0)
     = Inl AssertFail"
  by (rule destroy_after_shutdown_asserts[of _ _ sample_channel]) simp_all

text \<open>C26: whatever events \<open>epoll\<close> reports for a connection and whatever the kernel answers to
  the reads and writes, the handlers keep the invariant of the connection, its buffers, its
  channel and the poller, and never move its state back, as long as the callbacks of the user
  do.\<close>

theorem events_keep_connection:
  assumes "conn_user cbs i" and "conn_inv i w"
    and "handleEvent (conn_chan_callbacks cbs i) alive ch t w = Inr w'"
  shows "conn_inv i w'
    \<and> state_rank (conn_state (conns w i)) \<le> state_rank (conn_state (conns w' i))"
  using conn_user.event_keeps[OF assms(1,2), of alive ch t] assms(3) by (simp add: keeps_def)

theorem events_keep_connection_witness:
  "\<exists>w'. handleEvent (conn_chan_callbacks no_callbacks 0) (\<lambda>_. True)
      (set_revents EPOLLHUP sample_channel) TimeStamp_default (sample_world (WriteOk 0)) = Inr w'
    \<and> conn_inv 0 w' \<and> state_rank kConnected \<le> state_rank (conn_state (conns w' 0))"
proof -
  let ?w = "sample_world (WriteOk 0)"
  obtain w1 where "handleClose no_callbacks 0 ?w = Inr w1"
    using handleClose_ok[of 0 ?w no_callbacks] by (auto simp: call_function_def no_callbacks_def)
  then have e: "handleEvent (conn_chan_callbacks no_callbacks 0) (\<lambda>_. True)
      (set_revents EPOLLHUP sample_channel) TimeStamp_default ?w = Inr w1"
    by (simp add: handleEvent_def set_revents_def sample_channel_def handleEventWithGuard_def
        conn_chan_callbacks_def call_if_set_def epoll_bits)
  from events_keep_connection[OF sample_user.conn_user_axioms sample_conn_inv e] e
  show ?thesis by simp
qed

text \<open>Opening and closing. \<open>connectEstablished\<close> makes a new connection readable, ties its
  channel to it and calls the connection callback in state \<open>kConnected\<close>. After
  \<open>handleClose\<close>, which calls it in state \<open>kDisconnected\<close>, and callbacks that leave the
  connection as it is, \<open>connectDestroyed\<close> takes the descriptor out of the poller and the
  kernel's interest list and does not call the callback again.\<close>

theorem connection_opens_and_closes:
  assumes inv: "conn_inv i w"
    and callback: "connectionCallback cbs = Some (\<lambda>i w. Inr w)"
    and close: "closeCallback_conn cbs = Some (\<lambda>i w. Inr w)"
  shows "(conn_state (conns w i) = kConnecting \<longrightarrow>
      (\<exists>w' ch. connectEstablished cbs i w = Inr w' \<and> conn_inv i w'
        \<and> conn_state (conns w' i) = kConnected \<and> get_chan i w' = Inr ch
        \<and> isReading ch \<and> tied ch \<and> tie_obj ch = Some i))
    \<and> (\<exists>w1 w2. handleClose cbs i w = Inr w1 \<and> conn_state (conns w1 i) = kDisconnected
        \<and> connectDestroyed cbs' i w1 = Inr w2 \<and> conn_inv i w2
        \<and> registry (cloop i w2) (sockfd (conns w i)) = None
        \<and> interest (cloop i w2) (sockfd (conns w i)) = None
        \<and> conn_state (conns w2 i) = kDisconnected)"
proof -
  have opens: "\<exists>w' ch. connectEstablished cbs i w = Inr w' \<and> conn_inv i w'
        \<and> conn_state (conns w' i) = kConnected \<and> get_chan i w' = Inr ch
        \<and> isReading ch \<and> tied ch \<and> tie_obj ch = Some i" if "conn_state (conns w i) = kConnecting"
    using established_ok[OF inv that, of cbs] by (auto simp: call_function_def callback)
  obtain w1 ch where w1: "handleClose cbs i w = Inr w1" "conn_inv i w1"
      "conns w1 = (conns w)(i := (conns w i)\<lparr>conn_state := kDisconnected\<rparr>)"
      "get_chan i w1 = Inr ch" "isNoneEvent ch"
    using handleClose_ok[OF inv, of cbs] by (auto simp: call_function_def callback close)
  from remove_channel_ok[OF w1(2,4,5)] obtain w2 where
    "on_channel channel_remove i w1 = Inr w2" "conn_inv i w2" "conns w2 = conns w1"
    "registry (cloop i w2) (sockfd (conns w1 i)) = None"
    "interest (cloop i w2) (sockfd (conns w1 i)) = None" by blast
  then have "\<exists>w1 w2. handleClose cbs i w = Inr w1 \<and> conn_state (conns w1 i) = kDisconnected
        \<and> connectDestroyed cbs' i w1 = Inr w2 \<and> conn_inv i w2
        \<and> registry (cloop i w2) (sockfd (conns w i)) = None
        \<and> interest (cloop i w2) (sockfd (conns w i)) = None
        \<and> conn_state (conns w2 i) = kDisconnected"
    using w1 by (simp add: connectDestroyed_def)
  with opens show ?thesis by blast
qed

theorem connection_opens_and_closes_witness:
  "\<exists>w1 w2. handleClose no_callbacks 0 (sample_world (WriteOk 0)) = Inr w1
     \<and> connectDestroyed no_callbacks 0 w1 = Inr w2 \<and> registry (cloop 0 w2) 5 = None"
proof -
  have fd: "sockfd (conns (sample_world (WriteOk 0)) 0) = 5"
    by (simp add: sample_world_def new_conn_def)
  show ?thesis
    using connection_opens_and_closes[of 0 "sample_world (WriteOk 0)" no_callbacks no_callbacks]
    unfolding fd by (fastforce simp: no_callbacks_def)
qed

end
