(* ===== verification/Timer_Queue.thy ===== *)
theory Timer_Queue
  imports Net_EventLoop
begin

section \<open>Timers (src/time/Timer.*, src/time/TimerQueue.*)\<close>

text \<open>
  A \<open>TimerQueue\<close> keeps its timers in a \<open>std::set\<close> of pairs of an expiration time and the
  address of a timer, ordered lexicographically, and arms one timerfd for the earliest.
  The set is a sorted list without duplicates, the timers live in \<open>timer_heap\<close>, and the
  timerfd is \<open>armed\<close>: the \<open>it_value\<close> it was last given, \<open>None\<close> when it has expired and has
  been read. \<open>clock n\<close> is what the \<open>n\<close>-th call of \<open>TimeStamp::now ()\<close> returns. The user's
  callbacks are arguments on the state of a whole program, with the access to the queue
  as in \<open>Net_EventLoop\<close>; what they may do to it is the contract of the locale \<open>timer_host\<close>.
\<close>

record timer =
  callback_id :: nat            \<comment> \<open>\<open>callback_\<close>\<close>
  expiration :: TimeStamp       \<comment> \<open>\<open>expiration_\<close>\<close>
  interval :: double            \<comment> \<open>\<open>interval_\<close>\<close>
  repeats :: bool               \<comment> \<open>\<open>repeat_\<close>\<close>

definition Timer :: "nat \<Rightarrow> TimeStamp \<Rightarrow> double \<Rightarrow> timer" where
  "Timer cb when ival = \<lparr>callback_id = cb, expiration = when, interval = ival, repeats = ival > 0\<rparr>"

definition restart :: "TimeStamp \<Rightarrow> timer \<Rightarrow> timer" where
  "restart now t =
     (if repeats t then t\<lparr>expiration := addTime now (interval t)\<rparr>
      else t\<lparr>expiration := TimeStamp_default\<rparr>)"

record timer_queue =
  timers :: "(TimeStamp \<times> nat) list"       \<comment> \<open>\<open>timers_\<close>\<close>
  timer_heap :: "nat \<Rightarrow> timer option"
  armed :: "(int \<times> int) option"             \<comment> \<open>\<open>timerfd_\<close>: seconds and nanoseconds\<close>
  armed_at :: TimeStamp
  clock :: "nat \<Rightarrow> TimeStamp"
  ticks :: nat

definition UINTPTR_MAX :: nat where "UINTPTR_MAX = 2 ^ 64 - 1"

definition take_now :: "timer_queue \<Rightarrow> TimeStamp \<times> timer_queue" where
  "take_now q = (clock q (ticks q), q\<lparr>ticks := Suc (ticks q)\<rparr>)"

text \<open>\<open>std::set::insert\<close>.\<close>

definition set_insert :: "'a :: linorder \<Rightarrow> 'a list \<Rightarrow> 'a list" where
  "set_insert x xs = (if x \<in> set xs then xs else insort x xs)"

definition deref_timer :: "nat \<Rightarrow> timer_queue \<Rightarrow> timer result" where
  "deref_timer p q = (case timer_heap q p of None \<Rightarrow> Inl NullPointer | Some t \<Rightarrow> Inr t)"

subsection \<open>Operations\<close>

definition resetTimerfd :: "TimeStamp \<Rightarrow> timer_queue \<Rightarrow> timer_queue" where
  "resetTimerfd due_time q =
     (let (now, q1) = take_now q;
          us = microSecondsSinceEpoch due_time - microSecondsSinceEpoch now;
          microseconds = (if us < 100 then 100 else us)
      in q1\<lparr>armed := Some (microseconds sdiv kMicroSecondsPerSecond,
                           (microseconds smod kMicroSecondsPerSecond) * 1000),
            armed_at := now\<rparr>)"

definition insert_timer :: "nat \<Rightarrow> timer_queue \<Rightarrow> (bool \<times> timer_queue) result" where
  "insert_timer p q =
     bind_result (deref_timer p q) (\<lambda>t.
       let when = expiration t;
           earliestChanged = (case timers q of [] \<Rightarrow> True | e # _ \<Rightarrow> when < fst e)
       in Inr (earliestChanged, q\<lparr>timers := set_insert (when, p) (timers q)\<rparr>))"

definition addTimerInLoop :: "nat \<Rightarrow> timer_queue \<Rightarrow> timer_queue result" where
  "addTimerInLoop p q =
     bind_result (insert_timer p q) (\<lambda>(earliestChanged, q1).
       if earliestChanged
       then bind_result (deref_timer p q1) (\<lambda>t. Inr (resetTimerfd (expiration t) q1))
       else Inr q1)"

text \<open>\<open>p\<close> is the address of the new timer, \<open>f\<close> the functor bound for the loop.\<close>

definition addTimer ::
    "('w \<Rightarrow> 'f eventloop) \<Rightarrow> (('f eventloop \<Rightarrow> 'f eventloop) \<Rightarrow> 'w \<Rightarrow> 'w)
       \<Rightarrow> ('w \<Rightarrow> timer_queue) \<Rightarrow> ((timer_queue \<Rightarrow> timer_queue) \<Rightarrow> 'w \<Rightarrow> 'w)
       \<Rightarrow> nat \<Rightarrow> nat \<Rightarrow> (nat \<Rightarrow> 'f) \<Rightarrow> nat \<Rightarrow> TimeStamp \<Rightarrow> double \<Rightarrow> 'w \<Rightarrow> 'w result" where
  "addTimer get_loop upd_loop get upd tid p f cb when ival w =
     (let w1 = upd (\<lambda>q. q\<lparr>timer_heap := (timer_heap q)(p \<mapsto> Timer cb when ival)\<rparr>) w
      in runInLoop get_loop upd_loop tid (f p)
           (\<lambda>w. bind_result (addTimerInLoop p (get w)) (\<lambda>q. Inr (upd (\<lambda>_. q) w))) w1)"

definition runAt where
  "runAt get_loop upd_loop get upd tid p f time cb w =
     addTimer get_loop upd_loop get upd tid p f cb time 0 w"

definition runAfter where
  "runAfter get_loop upd_loop get upd tid p f delay cb w =
     (let (now, q) = take_now (get w)
      in runAt get_loop upd_loop get upd tid p f (addTime now delay) cb (upd (\<lambda>_. q) w))"

definition runEvery where
  "runEvery get_loop upd_loop get upd tid p f ival cb w =
     (let (now, q) = take_now (get w)
      in addTimer get_loop upd_loop get upd tid p f cb (addTime now ival) ival (upd (\<lambda>_. q) w))"

definition getExpired :: "TimeStamp \<Rightarrow> timer_queue \<Rightarrow> (TimeStamp \<times> nat) list \<times> timer_queue" where
  "getExpired now q =
     (let sentry = (now, UINTPTR_MAX);
          expired = takeWhile (\<lambda>e. e < sentry) (timers q)
      in (expired, q\<lparr>timers := drop (length expired) (timers q)\<rparr>))"

definition reset_one :: "TimeStamp \<times> nat \<Rightarrow> timer_queue \<Rightarrow> timer_queue result" where
  "reset_one e q =
     bind_result (deref_timer (snd e) q) (\<lambda>t.
       if repeats t
       then let (now, q1) = take_now q
            in bind_result
                 (insert_timer (snd e)
                    (q1\<lparr>timer_heap := (timer_heap q1)(snd e \<mapsto> restart now t)\<rparr>))
                 (\<lambda>(_, q2). Inr q2)
       else Inr (q\<lparr>timer_heap := (timer_heap q)(snd e := None)\<rparr>))"

definition reset :: "(TimeStamp \<times> nat) list \<Rightarrow> timer_queue \<Rightarrow> timer_queue result" where
  "reset expired q =
     bind_result (call_sequence reset_one expired q) (\<lambda>q1.
       case timers q1 of [] \<Rightarrow> Inr q1
       | e # _ \<Rightarrow> bind_result (deref_timer (snd e) q1) (\<lambda>t. Inr (resetTimerfd (expiration t) q1)))"

definition run_timer ::
    "('w \<Rightarrow> timer_queue) \<Rightarrow> (nat \<Rightarrow> 'w \<Rightarrow> 'w result) \<Rightarrow> TimeStamp \<times> nat \<Rightarrow> 'w \<Rightarrow> 'w result" where
  "run_timer get run e w = bind_result (deref_timer (snd e) (get w)) (\<lambda>t. run (callback_id t) w)"

definition timer_handleRead ::
    "('w \<Rightarrow> timer_queue) \<Rightarrow> ((timer_queue \<Rightarrow> timer_queue) \<Rightarrow> 'w \<Rightarrow> 'w)
       \<Rightarrow> (nat \<Rightarrow> 'w \<Rightarrow> 'w result) \<Rightarrow> 'w \<Rightarrow> 'w result" where
  "timer_handleRead get upd run w =
     (let (now, q1) = take_now (get w);
          (expired, q2) = getExpired now (q1\<lparr>armed := None\<rparr>)
      in bind_result (call_sequence (run_timer get run) expired (upd (\<lambda>_. q2) w)) (\<lambda>w1.
         bind_result (reset expired (get w1)) (\<lambda>q3. Inr (upd (\<lambda>_. q3) w1))))"

text \<open>
  The constructor and the destructor, over the state \<open>s\<close> of the poller of the loop: \<open>fd\<close> is
  the new timerfd, \<open>c\<close> the address of its channel. The destructor deletes the timers of the
  set.
\<close>

definition TimerQueue ::
    "int \<Rightarrow> nat \<Rightarrow> (nat \<Rightarrow> TimeStamp) \<Rightarrow> 's poll_state_scheme
       \<Rightarrow> (timer_queue \<times> 's poll_state_scheme) result" where
  "TimerQueue fd c clk s =
     bind_result (enableReading c (put_channel c (Channel fd) s)) (\<lambda>s'.
       Inr (\<lparr>timers = [], timer_heap = Map.empty, armed = None, armed_at = TimeStamp_default,
             clock = clk, ticks = 0\<rparr>, s'))"

definition TimerQueue_destroy ::
    "nat \<Rightarrow> timer_queue \<Rightarrow> 'f eventloop \<Rightarrow> (timer_queue \<times> 'f eventloop) result" where
  "TimerQueue_destroy tid q l =
     bind_result (close_timerChannel tid l) (\<lambda>l'.
       Inr (q\<lparr>timer_heap := foldl (\<lambda>h e. h(snd e := None)) (timer_heap q) (timers q)\<rparr>, l'))"

subsection \<open>Sorted sets\<close>

lemma takeWhile_sorted:
  assumes "sorted xs" and "\<And>x y. P y \<Longrightarrow> x \<le> y \<Longrightarrow> P x"
  shows "takeWhile P xs = filter P xs"
    and "drop (length (takeWhile P xs)) xs = filter (\<lambda>x. \<not> P x) xs"
  using assms(1)
proof (induction xs)
  case (Cons x xs)
  {
    case 1
    have "filter P xs = []" if "\<not> P x" using 1 that assms(2) by (auto simp: filter_empty_conv)
    then show ?case using 1 Cons.IH(1) by simp
  next
    case 2
    have "filter (\<lambda>x. \<not> P x) xs = xs" if "\<not> P x" using 2 that assms(2) by (auto intro!: filter_True)
    then show ?case using 2 Cons.IH(2) by simp
  }
qed simp_all

lemma set_insert_simps [simp]:
  "set (set_insert x xs) = insert x (set xs)"
  "sorted xs \<Longrightarrow> sorted (set_insert x xs)"
  "distinct xs \<Longrightarrow> distinct (set_insert x xs)"
  by (auto simp: set_insert_def set_insort_key sorted_insort distinct_insort)

lemma set_insert_Nil [simp]: "set_insert x [] = [x]"
  by (simp add: set_insert_def)

lemma hd_set_insert:
  "sorted xs \<Longrightarrow> xs \<noteq> [] \<Longrightarrow> hd (set_insert x xs) = min x (hd xs)"
  by (cases xs) (auto simp: set_insert_def min_def)

subsection \<open>Invariant\<close>

definition timers_inv :: "timer_queue \<Rightarrow> bool" where
  "timers_inv q \<longleftrightarrow> sorted (timers q) \<and> distinct (timers q)
     \<and> (\<forall>e \<in> set (timers q). snd e < UINTPTR_MAX
          \<and> (\<exists>t. timer_heap q (snd e) = Some t \<and> expiration t = fst e))"

text \<open>The value the timerfd has to be given at \<open>now\<close> for a timer that expires at \<open>t\<close>.\<close>

definition due :: "TimeStamp \<Rightarrow> TimeStamp \<Rightarrow> int \<times> int" where
  "due now t = (let us = max 100 (microSecondsSinceEpoch t - microSecondsSinceEpoch now)
     in (us div 1000000, (us mod 1000000) * 1000))"

definition armed_ok :: "timer_queue \<Rightarrow> bool" where
  "armed_ok q \<longleftrightarrow> (timers q \<noteq> [] \<longrightarrow> armed q = Some (due (armed_at q) (fst (hd (timers q)))))"

lemma timers_invD:
  assumes "timers_inv q" and "e \<in> set (timers q)"
  obtains t where "timer_heap q (snd e) = Some t" and "expiration t = fst e" and "snd e < UINTPTR_MAX"
  using assms by (auto simp: timers_inv_def)

lemma armed_resetTimerfd:
  "armed (resetTimerfd t q) = Some (due (armed_at (resetTimerfd t q)) t)"
  "timers (resetTimerfd t q) = timers q" "timer_heap (resetTimerfd t q) = timer_heap q"
proof -
  have "us sdiv kMicroSecondsPerSecond = us div 1000000" "us smod kMicroSecondsPerSecond = us mod 1000000"
    if "0 \<le> us" for us :: int
    using that by (cases "us = 0"; simp add: kMicroSecondsPerSecond_def signed_divide_int_def
        signed_modulo_int_def)+
  then show "armed (resetTimerfd t q) = Some (due (armed_at (resetTimerfd t q)) t)"
    by (simp add: resetTimerfd_def take_now_def due_def Let_def max_def)
qed (simp_all add: resetTimerfd_def take_now_def Let_def)

lemma timers_inv_cong:
  "timers q' = timers q \<Longrightarrow> timer_heap q' = timer_heap q \<Longrightarrow> timers_inv q' = timers_inv q"
  by (simp add: timers_inv_def)

lemma getExpired_eq:
  assumes "timers_inv q"
  shows "getExpired now q = (filter (\<lambda>e. fst e \<le> now) (timers q),
    q\<lparr>timers := filter (\<lambda>e. now < fst e) (timers q)\<rparr>)"
proof -
  let ?P = "\<lambda>e. e < (now, UINTPTR_MAX)"
  have s: "sorted (timers q)" using assms by (simp add: timers_inv_def)
  note split = takeWhile_sorted[of "timers q" ?P, OF s order.strict_trans1]
  have P: "?P e \<longleftrightarrow> fst e \<le> now" if "e \<in> set (timers q)" for e
    using assms that by (cases e) (auto simp: timers_inv_def less_prod_def)
  have "filter ?P (timers q) = filter (\<lambda>e. fst e \<le> now) (timers q)"
    and "filter (\<lambda>e. \<not> ?P e) (timers q) = filter (\<lambda>e. now < fst e) (timers q)"
    using P by (auto intro!: filter_cong simp: not_le)
  then show ?thesis using split by (simp add: getExpired_def Let_def)
qed

lemma insert_timer_ok:
  assumes inv: "timers_inv q" and t: "timer_heap q p = Some t" and p: "p < UINTPTR_MAX"
  shows "\<exists>early q'. insert_timer p q = Inr (early, q') \<and> timers_inv q'
    \<and> q' = q\<lparr>timers := set_insert (expiration t, p) (timers q)\<rparr>
    \<and> early = (timers q = [] \<or> expiration t < fst (hd (timers q)))"
  using assms by (cases "timers q") (auto simp: insert_timer_def deref_timer_def timers_inv_def Let_def)

lemma addTimerInLoop_ok:
  assumes inv: "timers_inv q" and t: "timer_heap q p = Some t" and p: "p < UINTPTR_MAX"
  shows "\<exists>q'. addTimerInLoop p q = Inr q' \<and> timers_inv q' \<and> (armed_ok q \<longrightarrow> armed_ok q')
    \<and> timer_heap q' = timer_heap q \<and> set (timers q') = insert (expiration t, p) (set (timers q))"
proof -
  let ?e = "(expiration t, p)"
  let ?early = "timers q = [] \<or> expiration t < fst (hd (timers q))"
  let ?q1 = "q\<lparr>timers := set_insert ?e (timers q)\<rparr>"
  let ?q' = "if ?early then resetTimerfd (expiration t) ?q1 else ?q1"
  have ins: "insert_timer p q = Inr (?early, ?q1)" and inv1: "timers_inv ?q1"
    using insert_timer_ok[OF assms] by auto
  have s: "sorted (timers q)" using inv by (simp add: timers_inv_def)
  have "addTimerInLoop p q = Inr ?q'"
    by (simp add: addTimerInLoop_def ins deref_timer_def t)
  moreover have "timers_inv ?q'"
    using inv1 timers_inv_cong[of "resetTimerfd (expiration t) ?q1" ?q1]
    by (simp add: armed_resetTimerfd)
  moreover have "armed_ok ?q'" if ok: "armed_ok q"
  proof (cases ?early)
    case True
    then have "fst (hd (set_insert ?e (timers q))) = expiration t"
      using hd_set_insert[OF s, of ?e] by (cases "timers q") (auto simp: min_def less_eq_prod_def)
    then show ?thesis using True by (simp add: armed_ok_def armed_resetTimerfd)
  next
    case False
    then have "fst (hd (set_insert ?e (timers q))) = fst (hd (timers q))"
      using hd_set_insert[OF s, of ?e] by (auto simp: min_def less_eq_prod_def)
    then show ?thesis using False ok by (simp add: armed_ok_def)
  qed
  moreover have "timer_heap ?q' = timer_heap q" "set (timers ?q') = insert ?e (set (timers q))"
    by (simp_all add: armed_resetTimerfd)
  ultimately show ?thesis by blast
qed

subsection \<open>Expiry\<close>

text \<open>The timers that have been taken out of the set and are to be reset.\<close>

definition taken_out :: "(TimeStamp \<times> nat) list \<Rightarrow> timer_queue \<Rightarrow> bool" where
  "taken_out expired q \<longleftrightarrow> distinct (map snd expired)
     \<and> (\<forall>e \<in> set expired. snd e < UINTPTR_MAX \<and> timer_heap q (snd e) \<noteq> None
          \<and> snd e \<notin> snd ` set (timers q))"

lemma reset_one_ok:
  assumes inv: "timers_inv q" and e: "snd e < UINTPTR_MAX" "timer_heap q (snd e) = Some t"
      "snd e \<notin> snd ` set (timers q)"
  shows "\<exists>q'. reset_one e q = Inr q' \<and> timers_inv q' \<and> set (timers q) \<subseteq> set (timers q')
    \<and> (\<forall>p. p \<noteq> snd e \<longrightarrow> timer_heap q' p = timer_heap q p)
    \<and> snd ` set (timers q') \<subseteq> insert (snd e) (snd ` set (timers q))
    \<and> (if repeats t then timer_heap q' (snd e) = Some (restart (clock q (ticks q)) t)
         \<and> (addTime (clock q (ticks q)) (interval t), snd e) \<in> set (timers q')
       else timer_heap q' (snd e) = None \<and> timers q' = timers q)"
proof -
  have other: "timers_inv (q\<lparr>ticks := n, timer_heap := (timer_heap q)(snd e := x)\<rparr>)"
    "timers_inv (q\<lparr>timer_heap := (timer_heap q)(snd e := x)\<rparr>)" for x n
    using inv e(3) unfolding timers_inv_def by (fastforce simp: image_iff)+
  show ?thesis
  proof (cases "repeats t")
    case True
    let ?t = "restart (clock q (ticks q)) t"
    let ?q1 = "q\<lparr>ticks := Suc (ticks q), timer_heap := (timer_heap q)(snd e \<mapsto> ?t)\<rparr>"
    let ?q2 = "?q1\<lparr>timers := set_insert (expiration ?t, snd e) (timers ?q1)\<rparr>"
    obtain early where ins: "insert_timer (snd e) ?q1 = Inr (early, ?q2)" "timers_inv ?q2"
      using insert_timer_ok[OF other(1)[where x = "Some ?t" and n = "Suc (ticks q)"], of "snd e" ?t] e(1) by auto
    have "reset_one e q = Inr ?q2"
      using True e(2) ins(1) by (simp add: reset_one_def deref_timer_def take_now_def)
    then show ?thesis using True ins(2) by (auto simp: restart_def)
  next
    case False
    then have "reset_one e q = Inr (q\<lparr>timer_heap := (timer_heap q)(snd e := None)\<rparr>)"
      using e(2) by (simp add: reset_one_def deref_timer_def)
    then show ?thesis using False other(2)[of None] by (simp add: subset_insertI)
  qed
qed

text \<open>What becomes of the expired timer at \<open>e\<close> between the states \<open>q\<close> and \<open>q'\<close>.\<close>

definition reset_done :: "timer_queue \<Rightarrow> timer_queue \<Rightarrow> TimeStamp \<times> nat \<Rightarrow> bool" where
  "reset_done q q' e \<longleftrightarrow> (case timer_heap q (snd e) of None \<Rightarrow> False
     | Some t \<Rightarrow> if repeats t
         then \<exists>n. timer_heap q' (snd e) = Some (restart (clock q n) t)
              \<and> (addTime (clock q n) (interval t), snd e) \<in> set (timers q')
         else timer_heap q' (snd e) = None \<and> snd e \<notin> snd ` set (timers q'))"

lemma reset_one_clock: "reset_one e q = Inr q' \<Longrightarrow> clock q' = clock q"
  by (auto simp: reset_one_def insert_timer_def take_now_def Let_def split: if_splits)

lemma reset_all_ok:
  "timers_inv q \<Longrightarrow> taken_out expired q \<Longrightarrow>
   \<exists>q'. call_sequence reset_one expired q = Inr q' \<and> timers_inv q' \<and> clock q' = clock q
     \<and> set (timers q) \<subseteq> set (timers q')
     \<and> (\<forall>p. p \<notin> snd ` set expired \<longrightarrow> timer_heap q' p = timer_heap q p)
     \<and> snd ` set (timers q') \<subseteq> snd ` set expired \<union> snd ` set (timers q)
     \<and> (\<forall>e \<in> set expired. reset_done q q' e)"
proof (induction expired arbitrary: q)
  case Nil
  then show ?case by simp
next
  case (Cons e es)
  from Cons.prems(2) obtain t where e: "snd e < UINTPTR_MAX" "timer_heap q (snd e) = Some t"
      "snd e \<notin> snd ` set (timers q)" and dist: "snd e \<notin> snd ` set es" "distinct (map snd es)"
    by (auto simp: taken_out_def)
  obtain q1 where q1: "reset_one e q = Inr q1" "timers_inv q1" "set (timers q) \<subseteq> set (timers q1)"
      "\<forall>p. p \<noteq> snd e \<longrightarrow> timer_heap q1 p = timer_heap q p"
      "snd ` set (timers q1) \<subseteq> insert (snd e) (snd ` set (timers q))"
      "if repeats t then timer_heap q1 (snd e) = Some (restart (clock q (ticks q)) t)
         \<and> (addTime (clock q (ticks q)) (interval t), snd e) \<in> set (timers q1)
       else timer_heap q1 (snd e) = None \<and> timers q1 = timers q"
    using reset_one_ok[OF Cons.prems(1) e] by blast
  have fresh: "snd x \<noteq> snd e" if "x \<in> set es" for x
    using dist(1) that by (metis image_eqI)
  have "taken_out es q1"
    unfolding taken_out_def
  proof (intro conjI ballI)
    fix x assume x: "x \<in> set es"
    then have old: "snd x < UINTPTR_MAX" "timer_heap q (snd x) \<noteq> None" "snd x \<notin> snd ` set (timers q)"
      using Cons.prems(2) by (simp_all add: taken_out_def)
    then show "snd x < UINTPTR_MAX" "timer_heap q1 (snd x) \<noteq> None"
      using q1(4) fresh[OF x] by simp_all
    show "snd x \<notin> snd ` set (timers q1)" using q1(5) old(3) fresh[OF x] by blast
  qed (rule dist(2))
  from Cons.IH[OF q1(2) this] obtain q' where q': "call_sequence reset_one es q1 = Inr q'"
      "timers_inv q'" "clock q' = clock q1" "set (timers q1) \<subseteq> set (timers q')"
      "\<forall>p. p \<notin> snd ` set es \<longrightarrow> timer_heap q' p = timer_heap q1 p"
      "snd ` set (timers q') \<subseteq> snd ` set es \<union> snd ` set (timers q1)"
      "\<forall>x \<in> set es. reset_done q1 q' x" by blast
  have clk: "clock q1 = clock q" using q1(1) by (rule reset_one_clock)
  have "reset_done q q' e"
  proof (cases "repeats t")
    case True
    then show ?thesis using q1(6) q'(4,5) dist(1) e(2) by (auto simp: reset_done_def)
  next
    case False
    then have "snd e \<notin> snd ` set (timers q')" using q1(6) q'(6) dist(1) e(3) by auto
    then show ?thesis using False q1(6) q'(5) dist(1) e(2) by (auto simp: reset_done_def)
  qed
  moreover have "reset_done q q' x" if x: "x \<in> set es" for x
  proof -
    have "timer_heap q1 (snd x) = timer_heap q (snd x)" using q1(4) fresh[OF x] by simp
    moreover have "reset_done q1 q' x" using q'(7) x by blast
    ultimately show ?thesis by (simp only: reset_done_def clk)
  qed
  moreover have "snd ` set (timers q') \<subseteq> snd ` set (e # es) \<union> snd ` set (timers q)"
    using q1(5) q'(6) by (simp, blast)
  moreover have "timer_heap q' p = timer_heap q p" if "p \<notin> snd ` set (e # es)" for p
    using q1(4) q'(5) that by simp
  ultimately have "\<forall>x \<in> set (e # es). reset_done q q' x"
      "snd ` set (timers q') \<subseteq> snd ` set (e # es) \<union> snd ` set (timers q)"
      "\<forall>p. p \<notin> snd ` set (e # es) \<longrightarrow> timer_heap q' p = timer_heap q p" by simp_all
  moreover have "set (timers q) \<subseteq> set (timers q')" using q1(3) q'(4) by (rule subset_trans)
  ultimately show ?case using q1(1) q'(1,2,3) clk by (intro exI[of _ q']) simp
qed

lemma reset_ok:
  assumes "timers_inv q" and "taken_out expired q"
  shows "\<exists>q'. reset expired q = Inr q' \<and> timers_inv q' \<and> armed_ok q' \<and> clock q' = clock q
     \<and> set (timers q) \<subseteq> set (timers q') \<and> (\<forall>e \<in> set expired. reset_done q q' e)
     \<and> (\<forall>p. p \<notin> snd ` set expired \<longrightarrow> timer_heap q' p = timer_heap q p)"
proof -
  obtain q1 where q1: "call_sequence reset_one expired q = Inr q1" "timers_inv q1" "clock q1 = clock q"
      "set (timers q) \<subseteq> set (timers q1)" "\<forall>e \<in> set expired. reset_done q q1 e"
      "\<forall>p. p \<notin> snd ` set expired \<longrightarrow> timer_heap q1 p = timer_heap q p"
    using reset_all_ok[OF assms] by blast
  show ?thesis
  proof (cases "timers q1")
    case Nil
    then show ?thesis using q1 by (simp add: reset_def armed_ok_def)
  next
    case (Cons e es)
    then obtain t where t: "timer_heap q1 (snd e) = Some t" "expiration t = fst e"
      using timers_invD[OF q1(2), of e] by auto
    let ?q' = "resetTimerfd (expiration t) q1"
    note same = armed_resetTimerfd[of "expiration t" q1]
    have "reset expired q = Inr ?q'" using q1(1) Cons t(1) by (simp add: reset_def deref_timer_def)
    moreover have "timers_inv ?q'" using q1(2) timers_inv_cong[of ?q' q1] same(2,3) by simp
    moreover have "armed_ok ?q'" using same Cons t(2) by (simp add: armed_ok_def)
    moreover have "clock ?q' = clock q" using q1(3) by (simp add: resetTimerfd_def take_now_def Let_def)
    moreover have "reset_done q ?q' e" if "e \<in> set expired" for e
      using q1(5) that by (simp add: reset_done_def same cong: option.case_cong if_cong)
    ultimately show ?thesis using q1(4,6) same(2,3) by simp
  qed
qed

subsection \<open>The program around the queue\<close>

text \<open>
  What a timer callback may do to the queue: add timers at fresh addresses, as calls of
  \<open>addTimer\<close> in the loop thread do.
\<close>

definition adds_timers :: "timer_queue \<Rightarrow> timer_queue \<Rightarrow> bool" where
  "adds_timers q q' \<longleftrightarrow> timers_inv q'
     \<and> (\<forall>p t. timer_heap q p = Some t \<longrightarrow> timer_heap q' p = Some t)
     \<and> set (timers q) \<subseteq> set (timers q')
     \<and> (\<forall>e \<in> set (timers q') - set (timers q). timer_heap q (snd e) = None)"

lemma adds_timers_refl: "timers_inv q \<Longrightarrow> adds_timers q q"
  by (simp add: adds_timers_def)

lemma adds_timers_trans: "adds_timers q q1 \<Longrightarrow> adds_timers q1 q2 \<Longrightarrow> adds_timers q q2"
  unfolding adds_timers_def by (metis DiffD1 DiffD2 DiffI not_Some_eq subset_trans)

text \<open>
  The queue when the callbacks of the expired timers are called, and these callbacks.
\<close>

definition before_callbacks :: "timer_queue \<Rightarrow> timer_queue" where
  "before_callbacks q = q\<lparr>ticks := Suc (ticks q), armed := None,
     timers := filter (\<lambda>e. clock q (ticks q) < fst e) (timers q)\<rparr>"

definition callbacks_of :: "timer_queue \<Rightarrow> (TimeStamp \<times> nat) list \<Rightarrow> nat list" where
  "callbacks_of q es = map (\<lambda>e. callback_id (the (timer_heap q (snd e)))) es"

lemma before_callbacks_inv: "timers_inv q \<Longrightarrow> timers_inv (before_callbacks q)"
  by (simp add: timers_inv_def before_callbacks_def sorted_wrt_filter)

lemma timers_distinct_addresses:
  assumes "timers_inv q"
  shows "inj_on snd (set (timers q))"
  using assms by (intro inj_onI) (metis (no_types, lifting) option.inject prod_eqI timers_inv_def)

lemma expired_taken_out:
  assumes inv: "timers_inv q" and now: "now = clock q (ticks q)"
    and expired: "expired = filter (\<lambda>e. fst e \<le> now) (timers q)"
    and adds: "adds_timers (before_callbacks q) q1"
  shows "taken_out expired q1"
  unfolding taken_out_def
proof (intro conjI ballI)
  note inj = timers_distinct_addresses[OF inv]
  show "distinct (map snd expired)"
    using inv inj by (auto simp: expired distinct_map timers_inv_def intro: inj_on_subset)
  fix e assume e: "e \<in> set expired"
  then obtain t where t: "timer_heap q (snd e) = Some t" "snd e < UINTPTR_MAX"
    using inv by (auto simp: expired timers_inv_def)
  then show "snd e < UINTPTR_MAX" "timer_heap q1 (snd e) \<noteq> None"
    using adds by (auto simp: adds_timers_def before_callbacks_def)
  have "timer_heap q (snd x) = None"
    if "x \<in> set (timers q1) - set (timers (before_callbacks q))" for x
    using adds that by (auto simp: adds_timers_def before_callbacks_def)
  moreover have "snd x \<noteq> snd e" if "x \<in> set (timers (before_callbacks q))" for x
    using that e inj_onD[OF inj, of x e] by (auto simp: before_callbacks_def expired now)
  ultimately show "snd e \<notin> snd ` set (timers q1)" using t(1) by fastforce
qed

locale timer_host =
  fixes get :: "'w \<Rightarrow> timer_queue"
    and upd :: "(timer_queue \<Rightarrow> timer_queue) \<Rightarrow> 'w \<Rightarrow> 'w"
    and run :: "nat \<Rightarrow> 'w \<Rightarrow> 'w result"
  assumes get_upd: "get (upd g w) = g (get w)"
    and run_adds: "timers_inv (get w) \<Longrightarrow> run c w = Inr w' \<Longrightarrow> adds_timers (get w) (get w')"
begin

lemma run_all:
  "timers_inv (get w) \<Longrightarrow> \<forall>e \<in> set es. \<exists>t. timer_heap (get w) (snd e) = Some t \<and> callback_id t = cb e \<Longrightarrow>
   call_sequence (run_timer get run) es w = call_sequence run (map cb es) w
     \<and> (\<forall>w'. call_sequence run (map cb es) w = Inr w' \<longrightarrow> adds_timers (get w) (get w'))"
proof (induction es arbitrary: w)
  case Nil
  then show ?case by (simp add: adds_timers_refl)
next
  case (Cons e es)
  from Cons.prems(2) obtain t where t: "timer_heap (get w) (snd e) = Some t" "callback_id t = cb e"
    by auto
  then have one: "run_timer get run e w = run (cb e) w" by (simp add: run_timer_def deref_timer_def)
  show ?case
  proof (cases "run (cb e) w")
    case (Inl f)
    then show ?thesis using one by simp
  next
    case (Inr w1)
    have a: "adds_timers (get w) (get w1)" using run_adds Cons.prems(1) Inr .
    have "timers_inv (get w1)" using a by (simp add: adds_timers_def)
    moreover have "\<forall>e \<in> set es. \<exists>t. timer_heap (get w1) (snd e) = Some t \<and> callback_id t = cb e"
      using Cons.prems(2) a by (fastforce simp: adds_timers_def)
    ultimately show ?thesis using Cons.IH one Inr adds_timers_trans[OF a] by auto
  qed
qed

text \<open>
  \<open>handleRead\<close> at the time \<open>now\<close>: first the callbacks of the expired timers, on the state
  \<open>before_callbacks\<close>, then \<open>reset\<close>.
\<close>

lemma timer_event_eq:
  assumes inv: "timers_inv (get w)" and now: "now = clock (get w) (ticks (get w))"
    and expired: "expired = filter (\<lambda>e. fst e \<le> now) (timers (get w))"
  shows "timer_handleRead get upd run w
      = bind_result (call_sequence run (callbacks_of (get w) expired) (upd (\<lambda>_. before_callbacks (get w)) w))
          (\<lambda>w1. bind_result (reset expired (get w1)) (\<lambda>q3. Inr (upd (\<lambda>_. q3) w1)))"
    and "call_sequence run (callbacks_of (get w) expired) (upd (\<lambda>_. before_callbacks (get w)) w) = Inr w1
      \<Longrightarrow> adds_timers (before_callbacks (get w)) (get w1)"
proof -
  let ?q = "get w" and ?w0 = "upd (\<lambda>_. before_callbacks (get w)) w"
  have ge: "getExpired now (?q\<lparr>ticks := Suc (ticks ?q), armed := None\<rparr>) = (expired, before_callbacks ?q)"
    using getExpired_eq[of "?q\<lparr>ticks := Suc (ticks ?q), armed := None\<rparr>" now] inv
      timers_inv_cong[of "?q\<lparr>ticks := Suc (ticks ?q), armed := None\<rparr>" ?q]
    by (simp add: expired before_callbacks_def now)
  have "\<forall>e \<in> set expired. \<exists>t. timer_heap (get ?w0) (snd e) = Some t
      \<and> callback_id t = callback_id (the (timer_heap ?q (snd e)))"
    using inv by (fastforce simp: get_upd expired before_callbacks_def timers_inv_def)
  from run_all[OF _ this] before_callbacks_inv[OF inv]
  have run: "call_sequence (run_timer get run) expired ?w0 = call_sequence run (callbacks_of ?q expired) ?w0"
    and adds: "\<forall>w'. call_sequence run (callbacks_of ?q expired) ?w0 = Inr w'
      \<longrightarrow> adds_timers (before_callbacks ?q) (get w')"
    by (simp_all add: get_upd callbacks_of_def)
  show "timer_handleRead get upd run w
      = bind_result (call_sequence run (callbacks_of ?q expired) ?w0)
          (\<lambda>w1. bind_result (reset expired (get w1)) (\<lambda>q3. Inr (upd (\<lambda>_. q3) w1)))"
    by (simp add: timer_handleRead_def take_now_def Let_def now[symmetric] ge run)
  show "call_sequence run (callbacks_of ?q expired) ?w0 = Inr w1
      \<Longrightarrow> adds_timers (before_callbacks ?q) (get w1)"
    using adds by blast
qed

lemma timer_event_ok:
  assumes inv: "timers_inv (get w)" and now: "now = clock (get w) (ticks (get w))"
    and expired: "expired = filter (\<lambda>e. fst e \<le> now) (timers (get w))"
    and run: "call_sequence run (callbacks_of (get w) expired) (upd (\<lambda>_. before_callbacks (get w)) w) = Inr w1"
  shows "\<exists>w'. timer_handleRead get upd run w = Inr w' \<and> timers_inv (get w') \<and> armed_ok (get w')
    \<and> (\<forall>e \<in> set expired. timer_heap (get w1) (snd e) = timer_heap (get w) (snd e)
          \<and> reset_done (get w1) (get w') e)
    \<and> (\<forall>e \<in> set (timers (get w)). now < fst e \<longrightarrow> e \<in> set (timers (get w')))"
proof -
  note adds = timer_event_eq(2)[OF inv now expired run]
  have inv1: "timers_inv (get w1)" using adds by (simp add: adds_timers_def)
  have out: "taken_out expired (get w1)" using expired_taken_out[OF inv now expired adds] .
  obtain q' where q': "reset expired (get w1) = Inr q'" "timers_inv q'" "armed_ok q'"
      "set (timers (get w1)) \<subseteq> set (timers q')" "\<forall>e \<in> set expired. reset_done (get w1) q' e"
    using reset_ok[OF inv1 out] by blast
  have "timer_handleRead get upd run w = Inr (upd (\<lambda>_. q') w1)"
    using timer_event_eq(1)[OF inv now expired] run q'(1) by simp
  moreover have "timer_heap (get w1) (snd e) = timer_heap (get w) (snd e)" if "e \<in> set expired" for e
    using adds that inv by (fastforce simp: adds_timers_def before_callbacks_def expired timers_inv_def)
  moreover have "e \<in> set (timers q')" if "e \<in> set (timers (get w))" "now < fst e" for e
    using adds that q'(4) by (auto simp: adds_timers_def before_callbacks_def now)
  ultimately show ?thesis using q' by (simp add: get_upd)
qed

end

subsection \<open>Callbacks that add timers\<close>

text \<open>
  A callback that allocates timers and adds them in the loop thread: \<open>script c\<close> lists the
  addresses and the timers that callback \<open>c\<close> adds. An address in use is not a result of
  \<open>new\<close>, so such a script describes no run.
\<close>

definition add_new_timer :: "nat \<times> timer \<Rightarrow> timer_queue \<Rightarrow> timer_queue result" where
  "add_new_timer pt q =
     bind_result (check (timer_heap q (fst pt) = None \<and> fst pt < UINTPTR_MAX)) (\<lambda>_.
       addTimerInLoop (fst pt) (q\<lparr>timer_heap := (timer_heap q)(fst pt \<mapsto> snd pt)\<rparr>))"

definition run_script ::
    "(nat \<Rightarrow> (nat \<times> timer) list) \<Rightarrow> nat \<Rightarrow> timer_queue \<Rightarrow> timer_queue result" where
  "run_script script c q = call_sequence add_new_timer (script c) q"

lemma adds_timers_new:
  assumes inv: "timers_inv q" and run: "add_new_timer pt q = Inr q'"
  shows "adds_timers q q'"
proof -
  obtain p t where pt: "pt = (p, t)" by (cases pt)
  let ?q1 = "q\<lparr>timer_heap := (timer_heap q)(p \<mapsto> t)\<rparr>"
  from run have fresh: "timer_heap q p = None" "p < UINTPTR_MAX" and add: "addTimerInLoop p ?q1 = Inr q'"
    by (auto simp: add_new_timer_def pt check_def split: if_splits)
  have "timers_inv ?q1" using inv fresh(1) unfolding timers_inv_def by fastforce
  from addTimerInLoop_ok[OF this, of p t] fresh(2) add
  have q': "timers_inv q'" "timer_heap q' = (timer_heap q)(p \<mapsto> t)"
    "set (timers q') = insert (expiration t, p) (set (timers q))" by auto
  show ?thesis
    unfolding adds_timers_def q'(2,3) using q'(1) fresh(1) by auto
qed

lemma adds_timers_script:
  "timers_inv q \<Longrightarrow> call_sequence add_new_timer pts q = Inr q' \<Longrightarrow> adds_timers q q'"
proof (induction pts arbitrary: q)
  case Nil
  then show ?case by (simp add: adds_timers_refl)
next
  case (Cons pt pts)
  then obtain q1 where q1: "add_new_timer pt q = Inr q1" "call_sequence add_new_timer pts q1 = Inr q'"
    by auto
  have a: "adds_timers q q1" using adds_timers_new Cons.prems(1) q1(1) .
  then have "timers_inv q1" by (simp add: adds_timers_def)
  then show ?case using adds_timers_trans[OF a] Cons.IH q1(2) by blast
qed

interpretation script_timers: timer_host "\<lambda>q. q" "\<lambda>g q. g q" "run_script script" for script
  by unfold_locales (simp_all add: run_script_def adds_timers_script)

subsection \<open>Opening and closing\<close>

lemma TimerQueue_ok:
  assumes "wf_poller s" and "heap s c = None" and "registry s fd = None"
  shows "\<exists>q s'. TimerQueue fd c clk s = Inr (q, s') \<and> timers_inv q \<and> armed_ok q \<and> wf_poller s'
    \<and> interest s' = (interest s)(fd \<mapsto> (kReadEvent, c))"
  using open_channel[OF assms] by (auto simp: TimerQueue_def timers_inv_def armed_ok_def)

lemma foldl_delete:
  "foldl (\<lambda>h e. h(snd e := None)) h es p = (if p \<in> snd ` set es then None else h p)"
  by (induction es arbitrary: h) auto

lemma TimerQueue_destroy_ok:
  fixes l :: "'f eventloop"
  assumes "wf_poller l" and "heap l (timerChannel l) = Some ch" and "fd_free (timerChannel l) ch l"
  shows "\<exists>q' l'. TimerQueue_destroy tid q l = Inr (q', l') \<and> wf_poller l'
    \<and> heap l' (timerChannel l) = None \<and> interest l' (chan_fd ch) = None \<and> registry l' (chan_fd ch) = None
    \<and> (\<forall>e \<in> set (timers q). timer_heap q' (snd e) = None)
    \<and> (\<forall>p. p \<notin> snd ` set (timers q) \<longrightarrow> timer_heap q' p = timer_heap q p)"
  using close_timerChannel_ok[OF assms, of tid] by (auto simp: TimerQueue_destroy_def foldl_delete)

subsection \<open>Properties\<close>

text \<open>A queue with a timer that repeats every two seconds, one for later and one at the same time.\<close>

definition sample_queue :: timer_queue where
  "sample_queue = \<lparr>timers = [(TimeStamp 10, 1), (TimeStamp 10, 2), (TimeStamp 99, 3)],
     timer_heap = [1 \<mapsto> Timer 7 (TimeStamp 10) 2, 2 \<mapsto> Timer 8 (TimeStamp 10) 0,
                   3 \<mapsto> Timer 9 (TimeStamp 99) 0],
     armed = Some (0, 100000), armed_at = TimeStamp 0, clock = (\<lambda>n. TimeStamp 10), ticks = 0\<rparr>"

lemma sample_queue_inv: "timers_inv sample_queue"
  by (simp add: timers_inv_def sample_queue_def Timer_def UINTPTR_MAX_def less_eq_prod_def)

text \<open>\<open>getExpired\<close> takes exactly the timers that are due, in the order of their times,
  and leaves the others. A timer whose time equals \<open>now\<close> is due, since the sentry compares
  greater than every entry with that time.\<close>

theorem expired_timers_are_due:
  assumes "timers_inv q"
  shows "getExpired now q = (filter (\<lambda>e. fst e \<le> now) (timers q),
    q\<lparr>timers := filter (\<lambda>e. now < fst e) (timers q)\<rparr>)"
  using assms by (rule getExpired_eq)

theorem expired_timers_are_due_witness:
  "map snd (fst (getExpired (TimeStamp 10) sample_queue)) = [1, 2]"
  by (simp add: expired_timers_are_due[OF sample_queue_inv]) (simp add: sample_queue_def)

text \<open>C18: a timer event runs the callback of every due timer exactly once, in the order of
  the times, whatever timers the callbacks add, and fails only if a callback does. A timer
  that repeats is in the set again, at a reading of the clock plus its interval; any other is
  freed and gone. No timer that is not due is lost.\<close>

theorem timer_event_runs_due_timers:
  assumes host: "timer_host get upd run" and inv: "timers_inv (get w)"
    and now: "now = clock (get w) (ticks (get w))"
    and expired: "expired = filter (\<lambda>e. fst e \<le> now) (timers (get w))"
  shows "case call_sequence run (callbacks_of (get w) expired) (upd (\<lambda>_. before_callbacks (get w)) w) of
      Inl e \<Rightarrow> timer_handleRead get upd run w = Inl e
    | Inr w1 \<Rightarrow> \<exists>w'. timer_handleRead get upd run w = Inr w' \<and> timers_inv (get w')
        \<and> (\<forall>e \<in> set expired. timer_heap (get w1) (snd e) = timer_heap (get w) (snd e)
              \<and> reset_done (get w1) (get w') e)
        \<and> (\<forall>e \<in> set (timers (get w)). now < fst e \<longrightarrow> e \<in> set (timers (get w')))"
  using timer_host.timer_event_eq(1)[OF host inv now expired]
    timer_host.timer_event_ok[OF host inv now expired]
  by (cases "call_sequence run (callbacks_of (get w) expired) (upd (\<lambda>_. before_callbacks (get w)) w)")
    auto

lemma sample_queue_event:
  "call_sequence (run_script (\<lambda>c. []))
     (callbacks_of sample_queue (filter (\<lambda>e. fst e \<le> TimeStamp 10) (timers sample_queue)))
     (before_callbacks sample_queue) = Inr (before_callbacks sample_queue)"
  "TimeStamp 10 = clock sample_queue (ticks sample_queue)"
  by (simp_all add: callbacks_of_def run_script_def sample_queue_def)

theorem timer_event_runs_due_timers_witness:
  "\<exists>q'. timer_handleRead (\<lambda>q. q) (\<lambda>g q. g q) (run_script (\<lambda>c. [])) sample_queue = Inr q'
     \<and> (TimeStamp 99, 3) \<in> set (timers q') \<and> timer_heap q' 2 = None \<and> timers_inv q'"
proof -
  have "(TimeStamp 10, 2) \<in> set (filter (\<lambda>e. fst e \<le> TimeStamp 10) (timers sample_queue))"
    "timer_heap (before_callbacks sample_queue) 2 = Some (Timer 8 (TimeStamp 10) 0)"
    "(TimeStamp 99, 3) \<in> set (timers sample_queue)"
    by (simp_all add: sample_queue_def before_callbacks_def)
  then show ?thesis
    using timer_event_runs_due_timers[OF script_timers.timer_host_axioms sample_queue_inv
        sample_queue_event(2) refl, of "\<lambda>c. []"] sample_queue_event(1)
    by (fastforce simp: reset_done_def Timer_def)
qed

text \<open>The timerfd never sleeps past the earliest timer. After a timer is added and after
  a timer event, if there is a timer, the timerfd is armed for the time that was left until
  the first one when it was armed, or for 100 microseconds if that is more.\<close>

theorem timerfd_is_armed:
  assumes "timers_inv q" and "timer_heap q p = Some t" and "p < UINTPTR_MAX" and "armed_ok q"
    and host: "timer_host get upd run" and inv: "timers_inv (get w)"
    and event: "timer_handleRead get upd run w = Inr w'"
  shows "(\<exists>q'. addTimerInLoop p q = Inr q' \<and> timers_inv q' \<and> armed_ok q'
           \<and> set (timers q') = insert (expiration t, p) (set (timers q)))
    \<and> armed_ok (get w')"
proof -
  obtain w1 where "call_sequence run (callbacks_of (get w)
      (filter (\<lambda>e. fst e \<le> clock (get w) (ticks (get w))) (timers (get w))))
      (upd (\<lambda>_. before_callbacks (get w)) w) = Inr w1"
    using event unfolding timer_host.timer_event_eq(1)[OF host inv refl refl] by auto
  from timer_host.timer_event_ok[OF host inv refl refl this] event have "armed_ok (get w')" by auto
  then show ?thesis using addTimerInLoop_ok[OF assms(1-3)] assms(4) by blast
qed

theorem timerfd_is_armed_witness:
  "\<exists>q'. timer_handleRead (\<lambda>q. q) (\<lambda>g q. g q) (run_script (\<lambda>c. [])) sample_queue = Inr q'
     \<and> armed_ok q' \<and> (\<exists>q''. addTimerInLoop 3 sample_queue = Inr q'' \<and> armed_ok q'')"
proof -
  obtain q' where q': "timer_handleRead (\<lambda>q. q) (\<lambda>g q. g q) (run_script (\<lambda>c. [])) sample_queue = Inr q'"
    using script_timers.timer_event_ok[OF sample_queue_inv sample_queue_event(2) refl] sample_queue_event(1)
    by blast
  have "timer_heap sample_queue 3 = Some (Timer 9 (TimeStamp 99) 0)" "armed_ok sample_queue"
    by (simp_all add: sample_queue_def armed_ok_def due_def)
  from timerfd_is_armed[OF sample_queue_inv this(1) _ this(2) script_timers.timer_host_axioms
      sample_queue_inv q'] q'
  show ?thesis by (auto simp: UINTPTR_MAX_def)
qed

end
