(* ===== verification/Net_TcpServer.thy ===== *)
theory Net_TcpServer
  imports Conn_Lifecycle Loop_Threads Timer_Queue
begin

section \<open>The server (src/net/TcpServer.*, src/net/Acceptor.*, src/net/Socket.cpp)\<close>

text \<open>
  A \<open>TcpServer\<close> owns an acceptor, a pool of loops and the map of its connections by name.
  Its state extends the \<open>world\<close> of the connections: the members of the server and of its
  acceptor, the next free address for objects the code allocates, and what the kernel
  answers to \<open>accept4\<close> and \<open>getsockname\<close>. \<open>exec_functor\<close> runs a functor that some thread
  has queued, \<open>handle_channel\<close> is \<open>handleEvent\<close> of the channel at an address; with them,
  \<open>server_loop\<close> is the loop of \<open>Net_EventLoop\<close> on this state.
\<close>

datatype accept_answer = AcceptOk int sockaddr_in | AcceptErr nat

record server_world = world +
  srv_loop :: nat                                     \<comment> \<open>\<open>loop_\<close>\<close>
  ipPort :: "char list"                               \<comment> \<open>\<open>ipPort_\<close>\<close>
  srv_name :: "char list"                             \<comment> \<open>\<open>name_\<close>\<close>
  threadPool :: loop_pool                             \<comment> \<open>\<open>threadPool_\<close>\<close>
  srv_started :: int                                  \<comment> \<open>\<open>started_\<close>\<close>
  nextConnId :: int                                   \<comment> \<open>\<open>nextConnId_\<close>\<close>
  connections :: "char list \<Rightarrow> nat option"            \<comment> \<open>\<open>connections_\<close>\<close>
  acceptSocket :: int                                 \<comment> \<open>\<open>acceptSocket_\<close>\<close>
  acceptChannel :: nat                                \<comment> \<open>\<open>acceptChannel_\<close>\<close>
  listenning :: bool                                  \<comment> \<open>\<open>listenning_\<close>\<close>
  so_reuseaddr :: bool
  so_reuseport :: bool
  bound_to :: "sockaddr_in option"
  next_address :: nat
  accept_answers :: "nat \<Rightarrow> accept_answer"
  accepts_done :: nat
  socket_names :: "int \<Rightarrow> sockaddr_in option"
  closed_fds :: "int list"
  srv_timers :: "nat \<Rightarrow> timer_queue"                  \<comment> \<open>\<open>timerQueue_\<close> of each loop\<close>

record 'w server_callbacks =
  srv_connection :: "(nat \<Rightarrow> 'w \<Rightarrow> 'w result) option"
  srv_message :: "(nat \<Rightarrow> TimeStamp \<Rightarrow> 'w \<Rightarrow> 'w result) option"
  srv_writeComplete :: "(nat \<Rightarrow> 'w \<Rightarrow> 'w result) option"
  srv_threadInit :: "(nat \<Rightarrow> 'w \<Rightarrow> 'w result) option"
  srv_user :: "nat \<Rightarrow> 'w \<Rightarrow> 'w result"
  srv_timer :: "nat \<Rightarrow> 'w \<Rightarrow> 'w result"

datatype server_option = kNoReusePort | kReusePort

subsection \<open>The acceptor and its socket\<close>

definition setReuseAddr :: "bool \<Rightarrow> server_world \<Rightarrow> server_world" where
  "setReuseAddr on w = w\<lparr>so_reuseaddr := on\<rparr>"

definition setReusePort :: "bool \<Rightarrow> server_world \<Rightarrow> server_world" where
  "setReusePort on w = w\<lparr>so_reuseport := on\<rparr>"

text \<open>\<open>ok\<close> says whether \<open>::bind\<close> or \<open>::listen\<close> succeeds.\<close>

definition bindAddress :: "bool \<Rightarrow> sockaddr_in \<Rightarrow> server_world \<Rightarrow> server_world result" where
  "bindAddress ok localaddr w = (if ok then Inr (w\<lparr>bound_to := Some localaddr\<rparr>) else Inl FatalLog)"

definition socket_listen :: "bool \<Rightarrow> server_world \<Rightarrow> server_world result" where
  "socket_listen ok w = (if ok then Inr w else Inl FatalLog)"

definition socket_accept :: "server_world \<Rightarrow> accept_answer \<times> server_world" where
  "socket_accept w = (accept_answers w (accepts_done w), w\<lparr>accepts_done := Suc (accepts_done w)\<rparr>)"

definition createNonblocking :: "int \<Rightarrow> int result" where
  "createNonblocking fd = (if fd < 0 then Inl FatalLog else Inr fd)"

definition Acceptor ::
    "nat \<Rightarrow> sockaddr_in \<Rightarrow> bool \<Rightarrow> int \<Rightarrow> bool \<Rightarrow> server_world \<Rightarrow> server_world result" where
  "Acceptor l listenAddr reuseport fd bind_ok w =
     bind_result (createNonblocking fd) (\<lambda>sockfd.
       let c = next_address w;
           w1 = upd_loop l (put_channel c (Channel sockfd))
                  (w\<lparr>acceptSocket := sockfd, acceptChannel := c, next_address := c + 1,
                     listenning := False\<rparr>)
       in bindAddress bind_ok listenAddr (setReusePort True (setReuseAddr reuseport w1)))"

text \<open>An operation of the channel at \<open>c\<close> on the poller of loop \<open>l\<close>.\<close>

definition on_loop ::
    "(nat \<Rightarrow> loop_functor eventloop \<Rightarrow> loop_functor eventloop result) \<Rightarrow> nat \<Rightarrow> nat
       \<Rightarrow> server_world \<Rightarrow> server_world result" where
  "on_loop chan_op l c w =
     bind_result (chan_op c (loops w l)) (\<lambda>e. Inr (upd_loop l (\<lambda>_. e) w))"

definition Acceptor_listen :: "bool \<Rightarrow> server_world \<Rightarrow> server_world result" where
  "Acceptor_listen ok w =
     bind_result (socket_listen ok (w\<lparr>listenning := True\<rparr>)) (\<lambda>w1.
       on_loop enableReading (srv_loop w1) (acceptChannel w1) w1)"

text \<open>The destructor of a socket closes its descriptor; a connection and the acceptor own one.\<close>

definition Socket_destroy :: "int \<Rightarrow> server_world \<Rightarrow> server_world" where
  "Socket_destroy fd w = w\<lparr>closed_fds := closed_fds w @ [fd]\<rparr>"

text \<open>
  The members of a connection are destroyed in the reverse of their declarations, the channel before
  the socket. The acceptor takes its channel out of the poller itself.
\<close>

definition TcpConnection_destroy :: "nat \<Rightarrow> server_world \<Rightarrow> server_world result" where
  "TcpConnection_destroy i w =
     bind_result (on_loop (Channel_destroy (cur_thread w)) (conn_loop (conns w i)) (conn_channel (conns w i)) w)
       (\<lambda>w1. Inr (Socket_destroy (sockfd (conns w1 i)) w1))"

definition Acceptor_destroy :: "server_world \<Rightarrow> server_world result" where
  "Acceptor_destroy w =
     bind_result (on_loop disableAll (srv_loop w) (acceptChannel w) w) (\<lambda>w1.
     bind_result (on_loop channel_remove (srv_loop w1) (acceptChannel w1) w1) (\<lambda>w2.
     bind_result (on_loop (Channel_destroy (cur_thread w2)) (srv_loop w2) (acceptChannel w2) w2) (\<lambda>w3.
       Inr (Socket_destroy (acceptSocket w3) w3))))"

text \<open>
  The shared pointers to a connection: the map of the server holds one, and so does every queued
  functor that was bound to \<open>shared_from_this ()\<close> or to a pointer; \<open>sendInLoop\<close> and
  \<open>shutdownInLoop\<close> are bound to the bare \<open>this\<close>. A user's functor is taken to hold none.
  The connection is destroyed with the last of them.
\<close>

fun functor_holds :: "loop_functor \<Rightarrow> nat option" where
  "functor_holds (CallWriteComplete i) = Some i"
| "functor_holds (CallHighWaterMark i n) = Some i"
| "functor_holds (ConnectEstablished i) = Some i"
| "functor_holds (ConnectDestroyed i) = Some i"
| "functor_holds (RemoveConnectionInLoop i) = Some i"
| "functor_holds _ = None"

definition conn_shared :: "nat \<Rightarrow> server_world \<Rightarrow> bool" where
  "conn_shared i w \<longleftrightarrow> connections w (conn_name (conns w i)) = Some i
     \<or> list_ex (\<lambda>l. Some i \<in> set (map functor_holds (pendingFunctors (loops w l))))
         (srv_loop w # getAllLoops (threadPool w))"

definition release_connection :: "nat \<Rightarrow> server_world \<Rightarrow> server_world result" where
  "release_connection i w = (if conn_shared i w then Inr w else TcpConnection_destroy i w)"

definition Acceptor_handleRead ::
    "(int \<Rightarrow> sockaddr_in \<Rightarrow> server_world \<Rightarrow> server_world result) option \<Rightarrow> server_world
       \<Rightarrow> server_world result" where
  "Acceptor_handleRead newConnectionCallback w =
     (case socket_accept w of
        (AcceptOk connfd peer, w1) \<Rightarrow>
          (case newConnectionCallback of
             Some cb \<Rightarrow> cb connfd peer w1
           | None \<Rightarrow> Inr (w1\<lparr>closed_fds := closed_fds w1 @ [connfd]\<rparr>))
      | (AcceptErr e, w1) \<Rightarrow> Inr w1)"

subsection \<open>Connections of the server\<close>

definition run_on ::
    "nat \<Rightarrow> loop_functor \<Rightarrow> (server_world \<Rightarrow> server_world result) \<Rightarrow> server_world
       \<Rightarrow> server_world result" where
  "run_on l f act w = runInLoop (\<lambda>w. loops w l) (upd_loop l) (cur_thread w) f act w"

definition removeConnectionInLoop :: "nat \<Rightarrow> server_world \<Rightarrow> server_world result" where
  "removeConnectionInLoop i w =
     (let w1 = w\<lparr>connections := (connections w)(conn_name (conns w i) := None)\<rparr>
      in Inr (queue_conn i (ConnectDestroyed i) w1))"

definition removeConnection :: "nat \<Rightarrow> server_world \<Rightarrow> server_world result" where
  "removeConnection i w =
     run_on (srv_loop w) (RemoveConnectionInLoop i) (removeConnectionInLoop i) w"

text \<open>The callbacks that \<open>newConnection\<close> stores in a connection.\<close>

definition conn_cbs :: "server_world server_callbacks \<Rightarrow> server_world conn_callbacks" where
  "conn_cbs cbs = \<lparr>connectionCallback = srv_connection cbs, messageCallback = srv_message cbs,
     writeCompleteCallback = srv_writeComplete cbs, closeCallback_conn = Some removeConnection,
     highWaterMarkCallback = None\<rparr>"

definition no_address :: sockaddr_in where
  "no_address = \<lparr>sin_port = (0, 0), sin_addr = (0, 0, 0, 0)\<rparr>"

definition conn_name_buf :: "char list \<Rightarrow> int \<Rightarrow> char list" where
  "conn_name_buf ipp n = snprintf_keep 64 (CHR ''-'' # ipp @ CHR ''#'' # decimal_int n)"

definition newConnection ::
    "server_world server_callbacks \<Rightarrow> int \<Rightarrow> sockaddr_in \<Rightarrow> server_world \<Rightarrow> server_world result" where
  "newConnection cbs fd peer w =
     bind_result (getNextLoop (threadPool w)) (\<lambda>(ioLoop, pool).
     bind_result (if nextConnId w = 2 ^ 31 - 1 then Inl SignedOverflow else Inr ()) (\<lambda>_.
       let connName = srv_name w @ conn_name_buf (ipPort w) (nextConnId w);
           i = next_address w;
           w1 = w\<lparr>threadPool := pool, nextConnId := nextConnId w + 1, next_address := i + 2\<rparr>;
           local = (case socket_names w1 fd of None \<Rightarrow> no_address | Some a \<Rightarrow> a)
       in bind_result (TcpConnection (Some ioLoop) connName fd (i + 1) local peer i w1) (\<lambda>w2.
          let w3 = w2\<lparr>connections := (connections w2)(connName \<mapsto> i)\<rparr>
          in run_on ioLoop (ConnectEstablished i) (connectEstablished (conn_cbs cbs) i) w3)))"

subsection \<open>The server object\<close>

definition TcpServer ::
    "nat option \<Rightarrow> sockaddr_in \<Rightarrow> char list \<Rightarrow> server_option \<Rightarrow> int \<Rightarrow> bool \<Rightarrow> server_world
       \<Rightarrow> server_world result" where
  "TcpServer lp listenAddr nameArg opt fd bind_ok w =
     (case lp of None \<Rightarrow> Inl FatalLog
      | Some l \<Rightarrow>
          bind_result (Acceptor l listenAddr (opt = kReusePort) fd bind_ok
                         (w\<lparr>srv_loop := l, ipPort := toIpPort listenAddr, srv_name := nameArg\<rparr>))
            (\<lambda>w1. Inr (w1\<lparr>threadPool := EventLoopThreadPool l nameArg, srv_started := 0,
                          nextConnId := 1, connections := Map.empty\<rparr>)))"

definition server_setThreadNum :: "int \<Rightarrow> server_world \<Rightarrow> server_world" where
  "server_setThreadNum n w = w\<lparr>threadPool := setThreadNum n (threadPool w)\<rparr>"

definition server_start ::
    "server_world server_callbacks \<Rightarrow> (nat \<Rightarrow> nat) \<Rightarrow> bool \<Rightarrow> server_world \<Rightarrow> server_world result" where
  "server_start cbs fresh listen_ok w =
     bind_result
       (let w1 = w\<lparr>srv_started := srv_started w + 1\<rparr>
        in if srv_started w = 0
           then bind_result (start_pool (srv_threadInit cbs) fresh (threadPool w1) w1)
                  (\<lambda>(p, w2). Inr (w2\<lparr>threadPool := p\<rparr>))
           else Inr w1)
       (\<lambda>w3. if \<not> listenning w3
             then run_on (srv_loop w3) AcceptorListen (Acceptor_listen listen_ok) w3
             else Inr w3)"

text \<open>
  The destructor visits the entries of the map in an unspecified \<open>order\<close>; an entry's pointer goes
  back after the functor that \<open>connectDestroyed\<close> was bound to has run or is queued. The members are
  destroyed after the body; only the one of the acceptor changes the state of this model.
\<close>

definition destroy_connection ::
    "server_world server_callbacks \<Rightarrow> char list \<Rightarrow> server_world \<Rightarrow> server_world result" where
  "destroy_connection cbs n w =
     (case connections w n of None \<Rightarrow> Inr w
      | Some i \<Rightarrow> bind_result
          (run_conn i (ConnectDestroyed i) (connectDestroyed (conn_cbs cbs) i)
             (w\<lparr>connections := (connections w)(n := None)\<rparr>))
          (release_connection i))"

definition TcpServer_destroy ::
    "server_world server_callbacks \<Rightarrow> char list list \<Rightarrow> server_world \<Rightarrow> server_world result" where
  "TcpServer_destroy cbs order w =
     bind_result (call_sequence (destroy_connection cbs) order w) Acceptor_destroy"

subsection \<open>Timers of the loops\<close>

definition upd_timers :: "nat \<Rightarrow> (timer_queue \<Rightarrow> timer_queue) \<Rightarrow> server_world \<Rightarrow> server_world" where
  "upd_timers l g w = w\<lparr>srv_timers := (srv_timers w)(l := g (srv_timers w l))\<rparr>"

definition add_timer_in_loop :: "nat \<Rightarrow> nat \<Rightarrow> server_world \<Rightarrow> server_world result" where
  "add_timer_in_loop l p w =
     bind_result (addTimerInLoop p (srv_timers w l)) (\<lambda>q. Inr (upd_timers l (\<lambda>_. q) w))"

text \<open>\<open>runAt\<close> of loop \<open>l\<close>, called by whichever thread is running; \<open>p\<close> is the new timer.\<close>

definition server_runAt :: "nat \<Rightarrow> nat \<Rightarrow> TimeStamp \<Rightarrow> nat \<Rightarrow> server_world \<Rightarrow> server_world result" where
  "server_runAt l p time cb w =
     runAt (\<lambda>w. loops w l) (upd_loop l) (\<lambda>w. srv_timers w l) (upd_timers l) (cur_thread w) p
       (AddTimerInLoop l) time cb w"

subsection \<open>Running functors and handling events\<close>

fun exec_functor ::
    "server_world server_callbacks \<Rightarrow> bool \<Rightarrow> loop_functor \<Rightarrow> server_world \<Rightarrow> server_world result" where
  "exec_functor cbs ok (SendInLoop i msg) w = sendInLoop (conn_cbs cbs) i msg w"
| "exec_functor cbs ok (ShutdownInLoop i) w = shutdownInLoop i w"
| "exec_functor cbs ok (CallWriteComplete i) w = call_function (srv_writeComplete cbs) (\<lambda>f. f i w)"
| "exec_functor cbs ok (CallHighWaterMark i n) w =
     call_function (highWaterMarkCallback (conn_cbs cbs)) (\<lambda>f. f i n w)"
| "exec_functor cbs ok (ConnectEstablished i) w = connectEstablished (conn_cbs cbs) i w"
| "exec_functor cbs ok (ConnectDestroyed i) w = connectDestroyed (conn_cbs cbs) i w"
| "exec_functor cbs ok (RemoveConnectionInLoop i) w = removeConnectionInLoop i w"
| "exec_functor cbs ok AcceptorListen w = Acceptor_listen ok w"
| "exec_functor cbs ok (AddTimerInLoop l p) w = add_timer_in_loop l p w"
| "exec_functor cbs ok (UserFunctor n) w = srv_user cbs n w"

text \<open>
  The channel at \<open>c\<close> in loop \<open>l\<close> is the one of the wakeup descriptor, of the timerfd, of the
  acceptor, or of the connection it is tied to; \<open>alive\<close> says which connections still have an owner.
\<close>

definition handle_channel ::
    "server_world server_callbacks \<Rightarrow> (nat \<Rightarrow> bool) \<Rightarrow> nat \<Rightarrow> nat \<Rightarrow> TimeStamp \<Rightarrow> server_world
       \<Rightarrow> server_world result" where
  "handle_channel cbs alive l c t w =
     (case heap (loops w l) c of None \<Rightarrow> Inl NullPointer
      | Some ch \<Rightarrow>
          if c = wakeupChannel (loops w l)
          then handleEvent \<lparr>readCallback = Some (\<lambda>_ w. Inr (upd_loop l (snd \<circ> wakeup_handleRead) w)),
                 writeCallback = None, closeCallback = None, errorCallback = None\<rparr> alive ch t w
          else if c = timerChannel (loops w l)
          then handleEvent \<lparr>readCallback = Some (\<lambda>_. timer_handleRead (\<lambda>w. srv_timers w l) (upd_timers l)
                   (srv_timer cbs)),
                 writeCallback = None, closeCallback = None, errorCallback = None\<rparr> alive ch t w
          else if c = acceptChannel w
          then handleEvent \<lparr>readCallback = Some (\<lambda>_. Acceptor_handleRead (Some (newConnection cbs))),
                 writeCallback = None, closeCallback = None, errorCallback = None\<rparr> alive ch t w
          else case tie_obj ch of None \<Rightarrow> Inr w
               | Some i \<Rightarrow> handleEvent (conn_chan_callbacks (conn_cbs cbs) i) alive ch t w)"

definition server_loop ::
    "server_world server_callbacks \<Rightarrow> (nat \<Rightarrow> bool) \<Rightarrow> bool \<Rightarrow> nat
       \<Rightarrow> (wait_answer \<times> TimeStamp) list \<Rightarrow> server_world \<Rightarrow> server_world result" where
  "server_loop cbs alive ok l =
     loop (\<lambda>w. loops w l) (upd_loop l) (exec_functor cbs ok) (handle_channel cbs alive l)"

subsection \<open>Names of connections\<close>

lemma conn_name_buf_eq:
  assumes "length ipp \<le> 21" and "0 \<le> n" and "n < 2 ^ 31"
  shows "conn_name_buf ipp n = CHR ''-'' # ipp @ CHR ''#'' # decimal (nat n)"
proof -
  have "nat n < 10 ^ 10" using assms(3) by (simp add: nat_less_iff)
  then have "length (decimal (nat n)) \<le> 10" by (rule length_decimal_le) simp
  then show ?thesis using assms by (simp add: conn_name_buf_def snprintf_keep_def decimal_int_def)
qed

lemma conn_name_buf_inject:
  assumes "length ipp \<le> 21" and "0 \<le> m" "m < 2 ^ 31" and "0 \<le> n" "n < 2 ^ 31"
  shows "conn_name_buf ipp m = conn_name_buf ipp n \<longleftrightarrow> m = n"
proof -
  have "conn_name_buf ipp m = conn_name_buf ipp n \<longleftrightarrow> decimal (nat m) = decimal (nat n)"
    by (simp add: conn_name_buf_eq[OF assms(1,2,3)] conn_name_buf_eq[OF assms(1,4,5)])
  then show ?thesis using assms(2,4) eq_nat_nat_iff by simp
qed

text \<open>Every name in the map was made from a number that has been used.\<close>

definition names_inv :: "server_world \<Rightarrow> bool" where
  "names_inv w \<longleftrightarrow> 1 \<le> nextConnId w \<and> length (ipPort w) \<le> 21
     \<and> (\<forall>name \<in> dom (connections w). \<exists>n. 1 \<le> n \<and> n < nextConnId w
          \<and> name = srv_name w @ conn_name_buf (ipPort w) n)"

lemma names_inv_fresh:
  assumes "names_inv w" and "nextConnId w + 1 < 2 ^ 31"
  shows "connections w (srv_name w @ conn_name_buf (ipPort w) (nextConnId w)) = None"
proof (rule ccontr)
  assume "connections w (srv_name w @ conn_name_buf (ipPort w) (nextConnId w)) \<noteq> None"
  then have "srv_name w @ conn_name_buf (ipPort w) (nextConnId w) \<in> dom (connections w)"
    by (simp add: domIff)
  with assms(1) obtain n where n: "1 \<le> n" "n < nextConnId w"
      "conn_name_buf (ipPort w) (nextConnId w) = conn_name_buf (ipPort w) n"
    by (fastforce simp: names_inv_def)
  then have "nextConnId w = n"
    using assms conn_name_buf_inject[of "ipPort w" "nextConnId w" n] by (simp add: names_inv_def)
  then show False using n(2) by simp
qed

lemma names_inv_add:
  assumes "names_inv w"
    and "connections w' = (connections w)(srv_name w @ conn_name_buf (ipPort w) (nextConnId w) \<mapsto> i)"
    and "nextConnId w' = nextConnId w + 1" "srv_name w' = srv_name w" "ipPort w' = ipPort w"
  shows "names_inv w'"
  using assms unfolding names_inv_def by (fastforce simp: dom_def)

lemma names_inv_remove:
  assumes "names_inv w" and "connections w' = (connections w)(name := None)"
    and "nextConnId w' = nextConnId w" "srv_name w' = srv_name w" "ipPort w' = ipPort w"
  shows "names_inv w'"
  using assms unfolding names_inv_def by auto

subsection \<open>Accepting a connection\<close>

lemma upd_loop_simps [simp]:
  "conns (upd_loop l g w) = conns w" "cur_thread (upd_loop l g w) = cur_thread w"
  "loops (upd_loop l g w) = (loops w)(l := g (loops w l))"
  "world.more (upd_loop l g w) = world.more w"
  by (simp_all add: upd_loop_def)

lemma TcpConnection_more:
  "TcpConnection lp name fd ch local peer i w = Inr w' \<Longrightarrow> world.more w' = world.more w"
  by (auto simp: TcpConnection_def Let_def setKeepAlive_def split: option.splits)

lemma newConnection_registers:
  assumes names: "names_inv w" "nextConnId w + 1 < 2 ^ 31" and pool: "wf_pool (threadPool w)"
    and io: "io = getAllLoops (threadPool w) ! (next_loop (threadPool w)
      mod length (getAllLoops (threadPool w)))"
    and poller: "wf_poller (loops w io)" "heap (loops w io) (next_address w + 1) = None"
      "registry (loops w io) fd = None"
  defines "i \<equiv> next_address w"
    and "name \<equiv> srv_name w @ conn_name_buf (ipPort w) (nextConnId w)"
  shows "\<exists>w3. newConnection cbs fd peer w
      = run_on io (ConnectEstablished i) (connectEstablished (conn_cbs cbs) i) w3
    \<and> conn_inv i w3 \<and> conn_state (conns w3 i) = kConnecting
    \<and> sockfd (conns w3 i) = fd \<and> conn_channel (conns w3 i) = i + 1 \<and> conn_name (conns w3 i) = name \<and> conn_loop (conns w3 i) = io \<and> peerAddr (conns w3 i) = peer
    \<and> connections w name = None \<and> connections w3 = (connections w)(name \<mapsto> i)
    \<and> names_inv w3 \<and> (\<forall>j. j \<noteq> i \<longrightarrow> conns w3 j = conns w j)
    \<and> threadPool w3 = (threadPool w)\<lparr>next_loop := Suc (next_loop (threadPool w))
          mod length (getAllLoops (threadPool w))\<rparr>
    \<and> loops w3 = (loops w)(io := put_channel (i + 1) (Channel fd) (loops w io))
    \<and> cur_thread w3 = cur_thread w \<and> srv_loop w3 = srv_loop w"
proof -
  let ?pool = "(threadPool w)\<lparr>next_loop := Suc (next_loop (threadPool w))
          mod length (getAllLoops (threadPool w))\<rparr>"
  let ?w1 = "w\<lparr>threadPool := ?pool, nextConnId := nextConnId w + 1, next_address := i + 2\<rparr>"
  let ?local = "case socket_names ?w1 fd of None \<Rightarrow> no_address | Some a \<Rightarrow> a"
  have gn: "getNextLoop (threadPool w) = Inr (io, ?pool)" using getNextLoop_ok[OF pool] io by simp
  obtain w2 where w2: "TcpConnection (Some io) name fd (i + 1) ?local peer i ?w1 = Inr w2"
      "conn_inv i w2"
      "conns w2 = (conns w)(i := (new_conn io name fd (i + 1) ?local peer)\<lparr>keep_alive := True\<rparr>)"
      "loops w2 = (loops w)(io := put_channel (i + 1) (Channel fd) (loops w io))"
      "cur_thread w2 = cur_thread w"
    using TcpConnection_ok[of ?w1 io "i + 1" fd name ?local peer i] poller by (auto simp: i_def)
  have more: "world.more w2 = world.more ?w1" using TcpConnection_more[OF w2(1)] .
  then have fields: "connections w2 = connections w" "nextConnId w2 = nextConnId w + 1"
      "srv_name w2 = srv_name w" "ipPort w2 = ipPort w" "threadPool w2 = ?pool"
      "srv_loop w2 = srv_loop w"
    by (cases w2; cases w; simp)+
  let ?w3 = "w2\<lparr>connections := (connections w2)(name \<mapsto> i)\<rparr>"
  have "newConnection cbs fd peer w
      = run_on io (ConnectEstablished i) (connectEstablished (conn_cbs cbs) i) ?w3"
    using w2(1) names(2) by (simp add: newConnection_def gn Let_def name_def i_def)
  moreover have "conn_inv i ?w3"
    using w2(2) by (rule conn_inv_loop_cong) (simp_all add: cloop_def)
  moreover have "names_inv ?w3"
    by (rule names_inv_add[OF names(1)]) (simp_all add: fields name_def)
  ultimately show ?thesis
    using w2(3-) fields names_inv_fresh[OF names] by (auto simp: name_def new_conn_def)
qed

lemma names_inv_cong:
  "names_inv w \<Longrightarrow> connections w' = connections w \<Longrightarrow> nextConnId w' = nextConnId w \<Longrightarrow>
   srv_name w' = srv_name w \<Longrightarrow> ipPort w' = ipPort w \<Longrightarrow> names_inv w'"
  by (simp add: names_inv_def)

text \<open>An operation of a channel changes the poller of its loop only.\<close>

subsection \<open>What functors add to the queue of a loop\<close>

text \<open>
  \<open>grows l w r\<close>: while loop \<open>l\<close> is calling its functors, an operation that leads from \<open>w\<close>
  to \<open>r\<close> only adds functors to the queue of \<open>l\<close>, and wakes the loop when it does.
\<close>

definition grows :: "nat \<Rightarrow> 's world_scheme \<Rightarrow> 's world_scheme result \<Rightarrow> bool" where
  "grows l w r \<longleftrightarrow> callingPendingFunctors (loops w l) \<longrightarrow>
     (\<forall>w'. r = Inr w' \<longrightarrow> (\<exists>gs. adds_functors gs (loops w l) (loops w' l)))"

lemma grows_Inl [simp]: "grows l w (Inl e)"
  by (simp add: grows_def)

lemma grows_same: "loops w' l = loops w l \<Longrightarrow> grows l w (Inr w')"
  by (auto simp: grows_def intro: adds_functors_refl)

lemma grows_from: "loops w1 l = loops w l \<Longrightarrow> grows l w1 r \<Longrightarrow> grows l w r"
  by (simp add: grows_def)

lemma grows_bind:
  assumes "grows l w r" and "\<And>w1. grows l w1 (k w1)"
  shows "grows l w (bind_result r k)"
  unfolding grows_def
proof (intro impI allI)
  fix w' assume c: "callingPendingFunctors (loops w l)" and "bind_result r k = Inr w'"
  then obtain w1 where w1: "r = Inr w1" "k w1 = Inr w'" by auto
  with assms(1) c obtain gs where gs: "adds_functors gs (loops w l) (loops w1 l)"
    by (auto simp: grows_def)
  then have "callingPendingFunctors (loops w1 l)" using c by (simp add: adds_functors_def)
  with assms(2)[of w1] w1(2) obtain hs where "adds_functors hs (loops w1 l) (loops w' l)"
    by (auto simp: grows_def)
  with gs show "\<exists>gs. adds_functors gs (loops w l) (loops w' l)" using adds_functors_trans by blast
qed

lemma grows_bind_value:
  "(\<And>x. r = Inr x \<Longrightarrow> grows l w (k x)) \<Longrightarrow> grows l w (bind_result r k)"
  by (cases r) simp_all

lemma grows_queue: "grows l w (Inr (upd_loop m (queueInLoop t f) w))"
  by (cases "m = l") (auto simp: grows_def intro: adds_functors_queue adds_functors_refl)

lemma grows_queue_conn: "grows l w (Inr (queue_conn i f w))"
  by (simp add: queue_conn_def upd_cloop_def grows_queue)

lemma adds_functors_more:
  "poll_state.more e' = poll_state.more e \<Longrightarrow> adds_functors [] (e :: 'f eventloop) e'"
  by (cases e; cases e') (simp add: adds_functors_def)

lemma grows_channel_op:
  assumes "\<And>c e e'. chan_op c e = Inr e' \<Longrightarrow>
    poll_state.more e' = poll_state.more (e :: loop_functor eventloop)"
  shows "grows l w (on_channel chan_op i w)"
  unfolding on_channel_def
proof (rule grows_bind_value)
  fix e assume "chan_op (conn_channel (conns w i)) (cloop i w) = Inr e"
  from adds_functors_more[OF assms[OF this]]
  show "grows l w (Inr (upd_cloop i (\<lambda>_. e) w))"
    using adds_functors_refl by (auto simp: grows_def upd_cloop_def cloop_def)
qed

lemmas channel_ops_more = channel_ops change_events_more channel_remove_more

lemma grows_change [simp]:
  "grows l w (on_channel enableReading i w)" "grows l w (on_channel enableWriting i w)"
  "grows l w (on_channel disableAll i w)" "grows l w (on_channel channel_remove i w)"
  by (rule grows_channel_op; simp add: channel_ops_more)+

lemma loops_setState [simp]: "loops (setState i s w) = loops w"
  by (simp add: setState_def)

lemma loops_socket_write: "socket_write i msg w = (r, w1) \<Longrightarrow> loops w1 = loops w"
  by (auto simp: socket_write_def Let_def split: sum.splits)

lemma grows_socket_write:
  assumes "socket_write i msg w = (r, w1)"
  shows "grows l w (Inr w1)" and "grows l w (Inr (queue_conn i f w1))"
  using loops_socket_write[OF assms] by (simp_all add: grows_same grows_from[OF _ grows_queue_conn])

lemma grows_direct_write:
  "direct_write cbs i msg ch w = (a, b, c, w1) \<Longrightarrow> grows l w (Inr w1)"
  by (auto simp: direct_write_def Let_def grows_same intro: grows_socket_write
      split: if_splits prod.splits sum.splits)

lemma grows_buffer_remaining: "grows l w (buffer_remaining cbs i data w)"
proof -
  let ?n = "readableBytes (outputBuffer (conns w i)) + length data"
  let ?hit = "?n \<ge> highWaterMark (conns w i)
    \<and> readableBytes (outputBuffer (conns w i)) < highWaterMark (conns w i)
    \<and> highWaterMarkCallback cbs \<noteq> None"
  have "grows l w (bind_result (Inr (if ?hit then queue_conn i (CallHighWaterMark i ?n) w else w))
     (\<lambda>w1. bind_result (append_buffer data (outputBuffer (conns w1 i))) (\<lambda>out.
         let w2 = upd_conn i (\<lambda>c. c\<lparr>outputBuffer := out\<rparr>) w1
         in bind_result (get_chan i w2) (\<lambda>ch.
            if \<not> isWriting ch then on_channel enableWriting i w2 else Inr w2))))"
  proof (rule grows_bind)
    show "grows l w (Inr (if ?hit then queue_conn i (CallHighWaterMark i ?n) w else w))"
      using grows_queue_conn[of l w] by (simp add: grows_same)
  next
    fix w1 :: "'a world_scheme"
    show "grows l w1 (bind_result (append_buffer data (outputBuffer (conns w1 i))) (\<lambda>out.
         let w2 = upd_conn i (\<lambda>c. c\<lparr>outputBuffer := out\<rparr>) w1
         in bind_result (get_chan i w2) (\<lambda>ch.
            if \<not> isWriting ch then on_channel enableWriting i w2 else Inr w2)))"
      unfolding Let_def
      by (intro grows_bind_value) (auto intro: grows_from[OF _ grows_change(2)] grows_same)
  qed
  then show ?thesis by (simp add: buffer_remaining_def Let_def)
qed

lemma grows_sendInLoop: "grows l w (sendInLoop cbs i msg w)"
proof -
  have "grows l w (let (nwrote, remaining, faultError, w1) = direct_write cbs i msg ch w
        in if \<not> faultError \<and> remaining > 0
           then buffer_remaining cbs i (take remaining (drop nwrote msg)) w1
           else Inr w1)" for ch
  proof -
    obtain a b c w1 where dw: "direct_write cbs i msg ch w = (a, b, c, w1)" by (rule prod_cases4)
    have "grows l w (bind_result (Inr w1) (\<lambda>w1. if \<not> c \<and> b > 0
        then buffer_remaining cbs i (take b (drop a msg)) w1 else Inr w1))"
      by (rule grows_bind[OF grows_direct_write[OF dw]]) (simp add: grows_buffer_remaining grows_same)
    then show ?thesis by (simp add: dw)
  qed
  then show ?thesis unfolding sendInLoop_def by (auto intro: grows_bind_value grows_same)
qed

lemma grows_shutdownInLoop: "grows l w (shutdownInLoop i w)"
  by (auto simp: shutdownInLoop_def shutdownWrite_def intro!: grows_bind_value grows_same)

lemma grows_removeConnectionInLoop: "grows l w (removeConnectionInLoop i w)"
  unfolding removeConnectionInLoop_def Let_def
  by (rule grows_from[OF _ grows_queue_conn]) simp

lemma grows_on_loop:
  assumes "\<And>c e e'. chan_op c e = Inr e' \<Longrightarrow>
    poll_state.more e' = poll_state.more (e :: loop_functor eventloop)"
  shows "grows l w (on_loop chan_op m c w)"
  unfolding on_loop_def
proof (rule grows_bind_value)
  fix e assume "chan_op c (loops w m) = Inr e"
  from adds_functors_more[OF assms[OF this]]
  show "grows l w (Inr (upd_loop m (\<lambda>_. e) w))"
    using adds_functors_refl by (auto simp: grows_def)
qed

lemma grows_Acceptor_listen: "grows l w (Acceptor_listen ok w)"
  unfolding Acceptor_listen_def socket_listen_def
  by (auto simp: channel_ops_more intro: grows_from[OF _ grows_on_loop])

lemma grows_add_timer: "grows l w (add_timer_in_loop m p w)"
  unfolding add_timer_in_loop_def
  by (rule grows_bind_value) (simp add: grows_same upd_timers_def)

text \<open>
  The contract of a user of the server: the callbacks that are called from functors of
  loop \<open>l\<close> leave its queue alone, except for functors they add to it. Then the loop and its
  functors satisfy the contract of \<open>functor_host\<close>.
\<close>

locale server_user =
  fixes cbs :: "server_world server_callbacks" and l :: nat
  assumes connection_grows: "srv_connection cbs = Some f \<Longrightarrow> grows l w (f i w)"
    and complete_grows: "srv_writeComplete cbs = Some f \<Longrightarrow> grows l w (f i w)"
    and user_grows: "grows l w (srv_user cbs n w)"
begin

lemma connection_call_grows: "grows l w (call_function (srv_connection cbs) (\<lambda>f. f i w))"
  by (auto simp: call_function_def connection_grows split: option.splits)

lemma complete_call_grows: "grows l w (call_function (srv_writeComplete cbs) (\<lambda>f. f i w))"
  by (auto simp: call_function_def complete_grows split: option.splits)

lemma established_grows: "grows l w (connectEstablished (conn_cbs cbs) i w)"
proof -
  have "grows l w (bind_result (on_channel enableReading i
      (upd_cloop i (put_channel (conn_channel (conns (setState i kConnected w) i)) (tie i ch))
         (setState i kConnected w)))
      (\<lambda>w3. call_function (srv_connection cbs) (\<lambda>f. f i w3)))" for ch
  proof (rule grows_bind[OF _ connection_call_grows])
    let ?w2 = "upd_cloop i (put_channel (conn_channel (conns (setState i kConnected w) i)) (tie i ch))
         (setState i kConnected w)"
    have "poll_state.more (loops ?w2 l) = poll_state.more (loops w l)"
      by (simp add: upd_cloop_def put_channel_def)
    then have "grows l w (Inr ?w2)" using adds_functors_more by (auto simp: grows_def)
    then have "grows l w (bind_result (Inr ?w2) (on_channel enableReading i))"
      by (rule grows_bind) simp
    then show "grows l w (on_channel enableReading i ?w2)" by simp
  qed
  then show ?thesis
    unfolding connectEstablished_def Let_def by (auto simp: conn_cbs_def intro: grows_bind_value)
qed

lemma destroyed_grows: "grows l w (connectDestroyed (conn_cbs cbs) i w)"
  unfolding connectDestroyed_def
proof (rule grows_bind)
  have "grows l w (on_channel disableAll i (setState i kDisconnected w))"
    by (rule grows_from[OF _ grows_change(3)]) simp
  then show "grows l w (if conn_state (conns w i) = kConnected
        then bind_result (on_channel disableAll i (setState i kDisconnected w)) (\<lambda>w1.
             call_function (connectionCallback (conn_cbs cbs)) (\<lambda>f. f i w1))
        else Inr w)"
    using connection_call_grows by (auto simp: conn_cbs_def grows_same intro!: grows_bind)
qed simp

lemma exec_grows: "grows l w (exec_functor cbs ok f w)"
  by (cases f) (simp_all add: grows_sendInLoop grows_shutdownInLoop complete_call_grows
      established_grows destroyed_grows grows_removeConnectionInLoop grows_Acceptor_listen grows_add_timer user_grows,
      simp add: call_function_def conn_cbs_def)

end

sublocale server_user \<subseteq> loop_functors: functor_host "\<lambda>w. loops w l" "upd_loop l" "exec_functor cbs ok"
  for ok
  by unfold_locales (use exec_grows in \<open>auto simp: grows_def\<close>)

subsection \<open>Closing a connection\<close>

lemma on_channel_change_queue:
  assumes "on_channel (change_events f) i w = Inr w'"
  shows "pendingFunctors (loops w' l) = pendingFunctors (loops w l)"
    "threadId (loops w' l) = threadId (loops w l)"
    "callingPendingFunctors (loops w' l) = callingPendingFunctors (loops w l)"
    "wakeup_count (loops w' l) = wakeup_count (loops w l)"
proof -
  from assms obtain e where e: "change_events f (conn_channel (conns w i)) (cloop i w) = Inr e"
      "w' = upd_cloop i (\<lambda>_. e) w" by (auto simp: on_channel_def)
  from change_events_more[OF e(1)]
  show "pendingFunctors (loops w' l) = pendingFunctors (loops w l)"
    "threadId (loops w' l) = threadId (loops w l)"
    "callingPendingFunctors (loops w' l) = callingPendingFunctors (loops w l)"
    "wakeup_count (loops w' l) = wakeup_count (loops w l)"
    by (cases e; cases "cloop i w"; simp add: e(2) upd_cloop_def cloop_def)+
qed

lemma close_channel_server:
  assumes "conn_inv i (w :: server_world)"
  shows "\<exists>w1 ch. on_channel disableAll i (setState i kDisconnected w) = Inr w1 \<and> conn_inv i w1
    \<and> conns w1 = (conns w)(i := (conns w i)\<lparr>conn_state := kDisconnected\<rparr>)
    \<and> cur_thread w1 = cur_thread w \<and> get_chan i w1 = Inr ch \<and> isNoneEvent ch
    \<and> world.more w1 = world.more w
    \<and> (\<forall>l. pendingFunctors (loops w1 l) = pendingFunctors (loops w l)
          \<and> threadId (loops w1 l) = threadId (loops w l)
          \<and> wakeup_count (loops w1 l) = wakeup_count (loops w l)
          \<and> callingPendingFunctors (loops w1 l) = callingPendingFunctors (loops w l))"
proof -
  obtain w1 where w1: "on_channel disableAll i (setState i kDisconnected w) = Inr w1" "conn_inv i w1"
    "conns w1 = (conns w)(i := (conns w i)\<lparr>conn_state := kDisconnected\<rparr>)"
    "cur_thread w1 = cur_thread w" "\<exists>ch. get_chan i w1 = Inr ch \<and> isNoneEvent ch"
    using close_channel_ok[OF assms] by blast
  moreover have "world.more w1 = world.more w"
    using on_channel_more[OF w1(1)] by (simp add: setState_def)
  ultimately show ?thesis
    using on_channel_change_queue[OF w1(1)[unfolded disableAll_def]] by auto
qed

text \<open>\<open>handleClose\<close> up to the call of the close callback, and what that call does.\<close>

lemma removeConnection_inline:
  assumes "threadId (loops w (srv_loop w)) = cur_thread w"
  shows "removeConnection i w = removeConnectionInLoop i w"
  using assms by (simp add: removeConnection_def run_on_def runInLoop_def isInLoopThread_def)

lemma server_close:
  assumes inv: "conn_inv i w" and cb: "srv_connection cbs = Some (\<lambda>i w. Inr w)"
  shows "\<exists>w1 ch. handleClose (conn_cbs cbs) i w = removeConnection i w1 \<and> conn_inv i w1
    \<and> conns w1 = (conns w)(i := (conns w i)\<lparr>conn_state := kDisconnected\<rparr>)
    \<and> cur_thread w1 = cur_thread w \<and> get_chan i w1 = Inr ch \<and> isNoneEvent ch
    \<and> world.more w1 = world.more w
    \<and> (\<forall>l. pendingFunctors (loops w1 l) = pendingFunctors (loops w l)
          \<and> threadId (loops w1 l) = threadId (loops w l)
          \<and> wakeup_count (loops w1 l) = wakeup_count (loops w l)
          \<and> callingPendingFunctors (loops w1 l) = callingPendingFunctors (loops w l))"
  using close_channel_server[OF inv]
  by (auto simp: handleClose_def call_function_def conn_cbs_def cb)

lemma more_fields:
  assumes "world.more w1 = world.more (w :: server_world)"
  shows "srv_loop w1 = srv_loop w" "connections w1 = connections w" "srv_name w1 = srv_name w"
  using assms by (cases w1; cases w; simp)+

lemma destroyed_after_close:
  assumes inv: "conn_inv i w" and st: "conn_state (conns w i) = kDisconnected"
  shows "\<exists>w2. connectDestroyed cbs i w = Inr w2 \<and> conn_inv i w2
    \<and> registry (cloop i w2) (sockfd (conns w i)) = None
    \<and> interest (cloop i w2) (sockfd (conns w i)) = None"
proof -
  from inv obtain ch where ch: "get_chan i w = Inr ch" and chi: "channel_inv (conns w i) ch"
    by (rule conn_invE) blast
  then have "isNoneEvent ch" using st by (simp add: channel_inv_def)
  from remove_channel_ok[OF inv ch this] show ?thesis by (auto simp: connectDestroyed_def st)
qed

subsection \<open>A sample server\<close>

text \<open>A server on loop 0, which runs in thread 1, with one more loop, 7, in thread 2.\<close>

definition sample_loops :: "nat \<Rightarrow> loop_functor eventloop" where
  "sample_loops l = (if l = 0 then sample_eventloop
     else sample_eventloop\<lparr>threadId := 2, heap := Map.empty, registry := Map.empty,
            interest := Map.empty\<rparr>)"

definition no_timers :: timer_queue where
  "no_timers = \<lparr>timers = [], timer_heap = Map.empty, armed = None, armed_at = TimeStamp_default,
     clock = (\<lambda>_. TimeStamp_default), ticks = 0\<rparr>"

definition sample_server :: server_world where
  "sample_server = world.extend (sample_world (WriteOk 0))
     \<lparr>srv_loop = 0, ipPort = ''127.0.0.1:80'', srv_name = ''srv'',
      threadPool = (EventLoopThreadPool 0 ''srv'')\<lparr>pool_loops := [7]\<rparr>, srv_started = 1,
      nextConnId = 2, connections = [''srv-127.0.0.1:80#1'' \<mapsto> 0], acceptSocket = 3, acceptChannel = 2,
      listenning = True, so_reuseaddr = False, so_reuseport = True, bound_to = None,
      next_address = 10, accept_answers = (\<lambda>_. AcceptErr 24), accepts_done = 0,
      socket_names = (\<lambda>_. None), closed_fds = [], srv_timers = (\<lambda>_. no_timers)\<rparr>\<lparr>loops := sample_loops,
      conns := (\<lambda>i. (conns (sample_world (WriteOk 0)) i)\<lparr>conn_name := ''srv-127.0.0.1:80#1''\<rparr>)\<rparr>"

definition quiet_server :: "server_world server_callbacks" where
  "quiet_server = \<lparr>srv_connection = Some (\<lambda>i w. Inr w), srv_message = Some (\<lambda>i t w. Inr w),
     srv_writeComplete = None, srv_threadInit = None, srv_user = (\<lambda>n w. Inr w),
     srv_timer = (\<lambda>n w. Inr w)\<rparr>"

lemma sample_server_simps [simp]:
  "conns sample_server i
     = (conns (sample_world (WriteOk 0)) i)\<lparr>conn_name := ''srv-127.0.0.1:80#1''\<rparr>"
  "loops sample_server = sample_loops" "cur_thread sample_server = 1" "srv_loop sample_server = 0"
  "nextConnId sample_server = 2" "srv_name sample_server = ''srv''"
  "ipPort sample_server = ''127.0.0.1:80''" "next_address sample_server = 10"
  "connections sample_server = [''srv-127.0.0.1:80#1'' \<mapsto> 0]"
  "threadPool sample_server = (EventLoopThreadPool 0 ''srv'')\<lparr>pool_loops := [7]\<rparr>"
  by (simp_all add: sample_server_def sample_world_def world.defs)

lemma sample_conn_fields [simp]:
  "conn_loop (conns (sample_world ans) i) = 0" "sockfd (conns (sample_world ans) i) = 5"
  "cloop i (sample_world ans) = sample_eventloop"
  by (simp_all add: sample_world_def new_conn_def cloop_def)

lemma sample_server_inv [simp]: "conn_inv i sample_server"
proof -
  have "cloop i sample_server = sample_eventloop" by (simp add: cloop_def sample_loops_def)
  moreover have "channel_inv (c\<lparr>conn_name := n\<rparr>) ch = channel_inv c ch" for c n ch
    by (simp add: channel_inv_def)
  ultimately show ?thesis
    using sample_conn_inv[of i "WriteOk 0"] unfolding conn_inv_def by simp
qed

lemma sample_names: "conn_name_buf ''127.0.0.1:80'' 1 = ''-127.0.0.1:80#1''"
  "conn_name_buf ''127.0.0.1:80'' 2 = ''-127.0.0.1:80#2''"
  by code_simp+

lemma sample_server_names [simp]: "names_inv sample_server"
  by (auto simp: names_inv_def sample_names intro!: exI[of _ 1])

lemma sample_loop_7 [simp]: "wf_poller (sample_loops 7)" "heap (sample_loops 7) = Map.empty"
  "registry (sample_loops 7) = Map.empty" "threadId (sample_loops 7) = 2"
  "pendingFunctors (sample_loops 7) = []" "wakeup_count (sample_loops 7) = 0"
  by (simp_all add: sample_loops_def wf_poller_def sample_eventloop_def)

subsection \<open>Properties\<close>

definition registered_conn ::
    "server_world \<Rightarrow> int \<Rightarrow> char list \<Rightarrow> nat \<Rightarrow> server_world \<Rightarrow> bool" where
  "registered_conn w fd name io w' \<longleftrightarrow>
     (let i = next_address w
      in connections w name = None \<and> connections w' = (connections w)(name \<mapsto> i) \<and> names_inv w'
         \<and> conn_inv i w' \<and> conn_loop (conns w' i) = io \<and> sockfd (conns w' i) = fd \<and> conn_name (conns w' i) = name
         \<and> (\<forall>j. j \<noteq> i \<longrightarrow> conns w' j = conns w j))"

text \<open>C25: a server never replaces a connection of its map. As long as \<open>nextConnId_\<close> is below \<open>2 ^ 31 - 1\<close>
  (the increment is a signed overflow then), a new connection gets a name that no other connection of
  the map has, and the loop whose turn it is; it is in the map, its invariant holds, and no other connection
  is changed. If that loop runs in another thread, \<open>connectEstablished\<close> is queued there, behind the functors
  that are queued, and the loop is woken. If it runs in this thread, as in a server of a single loop,
  the connection is \<open>kConnected\<close>, reads, and the poller has its descriptor, when the connection
  callback of the user is called. Assumed: the names in the map, the pool of loops and the poller of
  that loop are consistent, and the poller has neither the descriptor nor the new channel yet.\<close>

theorem new_connection_is_registered:
  assumes names: "names_inv w" "nextConnId w + 1 < 2 ^ 31" and pool: "wf_pool (threadPool w)"
    and io: "io = getAllLoops (threadPool w) ! (next_loop (threadPool w)
      mod length (getAllLoops (threadPool w)))"
    and poller: "wf_poller (loops w io)" "heap (loops w io) (next_address w + 1) = None"
      "registry (loops w io) fd = None"
  shows "(threadId (loops w io) \<noteq> cur_thread w \<longrightarrow>
      (\<exists>w' name. newConnection cbs fd peer w = Inr w' \<and> registered_conn w fd name io w'
         \<and> pendingFunctors (loops w' io) = pendingFunctors (loops w io) @ [ConnectEstablished (next_address w)]
         \<and> 0 < wakeup_count (loops w' io)))
    \<and> (threadId (loops w io) = cur_thread w \<longrightarrow>
      (\<exists>w1 name ch. newConnection cbs fd peer w = call_function (srv_connection cbs) (\<lambda>f. f (next_address w) w1)
         \<and> registered_conn w fd name io w1 \<and> conn_state (conns w1 (next_address w)) = kConnected
         \<and> get_chan (next_address w) w1 = Inr ch \<and> isReading ch \<and> tie_obj ch = Some (next_address w)
         \<and> registry (loops w1 io) fd = Some (next_address w + 1)))"
proof -
  let ?i = "next_address w" and ?name = "srv_name w @ conn_name_buf (ipPort w) (nextConnId w)"
  obtain w3 where w3: "newConnection cbs fd peer w
      = run_on io (ConnectEstablished ?i) (connectEstablished (conn_cbs cbs) ?i) w3"
    "conn_inv ?i w3" "conn_state (conns w3 ?i) = kConnecting" "conn_name (conns w3 ?i) = ?name" "conn_loop (conns w3 ?i) = io"
    "connections w ?name = None" "connections w3 = (connections w)(?name \<mapsto> ?i)" "names_inv w3"
    "\<forall>j. j \<noteq> ?i \<longrightarrow> conns w3 j = conns w j" "cur_thread w3 = cur_thread w"
    "loops w3 = (loops w)(io := put_channel (?i + 1) (Channel fd) (loops w io))"
    "sockfd (conns w3 ?i) = fd" "conn_channel (conns w3 ?i) = ?i + 1"
    using newConnection_registers[OF names pool io poller, of cbs peer] by blast
  have reg: "registered_conn w fd ?name io w'" if "conns w' = (conns w3)(?i := (conns w3 ?i)\<lparr>conn_state := k\<rparr>)"
    "world.more w' = world.more w3" "conn_inv ?i w'" for w' k
  proof -
    have "connections w' = connections w3" "nextConnId w' = nextConnId w3" "srv_name w' = srv_name w3"
      "ipPort w' = ipPort w3" using that(2) by (cases w'; cases w3; simp)+
    moreover from this have "names_inv w'" using w3(8) names_inv_cong by metis
    ultimately show ?thesis using that(1,3) w3(4-7,9,12) by (simp add: registered_conn_def Let_def)
  qed
  have far: "\<exists>w' name. newConnection cbs fd peer w = Inr w' \<and> registered_conn w fd name io w'
         \<and> pendingFunctors (loops w' io) = pendingFunctors (loops w io) @ [ConnectEstablished ?i]
         \<and> 0 < wakeup_count (loops w' io)" if other: "threadId (loops w io) \<noteq> cur_thread w"
  proof -
    let ?w' = "upd_loop io (queueInLoop (cur_thread w3) (ConnectEstablished ?i)) w3"
    have th: "threadId (loops w3 io) \<noteq> cur_thread w3" using other by (simp add: w3(10,11) put_channel_def)
    have "queue_conn ?i (ConnectEstablished ?i) w3 = ?w'" by (simp add: queue_conn_def upd_cloop_def w3(5))
    then have "conn_inv ?i ?w'" using conn_inv_queue_conn[of ?i "ConnectEstablished ?i" w3] w3(2) by simp
    moreover have "conns ?w' = (conns w3)(?i := (conns w3 ?i)\<lparr>conn_state := kConnecting\<rparr>)"
      using w3(3) by (cases "conns w3 ?i") (simp add: fun_upd_idem)
    ultimately have "registered_conn w fd ?name io ?w'" by (intro reg) simp_all
    moreover have "newConnection cbs fd peer w = Inr ?w'"
      using th by (simp add: w3(1) run_on_def runInLoop_def isInLoopThread_def)
    moreover have "pendingFunctors (loops ?w' io) = pendingFunctors (loops w io) @ [ConnectEstablished ?i]"
      "0 < wakeup_count (loops ?w' io)" using th by (simp_all add: w3(11) put_channel_def)
    ultimately show ?thesis by blast
  qed
  have near: "\<exists>w1 name ch. newConnection cbs fd peer w = call_function (srv_connection cbs) (\<lambda>f. f ?i w1)
         \<and> registered_conn w fd name io w1 \<and> conn_state (conns w1 ?i) = kConnected
         \<and> get_chan ?i w1 = Inr ch \<and> isReading ch \<and> tie_obj ch = Some ?i
         \<and> registry (loops w1 io) fd = Some (?i + 1)" if here: "threadId (loops w io) = cur_thread w"
  proof -
    have "threadId (loops w3 io) = cur_thread w3" using here by (simp add: w3(10,11) put_channel_def)
    then have run: "newConnection cbs fd peer w = connectEstablished (conn_cbs cbs) ?i w3"
      by (simp add: w3(1) run_on_def runInLoop_def isInLoopThread_def)
    obtain w1 ch where w1: "connectEstablished (conn_cbs cbs) ?i w3 = call_function (srv_connection cbs) (\<lambda>f. f ?i w1)"
      "conn_inv ?i w1" "conns w1 = (conns w3)(?i := (conns w3 ?i)\<lparr>conn_state := kConnected\<rparr>)" "get_chan ?i w1 = Inr ch"
      "isReading ch" "tie_obj ch = Some ?i" "world.more w1 = world.more w3" "index ch = kAdded"
      using established_ok[OF w3(2,3), of "conn_cbs cbs"] by (auto simp: conn_cbs_def)
    have c: "heap (loops w1 io) (?i + 1) = Some ch" "cloop ?i w1 = loops w1 io"
      using w1(3,4) w3(5,13) by (auto simp: get_chan_def cloop_def split: option.splits)
    moreover have "wf_poller (loops w1 io)" "chan_fd ch = fd"
      using w1(2,3) c w3(12,13) by (auto simp: conn_inv_def channel_inv_def)
    ultimately have "registry (loops w1 io) fd = Some (?i + 1)" using w1(8) wf_pollerD(3) by (metis)
    then show ?thesis using run w1 reg[OF w1(3,7,2)] by auto
  qed
  show ?thesis using far near by blast
qed

theorem new_connection_is_registered_witness:
  "\<exists>w' name. newConnection quiet_server 9 no_address sample_server = Inr w'
     \<and> connections sample_server name = None \<and> connections w' name = Some 10
     \<and> pendingFunctors (loops w' 7) = [ConnectEstablished 10] \<and> 0 < wakeup_count (loops w' 7)"
proof -
  have "wf_pool (threadPool sample_server)" "7 = getAllLoops (threadPool sample_server)
      ! (next_loop (threadPool sample_server) mod length (getAllLoops (threadPool sample_server)))"
    by (simp_all add: wf_pool_def getAllLoops_def EventLoopThreadPool_def)
  from new_connection_is_registered[OF sample_server_names _ this, of 9 quiet_server no_address]
  obtain w' name where "newConnection quiet_server 9 no_address sample_server = Inr w'"
      "registered_conn sample_server 9 name 7 w'"
      "pendingFunctors (loops w' 7) = [ConnectEstablished 10]" "0 < wakeup_count (loops w' 7)"
    by (simp del: sample_server_simps(9)) blast
  then show ?thesis by (intro exI[of _ w'] exI[of _ name]) (simp add: registered_conn_def Let_def)
qed

text \<open>A closed connection leaves the server. In a server whose connection runs in the
  server's own loop, \<open>handleClose\<close> takes the connection out of the map and queues
  \<open>connectDestroyed\<close>, which when called later takes the descriptor out of the poller and out
  of the kernel's interest list. The other entries of the map stay.\<close>

theorem closed_connection_leaves_server:
  assumes inv: "conn_inv i w" and cb: "srv_connection cbs = Some (\<lambda>i w. Inr w)"
    and here: "conn_loop (conns w i) = srv_loop w" "threadId (loops w (srv_loop w)) = cur_thread w"
  shows "\<exists>w1 w2. handleClose (conn_cbs cbs) i w = Inr w1 \<and> conn_inv i w1
    \<and> connections w1 = (connections w)(conn_name (conns w i) := None)
    \<and> pendingFunctors (cloop i w1) = pendingFunctors (cloop i w) @ [ConnectDestroyed i]
    \<and> exec_functor cbs ok (ConnectDestroyed i) w1 = Inr w2 \<and> conn_inv i w2
    \<and> registry (cloop i w2) (sockfd (conns w i)) = None
    \<and> interest (cloop i w2) (sockfd (conns w i)) = None"
proof -
  obtain w0 where w0: "handleClose (conn_cbs cbs) i w = removeConnection i w0" "conn_inv i w0"
      "conns w0 = (conns w)(i := (conns w i)\<lparr>conn_state := kDisconnected\<rparr>)"
      "cur_thread w0 = cur_thread w" "world.more w0 = world.more w"
      "\<forall>l. pendingFunctors (loops w0 l) = pendingFunctors (loops w l)
          \<and> threadId (loops w0 l) = threadId (loops w l)"
    using server_close[OF inv cb] by blast
  note fields = more_fields[OF w0(5)]
  let ?wc = "w0\<lparr>connections := (connections w0)(conn_name (conns w0 i) := None)\<rparr>"
  let ?w1 = "queue_conn i (ConnectDestroyed i) ?wc"
  have close: "handleClose (conn_cbs cbs) i w = Inr ?w1"
    using w0(1,4,6) fields(1) here(2)
    by (simp add: removeConnection_inline removeConnectionInLoop_def)
  have "conn_inv i ?wc" using w0(2) by (rule conn_inv_loop_cong) (simp_all add: cloop_def)
  then have inv1: "conn_inv i ?w1" by simp
  have st: "conn_state (conns ?w1 i) = kDisconnected" by (simp add: w0(3))
  have pend: "pendingFunctors (cloop i ?w1) = pendingFunctors (cloop i w) @ [ConnectDestroyed i]"
    unfolding queue_conn_simps(3) using w0(3,6) by (simp add: cloop_def)
  have map: "connections ?w1 = (connections w)(conn_name (conns w i) := None)"
    by (simp add: queue_conn_def upd_cloop_def upd_loop_def fields(2) w0(3))
  have "sockfd (conns ?w1 i) = sockfd (conns w i)" by (simp add: w0(3))
  with destroyed_after_close[OF inv1 st, of "conn_cbs cbs"] close inv1 pend map show ?thesis
    by auto
qed

theorem closed_connection_leaves_server_witness:
  "\<exists>w1 w2. handleClose (conn_cbs quiet_server) 0 sample_server = Inr w1
     \<and> connections w1 ''srv-127.0.0.1:80#1'' = None
     \<and> exec_functor quiet_server True (ConnectDestroyed 0) w1 = Inr w2
     \<and> registry (cloop 0 w2) 5 = None"
proof -
  have "threadId (loops sample_server (srv_loop sample_server)) = cur_thread sample_server"
    by (simp add: sample_loops_def sample_eventloop_def)
  from closed_connection_leaves_server[OF sample_server_inv _ _ this, of quiet_server 0 True]
  show ?thesis by (auto simp: quiet_server_def)
qed

text \<open>A server whose user has set no connection callback cannot accept. The constructor
  leaves \<open>connectionCallback_\<close> empty, and \<open>connectEstablished\<close> calls it without looking, so
  the first connection of the server's own loop ends in \<open>std::bad_function_call\<close>.\<close>

theorem missing_connection_callback:
  assumes names: "names_inv w" "nextConnId w + 1 < 2 ^ 31" and pool: "wf_pool (threadPool w)"
    and io: "io = getAllLoops (threadPool w) ! (next_loop (threadPool w)
      mod length (getAllLoops (threadPool w)))"
    and poller: "wf_poller (loops w io)" "heap (loops w io) (next_address w + 1) = None"
      "registry (loops w io) fd = None"
    and here: "threadId (loops w io) = cur_thread w" and none: "srv_connection cbs = None"
  shows "newConnection cbs fd peer w = Inl BadFunctionCall"
proof -
  let ?i = "next_address w"
  obtain w3 where w3: "newConnection cbs fd peer w
      = run_on io (ConnectEstablished ?i) (connectEstablished (conn_cbs cbs) ?i) w3"
    "conn_inv ?i w3" "conn_state (conns w3 ?i) = kConnecting" "cur_thread w3 = cur_thread w"
    "loops w3 = (loops w)(io := put_channel (?i + 1) (Channel fd) (loops w io))"
    using newConnection_registers[OF names pool io poller, of cbs peer] by blast
  have "threadId (loops w3 io) = cur_thread w3"
    using here by (simp add: w3(4,5) put_channel_def)
  then have "newConnection cbs fd peer w = connectEstablished (conn_cbs cbs) ?i w3"
    by (simp add: w3(1) run_on_def runInLoop_def isInLoopThread_def)
  then show ?thesis
    using established_ok[OF w3(2,3), of "conn_cbs cbs"] none by (auto simp: call_function_def conn_cbs_def)
qed

theorem missing_connection_callback_witness:
  "newConnection (quiet_server\<lparr>srv_connection := None\<rparr>) 9 no_address
     (sample_server\<lparr>threadPool := EventLoopThreadPool 0 ''srv''\<rparr>) = Inl BadFunctionCall"
proof (rule missing_connection_callback[where io = 0])
  have "wf_poller sample_eventloop"
    by (simp add: wf_poller_def wf_channel_def sample_eventloop_def sample_channel_def index_defs)
  then show "wf_poller (loops (sample_server\<lparr>threadPool := EventLoopThreadPool 0 ''srv''\<rparr>) 0)"
    by (simp add: sample_loops_def)
  show "names_inv (sample_server\<lparr>threadPool := EventLoopThreadPool 0 ''srv''\<rparr>)"
    by (rule names_inv_cong[OF sample_server_names]) simp_all
qed (simp_all add: sample_loops_def sample_eventloop_def quiet_server_def wf_pool_def getAllLoops_def
      EventLoopThreadPool_def)

text \<open>The option of the constructor sets the wrong socket option. Whatever it is, the
  listening socket has \<open>SO_REUSEPORT\<close>, and \<open>kReusePort\<close> decides about \<open>SO_REUSEADDR\<close>.
  The constructor binds the address and does not listen yet.\<close>

theorem server_socket_options:
  assumes "TcpServer (Some l) addr name opt fd bind_ok w = Inr w'"
  shows "so_reuseport w' \<and> (so_reuseaddr w' \<longleftrightarrow> opt = kReusePort) \<and> \<not> listenning w'
    \<and> bound_to w' = Some addr \<and> nextConnId w' = 1 \<and> connections w' = Map.empty \<and> names_inv w'"
  using assms toIpPort_eq[of addr] length_toIpPort[of addr]
  by (auto simp: TcpServer_def Acceptor_def createNonblocking_def bindAddress_def setReusePort_def
      setReuseAddr_def upd_loop_def Let_def names_inv_def split: if_splits)

theorem server_socket_options_witness:
  "\<exists>w'. TcpServer (Some 0) no_address ''srv'' kNoReusePort 3 True sample_server = Inr w'
     \<and> so_reuseport w' \<and> \<not> so_reuseaddr w'"
proof -
  obtain w' where "TcpServer (Some 0) no_address ''srv'' kNoReusePort 3 True sample_server = Inr w'"
    by (simp add: TcpServer_def Acceptor_def createNonblocking_def bindAddress_def Let_def)
  from server_socket_options[OF this] this show ?thesis by auto
qed

end
