(* ===== verification/Log_Stream.thy ===== *)
theory Log_Stream
  imports Time_Stamp
begin

section \<open>The log front end (src/base/FixedBuffer.h, src/log/LogStream.*, src/log/Logging.*)\<close>

text \<open>
  A \<open>FixedBuffer\<close> is a byte array with a current position; \<open>fixed_buffer\<close> keeps its size and
  the bytes before that position, the only ones that are read. \<open>put_item\<close> is \<open>operator<<\<close> of
  \<open>LogStream\<close>: the constructors of \<open>log_item\<close> are its overloads, with integers in the range
  of their C type; the text that \<open>snprintf\<close> makes of a \<open>double\<close> is part of the item, as is
  the text of \<open>strerror_r\<close> for the logger. A \<open>Logger\<close> is the record \<open>logger\<close>; its
  destructor returns the line that it hands to \<open>g_output\<close> and whether it aborts.
\<close>

subsection \<open>\<open>FixedBuffer\<close>\<close>

definition kSmallBuffer :: nat where "kSmallBuffer = 4000"
definition kLargeBuffer :: nat where "kLargeBuffer = 4000 * 1000"

record fixed_buffer =
  fb_size :: nat               \<comment> \<open>\<open>SIZE\<close>\<close>
  fb_data :: "char list"       \<comment> \<open>\<open>data_\<close> up to \<open>cur_\<close>\<close>

definition FixedBuffer :: "nat \<Rightarrow> fixed_buffer" where
  "FixedBuffer n = \<lparr>fb_size = n, fb_data = []\<rparr>"

definition fb_length :: "fixed_buffer \<Rightarrow> nat" where
  "fb_length b = length (fb_data b)"

definition avail :: "fixed_buffer \<Rightarrow> nat" where
  "avail b = fb_size b - fb_length b"

definition fb_append :: "char list \<Rightarrow> fixed_buffer \<Rightarrow> fixed_buffer" where
  "fb_append buf b = (if avail b > length buf then b\<lparr>fb_data := fb_data b @ buf\<rparr> else b)"

definition fb_reset :: "fixed_buffer \<Rightarrow> fixed_buffer" where
  "fb_reset b = b\<lparr>fb_data := []\<rparr>"

definition fb_toString :: "fixed_buffer \<Rightarrow> char list" where
  "fb_toString b = fb_data b"

text \<open>Writing bytes at \<open>current ()\<close> and moving on with \<open>add\<close>; the room has been checked.\<close>

definition fb_write_add :: "char list \<Rightarrow> fixed_buffer \<Rightarrow> fixed_buffer" where
  "fb_write_add bytes b = b\<lparr>fb_data := fb_data b @ bytes\<rparr>"

subsection \<open>Formatting integers\<close>

definition kMaxNumericSize :: nat where "kMaxNumericSize = 48"

definition digits :: "char list" where "digits = ''9876543210123456789''"

text \<open>\<open>zero [digit]\<close> with \<open>zero = digits + 9\<close>.\<close>

definition zero_digit :: "nat \<Rightarrow> char" where
  "zero_digit d = digits ! (9 + d)"

text \<open>The loop \<open>while (v > 0)\<close>.\<close>

fun digit_loop :: "nat \<Rightarrow> char list" where
  "digit_loop v = (if v > 0 then zero_digit (v mod 10) # digit_loop (v div 10) else [])"

declare digit_loop.simps [simp del]

text \<open>
  \<open>w\<close> is the width of the type \<open>T\<close> if it is signed, \<open>None\<close> otherwise: negating the smallest
  value of a signed type overflows.
\<close>

definition formatInteger :: "nat option \<Rightarrow> int \<Rightarrow> fixed_buffer \<Rightarrow> fixed_buffer result" where
  "formatInteger w v b =
     (if avail b \<ge> kMaxNumericSize
      then let negative = v < 0
           in bind_result
                (if negative
                 then case w of None \<Rightarrow> Inr (- v)
                      | Some n \<Rightarrow> if v = - (2 ^ (n - 1)) then Inl SignedOverflow else Inr (- v)
                 else Inr v)
                (\<lambda>v'. let cur = digit_loop (nat v') @ (if negative then ''-'' else [])
                      in Inr (fb_write_add (rev cur) b))
      else Inr b)"

subsection \<open>\<open>LogStream\<close>\<close>

datatype log_item =
    LShort int | LUShort int | LInt int | LUInt int | LLong int | LULong int
  | LLongLong int | LULongLong int
  | LFloat "char list" | LDouble "char list"   \<comment> \<open>what \<open>%.12g\<close> makes of the value\<close>
  | LChar char
  | LCStr "char list option"                   \<comment> \<open>\<open>None\<close> is the null pointer\<close>
  | LUCStr "char list option"
  | LString "char list"
  | LBuffer fixed_buffer
  | LPointer "char list option"                \<comment> \<open>\<open>const void *\<close>, read as a C string\<close>
  | LTemplate "char list" nat                  \<comment> \<open>\<open>GeneralTemplate (data, len)\<close>\<close>

definition put_double :: "char list \<Rightarrow> fixed_buffer \<Rightarrow> fixed_buffer" where
  "put_double text b =
     (if avail b \<ge> kMaxNumericSize then fb_write_add (snprintf_keep kMaxNumericSize text) b else b)"

definition put_cstr :: "char list option \<Rightarrow> fixed_buffer \<Rightarrow> fixed_buffer" where
  "put_cstr str b = (case str of Some s \<Rightarrow> fb_append s b | None \<Rightarrow> fb_append ''(null)'' b)"

definition put_template :: "char list \<Rightarrow> nat \<Rightarrow> fixed_buffer \<Rightarrow> fixed_buffer result" where
  "put_template dat len b =
     (if len \<le> length dat then Inr (fb_append (take len dat) b) else Inl OutOfBounds)"

fun put_item :: "log_item \<Rightarrow> fixed_buffer \<Rightarrow> fixed_buffer result" where
  "put_item (LShort v) b = formatInteger (Some 32) v b"
| "put_item (LUShort v) b = formatInteger None v b"
| "put_item (LInt v) b = formatInteger (Some 32) v b"
| "put_item (LUInt v) b = formatInteger None v b"
| "put_item (LLong v) b = formatInteger (Some 64) v b"
| "put_item (LULong v) b = formatInteger None v b"
| "put_item (LLongLong v) b = formatInteger (Some 64) v b"
| "put_item (LULongLong v) b = formatInteger None v b"
| "put_item (LFloat s) b = Inr (put_double s b)"
| "put_item (LDouble s) b = Inr (put_double s b)"
| "put_item (LChar c) b = Inr (fb_append [c] b)"
| "put_item (LCStr s) b = Inr (put_cstr s b)"
| "put_item (LUCStr s) b = Inr (put_cstr s b)"
| "put_item (LString s) b = Inr (fb_append s b)"
| "put_item (LBuffer x) b = Inr (fb_append (fb_toString x) b)"
| "put_item (LPointer s) b = Inr (put_cstr s b)"
| "put_item (LTemplate d n) b = put_template d n b"

definition put_items :: "log_item list \<Rightarrow> fixed_buffer \<Rightarrow> fixed_buffer result" where
  "put_items items b = foldl (\<lambda>r x. bind_result r (put_item x)) (Inr b) items"

text \<open>The range of the C type of an item.\<close>

fun item_ok :: "log_item \<Rightarrow> bool" where
  "item_ok (LShort v) = (- (2 ^ 15) \<le> v \<and> v < 2 ^ 15)"
| "item_ok (LUShort v) = (0 \<le> v \<and> v < 2 ^ 16)"
| "item_ok (LInt v) = (- (2 ^ 31) \<le> v \<and> v < 2 ^ 31)"
| "item_ok (LUInt v) = (0 \<le> v \<and> v < 2 ^ 32)"
| "item_ok (LLong v) = (- (2 ^ 63) \<le> v \<and> v < 2 ^ 63)"
| "item_ok (LULong v) = (0 \<le> v \<and> v < 2 ^ 64)"
| "item_ok (LLongLong v) = (- (2 ^ 63) \<le> v \<and> v < 2 ^ 63)"
| "item_ok (LULongLong v) = (0 \<le> v \<and> v < 2 ^ 64)"
| "item_ok (LTemplate d n) = (n \<le> length d)"
| "item_ok _ = True"

subsection \<open>\<open>Logger\<close>\<close>

datatype LogLevel = TRACE | DEBUG | INFO | WARN | ERROR | FATAL

fun level_number :: "LogLevel \<Rightarrow> nat" where
  "level_number TRACE = 0" | "level_number DEBUG = 1" | "level_number INFO = 2"
| "level_number WARN = 3" | "level_number ERROR = 4" | "level_number FATAL = 5"

fun getLevelName :: "LogLevel \<Rightarrow> char list" where
  "getLevelName TRACE = ''TRACE ''" | "getLevelName DEBUG = ''DEBUG ''"
| "getLevelName INFO = ''INFO  ''" | "getLevelName WARN = ''WARN  ''"
| "getLevelName ERROR = ''ERROR ''" | "getLevelName FATAL = ''FATAL ''"

text \<open>The environment is a predicate: which variables are set.\<close>

definition initLogLevel :: "(char list \<Rightarrow> bool) \<Rightarrow> LogLevel" where
  "initLogLevel env =
     (if env ''LOG_TRACE'' then TRACE else if env ''LOG_DEBUG'' then DEBUG else INFO)"

text \<open>\<open>SourceFile\<close>: the part of the name after the last slash.\<close>

fun SourceFile :: "char list \<Rightarrow> char list" where
  "SourceFile [] = []"
| "SourceFile (c # cs) = (if CHR ''/'' \<in> set (c # cs) then SourceFile cs else c # cs)"

record logger =
  log_stream :: fixed_buffer    \<comment> \<open>\<open>stream_\<close>\<close>
  log_level :: LogLevel         \<comment> \<open>\<open>level_\<close>\<close>
  log_line :: int               \<comment> \<open>\<open>line_\<close>\<close>
  basename :: "char list"       \<comment> \<open>\<open>basename_\<close>\<close>

text \<open>
  \<open>formatTime\<close>: \<open>t_time\<close> is the formatted time, of which the first 19 bytes are put; the
  buffer with the microseconds is not used.
\<close>

definition formatTime :: "(int \<Rightarrow> tm) \<Rightarrow> TimeStamp \<Rightarrow> fixed_buffer \<Rightarrow> fixed_buffer result" where
  "formatTime localtime now b =
     (let seconds = microSecondsSinceEpoch now sdiv kMicroSecondsPerSecond;
          microseconds = microSecondsSinceEpoch now smod kMicroSecondsPerSecond;
          t_time = snprintf_keep 64
                     (print_date (localtime seconds) @ ''.'' @ print_zero 6 microseconds)
      in put_item (LTemplate t_time 19) b)"

definition Logger_Impl ::
    "(int \<Rightarrow> tm) \<Rightarrow> TimeStamp \<Rightarrow> int \<Rightarrow> (int \<Rightarrow> char list) \<Rightarrow> LogLevel \<Rightarrow> int \<Rightarrow> char list \<Rightarrow> int
       \<Rightarrow> logger result" where
  "Logger_Impl localtime now tid getErrnoMsg level savedErrno file line =
     bind_result (formatTime localtime now (FixedBuffer kSmallBuffer)) (\<lambda>b1.
     bind_result (put_items [LCStr (Some '' Thread:''), LInt tid, LCStr (Some '' ''),
                             LTemplate (getLevelName level) 6] b1) (\<lambda>b2.
     bind_result (if savedErrno \<noteq> 0
                  then put_items [LCStr (Some (getErrnoMsg savedErrno)), LCStr (Some '' (errno = ''),
                                  LInt savedErrno, LCStr (Some '') '')] b2
                  else Inr b2) (\<lambda>b3.
       Inr \<lparr>log_stream = b3, log_level = level, log_line = line, basename = SourceFile file\<rparr>)))"

text \<open>The three constructors; the last one puts the name of the function.\<close>

definition Logger_info where
  "Logger_info localtime now tid msgs file line = Logger_Impl localtime now tid msgs INFO 0 file line"

definition Logger_level where
  "Logger_level localtime now tid msgs file line level =
     Logger_Impl localtime now tid msgs level 0 file line"

definition Logger_func where
  "Logger_func localtime now tid msgs file line level func =
     bind_result (Logger_Impl localtime now tid msgs level 0 file line) (\<lambda>l.
     bind_result (put_items [LCStr (Some func), LChar (CHR '' '')] (log_stream l)) (\<lambda>b.
       Inr (l\<lparr>log_stream := b\<rparr>)))"

definition finish :: "logger \<Rightarrow> fixed_buffer result" where
  "finish l =
     put_items [LCStr (Some '' - ''), LTemplate (basename l) (length (basename l)),
                LCStr (Some '':''), LInt (log_line l), LChar (CHR 0x0A)] (log_stream l)"

text \<open>The destructor: the line for \<open>g_output\<close>, and whether the process is aborted.\<close>

definition Logger_destroy :: "logger \<Rightarrow> (char list \<times> bool) result" where
  "Logger_destroy l =
     bind_result (finish l) (\<lambda>b. Inr (fb_data b, log_level l = FATAL))"

text \<open>Which of the macros make a logger, by the global level.\<close>

fun log_enabled :: "LogLevel \<Rightarrow> LogLevel \<Rightarrow> bool" where
  "log_enabled g TRACE = (level_number g \<le> level_number TRACE)"
| "log_enabled g DEBUG = (level_number g \<le> level_number DEBUG)"
| "log_enabled g INFO = (level_number g \<le> level_number INFO)"
| "log_enabled g _ = True"

subsection \<open>Facts about numbers\<close>

lemma zero_digit: "d < 10 \<Longrightarrow> zero_digit d = digit_char d"
proof -
  have "\<forall>d \<in> {..<10}. zero_digit d = digit_char d" by code_simp
  then show "d < 10 \<Longrightarrow> zero_digit d = digit_char d" by simp
qed

lemma rev_digit_loop: "0 < v \<Longrightarrow> rev (digit_loop v) = decimal v"
proof (induction v rule: decimal.induct)
  case (1 v)
  show ?case
  proof (cases "v < 10")
    case True
    then have "digit_loop (v div 10) = []" by (simp add: digit_loop.simps)
    then show ?thesis using True 1(2) by (subst digit_loop.simps, subst decimal.simps) (simp add: zero_digit)
  next
    case False
    then have "rev (digit_loop (v div 10)) = decimal (v div 10)" using 1(1) by simp
    then show ?thesis using False by (subst digit_loop.simps, subst decimal.simps) (simp add: zero_digit)
  qed
qed

text \<open>What \<open>formatInteger\<close> puts: nothing for zero, the decimal notation for the others.\<close>

definition integer_text :: "int \<Rightarrow> char list" where
  "integer_text v = (if v = 0 then [] else decimal_int v)"

lemma formatInteger_ok:
  assumes "kMaxNumericSize \<le> avail b" and "\<And>n. w = Some n \<Longrightarrow> v \<noteq> - (2 ^ (n - 1))"
  shows "formatInteger w v b = Inr (fb_write_add (integer_text v) b)"
proof (cases "v = 0")
  case True
  then show ?thesis using assms by (simp add: formatInteger_def integer_text_def digit_loop.simps)
next
  case False
  then have "rev (digit_loop (nat \<bar>v\<bar>)) = decimal (nat \<bar>v\<bar>)" by (intro rev_digit_loop) simp
  then show ?thesis using assms False
    by (cases w) (auto simp: formatInteger_def integer_text_def decimal_int_def Let_def not_less
        nat_abs_int_diff split: if_splits)
qed

lemma length_integer_text:
  assumes "\<bar>v\<bar> < 10 ^ 20"
  shows "length (integer_text v) \<le> 21"
proof -
  have "nat \<bar>v\<bar> < 10 ^ 20" using assms by (simp add: nat_less_iff)
  then have "length (decimal (nat \<bar>v\<bar>)) \<le> 20" by (rule length_decimal_le) simp
  then show ?thesis by (auto simp: integer_text_def decimal_int_def)
qed

subsection \<open>Facts about the buffer\<close>

definition wf_fb :: "fixed_buffer \<Rightarrow> bool" where
  "wf_fb b \<longleftrightarrow> fb_length b \<le> fb_size b"

lemma wf_FixedBuffer [simp]: "wf_fb (FixedBuffer n)"
  by (simp add: wf_fb_def FixedBuffer_def fb_length_def)

lemma wf_fb_append: "wf_fb b \<Longrightarrow> wf_fb (fb_append buf b) \<and> fb_size (fb_append buf b) = fb_size b"
  by (auto simp: wf_fb_def fb_append_def avail_def fb_length_def)

lemma wf_fb_write_add:
  "wf_fb b \<Longrightarrow> length bytes \<le> avail b \<Longrightarrow> wf_fb (fb_write_add bytes b)
     \<and> fb_size (fb_write_add bytes b) = fb_size b"
  by (simp add: wf_fb_def fb_write_add_def avail_def fb_length_def)

lemma formatInteger_wf:
  assumes wf: "wf_fb b" and v: "\<bar>v\<bar> < 10 ^ 20" and ok: "formatInteger w v b = Inr b'"
  shows "wf_fb b' \<and> fb_size b' = fb_size b"
proof (cases "kMaxNumericSize \<le> avail b")
  case True
  then have "v \<noteq> - (2 ^ (n - 1))" if "w = Some n" for n
    using ok that by (auto simp: formatInteger_def Let_def)
  from formatInteger_ok[OF True this] ok have "b' = fb_write_add (integer_text v) b" by auto
  moreover have "length (integer_text v) \<le> avail b"
    using length_integer_text[OF v] True by (simp add: kMaxNumericSize_def)
  ultimately show ?thesis using wf_fb_write_add[OF wf] by simp
next
  case False
  then show ?thesis using ok wf by (simp add: formatInteger_def)
qed

lemma put_double_wf: "wf_fb b \<Longrightarrow> wf_fb (put_double s b) \<and> fb_size (put_double s b) = fb_size b"
  using wf_fb_write_add[of b "snprintf_keep kMaxNumericSize s"]
  by (auto simp: put_double_def snprintf_keep_def kMaxNumericSize_def)

lemma put_item_wf:
  assumes wf: "wf_fb b" and ok: "item_ok x" and run: "put_item x b = Inr b'"
  shows "wf_fb b' \<and> fb_size b' = fb_size b"
proof -
  have num: "wf_fb b' \<and> fb_size b' = fb_size b"
    if "formatInteger w v b = Inr b'" "- (2 ^ 63) \<le> v" "v < 2 ^ 64" for w v
    using formatInteger_wf[OF wf _ that(1)] that(2,3) by simp
  show ?thesis
  proof (cases x)
    case (LTemplate d n)
    then show ?thesis using assms wf_fb_append[OF wf] by (auto simp: put_template_def)
  next
    case (LShort v) then show ?thesis using num[of "Some 32" v] ok run by simp
  next
    case (LUShort v) then show ?thesis using num[of None v] ok run by simp
  next
    case (LInt v) then show ?thesis using num[of "Some 32" v] ok run by simp
  next
    case (LUInt v) then show ?thesis using num[of None v] ok run by simp
  next
    case (LLong v) then show ?thesis using num[of "Some 64" v] ok run by simp
  next
    case (LULong v) then show ?thesis using num[of None v] ok run by simp
  next
    case (LLongLong v) then show ?thesis using num[of "Some 64" v] ok run by simp
  next
    case (LULongLong v) then show ?thesis using num[of None v] ok run by simp
  qed (use wf run put_double_wf[OF wf] wf_fb_append[OF wf] in
      \<open>auto simp: put_cstr_def split: option.splits\<close>)
qed

text \<open>A bind over a list of items is a fold; the invariant goes through it.\<close>

lemma put_items_simps [simp]:
  "put_items [] b = Inr b"
  "put_items (x # xs) b = bind_result (put_item x b) (put_items xs)"
proof -
  have fail: "foldl (\<lambda>r x. bind_result r (put_item x)) (Inl e) xs = Inl e" for e :: failure
    by (induction xs) simp_all
  show "put_items [] b = Inr b" by (simp add: put_items_def)
  show "put_items (x # xs) b = bind_result (put_item x b) (put_items xs)"
    by (cases "put_item x b") (simp_all add: put_items_def fail)
qed

lemma put_items_wf:
  "wf_fb b \<Longrightarrow> \<forall>x \<in> set xs. item_ok x \<Longrightarrow> put_items xs b = Inr b' \<Longrightarrow>
     wf_fb b' \<and> fb_size b' = fb_size b"
proof (induction xs arbitrary: b)
  case (Cons x xs)
  then obtain b1 where b1: "put_item x b = Inr b1" "put_items xs b1 = Inr b'" by auto
  with put_item_wf[of b x b1] Cons.prems have "wf_fb b1 \<and> fb_size b1 = fb_size b" by simp
  then show ?case using Cons.IH[of b1] Cons.prems(2) b1(2) by simp
qed simp

text \<open>The text of an item, when there is room for it.\<close>

fun item_text :: "log_item \<Rightarrow> char list" where
  "item_text (LShort v) = integer_text v"
| "item_text (LUShort v) = integer_text v"
| "item_text (LInt v) = integer_text v"
| "item_text (LUInt v) = integer_text v"
| "item_text (LLong v) = integer_text v"
| "item_text (LULong v) = integer_text v"
| "item_text (LLongLong v) = integer_text v"
| "item_text (LULongLong v) = integer_text v"
| "item_text (LFloat s) = snprintf_keep kMaxNumericSize s"
| "item_text (LDouble s) = snprintf_keep kMaxNumericSize s"
| "item_text (LChar c) = [c]"
| "item_text (LCStr s) = (case s of Some t \<Rightarrow> t | None \<Rightarrow> ''(null)'')"
| "item_text (LUCStr s) = (case s of Some t \<Rightarrow> t | None \<Rightarrow> ''(null)'')"
| "item_text (LString s) = s"
| "item_text (LBuffer x) = fb_toString x"
| "item_text (LPointer s) = (case s of Some t \<Rightarrow> t | None \<Rightarrow> ''(null)'')"
| "item_text (LTemplate d n) = take n d"

text \<open>No signed overflow: the item is not the smallest value of a signed type.\<close>

fun negatable :: "log_item \<Rightarrow> bool" where
  "negatable (LInt v) = (v \<noteq> - (2 ^ 31))"
| "negatable (LLong v) = (v \<noteq> - (2 ^ 63))"
| "negatable (LLongLong v) = (v \<noteq> - (2 ^ 63))"
| "negatable _ = True"

lemma fb_append_fits: "length s < avail b \<Longrightarrow> fb_append s b = fb_write_add s b"
  by (simp add: fb_append_def fb_write_add_def)

lemma put_item_text:
  assumes ok: "item_ok x" "negatable x" and room: "length (item_text x) + kMaxNumericSize \<le> avail b"
  shows "put_item x b = Inr (fb_write_add (item_text x) b)"
proof -
  have room': "kMaxNumericSize \<le> avail b" using room by simp
  have number: "formatInteger None v b = Inr (fb_write_add (integer_text v) b)"
    "v \<noteq> - 2147483648 \<Longrightarrow> formatInteger (Some 32) v b = Inr (fb_write_add (integer_text v) b)"
    "v \<noteq> - 9223372036854775808 \<Longrightarrow>
       formatInteger (Some 64) v b = Inr (fb_write_add (integer_text v) b)" for v
    by (rule formatInteger_ok[OF room']; simp)+
  show ?thesis
  proof (cases x)
    case (LTemplate d n)
    then show ?thesis using ok room
      by (simp add: put_template_def fb_append_fits kMaxNumericSize_def)
  qed (use ok room in \<open>auto simp: number put_double_def put_cstr_def fb_append_fits
        kMaxNumericSize_def split: option.splits\<close>)
qed

lemma avail_write_add: "avail (fb_write_add s b) = avail b - length s"
  by (simp add: avail_def fb_write_add_def fb_length_def)

lemma fb_write_add_simps [simp]:
  "fb_write_add t (fb_write_add s b) = fb_write_add (s @ t) b"
  "fb_data (fb_write_add s b) = fb_data b @ s" "fb_write_add [] b = b"
  by (simp_all add: fb_write_add_def)

lemma put_items_text:
  "\<forall>x \<in> set xs. item_ok x \<and> negatable x \<Longrightarrow>
   length (concat (map item_text xs)) + kMaxNumericSize \<le> avail b \<Longrightarrow>
     put_items xs b = Inr (fb_write_add (concat (map item_text xs)) b)"
proof (induction xs arbitrary: b)
  case (Cons x xs)
  have "put_item x b = Inr (fb_write_add (item_text x) b)"
    using Cons.prems by (intro put_item_text) simp_all
  moreover have "put_items xs (fb_write_add (item_text x) b)
      = Inr (fb_write_add (concat (map item_text xs)) (fb_write_add (item_text x) b))"
    using Cons.prems by (intro Cons.IH) (simp_all add: avail_write_add)
  ultimately show ?case by simp
qed simp

subsection \<open>A whole statement\<close>

text \<open>
  \<open>LOG_X << items;\<close> as the macros expand it: only the first two levels put the name of the
  function, the third uses the constructor without a level.
\<close>

definition log_statement ::
    "(int \<Rightarrow> tm) \<Rightarrow> TimeStamp \<Rightarrow> int \<Rightarrow> (int \<Rightarrow> char list) \<Rightarrow> char list \<Rightarrow> int \<Rightarrow> char list
       \<Rightarrow> LogLevel \<Rightarrow> log_item list \<Rightarrow> (char list \<times> bool) result" where
  "log_statement localtime now tid msgs file line func level items =
     bind_result
       (if level = TRACE \<or> level = DEBUG
        then Logger_func localtime now tid msgs file line level func
        else if level = INFO then Logger_info localtime now tid msgs file line
        else Logger_level localtime now tid msgs file line level) (\<lambda>l.
     bind_result (put_items items (log_stream l)) (\<lambda>b.
       Logger_destroy (l\<lparr>log_stream := b\<rparr>)))"

definition line_head :: "(int \<Rightarrow> tm) \<Rightarrow> TimeStamp \<Rightarrow> int \<Rightarrow> LogLevel \<Rightarrow> char list" where
  "line_head localtime now tid level =
     print_date (localtime (secondsSinceEpoch now)) @ '' Thread:'' @ integer_text tid @ '' ''
     @ getLevelName level"

lemma formatTime_ok:
  assumes "wf_tm (localtime (secondsSinceEpoch now))" and "0 \<le> microSecondsSinceEpoch now"
  shows "formatTime localtime now (FixedBuffer kSmallBuffer)
    = Inr (fb_write_add (print_date (localtime (secondsSinceEpoch now))) (FixedBuffer kSmallBuffer))"
proof -
  let ?d = "print_date (localtime (secondsSinceEpoch now))"
  let ?us = "print_zero 6 (microSecondsSinceEpoch now smod kMicroSecondsPerSecond)"
  have len: "length ?d = 19" using assms(1) by (rule length_print_date)
  have us: "length ?us = 6"
    using smod_million_bound[OF assms(2)] by (intro length_print_zero) simp_all
  have "snprintf_keep 64 (?d @ ''.'' @ ?us) = ?d @ ''.'' @ ?us"
    using len us by (simp add: snprintf_keep_def)
  moreover have "take 19 (?d @ ''.'' @ ?us) = ?d" using len by simp
  moreover have "19 < avail (FixedBuffer kSmallBuffer)"
    by (simp add: avail_def FixedBuffer_def fb_length_def kSmallBuffer_def)
  ultimately show ?thesis using len
    by (simp add: formatTime_def Let_def secondsSinceEpoch_def put_template_def fb_append_fits)
qed

lemma length_getLevelName [simp]: "length (getLevelName level) = 6"
  by (cases level) simp_all

lemma Logger_Impl_ok:
  assumes tm: "wf_tm (localtime (secondsSinceEpoch now))" "0 \<le> microSecondsSinceEpoch now"
    and tid: "0 < tid" "tid < 2 ^ 31"
  shows "Logger_Impl localtime now tid msgs level 0 file line
    = Inr \<lparr>log_stream = fb_write_add (line_head localtime now tid level) (FixedBuffer kSmallBuffer),
           log_level = level, log_line = line, basename = SourceFile file\<rparr>"
    and "length (line_head localtime now tid level) \<le> 60"
proof -
  let ?b = "fb_write_add (print_date (localtime (secondsSinceEpoch now))) (FixedBuffer kSmallBuffer)"
  let ?items = "[LCStr (Some '' Thread:''), LInt tid, LCStr (Some '' ''),
                 LTemplate (getLevelName level) 6]"
  have d: "length (print_date (localtime (secondsSinceEpoch now))) = 19"
    using tm(1) by (rule length_print_date)
  have t: "length (integer_text tid) \<le> 21" using tid by (intro length_integer_text) simp
  have "avail ?b = 3981"
    using d by (simp add: avail_write_add) (simp add: avail_def FixedBuffer_def fb_length_def kSmallBuffer_def)
  then have "put_items ?items ?b = Inr (fb_write_add (concat (map item_text ?items)) ?b)"
    using tid t by (intro put_items_text) (auto simp: kMaxNumericSize_def)
  then show "Logger_Impl localtime now tid msgs level 0 file line
    = Inr \<lparr>log_stream = fb_write_add (line_head localtime now tid level) (FixedBuffer kSmallBuffer),
           log_level = level, log_line = line, basename = SourceFile file\<rparr>"
    by (simp add: Logger_Impl_def formatTime_ok[of localtime now, OF tm] line_head_def del: put_items_simps)
  show "length (line_head localtime now tid level) \<le> 60"
    using d t by (simp add: line_head_def)
qed

definition func_text :: "LogLevel \<Rightarrow> char list \<Rightarrow> char list" where
  "func_text level func = (if level = TRACE \<or> level = DEBUG then func @ '' '' else [])"

lemma constructor_ok:
  assumes tm: "wf_tm (localtime (secondsSinceEpoch now))" "0 \<le> microSecondsSinceEpoch now"
    and tid: "0 < tid" "tid < 2 ^ 31" and func: "length func \<le> 3000"
  shows "(if level = TRACE \<or> level = DEBUG
        then Logger_func localtime now tid msgs file line level func
        else if level = INFO then Logger_info localtime now tid msgs file line
        else Logger_level localtime now tid msgs file line level)
    = Inr \<lparr>log_stream = fb_write_add (line_head localtime now tid level @ func_text level func)
              (FixedBuffer kSmallBuffer),
           log_level = level, log_line = line, basename = SourceFile file\<rparr>"
proof (cases "level = TRACE \<or> level = DEBUG")
  case True
  let ?b = "fb_write_add (line_head localtime now tid level) (FixedBuffer kSmallBuffer)"
  let ?items = "[LCStr (Some func), LChar (CHR '' '')]"
  have "3940 \<le> avail ?b"
    using Logger_Impl_ok(2)[of localtime now, OF tm tid, of level]
    by (simp add: avail_write_add) (simp add: avail_def FixedBuffer_def fb_length_def kSmallBuffer_def)
  then have "put_items ?items ?b = Inr (fb_write_add (concat (map item_text ?items)) ?b)"
    using func by (intro put_items_text) (auto simp: kMaxNumericSize_def)
  then show ?thesis
    using True by (simp add: Logger_func_def Logger_Impl_ok(1)[of localtime now, OF tm tid] func_text_def
        del: put_items_simps)
next
  case False
  then show ?thesis
    by (simp add: Logger_info_def Logger_level_def Logger_Impl_ok(1)[of localtime now, OF tm tid] func_text_def)
qed

lemma log_statement_text:
  assumes tm: "wf_tm (localtime (secondsSinceEpoch now))" "0 \<le> microSecondsSinceEpoch now"
    and tid: "0 < tid" "tid < 2 ^ 31" and line: "0 < line" "line < 2 ^ 31"
    and items: "\<forall>x \<in> set items. item_ok x \<and> negatable x"
    and room: "length func \<le> 3000"
      "length (func_text level func) + length (concat (map item_text items))
         + length (SourceFile file) + 200 \<le> kSmallBuffer"
  shows "log_statement localtime now tid msgs file line func level items
    = Inr (line_head localtime now tid level @ func_text level func @ concat (map item_text items)
             @ '' - '' @ SourceFile file @ '':'' @ decimal_int line @ [CHR 0x0A], level = FATAL)"
proof -
  let ?head = "line_head localtime now tid level @ func_text level func"
  let ?b = "fb_write_add ?head (FixedBuffer kSmallBuffer)"
  let ?b2 = "fb_write_add (concat (map item_text items)) ?b"
  let ?tail = "[LCStr (Some '' - ''), LTemplate (SourceFile file) (length (SourceFile file)),
                LCStr (Some '':''), LInt line, LChar (CHR 0x0A)]"
  have head: "length (line_head localtime now tid level) \<le> 60"
    using Logger_Impl_ok(2)[of localtime now, OF tm tid] .
  have av: "avail (fb_write_add s (FixedBuffer kSmallBuffer)) = 4000 - length s" for s
    by (simp add: avail_write_add) (simp add: avail_def FixedBuffer_def fb_length_def kSmallBuffer_def)
  have "put_items items ?b = Inr ?b2"
    by (rule put_items_text[OF items]) (use room head av in \<open>simp add: kMaxNumericSize_def kSmallBuffer_def\<close>)
  moreover have "length (integer_text line) \<le> 21" using line by (intro length_integer_text) simp
  then have "put_items ?tail ?b2 = Inr (fb_write_add (concat (map item_text ?tail)) ?b2)"
    using line room head av
    by (intro put_items_text) (auto simp: kMaxNumericSize_def kSmallBuffer_def)
  ultimately show ?thesis
    using line constructor_ok[of localtime now, OF tm tid room(1),
        where level = level and msgs = msgs and line = line]
    by (simp add: log_statement_def Logger_destroy_def finish_def del: put_items_simps)
      (simp add: integer_text_def FixedBuffer_def)
qed

subsection \<open>Properties\<close>

text \<open>C33: a log statement produces the line its format promises: the date and time, the thread, the level,
  for the two lowest levels the function, the text of the items, the base name of the file and the line
  number; and it aborts exactly at level \<open>FATAL\<close>. The text of an integer is its decimal notation, except
  that 0 is printed as nothing (the loop that makes the digits does not run for it). This holds for times
  since 1970 with a valid local date, a positive thread id and line number, items in the range of their
  types, none the smallest value of its type (its negation overflows), a function name of at most 3000
  characters, and a line that leaves 200 bytes of the buffer of 4000 free besides the function, the items and the
  base name: these 200 are for the date, the ids, the level and the 48 bytes that every number needs.\<close>

theorem log_line_format:
  assumes tm: "wf_tm (localtime (secondsSinceEpoch now))" "0 \<le> microSecondsSinceEpoch now"
    and tid: "0 < tid" "tid < 2 ^ 31" and line: "0 < line" "line < 2 ^ 31"
    and items: "\<forall>x \<in> set items. item_ok x \<and> negatable x"
    and room: "length func \<le> 3000"
      "length (func_text level func) + length (concat (map item_text items))
         + length (SourceFile file) + 200 \<le> kSmallBuffer"
  shows "log_statement localtime now tid msgs file line func level items
    = Inr (line_head localtime now tid level @ func_text level func @ concat (map item_text items)
             @ '' - '' @ SourceFile file @ '':'' @ decimal_int line @ [CHR 0x0A], level = FATAL)"
  by (rule log_statement_text) fact+

definition sample_tm :: tm where
  "sample_tm = \<lparr>tm_sec = 1, tm_min = 2, tm_hour = 3, tm_mday = 4, tm_mon = 4, tm_year = 123\<rparr>"

theorem log_line_format_witness:
  "log_statement (\<lambda>_. sample_tm) (TimeStamp 0) 42 (\<lambda>_. []) ''src/net/a.cc'' 7 ''f'' WARN
     [LCStr (Some ''n=''), LInt (- 5)]
   = Inr (line_head (\<lambda>_. sample_tm) (TimeStamp 0) 42 WARN @ ''n=-5 - a.cc:7'' @ [CHR 0x0A], False)"
proof -
  have num: "integer_text (- 5) = ''-5''" "decimal_int 7 = ''7''"
    by code_simp+
  show ?thesis
    using log_line_format[of "\<lambda>_. sample_tm" "TimeStamp 0" 42 7 "[LCStr (Some ''n=''), LInt (- 5)]"
        "''f''" WARN "''src/net/a.cc''" "\<lambda>_. []"]
    by (simp add: num wf_tm_def sample_tm_def func_text_def kSmallBuffer_def)
qed

text \<open>Integers are printed in decimal, with two exceptions. Zero is printed as nothing,
  because the loop that makes the digits does not run, and negating the smallest \<open>int\<close>
  overflows. If fewer than 48 bytes are free, the number is left out.\<close>

theorem int_items:
  assumes "- (2 ^ 31) \<le> v" and "v < 2 ^ 31"
  shows "put_item (LInt v) b =
    (if avail b < kMaxNumericSize then Inr b
     else if v = - (2 ^ 31) then Inl SignedOverflow
     else Inr (fb_write_add (if v = 0 then [] else decimal_int v) b))"
  using formatInteger_ok[of b "Some 32" v]
  by (auto simp: integer_text_def formatInteger_def not_less Let_def)

theorem int_items_witness:
  "put_item (LInt 0) (FixedBuffer kSmallBuffer) = Inr (FixedBuffer kSmallBuffer)"
  using int_items[of 0 "FixedBuffer kSmallBuffer"]
  by (simp add: avail_def FixedBuffer_def fb_length_def kSmallBuffer_def kMaxNumericSize_def)

text \<open>The buffer of a log line never overflows. Whatever items are put, with values in
  the ranges of their types, the buffer stays within its size: items that do not fit are left
  out.\<close>

theorem log_buffer_bounded:
  assumes "wf_fb b" and "\<forall>x \<in> set items. item_ok x" and "put_items items b = Inr b'"
  shows "wf_fb b' \<and> fb_size b' = fb_size b"
  using assms by (rule put_items_wf)

theorem log_buffer_bounded_witness:
  "wf_fb (fb_append ''xyz'' (FixedBuffer 3)) \<and> fb_size (fb_append ''xyz'' (FixedBuffer 3)) = fb_size (FixedBuffer 3)"
  using log_buffer_bounded[of "FixedBuffer 3" "[LString ''xyz'']"] by simp

end
