(* ===== verification/Log_File.thy ===== *)
theory Log_File
  imports Log_Stream
begin

section \<open>Log files (src/log/FileUtil.*, src/log/LogFile.*)\<close>

text \<open>
  A \<open>FileUtil\<close> appends to a stream opened in mode \<open>a\<close>; a \<open>LogFile\<close> owns one and replaces
  it by one with a new name when it has grown too large or a new day has begun. The state
  of the model holds the bytes that each file of the directory has been given, in
  \<open>disk\<close>; \<open>fwrite_takes n\<close> is the number of bytes the \<open>n\<close>-th call of \<open>fwrite_unlocked\<close>
  accepts if it is given more, and \<open>time_of n\<close> what the \<open>n\<close>-th call of \<open>time\<close> returns. \<open>fopen\<close> is taken
  to succeed: the constructor passes its result to \<open>setbuffer\<close> without a test, so that a file that
  cannot be opened is a null pointer there.
\<close>

record file_util =
  fu_name :: "char list"        \<comment> \<open>the file behind \<open>fp_\<close>\<close>
  writtenBytes :: nat           \<comment> \<open>\<open>writtenBytes_\<close>\<close>

record log_file =
  lf_basename :: "char list"    \<comment> \<open>\<open>basename_\<close>\<close>
  rollSize :: nat               \<comment> \<open>\<open>rollSize_\<close>\<close>
  flushInterval :: int          \<comment> \<open>\<open>flushInterval_\<close>\<close>
  checkEveryN :: nat            \<comment> \<open>\<open>checkEveryN_\<close>\<close>
  count :: nat                  \<comment> \<open>\<open>count_\<close>\<close>
  startOfPeriod :: int          \<comment> \<open>\<open>startOfPeriod_\<close>\<close>
  lastRoll :: int               \<comment> \<open>\<open>lastRoll_\<close>\<close>
  lastFlush :: int              \<comment> \<open>\<open>lastFlush_\<close>\<close>
  lf_file :: "file_util option" \<comment> \<open>\<open>file_\<close>\<close>
  disk :: "char list \<Rightarrow> char list"
  flushes :: nat
  fwrite_takes :: "nat \<Rightarrow> nat"
  fwrites :: nat
  time_of :: "nat \<Rightarrow> int"
  times :: nat

definition kRollPerSeconds :: int where "kRollPerSeconds = 60 * 60 * 24"

subsection \<open>\<open>FileUtil\<close>\<close>

definition FileUtil :: "char list \<Rightarrow> file_util" where
  "FileUtil filename = \<lparr>fu_name = filename, writtenBytes = 0\<rparr>"

text \<open>\<open>write\<close>: the number of bytes taken, and the state afterwards.\<close>

definition fu_write :: "file_util \<Rightarrow> char list \<Rightarrow> log_file \<Rightarrow> nat \<times> log_file" where
  "fu_write f dat s =
     (let n = min (length dat) (fwrite_takes s (fwrites s))
      in (n, s\<lparr>fwrites := Suc (fwrites s),
               disk := (disk s)(fu_name f := disk s (fu_name f) @ take n dat)\<rparr>))"

text \<open>
  The loop of \<open>append\<close>: it runs while \<open>written \<noteq> len\<close>. After a write that takes everything
  \<open>written\<close> is \<open>len\<close>, and after a short write there is a \<open>break\<close>, so one round is enough.
\<close>

definition fu_append :: "char list \<Rightarrow> file_util \<Rightarrow> log_file \<Rightarrow> file_util \<times> log_file" where
  "fu_append dat f s =
     (if length dat = 0 then (f, s)
      else let (n, s1) = fu_write f dat s;
               written = (if n \<noteq> length dat then 0 else n)
           in (f\<lparr>writtenBytes := writtenBytes f + written\<rparr>, s1))"

definition fu_flush :: "log_file \<Rightarrow> log_file" where
  "fu_flush s = s\<lparr>flushes := Suc (flushes s)\<rparr>"

subsection \<open>\<open>LogFile\<close>\<close>

definition take_time :: "log_file \<Rightarrow> int \<times> log_file" where
  "take_time s = (time_of s (times s), s\<lparr>times := Suc (times s)\<rparr>)"

text \<open>\<open>strftime\<close> with \<open>.%Y-%m-%d %H:%M:%S\<close> prints the date in the format of \<open>print_date\<close>.\<close>

definition getLogFileName :: "(int \<Rightarrow> tm) \<Rightarrow> char list \<Rightarrow> int \<Rightarrow> char list" where
  "getLogFileName localtime base now =
     base @ snprintf_keep 32 (CHR ''.'' # print_date (localtime now)) @ ''.log''"

definition rollFile :: "(int \<Rightarrow> tm) \<Rightarrow> log_file \<Rightarrow> bool \<times> log_file" where
  "rollFile localtime s =
     (let (now, s1) = take_time s;
          filename = getLogFileName localtime (lf_basename s1) now;
          start = (now sdiv kRollPerSeconds) * kRollPerSeconds
      in if now > lastRoll s1
         then (True, s1\<lparr>lastRoll := now, lastFlush := now, startOfPeriod := start,
                        lf_file := Some (FileUtil filename)\<rparr>)
         else (False, s1))"

definition LogFile ::
    "(int \<Rightarrow> tm) \<Rightarrow> char list \<Rightarrow> nat \<Rightarrow> int \<Rightarrow> nat \<Rightarrow> (char list \<Rightarrow> char list)
       \<Rightarrow> (nat \<Rightarrow> nat) \<Rightarrow> (nat \<Rightarrow> int) \<Rightarrow> log_file" where
  "LogFile localtime base roll interval everyN dsk takes clk =
     snd (rollFile localtime
       \<lparr>lf_basename = base, rollSize = roll, flushInterval = interval, checkEveryN = everyN,
        count = 0, startOfPeriod = 0, lastRoll = 0, lastFlush = 0, lf_file = None, disk = dsk,
        flushes = 0, fwrite_takes = takes, fwrites = 0, time_of = clk, times = 0\<rparr>)"

definition appendInLock :: "(int \<Rightarrow> tm) \<Rightarrow> char list \<Rightarrow> log_file \<Rightarrow> log_file result" where
  "appendInLock localtime dat s =
     (case lf_file s of None \<Rightarrow> Inl NullPointer
      | Some f \<Rightarrow>
          let (f1, s0) = fu_append dat f s;
              s1 = s0\<lparr>lf_file := Some f1\<rparr>
          in if writtenBytes f1 > rollSize s1
             then Inr (snd (rollFile localtime s1))
             else let s2 = s1\<lparr>count := count s1 + 1\<rparr>
                  in if count s2 \<ge> checkEveryN s2
                     then let (now, s3) = take_time (s2\<lparr>count := 0\<rparr>);
                              thisPeriod = (now sdiv kRollPerSeconds) * kRollPerSeconds
                          in if thisPeriod \<noteq> startOfPeriod s3
                             then Inr (snd (rollFile localtime s3))
                             else if now - lastFlush s3 > flushInterval s3
                             then Inr (fu_flush (s3\<lparr>lastFlush := now\<rparr>))
                             else Inr s3
                     else Inr s2)"

definition lf_append :: "(int \<Rightarrow> tm) \<Rightarrow> char list \<Rightarrow> log_file \<Rightarrow> log_file result" where
  "lf_append localtime dat s = appendInLock localtime dat s"

definition lf_flush :: "log_file \<Rightarrow> log_file result" where
  "lf_flush s = (case lf_file s of None \<Rightarrow> Inl NullPointer | Some f \<Rightarrow> Inr (fu_flush s))"

subsection \<open>Facts\<close>

lemmas log_file_defs = fu_write_def take_time_def fu_flush_def rollFile_def

definition full_write :: "char list \<Rightarrow> log_file \<Rightarrow> bool" where
  "full_write dat s \<longleftrightarrow> length dat \<le> fwrite_takes s (fwrites s)"

lemma rollFile_keeps:
  "disk (snd (rollFile localtime s)) = disk s"
  "fwrite_takes (snd (rollFile localtime s)) = fwrite_takes s"
  "fwrites (snd (rollFile localtime s)) = fwrites s"
  "rollSize (snd (rollFile localtime s)) = rollSize s"
  "lf_file s = Some f \<Longrightarrow> \<exists>f'. lf_file (snd (rollFile localtime s)) = Some f'"
  by (simp_all add: log_file_defs Let_def)

lemma fu_append_full:
  assumes "full_write dat s"
  shows "fu_append dat f s = (f\<lparr>writtenBytes := writtenBytes f + length dat\<rparr>,
    s\<lparr>fwrites := fwrites s + (if dat = [] then 0 else 1),
      disk := (disk s)(fu_name f := disk s (fu_name f) @ dat)\<rparr>)"
  using assms by (simp add: fu_append_def fu_write_def full_write_def min_def)

text \<open>The current file after \<open>rollFile\<close>, and when it changes.\<close>

lemma rollFile_cases:
  obtains (rolled) now where "now = time_of s (times s)" "now > lastRoll s"
    "rollFile localtime s = (True, s\<lparr>times := Suc (times s), lastRoll := now, lastFlush := now,
       startOfPeriod := (now sdiv kRollPerSeconds) * kRollPerSeconds,
       lf_file := Some (FileUtil (getLogFileName localtime (lf_basename s) now))\<rparr>)"
  | (kept) "time_of s (times s) \<le> lastRoll s" "rollFile localtime s = (False, s\<lparr>times := Suc (times s)\<rparr>)"
proof (cases "time_of s (times s) > lastRoll s")
  case True
  show ?thesis by (rule rolled[OF refl True]) (use True in \<open>simp add: log_file_defs Let_def\<close>)
next
  case False
  show ?thesis by (rule kept) (use False in \<open>simp_all add: log_file_defs Let_def\<close>)
qed

lemma fu_append_keeps:
  "fu_append dat f s = (f1, s0) \<Longrightarrow> fu_name f1 = fu_name f \<and> rollSize s0 = rollSize s
     \<and> fwrite_takes s0 = fwrite_takes s \<and> lf_file s0 = lf_file s
     \<and> (\<exists>n \<le> length dat. disk s0 = (disk s)(fu_name f := disk s (fu_name f) @ take n dat)
          \<and> (writtenBytes f1 = writtenBytes f + n \<or> writtenBytes f1 = writtenBytes f \<and> n < length dat))"
  by (cases "dat = []")
    (auto simp: fu_append_def fu_write_def Let_def split: if_splits
      intro!: exI[of _ "min (length dat) (fwrite_takes s (fwrites s))"])

text \<open>Whatever the clock says, \<open>append\<close> changes one file: the one that was open before.\<close>

lemma appendInLock_disk:
  assumes opened: "lf_file s = Some f"
  shows "\<exists>s' n. appendInLock localtime dat s = Inr s' \<and> lf_file s' \<noteq> None \<and> n \<le> length dat
    \<and> disk s' = (disk s)(fu_name f := disk s (fu_name f) @ take n dat)
    \<and> (full_write dat s \<longrightarrow> n = length dat)"
proof -
  obtain f1 s0 where fa: "fu_append dat f s = (f1, s0)" by fastforce
  note keeps = fu_append_keeps[OF fa]
  let ?s1 = "s0\<lparr>lf_file := Some f1\<rparr>"
  have "\<exists>s'. appendInLock localtime dat s = Inr s' \<and> disk s' = disk s0 \<and> lf_file s' \<noteq> None"
    by (simp add: rollFile_keeps appendInLock_def opened fa Let_def take_time_def fu_flush_def)
  moreover obtain n where "n \<le> length dat"
      "disk s0 = (disk s)(fu_name f := disk s (fu_name f) @ take n dat)" using keeps by blast
  moreover have "disk s0 = (disk s)(fu_name f := disk s (fu_name f) @ dat)" if "full_write dat s"
    using fa fu_append_full[OF that, of f] by auto
  ultimately show ?thesis
    by (cases "full_write dat s") (auto intro: exI[of _ "length dat"])
qed

subsection \<open>Properties\<close>

text \<open>A log file does not lose, mix up or reorder what it is given. \<open>append\<close> always
  succeeds on an open log file, leaves one open, and adds a prefix of the data to the file
  that was open before, and to no other one: all of the data unless the C library takes
  less.\<close>

theorem log_append_writes_one_file:
  assumes "lf_file s = Some f"
  shows "\<exists>s' n. lf_append localtime dat s = Inr s' \<and> lf_file s' \<noteq> None \<and> n \<le> length dat
    \<and> disk s' = (disk s)(fu_name f := disk s (fu_name f) @ take n dat)
    \<and> (full_write dat s \<longrightarrow> n = length dat)"
  using appendInLock_disk[OF assms] by (simp add: lf_append_def)

definition sample_log_file :: log_file where
  "sample_log_file = LogFile (\<lambda>_. sample_tm) ''app'' 10 3 1024 (\<lambda>_. []) (\<lambda>_. 100) (\<lambda>n. int n + 1)"

lemma sample_log_file_open: "\<exists>f. lf_file sample_log_file = Some f \<and> writtenBytes f = 0"
  by (simp add: sample_log_file_def LogFile_def log_file_defs FileUtil_def)

lemma sample_log_file_fields [simp]:
  "disk sample_log_file = (\<lambda>_. [])" "rollSize sample_log_file = 10"
  "lastRoll sample_log_file = 1" "time_of sample_log_file (times sample_log_file) = 2"
  "full_write ''hello world'' sample_log_file"
  by (simp_all add: sample_log_file_def LogFile_def log_file_defs full_write_def)

theorem log_append_writes_one_file_witness:
  "\<exists>f s'. lf_file sample_log_file = Some f
     \<and> lf_append (\<lambda>_. sample_tm) ''hello world'' sample_log_file = Inr s'
     \<and> disk s' (fu_name f) = ''hello world''"
proof -
  obtain f where f: "lf_file sample_log_file = Some f" using sample_log_file_open by blast
  from log_append_writes_one_file[OF f, of "\<lambda>_. sample_tm" "''hello world''"] f
  show ?thesis by auto
qed

text \<open>Files are rolled. If the C library takes everything, then after \<open>append\<close> the open
  file holds at most \<open>rollSize_\<close> bytes counted since it was opened, with one exception: a
  file is not rolled in the second in which it was created, however large it has become.
  A new file starts with a count of zero.\<close>

theorem log_file_is_rolled:
  assumes opened: "lf_file s = Some f" and full: "full_write dat s"
    and clk: "lastRoll s < time_of s (times s)"
  shows "\<exists>s' f'. lf_append localtime dat s = Inr s' \<and> lf_file s' = Some f'
    \<and> writtenBytes f' \<le> rollSize s
    \<and> (if writtenBytes f + length dat > rollSize s
       then fu_name f' = getLogFileName localtime (lf_basename s) (time_of s (times s))
         \<and> writtenBytes f' = 0 \<and> lastRoll s' = time_of s (times s)
       else writtenBytes f' \<in> {0, writtenBytes f + length dat})"
proof -
  let ?f1 = "f\<lparr>writtenBytes := writtenBytes f + length dat\<rparr>"
  let ?s0 = "s\<lparr>fwrites := fwrites s + (if dat = [] then 0 else 1),
      disk := (disk s)(fu_name f := disk s (fu_name f) @ dat)\<rparr>"
  have fa: "fu_append dat f s = (?f1, ?s0)" by (rule fu_append_full[OF full])
  show ?thesis
    using clk
    by (auto simp: lf_append_def appendInLock_def opened fa Let_def log_file_defs FileUtil_def
        simp del: fun_upd_apply)
qed

theorem log_file_is_rolled_witness:
  "\<exists>s' f'. lf_append (\<lambda>_. sample_tm) ''hello world'' sample_log_file = Inr s'
     \<and> lf_file s' = Some f' \<and> writtenBytes f' = 0 \<and> lastRoll s' = 2"
proof -
  obtain f where f: "lf_file sample_log_file = Some f" "writtenBytes f = 0"
    using sample_log_file_open by blast
  from log_file_is_rolled[OF f(1), of "''hello world''" "\<lambda>_. sample_tm"] f(2) show ?thesis by auto
qed

end
