(* ===== verification/Log_Async.thy ===== *)
theory Log_Async
  imports Log_File
begin

section \<open>The log back end (src/log/AsyncLogging.*)\<close>

text \<open>
  The state of an \<open>AsyncLogging\<close> object: the buffers that the front end and the back end
  thread exchange, where the thread is, and what it has handed to \<open>LogFile::append\<close>. Unique
  pointers are options. The two critical sections are the functions \<open>append_line\<close> and
  \<open>swap_buffers\<close> (a wait on the condition variable gives up the lock, so what follows it is
  a section of its own that may run at any time after it began to wait, since the wait may
  time out). The step relation interleaves them. \<open>given\<close> records the bytes of the lines that
  were accepted, in the order of the calls of \<open>append\<close>.
\<close>

datatype async_pos =
    Idle                 \<comment> \<open>the thread has not been started\<close>
  | Starting             \<comment> \<open>it exists and has not reached the first assertion\<close>
  | AtTest               \<comment> \<open>at \<open>while (running_)\<close>\<close>
  | AtLock               \<comment> \<open>behind the three assertions, before the critical section\<close>
  | Writing nat          \<comment> \<open>in the loop that writes, at this index\<close>
  | Finished
  | StartAssertFailed
  | LoopAssertFailed

record async =
  running :: bool                              \<comment> \<open>\<open>running_\<close>\<close>
  currentBuffer :: "fixed_buffer option"       \<comment> \<open>\<open>currentBuffer_\<close>\<close>
  nextBuffer :: "fixed_buffer option"          \<comment> \<open>\<open>nextBuffer_\<close>\<close>
  buffers :: "fixed_buffer list"               \<comment> \<open>\<open>buffers_\<close>\<close>
  newBuffer1 :: "fixed_buffer option"
  newBuffer2 :: "fixed_buffer option"
  buffersToWrite :: "fixed_buffer list"
  a_pos :: async_pos
  a_output :: "char list list"
  given :: "char list"

definition large_buffer :: fixed_buffer where "large_buffer = FixedBuffer kLargeBuffer"

definition AsyncLogging :: async where
  "AsyncLogging = \<lparr>running = False, currentBuffer = Some large_buffer,
     nextBuffer = Some large_buffer, buffers = [], newBuffer1 = None, newBuffer2 = None,
     buffersToWrite = [], a_pos = Idle, a_output = [], given = []\<rparr>"

subsection \<open>The two critical sections and the rest of the loop\<close>

definition append_line :: "char list \<Rightarrow> async \<Rightarrow> async result" where
  "append_line logline a =
     (case currentBuffer a of None \<Rightarrow> Inl NullPointer
      | Some cur \<Rightarrow>
          if avail cur > length logline
          then Inr (a\<lparr>currentBuffer := Some (fb_append logline cur)\<rparr>)
          else let a1 = a\<lparr>buffers := buffers a @ [cur]\<rparr>;
                   (fresh, a2) = (case nextBuffer a1 of
                       Some b \<Rightarrow> (b, a1\<lparr>nextBuffer := None\<rparr>)
                     | None \<Rightarrow> (large_buffer, a1))
               in Inr (a2\<lparr>currentBuffer := Some (fb_append logline fresh)\<rparr>))"

definition push_current :: "fixed_buffer option \<Rightarrow> fixed_buffer list \<Rightarrow> fixed_buffer list result" where
  "push_current cur bs = (case cur of None \<Rightarrow> Inl NullPointer | Some b \<Rightarrow> Inr (bs @ [b]))"

definition swap_buffers :: "async \<Rightarrow> async result" where
  "swap_buffers a =
     bind_result (push_current (currentBuffer a) (buffers a)) (\<lambda>bs.
       let a1 = a\<lparr>currentBuffer := newBuffer1 a, newBuffer1 := None,
                  buffersToWrite := bs, buffers := buffersToWrite a\<rparr>
       in Inr (case nextBuffer a1 of
                 None \<Rightarrow> a1\<lparr>nextBuffer := newBuffer2 a1, newBuffer2 := None\<rparr>
               | Some _ \<Rightarrow> a1))"

text \<open>\<open>if (!newBufferN) { ... }\<close>: take the last buffer, emptied, in place of a null pointer.\<close>

definition refill ::
    "fixed_buffer option \<Rightarrow> fixed_buffer list \<Rightarrow> (fixed_buffer option \<times> fixed_buffer list) result" where
  "refill nb bs =
     (case nb of Some b \<Rightarrow> Inr (Some b, bs)
      | None \<Rightarrow> bind_result (check (bs \<noteq> [])) (\<lambda>_. Inr (Some (fb_reset (last bs)), butlast bs)))"

definition recycle :: "async \<Rightarrow> async result" where
  "recycle a =
     (let bs = (if length (buffersToWrite a) > 2 then take 2 (buffersToWrite a) else buffersToWrite a)
      in bind_result (refill (newBuffer1 a) bs) (\<lambda>(nb1, bs1).
         bind_result (refill (newBuffer2 a) bs1) (\<lambda>(nb2, bs2).
           Inr (a\<lparr>newBuffer1 := nb1, newBuffer2 := nb2, buffersToWrite := []\<rparr>))))"

definition is_empty_buffer :: "fixed_buffer option \<Rightarrow> bool" where
  "is_empty_buffer nb = (case nb of None \<Rightarrow> False | Some b \<Rightarrow> fb_length b = 0)"

definition loop_asserts :: "async \<Rightarrow> bool" where
  "loop_asserts a \<longleftrightarrow> is_empty_buffer (newBuffer1 a) \<and> is_empty_buffer (newBuffer2 a)
     \<and> buffersToWrite a = []"

text \<open>The bytes that \<open>append_line\<close> keeps: a line that does not fit into an empty buffer is lost.\<close>

definition kept :: "char list \<Rightarrow> char list" where
  "kept logline = (if length logline < kLargeBuffer then logline else [])"

inductive async_step :: "async \<Rightarrow> async \<Rightarrow> bool" where
  start:
    "a_pos a = Idle \<Longrightarrow> async_step a (a\<lparr>running := True, a_pos := Starting\<rparr>)"
| thread_begins:
    "a_pos a = Starting \<Longrightarrow>
     async_step a (if running a
       then a\<lparr>a_pos := AtTest, newBuffer1 := Some large_buffer, newBuffer2 := Some large_buffer\<rparr>
       else a\<lparr>a_pos := StartAssertFailed\<rparr>)"
| append:
    "append_line logline a = Inr b \<Longrightarrow> async_step a (b\<lparr>given := given a @ kept logline\<rparr>)"
| stop:
    "a_pos a \<noteq> Idle \<Longrightarrow> async_step a (a\<lparr>running := False\<rparr>)"
| leave:
    "a_pos a = AtTest \<Longrightarrow> \<not> running a \<Longrightarrow> async_step a (a\<lparr>a_pos := Finished\<rparr>)"
| enter:
    "a_pos a = AtTest \<Longrightarrow> running a \<Longrightarrow>
     async_step a (if loop_asserts a then a\<lparr>a_pos := AtLock\<rparr> else a\<lparr>a_pos := LoopAssertFailed\<rparr>)"
| swap:
    "a_pos a = AtLock \<Longrightarrow> swap_buffers a = Inr b \<Longrightarrow>
     async_step a (if buffersToWrite b \<noteq> [] then b\<lparr>a_pos := Writing 0\<rparr>
                   else b\<lparr>a_pos := LoopAssertFailed\<rparr>)"
| write_one:
    "a_pos a = Writing i \<Longrightarrow> i < length (buffersToWrite a) \<Longrightarrow>
     async_step a (a\<lparr>a_output := a_output a @ [fb_data (buffersToWrite a ! i)],
                     a_pos := Writing (Suc i)\<rparr>)"
| recycle_ok:
    "a_pos a = Writing (length (buffersToWrite a)) \<Longrightarrow> recycle a = Inr b \<Longrightarrow>
     async_step a (b\<lparr>a_pos := AtTest\<rparr>)"
| recycle_fails:
    "a_pos a = Writing (length (buffersToWrite a)) \<Longrightarrow> recycle a = Inl e \<Longrightarrow>
     async_step a (a\<lparr>a_pos := LoopAssertFailed\<rparr>)"

inductive async_reachable :: "async \<Rightarrow> bool" where
  init: "async_reachable AsyncLogging"
| step: "async_reachable a \<Longrightarrow> async_step a b \<Longrightarrow> async_reachable b"

subsection \<open>Invariant\<close>

definition large :: "fixed_buffer \<Rightarrow> bool" where
  "large b \<longleftrightarrow> fb_size b = kLargeBuffer"

definition fresh_option :: "fixed_buffer option \<Rightarrow> bool" where
  "fresh_option nb \<longleftrightarrow> (case nb of None \<Rightarrow> False | Some b \<Rightarrow> b = large_buffer)"

text \<open>The bytes that have been given and not yet been written.\<close>

fun unwritten :: "async_pos \<Rightarrow> fixed_buffer list \<Rightarrow> char list" where
  "unwritten (Writing i) bs = concat (map fb_data (drop i bs))"
| "unwritten _ bs = []"

definition waiting :: "async \<Rightarrow> char list" where
  "waiting a = unwritten (a_pos a) (buffersToWrite a) @ concat (map fb_data (buffers a))
     @ (case currentBuffer a of None \<Rightarrow> [] | Some b \<Rightarrow> fb_data b)"

fun pos_inv :: "async_pos \<Rightarrow> async \<Rightarrow> bool" where
  "pos_inv Idle a = True"
| "pos_inv Starting a = (buffersToWrite a = [])"
| "pos_inv AtTest a = (fresh_option (newBuffer1 a) \<and> fresh_option (newBuffer2 a) \<and> buffersToWrite a = [])"
| "pos_inv AtLock a = (fresh_option (newBuffer1 a) \<and> fresh_option (newBuffer2 a) \<and> buffersToWrite a = [])"
| "pos_inv (Writing i) a = (newBuffer1 a = None \<and> i \<le> length (buffersToWrite a)
     \<and> (if newBuffer2 a = None then 2 \<le> length (buffersToWrite a)
        else fresh_option (newBuffer2 a) \<and> buffersToWrite a \<noteq> [])
     \<and> (\<forall>b \<in> set (buffersToWrite a). large b))"
| "pos_inv Finished a = True"
| "pos_inv StartAssertFailed a = (\<not> running a)"
| "pos_inv LoopAssertFailed a = False"

definition async_inv :: "async \<Rightarrow> bool" where
  "async_inv a \<longleftrightarrow>
     (\<exists>b. currentBuffer a = Some b \<and> large b)
     \<and> (\<forall>b \<in> set (buffers a). large b)
     \<and> (if nextBuffer a = None then buffers a \<noteq> [] else fresh_option (nextBuffer a))
     \<and> pos_inv (a_pos a) a
     \<and> (a_pos a = Idle \<longrightarrow> buffersToWrite a = [])
     \<and> given a = concat (a_output a) @ waiting a"

lemma large_buffer_simps [simp]: "large large_buffer" "fb_data large_buffer = []"
  "fb_size large_buffer = kLargeBuffer" "fb_length large_buffer = 0"
  "avail large_buffer = kLargeBuffer"
  by (simp_all add: large_def large_buffer_def FixedBuffer_def fb_length_def avail_def)

lemma large_append [simp]: "large (fb_append s b) = large b"
  by (simp add: large_def fb_append_def)

lemma reset_large: "large b \<Longrightarrow> fb_reset b = large_buffer"
  by (cases b) (simp add: large_def fb_reset_def large_buffer_def FixedBuffer_def)

lemma fb_append_kept: "fb_data (fb_append s large_buffer) = kept s"
  by (simp add: fb_append_def kept_def)

lemma fresh_option_iff: "fresh_option nb \<longleftrightarrow> nb = Some large_buffer"
  by (auto simp: fresh_option_def split: option.splits)

lemma avail_large: "large b \<Longrightarrow> length s < avail b \<Longrightarrow> length s < kLargeBuffer"
  by (simp add: avail_def large_def)

lemma append_line_fields:
  "append_line l a = Inr b \<Longrightarrow> running b = running a \<and> newBuffer1 b = newBuffer1 a
     \<and> newBuffer2 b = newBuffer2 a \<and> buffersToWrite b = buffersToWrite a \<and> a_pos b = a_pos a
     \<and> a_output b = a_output a \<and> given b = given a"
  by (auto simp: append_line_def Let_def split: option.splits if_splits)

lemma pos_inv_cong:
  "running b = running a \<Longrightarrow> newBuffer1 b = newBuffer1 a \<Longrightarrow> newBuffer2 b = newBuffer2 a \<Longrightarrow>
   buffersToWrite b = buffersToWrite a \<Longrightarrow> pos_inv p b = pos_inv p a"
  by (cases p) simp_all

lemma append_line_inv:
  assumes inv: "async_inv a" and run: "append_line l a = Inr b"
  shows "async_inv (b\<lparr>given := given a @ kept l\<rparr>)"
proof -
  note same = append_line_fields[OF run]
  from inv obtain cur where cur: "currentBuffer a = Some cur" "large cur"
    by (auto simp: async_inv_def)
  have pos: "pos_inv (a_pos a) (b\<lparr>given := given a @ kept l\<rparr>)"
    using inv same pos_inv_cong[of "b\<lparr>given := given a @ kept l\<rparr>" a "a_pos a"]
    by (simp add: async_inv_def)
  show ?thesis
  proof (cases "length l < avail cur")
    case True
    then have "b = a\<lparr>currentBuffer := Some (fb_append l cur)\<rparr>" "kept l = l"
        "fb_data (fb_append l cur) = fb_data cur @ l"
      using run cur avail_large[OF cur(2)] by (auto simp: append_line_def kept_def fb_append_def)
    then show ?thesis using inv pos cur by (auto simp: async_inv_def waiting_def)
  next
    case False
    let ?nx = "nextBuffer a"
    have nx: "?nx = None \<or> ?nx = Some large_buffer"
      using inv by (auto simp: async_inv_def fresh_option_iff split: if_splits)
    then have b: "b = a\<lparr>buffers := buffers a @ [cur], nextBuffer := None,
        currentBuffer := Some (fb_append l large_buffer)\<rparr>"
      using run cur(1) False by (cases a) (auto simp: append_line_def Let_def)
    show ?thesis using inv pos cur by (auto simp: b async_inv_def waiting_def fb_append_kept)
  qed
qed

lemma swap_inv:
  assumes inv: "async_inv a" and at: "a_pos a = AtLock" and run: "swap_buffers a = Inr b"
  shows "buffersToWrite b \<noteq> []" and "async_inv (b\<lparr>a_pos := Writing 0\<rparr>)"
    and "currentBuffer b = Some large_buffer" and "buffers b = []"
    and "a_output b = a_output a" and "given b = given a" and "running b = running a"
proof -
  from inv obtain cur where cur: "currentBuffer a = Some cur" "large cur"
    by (auto simp: async_inv_def)
  have fresh: "newBuffer1 a = Some large_buffer" "newBuffer2 a = Some large_buffer"
      "buffersToWrite a = []"
    using inv at by (auto simp: async_inv_def fresh_option_iff)
  have nx: "if nextBuffer a = None then buffers a \<noteq> [] else nextBuffer a = Some large_buffer"
    using inv by (auto simp: async_inv_def fresh_option_iff)
  have b: "b = (let a1 = a\<lparr>currentBuffer := Some large_buffer, newBuffer1 := None,
                  buffersToWrite := buffers a @ [cur], buffers := []\<rparr>
       in if nextBuffer a = None then a1\<lparr>nextBuffer := Some large_buffer, newBuffer2 := None\<rparr> else a1)"
    using run cur(1) fresh by (auto simp: swap_buffers_def push_current_def Let_def split: option.splits)
  show "buffersToWrite b \<noteq> []" "currentBuffer b = Some large_buffer" "buffers b = []"
    "a_output b = a_output a" "given b = given a" "running b = running a"
    by (simp_all add: b Let_def)
  show "async_inv (b\<lparr>a_pos := Writing 0\<rparr>)"
    using inv at cur fresh nx
    by (cases "nextBuffer a"; cases "buffers a")
      (auto simp: b Let_def async_inv_def waiting_def fresh_option_iff)
qed

lemma recycle_inv:
  assumes inv: "async_inv a" and at: "a_pos a = Writing (length (buffersToWrite a))"
  shows "\<exists>b. recycle a = Inr b \<and> async_inv (b\<lparr>a_pos := AtTest\<rparr>) \<and> a_output b = a_output a
    \<and> given b = given a \<and> running b = running a
    \<and> currentBuffer b = currentBuffer a \<and> buffers b = buffers a"
proof -
  let ?bs = "if length (buffersToWrite a) > 2 then take 2 (buffersToWrite a) else buffersToWrite a"
  have pos: "newBuffer1 a = None" "if newBuffer2 a = None then 2 \<le> length (buffersToWrite a)
        else newBuffer2 a = Some large_buffer \<and> buffersToWrite a \<noteq> []"
      "\<forall>b \<in> set (buffersToWrite a). large b"
    using inv at by (auto simp: async_inv_def fresh_option_iff)
  have len: "?bs \<noteq> []" using pos(2) by (auto split: if_splits)
  have large: "\<forall>b \<in> set ?bs. large b" using pos(3) by (auto dest: in_set_takeD)
  have r1: "refill (newBuffer1 a) ?bs = Inr (Some large_buffer, butlast ?bs)"
    using pos(1) len large by (simp add: refill_def reset_large)
  have "refill (newBuffer2 a) (butlast ?bs) = Inr (Some large_buffer,
      if newBuffer2 a = None then butlast (butlast ?bs) else butlast ?bs)"
  proof (cases "newBuffer2 a")
    case None
    then have "2 \<le> length ?bs" using pos(2) by (auto split: if_splits)
    then have ne: "butlast ?bs \<noteq> []" by (cases ?bs rule: rev_cases) auto
    then have "large (last (butlast ?bs))" using large by (meson in_set_butlastD last_in_set)
    then show ?thesis using None ne by (simp add: refill_def reset_large)
  next
    case (Some b2)
    then show ?thesis using pos(2) by (simp add: refill_def)
  qed
  then have "recycle a = Inr (a\<lparr>newBuffer1 := Some large_buffer, newBuffer2 := Some large_buffer,
      buffersToWrite := []\<rparr>)"
    using r1 by (simp add: recycle_def Let_def)
  then show ?thesis
    using inv at by (auto simp: async_inv_def waiting_def fresh_option_iff)
qed

lemma async_step_inv: "async_step a b \<Longrightarrow> async_inv a \<Longrightarrow> async_inv b"
proof (induction rule: async_step.induct)
  case (append logline a b)
  then show ?case by (intro append_line_inv)
next
  case (stop a)
  then show ?case
    by (cases "a_pos a") (auto simp: async_inv_def waiting_def)
next
  case (swap a b)
  then show ?case using swap_inv by simp
next
  case (write_one a i)
  then have "drop i (buffersToWrite a) = buffersToWrite a ! i # drop (Suc i) (buffersToWrite a)"
    by (simp add: Cons_nth_drop_Suc)
  then show ?case using write_one by (auto simp: async_inv_def waiting_def)
next
  case (recycle_ok a b)
  then show ?case using recycle_inv by fastforce
next
  case (recycle_fails a e)
  then show ?case using recycle_inv by fastforce
next
  case (enter a)
  then show ?case
    by (auto simp: async_inv_def waiting_def loop_asserts_def is_empty_buffer_def fresh_option_iff)
qed (auto simp: async_inv_def waiting_def fresh_option_iff)

lemma async_reachable_inv: "async_reachable a \<Longrightarrow> async_inv a"
proof (induction rule: async_reachable.induct)
  case init
  then show ?case by (simp add: async_inv_def AsyncLogging_def waiting_def fresh_option_iff)
next
  case step
  then show ?case using async_step_inv by blast
qed

subsection \<open>What the two threads guarantee together\<close>

text \<open>C23: in every state that the front end threads, the thread that starts and stops the logger
  and the back end thread can reach, in every interleaving of their steps, the bytes handed to
  \<open>LogFile::append\<close> so far, followed by the buffers that still have to be written, the full
  buffers of the front end and its current buffer, are exactly the accepted lines in the order of
  the calls of \<open>append\<close>: nothing is lost, repeated or reordered. The assertions of the back
  end loop (two empty spare buffers, nothing left to write, a buffer to recycle) never fail.\<close>

theorem async_log_in_order:
  assumes "async_reachable a"
  shows "given a = concat (a_output a) @ waiting a \<and> a_pos a \<noteq> LoopAssertFailed"
proof -
  have inv: "async_inv a" using async_reachable_inv assms by blast
  then have "pos_inv (a_pos a) a" by (simp add: async_inv_def)
  then have "a_pos a \<noteq> LoopAssertFailed" by auto
  with inv show ?thesis by (simp add: async_inv_def)
qed

text \<open>The loop that writes, and the rest of the pass, with no step of another thread between.\<close>

lemma async_inv_reaches_test:
  assumes "async_inv a" and "a_pos a = Writing i"
  shows "\<exists>b. async_step\<^sup>*\<^sup>* a b \<and> a_pos b = AtTest \<and> given b = given a \<and> running b = running a
    \<and> concat (a_output b) = concat (a_output a) @ concat (map fb_data (drop i (buffersToWrite a)))"
  using assms
proof (induction "length (buffersToWrite a) - i" arbitrary: a i)
  case 0
  then have "i \<le> length (buffersToWrite a)" by (auto simp: async_inv_def)
  with 0 have at: "a_pos a = Writing (length (buffersToWrite a))" and
      i: "i = length (buffersToWrite a)" by auto
  obtain b where b: "recycle a = Inr b" "a_output b = a_output a" "given b = given a"
      "running b = running a"
    using recycle_inv[OF "0.prems"(1) at] by blast
  show ?case
    using b i async_step.recycle_ok[OF at b(1)]
    by (intro exI[of _ "b\<lparr>a_pos := AtTest\<rparr>"]) auto
next
  case (Suc n)
  let ?a = "a\<lparr>a_output := a_output a @ [fb_data (buffersToWrite a ! i)], a_pos := Writing (Suc i)\<rparr>"
  have lt: "i < length (buffersToWrite a)" using Suc.hyps(2) by simp
  have step: "async_step a ?a" using async_step.write_one[OF Suc.prems(2) lt] .
  have inv: "async_inv ?a" using async_step_inv[OF step Suc.prems(1)] .
  have n: "n = length (buffersToWrite ?a) - Suc i" using Suc.hyps(2) by simp
  obtain b where b: "async_step\<^sup>*\<^sup>* ?a b" "a_pos b = AtTest" "given b = given a"
      "running b = running a"
      "concat (a_output b) = concat (a_output ?a)
         @ concat (map fb_data (drop (Suc i) (buffersToWrite a)))"
    using Suc.hyps(1)[OF n inv] by auto
  have "drop i (buffersToWrite a) = buffersToWrite a ! i # drop (Suc i) (buffersToWrite a)"
    using lt by (simp add: Cons_nth_drop_Suc)
  then show ?case
    using b step by (intro exI[of _ b]) (auto intro: converse_rtranclp_into_rtranclp)
qed

lemma swap_buffers_total:
  assumes "async_inv a"
  shows "\<exists>b. swap_buffers a = Inr b"
proof -
  from assms obtain cur where "currentBuffer a = Some cur" by (auto simp: async_inv_def)
  then show ?thesis by (simp add: swap_buffers_def push_current_def Let_def)
qed

text \<open>One pass of the back end thread writes everything: whatever has been accepted when the
  thread enters the critical section of its loop, its own steps lead back to \<open>while (running_)\<close>
  with every accepted byte handed to \<open>LogFile::append\<close>.\<close>

theorem async_pass_writes_everything:
  assumes "async_reachable a" and "a_pos a = AtLock"
  shows "\<exists>b. async_step\<^sup>*\<^sup>* a b \<and> a_pos b = AtTest \<and> given b = given a
    \<and> concat (a_output b) = given a"
proof -
  have inv: "async_inv a" using async_reachable_inv assms(1) by blast
  obtain b where b: "swap_buffers a = Inr b" using swap_buffers_total[OF inv] by blast
  note sw = swap_inv[OF inv assms(2) b]
  let ?b = "b\<lparr>a_pos := Writing 0\<rparr>"
  have step: "async_step a ?b" using async_step.swap[OF assms(2) b] sw(1) by simp
  obtain c where c: "async_step\<^sup>*\<^sup>* ?b c" "a_pos c = AtTest" "given c = given a"
      "concat (a_output c) = concat (a_output a) @ concat (map fb_data (buffersToWrite b))"
    using async_inv_reaches_test[OF sw(2), of 0] sw by auto
  have "given a = concat (a_output a) @ concat (map fb_data (buffersToWrite b))"
    using sw(2-6) by (simp add: async_inv_def waiting_def)
  then show ?thesis
    using c step by (intro exI[of _ c]) (auto intro: converse_rtranclp_into_rtranclp)
qed

text \<open>A run: the logger is started, a line is given, the back end reaches its critical section.\<close>

definition with_line :: "char list \<Rightarrow> async" where
  "with_line l = AsyncLogging\<lparr>running := True, a_pos := AtTest, newBuffer1 := Some large_buffer,
     newBuffer2 := Some large_buffer, currentBuffer := Some (fb_append l large_buffer), given := l\<rparr>"

lemma line_fits: "length l < 100 \<Longrightarrow> append_line l (AsyncLogging\<lparr>running := True, a_pos := AtTest,
     newBuffer1 := Some large_buffer, newBuffer2 := Some large_buffer\<rparr>)
   = Inr ((with_line l)\<lparr>given := []\<rparr>)" "length l < 100 \<Longrightarrow> kept l = l"
  by (simp_all add: append_line_def AsyncLogging_def with_line_def kept_def kLargeBuffer_def)

lemma with_line_reachable:
  assumes "length l < 100"
  shows "async_reachable (with_line l)"
proof -
  let ?s1 = "AsyncLogging\<lparr>running := True, a_pos := Starting\<rparr>"
  let ?s2 = "AsyncLogging\<lparr>running := True, a_pos := AtTest, newBuffer1 := Some large_buffer,
     newBuffer2 := Some large_buffer\<rparr>"
  have "async_step AsyncLogging ?s1"
    by (rule async_step.start) (simp add: AsyncLogging_def)
  moreover have "async_step ?s1 ?s2"
    using async_step.thread_begins[of ?s1] by (simp add: AsyncLogging_def)
  moreover have "async_step ?s2 (with_line l)"
    using async_step.append[OF line_fits(1)[OF assms]] line_fits(2)[OF assms]
    by (simp add: AsyncLogging_def with_line_def)
  ultimately show ?thesis by (blast intro: async_reachable.intros)
qed

lemma with_line_at_lock:
  assumes "length l < 100"
  shows "async_reachable ((with_line l)\<lparr>a_pos := AtLock\<rparr>)"
proof -
  have "async_step (with_line l) ((with_line l)\<lparr>a_pos := AtLock\<rparr>)"
    using async_step.enter[of "with_line l"]
    by (simp add: with_line_def AsyncLogging_def loop_asserts_def is_empty_buffer_def)
  then show ?thesis using with_line_reachable[OF assms] by (blast intro: async_reachable.step)
qed

theorem async_log_in_order_witness:
  "given (with_line ''hello'') = concat (a_output (with_line ''hello'')) @ waiting (with_line ''hello'')
   \<and> waiting (with_line ''hello'') = ''hello''"
  using async_log_in_order[OF with_line_reachable, of "''hello''"]
  by (simp add: with_line_def AsyncLogging_def)

theorem async_pass_writes_everything_witness:
  "\<exists>b. async_step\<^sup>*\<^sup>* ((with_line ''hello'')\<lparr>a_pos := AtLock\<rparr>) b \<and> concat (a_output b) = ''hello''"
proof -
  have "given ((with_line ''hello'')\<lparr>a_pos := AtLock\<rparr>) = ''hello''" by (simp add: with_line_def)
  then show ?thesis
    using async_pass_writes_everything[OF with_line_at_lock, of "''hello''"] by auto
qed

text \<open>What the protocol does not guarantee. A \<open>stop ()\<close> that follows \<open>start ()\<close> before the new
  thread runs makes the first assertion of \<open>threadFunc\<close> fail, so the process aborts; and a line
  that is accepted while the back end is past its last critical section is never written: the
  thread ends with that line still in the current buffer, the final \<open>output.flush ()\<close> does not
  look there.\<close>

theorem async_stop_hazards:
  "(\<exists>b. async_reachable b \<and> a_pos b = StartAssertFailed)
   \<and> (\<exists>b. async_reachable b \<and> a_pos b = Finished \<and> given b = ''hello'' \<and> a_output b = [])"
proof
  let ?s1 = "AsyncLogging\<lparr>running := True, a_pos := Starting\<rparr>"
  have "async_step AsyncLogging ?s1"
    by (rule async_step.start) (simp add: AsyncLogging_def)
  moreover have "async_step ?s1 (AsyncLogging\<lparr>running := False, a_pos := Starting\<rparr>)"
    using async_step.stop[of ?s1] by (simp add: AsyncLogging_def)
  moreover have "async_step (AsyncLogging\<lparr>running := False, a_pos := Starting\<rparr>)
      (AsyncLogging\<lparr>running := False, a_pos := StartAssertFailed\<rparr>)"
    using async_step.thread_begins[of "AsyncLogging\<lparr>running := False, a_pos := Starting\<rparr>"] by simp
  ultimately have "async_reachable (AsyncLogging\<lparr>running := False, a_pos := StartAssertFailed\<rparr>)"
    by (blast intro: async_reachable.intros)
  then show "\<exists>b. async_reachable b \<and> a_pos b = StartAssertFailed" by fastforce
next
  let ?w = "with_line ''hello''"
  have "async_step ?w (?w\<lparr>running := False\<rparr>)"
    by (rule async_step.stop) (simp add: with_line_def)
  moreover have "async_step (?w\<lparr>running := False\<rparr>) (?w\<lparr>running := False, a_pos := Finished\<rparr>)"
    using async_step.leave[of "?w\<lparr>running := False\<rparr>"] by (simp add: with_line_def)
  moreover have "async_reachable ?w" by (rule with_line_reachable) simp
  ultimately have "async_reachable (?w\<lparr>running := False, a_pos := Finished\<rparr>)"
    by (blast intro: async_reachable.step)
  then show "\<exists>b. async_reachable b \<and> a_pos b = Finished \<and> given b = ''hello'' \<and> a_output b = []"
    by (intro exI[of _ "?w\<lparr>running := False, a_pos := Finished\<rparr>"])
      (simp add: with_line_def AsyncLogging_def)
qed

end
