(* ===== verification/Log_Program.thy ===== *)
theory Log_Program
  imports Log_Async
begin

section \<open>A program that logs (log/test/test.cpp)\<close>

text \<open>
  The log library as a whole: the statements of a program go through the globals of \<open>Logger\<close>
  to the standard output or to an \<open>AsyncLogging\<close> object, whose thread writes them to a
  \<open>LogFile\<close>. The program is the one of the repository; its main thread performs a list of
  actions and the thread of the logger runs beside it. (The destructor of the logger, at the end
  of \<open>main\<close>, calls \<open>stop\<close> only if that has not been done.) What the system gives the program is a
  \<open>log_env\<close>; a sleep may take any time and does nothing else.
\<close>

datatype output_function = DefaultOutput | AsyncLog   \<comment> \<open>\<open>defaultOutput\<close>, \<open>asyncLog\<close>\<close>

datatype flush_function = DefaultFlush | UserFlush

datatype main_action =
    PrintPid
  | LogLine LogLevel int "char list" "log_item list"  \<comment> \<open>level, \<open>__LINE__\<close>, \<open>__func__\<close>, operands\<close>
  | PublishLog                                        \<comment> \<open>\<open>g_asyncLog = &log\<close>\<close>
  | SetOutput output_function
  | StartLog
  | StopLog                                           \<comment> \<open>\<open>stop\<close> up to the notification\<close>
  | JoinLog                                           \<comment> \<open>the end of \<open>stop\<close>\<close>

record log_env =
  e_localtime :: "int \<Rightarrow> tm"
  e_msgs :: "int \<Rightarrow> char list"        \<comment> \<open>\<open>strerror_r\<close>\<close>
  e_vars :: "char list \<Rightarrow> bool"       \<comment> \<open>the environment variables that are set\<close>
  e_tid :: int
  e_pid :: int
  e_file :: "char list"               \<comment> \<open>\<open>__FILE__\<close>\<close>
  e_prog :: "char list"               \<comment> \<open>\<open>::basename(argv[0])\<close>\<close>
  e_stamp :: "nat \<Rightarrow> TimeStamp"       \<comment> \<open>the time that the n-th statement prints\<close>
  e_time :: "nat \<Rightarrow> int"              \<comment> \<open>what \<open>time\<close> returns to the log file\<close>
  e_takes :: "nat \<Rightarrow> nat"             \<comment> \<open>how much the n-th \<open>fwrite_unlocked\<close> takes\<close>
  e_disk :: "char list \<Rightarrow> char list"  \<comment> \<open>the directory before the program\<close>

record log_system =
  g_logLevel :: LogLevel
  g_output :: output_function
  g_flush :: flush_function
  g_asyncLog :: bool                  \<comment> \<open>whether the pointer is set\<close>
  std_out :: "char list"
  std_flushes :: nat
  aborted :: bool
  statements :: nat                   \<comment> \<open>loggers made so far\<close>
  lg :: async                         \<comment> \<open>the object \<open>log\<close> of \<open>main\<close>\<close>
  log_out :: "log_file option"        \<comment> \<open>\<open>output\<close> in \<open>threadFunc\<close>\<close>
  opened_files :: "char list list"    \<comment> \<open>the names of the log files, in the order they were opened\<close>
  todo :: "main_action list"

subsection \<open>The globals of \<open>Logger\<close>\<close>

definition defaultOutput :: "char list \<Rightarrow> log_system \<Rightarrow> log_system" where
  "defaultOutput msg s = s\<lparr>std_out := std_out s @ msg\<rparr>"

definition defaultFlush :: "log_system \<Rightarrow> log_system" where
  "defaultFlush s = s\<lparr>std_flushes := std_flushes s + 1\<rparr>"

definition setLogLevel :: "LogLevel \<Rightarrow> log_system \<Rightarrow> log_system" where
  "setLogLevel level s = s\<lparr>g_logLevel := level\<rparr>"

definition setOutput :: "output_function \<Rightarrow> log_system \<Rightarrow> log_system" where
  "setOutput out s = s\<lparr>g_output := out\<rparr>"

definition setFlush :: "flush_function \<Rightarrow> log_system \<Rightarrow> log_system" where
  "setFlush f s = s\<lparr>g_flush := f\<rparr>"

text \<open>A flush function of the user does nothing to this state; the program sets none.\<close>

definition call_flush :: "log_system \<Rightarrow> log_system" where
  "call_flush s = (case g_flush s of DefaultFlush \<Rightarrow> defaultFlush s | UserFlush \<Rightarrow> s)"

text \<open>The output function of the program gives the line to the logger, if there is one.\<close>

definition asyncLog :: "char list \<Rightarrow> log_system \<Rightarrow> log_system result" where
  "asyncLog msg s =
     (if g_asyncLog s
      then bind_result (append_line msg (lg s)) (\<lambda>a. Inr (s\<lparr>lg := a\<lparr>given := given (lg s) @ kept msg\<rparr>\<rparr>))
      else Inr s)"

definition call_output :: "char list \<Rightarrow> log_system \<Rightarrow> log_system result" where
  "call_output msg s =
     (case g_output s of DefaultOutput \<Rightarrow> Inr (defaultOutput msg s) | AsyncLog \<Rightarrow> asyncLog msg s)"

text \<open>
  A log statement, from the test of the level to the end of the destructor of its logger, which
  calls the output function and, at level \<open>FATAL\<close>, the flush function and \<open>abort\<close>.
\<close>

definition log_call ::
    "log_env \<Rightarrow> LogLevel \<Rightarrow> int \<Rightarrow> char list \<Rightarrow> log_item list \<Rightarrow> log_system \<Rightarrow> log_system result" where
  "log_call env level line func items s =
     (if log_enabled (g_logLevel s) level
      then bind_result (log_statement (e_localtime env) (e_stamp env (statements s)) (e_tid env) (e_msgs env)
                          (e_file env) line func level items) (\<lambda>(text, fatal).
           bind_result (call_output text (s\<lparr>statements := statements s + 1\<rparr>)) (\<lambda>s1.
             Inr (if fatal then (call_flush s1)\<lparr>aborted := True\<rparr> else s1)))
      else Inr s)"

subsection \<open>The main thread\<close>

definition test_Logging :: "main_action list" where
  "test_Logging =
     [LogLine DEBUG 17 ''test_Logging'' [LCStr (Some ''debug'')],
      LogLine INFO 18 ''test_Logging'' [LCStr (Some ''info'')],
      LogLine WARN 19 ''test_Logging'' [LCStr (Some ''warn'')],
      LogLine ERROR 20 ''test_Logging'' [LCStr (Some ''error'')]]
     @ map (\<lambda>i. LogLine INFO 25 ''test_Logging''
              [LCStr (Some ''Hello, ''), LInt (int i), LCStr (Some '' abc...xyz'')]) [0..<10]"

definition test_AsyncLogging :: "main_action list" where
  "test_AsyncLogging =
     map (\<lambda>i. LogLine INFO 33 ''test_AsyncLogging''
            [LCStr (Some ''Hello, ''), LInt (int i), LCStr (Some '' abc...xyz'')]) [0..<1024]"

definition test_main :: "main_action list" where
  "test_main = [PrintPid] @ test_Logging @ [PublishLog, SetOutput AsyncLog, StartLog]
     @ test_Logging @ test_AsyncLogging @ [StopLog, JoinLog]"

definition test_start :: "log_env \<Rightarrow> log_system" where
  "test_start env = \<lparr>g_logLevel = initLogLevel (e_vars env), g_output = DefaultOutput, g_flush = DefaultFlush, g_asyncLog = False,
     std_out = [], std_flushes = 0, aborted = False, statements = 0, lg = AsyncLogging, log_out = None,
     opened_files = [], todo = test_main\<rparr>"

fun run_action :: "log_env \<Rightarrow> main_action \<Rightarrow> log_system \<Rightarrow> log_system result" where
  "run_action env PrintPid s = Inr (defaultOutput (''pid = '' @ decimal_int (e_pid env) @ [CHR 0x0A]) s)"
| "run_action env (LogLine level line func items) s = log_call env level line func items s"
| "run_action env PublishLog s = Inr (s\<lparr>g_asyncLog := True\<rparr>)"
| "run_action env (SetOutput out) s = Inr (setOutput out s)"
| "run_action env StartLog s = Inr (s\<lparr>lg := (lg s)\<lparr>running := True, a_pos := Starting\<rparr>\<rparr>)"
| "run_action env StopLog s = Inr (s\<lparr>lg := (lg s)\<lparr>running := False\<rparr>\<rparr>)"
| "run_action env JoinLog s = Inr s"

text \<open>
  \<open>join\<close> waits for the end of the thread; this program starts it once. A failed assertion ends
  the process.
\<close>

fun can_run :: "main_action \<Rightarrow> async_pos \<Rightarrow> bool" where
  "can_run JoinLog p = (p = Finished)"
| "can_run StartLog p = (p = Idle)"
| "can_run act p = True"

definition alive :: "log_system \<Rightarrow> bool" where
  "alive s \<longleftrightarrow> \<not> aborted s \<and> a_pos (lg s) \<noteq> StartAssertFailed \<and> a_pos (lg s) \<noteq> LoopAssertFailed"

subsection \<open>The thread of the logger and its file\<close>

definition kRollSize :: nat where "kRollSize = 1 * 1024 * 1024"

text \<open>\<open>LogFile output(basename_, rollSize_, false)\<close>: the interval is 0, the last parameter 1024.\<close>

definition open_output :: "log_env \<Rightarrow> log_file" where
  "open_output env =
     LogFile (e_localtime env) (e_prog env) kRollSize 0 1024 (e_disk env) (e_takes env) (e_time env)"

definition current_name :: "log_file \<Rightarrow> char list list" where
  "current_name f = (case lf_file f of Some fu \<Rightarrow> [fu_name fu] | None \<Rightarrow> [])"

text \<open>The name of the new file, when a call has replaced the file.\<close>

definition new_name :: "log_file \<Rightarrow> log_file \<Rightarrow> char list list" where
  "new_name f f' = (if lastRoll f' \<noteq> lastRoll f then current_name f' else [])"

inductive sys_step :: "log_env \<Rightarrow> log_system \<Rightarrow> log_system \<Rightarrow> bool" for env where
  main_acts:
    "alive s \<Longrightarrow> todo s = act # rest \<Longrightarrow> can_run act (a_pos (lg s)) \<Longrightarrow>
     run_action env act (s\<lparr>todo := rest\<rparr>) = Inr s' \<Longrightarrow> sys_step env s s'"
| thread_begins:
    "alive s \<Longrightarrow> a_pos (lg s) = Starting \<Longrightarrow> running (lg s) \<Longrightarrow>
     sys_step env s (s\<lparr>lg := (lg s)\<lparr>a_pos := AtTest, newBuffer1 := Some large_buffer,
                               newBuffer2 := Some large_buffer\<rparr>,
                       log_out := Some (open_output env), opened_files := current_name (open_output env)\<rparr>)"
| thread_fails:
    "alive s \<Longrightarrow> a_pos (lg s) = Starting \<Longrightarrow> \<not> running (lg s) \<Longrightarrow>
     sys_step env s (s\<lparr>lg := (lg s)\<lparr>a_pos := StartAssertFailed\<rparr>\<rparr>)"
| leave:
    "alive s \<Longrightarrow> a_pos (lg s) = AtTest \<Longrightarrow> \<not> running (lg s) \<Longrightarrow> log_out s = Some f \<Longrightarrow>
     lf_flush f = Inr f' \<Longrightarrow>
     sys_step env s (s\<lparr>lg := (lg s)\<lparr>a_pos := Finished\<rparr>, log_out := Some f'\<rparr>)"
| enter:
    "alive s \<Longrightarrow> a_pos (lg s) = AtTest \<Longrightarrow> running (lg s) \<Longrightarrow>
     sys_step env s (s\<lparr>lg := (lg s)\<lparr>a_pos := if loop_asserts (lg s) then AtLock else LoopAssertFailed\<rparr>\<rparr>)"
| swap:
    "alive s \<Longrightarrow> a_pos (lg s) = AtLock \<Longrightarrow> swap_buffers (lg s) = Inr a \<Longrightarrow>
     sys_step env s (s\<lparr>lg := a\<lparr>a_pos := if buffersToWrite a \<noteq> [] then Writing 0 else LoopAssertFailed\<rparr>\<rparr>)"
| write_one:
    "alive s \<Longrightarrow> a_pos (lg s) = Writing i \<Longrightarrow> i < length (buffersToWrite (lg s)) \<Longrightarrow> log_out s = Some f \<Longrightarrow>
     lf_append (e_localtime env) (fb_data (buffersToWrite (lg s) ! i)) f = Inr f' \<Longrightarrow>
     sys_step env s (s\<lparr>lg := (lg s)\<lparr>a_output := a_output (lg s) @ [fb_data (buffersToWrite (lg s) ! i)],
                                a_pos := Writing (Suc i)\<rparr>,
                       log_out := Some f', opened_files := opened_files s @ new_name f f'\<rparr>)"
| recycle_ok:
    "alive s \<Longrightarrow> a_pos (lg s) = Writing (length (buffersToWrite (lg s))) \<Longrightarrow> recycle (lg s) = Inr a \<Longrightarrow>
     log_out s = Some f \<Longrightarrow> lf_flush f = Inr f' \<Longrightarrow>
     sys_step env s (s\<lparr>lg := a\<lparr>a_pos := AtTest\<rparr>, log_out := Some f'\<rparr>)"
| recycle_fails:
    "alive s \<Longrightarrow> a_pos (lg s) = Writing (length (buffersToWrite (lg s))) \<Longrightarrow> recycle (lg s) = Inl e \<Longrightarrow>
     sys_step env s (s\<lparr>lg := (lg s)\<lparr>a_pos := LoopAssertFailed\<rparr>\<rparr>)"

inductive sys_reachable :: "log_env \<Rightarrow> log_system \<Rightarrow> bool" for env where
  sys_start: "sys_reachable env (test_start env)"
| sys_next: "sys_reachable env s \<Longrightarrow> sys_step env s s' \<Longrightarrow> sys_reachable env s'"

subsection \<open>Facts about log files\<close>

text \<open>What is assumed of the system: a valid clock, and a disk that takes what it is given.\<close>

definition env_ok :: "log_env \<Rightarrow> bool" where
  "env_ok env \<longleftrightarrow> (\<forall>n. wf_tm (e_localtime env (secondsSinceEpoch (e_stamp env n)))
       \<and> 0 \<le> microSecondsSinceEpoch (e_stamp env n))
     \<and> 0 < e_tid env \<and> e_tid env < 2 ^ 31 \<and> length (SourceFile (e_file env)) \<le> 1000
     \<and> 0 < e_time env 0 \<and> (\<forall>n. kLargeBuffer \<le> e_takes env n)"

lemma rollFile_file:
  "lf_file f = Some fu \<Longrightarrow> lastRoll (snd (rollFile lt f)) = lastRoll f
     \<Longrightarrow> lf_file (snd (rollFile lt f)) = Some fu"
  by (auto simp: log_file_defs Let_def)

lemma append_rolls:
  assumes "lf_file f = Some fu" and "full_write dat f"
  shows "\<exists>f' fu'. lf_append lt dat f = Inr f' \<and> lf_file f' = Some fu'
    \<and> fwrite_takes f' = fwrite_takes f
    \<and> disk f' = (disk f)(fu_name fu := disk f (fu_name fu) @ dat)
    \<and> (lastRoll f' = lastRoll f \<longrightarrow> fu_name fu' = fu_name fu)"
  unfolding lf_append_def appendInLock_def
  using assms by (auto simp: fu_append_full Let_def log_file_defs split: prod.splits)

subsection \<open>Buffers keep within their size\<close>

definition bounded :: "async \<Rightarrow> bool" where
  "bounded a \<longleftrightarrow> (\<forall>b \<in> set (buffers a) \<union> set (buffersToWrite a) \<union> set_option (currentBuffer a)
     \<union> set_option (nextBuffer a) \<union> set_option (newBuffer1 a) \<union> set_option (newBuffer2 a). wf_fb b)"

lemma wf_large_buffer [simp]: "wf_fb large_buffer"
  by (simp add: large_buffer_def)

lemma wf_fb_reset [simp]: "wf_fb (fb_reset b)"
  by (simp add: wf_fb_def fb_reset_def fb_length_def)

lemma bounded_cong: "buffers b = buffers a \<Longrightarrow> buffersToWrite b = buffersToWrite a \<Longrightarrow>
  currentBuffer b = currentBuffer a \<Longrightarrow> nextBuffer b = nextBuffer a \<Longrightarrow> newBuffer1 b = newBuffer1 a \<Longrightarrow>
  newBuffer2 b = newBuffer2 a \<Longrightarrow> bounded b = bounded a"
  by (simp add: bounded_def)

lemma append_line_bounded: "append_line l a = Inr b \<Longrightarrow> bounded a \<Longrightarrow> bounded b"
  using wf_fb_append by (auto simp: append_line_def bounded_def Let_def split: option.splits if_splits)

lemma swap_bounded: "swap_buffers a = Inr b \<Longrightarrow> bounded a \<Longrightarrow> bounded b"
  by (cases "currentBuffer a"; cases "nextBuffer a")
    (auto simp: swap_buffers_def push_current_def bounded_def Let_def)

lemma refill_bounded:
  assumes "refill nb bs = Inr (nb', bs')" and "\<forall>b \<in> set_option nb. wf_fb b"
  shows "\<forall>b \<in> set_option nb'. wf_fb b"
  using assms by (auto simp: refill_def check_def split: option.splits if_splits)

lemma recycle_bounded: "recycle a = Inr b \<Longrightarrow> bounded a \<Longrightarrow> bounded b"
  by (auto simp: recycle_def Let_def bounded_def dest!: refill_bounded)

lemma written_buffer_fits:
  assumes "async_inv a" and "bounded a" and "a_pos a = Writing i" and "i < length (buffersToWrite a)"
  shows "length (fb_data (buffersToWrite a ! i)) \<le> kLargeBuffer"
proof -
  have "buffersToWrite a ! i \<in> set (buffersToWrite a)" using assms(4) by simp
  then have "large (buffersToWrite a ! i)" "wf_fb (buffersToWrite a ! i)"
    using assms(1-3) by (auto simp: async_inv_def bounded_def)
  then show ?thesis by (simp add: large_def wf_fb_def fb_length_def)
qed

subsection \<open>The files hold what has been written\<close>

text \<open>The names of the log files of a run are different, and the files were empty before.\<close>

definition fresh_names :: "log_env \<Rightarrow> log_system \<Rightarrow> bool" where
  "fresh_names env s \<longleftrightarrow> distinct (opened_files s) \<and> (\<forall>n \<in> set (opened_files s). e_disk env n = [])"

definition log_text :: "log_system \<Rightarrow> char list" where
  "log_text s = (case log_out s of None \<Rightarrow> [] | Some f \<Rightarrow> concat (map (disk f) (opened_files s)))"

definition file_inv :: "log_env \<Rightarrow> log_system \<Rightarrow> bool" where
  "file_inv env s \<longleftrightarrow>
     (case log_out s of
        None \<Rightarrow> a_output (lg s) = [] \<and> a_pos (lg s) \<in> {Idle, Starting, StartAssertFailed}
      | Some f \<Rightarrow> a_pos (lg s) \<notin> {Idle, Starting, StartAssertFailed} \<and> fwrite_takes f = e_takes env
          \<and> (\<exists>fu pre. lf_file f = Some fu \<and> opened_files s = pre @ [fu_name fu])
          \<and> (\<forall>n. n \<notin> set (opened_files s) \<longrightarrow> disk f n = e_disk env n)
          \<and> (fresh_names env s \<longrightarrow> log_text s = concat (a_output (lg s))))"

lemma fresh_names_prefix:
  "fresh_names env s' \<Longrightarrow> opened_files s' = opened_files s @ xs \<Longrightarrow> fresh_names env s"
  by (simp add: fresh_names_def)

lemma file_inv_cong:
  assumes "log_out s' = log_out s" and "opened_files s' = opened_files s"
    and "a_output (lg s') = a_output (lg s)"
    and "a_pos (lg s') \<in> {Idle, Starting, StartAssertFailed} \<longleftrightarrow> a_pos (lg s) \<in> {Idle, Starting, StartAssertFailed}"
  shows "file_inv env s' = file_inv env s"
  using assms by (cases "log_out s") (auto simp: file_inv_def fresh_names_def log_text_def)

lemma file_inv_flush:
  assumes inv: "file_inv env s" and f: "log_out s = Some f" "lf_flush f = Inr f'"
    and s': "log_out s' = Some f'" "opened_files s' = opened_files s" "a_output (lg s') = a_output (lg s)"
    "a_pos (lg s') \<notin> {Idle, Starting, StartAssertFailed}"
  shows "file_inv env s'"
proof -
  have "lf_file f' = lf_file f" "disk f' = disk f" "fwrite_takes f' = fwrite_takes f"
    using f(2) by (auto simp: lf_flush_def fu_flush_def split: option.splits)
  then show ?thesis using inv f s' by (auto simp: file_inv_def fresh_names_def log_text_def)
qed

lemma open_output_ok:
  assumes "env_ok env"
  shows "\<exists>fu. lf_file (open_output env) = Some fu" "disk (open_output env) = e_disk env"
    "fwrite_takes (open_output env) = e_takes env"
  using assms by (simp_all add: open_output_def LogFile_def log_file_defs env_ok_def Let_def)

text \<open>One buffer goes to the file that is open, which may be replaced afterwards.\<close>

lemma file_inv_write:
  assumes env: "env_ok env" and inv: "file_inv env s" and f: "log_out s = Some f"
    and dat: "length dat \<le> kLargeBuffer" and run: "lf_append lt dat f = Inr f'"
    and s': "log_out s' = Some f'" "opened_files s' = opened_files s @ new_name f f'"
    "a_output (lg s') = a_output (lg s) @ [dat]" "a_pos (lg s') \<notin> {Idle, Starting, StartAssertFailed}"
  shows "file_inv env s'"
proof -
  obtain fu pre where fu: "lf_file f = Some fu" "opened_files s = pre @ [fu_name fu]"
    using inv f by (auto simp: file_inv_def)
  have takes: "fwrite_takes f = e_takes env" using inv f by (simp add: file_inv_def)
  then have "full_write dat f"
    using env dat order_trans by (fastforce simp: full_write_def env_ok_def)
  from append_rolls[OF fu(1) this, of lt] run obtain fu' where fu': "lf_file f' = Some fu'"
    "fwrite_takes f' = fwrite_takes f" "disk f' = (disk f)(fu_name fu := disk f (fu_name fu) @ dat)"
    "lastRoll f' = lastRoll f \<Longrightarrow> fu_name fu' = fu_name fu" by auto
  have names: "new_name f f' = (if lastRoll f' = lastRoll f then [] else [fu_name fu'])"
    by (simp add: new_name_def current_name_def fu'(1))
  have last: "\<exists>pre'. opened_files s' = pre' @ [fu_name fu']"
    using s'(2) fu(2) fu'(4) by (auto simp: names)
  have others: "disk f' n = e_disk env n" if "n \<notin> set (opened_files s')" for n
    using that inv f fu(2) s'(2) by (auto simp: file_inv_def fu'(3))
  have "log_text s' = concat (a_output (lg s'))" if fresh: "fresh_names env s'"
  proof -
    have old: "concat (map (disk f) (opened_files s)) = concat (a_output (lg s))"
      using inv f fresh_names_prefix[OF fresh s'(2)] by (simp add: file_inv_def log_text_def)
    have new: "disk f' n = []" if "n \<in> set (new_name f f')" for n
    proof -
      have "n \<notin> set (opened_files s)" "e_disk env n = []"
        using that fresh s'(2) by (auto simp: fresh_names_def)
      then show ?thesis using inv f fu(2) by (auto simp: file_inv_def fu'(3))
    qed
    have "fu_name fu \<notin> set pre" using fresh s'(2) fu(2) by (auto simp: fresh_names_def)
    then have "concat (map (disk f') pre) = concat (map (disk f) pre)"
      by (intro arg_cong[where f = concat]) (auto simp: fu'(3))
    moreover have "concat (map (disk f') (new_name f f')) = []" using new by simp
    moreover have "disk f' (fu_name fu) = disk f (fu_name fu) @ dat" by (simp add: fu'(3))
    ultimately show ?thesis
      using old s'(1-3) fu(2) by (simp add: log_text_def del: concat_eq_Nil_conv)
  qed
  with last others fu'(1,2) takes s'(1,4) show ?thesis by (auto simp: file_inv_def)
qed

subsection \<open>What the main thread does\<close>

text \<open>
  The lines and the globals that concern the main thread alone, after a list of actions, as a
  function of the environment: nothing in it depends on the other thread.
\<close>

record main_view =
  v_out :: "char list"
  v_given :: "char list"
  v_statements :: nat
  v_output :: output_function
  v_published :: bool

definition view :: "log_system \<Rightarrow> main_view" where
  "view s = \<lparr>v_out = std_out s, v_given = given (lg s), v_statements = statements s,
     v_output = g_output s, v_published = g_asyncLog s\<rparr>"

definition line_text :: "log_env \<Rightarrow> nat \<Rightarrow> LogLevel \<Rightarrow> int \<Rightarrow> char list \<Rightarrow> log_item list \<Rightarrow> char list" where
  "line_text env n level line func items =
     line_head (e_localtime env) (e_stamp env n) (e_tid env) level @ func_text level func
     @ concat (map item_text items)
     @ '' - '' @ SourceFile (e_file env) @ '':'' @ decimal_int line @ [CHR 0x0A]"

fun expect :: "log_env \<Rightarrow> main_action \<Rightarrow> main_view \<Rightarrow> main_view" where
  "expect env PrintPid v = v\<lparr>v_out := v_out v @ ''pid = '' @ decimal_int (e_pid env) @ [CHR 0x0A]\<rparr>"
| "expect env (LogLine level line func items) v =
     (if log_enabled (initLogLevel (e_vars env)) level
      then let text = line_text env (v_statements v) level line func items;
               v1 = v\<lparr>v_statements := v_statements v + 1\<rparr>
           in case v_output v of
                DefaultOutput \<Rightarrow> v1\<lparr>v_out := v_out v @ text\<rparr>
              | AsyncLog \<Rightarrow> if v_published v then v1\<lparr>v_given := v_given v @ text\<rparr> else v1
      else v)"
| "expect env PublishLog v = v\<lparr>v_published := True\<rparr>"
| "expect env (SetOutput f) v = v\<lparr>v_output := f\<rparr>"
| "expect env StartLog v = v"
| "expect env StopLog v = v"
| "expect env JoinLog v = v"

text \<open>A statement whose line fits into the buffer of its logger and that does not abort.\<close>

fun action_ok :: "main_action \<Rightarrow> bool" where
  "action_ok (LogLine level line func items) \<longleftrightarrow> level \<noteq> FATAL \<and> 0 < line \<and> line < 2 ^ 31
     \<and> length func \<le> 1000 \<and> (\<forall>x \<in> set items. item_ok x \<and> negatable x)
     \<and> length (concat (map item_text items)) \<le> 1000"
| "action_ok act \<longleftrightarrow> True"

lemma hello_ok:
  assumes "i < 1024" and "0 < line" "line < 2 ^ 31" and "length func \<le> 1000"
  shows "action_ok (LogLine INFO line func [LCStr (Some ''Hello, ''), LInt (int i), LCStr (Some '' abc...xyz'')])"
  using assms length_integer_text[of "int i"] by simp

lemma test_Logging_ok: "act \<in> set test_Logging \<Longrightarrow> action_ok act"
proof -
  have "action_ok (LogLine INFO 25 ''test_Logging''
      [LCStr (Some ''Hello, ''), LInt (int i), LCStr (Some '' abc...xyz'')])" if "i < 10" for i
    using that by (intro hello_ok) simp_all
  then show "act \<in> set test_Logging \<Longrightarrow> action_ok act"
    by (auto simp: test_Logging_def simp del: action_ok.simps(1)) simp_all
qed

lemma test_AsyncLogging_ok: "act \<in> set test_AsyncLogging \<Longrightarrow> action_ok act"
proof -
  have "action_ok (LogLine INFO 33 ''test_AsyncLogging''
      [LCStr (Some ''Hello, ''), LInt (int i), LCStr (Some '' abc...xyz'')])" if "i < 1024" for i
    using that by (intro hello_ok) simp_all
  then show "act \<in> set test_AsyncLogging \<Longrightarrow> action_ok act"
    by (auto simp: test_AsyncLogging_def simp del: action_ok.simps(1))
qed

lemma test_main_ok: "act \<in> set test_main \<Longrightarrow> action_ok act"
  using test_Logging_ok test_AsyncLogging_ok by (auto simp: test_main_def)

lemma line_written:
  assumes env: "env_ok env" and ok: "action_ok (LogLine level line func items)"
  shows "log_statement (e_localtime env) (e_stamp env n) (e_tid env) (e_msgs env) (e_file env) line func level items
      = Inr (line_text env n level line func items, False)"
    and "kept (line_text env n level line func items) = line_text env n level line func items"
proof -
  let ?d = "concat (map item_text items)"
  have tm: "wf_tm (e_localtime env (secondsSinceEpoch (e_stamp env n)))"
    "0 \<le> microSecondsSinceEpoch (e_stamp env n)" and tid: "0 < e_tid env" "e_tid env < 2 ^ 31"
    and name: "length (SourceFile (e_file env)) \<le> 1000"
    using env by (simp_all add: env_ok_def)
  have f: "length (func_text level func) \<le> 1001" using ok by (simp add: func_text_def)
  show "log_statement (e_localtime env) (e_stamp env n) (e_tid env) (e_msgs env) (e_file env) line func level items
      = Inr (line_text env n level line func items, False)"
    using ok f name log_statement_text[of "e_localtime env" "e_stamp env n" "e_tid env" line items func
        level "e_file env" "e_msgs env", OF tm tid]
    by (simp add: line_text_def kSmallBuffer_def)
  have "length (decimal_int line) \<le> 21"
    using ok length_integer_text[of line] by (simp add: integer_text_def split: if_splits)
  moreover have "length (line_head (e_localtime env) (e_stamp env n) (e_tid env) level) \<le> 60"
    by (rule Logger_Impl_ok(2)[of "e_localtime env" "e_stamp env n", OF tm tid])
  ultimately show "kept (line_text env n level line func items) = line_text env n level line func items"
    using ok f name by (simp add: kept_def line_text_def kLargeBuffer_def)
qed

lemma append_line_total: "async_inv a \<Longrightarrow> \<exists>b. append_line l a = Inr b"
  by (auto simp: async_inv_def append_line_def Let_def split: option.splits)

subsection \<open>Invariant of the whole program\<close>

definition core :: "log_env \<Rightarrow> log_system \<Rightarrow> bool" where
  "core env s \<longleftrightarrow> async_inv (lg s) \<and> bounded (lg s) \<and> file_inv env s \<and> \<not> aborted s
     \<and> g_logLevel s = initLogLevel (e_vars env)"

text \<open>The actions \<open>acts\<close> of the main thread are behind it.\<close>

definition sys_inv :: "log_env \<Rightarrow> main_action list \<Rightarrow> log_system \<Rightarrow> bool" where
  "sys_inv env acts s \<longleftrightarrow> core env s \<and> acts @ todo s = test_main
     \<and> view s = fold (expect env) acts (view (test_start env))"

lemma view_simps [simp]:
  "view (s\<lparr>todo := x1\<rparr>) = view s" "view (s\<lparr>log_out := x2\<rparr>) = view s"
  "view (s\<lparr>opened_files := x3\<rparr>) = view s"
  "given a = given (lg s) \<Longrightarrow> view (s\<lparr>lg := a\<rparr>) = view s"
  by (simp_all add: view_def)

lemma core_todo [simp]: "core env (s\<lparr>todo := x\<rparr>) = core env s"
  using file_inv_cong[of "s\<lparr>todo := x\<rparr>" s env] by (simp add: core_def)

lemma core_lg:
  assumes "core env s" and "async_inv a" and "bounded a" and "a_output a = a_output (lg s)"
    and "a_pos a \<in> {Idle, Starting, StartAssertFailed} \<longleftrightarrow> a_pos (lg s) \<in> {Idle, Starting, StartAssertFailed}"
  shows "core env (s\<lparr>lg := a\<rparr>)"
  using assms file_inv_cong[of "s\<lparr>lg := a\<rparr>" s env] by (simp add: core_def)

lemma core_main:
  assumes "core env s" and "lg s' = lg s" "log_out s' = log_out s" "opened_files s' = opened_files s"
    "aborted s' = aborted s" "g_logLevel s' = g_logLevel s"
  shows "core env s'"
  using assms file_inv_cong[of s' s env] by (simp add: core_def)

lemma async_inv_stop: "async_inv a \<Longrightarrow> async_inv (a\<lparr>running := False\<rparr>)"
  by (cases "a_pos a") (auto simp: async_inv_def waiting_def)

lemma log_call_ok:
  assumes env: "env_ok env" and ok: "action_ok (LogLine level line func items)" and core: "core env s"
  shows "\<exists>s'. log_call env level line func items s = Inr s' \<and> core env s'
    \<and> view s' = expect env (LogLine level line func items) (view s) \<and> todo s' = todo s
    \<and> a_pos (lg s') = a_pos (lg s) \<and> running (lg s') = running (lg s)"
proof -
  let ?t = "line_text env (statements s) level line func items"
  let ?s1 = "s\<lparr>statements := statements s + 1\<rparr>"
  note written = line_written[OF env ok, of "statements s"]
  have level: "g_logLevel s = initLogLevel (e_vars env)" using core by (simp add: core_def)
  consider (off) "\<not> log_enabled (g_logLevel s) level"
    | (std) "log_enabled (g_logLevel s) level" "g_output s = DefaultOutput"
    | (null) "log_enabled (g_logLevel s) level" "g_output s = AsyncLog" "\<not> g_asyncLog s"
    | (async) "log_enabled (g_logLevel s) level" "g_output s = AsyncLog" "g_asyncLog s"
    by (cases "g_output s") auto
  then show ?thesis
  proof cases
    case off
    then show ?thesis using core level by (simp add: log_call_def)
  next
    case std
    then have "log_call env level line func items s = Inr (defaultOutput ?t ?s1)"
      by (simp add: log_call_def written(1) call_output_def)
    moreover have "core env (defaultOutput ?t ?s1)"
      by (rule core_main[OF core]) (simp_all add: defaultOutput_def)
    ultimately show ?thesis using std level by (simp add: defaultOutput_def view_def)
  next
    case null
    then have "log_call env level line func items s = Inr ?s1"
      by (simp add: log_call_def written(1) call_output_def asyncLog_def)
    moreover have "core env ?s1" by (rule core_main[OF core]) simp_all
    ultimately show ?thesis using null level by (simp add: view_def)
  next
    case async
    have inv: "async_inv (lg s)" and small: "bounded (lg s)" using core by (simp_all add: core_def)
    obtain a where a: "append_line ?t (lg s) = Inr a" using append_line_total[OF inv] by blast
    note same = append_line_fields[OF a]
    let ?a = "a\<lparr>given := given (lg s) @ kept ?t\<rparr>"
    have "async_inv ?a" by (rule append_line_inv[OF inv a])
    moreover have "bounded ?a" using append_line_bounded[OF a small] bounded_cong[of ?a a] by simp
    ultimately have "core env (?s1\<lparr>lg := ?a\<rparr>)"
      using same core_main[OF core, of ?s1] by (intro core_lg) simp_all
    moreover have "log_call env level line func items s = Inr (?s1\<lparr>lg := ?a\<rparr>)"
      using async a by (simp add: log_call_def written(1) call_output_def asyncLog_def)
    ultimately show ?thesis using async level same written(2) by (simp add: view_def)
  qed
qed

lemma run_action_ok:
  assumes env: "env_ok env" and ok: "action_ok act" and core: "core env s"
    and can: "can_run act (a_pos (lg s))"
  shows "\<exists>s'. run_action env act s = Inr s' \<and> core env s' \<and> view s' = expect env act (view s)
    \<and> todo s' = todo s"
proof (cases act)
  case (LogLine level line func items)
  have "\<exists>s'. log_call env level line func items s = Inr s' \<and> core env s'
      \<and> view s' = expect env act (view s) \<and> todo s' = todo s"
    using log_call_ok[OF env ok[unfolded LogLine] core] unfolding LogLine by blast
  then show ?thesis unfolding LogLine run_action.simps .
next
  case PrintPid
  then show ?thesis using core_main[OF core] by (simp add: view_def defaultOutput_def)
next
  case PublishLog
  then show ?thesis using core_main[OF core] by (simp add: view_def)
next
  case (SetOutput out)
  then show ?thesis using core_main[OF core] by (simp add: view_def setOutput_def)
next
  case StartLog
  let ?a = "(lg s)\<lparr>running := True, a_pos := Starting\<rparr>"
  have idle: "a_pos (lg s) = Idle" using can StartLog by simp
  have "async_inv ?a" using async_step_inv[OF async_step.start[OF idle]] core by (simp add: core_def)
  moreover have "bounded ?a" using core bounded_cong[of ?a "lg s"] by (simp add: core_def)
  ultimately have "core env (s\<lparr>lg := ?a\<rparr>)" using idle by (intro core_lg[OF core]) simp_all
  then show ?thesis using StartLog by simp
next
  case StopLog
  let ?a = "(lg s)\<lparr>running := False\<rparr>"
  have "async_inv ?a" "bounded ?a"
    using core async_inv_stop[of "lg s"] bounded_cong[of ?a "lg s"] by (simp_all add: core_def)
  then have "core env (s\<lparr>lg := ?a\<rparr>)" by (intro core_lg[OF core]) simp_all
  then show ?thesis using StopLog by simp
next
  case JoinLog
  then show ?thesis using core by simp
qed

lemma core_output:
  assumes "core env s" and "async_inv a" and "bounded a" and "file_inv env (s\<lparr>lg := a, log_out := x, opened_files := ys\<rparr>)"
  shows "core env (s\<lparr>lg := a, log_out := x, opened_files := ys\<rparr>)"
  using assms by (simp add: core_def)

lemma opened_files_same [simp]: "s\<lparr>lg := a, log_out := x, opened_files := opened_files s\<rparr> = s\<lparr>lg := a, log_out := x\<rparr>"
  by (cases s) simp

text \<open>The steps of the thread keep the invariant and do not touch what the main thread sees.\<close>

lemma core_begins:
  assumes env: "env_ok env" and core: "core env s" and at: "a_pos (lg s) = Starting" "running (lg s)"
  shows "core env (s\<lparr>lg := (lg s)\<lparr>a_pos := AtTest, newBuffer1 := Some large_buffer,
                               newBuffer2 := Some large_buffer\<rparr>,
                     log_out := Some (open_output env), opened_files := current_name (open_output env)\<rparr>)"
proof (rule core_output[OF core])
  let ?a = "(lg s)\<lparr>a_pos := AtTest, newBuffer1 := Some large_buffer, newBuffer2 := Some large_buffer\<rparr>"
  have inv: "async_inv (lg s)" "bounded (lg s)" using core by (simp_all add: core_def)
  show "async_inv ?a" using async_step_inv[OF async_step.thread_begins[OF at(1)] inv(1)] at(2) by simp
  show "bounded ?a" using inv(2) by (auto simp: bounded_def)
  obtain fu where fu: "lf_file (open_output env) = Some fu" using open_output_ok(1)[OF env] by blast
  have "a_output (lg s) = []" using core at(1) by (auto simp: core_def file_inv_def split: option.splits)
  then show "file_inv env (s\<lparr>lg := ?a, log_out := Some (open_output env),
      opened_files := current_name (open_output env)\<rparr>)"
    using fu open_output_ok(2,3)[OF env]
    by (simp add: file_inv_def current_name_def fresh_names_def log_text_def)
qed

lemma core_flush:
  assumes core: "core env s" and f: "log_out s = Some f" "lf_flush f = Inr f'"
    and a: "async_inv a" "bounded a" "a_output a = a_output (lg s)" "a_pos a \<notin> {Idle, Starting, StartAssertFailed}"
  shows "core env (s\<lparr>lg := a, log_out := Some f'\<rparr>)"
proof -
  have "file_inv env (s\<lparr>lg := a, log_out := Some f'\<rparr>)"
    by (rule file_inv_flush[OF _ f]) (use core a(3,4) in \<open>simp_all add: core_def\<close>)
  then show ?thesis using core_output[OF core a(1,2), where ys = "opened_files s"] by simp
qed

lemma core_write:
  assumes env: "env_ok env" and core: "core env s" and at: "a_pos (lg s) = Writing i"
    and i: "i < length (buffersToWrite (lg s))" and f: "log_out s = Some f"
    and run: "lf_append lt (fb_data (buffersToWrite (lg s) ! i)) f = Inr f'"
  shows "core env (s\<lparr>lg := (lg s)\<lparr>a_output := a_output (lg s) @ [fb_data (buffersToWrite (lg s) ! i)],
                                a_pos := Writing (Suc i)\<rparr>,
                     log_out := Some f', opened_files := opened_files s @ new_name f f'\<rparr>)"
proof (rule core_output[OF core])
  let ?a = "(lg s)\<lparr>a_output := a_output (lg s) @ [fb_data (buffersToWrite (lg s) ! i)], a_pos := Writing (Suc i)\<rparr>"
  have inv: "async_inv (lg s)" "bounded (lg s)" "file_inv env s" using core by (simp_all add: core_def)
  show "async_inv ?a" by (rule async_step_inv[OF async_step.write_one[OF at i] inv(1)])
  show "bounded ?a" using inv(2) bounded_cong[of ?a "lg s"] by simp
  show "file_inv env (s\<lparr>lg := ?a, log_out := Some f', opened_files := opened_files s @ new_name f f'\<rparr>)"
    by (rule file_inv_write[OF env inv(3) f written_buffer_fits[OF inv(1,2) at i] run]) simp_all
qed

lemma sys_step_inv:
  assumes "sys_step env s s'" and env: "env_ok env" and "sys_inv env acts s"
  shows "sys_inv env acts s' \<or> (\<exists>act. sys_inv env (acts @ [act]) s')"
  using assms(1,3)
proof (induction rule: sys_step.induct)
  case (main_acts s act rest s')
  have "act \<in> set test_main" using main_acts by (metis in_set_conv_decomp sys_inv_def)
  moreover have "core env (s\<lparr>todo := rest\<rparr>)" using main_acts by (simp add: sys_inv_def)
  ultimately have "core env s'" "view s' = expect env act (view s)" "todo s' = rest"
    using run_action_ok[OF env test_main_ok, of act "s\<lparr>todo := rest\<rparr>"] main_acts by auto
  then show ?case using main_acts by (auto simp: sys_inv_def intro!: exI[of _ act])
next
  case (thread_begins s)
  then show ?case using core_begins[OF env] by (simp add: sys_inv_def)
next
  case (thread_fails s)
  let ?a = "(lg s)\<lparr>a_pos := StartAssertFailed\<rparr>"
  have core: "core env s" using thread_fails by (simp add: sys_inv_def)
  have "async_inv ?a"
    using async_step_inv[OF async_step.thread_begins[of "lg s"]] thread_fails core by (simp add: core_def)
  moreover have "bounded ?a" using core bounded_cong[of ?a "lg s"] by (simp add: core_def)
  ultimately have "core env (s\<lparr>lg := ?a\<rparr>)" using thread_fails by (intro core_lg[OF core]) simp_all
  then show ?case using thread_fails by (simp add: sys_inv_def)
next
  case (leave s f f')
  let ?a = "(lg s)\<lparr>a_pos := Finished\<rparr>"
  have core: "core env s" using leave by (simp add: sys_inv_def)
  have "async_inv ?a"
    using async_step_inv[OF async_step.leave[of "lg s"]] leave core by (simp add: core_def)
  moreover have "bounded ?a" using core bounded_cong[of ?a "lg s"] by (simp add: core_def)
  ultimately have "core env (s\<lparr>lg := ?a, log_out := Some f'\<rparr>)"
    using core_flush[OF core leave(4,5)] by simp
  then show ?case using leave by (simp add: sys_inv_def)
next
  case (enter s)
  let ?a = "(lg s)\<lparr>a_pos := if loop_asserts (lg s) then AtLock else LoopAssertFailed\<rparr>"
  have core: "core env s" using enter by (simp add: sys_inv_def)
  have "async_inv ?a"
    using async_step_inv[OF async_step.enter[of "lg s"]] enter core by (simp add: core_def split: if_splits)
  moreover have "bounded ?a" using core bounded_cong[of ?a "lg s"] by (simp add: core_def)
  ultimately have "core env (s\<lparr>lg := ?a\<rparr>)" using enter by (intro core_lg[OF core]) simp_all
  then show ?case using enter by (simp add: sys_inv_def)
next
  case (swap s a)
  have core: "core env s" using swap by (simp add: sys_inv_def)
  then have inv: "async_inv (lg s)" "bounded (lg s)" by (simp_all add: core_def)
  note sw = swap_inv[OF inv(1) swap(2,3)]
  have "bounded (a\<lparr>a_pos := Writing 0\<rparr>)"
    using swap_bounded[OF swap(3) inv(2)] bounded_cong[of "a\<lparr>a_pos := Writing 0\<rparr>" a] by simp
  then have "core env (s\<lparr>lg := a\<lparr>a_pos := Writing 0\<rparr>\<rparr>)"
    using sw swap by (intro core_lg[OF core]) simp_all
  then show ?case using swap sw by (simp add: sys_inv_def)
next
  case (write_one s i f f')
  then have "core env s" by (simp add: sys_inv_def)
  from core_write[OF env this write_one(2-5)] write_one show ?case by (simp add: sys_inv_def)
next
  case (recycle_ok s a f f')
  have core: "core env s" using recycle_ok by (simp add: sys_inv_def)
  then have inv: "async_inv (lg s)" "bounded (lg s)" by (simp_all add: core_def)
  from recycle_inv[OF inv(1) recycle_ok(2)] recycle_ok(3)
  have a: "async_inv (a\<lparr>a_pos := AtTest\<rparr>)" "a_output a = a_output (lg s)" "given a = given (lg s)" by auto
  have "bounded (a\<lparr>a_pos := AtTest\<rparr>)"
    using recycle_bounded[OF recycle_ok(3) inv(2)] bounded_cong[of "a\<lparr>a_pos := AtTest\<rparr>" a] by simp
  then have "core env (s\<lparr>lg := a\<lparr>a_pos := AtTest\<rparr>, log_out := Some f'\<rparr>)"
    using core_flush[OF core recycle_ok(4,5) a(1)] a(2) by simp
  then show ?case using recycle_ok a(3) by (simp add: sys_inv_def)
next
  case (recycle_fails s e)
  then have "async_inv (lg s)" by (simp add: sys_inv_def core_def)
  from recycle_inv[OF this recycle_fails(2)] recycle_fails(3) show ?case by simp
qed

lemma sys_inv_start: "sys_inv env [] (test_start env)"
  by (simp add: sys_inv_def core_def test_start_def async_inv_def AsyncLogging_def waiting_def
      fresh_option_iff bounded_def file_inv_def)

lemma sys_reachable_inv:
  assumes "env_ok env" and "sys_reachable env s"
  shows "\<exists>acts. sys_inv env acts s"
  using assms(2)
proof (induction rule: sys_reachable.induct)
  case sys_start
  then show ?case using sys_inv_start by blast
next
  case (sys_next s s')
  then show ?case using sys_step_inv[OF sys_next.hyps(2) assms(1)] by blast
qed

subsection \<open>Start, stop and join\<close>

definition controls :: "main_action list \<Rightarrow> main_action list" where
  "controls acts = filter (\<lambda>act. act \<in> {StartLog, StopLog, JoinLog}) acts"

lemma controls_simps [simp]:
  "controls [] = []" "controls (acts @ acts') = controls acts @ controls acts'"
  "controls (act # acts) = (if act \<in> {StartLog, StopLog, JoinLog} then act # controls acts else controls acts)"
  by (simp_all add: controls_def)

fun is_line :: "main_action \<Rightarrow> bool" where
  "is_line (LogLine level line func items) = True"
| "is_line act = False"

lemma test_lines: "act \<in> set test_Logging \<Longrightarrow> is_line act" "act \<in> set test_AsyncLogging \<Longrightarrow> is_line act"
  by (auto simp: test_Logging_def test_AsyncLogging_def)

lemma controls_lines: "(\<And>act. act \<in> set acts \<Longrightarrow> is_line act) \<Longrightarrow> controls acts = []"
  by (fastforce simp: controls_def filter_empty_conv)

lemma controls_test_main: "controls test_main = [StartLog, StopLog, JoinLog]"
  using controls_lines[of test_Logging] controls_lines[of test_AsyncLogging] test_lines
  by (simp add: test_main_def)

text \<open>Where the thread may be, by the controls that the main thread has still to perform.\<close>

definition phase :: "main_action list \<Rightarrow> async \<Rightarrow> bool" where
  "phase cs a \<longleftrightarrow>
     cs = [StartLog, StopLog, JoinLog] \<and> a_pos a = Idle
   \<or> cs = [StopLog, JoinLog] \<and> running a \<and> a_pos a \<notin> {Idle, Finished, StartAssertFailed}
   \<or> cs = [JoinLog] \<and> \<not> running a \<and> a_pos a \<noteq> Idle
   \<or> cs = [] \<and> \<not> running a \<and> a_pos a = Finished"

lemma run_action_quiet:
  assumes "env_ok env" and "action_ok act" and "core env s" and "run_action env act s = Inr s'"
    and "act \<notin> {StartLog, StopLog, JoinLog}"
  shows "a_pos (lg s') = a_pos (lg s) \<and> running (lg s') = running (lg s) \<and> todo s' = todo s"
proof (cases act)
  case (LogLine level line func items)
  then show ?thesis using log_call_ok[OF assms(1) assms(2)[unfolded LogLine] assms(3)] assms(4) by auto
qed (use assms in \<open>auto simp: defaultOutput_def setOutput_def\<close>)

lemma phase_main:
  assumes env: "env_ok env" and inv: "sys_inv env acts s" and ph: "phase (controls (todo s)) (lg s)"
    and todo: "todo s = act # rest" "can_run act (a_pos (lg s))"
    and run: "run_action env act (s\<lparr>todo := rest\<rparr>) = Inr s'"
  shows "phase (controls (todo s')) (lg s')"
proof (cases "act \<in> {StartLog, StopLog, JoinLog}")
  case True
  then show ?thesis using ph todo run by (auto simp: phase_def)
next
  case False
  have "act \<in> set test_main" using inv todo(1) by (metis in_set_conv_decomp sys_inv_def)
  then have "a_pos (lg s') = a_pos (lg s) \<and> running (lg s') = running (lg s) \<and> todo s' = rest"
    using run_action_quiet[OF env test_main_ok _ run False] inv by (simp add: sys_inv_def)
  then show ?thesis using ph todo(1) False by (simp add: phase_def)
qed

lemma phase_step:
  assumes "sys_step env s s'" and env: "env_ok env" and "sys_inv env acts s" and "phase (controls (todo s)) (lg s)"
  shows "phase (controls (todo s')) (lg s')"
  using assms(1,3,4)
proof (induction rule: sys_step.induct)
  case (main_acts s act rest s')
  then show ?case using phase_main[OF env] by blast
next
  case (swap s a)
  then have "running a = running (lg s)" using swap_inv(7)[of "lg s" a] by (simp add: sys_inv_def core_def)
  with swap show ?case by (auto simp: phase_def)
next
  case (recycle_ok s a f f')
  then have "running a = running (lg s)"
    using recycle_inv[of "lg s"] by (auto simp: sys_inv_def core_def)
  with recycle_ok show ?case by (auto simp: phase_def)
qed (auto simp: phase_def)

lemma sys_reachable_phase:
  assumes "env_ok env" and "sys_reachable env s"
  shows "phase (controls (todo s)) (lg s)"
  using assms(2)
proof (induction rule: sys_reachable.induct)
  case sys_start
  then show ?case by (simp add: phase_def test_start_def controls_test_main AsyncLogging_def)
next
  case (sys_next s s')
  then show ?case using phase_step[OF sys_next.hyps(2) assms(1)] sys_reachable_inv[OF assms(1)] by blast
qed

lemma sys_reachable_steps: "sys_reachable env s \<Longrightarrow> (sys_step env)\<^sup>*\<^sup>* s s' \<Longrightarrow> sys_reachable env s'"
  by (rotate_tac, induction rule: rtranclp_induct) (auto intro: sys_next)

subsection \<open>What the program makes of the environment\<close>

fun log_lines :: "log_env \<Rightarrow> nat \<Rightarrow> main_action list \<Rightarrow> char list list" where
  "log_lines env n [] = []"
| "log_lines env n (LogLine level line func items # acts) =
     (if log_enabled (initLogLevel (e_vars env)) level
      then line_text env n level line func items # log_lines env (Suc n) acts else log_lines env n acts)"
| "log_lines env n (act # acts) = log_lines env n acts"

lemma log_lines_append: "log_lines env n (acts @ acts')
    = log_lines env n acts @ log_lines env (n + length (log_lines env n acts)) acts'"
  by (induction env n acts rule: log_lines.induct) simp_all

lemma fold_lines_default:
  "(\<And>act. act \<in> set acts \<Longrightarrow> is_line act) \<Longrightarrow> v_output v = DefaultOutput \<Longrightarrow>
   fold (expect env) acts v = v\<lparr>v_out := v_out v @ concat (log_lines env (v_statements v) acts),
     v_statements := v_statements v + length (log_lines env (v_statements v) acts)\<rparr>"
proof (induction acts arbitrary: v)
  case (Cons act acts)
  obtain level line func items where act: "act = LogLine level line func items"
    using Cons.prems(1)[of act] by (cases act) auto
  have "fold (expect env) acts (expect env act v) = (expect env act v)\<lparr>v_out := v_out (expect env act v)
      @ concat (log_lines env (v_statements (expect env act v)) acts), v_statements := v_statements (expect env act v)
      + length (log_lines env (v_statements (expect env act v)) acts)\<rparr>"
    using Cons.prems by (intro Cons.IH) (auto simp: act)
  then show ?case using Cons.prems(2) by (simp add: act)
qed simp

lemma fold_lines_async:
  "(\<And>act. act \<in> set acts \<Longrightarrow> is_line act) \<Longrightarrow> v_output v = AsyncLog \<Longrightarrow> v_published v \<Longrightarrow>
   fold (expect env) acts v = v\<lparr>v_given := v_given v @ concat (log_lines env (v_statements v) acts),
     v_statements := v_statements v + length (log_lines env (v_statements v) acts)\<rparr>"
proof (induction acts arbitrary: v)
  case (Cons act acts)
  obtain level line func items where act: "act = LogLine level line func items"
    using Cons.prems(1)[of act] by (cases act) auto
  have "fold (expect env) acts (expect env act v) = (expect env act v)\<lparr>v_given := v_given (expect env act v)
      @ concat (log_lines env (v_statements (expect env act v)) acts), v_statements := v_statements (expect env act v)
      + length (log_lines env (v_statements (expect env act v)) acts)\<rparr>"
    using Cons.prems by (intro Cons.IH) (auto simp: act)
  then show ?case using Cons.prems(2,3) by (simp add: act)
qed simp

lemma test_main_view:
  "v_out (fold (expect env) test_main (view (test_start env)))
     = ''pid = '' @ decimal_int (e_pid env) @ [CHR 0x0A] @ concat (log_lines env 0 test_Logging)"
  "v_given (fold (expect env) test_main (view (test_start env)))
     = concat (log_lines env (length (log_lines env 0 test_Logging)) (test_Logging @ test_AsyncLogging))"
proof -
  have start: "view (test_start env) = \<lparr>v_out = [], v_given = [], v_statements = 0,
      v_output = DefaultOutput, v_published = False\<rparr>"
    by (simp add: view_def test_start_def AsyncLogging_def)
  have "\<And>act. act \<in> set (test_Logging @ test_AsyncLogging) \<Longrightarrow> is_line act" using test_lines by auto
  note async = fold_lines_async[OF this]
  have main: "test_main = [PrintPid] @ test_Logging @ [PublishLog, SetOutput AsyncLog, StartLog]
      @ (test_Logging @ test_AsyncLogging) @ [StopLog, JoinLog]" by (simp add: test_main_def)
  show "v_out (fold (expect env) test_main (view (test_start env)))
     = ''pid = '' @ decimal_int (e_pid env) @ [CHR 0x0A] @ concat (log_lines env 0 test_Logging)"
    "v_given (fold (expect env) test_main (view (test_start env)))
     = concat (log_lines env (length (log_lines env 0 test_Logging)) (test_Logging @ test_AsyncLogging))"
    unfolding main start fold_append comp_apply
    by (simp_all add: fold_lines_default[OF test_lines(1)] async log_lines_append del: fold_append)
qed

subsection \<open>The thread comes to an end\<close>

lemma logger_open:
  assumes "env_ok env" and "sys_reachable env s" and "a_pos (lg s) \<notin> {Idle, Starting, StartAssertFailed}"
  obtains f fu where "log_out s = Some f" "lf_file f = Some fu" "lf_flush f = Inr (fu_flush f)" "alive s"
    "async_inv (lg s)"
proof -
  obtain acts where "sys_inv env acts s" using sys_reachable_inv[OF assms(1,2)] by blast
  then have core: "core env s" by (simp add: sys_inv_def)
  then obtain f fu where f: "log_out s = Some f" "lf_file f = Some fu"
    using assms(3) by (auto simp: core_def file_inv_def split: option.splits)
  moreover have "alive s"
    using core assms(3) by (auto simp: core_def alive_def async_inv_def)
  ultimately show ?thesis using core by (intro that[of f fu]) (simp_all add: lf_flush_def core_def)
qed

lemma thread_writes:
  assumes "env_ok env" and "sys_reachable env s" and "a_pos (lg s) = Writing i"
  shows "\<exists>s'. (sys_step env)\<^sup>*\<^sup>* s s' \<and> a_pos (lg s') = AtTest \<and> todo s' = todo s
    \<and> running (lg s') = running (lg s)"
  using assms(2,3)
proof (induction "length (buffersToWrite (lg s)) - i" arbitrary: s i)
  case 0
  have "a_pos (lg s) \<notin> {Idle, Starting, StartAssertFailed}" using "0.prems"(2) by simp
  then obtain f fu where f: "log_out s = Some f" "lf_flush f = Inr (fu_flush f)" "alive s" "async_inv (lg s)"
    using logger_open[OF assms(1) "0.prems"(1)] by blast
  have at: "a_pos (lg s) = Writing (length (buffersToWrite (lg s)))"
    using 0 f(4) by (simp add: async_inv_def)
  obtain a where a: "recycle (lg s) = Inr a" "running a = running (lg s)" using recycle_inv[OF f(4) at] by blast
  have "sys_step env s (s\<lparr>lg := a\<lparr>a_pos := AtTest\<rparr>, log_out := Some (fu_flush f)\<rparr>)"
    by (rule sys_step.recycle_ok[OF f(3) at a(1) f(1,2)])
  then show ?case
    using a(2) by (intro exI[of _ "s\<lparr>lg := a\<lparr>a_pos := AtTest\<rparr>, log_out := Some (fu_flush f)\<rparr>"]) auto
next
  case (Suc n)
  have "a_pos (lg s) \<notin> {Idle, Starting, StartAssertFailed}" using Suc.prems(2) by simp
  then obtain f fu where f: "log_out s = Some f" "lf_file f = Some fu" "alive s"
    using logger_open[OF assms(1) Suc.prems(1)] by blast
  have lt: "i < length (buffersToWrite (lg s))" using Suc.hyps(2) by simp
  let ?dat = "fb_data (buffersToWrite (lg s) ! i)"
  obtain f' where f': "lf_append (e_localtime env) ?dat f = Inr f'"
    using appendInLock_disk[OF f(2)] by (fastforce simp: lf_append_def)
  let ?s = "s\<lparr>lg := (lg s)\<lparr>a_output := a_output (lg s) @ [?dat], a_pos := Writing (Suc i)\<rparr>,
      log_out := Some f', opened_files := opened_files s @ new_name f f'\<rparr>"
  have step: "sys_step env s ?s" by (rule sys_step.write_one[OF f(3) Suc.prems(2) lt f(1) f'])
  have "n = length (buffersToWrite (lg ?s)) - Suc i" using Suc.hyps(2) by simp
  from Suc.hyps(1)[OF this sys_next[OF Suc.prems(1) step]] obtain s' where
    "(sys_step env)\<^sup>*\<^sup>* ?s s'" "a_pos (lg s') = AtTest" "todo s' = todo s" "running (lg s') = running (lg s)"
    by auto
  then show ?case using step by (intro exI[of _ s']) (simp add: converse_rtranclp_into_rtranclp)
qed

lemma thread_passes:
  assumes env: "env_ok env" and reach: "sys_reachable env s" and at: "a_pos (lg s) = AtLock"
  shows "\<exists>s'. (sys_step env)\<^sup>*\<^sup>* s s' \<and> a_pos (lg s') = AtTest \<and> todo s' = todo s
    \<and> running (lg s') = running (lg s)"
proof -
  obtain f fu where f: "alive s" "async_inv (lg s)" using logger_open[OF env reach] at by auto
  obtain a where a: "swap_buffers (lg s) = Inr a" using swap_buffers_total[OF f(2)] by blast
  note sw = swap_inv[OF f(2) at a]
  let ?s = "s\<lparr>lg := a\<lparr>a_pos := Writing 0\<rparr>\<rparr>"
  have step: "sys_step env s ?s" using sys_step.swap[OF f(1) at a] sw(1) by simp
  from thread_writes[OF env sys_next[OF reach step], of 0] obtain s' where
    "(sys_step env)\<^sup>*\<^sup>* ?s s'" "a_pos (lg s') = AtTest" "todo s' = todo s" "running (lg s') = running (lg s)"
    using sw(7) by auto
  then show ?thesis using step by (intro exI[of _ s']) (simp add: converse_rtranclp_into_rtranclp)
qed

text \<open>After \<open>running_\<close> has been reset, the steps of the thread alone lead to its end.\<close>

lemma thread_ends:
  assumes env: "env_ok env" and reach: "sys_reachable env s" and stopped: "\<not> running (lg s)"
    and at: "a_pos (lg s) \<notin> {Idle, Starting, StartAssertFailed}"
  shows "\<exists>s'. (sys_step env)\<^sup>*\<^sup>* s s' \<and> a_pos (lg s') = Finished \<and> todo s' = todo s"
proof -
  have leave: "\<exists>s2. sys_step env s1 s2 \<and> a_pos (lg s2) = Finished \<and> todo s2 = todo s1"
    if r1: "sys_reachable env s1" and at1: "a_pos (lg s1) = AtTest" and "\<not> running (lg s1)" for s1
  proof -
    obtain f fu where f: "log_out s1 = Some f" "lf_flush f = Inr (fu_flush f)" "alive s1"
      using logger_open[OF env r1] at1 by auto
    show ?thesis
      by (intro exI conjI, rule sys_step.leave[OF f(3) at1 \<open>\<not> running (lg s1)\<close> f(1,2)]) simp_all
  qed
  have "async_inv (lg s)" using logger_open[OF env reach at] by blast
  then have "a_pos (lg s) \<noteq> LoopAssertFailed" by (auto simp: async_inv_def)
  then consider "a_pos (lg s) = Finished" | "a_pos (lg s) = AtTest" | "a_pos (lg s) = AtLock"
    | i where "a_pos (lg s) = Writing i" using at by (cases "a_pos (lg s)") auto
  then obtain s1 where s1: "(sys_step env)\<^sup>*\<^sup>* s s1" "todo s1 = todo s"
    "a_pos (lg s1) = Finished \<or> a_pos (lg s1) = AtTest \<and> \<not> running (lg s1)"
    using thread_writes[OF env reach] thread_passes[OF env reach] stopped by cases blast+
  then show ?thesis
    using leave[OF sys_reachable_steps[OF reach s1(1)]] by (metis rtranclp.rtrancl_into_rtrancl)
qed

lemma main_step:
  assumes env: "env_ok env" and reach: "sys_reachable env s" and "alive s" and todo: "todo s = act # rest"
    and can: "can_run act (a_pos (lg s))"
  shows "\<exists>s'. sys_step env s s' \<and> todo s' = rest
    \<and> a_pos (lg s') = (if act = StartLog then Starting else a_pos (lg s))"
proof -
  obtain acts where inv: "sys_inv env acts s" using sys_reachable_inv[OF env reach] by blast
  then have ok: "action_ok act" using test_main_ok todo by (metis in_set_conv_decomp sys_inv_def)
  have core: "core env (s\<lparr>todo := rest\<rparr>)" using inv by (simp add: sys_inv_def)
  obtain s' where s': "run_action env act (s\<lparr>todo := rest\<rparr>) = Inr s'" "todo s' = rest"
    using run_action_ok[OF env ok core] can by auto
  have "a_pos (lg s') = (if act = StartLog then Starting else a_pos (lg s))"
    using s'(1) run_action_quiet[OF env ok core s'(1)] by (cases act) auto
  then show ?thesis using s'(2) sys_step.main_acts[OF assms(3) todo can s'(1)] by blast
qed

text \<open>The main thread can go on to the end of \<open>stop\<close>, once the new thread has passed its first assertion.\<close>

lemma thread_may_begin:
  assumes env: "env_ok env" and reach: "sys_reachable env s" and "a_pos (lg s) \<noteq> StartAssertFailed"
    and "a_pos (lg s) = Starting \<Longrightarrow> running (lg s)"
  shows "\<exists>s'. (sys_step env)\<^sup>*\<^sup>* s s' \<and> todo s' = todo s \<and> a_pos (lg s') \<notin> {Starting, StartAssertFailed} \<and> alive s'"
proof (cases "a_pos (lg s) = Starting")
  case True
  obtain acts where "sys_inv env acts s" using sys_reachable_inv[OF env reach] by blast
  then have "alive s" using True by (simp add: alive_def sys_inv_def core_def)
  from sys_step.thread_begins[OF this True assms(4)[OF True]] \<open>alive s\<close>
  show ?thesis by (intro exI conjI r_into_rtranclp) (assumption, simp_all add: alive_def)
next
  case False
  obtain acts where "sys_inv env acts s" using sys_reachable_inv[OF env reach] by blast
  then have "alive s" using assms(3) by (auto simp: alive_def sys_inv_def core_def async_inv_def)
  then show ?thesis using False assms(3) by blast
qed

lemma join_last:
  assumes "acts @ JoinLog # rest = test_main"
  shows "rest = []"
proof (rule ccontr)
  assume ne: "rest \<noteq> []"
  have "controls acts @ JoinLog # controls rest = [StartLog, StopLog, JoinLog]"
    using arg_cong[OF assms, of controls] by (simp add: controls_test_main)
  then have none: "controls rest = []" by (auto simp: append_eq_Cons_conv)
  have "last rest = last test_main" using ne arg_cong[OF assms, of last] by simp
  then have "JoinLog \<in> set rest" using ne last_in_set[of rest] by (simp add: test_main_def)
  then have "JoinLog \<in> set (controls rest)" by (simp add: controls_def)
  then show False using none by simp
qed

lemma main_to_join:
  assumes env: "env_ok env"
  shows "sys_reachable env s \<Longrightarrow> a_pos (lg s) \<notin> {Starting, StartAssertFailed} \<Longrightarrow> alive s \<Longrightarrow>
    \<exists>s'. (sys_step env)\<^sup>*\<^sup>* s s' \<and> todo s' \<in> {[JoinLog], []} \<and> a_pos (lg s') \<notin> {Starting, StartAssertFailed}"
proof (induction "length (todo s)" arbitrary: s rule: less_induct)
  case less
  note reach = less.prems(1)
  show ?case
  proof (cases "todo s")
    case Nil
    then show ?thesis using less.prems(2) by blast
  next
    case (Cons act rest)
    obtain acts where "sys_inv env acts s" using sys_reachable_inv[OF env reach] by blast
    then have all: "acts @ act # rest = test_main" using Cons by (simp add: sys_inv_def)
    have ph: "phase (controls (todo s)) (lg s)" by (rule sys_reachable_phase[OF env reach])
    show ?thesis
    proof (cases "act = JoinLog")
      case True
      then show ?thesis using join_last all Cons less.prems(2) by blast
    next
      case False
      then have can: "can_run act (a_pos (lg s))" using ph Cons by (cases act) (auto simp: phase_def)
      obtain s1 where s1: "sys_step env s s1" "todo s1 = rest"
        "a_pos (lg s1) = (if act = StartLog then Starting else a_pos (lg s))"
        using main_step[OF env reach less.prems(3) Cons can] by blast
      have r1: "sys_reachable env s1" by (rule sys_next[OF reach s1(1)])
      have "running (lg s1)" if "a_pos (lg s1) = Starting"
      proof -
        have "act = StartLog" using that s1(3) less.prems(2) by (auto split: if_splits)
        then have "controls rest = [StopLog, JoinLog]" using ph Cons by (auto simp: phase_def)
        then show ?thesis using sys_reachable_phase[OF env r1] s1(2) by (simp add: phase_def)
      qed
      then obtain s2 where s2: "(sys_step env)\<^sup>*\<^sup>* s1 s2" "todo s2 = rest"
        "a_pos (lg s2) \<notin> {Starting, StartAssertFailed}" "alive s2"
        using thread_may_begin[OF env r1] s1(2,3) less.prems(2) by (auto split: if_splits)
      have "length (todo s2) < length (todo s)" using s2(2) Cons by simp
      from less.hyps[OF this sys_reachable_steps[OF r1 s2(1)] s2(3,4)] obtain s3 where
        "(sys_step env)\<^sup>*\<^sup>* s2 s3" "todo s3 \<in> {[JoinLog], []}" "a_pos (lg s3) \<notin> {Starting, StartAssertFailed}"
        by blast
      then show ?thesis using s1(1) s2(1) by (meson converse_rtranclp_into_rtranclp rtranclp_trans)
    qed
  qed
qed

lemma program_ends:
  assumes env: "env_ok env" and reach: "sys_reachable env s" and "a_pos (lg s) \<noteq> StartAssertFailed"
    and "a_pos (lg s) = Starting \<Longrightarrow> running (lg s)"
  shows "\<exists>s'. (sys_step env)\<^sup>*\<^sup>* s s' \<and> todo s' = []"
proof -
  obtain s1 where s1: "(sys_step env)\<^sup>*\<^sup>* s s1" "a_pos (lg s1) \<notin> {Starting, StartAssertFailed}" "alive s1"
    using thread_may_begin[OF assms] by blast
  note r1 = sys_reachable_steps[OF reach s1(1)]
  obtain s2 where s2: "(sys_step env)\<^sup>*\<^sup>* s1 s2" "todo s2 \<in> {[JoinLog], []}"
    "a_pos (lg s2) \<notin> {Starting, StartAssertFailed}"
    using main_to_join[OF env r1 s1(2,3)] by blast
  note r2 = sys_reachable_steps[OF r1 s2(1)]
  have ss2: "(sys_step env)\<^sup>*\<^sup>* s s2" using s1(1) s2(1) by (rule rtranclp_trans)
  show ?thesis
  proof (cases "todo s2 = []")
    case True
    then show ?thesis using ss2 by blast
  next
    case False
    then have todo: "todo s2 = [JoinLog]" using s2(2) by simp
    then have "\<not> running (lg s2)" "a_pos (lg s2) \<notin> {Idle, Starting, StartAssertFailed}"
      using sys_reachable_phase[OF env r2] s2(3) by (auto simp: phase_def)
    then obtain s3 where s3: "(sys_step env)\<^sup>*\<^sup>* s2 s3" "a_pos (lg s3) = Finished" "todo s3 = [JoinLog]"
      using thread_ends[OF env r2] todo by auto
    note r3 = sys_reachable_steps[OF r2 s3(1)]
    have "alive s3" using logger_open[OF env r3] s3(2) by auto
    then obtain s4 where "sys_step env s3 s4" "todo s4 = []"
      using main_step[OF env r3 _ s3(3)] s3(2) by auto
    then show ?thesis using ss2 s3(1) by (meson rtranclp.rtrancl_into_rtrancl rtranclp_trans)
  qed
qed

subsection \<open>What stop leaves behind\<close>

text \<open>The front end is empty, or the thread is still to take what is in it; nothing more is logged.\<close>

definition settled :: "log_system \<Rightarrow> bool" where
  "settled s \<longleftrightarrow> set (todo s) \<subseteq> {StopLog, JoinLog} \<and> a_pos (lg s) \<notin> {Idle, Starting, StartAssertFailed}
     \<and> (a_pos (lg s) = AtLock \<or> currentBuffer (lg s) = Some large_buffer \<and> buffers (lg s) = [])"

lemma settled_step:
  assumes "sys_step env s s'" and "sys_inv env acts s" and "settled s"
  shows "settled s'"
  using assms
proof (induction rule: sys_step.induct)
  case (main_acts s act rest s')
  then have "act = StopLog \<or> act = JoinLog" "set rest \<subseteq> {StopLog, JoinLog}"
    by (auto simp: settled_def)
  then show ?case using main_acts by (fastforce simp: settled_def)
next
  case (swap s a)
  then have "async_inv (lg s)" by (simp add: sys_inv_def core_def)
  from swap_inv[OF this swap(2,3)] swap show ?case by (simp add: settled_def)
next
  case (recycle_ok s a f f')
  then have "async_inv (lg s)" by (simp add: sys_inv_def core_def)
  from recycle_inv[OF this recycle_ok(2)] recycle_ok show ?case by (auto simp: settled_def)
next
  case (enter s)
  then have "async_inv (lg s)" by (simp add: sys_inv_def core_def)
  then have "loop_asserts (lg s)"
    using enter(2) by (simp add: async_inv_def loop_asserts_def is_empty_buffer_def fresh_option_iff)
  then show ?case using enter by (simp add: settled_def)
qed (auto simp: settled_def)

lemma settled_steps:
  assumes env: "env_ok env" and "(sys_step env)\<^sup>*\<^sup>* s s'" and "sys_reachable env s" and "settled s"
  shows "settled s'"
  using assms(2)
proof (induction rule: rtranclp_induct)
  case base
  show ?case by (rule assms(4))
next
  case (step s1 s2)
  then show ?case
    using settled_step sys_reachable_inv[OF env sys_reachable_steps[OF assms(3) step(1)]] by blast
qed

subsection \<open>The names of the files\<close>

text \<open>Files are replaced at increasing times, so their names differ where the clock shows the time.\<close>

abbreviation file_name :: "log_env \<Rightarrow> int \<Rightarrow> char list" where
  "file_name env t \<equiv> getLogFileName (e_localtime env) (e_prog env) t"

definition names_ok :: "log_env \<Rightarrow> bool" where
  "names_ok env \<longleftrightarrow> inj_on (file_name env) (range (e_time env))
     \<and> (\<forall>n. e_disk env (file_name env (e_time env n)) = [])"

definition rolled_at :: "log_env \<Rightarrow> log_system \<Rightarrow> int list \<Rightarrow> bool" where
  "rolled_at env s ts \<longleftrightarrow> opened_files s = map (file_name env) ts \<and> sorted_wrt (<) ts
     \<and> set ts \<subseteq> range (e_time env)
     \<and> (case log_out s of None \<Rightarrow> ts = []
        | Some f \<Rightarrow> ts \<noteq> [] \<and> last ts = lastRoll f \<and> time_of f = e_time env \<and> lf_basename f = e_prog env)"

lemma append_times:
  assumes "lf_append lt dat f = Inr f'"
  shows "time_of f' = time_of f \<and> lf_basename f' = lf_basename f
    \<and> (lastRoll f' = lastRoll f \<or> lastRoll f < lastRoll f' \<and> lastRoll f' \<in> range (time_of f)
         \<and> current_name f' = [getLogFileName lt (lf_basename f) (lastRoll f')])"
  using assms
  by (auto simp: lf_append_def appendInLock_def fu_append_def log_file_defs Let_def current_name_def FileUtil_def
      split: option.splits if_splits prod.splits)

lemma flush_times: "lf_flush f = Inr f' \<Longrightarrow>
  time_of f' = time_of f \<and> lf_basename f' = lf_basename f \<and> lastRoll f' = lastRoll f"
  by (auto simp: lf_flush_def fu_flush_def split: option.splits)

lemma sorted_last_append:
  fixes ts :: "int list"
  assumes "sorted_wrt (<) ts" and "ts \<noteq> []" and "last ts < t"
  shows "sorted_wrt (<) (ts @ [t])"
  using assms by (induction ts) (auto split: if_splits, meson last_in_set order_less_trans)

lemma run_action_files:
  "run_action env act s = Inr s' \<Longrightarrow> log_out s' = log_out s \<and> opened_files s' = opened_files s"
  by (cases act) (auto simp: defaultOutput_def setOutput_def log_call_def call_output_def asyncLog_def
      call_flush_def defaultFlush_def split: if_splits output_function.splits flush_function.splits)

lemma rolled_step:
  assumes "sys_step env s s'" and env: "env_ok env" and "sys_inv env acts s" and "rolled_at env s ts"
  shows "\<exists>ts'. rolled_at env s' ts'"
  using assms(1,3,4)
proof (induction rule: sys_step.induct)
  case (main_acts s act rest s')
  then show ?case using run_action_files[OF main_acts(4)] by (auto simp: rolled_at_def)
next
  case (thread_begins s)
  have "lastRoll (open_output env) = e_time env 0" "time_of (open_output env) = e_time env"
    "lf_basename (open_output env) = e_prog env" "current_name (open_output env) = [file_name env (e_time env 0)]"
    using env by (simp_all add: open_output_def LogFile_def log_file_defs env_ok_def Let_def current_name_def
        FileUtil_def)
  then show ?case by (intro exI[of _ "[e_time env 0]"]) (simp add: rolled_at_def)
next
  case (leave s f f')
  then show ?case using flush_times[OF leave(5)] by (auto simp: rolled_at_def)
next
  case (write_one s i f f')
  have old: "opened_files s = map (file_name env) ts" "sorted_wrt (<) ts" "set ts \<subseteq> range (e_time env)"
    "ts \<noteq> []" "last ts = lastRoll f" "time_of f = e_time env" "lf_basename f = e_prog env"
    using write_one by (simp_all add: rolled_at_def)
  note app = append_times[OF write_one(5)]
  show ?case
  proof (cases "lastRoll f' = lastRoll f")
    case True
    then show ?thesis using old app by (intro exI[of _ ts]) (simp add: rolled_at_def new_name_def)
  next
    case False
    then have "sorted_wrt (<) (ts @ [lastRoll f'])" using old app by (intro sorted_last_append) auto
    then show ?thesis
      using False old app by (intro exI[of _ "ts @ [lastRoll f']"]) (simp add: rolled_at_def new_name_def)
  qed
next
  case (recycle_ok s a f f')
  then show ?case using flush_times[OF recycle_ok(5)] by (auto simp: rolled_at_def)
qed (auto simp: rolled_at_def)

lemma sys_reachable_fresh:
  assumes env: "env_ok env" and names: "names_ok env" and "sys_reachable env s"
  shows "fresh_names env s"
proof -
  have "\<exists>ts. rolled_at env s ts"
    using assms(3)
  proof (induction rule: sys_reachable.induct)
    case sys_start
    then show ?case by (intro exI[of _ "[]"]) (simp add: rolled_at_def test_start_def)
  next
    case (sys_next s s')
    then show ?case using rolled_step[OF sys_next.hyps(2) env] sys_reachable_inv[OF env] by blast
  qed
  then obtain ts where ts: "opened_files s = map (file_name env) ts" "sorted_wrt (<) ts" "set ts \<subseteq> range (e_time env)"
    by (auto simp: rolled_at_def)
  have "distinct ts" using ts(2) strict_sorted_iff by blast
  moreover have "inj_on (file_name env) (set ts)" using names ts(3) inj_on_subset by (auto simp: names_ok_def)
  ultimately show ?thesis using ts(1,3) names by (auto simp: fresh_names_def distinct_map names_ok_def)
qed

lemma text_in_files:
  assumes env: "env_ok env" and names: "names_ok env" and reach: "sys_reachable env s"
  shows "given (lg s) = log_text s @ waiting (lg s)"
proof -
  obtain acts where "sys_inv env acts s" using sys_reachable_inv[OF env reach] by blast
  then have core: "core env s" by (simp add: sys_inv_def)
  then have "log_text s = concat (a_output (lg s))"
    using sys_reachable_fresh[OF assms]
    by (cases "log_out s") (simp_all add: core_def file_inv_def, simp add: log_text_def)
  then show ?thesis using core by (simp add: core_def async_inv_def)
qed

subsection \<open>Properties\<close>

text \<open>C19: nothing is lost, repeated or reordered on the way from the log statements of the program
  through the buffers and files of the logger, in whatever way its thread and the main thread
  interleave. In every reachable state the program has performed an initial part of its actions;
  the standard output and the lines given to the logger are what these actions make, by themselves,
  of the environment; and the lines given are the contents of the log files, in the order in which
  the files were opened, followed by what the buffers hold. The disk takes what it is given, and
  the log files had no contents before and have different names, which holds where the clock
  shows different texts at different times.\<close>

theorem log_program_in_order:
  assumes "env_ok env" and "names_ok env" and "sys_reachable env s"
  shows "\<exists>acts. acts @ todo s = test_main \<and> view s = fold (expect env) acts (view (test_start env))
    \<and> v_given (view s) = log_text s @ waiting (lg s) \<and> a_pos (lg s) \<noteq> LoopAssertFailed \<and> \<not> aborted s"
proof -
  obtain acts where inv: "sys_inv env acts s" using sys_reachable_inv[OF assms(1,3)] by blast
  then have "async_inv (lg s)" by (simp add: sys_inv_def core_def)
  then have "a_pos (lg s) \<noteq> LoopAssertFailed" by (auto simp: async_inv_def)
  moreover have "v_given (view s) = given (lg s)" by (simp add: view_def)
  ultimately show ?thesis using inv text_in_files[OF assms] by (auto simp: sys_inv_def core_def)
qed

text \<open>C20: the program writes its whole log. Let the thread of the logger wait for more when \<open>main\<close> comes to
  \<open>stop\<close>, which is what the sleep before it is for. Then whatever happens after that, when \<open>main\<close> has
  returned the standard output holds the process id and the lines logged before \<open>setOutput\<close>, and the log
  files hold every line logged after it, each once and in order: a statement at a level below the one of the
  process makes none, all the others make one. Assumed of the system: \<open>fopen\<close> succeeds and the disk takes all of
  every write; the clock shows times since 1970 with valid local dates; the log files had no contents before, and have different
  names at different times; the thread id is positive, and the base name of the source file has at most 1000 characters.\<close>

theorem log_program_writes_all:
  assumes "env_ok env" and "names_ok env" and "sys_reachable env s"
    and "todo s = [StopLog, JoinLog]" and "a_pos (lg s) = AtLock"
    and "(sys_step env)\<^sup>*\<^sup>* s s'" and "todo s' = []"
  shows "std_out s' = ''pid = '' @ decimal_int (e_pid env) @ [CHR 0x0A] @ concat (log_lines env 0 test_Logging)
    \<and> log_text s' = concat (log_lines env (length (log_lines env 0 test_Logging))
                              (test_Logging @ test_AsyncLogging))"
proof -
  have reach: "sys_reachable env s'" by (rule sys_reachable_steps[OF assms(3,6)])
  have "settled s" using assms(4,5) by (simp add: settled_def)
  then have "settled s'" by (rule settled_steps[OF assms(1,6,3)])
  moreover have "a_pos (lg s') = Finished"
    using sys_reachable_phase[OF assms(1) reach] assms(7) by (simp add: phase_def)
  ultimately have "waiting (lg s') = []" by (simp add: settled_def waiting_def)
  then have given: "given (lg s') = log_text s'" using text_in_files[OF assms(1,2) reach] by simp
  obtain acts where "sys_inv env acts s'" using sys_reachable_inv[OF assms(1) reach] by blast
  then have "view s' = fold (expect env) test_main (view (test_start env))"
    using assms(7) by (simp add: sys_inv_def)
  moreover have "v_out (view s') = std_out s'" "v_given (view s') = given (lg s')" by (simp_all add: view_def)
  ultimately show ?thesis using given test_main_view by metis
qed

text \<open>The program does not get stuck. From every reachable state there is a way for the two
  threads to its end, except where the new thread has failed its first assertion, or must, because
  \<open>stop\<close> was called before it ran.\<close>

theorem log_program_can_end:
  assumes "env_ok env" and "sys_reachable env s"
    and "a_pos (lg s) \<noteq> StartAssertFailed" and "\<not> (a_pos (lg s) = Starting \<and> \<not> running (lg s))"
  shows "\<exists>s'. (sys_step env)\<^sup>*\<^sup>* s s' \<and> todo s' = []"
  by (rule program_ends) (use assms in auto)

subsection \<open>A run of the program\<close>

lemma reachable_alive:
  assumes "env_ok env" and "sys_reachable env s" and "a_pos (lg s) \<noteq> StartAssertFailed"
  shows "alive s" "async_inv (lg s)"
proof -
  obtain acts where inv: "sys_inv env acts s" using sys_reachable_inv[OF assms(1,2)] by blast
  then show "async_inv (lg s)" by (simp add: sys_inv_def core_def)
  with inv show "alive s" using assms(3) by (auto simp: alive_def sys_inv_def core_def async_inv_def)
qed

lemma lines_run:
  assumes env: "env_ok env"
  shows "sys_reachable env s \<Longrightarrow> a_pos (lg s) \<noteq> StartAssertFailed \<Longrightarrow> todo s = acts @ rest \<Longrightarrow>
    (\<And>act. act \<in> set acts \<Longrightarrow> is_line act \<or> act \<in> {PrintPid, PublishLog, SetOutput AsyncLog}) \<Longrightarrow>
    \<exists>s'. sys_reachable env s' \<and> todo s' = rest \<and> a_pos (lg s') = a_pos (lg s)"
proof (induction acts arbitrary: s)
  case Nil
  then show ?case by auto
next
  case (Cons act acts)
  have act: "can_run act (a_pos (lg s))" "act \<noteq> StartLog" using Cons.prems(4)[of act] by (cases act; auto)+
  obtain s1 where "sys_step env s s1" "todo s1 = acts @ rest" "a_pos (lg s1) = a_pos (lg s)"
    using main_step[OF env Cons.prems(1) reachable_alive(1)[OF env Cons.prems(1,2)] _ act(1)] Cons.prems(3) act(2)
    by auto
  then show ?case using Cons.IH[OF sys_next[OF Cons.prems(1)], of s1] Cons.prems(2,4) by auto
qed

lemma stop_while_waiting:
  assumes env: "env_ok env"
  shows "\<exists>s. sys_reachable env s \<and> todo s = [StopLog, JoinLog] \<and> a_pos (lg s) = AtLock"
proof -
  let ?rest = "(test_Logging @ test_AsyncLogging) @ [StopLog, JoinLog]"
  have "a_pos (lg (test_start env)) = Idle" "todo (test_start env)
      = ([PrintPid] @ test_Logging @ [PublishLog, SetOutput AsyncLog]) @ StartLog # ?rest"
    by (simp_all add: test_start_def AsyncLogging_def test_main_def)
  then obtain s1 where s1: "sys_reachable env s1" "todo s1 = StartLog # ?rest" "a_pos (lg s1) = Idle"
    using lines_run[OF env sys_start, of "[PrintPid] @ test_Logging @ [PublishLog, SetOutput AsyncLog]"]
      test_lines(1) by auto
  then obtain s2 where s2: "sys_step env s1 s2" "todo s2 = ?rest" "a_pos (lg s2) = Starting"
    using main_step[OF env s1(1) reachable_alive(1)[OF env s1(1)] s1(2)] by auto
  have r2: "sys_reachable env s2" by (rule sys_next[OF s1(1) s2(1)])
  have "controls (todo s2) = [StopLog, JoinLog]"
    using controls_lines[OF test_lines(1)] controls_lines[OF test_lines(2)] by (simp add: s2(2))
  then have "running (lg s2)" using sys_reachable_phase[OF env r2] by (simp add: phase_def)
  from sys_step.thread_begins[OF reachable_alive(1)[OF env r2] s2(3) this] s2(2,3) obtain s3 where
    s3: "sys_step env s2 s3" "todo s3 = ?rest" "a_pos (lg s3) = AtTest" "running (lg s3)"
    using \<open>running (lg s2)\<close> by fastforce
  have r3: "sys_reachable env s3" by (rule sys_next[OF r2 s3(1)])
  have "loop_asserts (lg s3)"
    using reachable_alive(2)[OF env r3] s3(3)
    by (simp add: async_inv_def loop_asserts_def is_empty_buffer_def fresh_option_iff)
  then obtain s4 where s4: "sys_step env s3 s4" "todo s4 = ?rest" "a_pos (lg s4) = AtLock"
    using sys_step.enter[OF reachable_alive(1)[OF env r3] s3(3,4)] s3(2,3) by fastforce
  show ?thesis
    using lines_run[OF env sys_next[OF r3 s4(1)] _ s4(2)] s4(3) test_lines by auto
qed

text \<open>The clock of this system stands still, and its disk takes what it is given.\<close>

definition sample_env :: log_env where
  "sample_env = \<lparr>e_localtime = (\<lambda>_. sample_tm), e_msgs = (\<lambda>_. []), e_vars = (\<lambda>_. False), e_tid = 42,
     e_pid = 42, e_file = ''../test.cpp'', e_prog = ''test'', e_stamp = (\<lambda>_. TimeStamp 0),
     e_time = (\<lambda>_. 1), e_takes = (\<lambda>_. kLargeBuffer), e_disk = (\<lambda>_. [])\<rparr>"

lemma sample_env_ok: "env_ok sample_env" "names_ok sample_env"
  by (simp_all add: env_ok_def names_ok_def sample_env_def wf_tm_def sample_tm_def)

theorem log_program_in_order_witness:
  "\<exists>s. todo s = [StopLog, JoinLog] \<and> v_given (view s) = log_text s @ waiting (lg s)
     \<and> a_pos (lg s) = AtLock"
  using stop_while_waiting[OF sample_env_ok(1)] log_program_in_order[OF sample_env_ok] by blast

theorem log_program_writes_all_witness:
  "\<exists>s'. sys_reachable sample_env s' \<and> todo s' = [] \<and> length (log_lines sample_env 0 test_Logging) = 13
     \<and> log_text s' = concat (log_lines sample_env 13 (test_Logging @ test_AsyncLogging))"
proof -
  obtain s where s: "sys_reachable sample_env s" "todo s = [StopLog, JoinLog]" "a_pos (lg s) = AtLock"
    using stop_while_waiting[OF sample_env_ok(1)] by blast
  obtain s' where s': "(sys_step sample_env)\<^sup>*\<^sup>* s s'" "todo s' = []"
    using program_ends[OF sample_env_ok(1) s(1)] s(3) by auto
  have "length (log_lines sample_env 0 test_Logging) = 13"
    by (simp add: test_Logging_def sample_env_def initLogLevel_def upt_rec)
  with log_program_writes_all[OF sample_env_ok s s'] s' sys_reachable_steps[OF s(1) s'(1)]
  show ?thesis by auto
qed

theorem log_program_can_end_witness:
  "\<exists>s'. (sys_step sample_env)\<^sup>*\<^sup>* (test_start sample_env) s' \<and> todo s' = []"
  using log_program_can_end[OF sample_env_ok(1) sys_start] by (simp add: test_start_def AsyncLogging_def)

end
