(* ===== verification/Http_Message.thy ===== *)
theory Http_Message
  imports Net_Buffer Time_Stamp
begin

section \<open>Requests and responses (src/http/HttpRequest.h, HttpContext.*, HttpResponse.*)\<close>

text \<open>
  \<open>HttpRequest\<close> and \<open>HttpResponse\<close> are records, their setters are the updates below. A
  \<open>std::unordered_map\<close> is a map; the order in which \<open>appendToBuffer\<close> visits its entries is
  an argument. Pointers into a line are positions of \<open>find_char\<close> in it. The loop of
  \<open>parseRequest\<close> is a partial function: in the states \<open>kExpectBody\<close> and \<open>kGotAll\<close> it never
  leaves the loop. \<open>parse_text\<close> is the specification of the parser, on the bytes alone.
\<close>

datatype Method = kInvalid | kGet | kPost | kHead | kPut | kDelete
datatype Version = kUnknown | kHttp10 | kHttp11

record http_request =
  r_method :: Method
  r_version :: Version
  r_headers :: "char list \<Rightarrow> char list option"
  r_path :: "char list"
  r_query :: "char list"
  r_body :: "char list"
  r_receiveTime :: TimeStamp

definition HttpRequest :: http_request where
  "HttpRequest = \<lparr>r_method = kInvalid, r_version = kUnknown, r_headers = Map.empty, r_path = [],
     r_query = [], r_body = [], r_receiveTime = TimeStamp_default\<rparr>"

fun method_of :: "char list \<Rightarrow> Method" where
  "method_of m =
     (if m = ''GET'' then kGet else if m = ''POST'' then kPost else if m = ''HEAD'' then kHead
      else if m = ''PUT'' then kPut else if m = ''DELETE'' then kDelete else kInvalid)"

definition setMethod :: "char list \<Rightarrow> http_request \<Rightarrow> bool \<times> http_request" where
  "setMethod m r = (method_of m \<noteq> kInvalid, r\<lparr>r_method := method_of m\<rparr>)"

fun methodString :: "Method \<Rightarrow> char list" where
  "methodString kGet = ''GET''"
| "methodString kPost = ''POST''"
| "methodString kHead = ''HEAD''"
| "methodString kPut = ''PUT''"
| "methodString kDelete = ''DELETE''"
| "methodString kInvalid = ''UNKNOWN''"

definition setVersion :: "Version \<Rightarrow> http_request \<Rightarrow> http_request" where
  "setVersion v r = r\<lparr>r_version := v\<rparr>"

definition setPath :: "char list \<Rightarrow> http_request \<Rightarrow> http_request" where
  "setPath s r = r\<lparr>r_path := s\<rparr>"

definition setQuery :: "char list \<Rightarrow> http_request \<Rightarrow> http_request" where
  "setQuery s r = r\<lparr>r_query := s\<rparr>"

definition setReceiveTime :: "TimeStamp \<Rightarrow> http_request \<Rightarrow> http_request" where
  "setReceiveTime t r = r\<lparr>r_receiveTime := t\<rparr>"

text \<open>The second argument of \<open>addHeader\<close> is the position of the colon in the line.\<close>

definition addHeader :: "char list \<Rightarrow> nat \<Rightarrow> http_request \<Rightarrow> http_request" where
  "addHeader line colon r =
     (let field = take colon line;
          value = dropWhile isspace (drop (colon + 1) line);
          value' = rev (dropWhile isspace (rev value))
      in r\<lparr>r_headers := (r_headers r)(field \<mapsto> value')\<rparr>)"

definition getHeader :: "char list \<Rightarrow> http_request \<Rightarrow> char list" where
  "getHeader field r = (case r_headers r field of None \<Rightarrow> [] | Some v \<Rightarrow> v)"

text \<open>\<open>swap\<close> exchanges five of the seven members.\<close>

definition swap_request :: "http_request \<Rightarrow> http_request \<Rightarrow> http_request \<times> http_request" where
  "swap_request a b =
     (b\<lparr>r_body := r_body a, r_receiveTime := r_receiveTime a\<rparr>,
      a\<lparr>r_body := r_body b, r_receiveTime := r_receiveTime b\<rparr>)"

subsection \<open>The parser\<close>

datatype HttpRequestParseState = kExpectRequestLine | kExpectHeaders | kExpectBody | kGotAll

record http_context =
  c_state :: HttpRequestParseState     \<comment> \<open>\<open>state_\<close>\<close>
  c_request :: http_request             \<comment> \<open>\<open>request_\<close>\<close>

definition HttpContext :: http_context where
  "HttpContext = \<lparr>c_state = kExpectRequestLine, c_request = HttpRequest\<rparr>"

definition gotAll :: "http_context \<Rightarrow> bool" where
  "gotAll c \<longleftrightarrow> c_state c = kGotAll"

definition context_reset :: "http_context \<Rightarrow> http_context" where
  "context_reset c = c\<lparr>c_state := kExpectRequestLine,
                       c_request := fst (swap_request (c_request c) HttpRequest)\<rparr>"

definition set_target :: "char list \<Rightarrow> http_request \<Rightarrow> http_request" where
  "set_target target r =
     (let question = find_char (CHR ''?'') target
      in if question \<noteq> length target
         then setQuery (drop question target) (setPath (take question target) r)
         else setPath target r)"

definition set_version_text :: "char list \<Rightarrow> http_request \<Rightarrow> bool \<times> http_request" where
  "set_version_text s r =
     (if length s = 8 \<and> take 7 s = ''HTTP/1.''
      then if s ! 7 = CHR ''1'' then (True, setVersion kHttp11 r)
           else if s ! 7 = CHR ''0'' then (True, setVersion kHttp10 r)
           else (False, r)
      else (False, r))"

definition processRequestLine :: "char list \<Rightarrow> http_request \<Rightarrow> bool \<times> http_request" where
  "processRequestLine line r =
     (let space = find_char (CHR '' '') line
      in if space = length line then (False, r)
         else let (known, r1) = setMethod (take space line) r
              in if \<not> known then (False, r1)
                 else let rest = drop (space + 1) line;
                          space2 = find_char (CHR '' '') rest
                      in if space2 = length rest then (False, r1)
                         else set_version_text (drop (space2 + 1) rest)
                                (set_target (take space2 rest) r1))"

text \<open>
  One turn of the loop: the values of \<open>ok\<close> and \<open>hasMore\<close> after it, the context and the
  buffer. \<open>line_at b p\<close> is the range from \<open>beginRead ()\<close> to \<open>p\<close>.
\<close>

definition line_at :: "buffer \<Rightarrow> nat \<Rightarrow> char list" where
  "line_at b p = segment (readerIndex b) p (store b)"

definition parse_turn ::
    "TimeStamp \<Rightarrow> bool \<Rightarrow> http_context \<Rightarrow> buffer \<Rightarrow> (bool \<times> bool \<times> http_context \<times> buffer) result" where
  "parse_turn receiveTime ok c b =
     (case c_state c of
        kExpectRequestLine \<Rightarrow>
          (case findCRLF b of
             None \<Rightarrow> Inr (ok, False, c, b)
           | Some crlf \<Rightarrow>
               let (ok', r) = processRequestLine (line_at b crlf) (c_request c)
               in if ok'
                  then bind_result (retrieveUntil (crlf + 2) b) (\<lambda>b'.
                    Inr (True, True, c\<lparr>c_request := setReceiveTime receiveTime r,
                                       c_state := kExpectHeaders\<rparr>, b'))
                  else Inr (False, False, c\<lparr>c_request := r\<rparr>, b))
      | kExpectHeaders \<Rightarrow>
          (case findCRLF b of
             None \<Rightarrow> Inr (ok, False, c, b)
           | Some crlf \<Rightarrow>
               let line = line_at b crlf;
                   colon = find_char (CHR '':'') line;
                   (hasMore, c') = (if colon \<noteq> length line
                                 then (True, c\<lparr>c_request := addHeader line colon (c_request c)\<rparr>)
                                 else (False, c\<lparr>c_state := kGotAll\<rparr>))
               in bind_result (retrieveUntil (crlf + 2) b) (\<lambda>b'. Inr (ok, hasMore, c', b')))
      | kExpectBody \<Rightarrow> Inr (ok, True, c, b)
      | kGotAll \<Rightarrow> Inr (ok, True, c, b))"

partial_function (option) parse_loop ::
    "TimeStamp \<Rightarrow> bool \<Rightarrow> http_context \<Rightarrow> buffer \<Rightarrow> (bool \<times> http_context \<times> buffer) result option" where
  "parse_loop t ok c b =
     (case parse_turn t ok c b of
        Inl e \<Rightarrow> Some (Inl e)
      | Inr (ok', hasMore, c', b') \<Rightarrow>
          if hasMore then parse_loop t ok' c' b' else Some (Inr (ok', c', b')))"

definition parseRequest ::
    "buffer \<Rightarrow> TimeStamp \<Rightarrow> http_context \<Rightarrow> (bool \<times> http_context \<times> buffer) result option" where
  "parseRequest b receiveTime c = parse_loop receiveTime True c b"

subsection \<open>Responses\<close>

datatype HttpStatusCode = kUnknownStatus | k200Ok | k301MovedPermanently | k400BadRequest | k404NotFound

fun status_number :: "HttpStatusCode \<Rightarrow> nat" where
  "status_number kUnknownStatus = 0"
| "status_number k200Ok = 200"
| "status_number k301MovedPermanently = 301"
| "status_number k400BadRequest = 400"
| "status_number k404NotFound = 404"

record http_response =
  p_headers :: "char list \<Rightarrow> char list option"
  p_statusCode :: HttpStatusCode
  p_closeConnection :: bool
  p_statusMessage :: "char list"
  p_body :: "char list"

definition HttpResponse :: "bool \<Rightarrow> http_response" where
  "HttpResponse close = \<lparr>p_headers = Map.empty, p_statusCode = kUnknownStatus,
     p_closeConnection = close, p_statusMessage = [], p_body = []\<rparr>"

definition setStatusCode :: "HttpStatusCode \<Rightarrow> http_response \<Rightarrow> http_response" where
  "setStatusCode c p = p\<lparr>p_statusCode := c\<rparr>"

definition setStatusMessage :: "char list \<Rightarrow> http_response \<Rightarrow> http_response" where
  "setStatusMessage m p = p\<lparr>p_statusMessage := m\<rparr>"

definition setCloseConnection :: "bool \<Rightarrow> http_response \<Rightarrow> http_response" where
  "setCloseConnection on p = p\<lparr>p_closeConnection := on\<rparr>"

definition response_addHeader :: "char list \<Rightarrow> char list \<Rightarrow> http_response \<Rightarrow> http_response" where
  "response_addHeader key v p = p\<lparr>p_headers := (p_headers p)(key \<mapsto> v)\<rparr>"

definition setContentType :: "char list \<Rightarrow> http_response \<Rightarrow> http_response" where
  "setContentType v = response_addHeader ''Content-Type'' v"

definition setBody :: "char list \<Rightarrow> http_response \<Rightarrow> http_response" where
  "setBody s p = p\<lparr>p_body := s\<rparr>"

abbreviation CRLF :: "char list" where "CRLF \<equiv> [CR, LF]"

fun append_all :: "char list list \<Rightarrow> buffer \<Rightarrow> buffer result" where
  "append_all [] b = Inr b"
| "append_all (s # ss) b = bind_result (append_buffer s b) (append_all ss)"

text \<open>\<open>entries\<close> are the headers in the order of the iteration; \<open>buf\<close> holds 32 bytes.\<close>

definition appendToBuffer ::
    "(char list \<times> char list) list \<Rightarrow> http_response \<Rightarrow> buffer \<Rightarrow> buffer result" where
  "appendToBuffer entries p output =
     bind_result (append_all
       [snprintf_keep 32 (''HTTP/1.1 '' @ decimal (status_number (p_statusCode p)) @ '' ''),
        p_statusMessage p, CRLF] output) (\<lambda>b1.
     bind_result
       (if p_closeConnection p
        then append_all [''Connection: close'' @ CRLF] b1
        else append_all
          [snprintf_keep 32 (''Content-Length: '' @ decimal (length (p_body p)) @ CRLF),
           ''Connection: Keep-Alive'' @ CRLF] b1) (\<lambda>b2.
     bind_result (append_all (concat (map (\<lambda>(k, v). [k, '': '', v, CRLF]) entries)) b2) (\<lambda>b3.
       append_all [CRLF, p_body p] b3)))"

subsection \<open>Specification of the parser\<close>

text \<open>
  The same on the bytes of the buffer: the result is the value of \<open>ok\<close>, the context and the
  bytes that are left. A context that expects a request line or headers is \<open>parsing\<close>.
\<close>

definition parsing :: "http_context \<Rightarrow> bool" where
  "parsing c \<longleftrightarrow> c_state c = kExpectRequestLine \<or> c_state c = kExpectHeaders"

definition after_request_line :: "TimeStamp \<Rightarrow> char list \<Rightarrow> http_context \<Rightarrow> bool \<times> http_context" where
  "after_request_line t line c =
     (let (ok, r) = processRequestLine line (c_request c)
      in (ok, if ok then c\<lparr>c_request := setReceiveTime t r, c_state := kExpectHeaders\<rparr>
              else c\<lparr>c_request := r\<rparr>))"

definition after_header_line :: "char list \<Rightarrow> http_context \<Rightarrow> bool \<times> http_context" where
  "after_header_line line c =
     (let colon = find_char (CHR '':'') line
      in if colon \<noteq> length line then (True, c\<lparr>c_request := addHeader line colon (c_request c)\<rparr>)
         else (False, c\<lparr>c_state := kGotAll\<rparr>))"

function parse_text ::
    "TimeStamp \<Rightarrow> http_context \<Rightarrow> char list \<Rightarrow> bool \<times> http_context \<times> char list" where
  "parse_text t c s =
     (case search_crlf s of
        None \<Rightarrow> (True, c, s)
      | Some n \<Rightarrow>
          if c_state c = kExpectRequestLine
          then let (ok, c') = after_request_line t (take n s) c
               in if ok then parse_text t c' (drop (n + 2) s) else (False, c', s)
          else let (again, c') = after_header_line (take n s) c
               in if again then parse_text t c' (drop (n + 2) s) else (True, c', drop (n + 2) s))"
  by pat_completeness auto

termination
  by (relation "measure (\<lambda>(t, c, s). length s)") (auto dest: search_crlf_bound)

declare parse_text.simps [simp del]

lemma parse_text_none: "search_crlf s = None \<Longrightarrow> parse_text t c s = (True, c, s)"
  by (simp add: parse_text.simps)

lemma parse_text_request:
  "search_crlf s = Some n \<Longrightarrow> c_state c = kExpectRequestLine \<Longrightarrow>
   after_request_line t (take n s) c = (ok, c') \<Longrightarrow>
   parse_text t c s = (if ok then parse_text t c' (drop (n + 2) s) else (False, c', s))"
  by (subst parse_text.simps) simp

lemma parse_text_header:
  "search_crlf s = Some n \<Longrightarrow> c_state c \<noteq> kExpectRequestLine \<Longrightarrow>
   after_header_line (take n s) c = (again, c') \<Longrightarrow>
   parse_text t c s = (if again then parse_text t c' (drop (n + 2) s) else (True, c', drop (n + 2) s))"
  by (subst parse_text.simps) simp

lemma parsing_after_request_line: "after_request_line t l c = (True, c') \<Longrightarrow> parsing c'"
  by (auto simp: after_request_line_def parsing_def split: prod.splits if_splits)

lemma parsing_after_header_line:
  "after_header_line l c = (True, c') \<Longrightarrow> parsing c \<Longrightarrow> parsing c'"
  by (auto simp: after_header_line_def parsing_def Let_def split: if_splits)

lemma line_at_contents:
  assumes "wf_buffer b" and "search_crlf (contents b) = Some n"
  shows "line_at b (readerIndex b + n) = take n (contents b)" and "n + 2 \<le> readableBytes b"
proof -
  show bound: "n + 2 \<le> readableBytes b"
    using search_crlf_bound[OF assms(2)] length_contents[OF assms(1)] by simp
  then have "readerIndex b + n \<le> writerIndex b" by (simp add: readableBytes_def)
  then show "line_at b (readerIndex b + n) = take n (contents b)"
    by (simp add: line_at_def contents_def take_segment)
qed

text \<open>One turn of the loop implements one line of the specification.\<close>

lemma parse_turn_none:
  "search_crlf (contents b) = None \<Longrightarrow> parsing c \<Longrightarrow> parse_turn t ok c b = Inr (ok, False, c, b)"
  by (auto simp: parse_turn_def findCRLF_contents parsing_def)

lemma parse_turn_some:
  assumes wf: "wf_buffer b" and n: "search_crlf (contents b) = Some n"
  obtains b' where "wf_buffer b'" and "contents b' = drop (n + 2) (contents b)"
    and "c_state c = kExpectRequestLine \<Longrightarrow> parse_turn t ok c b =
      (let (ok', c') = after_request_line t (take n (contents b)) c
       in Inr (ok', ok', c', if ok' then b' else b))"
    and "c_state c = kExpectHeaders \<Longrightarrow> parse_turn t ok c b =
      (let (again, c') = after_header_line (take n (contents b)) c in Inr (ok, again, c', b'))"
proof -
  obtain b' where b': "retrieveUntil (readerIndex b + (n + 2)) b = Inr b'" "wf_buffer b'"
      "contents b' = drop (n + 2) (contents b)"
    using retrieveUntil_ok[OF wf line_at_contents(2)[OF wf n]] by blast
  have until: "retrieveUntil (readerIndex b + n + 2) b = Inr b'" using b'(1) by (simp add: add.assoc)
  show thesis
  proof
    show "wf_buffer b'" "contents b' = drop (n + 2) (contents b)" by fact+
    show "c_state c = kExpectRequestLine \<Longrightarrow> parse_turn t ok c b =
      (let (ok', c') = after_request_line t (take n (contents b)) c
       in Inr (ok', ok', c', if ok' then b' else b))"
      using until by (simp add: parse_turn_def findCRLF_contents n after_request_line_def
          line_at_contents(1)[OF wf n] split: prod.splits)
    show "c_state c = kExpectHeaders \<Longrightarrow> parse_turn t ok c b =
      (let (again, c') = after_header_line (take n (contents b)) c in Inr (ok, again, c', b'))"
      using until by (simp add: parse_turn_def findCRLF_contents n after_header_line_def Let_def
          line_at_contents(1)[OF wf n])
  qed
qed

lemma parse_loop_go:
  "parse_turn t ok c b = Inr (ok', True, c', b') \<Longrightarrow> parse_loop t ok c b = parse_loop t ok' c' b'"
  by (subst parse_loop.simps) simp

lemma parse_loop_stop:
  "parse_turn t ok c b = Inr (ok', False, c', b') \<Longrightarrow> parse_loop t ok c b = Some (Inr (ok', c', b'))"
  by (subst parse_loop.simps) simp

lemma parse_loop_text:
  assumes "wf_buffer b" and "parsing c" and "parse_text t c (contents b) = (ok, c', s')"
  shows "\<exists>b'. parse_loop t True c b = Some (Inr (ok, c', b')) \<and> wf_buffer b' \<and> contents b' = s'"
  using assms
proof (induction "length (contents b)" arbitrary: b c rule: less_induct)
  case less
  show ?case
  proof (cases "search_crlf (contents b)")
    case None
    then show ?thesis
      using parse_loop_stop[OF parse_turn_none[OF None less.prems(2)]] parse_text_none[OF None]
        less.prems(1,3) by auto
  next
    case (Some n)
    obtain b' where b': "wf_buffer b'" "contents b' = drop (n + 2) (contents b)"
      and rl: "c_state c = kExpectRequestLine \<Longrightarrow> parse_turn t True c b =
        (let (ok', c') = after_request_line t (take n (contents b)) c
         in Inr (ok', ok', c', if ok' then b' else b))"
      and hl: "c_state c = kExpectHeaders \<Longrightarrow> parse_turn t True c b =
        (let (again, c') = after_header_line (take n (contents b)) c in Inr (True, again, c', b'))"
      using parse_turn_some[OF less.prems(1) Some, where c = c and t = t and ok = True] by blast
    have shorter: "length (contents b') < length (contents b)"
      using search_crlf_bound[OF Some] by (simp add: b'(2))
    note IH = less.hyps[OF shorter b'(1)]
    show ?thesis
    proof (cases "c_state c = kExpectRequestLine")
      case True
      obtain ok1 c1 where eq: "after_request_line t (take n (contents b)) c = (ok1, c1)" by fastforce
      note pt = parse_text_request[OF Some True eq]
      have turn: "parse_turn t True c b = Inr (ok1, ok1, c1, if ok1 then b' else b)"
        using rl[OF True] eq by simp
      show ?thesis
      proof (cases ok1)
        case ok: True
        with eq have "parsing c1" using parsing_after_request_line by simp
        moreover have "parse_text t c1 (contents b') = (ok, c', s')"
          using pt less.prems(3) ok b'(2) by simp
        moreover have "parse_loop t True c b = parse_loop t True c1 b'"
          using turn ok by (intro parse_loop_go) simp
        ultimately show ?thesis using IH by simp
      next
        case False
        then show ?thesis
          using parse_loop_stop[of t True c b False c1 b] turn pt less.prems(1,3) by auto
      qed
    next
      case False
      then have hs: "c_state c = kExpectHeaders" using less.prems(2) by (simp add: parsing_def)
      obtain again c1 where eq: "after_header_line (take n (contents b)) c = (again, c1)" by fastforce
      note pt = parse_text_header[OF Some False eq]
      have turn: "parse_turn t True c b = Inr (True, again, c1, b')" using hl[OF hs] eq by simp
      show ?thesis
      proof (cases again)
        case ag: True
        with eq have "parsing c1" using parsing_after_header_line less.prems(2) by simp
        moreover have "parse_text t c1 (contents b') = (ok, c', s')"
          using pt less.prems(3) ag b'(2) by simp
        moreover have "parse_loop t True c b = parse_loop t True c1 b'"
          using turn ag by (intro parse_loop_go) simp
        ultimately show ?thesis using IH by simp
      next
        case ag: False
        then show ?thesis
          using parse_loop_stop[of t True c b True c1 b'] turn pt less.prems(3) b' by auto
      qed
    qed
  qed
qed

text \<open>In the other states the loop does not end.\<close>

lemma parse_loop_diverges: "\<not> parsing c \<Longrightarrow> parse_loop t ok c b = None"
proof -
  have "parsing c" if "parse_loop t ok c b = Some y" for y
  proof (rule parse_loop.raw_induct[of "\<lambda>t ok c b y. parsing c", OF _ that])
    fix loop t ok c b y
    assume IH: "\<And>t ok c b y. loop t ok c b = Some y \<Longrightarrow> parsing c"
      and body: "(case parse_turn t ok c b of
        Inl e \<Rightarrow> Some (Inl e)
      | Inr (ok', hasMore, c', b') \<Rightarrow>
          if hasMore then loop t ok' c' b' else Some (Inr (ok', c', b'))) = Some y"
    show "parsing c"
    proof (rule ccontr)
      assume no: "\<not> parsing c"
      then have "parse_turn t ok c b = Inr (ok, True, c, b)"
        by (cases "c_state c") (simp_all add: parse_turn_def parsing_def)
      with body IH no show False by simp
    qed
  qed
  then show "\<not> parsing c \<Longrightarrow> parse_loop t ok c b = None" by (cases "parse_loop t ok c b") auto
qed

subsection \<open>Input that arrives in pieces\<close>

lemma search_crlf_append: "search_crlf s = Some n \<Longrightarrow> search_crlf (s @ u) = Some n"
proof (induction s arbitrary: n rule: search_crlf.induct)
  case (1 x y zs)
  then show ?case by (auto split: if_splits)
qed simp_all

lemma parse_text_append:
  assumes "parsing c" and "parse_text t c s = (ok, c', s')"
  shows "parse_text t c (s @ u) = (if ok \<and> parsing c' then parse_text t c' (s' @ u) else (ok, c', s' @ u))"
  using assms
proof (induction t c s arbitrary: ok c' s' rule: parse_text.induct)
  case (1 t c s)
  show ?case
  proof (cases "search_crlf s")
    case None
    then have "ok" "c' = c" "s' = s" using "1.prems"(2) by (simp_all add: parse_text.simps)
    then show ?thesis using "1.prems"(1) by simp
  next
    case (Some n)
    note hit = search_crlf_append[OF Some, of u]
    have n: "n + 2 \<le> length s" using search_crlf_bound[OF Some] .
    then have parts: "take n (s @ u) = take n s" "drop (n + 2) (s @ u) = drop (n + 2) s @ u"
      by simp_all
    show ?thesis
    proof (cases "c_state c = kExpectRequestLine")
      case True
      obtain ok1 c1 where eq: "after_request_line t (take n s) c = (ok1, c1)" by fastforce
      note pt = parse_text_request[OF Some True eq]
      have ptu: "parse_text t c (s @ u)
          = (if ok1 then parse_text t c1 (drop (n + 2) s @ u) else (False, c1, s @ u))"
        by (rule parse_text_request[OF hit True, unfolded parts, OF eq])
      show ?thesis
      proof (cases ok1)
        case ok1: True
        then have "parse_text t c1 (drop (n + 2) s) = (ok, c', s')" using "1.prems"(2) pt by simp
        moreover have "parsing c1" using parsing_after_request_line eq ok1 by simp
        ultimately show ?thesis using "1.IH"(1)[OF Some True eq[symmetric] refl ok1] ok1
          unfolding ptu by simp
      qed (use "1.prems"(2) pt ptu in auto)
    next
      case False
      obtain again c1 where eq: "after_header_line (take n s) c = (again, c1)" by fastforce
      note pt = parse_text_header[OF Some False eq]
      have ptu: "parse_text t c (s @ u) = (if again then parse_text t c1 (drop (n + 2) s @ u)
          else (True, c1, drop (n + 2) s @ u))"
        by (rule parse_text_header[OF hit False, unfolded parts, OF eq])
      show ?thesis
      proof (cases again)
        case ag: True
        then have "parse_text t c1 (drop (n + 2) s) = (ok, c', s')" using "1.prems"(2) pt by simp
        moreover have "parsing c1" using parsing_after_header_line eq ag "1.prems"(1) by simp
        ultimately show ?thesis using "1.IH"(2)[OF Some False eq[symmetric] refl ag] ag
          unfolding ptu by simp
      next
        case ag: False
        then have "c_state c1 = kGotAll" using eq
          by (auto simp: after_header_line_def Let_def split: if_splits)
        then show ?thesis using "1.prems"(2) pt ptu ag by (auto simp: parsing_def)
      qed
    qed
  qed
qed

lemma parse_text_parsing:
  "parsing c \<Longrightarrow> parse_text t c s = (ok, c', s') \<Longrightarrow> \<not> gotAll c' \<Longrightarrow> ok \<Longrightarrow> parsing c'"
proof (induction t c s arbitrary: ok c' s' rule: parse_text.induct)
  case (1 t c s)
  show ?case
  proof (cases "search_crlf s")
    case None
    then show ?thesis using "1.prems" by (simp add: parse_text_none)
  next
    case (Some n)
    show ?thesis
    proof (cases "c_state c = kExpectRequestLine")
      case True
      obtain ok1 c1 where eq: "after_request_line t (take n s) c = (ok1, c1)" by fastforce
      note pt = parse_text_request[OF Some True eq]
      show ?thesis
      proof (cases ok1)
        case ok1: True
        then have "parse_text t c1 (drop (n + 2) s) = (ok, c', s')" using pt "1.prems"(2) by simp
        moreover have "parsing c1" using parsing_after_request_line eq ok1 by simp
        ultimately show ?thesis using "1.IH"(1)[OF Some True eq[symmetric] refl ok1] "1.prems" by blast
      qed (use pt "1.prems" in simp)
    next
      case False
      obtain again c1 where eq: "after_header_line (take n s) c = (again, c1)" by fastforce
      note pt = parse_text_header[OF Some False eq]
      show ?thesis
      proof (cases again)
        case ag: True
        then have "parse_text t c1 (drop (n + 2) s) = (ok, c', s')" using pt "1.prems"(2) by simp
        moreover have "parsing c1" using parsing_after_header_line eq ag "1.prems"(1) by simp
        ultimately show ?thesis using "1.IH"(2)[OF Some False eq[symmetric] refl ag] "1.prems" by blast
      next
        case ag: False
        then have "gotAll c1" using eq
          by (auto simp: after_header_line_def gotAll_def Let_def split: if_splits)
        then show ?thesis using pt "1.prems" ag by simp
      qed
    qed
  qed
qed

lemma parse_text_bad:
  "parse_text t c s = (False, c', s') \<Longrightarrow> parsing c \<Longrightarrow> parsing c'"
proof (induction t c s rule: parse_text.induct)
  case (1 t c s)
  show ?case
  proof (cases "search_crlf s")
    case (Some n)
    show ?thesis
    proof (cases "c_state c = kExpectRequestLine")
      case True
      obtain ok1 c1 where eq: "after_request_line t (take n s) c = (ok1, c1)" by fastforce
      have "parsing c1" using eq True
        by (auto simp: after_request_line_def parsing_def split: prod.splits if_splits)
      then show ?thesis
        using "1.IH"(1)[OF Some True eq[symmetric] refl] parse_text_request[OF Some True eq] "1.prems"
        by (cases ok1) simp_all
    next
      case False
      obtain again c1 where eq: "after_header_line (take n s) c = (again, c1)" by fastforce
      then show ?thesis
        using "1.IH"(2)[OF Some False eq[symmetric] refl] parse_text_header[OF Some False eq] "1.prems"
          parsing_after_header_line by (cases again) simp_all
    qed
  qed (use "1.prems" in \<open>simp add: parse_text_none\<close>)
qed

subsection \<open>Requests as text\<close>

definition version_text :: "Version \<Rightarrow> char list" where
  "version_text v = (if v = kHttp10 then ''HTTP/1.0'' else ''HTTP/1.1'')"

definition header_line :: "char list \<times> char list \<Rightarrow> char list" where
  "header_line h = fst h @ '': '' @ snd h"

definition request_line :: "Method \<Rightarrow> char list \<Rightarrow> char list \<Rightarrow> Version \<Rightarrow> char list" where
  "request_line m path query v = methodString m @ '' '' @ path @ query @ '' '' @ version_text v"

definition request_text ::
    "Method \<Rightarrow> char list \<Rightarrow> char list \<Rightarrow> Version \<Rightarrow> (char list \<times> char list) list \<Rightarrow> char list" where
  "request_text m path query v hs =
     request_line m path query v @ CRLF @ concat (map (\<lambda>h. header_line h @ CRLF) hs) @ CRLF"

text \<open>The requests that can be written: no separator where it would be taken for one.\<close>

definition target_ok :: "char list \<Rightarrow> char list \<Rightarrow> bool" where
  "target_ok path query \<longleftrightarrow> CHR '' '' \<notin> set path \<and> CHR ''?'' \<notin> set path \<and> CR \<notin> set path
     \<and> CHR '' '' \<notin> set query \<and> CR \<notin> set query \<and> (query = [] \<or> hd query = CHR ''?'')"

definition trimmed :: "char list \<Rightarrow> bool" where
  "trimmed v \<longleftrightarrow> v = [] \<or> (\<not> isspace (hd v) \<and> \<not> isspace (last v))"

definition header_ok :: "char list \<times> char list \<Rightarrow> bool" where
  "header_ok h \<longleftrightarrow> CHR '':'' \<notin> set (fst h) \<and> CR \<notin> set (fst h) \<and> CR \<notin> set (snd h) \<and> trimmed (snd h)"

definition with_header ::
    "(char list \<Rightarrow> char list option) \<Rightarrow> char list \<times> char list \<Rightarrow> char list \<Rightarrow> char list option" where
  "with_header m h = m(fst h \<mapsto> snd h)"

lemma method_round_trip: "m \<noteq> kInvalid \<Longrightarrow> method_of (methodString m) = m"
  by (cases m) simp_all

lemma methodString_chars: "CHR '' '' \<notin> set (methodString m)" "CR \<notin> set (methodString m)"
  by (cases m; simp)+

lemma set_target_ok:
  "target_ok path query \<Longrightarrow> set_target (path @ query) r = r\<lparr>r_path := path, r_query :=
     (if query = [] then r_query r else query)\<rparr>"
  by (cases query) (auto simp: set_target_def target_ok_def setPath_def setQuery_def Let_def
      find_char_eq_length_iff)

lemma set_version_ok:
  "v = kHttp10 \<or> v = kHttp11 \<Longrightarrow> set_version_text (version_text v) r = (True, r\<lparr>r_version := v\<rparr>)"
  by (auto simp: set_version_text_def version_text_def setVersion_def)

lemma processRequestLine_ok:
  assumes m: "m \<noteq> kInvalid" and t: "target_ok path query" and v: "v = kHttp10 \<or> v = kHttp11"
  shows "processRequestLine (request_line m path query v) r
    = (True, r\<lparr>r_method := m, r_version := v, r_path := path,
               r_query := (if query = [] then r_query r else query)\<rparr>)"
proof -
  let ?rest = "(path @ query) @ CHR '' '' # version_text v"
  have line: "request_line m path query v = methodString m @ CHR '' '' # ?rest"
    by (simp add: request_line_def)
  have sp: "CHR '' '' \<notin> set (path @ query)" using t by (simp add: target_ok_def)
  have f1: "find_char (CHR '' '') (request_line m path query v) = length (methodString m)"
    unfolding line by (rule find_char_append_hit) (rule methodString_chars)
  have f2: "find_char (CHR '' '') ?rest = length (path @ query)"
    using sp by (rule find_char_append_hit)
  have d1: "drop (length (methodString m) + 1) (request_line m path query v) = ?rest"
    unfolding line by simp
  have t1: "take (length (methodString m)) (request_line m path query v) = methodString m"
    unfolding line by simp
  have l1: "length (methodString m) \<noteq> length (request_line m path query v)"
    unfolding line by simp
  show ?thesis
    unfolding processRequestLine_def Let_def f1 d1 t1 f2
    using l1 method_round_trip[OF m] m set_target_ok[OF t] set_version_ok[OF v]
    by (simp add: setMethod_def)
qed

lemma trim_ok:
  assumes "trimmed v"
  shows "dropWhile isspace v = v" and "rev (dropWhile isspace (rev v)) = v"
proof -
  show "dropWhile isspace v = v" using assms by (cases v) (simp_all add: trimmed_def)
  have "dropWhile isspace (rev v) = rev v"
    using assms by (cases v rule: rev_cases) (simp_all add: trimmed_def)
  then show "rev (dropWhile isspace (rev v)) = v" by simp
qed

lemma after_header_ok:
  assumes "header_ok h"
  shows "after_header_line (header_line h) c
    = (True, c\<lparr>c_request := (c_request c)\<lparr>r_headers := with_header (r_headers (c_request c)) h\<rparr>\<rparr>)"
proof -
  have line: "header_line h = fst h @ CHR '':'' # CHR '' '' # snd h" by (simp add: header_line_def)
  have f: "find_char (CHR '':'') (header_line h) = length (fst h)"
    unfolding line using assms by (intro find_char_append_hit) (simp add: header_ok_def)
  have "isspace (CHR '' '')" by (simp add: isspace_def)
  then show ?thesis
    using assms trim_ok[of "snd h"] unfolding after_header_line_def Let_def f
    by (simp add: line addHeader_def with_header_def header_ok_def)
qed

lemma request_line_no_CR:
  "target_ok path query \<Longrightarrow> CR \<notin> set (request_line m path query v)"
  using methodString_chars(2)[of m] by (auto simp: request_line_def target_ok_def version_text_def)

lemma header_line_no_CR: "header_ok h \<Longrightarrow> CR \<notin> set (header_line h)"
  by (simp add: header_line_def header_ok_def)

text \<open>Headers one after the other, up to the empty line.\<close>

lemma parse_headers:
  assumes "\<forall>h \<in> set hs. header_ok h" and "c_state c = kExpectHeaders"
  shows "parse_text t c (concat (map (\<lambda>h. header_line h @ CRLF) hs) @ CRLF @ rest)
    = (True, c\<lparr>c_state := kGotAll, c_request := (c_request c)
         \<lparr>r_headers := foldl with_header (r_headers (c_request c)) hs\<rparr>\<rparr>, rest)"
  using assms
proof (induction hs arbitrary: c)
  case Nil
  have end_line: "after_header_line (take 0 (CRLF @ rest)) c = (False, c\<lparr>c_state := kGotAll\<rparr>)"
    by (simp add: after_header_line_def)
  show ?case using parse_text_header[OF _ _ end_line] Nil by simp
next
  case (Cons h hs)
  let ?tail = "concat (map (\<lambda>h. header_line h @ CRLF) hs) @ CRLF @ rest"
  let ?s = "header_line h @ CR # LF # ?tail"
  let ?c = "c\<lparr>c_request := (c_request c)\<lparr>r_headers := with_header (r_headers (c_request c)) h\<rparr>\<rparr>"
  have ok: "header_ok h" using Cons.prems(1) by simp
  have "search_crlf ?s = Some (length (header_line h))"
    by (rule search_crlf_hit[OF header_line_no_CR[OF ok]])
  moreover have "after_header_line (take (length (header_line h)) ?s) c = (True, ?c)"
    using after_header_ok[OF ok] by simp
  ultimately have "parse_text t c ?s = parse_text t ?c (drop (length (header_line h) + 2) ?s)"
    using parse_text_header Cons.prems(2) by fastforce
  then show ?case using Cons.IH[of ?c] Cons.prems by simp
qed

lemma parse_text_request_text:
  assumes "m \<noteq> kInvalid" and "target_ok path query" and "v = kHttp10 \<or> v = kHttp11"
    and "\<forall>h \<in> set hs. header_ok h"
  shows "parse_text t HttpContext (request_text m path query v hs @ rest)
    = (True, \<lparr>c_state = kGotAll, c_request = \<lparr>r_method = m, r_version = v,
         r_headers = foldl with_header Map.empty hs, r_path = path, r_query = query, r_body = [],
         r_receiveTime = t\<rparr>\<rparr>, rest)"
proof -
  let ?line = "request_line m path query v"
  let ?tail = "concat (map (\<lambda>h. header_line h @ CRLF) hs) @ CRLF @ rest"
  let ?s = "?line @ CR # LF # ?tail"
  let ?c = "\<lparr>c_state = kExpectHeaders, c_request = \<lparr>r_method = m, r_version = v,
         r_headers = Map.empty, r_path = path, r_query = query, r_body = [], r_receiveTime = t\<rparr>\<rparr>"
  have s: "request_text m path query v hs @ rest = ?s" by (simp add: request_text_def)
  have hit: "search_crlf ?s = Some (length ?line)"
    by (rule search_crlf_hit[OF request_line_no_CR[OF assms(2)]])
  have "after_request_line t (take (length ?line) ?s) HttpContext = (True, ?c)"
    using processRequestLine_ok[OF assms(1-3), of HttpRequest]
    by (simp add: after_request_line_def HttpContext_def setReceiveTime_def HttpRequest_def)
  then have "parse_text t HttpContext ?s = parse_text t ?c (drop (length ?line + 2) ?s)"
    using parse_text_request[OF hit] by (simp add: HttpContext_def)
  then show ?thesis unfolding s using parse_headers[OF assms(4), of ?c] by simp
qed

subsection \<open>Writing a response\<close>

lemma append_all_ok:
  "wf_buffer b \<Longrightarrow> \<exists>b'. append_all ss b = Inr b' \<and> wf_buffer b' \<and> contents b' = contents b @ concat ss"
proof (induction ss arbitrary: b)
  case (Cons s ss)
  from append_buffer_ok[OF Cons.prems] obtain b1 where
    "append_buffer s b = Inr b1" "wf_buffer b1" "contents b1 = contents b @ s" by blast
  with Cons.IH[of b1] show ?case by auto
qed simp

definition header_text :: "(char list \<times> char list) list \<Rightarrow> char list" where
  "header_text entries = concat (map (\<lambda>h. header_line h @ CRLF) entries)"

definition response_text :: "(char list \<times> char list) list \<Rightarrow> http_response \<Rightarrow> char list" where
  "response_text entries p =
     ''HTTP/1.1 '' @ decimal (status_number (p_statusCode p)) @ '' '' @ p_statusMessage p @ CRLF
     @ (if p_closeConnection p then ''Connection: close'' @ CRLF
        else ''Content-Length: '' @ decimal (length (p_body p)) @ CRLF
             @ ''Connection: Keep-Alive'' @ CRLF)
     @ header_text entries @ CRLF @ p_body p"

lemma response_lines:
  "concat (concat (map (\<lambda>(k, v). [k, '': '', v, CRLF]) entries)) = header_text entries"
  by (induction entries) (auto simp: header_text_def header_line_def)

lemma status_line_fits:
  "snprintf_keep 32 (''HTTP/1.1 '' @ decimal (status_number c) @ '' '')
     = ''HTTP/1.1 '' @ decimal (status_number c) @ '' ''"
proof -
  have "status_number c < 10 ^ 3" by (cases c) simp_all
  then have "length (decimal (status_number c)) \<le> 3" by (rule length_decimal_le) simp
  then show ?thesis by (simp add: snprintf_keep_def)
qed

lemma length_line_fits:
  assumes "n < 10 ^ 13"
  shows "snprintf_keep 32 (''Content-Length: '' @ decimal n @ CRLF) = ''Content-Length: '' @ decimal n @ CRLF"
proof -
  have "length (decimal n) \<le> 13" using assms by (rule length_decimal_le) simp
  then show ?thesis by (simp add: snprintf_keep_def)
qed

text \<open>All that is appended, piece by piece.\<close>

definition response_pieces :: "(char list \<times> char list) list \<Rightarrow> http_response \<Rightarrow> char list list" where
  "response_pieces entries p =
     [snprintf_keep 32 (''HTTP/1.1 '' @ decimal (status_number (p_statusCode p)) @ '' ''),
        p_statusMessage p, CRLF]
     @ (if p_closeConnection p then [''Connection: close'' @ CRLF]
        else [snprintf_keep 32 (''Content-Length: '' @ decimal (length (p_body p)) @ CRLF),
              ''Connection: Keep-Alive'' @ CRLF])
     @ concat (map (\<lambda>(k, v). [k, '': '', v, CRLF]) entries) @ [CRLF, p_body p]"

lemma append_all_append: "append_all (xs @ ys) b = bind_result (append_all xs b) (append_all ys)"
proof (induction xs arbitrary: b)
  case (Cons x xs)
  then show ?case by (cases "append_buffer x b") simp_all
qed simp

lemma appendToBuffer_pieces: "appendToBuffer entries p b = append_all (response_pieces entries p) b"
  unfolding appendToBuffer_def response_pieces_def append_all_append
  by (cases "p_closeConnection p") (simp_all only: if_True if_False bind_result_assoc)

lemma concat_response_pieces:
  assumes "length (p_body p) < 10 ^ 13"
  shows "concat (response_pieces entries p) = response_text entries p"
  unfolding response_pieces_def concat_append response_lines status_line_fits length_line_fits[OF assms]
  by (simp add: response_text_def)

lemma appendToBuffer_ok:
  assumes "wf_buffer b" and "length (p_body p) < 10 ^ 13"
  shows "\<exists>b'. appendToBuffer entries p b = Inr b' \<and> wf_buffer b'
    \<and> contents b' = contents b @ response_text entries p"
  using append_all_ok[OF assms(1), of "response_pieces entries p"] concat_response_pieces[OF assms(2)]
  by (simp add: appendToBuffer_pieces)

subsection \<open>Properties\<close>

text \<open>C11: \<open>parseRequest\<close> implements its specification on the bytes, and returns exactly in the
  states in which a request is being read. In a context that expects a request line or headers
  no assertion fails, the loop ends, and the answer, the context and the bytes left in the
  buffer are those of \<open>parse_text\<close>; called in state \<open>kExpectBody\<close> or again after \<open>kGotAll\<close> without
  a \<open>reset\<close>, the loop never ends.\<close>

theorem parser_meets_spec:
  assumes "wf_buffer b"
  shows "if c_state c = kExpectRequestLine \<or> c_state c = kExpectHeaders
    then \<exists>ok c' b'. parseRequest b t c = Some (Inr (ok, c', b')) \<and> wf_buffer b'
           \<and> parse_text t c (contents b) = (ok, c', contents b')
    else parseRequest b t c = None"
proof -
  obtain ok c' s' where eq: "parse_text t c (contents b) = (ok, c', s')" by (rule prod_cases3)
  show ?thesis
    using parse_loop_text[OF assms _ eq] parse_loop_diverges[of c t True b] eq
    by (auto simp: parseRequest_def parsing_def)
qed

theorem parser_meets_spec_witness:
  "parseRequest (Buffer kInitialSize) TimeStamp_default (HttpContext\<lparr>c_state := kGotAll\<rparr>) = None
   \<and> (\<exists>ok c' b'. parseRequest (Buffer kInitialSize) TimeStamp_default HttpContext = Some (Inr (ok, c', b'))
        \<and> contents b' = [] \<and> ok \<and> c' = HttpContext)"
  using parser_meets_spec[OF wf_Buffer, of "HttpContext\<lparr>c_state := kGotAll\<rparr>"]
    parser_meets_spec[OF wf_Buffer, of HttpContext kInitialSize TimeStamp_default]
  by (auto simp: HttpContext_def parse_text_none)

text \<open>C27: a request may arrive in any pieces. Parsing what is there, appending more bytes and
  parsing on with the same context gives the answer, the context and the left over bytes that
  parsing everything at once gives.\<close>

theorem request_in_pieces:
  assumes b: "wf_buffer b" and c: "c_state c = kExpectRequestLine \<or> c_state c = kExpectHeaders"
    and first: "parseRequest b t c = Some (Inr (True, c1, b1))" and "\<not> gotAll c1"
    and more: "append_buffer s b1 = Inr b2" and once: "append_buffer s b = Inr b3"
  shows "\<exists>ok c' b' b''. parseRequest b2 t c1 = Some (Inr (ok, c', b'))
    \<and> parseRequest b3 t c = Some (Inr (ok, c', b'')) \<and> contents b' = contents b''"
proof -
  have pc: "parsing c" using c by (simp add: parsing_def)
  obtain ok0 c0 s0 where eq0: "parse_text t c (contents b) = (ok0, c0, s0)" by (rule prod_cases3)
  with parse_loop_text[OF b pc eq0] first have f: "ok0" "c0 = c1" "wf_buffer b1" "contents b1 = s0"
    by (auto simp: parseRequest_def)
  have b2: "wf_buffer b2" "contents b2 = s0 @ s" using append_buffer_ok[OF f(3), of s] more f(4) by auto
  have b3: "wf_buffer b3" "contents b3 = contents b @ s" using append_buffer_ok[OF b, of s] once by auto
  have pc1: "parsing c1" using parse_text_parsing[OF pc eq0] f(1,2) \<open>\<not> gotAll c1\<close> by simp
  obtain ok c' s' where eq: "parse_text t c1 (s0 @ s) = (ok, c', s')" by (rule prod_cases3)
  then have eq3: "parse_text t c (contents b @ s) = (ok, c', s')"
    using parse_text_append[OF pc eq0, of s] f(1,2) pc1 by simp
  show ?thesis
    using parse_loop_text[OF b2(1) pc1, of t ok c' s'] eq b2(2)
      parse_loop_text[OF b3(1) pc, of t ok c' s'] eq3 b3(2)
    by (auto simp: parseRequest_def)
qed

lemma parse_sample_piece:
  "parse_text TimeStamp_default HttpContext ''GET / HT'' = (True, HttpContext, ''GET / HT'')"
  by (rule parse_text_none) code_simp

theorem request_in_pieces_witness:
  "\<exists>b b1 b2 b3 c1 ok c' b' b''. append_buffer ''GET / HT'' (Buffer kInitialSize) = Inr b
    \<and> parseRequest b TimeStamp_default HttpContext = Some (Inr (True, c1, b1))
    \<and> append_buffer ''TP/1.1'' b1 = Inr b2 \<and> append_buffer ''TP/1.1'' b = Inr b3
    \<and> parseRequest b2 TimeStamp_default c1 = Some (Inr (ok, c', b'))
    \<and> parseRequest b3 TimeStamp_default HttpContext = Some (Inr (ok, c', b''))
    \<and> contents b' = contents b''"
proof -
  obtain b where b: "append_buffer ''GET / HT'' (Buffer kInitialSize) = Inr b" "wf_buffer b"
      "contents b = ''GET / HT''"
    using append_buffer_ok[OF wf_Buffer, of "''GET / HT''" kInitialSize] by auto
  have "parse_text TimeStamp_default HttpContext (contents b) = (True, HttpContext, ''GET / HT'')"
    unfolding b(3) by (rule parse_sample_piece)
  from parse_loop_text[OF b(2) _ this] obtain b1 where
    b1: "parseRequest b TimeStamp_default HttpContext = Some (Inr (True, HttpContext, b1))" "wf_buffer b1"
    by (auto simp: parseRequest_def parsing_def HttpContext_def)
  obtain b2 where b2: "append_buffer ''TP/1.1'' b1 = Inr b2" using append_buffer_ok[OF b1(2)] by blast
  obtain b3 where b3: "append_buffer ''TP/1.1'' b = Inr b3" using append_buffer_ok[OF b(2)] by blast
  have "c_state HttpContext = kExpectRequestLine" "\<not> gotAll HttpContext"
    by (simp_all add: HttpContext_def gotAll_def)
  with request_in_pieces[OF b(2) _ b1(1) _ b2 b3] b(1) b1(1) b2 b3 show ?thesis by blast
qed

text \<open>C12: parsing inverts writing. A request that is written with its method, path, query,
  version and headers is read back with all of them, for repeated fields the last value, and
  the bytes that follow it stay in the buffer. The query keeps its question mark.\<close>

theorem request_round_trip:
  assumes "wf_buffer b" and "contents b = request_text m path query v hs @ rest"
    and "m \<noteq> kInvalid" and "target_ok path query" and "v = kHttp10 \<or> v = kHttp11"
    and "\<forall>h \<in> set hs. header_ok h"
  shows "\<exists>c' b'. parseRequest b t HttpContext = Some (Inr (True, c', b')) \<and> contents b' = rest
    \<and> gotAll c' \<and> r_method (c_request c') = m \<and> r_version (c_request c') = v
    \<and> r_path (c_request c') = path \<and> r_query (c_request c') = query
    \<and> r_headers (c_request c') = foldl with_header Map.empty hs
    \<and> r_receiveTime (c_request c') = t"
proof -
  have "parsing HttpContext" by (simp add: parsing_def HttpContext_def)
  from parse_loop_text[OF assms(1) this parse_text_request_text[OF assms(3-6), of t rest,
      folded assms(2)]]
  show ?thesis by (auto simp: parseRequest_def gotAll_def)
qed

theorem request_round_trip_witness:
  "\<exists>b c' b'. append_buffer (request_text kPost ''/a'' ''?x=1'' kHttp11 [(''Host'', ''h'')] @ ''body'')
       (Buffer kInitialSize) = Inr b
    \<and> parseRequest b TimeStamp_default HttpContext = Some (Inr (True, c', b'))
    \<and> contents b' = ''body'' \<and> r_path (c_request c') = ''/a''
    \<and> getHeader ''Host'' (c_request c') = ''h''"
proof -
  let ?s = "request_text kPost ''/a'' ''?x=1'' kHttp11 [(''Host'', ''h'')] @ ''body''"
  obtain b where b: "append_buffer ?s (Buffer kInitialSize) = Inr b" "wf_buffer b" "contents b = ?s"
    using append_buffer_ok[OF wf_Buffer, of ?s kInitialSize] by auto
  have "target_ok ''/a'' ''?x=1''" by (simp add: target_ok_def)
  moreover have "\<forall>h \<in> set [(''Host'', ''h'')]. header_ok h"
    by (simp add: header_ok_def trimmed_def isspace_def)
  ultimately show ?thesis
    using request_round_trip[OF b(2,3), of TimeStamp_default] b(1)
    by (fastforce simp: getHeader_def with_header_def)
qed

text \<open>The text of a response. For a body of less than \<open>10 ^ 13\<close> bytes the formatted lines fit
  into their 32 byte array, and \<open>appendToBuffer\<close> adds to the buffer the status line, the
  connection headers, the headers of the map and the body; a parser that searches for the end
  of the first line finds the status line.\<close>

theorem response_is_written:
  assumes "wf_buffer b" and "length (p_body p) < 10 ^ 13" and "CR \<notin> set (p_statusMessage p)"
    and "contents b = []"
  shows "\<exists>b' n. appendToBuffer entries p b = Inr b' \<and> wf_buffer b'
    \<and> contents b' = response_text entries p \<and> findCRLF b' = Some (readerIndex b' + n)
    \<and> take n (contents b')
        = ''HTTP/1.1 '' @ decimal (status_number (p_statusCode p)) @ '' '' @ p_statusMessage p"
proof -
  let ?status = "''HTTP/1.1 '' @ decimal (status_number (p_statusCode p)) @ '' '' @ p_statusMessage p"
  obtain b' where b': "appendToBuffer entries p b = Inr b'" "wf_buffer b'"
      "contents b' = response_text entries p"
    using appendToBuffer_ok[OF assms(1,2)] assms(4) by auto
  obtain tail where tail: "response_text entries p = ?status @ CR # LF # tail"
    by (simp add: response_text_def)
  have "CR \<notin> set (decimal (status_number (p_statusCode p)))" by (rule not_in_decimal) simp
  then have "CR \<notin> set ?status" using assms(3) by simp
  then have "search_crlf (contents b') = Some (length ?status)"
    unfolding b'(3) tail by (rule search_crlf_hit)
  then show ?thesis using b' tail by (intro exI[of _ b'] exI[of _ "length ?status"])
      (simp add: findCRLF_contents)
qed

theorem response_is_written_witness:
  "\<exists>b'. appendToBuffer [] (setStatusMessage ''OK'' (setStatusCode k200Ok (HttpResponse True)))
       (Buffer kInitialSize) = Inr b'
     \<and> contents b' = ''HTTP/1.1 200 OK'' @ CRLF @ ''Connection: close'' @ CRLF @ CRLF"
proof -
  let ?p = "setStatusMessage ''OK'' (setStatusCode k200Ok (HttpResponse True))"
  have p: "p_body ?p = []" "p_statusMessage ?p = ''OK''" "p_statusCode ?p = k200Ok" "p_closeConnection ?p"
    by (simp_all add: setStatusMessage_def setStatusCode_def HttpResponse_def)
  have "decimal 200 = ''200''" by code_simp
  then have "response_text [] ?p = ''HTTP/1.1 200 OK'' @ CRLF @ ''Connection: close'' @ CRLF @ CRLF"
    unfolding response_text_def p header_text_def using p(4) by simp
  then show ?thesis using response_is_written[OF wf_Buffer, of ?p kInitialSize "[]"] p by auto
qed

end
