(* ===== verification/Server_Session.thy ===== *)
theory Server_Session
  imports Net_TcpServer
begin

section \<open>A server at work\<close>

text \<open>
  What the programs that use a \<open>TcpServer\<close> share: sending and closing from the thread of the
  loop, one round of the loop for one ready descriptor, and the bytes that a client gets.
\<close>

subsection \<open>Facts that do not depend on the callbacks\<close>

lemma direct_write_cong:
  "(writeCompleteCallback a = None \<longleftrightarrow> writeCompleteCallback b = None) \<Longrightarrow>
   direct_write a i msg ch w = direct_write b i msg ch w"
  by (simp add: direct_write_def del: not_None_eq cong: prod.case_cong sum.case_cong if_cong)

lemma buffer_remaining_cong:
  "(highWaterMarkCallback a = None \<longleftrightarrow> highWaterMarkCallback b = None) \<Longrightarrow>
   buffer_remaining a i msg w = buffer_remaining b i msg w"
  by (simp add: buffer_remaining_def del: not_None_eq)

lemma sendInLoop_cong:
  assumes "writeCompleteCallback a = None \<longleftrightarrow> writeCompleteCallback b = None"
    and "highWaterMarkCallback a = None \<longleftrightarrow> highWaterMarkCallback b = None"
  shows "sendInLoop a i msg w = sendInLoop b i msg w"
  unfolding sendInLoop_def direct_write_cong[OF assms(1)] buffer_remaining_cong[OF assms(2)] ..

lemma keeps_removeConnectionInLoop:
  assumes "conn_inv i (w :: server_world)"
  shows "keeps i w (removeConnectionInLoop i w)"
proof -
  let ?w1 = "w\<lparr>connections := (connections w)(conn_name (conns w i) := None)\<rparr>"
  have "conn_inv i ?w1" using assms by (rule conn_inv_loop_cong) (simp_all add: cloop_def)
  then show ?thesis by (simp add: removeConnectionInLoop_def)
qed

lemma conn_inv_queue_loop:
  assumes "conn_inv i w"
  shows "conn_inv i (upd_loop l (queueInLoop t f) w)"
  using assms by (cases "l = conn_loop (conns w i)") (simp_all add: conn_inv_def cloop_def)

lemma keeps_removeConnection:
  assumes "conn_inv i w"
  shows "keeps i w (removeConnection i w)"
  using keeps_removeConnectionInLoop[OF assms] conn_inv_queue_loop[OF assms]
  by (simp add: removeConnection_def run_on_def runInLoop_def)

lemma keeps_shutdown_after:
  assumes "keeps i w r"
  shows "keeps i w (bind_result r (shutdown_conn i))"
  using assms keeps_shutdown by (rule keeps_bind)

subsection \<open>Sending from the thread of the loop\<close>

definition same_threads :: "server_world \<Rightarrow> server_world \<Rightarrow> bool" where
  "same_threads w w' \<longleftrightarrow> cur_thread w' = cur_thread w
     \<and> (\<forall>l. threadId (loops w' l) = threadId (loops w l))"

lemma same_threads_refl: "loops w' = loops w \<Longrightarrow> cur_thread w' = cur_thread w \<Longrightarrow> same_threads w w'"
  by (simp add: same_threads_def)

lemma same_threads_trans: "same_threads a b \<Longrightarrow> same_threads b c \<Longrightarrow> same_threads a c"
  by (simp add: same_threads_def)

lemma same_threads_queue: "same_threads w (queue_conn i f w)"
  by (simp add: same_threads_def queue_conn_def upd_cloop_def)

lemma same_threads_writing:
  assumes "on_channel enableWriting i w = Inr w'"
  shows "same_threads w w'"
proof -
  from assms have "cur_thread w' = cur_thread w" by (auto simp: on_channel_def)
  then show ?thesis
    using on_channel_change_queue(2)[OF assms[unfolded enableWriting_def]]
    by (simp add: same_threads_def)
qed

lemma same_threads_direct:
  assumes "direct_write cbs i msg ch w = (a, b, c, w')"
  shows "same_threads w w'"
proof -
  have sw: "same_threads w w1" if "socket_write i msg w = (r, w1)" for r w1
    using that by (auto simp: socket_write_def Let_def split: sum.splits intro!: same_threads_refl)
  show ?thesis
    using assms same_threads_trans[OF sw same_threads_queue]
    by (auto simp: direct_write_def Let_def same_threads_refl split: if_splits prod.splits sum.splits
        dest!: sw)
qed

lemma same_threads_remaining:
  assumes "buffer_remaining cbs i data w = Inr w'"
  shows "same_threads w w'"
proof -
  let ?n = "readableBytes (outputBuffer (conns w i)) + length data"
  let ?w1 = "if ?n \<ge> highWaterMark (conns w i)
      \<and> readableBytes (outputBuffer (conns w i)) < highWaterMark (conns w i)
      \<and> highWaterMarkCallback cbs \<noteq> None
    then queue_conn i (CallHighWaterMark i ?n) w else w"
  obtain w1 where eq: "w1 = ?w1" by blast
  then have w1: "same_threads w w1" using same_threads_queue same_threads_refl[OF refl refl] by simp
  have "bind_result (append_buffer data (outputBuffer (conns w1 i))) (\<lambda>out.
         bind_result (get_chan i (upd_conn i (\<lambda>c. c\<lparr>outputBuffer := out\<rparr>) w1)) (\<lambda>ch.
            if \<not> isWriting ch
            then on_channel enableWriting i (upd_conn i (\<lambda>c. c\<lparr>outputBuffer := out\<rparr>) w1)
            else Inr (upd_conn i (\<lambda>c. c\<lparr>outputBuffer := out\<rparr>) w1))) = Inr w'"
    using assms unfolding buffer_remaining_def Let_def eq .
  then obtain out ch where "(if \<not> isWriting ch
      then on_channel enableWriting i (upd_conn i (\<lambda>c. c\<lparr>outputBuffer := out\<rparr>) w1)
      else Inr (upd_conn i (\<lambda>c. c\<lparr>outputBuffer := out\<rparr>) w1)) = Inr w'"
    by (elim bind_result_eq_InrE) blast
  then have "w' = upd_conn i (\<lambda>c. c\<lparr>outputBuffer := out\<rparr>) w1
      \<or> on_channel enableWriting i (upd_conn i (\<lambda>c. c\<lparr>outputBuffer := out\<rparr>) w1) = Inr w'"
    by (cases "isWriting ch") simp_all
  moreover have "same_threads w1 (upd_conn i g w1)" for g by (rule same_threads_refl) simp_all
  ultimately show ?thesis using w1 same_threads_trans same_threads_writing by blast
qed

lemma same_threads_sendInLoop:
  assumes "sendInLoop cbs i msg w = Inr w'"
  shows "same_threads w w'"
  using assms same_threads_trans[OF same_threads_direct same_threads_remaining]
  by (auto simp: sendInLoop_def Let_def same_threads_refl dest: same_threads_direct
      split: if_splits prod.splits)

text \<open>
  What both kinds of answers do: bytes are sent from the thread of the loop, and then the
  connection may be shut down.
\<close>

definition here :: "nat \<Rightarrow> server_world \<Rightarrow> bool" where
  "here i w \<longleftrightarrow> conn_inv i w \<and> conn_state (conns w i) = kConnected
     \<and> isInLoopThread (cur_thread w) (cloop i w)"

definition stream :: "nat \<Rightarrow> server_world \<Rightarrow> char list" where
  "stream i w = wire (conns w i) @ contents (outputBuffer (conns w i))"

definition lost_peer :: "nat \<Rightarrow> server_world \<Rightarrow> bool" where
  "lost_peer i w \<longleftrightarrow> contents (outputBuffer (conns w i)) = [] \<and> peer_gone (write_answers w (writes_done w))"

lemma sendInLoop_here:
  assumes "here i w"
  shows "\<exists>w'. sendInLoop cbs i msg w = Inr w' \<and> here i w'
    \<and> stream i w' = stream i w @ (if lost_peer i w then [] else msg)
    \<and> inputBuffer (conns w' i) = inputBuffer (conns w i)"
proof -
  have act: "active (conns w i)" using assms by (simp add: here_def active_def)
  have inv: "conn_inv i w" using assms by (simp add: here_def)
  obtain w' where w': "sendInLoop cbs i msg w = Inr w'" "conn_inv i w'" "same_conn (conns w i) (conns w' i)"
      "wire (conns w' i) @ contents (outputBuffer (conns w' i))
        = wire (conns w i) @ contents (outputBuffer (conns w i)) @ (if lost_peer i w then [] else msg)"
    using sendInLoop_ok[OF inv act, of cbs msg] by (auto simp: lost_peer_def)
  note same = same_connD[OF w'(3)]
  have "isInLoopThread (cur_thread w') (cloop i w')"
    using same_threads_sendInLoop[OF w'(1)] assms
    by (simp add: here_def isInLoopThread_def same_threads_def cloop_def same(2))
  then show ?thesis using w' assms same by (intro exI[of _ w']) (simp add: here_def stream_def)
qed

lemma shutdown_here:
  assumes "here i w"
  shows "\<exists>w'. shutdown_conn i w = Inr w' \<and> conn_inv i w'
    \<and> conn_state (conns w' i) = kDisconnecting \<and> stream i w' = stream i w
    \<and> inputBuffer (conns w' i) = inputBuffer (conns w i)"
proof -
  have h: "conn_inv i w" "conn_state (conns w i) = kConnected"
      "isInLoopThread (cur_thread w) (cloop i w)" using assms by (simp_all add: here_def)
  from shutdown_ok[OF h] show ?thesis by (auto simp: stream_def)
qed

lemma here_input: "here i w \<Longrightarrow> wf_buffer b \<Longrightarrow> here i (upd_conn i (\<lambda>c. c\<lparr>inputBuffer := b\<rparr>) w)"
  by (auto simp: here_def conn_inv_def channel_inv_def)

lemma stream_input [simp]: "stream i (upd_conn i (\<lambda>c. c\<lparr>inputBuffer := b\<rparr>) w) = stream i w"
  by (simp add: stream_def)

lemma lost_peer_input [simp]: "lost_peer i (upd_conn i (\<lambda>c. c\<lparr>inputBuffer := b\<rparr>) w) = lost_peer i w"
  by (simp add: lost_peer_def)

text \<open>The sample server with connection 0 open, in the thread of its loop.\<close>

lemma sample_here: "here 0 sample_server"
  by (simp add: here_def cloop_def sample_loops_def isInLoopThread_def sample_eventloop_def)

lemma sample_server_answers: "write_answers sample_server n = WriteOk 0"
  by (simp add: sample_server_def sample_world_def world.defs)

lemma sample_peer: "\<not> lost_peer 0 sample_server"
  by (simp add: lost_peer_def peer_gone_def sample_server_answers)

text \<open>The same with bytes in the input buffer.\<close>

definition server_with_input :: "char list \<Rightarrow> server_world" where
  "server_with_input s = (case append_buffer s (Buffer kInitialSize) of
     Inl e \<Rightarrow> sample_server
   | Inr b \<Rightarrow> upd_conn 0 (\<lambda>c. c\<lparr>inputBuffer := b\<rparr>) sample_server)"

lemma server_with_input:
  "\<exists>b. server_with_input s = upd_conn 0 (\<lambda>c. c\<lparr>inputBuffer := b\<rparr>) sample_server
    \<and> wf_buffer b \<and> contents b = s \<and> here 0 (server_with_input s)
    \<and> \<not> lost_peer 0 (server_with_input s) \<and> stream 0 (server_with_input s) = []"
proof -
  obtain b where b: "append_buffer s (Buffer kInitialSize) = Inr b" "wf_buffer b" "contents b = s"
    using append_buffer_ok[OF wf_Buffer, of s kInitialSize] by auto
  then have "server_with_input s = upd_conn 0 (\<lambda>c. c\<lparr>inputBuffer := b\<rparr>) sample_server"
    by (simp add: server_with_input_def)
  moreover have "stream 0 sample_server = []" by (simp add: stream_def)
  ultimately show ?thesis using b here_input[OF sample_here b(2)] sample_peer by auto
qed

subsection \<open>One ready descriptor\<close>

lemma poll_one:
  assumes "interest s fd = Some (ev, c)" and "heap s c = Some ch" and "1 < event_slots s"
  shows "poll (WaitOk [(e, fd)]) now s
    = Inr (now, [c], Some (EventsHappened 1), put_channel c (set_revents e ch) s)"
proof -
  have "ready_events [(e, fd)] s = [(e, c)]"
    using assms(1,3) by (simp add: ready_events_def List.map_filter_def)
  then show ?thesis
    using assms(2,3) by (simp add: poll_def fillActiveChannels_def put_channel_def)
qed

lemma handle_input:
  "handleEventWithGuard cbs EPOLLIN t w = call_if_set (map_option (\<lambda>f. f t) (readCallback cbs)) w"
  by (simp add: handleEventWithGuard_def EPOLLIN_def EPOLLHUP_def EPOLLERR_def EPOLLPRI_def EPOLLOUT_def)

lemma doPendingFunctors_none:
  assumes "pendingFunctors (loops w l) = []" and "\<not> callingPendingFunctors (loops w l)"
  shows "doPendingFunctors (\<lambda>w. loops w l) (upd_loop l) exec (w :: 's world_scheme) = Inr w"
proof -
  have "(loops w l)\<lparr>pendingFunctors := [], callingPendingFunctors := False\<rparr> = loops w l"
    using assms by (cases "loops w l") simp
  then have "(loops w)(l := (loops w l)\<lparr>pendingFunctors := [], callingPendingFunctors := False\<rparr>) = loops w"
    by (simp add: fun_upd_idem)
  then show ?thesis
    using assms by (simp add: doPendingFunctors_def Let_def upd_loop_def)
qed

lemma handle_connection:
  assumes "heap (loops w l) c = Some ch" and "tied ch" "tie_obj ch = Some i" "revents ch = EPOLLIN"
    and "c \<noteq> wakeupChannel (loops w l)" "c \<noteq> timerChannel (loops w l)" "c \<noteq> acceptChannel w"
  shows "handle_channel cbs (\<lambda>_. True) l c t w = handleRead (conn_cbs cbs) i t w"
  using assms by (simp add: handle_channel_def handleEvent_def handle_input conn_chan_callbacks_def
      call_if_set_def)

lemma handle_acceptor:
  assumes "heap (loops w l) (acceptChannel w) = Some ch" and "\<not> tied ch" "revents ch = EPOLLIN"
    and "acceptChannel w \<noteq> wakeupChannel (loops w l)" "acceptChannel w \<noteq> timerChannel (loops w l)"
  shows "handle_channel cbs alive l (acceptChannel w) t w
    = Acceptor_handleRead (Some (newConnection cbs)) w"
  using assms by (simp add: handle_channel_def handleEvent_def handle_input call_if_set_def)

lemma handle_timerfd:
  assumes "heap (loops w l) (timerChannel (loops w l)) = Some ch" and "\<not> tied ch" "revents ch = EPOLLIN"
    and "timerChannel (loops w l) \<noteq> wakeupChannel (loops w l)"
  shows "handle_channel cbs alive l (timerChannel (loops w l)) t w
    = timer_handleRead (\<lambda>w. srv_timers w l) (upd_timers l) (srv_timer cbs) w"
  using assms by (simp add: handle_channel_def handleEvent_def handle_input call_if_set_def)

lemma handle_wakeup_fd:
  assumes "heap (loops w l) (wakeupChannel (loops w l)) = Some ch" and "\<not> tied ch" "revents ch = EPOLLIN"
  shows "handle_channel cbs alive l (wakeupChannel (loops w l)) t w
    = Inr (upd_loop l (snd \<circ> wakeup_handleRead) w)"
  using assms by (simp add: handle_channel_def handleEvent_def handle_input call_if_set_def)

text \<open>The state in which the handlers of a round start.\<close>

definition after_poll :: "nat \<Rightarrow> nat \<Rightarrow> channel \<Rightarrow> TimeStamp \<Rightarrow> server_world \<Rightarrow> server_world" where
  "after_poll l c ch t w = upd_loop l (\<lambda>e. (put_channel c (set_revents EPOLLIN ch) e)
     \<lparr>activeChannels := [c], pollReturnTime := t\<rparr>) w"

definition server_round ::
    "server_world server_callbacks \<Rightarrow> bool \<Rightarrow> nat \<Rightarrow> wait_answer \<times> TimeStamp \<Rightarrow> server_world
       \<Rightarrow> server_world result" where
  "server_round cbs ok l = loop_round (\<lambda>w. loops w l) (upd_loop l) (exec_functor cbs ok)
     (handle_channel cbs (\<lambda>_. True) l)"

lemma server_round_one:
  assumes "interest (loops w l) fd = Some (ev, c)" and "heap (loops w l) c = Some ch"
    and "1 < event_slots (loops w l)"
  shows "server_round cbs ok l (WaitOk [(EPOLLIN, fd)], t) w
    = bind_result (handle_channel cbs (\<lambda>_. True) l c t (after_poll l c ch t w))
        (doPendingFunctors (\<lambda>w. loops w l) (upd_loop l) (exec_functor cbs ok))"
  by (simp add: server_round_def loop_round_def poll_one[OF assms] after_poll_def upd_loop_def
      Let_def call_sequence_fun)

subsection \<open>A kernel that takes everything\<close>

definition takes_all :: "write_answer \<Rightarrow> char list \<Rightarrow> bool" where
  "takes_all ans msg = (case ans of WriteOk k \<Rightarrow> length msg \<le> k | WriteErr _ \<Rightarrow> False)"

lemma sendInLoop_all:
  assumes "conn_inv i w" and "active (conns w i)" and "contents (outputBuffer (conns w i)) = []"
    and "takes_all (write_answers w (writes_done w)) msg" and "writeCompleteCallback cbs = None"
  shows "sendInLoop cbs i msg w = Inr (upd_conn i (\<lambda>c. c\<lparr>wire := wire c @ msg\<rparr>)
    (w\<lparr>writes_done := Suc (writes_done w)\<rparr>))"
proof -
  from assms(1) obtain ch where ch: "get_chan i w = Inr ch" by (rule conn_invE) blast
  obtain k where k: "write_answers w (writes_done w) = WriteOk k" "length msg \<le> k"
    using assms(4) by (auto simp: takes_all_def split: write_answer.splits)
  have "\<not> isWriting ch" "readableBytes (outputBuffer (conns w i)) = 0"
    using idle_iff_empty(1)[OF assms(1,2) ch] assms(3) by simp_all
  then have "direct_write cbs i msg ch w = (length msg, 0, False,
      upd_conn i (\<lambda>c. c\<lparr>wire := wire c @ msg\<rparr>) (w\<lparr>writes_done := Suc (writes_done w)\<rparr>))"
    using k assms(5) by (simp add: direct_write_def socket_write_def sys_write_def Let_def)
  moreover have "conn_state (conns w i) \<noteq> kDisconnected" using assms(2) by (auto simp: active_def)
  ultimately show ?thesis using ch by (simp add: sendInLoop_def)
qed

subsection \<open>A server between two rounds\<close>

text \<open>
  \<open>opened l i fd w\<close>: connection \<open>i\<close> on descriptor \<open>fd\<close> is open in loop \<open>l\<close> and has nothing left
  to read or to send. \<open>serving l own opens w\<close>: the server listens in loop \<open>l\<close>, its only one, no
  functor is pending, \<open>opens\<close> are its connections, and the poller knows their descriptors and the
  server's \<open>own\<close> ones.
\<close>

definition opened :: "nat \<Rightarrow> nat \<Rightarrow> int \<Rightarrow> server_world \<Rightarrow> bool" where
  "opened l i fd w \<longleftrightarrow>
     (\<exists>ch. heap (loops w l) (conn_channel (conns w i)) = Some ch \<and> chan_fd ch = fd
        \<and> index ch = kAdded \<and> tied ch \<and> tie_obj ch = Some i \<and> \<not> isWriting ch)
     \<and> conn_channel (conns w i) \<notin> {wakeupChannel (loops w l), timerChannel (loops w l), acceptChannel w}
     \<and> wf_buffer (inputBuffer (conns w i)) \<and> contents (inputBuffer (conns w i)) = []
     \<and> wf_buffer (outputBuffer (conns w i)) \<and> contents (outputBuffer (conns w i)) = []
     \<and> conn_state (conns w i) = kConnected \<and> conn_loop (conns w i) = l \<and> sockfd (conns w i) = fd
     \<and> connections w (conn_name (conns w i)) = Some i \<and> i < next_address w"

definition loop_idle :: "'f eventloop \<Rightarrow> bool" where
  "loop_idle e \<longleftrightarrow> wf_poller e \<and> pendingFunctors e = [] \<and> \<not> callingPendingFunctors e
     \<and> \<not> quit_flag e \<and> 1 < event_slots e"

definition listening_on :: "nat \<Rightarrow> server_world \<Rightarrow> bool" where
  "listening_on l w \<longleftrightarrow> srv_loop w = l \<and> threadId (loops w l) = cur_thread w
     \<and> wf_pool (threadPool w) \<and> getAllLoops (threadPool w) = [l] \<and> names_inv w
     \<and> (\<exists>ch. heap (loops w l) (acceptChannel w) = Some ch \<and> chan_fd ch = acceptSocket w
          \<and> index ch = kAdded \<and> \<not> tied ch)
     \<and> acceptChannel w \<notin> {wakeupChannel (loops w l), timerChannel (loops w l)}
     \<and> {wakeupChannel (loops w l), timerChannel (loops w l)} \<union> dom (heap (loops w l))
         \<subseteq> {..<next_address w}"

definition serving :: "nat \<Rightarrow> int set \<Rightarrow> (int \<Rightarrow> nat option) \<Rightarrow> server_world \<Rightarrow> bool" where
  "serving l own opens w \<longleftrightarrow> loop_idle (loops w l) \<and> listening_on l w
     \<and> dom (registry (loops w l)) = own \<union> dom opens \<and> acceptSocket w \<in> own \<and> own \<inter> dom opens = {}
     \<and> (\<forall>fd i. opens fd = Some i \<longrightarrow> opened l i fd w)
     \<and> (\<forall>name i. connections w name = Some i \<longrightarrow>
          conn_name (conns w i) = name \<and> opens (sockfd (conns w i)) = Some i)"

lemma opened_cong:
  assumes "opened l i fd w" and "conns w' i = conns w i"
    and "heap (loops w' l) (conn_channel (conns w i)) = heap (loops w l) (conn_channel (conns w i))"
    and "wakeupChannel (loops w' l) = wakeupChannel (loops w l)"
    and "timerChannel (loops w' l) = timerChannel (loops w l)" and "acceptChannel w' = acceptChannel w"
    and "connections w' (conn_name (conns w i)) = connections w (conn_name (conns w i))"
    and "next_address w \<le> next_address w'"
  shows "opened l i fd w'"
  using assms unfolding opened_def by auto

lemma opened_inv:
  assumes "opened l i fd w" and "wf_poller (loops w l)"
  shows "conn_inv i w" and "active (conns w i)"
  using assms by (auto simp: opened_def conn_inv_def cloop_def channel_inv_def fd_free_def index_defs
      active_def)

text \<open>Two connections have different channels.\<close>

lemma opened_channels:
  assumes "opened l i fd w" and "opened l j fd' w" and "fd \<noteq> fd'"
  shows "conn_channel (conns w i) \<noteq> conn_channel (conns w j)" and "i \<noteq> j"
    and "conn_name (conns w i) \<noteq> conn_name (conns w j)"
proof -
  have "heap (loops w l) (conn_channel (conns w i)) \<noteq> heap (loops w l) (conn_channel (conns w j))"
    using assms unfolding opened_def by (metis option.inject)
  then show "conn_channel (conns w i) \<noteq> conn_channel (conns w j)" by metis
  have n: "sockfd (conns w i) \<noteq> sockfd (conns w j)" using assms by (simp add: opened_def)
  then show "i \<noteq> j" by metis
  then show "conn_name (conns w i) \<noteq> conn_name (conns w j)"
    using assms(1,2) unfolding opened_def by (metis option.inject)
qed

lemma serving_opened: "serving l own opens w \<Longrightarrow> opens fd = Some i \<Longrightarrow> opened l i fd w"
  by (simp add: serving_def)

text \<open>What the poller returns for a channel that is registered.\<close>

lemma registered_interest:
  assumes "wf_poller e" and "heap e c = Some ch" and "index ch = kAdded"
  shows "interest e (chan_fd ch) = Some (events ch, c)"
  using wf_pollerD(4)[OF assms(1,2)] assms(3) by simp

lemma set_revents_simps [simp]:
  "chan_fd (set_revents e ch) = chan_fd ch" "index (set_revents e ch) = index ch"
  "tied (set_revents e ch) = tied ch" "tie_obj (set_revents e ch) = tie_obj ch"
  "events (set_revents e ch) = events ch" "revents (set_revents e ch) = e"
  "isWriting (set_revents e ch) = isWriting ch"
  by (simp_all add: set_revents_def isWriting_def)

lemma after_poll_simps [simp]:
  "conns (after_poll l c ch t w) = conns w" "cur_thread (after_poll l c ch t w) = cur_thread w"
  "world.more (after_poll l c ch t w) = world.more w"
  "heap (loops (after_poll l c ch t w) l) = (heap (loops w l))(c \<mapsto> set_revents EPOLLIN ch)"
  "registry (loops (after_poll l c ch t w) l) = registry (loops w l)"
  "interest (loops (after_poll l c ch t w) l) = interest (loops w l)"
  by (simp_all add: after_poll_def put_channel_def)

lemma server_upd_loop [simp]:
  "srv_loop (upd_loop l g w) = srv_loop w" "threadPool (upd_loop l g w) = threadPool w"
  "acceptChannel (upd_loop l g w) = acceptChannel w" "acceptSocket (upd_loop l g w) = acceptSocket w"
  "connections (upd_loop l g w) = connections w" "next_address (upd_loop l g w) = next_address w"
  "nextConnId (upd_loop l g w) = nextConnId w" "srv_name (upd_loop l g w) = srv_name w"
  "ipPort (upd_loop l g w) = ipPort w" "accept_answers (upd_loop l g w) = accept_answers w"
  "accepts_done (upd_loop l g w) = accepts_done w" "read_answers (upd_loop l g w) = read_answers w"
  "reads_done (upd_loop l g w) = reads_done w" "write_answers (upd_loop l g w) = write_answers w"
  "writes_done (upd_loop l g w) = writes_done w" "closed_fds (upd_loop l g w) = closed_fds w"
  by (simp_all add: upd_loop_def)

lemma server_upd_conn [simp]:
  "srv_loop (upd_conn i h w) = srv_loop w" "threadPool (upd_conn i h w) = threadPool w"
  "acceptChannel (upd_conn i h w) = acceptChannel w" "acceptSocket (upd_conn i h w) = acceptSocket w"
  "connections (upd_conn i h w) = connections w" "next_address (upd_conn i h w) = next_address w"
  "nextConnId (upd_conn i h w) = nextConnId w" "srv_name (upd_conn i h w) = srv_name w"
  "ipPort (upd_conn i h w) = ipPort w" "accept_answers (upd_conn i h w) = accept_answers w"
  "accepts_done (upd_conn i h w) = accepts_done w"
  by (simp_all add: upd_conn_def)

lemma names_inv_upd [simp]:
  "names_inv (upd_loop l g w) = names_inv w" "names_inv (upd_conn i h w) = names_inv w"
  by (simp_all add: names_inv_def)

lemma after_poll_loop [simp]:
  "pendingFunctors (loops (after_poll l c ch t w) l) = pendingFunctors (loops w l)"
  "callingPendingFunctors (loops (after_poll l c ch t w) l) = callingPendingFunctors (loops w l)"
  "quit_flag (loops (after_poll l c ch t w) l) = quit_flag (loops w l)"
  "threadId (loops (after_poll l c ch t w) l) = threadId (loops w l)"
  "wakeupChannel (loops (after_poll l c ch t w) l) = wakeupChannel (loops w l)"
  "timerChannel (loops (after_poll l c ch t w) l) = timerChannel (loops w l)"
  "event_slots (loops (after_poll l c ch t w) l) = event_slots (loops w l)"
  by (simp_all add: after_poll_def put_channel_def)

lemma opened_after_poll:
  assumes "opened l i fd w" and "heap (loops w l) c = Some ch"
  shows "opened l i fd (after_poll l c ch t w)"
proof -
  have f: "acceptChannel (after_poll l c ch t w) = acceptChannel w"
    "connections (after_poll l c ch t w) = connections w"
    "next_address (after_poll l c ch t w) = next_address w" by (simp_all add: after_poll_def)
  show ?thesis using assms unfolding opened_def after_poll_simps after_poll_loop f by auto
qed

lemma serving_after_poll:
  assumes sv: "serving l own opens w" and c: "heap (loops w l) c = Some ch"
  shows "serving l own opens (after_poll l c ch t w)"
proof -
  let ?w = "after_poll l c ch t w"
  have f: "acceptChannel ?w = acceptChannel w" "connections ?w = connections w" "srv_loop ?w = srv_loop w"
    "next_address ?w = next_address w" "threadPool ?w = threadPool w" "acceptSocket ?w = acceptSocket w"
    "names_inv ?w = names_inv w"
    by (simp_all add: after_poll_def)
  have "wf_poller (put_channel c (set_revents EPOLLIN ch) (loops w l))"
    by (rule wf_put_channel_same) (use sv c in \<open>simp_all add: serving_def loop_idle_def\<close>)
  then have "wf_poller (loops ?w l)"
    by (rule wf_poller_cong[THEN iffD1, rotated -1]) (simp_all add: after_poll_def)
  then have "loop_idle (loops ?w l)" using sv by (simp add: serving_def loop_idle_def)
  moreover have "listening_on l ?w"
    using sv c unfolding serving_def listening_on_def f after_poll_simps after_poll_loop by auto
  moreover have "opened l i fd ?w" if "opens fd = Some i" for fd i
    using opened_after_poll[OF serving_opened[OF sv that] c] .
  ultimately show ?thesis using sv unfolding serving_def f after_poll_simps by blast
qed

lemma server_fields:
  assumes "world.more w' = world.more (w :: server_world)"
  shows "srv_loop w' = srv_loop w" "threadPool w' = threadPool w" "acceptChannel w' = acceptChannel w"
    "acceptSocket w' = acceptSocket w" "connections w' = connections w" "next_address w' = next_address w"
    "nextConnId w' = nextConnId w" "srv_name w' = srv_name w" "ipPort w' = ipPort w"
    "accept_answers w' = accept_answers w" "accepts_done w' = accepts_done w" "names_inv w' = names_inv w"
    "closed_fds w' = closed_fds w"
  using assms by (cases w; cases w'; simp add: names_inv_def)+

lemma serving_input:
  assumes sv: "serving l own opens w" and "loops w' = loops w" "cur_thread w' = cur_thread w"
    "world.more w' = world.more w"
    and conns: "conns w' = (conns w)(i := (conns w i)\<lparr>inputBuffer := b, wire := s\<rparr>)"
    and b: "wf_buffer b" "contents b = []"
  shows "serving l own opens w'"
proof -
  note f = assms(2,3) server_fields[OF assms(4)]
  have "opened l j fd w'" if "opens fd = Some j" for fd j
    using serving_opened[OF sv that] b unfolding opened_def f conns by auto
  moreover have "listening_on l w'" using sv unfolding serving_def listening_on_def f by blast
  moreover have "\<forall>name j. connections w' name = Some j \<longrightarrow>
      conn_name (conns w' j) = name \<and> opens (sockfd (conns w' j)) = Some j"
    using sv unfolding serving_def f conns by auto
  ultimately show ?thesis using sv unfolding serving_def f by blast
qed

text \<open>The answers that the kernel has not given yet are the same.\<close>

definition same_kernel :: "server_world \<Rightarrow> server_world \<Rightarrow> bool" where
  "same_kernel w w' \<longleftrightarrow> accept_answers w' = accept_answers w \<and> read_answers w' = read_answers w
     \<and> write_answers w' = write_answers w \<and> acceptSocket w' = acceptSocket w"

text \<open>
  The contract of a server that answers: a message is taken out of the input buffer and what is
  made of it is sent; the connection callback only logs.
\<close>

locale answering =
  fixes cbs :: "server_world server_callbacks" and answer :: "char list \<Rightarrow> char list"
  assumes connection_logs: "srv_connection cbs = Some (\<lambda>i w. Inr w)"
    and answers: "conn_inv i w \<Longrightarrow> conn_state (conns w i) = kConnected \<Longrightarrow>
      isInLoopThread (cur_thread w) (cloop i w) \<Longrightarrow> contents (outputBuffer (conns w i)) = [] \<Longrightarrow>
      takes_all (write_answers w (writes_done w)) (answer (contents (inputBuffer (conns w i)))) \<Longrightarrow>
      \<exists>b. wf_buffer b \<and> contents b = [] \<and> call_function (srv_message cbs) (\<lambda>f. f i t w)
        = Inr (upd_conn i (\<lambda>c. c\<lparr>inputBuffer := b,
                 wire := wire c @ answer (contents (inputBuffer (conns w i)))\<rparr>)
               (w\<lparr>writes_done := Suc (writes_done w)\<rparr>))"
begin

lemma round_answers:
  assumes sv: "serving l own opens w" and i: "opens fd = Some i"
    and read: "read_answers w (reads_done w) = ReadOk d" "d \<noteq> []" "length d \<le> extrabuf_size"
    and takes: "takes_all (write_answers w (writes_done w)) (answer d)"
  shows "\<exists>w'. server_round cbs ok l (WaitOk [(EPOLLIN, fd)], t) w = Inr w' \<and> serving l own opens w'
    \<and> (\<forall>j. wire (conns w' j) = (if j = i then wire (conns w i) @ answer d else wire (conns w j)))
    \<and> same_kernel w w' \<and> accepts_done w' = accepts_done w \<and> reads_done w' = Suc (reads_done w)
    \<and> writes_done w' = Suc (writes_done w) \<and> next_address w' = next_address w
    \<and> nextConnId w' = nextConnId w"
proof -
  note op = serving_opened[OF sv i]
  let ?c = "conn_channel (conns w i)"
  obtain ch where ch: "heap (loops w l) ?c = Some ch" "chan_fd ch = fd" "index ch = kAdded"
      "tied ch" "tie_obj ch = Some i" using op by (auto simp: opened_def)
  have wf: "wf_poller (loops w l)" "1 < event_slots (loops w l)"
    using sv by (simp_all add: serving_def loop_idle_def)
  let ?w1 = "after_poll l ?c ch t w"
  have sv1: "serving l own opens ?w1" by (rule serving_after_poll[OF sv ch(1)])
  note op1 = serving_opened[OF sv1 i]
  have wf1: "wf_poller (loops ?w1 l)" using sv1 by (simp add: serving_def loop_idle_def)
  have k: "read_answers ?w1 = read_answers w" "reads_done ?w1 = reads_done w"
    "write_answers ?w1 = write_answers w" "writes_done ?w1 = writes_done w"
    by (simp_all add: after_poll_def)
  have "server_round cbs ok l (WaitOk [(EPOLLIN, fd)], t) w
      = bind_result (handle_channel cbs (\<lambda>_. True) l ?c t ?w1)
          (doPendingFunctors (\<lambda>w. loops w l) (upd_loop l) (exec_functor cbs ok))"
    using server_round_one[OF registered_interest[OF wf(1) ch(1,3)] ch(1) wf(2)] ch(2) by simp
  moreover have "handle_channel cbs (\<lambda>_. True) l ?c t ?w1 = handleRead (conn_cbs cbs) i t ?w1"
    by (rule handle_connection[where ch = "set_revents EPOLLIN ch"])
      (use ch op1 in \<open>auto simp: opened_def\<close>)
  moreover obtain b where b: "readFd (ReadOk d) (inputBuffer (conns w i)) = Inr (int (length d), None, b)"
      "wf_buffer b" "contents b = d"
    using readFd_ok[of "inputBuffer (conns w i)" d] op read(3)
    by (auto simp: opened_def read_room_def split: if_splits)
  let ?w2 = "upd_conn i (\<lambda>c. c\<lparr>inputBuffer := b\<rparr>) (?w1\<lparr>reads_done := Suc (reads_done w)\<rparr>)"
  have "handleRead (conn_cbs cbs) i t ?w1 = call_function (srv_message cbs) (\<lambda>f. f i t ?w2)"
    using b(1) read(1,2) k by (simp add: handleRead_def conn_cbs_def)
  moreover have inv2: "conn_inv i ?w2"
    using opened_inv(1)[OF op1 wf1] b(2) by (simp add: conn_inv_def cloop_def channel_inv_def)
  have in_b: "contents (inputBuffer (conns ?w2 i)) = d" using b(3) by simp
  obtain b' where b': "wf_buffer b'" "contents b' = []"
      "call_function (srv_message cbs) (\<lambda>f. f i t ?w2)
        = Inr (upd_conn i (\<lambda>c. c\<lparr>inputBuffer := b', wire := wire c @ answer d\<rparr>)
               (?w2\<lparr>writes_done := Suc (writes_done ?w2)\<rparr>))"
    using answers[OF inv2, of t] op sv takes k b(3) unfolding in_b
    by (auto simp: opened_def cloop_def isInLoopThread_def serving_def listening_on_def)
  let ?w3 = "upd_conn i (\<lambda>c. c\<lparr>inputBuffer := b', wire := wire c @ answer d\<rparr>)
               (?w2\<lparr>writes_done := Suc (writes_done ?w2)\<rparr>)"
  have sv3: "serving l own opens ?w3"
    by (rule serving_input[OF sv1 _ _ _ _ b'(1,2), where i = i and s = "wire (conns w i) @ answer d"])
      simp_all
  moreover have "doPendingFunctors (\<lambda>w. loops w l) (upd_loop l) (exec_functor cbs ok) ?w3 = Inr ?w3"
    by (rule doPendingFunctors_none) (use sv3 in \<open>simp_all add: serving_def loop_idle_def\<close>)
  ultimately have "server_round cbs ok l (WaitOk [(EPOLLIN, fd)], t) w = Inr ?w3" using b'(3) by simp
  with sv3 show ?thesis by (intro exI[of _ ?w3]) (simp add: k same_kernel_def after_poll_def)
qed

end

subsection \<open>A client connects\<close>

lemma newConnection_eq:
  assumes "wf_pool (threadPool w)" and "getAllLoops (threadPool w) = [l]"
    and here: "threadId (loops w l) = cur_thread w" and "nextConnId w + 1 < 2 ^ 31"
  defines "i \<equiv> next_address w"
  shows "\<exists>w3 p local. newConnection cbs fd peer w = connectEstablished (conn_cbs cbs) i w3
    \<and> w3 = w\<lparr>loops := (loops w)(l := put_channel (i + 1) (Channel fd) (loops w l)),
         conns := (conns w)(i := (new_conn l (srv_name w @ conn_name_buf (ipPort w) (nextConnId w)) fd
           (i + 1) local peer)\<lparr>keep_alive := True\<rparr>),
         threadPool := p, nextConnId := nextConnId w + 1,
         connections := (connections w)(srv_name w @ conn_name_buf (ipPort w) (nextConnId w) \<mapsto> i),
         next_address := i + 2\<rparr>
    \<and> wf_pool p \<and> getAllLoops p = [l]"
proof -
  let ?p = "(threadPool w)\<lparr>next_loop := Suc (next_loop (threadPool w)) mod length (getAllLoops (threadPool w))\<rparr>"
  let ?local = "case socket_names w fd of None \<Rightarrow> no_address | Some a \<Rightarrow> a"
  let ?w3 = "\<lambda>p local. w\<lparr>loops := (loops w)(l := put_channel (i + 1) (Channel fd) (loops w l)),
         conns := (conns w)(i := (new_conn l (srv_name w @ conn_name_buf (ipPort w) (nextConnId w)) fd
           (i + 1) local peer)\<lparr>keep_alive := True\<rparr>),
         threadPool := p, nextConnId := nextConnId w + 1,
         connections := (connections w)(srv_name w @ conn_name_buf (ipPort w) (nextConnId w) \<mapsto> i),
         next_address := i + 2\<rparr>"
  have "next_loop (threadPool w) = 0"
    using assms(1,2) by (auto simp: wf_pool_def getAllLoops_def split: if_splits)
  then have "getNextLoop (threadPool w) = Inr (l, ?p)"
    using getNextLoop_ok[OF assms(1)] assms(2) by simp
  moreover have "wf_pool ?p" by (rule getNextLoop_wf[OF assms(1)])
  moreover have "getAllLoops ?p = [l]" using assms(2) by (simp add: getAllLoops_def split: if_splits)
  moreover have "threadId (put_channel c ch (loops w l)) = cur_thread w" for c ch
    using here by (simp add: put_channel_def)
  ultimately have "newConnection cbs fd peer w = connectEstablished (conn_cbs cbs) i (?w3 ?p ?local)"
    using assms(4) by (cases w) (simp add: newConnection_def TcpConnection_def Let_def upd_conn_def upd_loop_def
        setKeepAlive_def run_on_def runInLoop_def isInLoopThread_def i_def)
  with \<open>wf_pool ?p\<close> \<open>getAllLoops ?p = [l]\<close> show ?thesis by blast
qed

lemma connectEstablished_eq:
  assumes inv: "conn_inv i w" and st: "conn_state (conns w i) = kConnecting"
    and ch: "get_chan i w = Inr ch" and c: "c = conn_channel (conns w i)"
  shows "connectEstablished cbs i w = call_function (connectionCallback cbs) (\<lambda>f. f i
    (upd_cloop i (\<lambda>e. after_change c (want_read (tie i ch)) (put_channel c (tie i ch) e))
      (setState i kConnected w)))"
proof -
  let ?w1 = "setState i kConnected w"
  let ?w2 = "upd_cloop i (put_channel c (tie i ch)) ?w1"
  have hp: "heap (cloop i w) c = Some ch" using ch by (auto simp: get_chan_def c split: option.splits)
  have wf: "wf_poller (cloop i w)" and free: "fd_free c ch (cloop i w)"
    using inv hp by (auto simp: conn_inv_def c)
  have wf2: "wf_poller (put_channel c (tie i ch) (cloop i w))"
    by (rule wf_put_channel_same[OF wf hp]) simp_all
  have hp2: "heap (cloop i ?w2) c = Some (tie i ch)" by (simp add: put_channel_def)
  have free2: "fd_free c (tie i ch) (cloop i ?w2)"
    using free by (simp add: fd_free_def put_channel_def)
  have "change_events want_read c (cloop i ?w2) = Inr (after_change c (want_read (tie i ch)) (cloop i ?w2))"
    by (rule change_events_ok[OF _ hp2 free2]) (use wf2 in simp_all)
  then have "on_channel enableReading i ?w2
      = Inr (upd_cloop i (\<lambda>_. after_change c (want_read (tie i ch)) (cloop i ?w2)) ?w2)"
    by (simp add: on_channel_def enableReading_def c)
  moreover have "upd_cloop i (\<lambda>_. after_change c (want_read (tie i ch)) (cloop i ?w2)) ?w2
      = upd_cloop i (\<lambda>e. after_change c (want_read (tie i ch)) (put_channel c (tie i ch) e)) ?w1"
    by (simp add: upd_cloop_def upd_loop_def cloop_def)
  moreover have "get_chan i ?w1 = Inr ch"
    unfolding setState_def using ch by simp
  ultimately show ?thesis by (simp add: connectEstablished_def Let_def c setState_def)
qed

lemma serving_accepts [simp]: "serving l own opens (w\<lparr>accepts_done := n\<rparr>) = serving l own opens w"
  by (simp add: serving_def listening_on_def opened_def names_inv_def)

text \<open>The loop after a new connection has been established on its channel at \<open>c\<close>.\<close>

lemma loop_after_connect:
  fixes i :: nat
  assumes idle: "loop_idle e" and c: "heap e c = None" and fd: "registry e fd = None"
  defines "e' \<equiv> after_change c (want_read (tie i (Channel fd)))
    (put_channel c (tie i (Channel fd)) (put_channel c (Channel fd) e))"
  shows "loop_idle e'" and "registry e' = (registry e)(fd \<mapsto> c)"
    and "heap e' = (heap e)(c \<mapsto> want_read (tie i (Channel fd))\<lparr>index := kAdded\<rparr>)"
    and "poll_state.more e' = poll_state.more e"
proof -
  let ?e1 = "put_channel c (Channel fd) e" and ?e2 = "put_channel c (tie i (Channel fd)) (put_channel c (Channel fd) e)"
  have wf: "wf_poller e" using idle by (simp add: loop_idle_def)
  have wf1: "wf_poller ?e1" by (rule wf_put_channel_new[OF wf c])
  have wf2: "wf_poller ?e2" by (rule wf_put_channel_same[OF wf1]) (simp_all add: put_channel_def)
  have hp: "heap ?e2 c = Some (tie i (Channel fd))" and free: "fd_free c (tie i (Channel fd)) ?e2"
    using fd by (simp_all add: put_channel_def fd_free_def Channel_def tie_def)
  have wf': "wf_poller e'" unfolding e'_def by (rule wf_after_change[OF wf2 hp free]) simp_all
  have new: "index (Channel fd) \<noteq> kAdded" by (simp add: Channel_def index_defs)
  show more: "poll_state.more e' = poll_state.more e"
    unfolding e'_def by (simp add: after_change_def put_channel_def)
  have "event_slots e' = event_slots e" unfolding e'_def by (simp add: after_change_def put_channel_def)
  with idle wf' loop_more_fields[OF more] show "loop_idle e'" by (simp add: loop_idle_def)
  show "registry e' = (registry e)(fd \<mapsto> c)"
    using registry_after_change[OF wf2 hp, of "want_read (tie i (Channel fd))"]
    by (simp add: e'_def put_channel_def Channel_def)
  show "heap e' = (heap e)(c \<mapsto> want_read (tie i (Channel fd))\<lparr>index := kAdded\<rparr>)"
    using new by (simp add: e'_def heap_after_change put_channel_def)
qed

lemma not_writing_fresh: "\<not> isWriting (want_read (tie i (Channel fd))\<lparr>index := k\<rparr>)"
  by (simp add: isWriting_def want_read_def tie_def Channel_def channel_events)

definition open_conn :: "nat \<Rightarrow> char list \<Rightarrow> int \<Rightarrow> nat \<Rightarrow> sockaddr_in \<Rightarrow> sockaddr_in \<Rightarrow> tcpconn" where
  "open_conn l name fd ch local peer =
     (new_conn l name fd ch local peer)\<lparr>keep_alive := True, conn_state := kConnected\<rparr>"

lemma newConnection_opens:
  assumes lst: "listening_on l w" and idle: "loop_idle (loops w l)"
    and reg: "registry (loops w l) fd = None" and cb: "srv_connection cbs = Some (\<lambda>i w. Inr w)"
    and nr: "nextConnId w + 1 < 2 ^ 31"
  defines "i \<equiv> next_address w" and "name \<equiv> srv_name w @ conn_name_buf (ipPort w) (nextConnId w)"
  shows "\<exists>e p local. newConnection cbs fd peer w = Inr (w\<lparr>loops := (loops w)(l := e),
        conns := (conns w)(i := open_conn l name fd (i + 1) local peer),
        threadPool := p, nextConnId := nextConnId w + 1,
        connections := (connections w)(name \<mapsto> i), next_address := i + 2\<rparr>)
    \<and> loop_idle e \<and> registry e = (registry (loops w l))(fd \<mapsto> i + 1)
    \<and> heap e = (heap (loops w l))(i + 1 \<mapsto> want_read (tie i (Channel fd))\<lparr>index := kAdded\<rparr>)
    \<and> poll_state.more e = poll_state.more (loops w l) \<and> wf_pool p \<and> getAllLoops p = [l]"
proof -
  have here: "threadId (loops w l) = cur_thread w" "wf_pool (threadPool w)" "getAllLoops (threadPool w) = [l]"
    using lst by (simp_all add: listening_on_def)
  have c: "heap (loops w l) (i + 1) = None"
    using lst by (force simp: listening_on_def i_def domIff subset_iff)
  obtain w3 p local where w3: "newConnection cbs fd peer w = connectEstablished (conn_cbs cbs) i w3"
    "w3 = w\<lparr>loops := (loops w)(l := put_channel (i + 1) (Channel fd) (loops w l)),
         conns := (conns w)(i := (new_conn l name fd (i + 1) local peer)\<lparr>keep_alive := True\<rparr>),
         threadPool := p, nextConnId := nextConnId w + 1, connections := (connections w)(name \<mapsto> i),
         next_address := i + 2\<rparr>" "wf_pool p" "getAllLoops p = [l]"
    using newConnection_eq[OF here(2,3,1) nr, of cbs fd peer] unfolding i_def name_def by blast
  have "wf_poller (loops w l)" using idle by (simp add: loop_idle_def)
  from wf_put_channel_new[OF this c, of fd] reg have inv3: "conn_inv i w3"
    by (simp add: w3(2) conn_inv_def cloop_def new_conn_def channel_inv_def put_channel_def fd_free_def
        Channel_def isNoneEvent_def kNoneEvent_def)
  have "get_chan i w3 = Inr (Channel fd)"
    by (simp add: w3(2) get_chan_def cloop_def new_conn_def put_channel_def)
  from connectEstablished_eq[OF inv3 _ this, of "i + 1" "conn_cbs cbs"]
  have "connectEstablished (conn_cbs cbs) i w3 = Inr (upd_cloop i (\<lambda>e. after_change (i + 1)
      (want_read (tie i (Channel fd))) (put_channel (i + 1) (tie i (Channel fd)) e)) (setState i kConnected w3))"
    by (simp add: w3(2) new_conn_def conn_cbs_def cb call_function_def)
  then show ?thesis
    using loop_after_connect[OF idle c reg, of i] w3(1,3,4)
    by (cases w) (simp add: w3(2) upd_cloop_def upd_loop_def setState_def upd_conn_def new_conn_def
        open_conn_def, blast)
qed

lemma serving_connect:
  assumes sv: "serving l own opens w" and fd: "fd \<notin> own" "fd \<notin> dom opens"
    and n: "nextConnId w + 1 < 2 ^ 31" and cb: "srv_connection cbs = Some (\<lambda>i w. Inr w)"
  defines "i \<equiv> next_address w"
  shows "\<exists>w'. newConnection cbs fd peer w = Inr w' \<and> serving l own (opens(fd \<mapsto> i)) w'
    \<and> (\<forall>j. wire (conns w' j) = (if j = i then [] else wire (conns w j))) \<and> same_kernel w w'
    \<and> accepts_done w' = accepts_done w \<and> reads_done w' = reads_done w
    \<and> writes_done w' = writes_done w \<and> next_address w' = i + 2 \<and> nextConnId w' = nextConnId w + 1"
proof -
  let ?name = "srv_name w @ conn_name_buf (ipPort w) (nextConnId w)"
  have lst: "listening_on l w" and idle: "loop_idle (loops w l)" using sv by (simp_all add: serving_def)
  have reg: "registry (loops w l) fd = None" using sv fd by (auto simp: serving_def domIff set_eq_iff)
  obtain e p local where e: "newConnection cbs fd peer w = Inr (w\<lparr>loops := (loops w)(l := e),
        conns := (conns w)(i := open_conn l ?name fd (i + 1) local peer),
        threadPool := p, nextConnId := nextConnId w + 1,
        connections := (connections w)(?name \<mapsto> i), next_address := i + 2\<rparr>)"
    "loop_idle e" "registry e = (registry (loops w l))(fd \<mapsto> i + 1)"
    "heap e = (heap (loops w l))(i + 1 \<mapsto> want_read (tie i (Channel fd))\<lparr>index := kAdded\<rparr>)"
    "poll_state.more e = poll_state.more (loops w l)" "wf_pool p" "getAllLoops p = [l]"
    using newConnection_opens[OF lst idle reg cb n, of peer] unfolding i_def by blast
  let ?w = "w\<lparr>loops := (loops w)(l := e), conns := (conns w)(i := open_conn l ?name fd (i + 1) local peer),
        threadPool := p, nextConnId := nextConnId w + 1, connections := (connections w)(?name \<mapsto> i),
        next_address := i + 2\<rparr>"
  note lf = loop_more_fields[OF e(5)]
  have old: "dom (heap (loops w l)) \<subseteq> {..<i}" "wakeupChannel (loops w l) < i"
    "timerChannel (loops w l) < i" "acceptChannel w < i" "names_inv w"
    using lst by (auto simp: listening_on_def i_def)
  have fresh: "connections w ?name = None" by (rule names_inv_fresh[OF old(5) n])
  have new: "opened l i fd ?w"
    using old not_writing_fresh
    by (simp add: opened_def e(4) lf open_conn_def new_conn_def want_read_def tie_def Channel_def)
  have rest: "opened l j fd' ?w" if "opens fd' = Some j" for fd' j
  proof -
    note op = serving_opened[OF sv that]
    then have "j < i" "connections w (conn_name (conns w j)) = Some j" "conn_channel (conns w j) < i"
      using old(1) unfolding opened_def i_def by (auto simp: domIff subset_iff)
    then show ?thesis using fresh
      by (intro opened_cong[OF op]) (auto simp: e(4) lf i_def)
  qed
  have "names_inv ?w" by (rule names_inv_add[OF old(5), where i = i]) simp_all
  then have "listening_on l ?w"
    using lst e(6,7) old by (auto simp: listening_on_def e(4) lf subset_iff)
  moreover have "conn_name (conns ?w j) = name \<and> (opens(fd \<mapsto> i)) (sockfd (conns ?w j)) = Some j"
    if name: "connections ?w name = Some j" for name j
  proof (cases "name = ?name")
    case True
    then show ?thesis using name by (auto simp: open_conn_def new_conn_def)
  next
    case False
    with name have "connections w name = Some j" by simp
    then have j: "conn_name (conns w j) = name" "opens (sockfd (conns w j)) = Some j"
      using sv by (simp_all add: serving_def)
    moreover have "j < i" using serving_opened[OF sv j(2)] by (simp add: opened_def i_def)
    moreover have "sockfd (conns w j) \<noteq> fd" using j(2) fd(2) by auto
    ultimately show ?thesis by simp
  qed
  moreover have "\<forall>fd' j. (opens(fd \<mapsto> i)) fd' = Some j \<longrightarrow> opened l j fd' ?w" using new rest by simp
  moreover have "loops ?w l = e" "acceptSocket ?w = acceptSocket w" by simp_all
  moreover have "dom (registry e) = own \<union> dom (opens(fd \<mapsto> i))" "own \<inter> dom (opens(fd \<mapsto> i)) = {}"
    "acceptSocket w \<in> own" using sv fd(1) by (auto simp: serving_def e(3))
  ultimately have "serving l own (opens(fd \<mapsto> i)) ?w" unfolding serving_def using e(2) by simp
  then show ?thesis
    by (intro exI[of _ ?w]) (simp add: e(1) same_kernel_def open_conn_def new_conn_def)
qed

subsection \<open>A client hangs up\<close>

lemma handleClose_eq:
  assumes op: "opened l i fd w" and lst: "listening_on l w" and wf: "wf_poller (loops w l)"
    and ch: "heap (loops w l) (conn_channel (conns w i)) = Some ch"
    and cb: "srv_connection cbs = Some (\<lambda>i w. Inr w)"
  shows "handleClose (conn_cbs cbs) i w = Inr (w\<lparr>
      loops := (loops w)(l := queueInLoop (cur_thread w) (ConnectDestroyed i)
        (after_change (conn_channel (conns w i)) (unwant_all ch) (loops w l))),
      conns := (conns w)(i := (conns w i)\<lparr>conn_state := kDisconnected\<rparr>),
      connections := (connections w)(conn_name (conns w i) := None)\<rparr>)"
proof -
  have here: "conn_loop (conns w i) = l" "srv_loop w = l" "threadId (loops w l) = cur_thread w"
    "index ch = kAdded"
    using op lst ch by (auto simp: opened_def listening_on_def)
  then have "fd_free (conn_channel (conns w i)) ch (loops w l)" by (simp add: fd_free_def index_defs)
  from change_events_ok[OF wf ch this, of unwant_all]
  have off: "disableAll (conn_channel (conns w i)) (loops w l)
      = Inr (after_change (conn_channel (conns w i)) (unwant_all ch) (loops w l))"
    by (simp add: disableAll_def)
  have "threadId (after_change c ch (loops w l)) = cur_thread w" for c ch
    using here(3) by (simp add: after_change_def)
  then show ?thesis
    using off here by (cases w) (simp add: handleClose_def on_channel_def cloop_def setState_def
        upd_conn_def upd_cloop_def upd_loop_def conn_cbs_def cb call_function_def removeConnection_def
        run_on_def runInLoop_def isInLoopThread_def removeConnectionInLoop_def Let_def queue_conn_def)
qed

lemma after_change_rest [simp]:
  "event_slots (after_change c ch e) = event_slots e"
  "poll_state.more (after_change c ch e) = poll_state.more e"
  by (simp_all add: after_change_def)

text \<open>A channel that has lost all its events leaves the poller; \<open>e2\<close> differs in the flags only.\<close>

lemma closed_channel_leaves:
  fixes e :: "'f eventloop"
  assumes wf: "wf_poller e" and ch: "heap e c = Some ch" "index ch = kAdded"
    and e2: "heap e2 = heap (after_change c (unwant_all ch) e)"
      "registry e2 = registry (after_change c (unwant_all ch) e)"
      "interest e2 = interest (after_change c (unwant_all ch) e)" "event_slots e2 = event_slots e"
  shows "\<exists>e' ch'. channel_remove c (e2 :: 'f eventloop) = Inr e' \<and> wf_poller e'
    \<and> heap e' = (heap e)(c \<mapsto> ch') \<and> index ch' = kNew \<and> registry e' = (registry e)(chan_fd ch := None)
    \<and> interest e' = (interest e)(chan_fd ch := None) \<and> event_slots e' = event_slots e
    \<and> poll_state.more e' = poll_state.more e2"
proof -
  have free: "fd_free c ch e" using ch(2) by (simp add: fd_free_def index_defs)
  have "wf_poller (after_change c (unwant_all ch) e)" by (rule wf_after_change[OF wf ch(1) free]) simp_all
  then have wf2: "wf_poller e2" by (rule wf_poller_cong[THEN iffD1, rotated -1]) (simp_all add: e2)
  have "heap e2 c = Some (unwant_all ch\<lparr>index := kDeleted\<rparr>)"
    using ch(2) by (simp add: e2 heap_after_change)
  from channel_remove_ok[OF wf2 this] obtain e' where "channel_remove c e2 = Inr e'" "wf_poller e'"
    "interest e' = (interest e2)(chan_fd ch := None)" "registry e' = (registry e2)(chan_fd ch := None)"
    "heap e' = (heap e2)(c \<mapsto> unwant_all ch\<lparr>index := kNew\<rparr>)" "event_slots e' = event_slots e2"
    "poll_state.more e' = poll_state.more e2"
    by (auto simp: isNoneEvent_def unwant_all_def index_defs)
  then show ?thesis
    using registry_after_change[OF wf ch(1), of "unwant_all ch"]
    by (auto simp: e2 heap_after_change interest_after_change)
qed

text \<open>The functor that \<open>handleClose\<close> queues, run by the loop, takes the channel out of the poller.\<close>

lemma loop_after_close:
  assumes idle: "loop_idle e" and ch: "heap e c = Some ch" "index ch = kAdded"
  shows "\<exists>e' ch'. channel_remove c ((after_change c (unwant_all ch) e)
        \<lparr>callingPendingFunctors := True, pendingFunctors := []\<rparr>) = Inr e'
    \<and> loop_idle (e'\<lparr>callingPendingFunctors := False\<rparr>) \<and> heap e' = (heap e)(c \<mapsto> ch') \<and> index ch' = kNew
    \<and> registry e' = (registry e)(chan_fd ch := None)
    \<and> threadId e' = threadId e \<and> wakeupChannel e' = wakeupChannel e \<and> timerChannel e' = timerChannel e"
proof -
  let ?e2 = "(after_change c (unwant_all ch) e)\<lparr>callingPendingFunctors := True, pendingFunctors := []\<rparr>"
  have wf: "wf_poller e" using idle by (simp add: loop_idle_def)
  obtain e' ch' where e': "channel_remove c ?e2 = Inr e'" "wf_poller e'" "heap e' = (heap e)(c \<mapsto> ch')" "index ch' = kNew"
    "registry e' = (registry e)(chan_fd ch := None)" "event_slots e' = event_slots e"
    "poll_state.more e' = poll_state.more ?e2"
    using closed_channel_leaves[OF wf ch, of ?e2] by auto
  have "wf_poller (e'\<lparr>callingPendingFunctors := False\<rparr>)"
    using e'(2) by (rule wf_poller_cong[THEN iffD1, rotated -1]) simp_all
  then have "loop_idle (e'\<lparr>callingPendingFunctors := False\<rparr>)"
    using idle loop_more_fields[OF e'(7)] e'(6) by (simp add: loop_idle_def after_change_def)
  then show ?thesis using e' loop_more_fields[OF e'(7)] by (auto simp: after_change_def)
qed

text \<open>The same without the functor, as destructors do it.\<close>

lemma loop_after_destroy:
  assumes idle: "loop_idle e" and ch: "heap e c = Some ch" "index ch = kAdded"
  shows "\<exists>e' ch'. channel_remove c (after_change c (unwant_all ch) e) = Inr e' \<and> loop_idle e'
    \<and> heap e' = (heap e)(c \<mapsto> ch') \<and> index ch' = kNew \<and> registry e' = (registry e)(chan_fd ch := None)
    \<and> interest e' = (interest e)(chan_fd ch := None) \<and> poll_state.more e' = poll_state.more e"
proof -
  have wf: "wf_poller e" using idle by (simp add: loop_idle_def)
  obtain e' ch' where e': "channel_remove c (after_change c (unwant_all ch) e) = Inr e'" "wf_poller e'"
    "heap e' = (heap e)(c \<mapsto> ch')" "index ch' = kNew" "registry e' = (registry e)(chan_fd ch := None)"
    "interest e' = (interest e)(chan_fd ch := None)" "event_slots e' = event_slots e"
    "poll_state.more e' = poll_state.more e"
    using closed_channel_leaves[OF wf ch, of "after_change c (unwant_all ch) e"] by auto
  moreover have "loop_idle e'" using idle loop_more_fields[OF e'(8)] e'(2,7) by (simp add: loop_idle_def)
  ultimately show ?thesis by blast
qed

text \<open>A server without one of its connections, once the loop has forgotten the channel.\<close>

lemma serving_removed:
  assumes sv: "serving l own opens w" and i: "opens fd = Some i"
    and idle': "loop_idle e'" and hp: "heap e' = (heap (loops w l))(conn_channel (conns w i) := o')"
    and reg: "registry e' = (registry (loops w l))(fd := None)"
    and same: "threadId e' = threadId (loops w l)" "wakeupChannel e' = wakeupChannel (loops w l)"
      "timerChannel e' = timerChannel (loops w l)"
  shows "serving l own (opens(fd := None)) (w\<lparr>loops := (loops w)(l := e'), conns := (conns w)(i := k),
      connections := (connections w)(conn_name (conns w i) := None)\<rparr>)"
proof -
  note op = serving_opened[OF sv i]
  have lst: "listening_on l w" using sv by (simp add: serving_def)
  let ?c = "conn_channel (conns w i)"
  let ?w = "w\<lparr>loops := (loops w)(l := e'), conns := (conns w)(i := k),
      connections := (connections w)(conn_name (conns w i) := None)\<rparr>"
  obtain ch where ch: "heap (loops w l) ?c = Some ch" using op by (auto simp: opened_def)
  have rest: "opened l j fd' ?w" if "fd' \<noteq> fd" "opens fd' = Some j" for fd' j
    using opened_channels[OF op serving_opened[OF sv that(2)]] that(1)
    by (intro opened_cong[OF serving_opened[OF sv that(2)]]) (auto simp: hp same)
  have "names_inv ?w"
    by (rule names_inv_remove[where w = w]) (use lst in \<open>simp_all add: listening_on_def\<close>)
  moreover have "acceptChannel w \<noteq> ?c" using op by (simp add: opened_def)
  ultimately have "listening_on l ?w"
    using lst ch by (auto simp: listening_on_def hp same)
  moreover have "conn_name (conns ?w j) = name \<and> (opens(fd := None)) (sockfd (conns ?w j)) = Some j"
    if "connections ?w name = Some j" for name j
  proof -
    have name: "name \<noteq> conn_name (conns w i)" "connections w name = Some j"
      using that by (auto split: if_splits)
    then have j: "conn_name (conns w j) = name" "opens (sockfd (conns w j)) = Some j"
      using sv by (simp_all add: serving_def)
    then have "j \<noteq> i" "sockfd (conns w j) \<noteq> fd" using name(1) i by auto
    then show ?thesis using j by simp
  qed
  moreover have "loops ?w l = e'" "acceptSocket ?w = acceptSocket w" by simp_all
  moreover have "dom (registry e') = own \<union> dom (opens(fd := None))" "own \<inter> dom (opens(fd := None)) = {}"
    "acceptSocket w \<in> own" using sv i by (auto simp: serving_def reg)
  ultimately show ?thesis
    unfolding serving_def using idle' rest by auto
qed

lemma serving_close:
  assumes sv: "serving l own opens w" and i: "opens fd = Some i"
    and cb: "srv_connection cbs = Some (\<lambda>i w. Inr w)"
  shows "\<exists>w'. bind_result (handleClose (conn_cbs cbs) i w)
        (doPendingFunctors (\<lambda>w. loops w l) (upd_loop l) (exec_functor cbs ok)) = Inr w'
    \<and> serving l own (opens(fd := None)) w' \<and> (\<forall>j. wire (conns w' j) = wire (conns w j))
    \<and> same_kernel w w' \<and> accepts_done w' = accepts_done w \<and> reads_done w' = reads_done w
    \<and> writes_done w' = writes_done w \<and> next_address w' = next_address w
    \<and> nextConnId w' = nextConnId w \<and> closed_fds w' = closed_fds w
    \<and> conns w' = (conns w)(i := (conns w i)\<lparr>conn_state := kDisconnected\<rparr>)
    \<and> connections w' = (connections w)(conn_name (conns w i) := None)
    \<and> (\<exists>ch. heap (loops w' l) (conn_channel (conns w i)) = Some ch \<and> index ch = kNew)
    \<and> threadId (loops w' l) = threadId (loops w l)"
proof -
  note op = serving_opened[OF sv i]
  have lst: "listening_on l w" and idle: "loop_idle (loops w l)" using sv by (simp_all add: serving_def)
  let ?c = "conn_channel (conns w i)" and ?k = "(conns w i)\<lparr>conn_state := kDisconnected\<rparr>"
    and ?cs = "(connections w)(conn_name (conns w i) := None)"
  obtain ch where ch: "heap (loops w l) ?c = Some ch" "index ch = kAdded" "chan_fd ch = fd"
    using op by (auto simp: opened_def)
  obtain e' ch' where e': "channel_remove ?c ((after_change ?c (unwant_all ch) (loops w l))
        \<lparr>callingPendingFunctors := True, pendingFunctors := []\<rparr>) = Inr e'"
    "loop_idle (e'\<lparr>callingPendingFunctors := False\<rparr>)" "heap e' = (heap (loops w l))(?c \<mapsto> ch')"
    "index ch' = kNew" "registry e' = (registry (loops w l))(fd := None)" "threadId e' = threadId (loops w l)"
    "wakeupChannel e' = wakeupChannel (loops w l)" "timerChannel e' = timerChannel (loops w l)"
    using loop_after_close[OF idle ch(1,2)] ch(3) by blast
  let ?w = "w\<lparr>loops := (loops w)(l := e'\<lparr>callingPendingFunctors := False\<rparr>), conns := (conns w)(i := ?k),
      connections := ?cs\<rparr>"
  have lp: "conn_loop (conns w i) = l" "threadId (loops w l) = cur_thread w" "\<not> callingPendingFunctors (loops w l)"
    "pendingFunctors (loops w l) = []" "connections w (conn_name (conns w i)) = Some i"
    using op lst idle by (simp_all add: opened_def listening_on_def loop_idle_def)
  have q: "queueInLoop (cur_thread w) f (after_change c dh (loops w l))
      = (after_change c dh (loops w l))\<lparr>pendingFunctors := [f]\<rparr>" for f c dh
    using lp(2-4) by (simp add: queue_defs after_change_def)
  have wf: "wf_poller (loops w l)" using idle by (simp add: loop_idle_def)
  have run: "bind_result (handleClose (conn_cbs cbs) i w)
      (doPendingFunctors (\<lambda>w. loops w l) (upd_loop l) (exec_functor cbs ok)) = Inr ?w"
    unfolding handleClose_eq[OF op lst wf ch(1) cb] q
    using e'(1) lp(1) by (cases w) (simp add: doPendingFunctors_def Let_def upd_loop_def call_sequence_fun
        connectDestroyed_def on_channel_def cloop_def upd_cloop_def)
  have "serving l own (opens(fd := None)) ?w"
    by (rule serving_removed[OF sv i]) (use e'(2-) in simp_all)
  with run show ?thesis using e'(3,4,6) by (intro exI[of _ ?w]) (simp add: same_kernel_def)
qed

subsection \<open>The destructor\<close>

text \<open>The destructor of the server closes one connection itself, without the queue of the loop.\<close>

lemma serving_Socket_destroy: "serving l own opens (Socket_destroy fd w) \<longleftrightarrow> serving l own opens w"
  by (simp add: serving_def opened_def listening_on_def names_inv_def Socket_destroy_def)

lemma serving_destroy_one:
  assumes sv: "serving l own opens w" and n: "connections w n = Some i"
    and cb: "srv_connection cbs = Some (\<lambda>i w. Inr w)"
  shows "\<exists>w'. destroy_connection cbs n w = Inr w'
    \<and> serving l own (opens(sockfd (conns w i) := None)) w' \<and> connections w' = (connections w)(n := None)
    \<and> same_kernel w w' \<and> closed_fds w' = closed_fds w @ [sockfd (conns w i)]
    \<and> (\<forall>j. sockfd (conns w' j) = sockfd (conns w j))"
proof -
  have name: "conn_name (conns w i) = n" and i: "opens (sockfd (conns w i)) = Some i"
    using sv n by (simp_all add: serving_def)
  note op = serving_opened[OF sv i]
  have lst: "listening_on l w" and idle: "loop_idle (loops w l)" using sv by (simp_all add: serving_def)
  let ?c = "conn_channel (conns w i)" and ?k = "(conns w i)\<lparr>conn_state := kDisconnected\<rparr>"
  obtain ch where ch: "heap (loops w l) ?c = Some ch" "index ch = kAdded" "chan_fd ch = sockfd (conns w i)"
    using op by (auto simp: opened_def)
  obtain e' ch' where e': "channel_remove ?c (after_change ?c (unwant_all ch) (loops w l)) = Inr e'"
    "loop_idle e'" "heap e' = (heap (loops w l))(?c \<mapsto> ch')" "index ch' = kNew"
    "registry e' = (registry (loops w l))(sockfd (conns w i) := None)"
    "poll_state.more e' = poll_state.more (loops w l)"
    using loop_after_destroy[OF idle ch(1,2), unfolded ch(3)] by (elim exE conjE) (rule that)
  note lf = loop_more_fields[OF e'(6)]
  let ?e = "e'\<lparr>heap := (heap (loops w l))(?c := None)\<rparr>"
  have gone: "Channel_destroy t ?c e' = Inr ?e" "loop_idle ?e" for t
    using Channel_destroy_ok[of e' ?c ch'] e'(2-4) by (simp_all add: loop_idle_def)
  let ?w = "w\<lparr>loops := (loops w)(l := ?e), conns := (conns w)(i := ?k),
      connections := (connections w)(conn_name (conns w i) := None)\<rparr>"
  have "fd_free ?c ch (loops w l)" "wf_poller (loops w l)"
    using ch(2) idle by (simp_all add: fd_free_def index_defs loop_idle_def)
  then have off: "disableAll ?c (loops w l) = Inr (after_change ?c (unwant_all ch) (loops w l))"
    using change_events_ok[of "loops w l" ?c ch unwant_all] ch(1) by (simp add: disableAll_def)
  have here: "conn_loop (conns w i) = l" "threadId (loops w l) = cur_thread w" "conn_state (conns w i) = kConnected"
    "srv_loop w = l" "getAllLoops (threadPool w) = [l]" "pendingFunctors e' = []"
    using op lst e'(2) by (simp_all add: opened_def listening_on_def loop_idle_def)
  have "destroy_connection cbs n w = Inr (Socket_destroy (sockfd (conns w i)) ?w)"
    using off e'(1) here n name cb gone(1) by (cases w) (simp add: destroy_connection_def run_conn_def
        runInLoop_def isInLoopThread_def connectDestroyed_def on_channel_def cloop_def setState_def
        upd_conn_def upd_cloop_def upd_loop_def conn_cbs_def call_function_def release_connection_def
        conn_shared_def TcpConnection_destroy_def on_loop_def)
  moreover have "serving l own (opens(sockfd (conns w i) := None)) ?w"
    by (rule serving_removed[OF sv i gone(2)]) (use e'(5) in \<open>simp_all add: lf\<close>)
  then have "serving l own (opens(sockfd (conns w i) := None)) (Socket_destroy (sockfd (conns w i)) ?w)"
    by (simp add: serving_Socket_destroy)
  ultimately show ?thesis
    by (intro exI[of _ "Socket_destroy (sockfd (conns w i)) ?w"]) (simp add: same_kernel_def name Socket_destroy_def)
qed

text \<open>The sockets that the server closes: those of its connections, in the order of the visits.\<close>

definition closed_in_order :: "server_world \<Rightarrow> char list list \<Rightarrow> int list" where
  "closed_in_order w order =
     List.map_filter (\<lambda>n. map_option (\<lambda>i. sockfd (conns w i)) (connections w n)) order"

lemma closed_in_order_simps [simp]:
  "closed_in_order w [] = []"
  "closed_in_order w (n # order) = (case connections w n of None \<Rightarrow> closed_in_order w order
     | Some i \<Rightarrow> sockfd (conns w i) # closed_in_order w order)"
  by (simp_all add: closed_in_order_def map_filter_simps split: option.split)

lemma closed_in_order_cong:
  "n \<notin> set order \<Longrightarrow> connections w' = (connections w)(n := None) \<Longrightarrow>
     \<forall>j. sockfd (conns w' j) = sockfd (conns w j) \<Longrightarrow> closed_in_order w' order = closed_in_order w order"
  by (induction order) (auto split: option.split)

lemma serving_destroy_all:
  assumes "serving l own opens w" and cb: "srv_connection cbs = Some (\<lambda>i w. Inr w)" and "distinct order"
  shows "\<exists>w' opens'. call_sequence (destroy_connection cbs) order w = Inr w' \<and> serving l own opens' w'
    \<and> connections w' = connections w |` (- set order) \<and> same_kernel w w'
    \<and> closed_fds w' = closed_fds w @ closed_in_order w order"
  using assms(1,3)
proof (induction order arbitrary: w opens)
  case Nil
  then show ?case by (auto simp: same_kernel_def restrict_map_def)
next
  case (Cons n order)
  have "\<exists>w1 opens1. destroy_connection cbs n w = Inr w1 \<and> serving l own opens1 w1
      \<and> connections w1 = (connections w)(n := None) \<and> same_kernel w w1
      \<and> closed_fds w1 = closed_fds w @ closed_in_order w [n] \<and> (\<forall>j. sockfd (conns w1 j) = sockfd (conns w j))"
  proof (cases "connections w n")
    case None
    then show ?thesis using Cons.prems by (auto simp: destroy_connection_def same_kernel_def fun_eq_iff)
  next
    case (Some i)
    then show ?thesis using serving_destroy_one[OF Cons.prems(1) Some cb] by auto
  qed
  then obtain w1 opens1 where w1: "destroy_connection cbs n w = Inr w1" "serving l own opens1 w1"
    "connections w1 = (connections w)(n := None)" "same_kernel w w1"
    "closed_fds w1 = closed_fds w @ closed_in_order w [n]" "\<forall>j. sockfd (conns w1 j) = sockfd (conns w j)"
    by blast
  have "closed_in_order w1 order = closed_in_order w order"
    using Cons.prems(2) w1(3,6) by (intro closed_in_order_cong) simp_all
  with Cons.IH[OF w1(2)] w1 Cons.prems(2) show ?case
    by (auto simp: same_kernel_def restrict_map_def fun_eq_iff split: option.splits)
qed

lemma closed_in_order_clients:
  assumes sv: "serving l own opens w" and all: "dom (connections w) \<subseteq> set order" and "distinct order"
  shows "set (closed_in_order w order) = dom opens" and "distinct (closed_in_order w order)"
proof -
  have mem: "fd \<in> set (closed_in_order w ns) \<longleftrightarrow>
      (\<exists>n i. n \<in> set ns \<and> connections w n = Some i \<and> sockfd (conns w i) = fd)" for fd ns
    by (induction ns) (auto split: option.split)
  have conn: "conn_name (conns w i) = n" "opens (sockfd (conns w i)) = Some i"
    if "connections w n = Some i" for n i
    using sv that by (simp_all add: serving_def)
  have "connections w (conn_name (conns w i)) = Some i \<and> sockfd (conns w i) = fd" if "opens fd = Some i" for fd i
    using serving_opened[OF sv that] by (simp add: opened_def)
  then show "set (closed_in_order w order) = dom opens"
    using all conn by (auto simp: mem) (metis domI subsetD)+
  show "distinct (closed_in_order w order)" using assms(3)
  proof (induction order)
    case (Cons n order)
    have "sockfd (conns w i) \<notin> set (closed_in_order w order)" if i: "connections w n = Some i" for i
      using Cons.prems conn[OF i] conn unfolding mem by (metis distinct.simps(2) option.inject)
    with Cons show ?case by (simp split: option.split)
  qed simp
qed

text \<open>The acceptor then takes its own channel out of the poller and closes its socket.\<close>

lemma server_destroyed:
  assumes sv: "serving l own opens w" and cb: "srv_connection cbs = Some (\<lambda>i w. Inr w)"
    and all: "dom (connections w) \<subseteq> set order" and "distinct order"
  shows "\<exists>w'. TcpServer_destroy cbs order w = Inr w' \<and> connections w' = Map.empty
    \<and> loop_idle (loops w' l) \<and> dom (registry (loops w' l)) = own - {acceptSocket w}
    \<and> closed_fds w' = closed_fds w @ closed_in_order w order @ [acceptSocket w]"
proof -
  obtain w1 opens1 where w1: "call_sequence (destroy_connection cbs) order w = Inr w1"
    "serving l own opens1 w1" "connections w1 = connections w |` (- set order)" "same_kernel w w1"
    "closed_fds w1 = closed_fds w @ closed_in_order w order"
    using serving_destroy_all[OF sv cb assms(4)] by blast
  have empty: "connections w1 = Map.empty"
    using all by (fastforce simp: w1(3) restrict_map_def fun_eq_iff domIff)
  then have none: "dom opens1 = {}"
    using w1(2) by (fastforce simp: serving_def opened_def)
  have lst: "listening_on l w1" and idle: "loop_idle (loops w1 l)" using w1(2) by (simp_all add: serving_def)
  let ?c = "acceptChannel w1"
  have l: "srv_loop w1 = l" using lst by (simp add: listening_on_def)
  obtain ch where ch: "heap (loops w1 l) ?c = Some ch" "index ch = kAdded" "chan_fd ch = acceptSocket w1"
    using lst by (auto simp: listening_on_def)
  obtain e' ch' where e': "channel_remove ?c (after_change ?c (unwant_all ch) (loops w1 l)) = Inr e'"
    "loop_idle e'" "heap e' = (heap (loops w1 l))(?c \<mapsto> ch')" "index ch' = kNew"
    "registry e' = (registry (loops w1 l))(acceptSocket w1 := None)"
    using loop_after_destroy[OF idle ch(1,2), unfolded ch(3)] by (elim exE conjE) (rule that)
  have "fd_free ?c ch (loops w1 l)" "wf_poller (loops w1 l)"
    using ch(2) idle by (simp_all add: fd_free_def index_defs loop_idle_def)
  then have off: "disableAll ?c (loops w1 l) = Inr (after_change ?c (unwant_all ch) (loops w1 l))"
    using change_events_ok[of "loops w1 l" ?c ch unwant_all] ch(1) by (simp add: disableAll_def)
  let ?e = "e'\<lparr>heap := (heap (loops w1 l))(?c := None)\<rparr>"
  have gone: "Channel_destroy t ?c e' = Inr ?e" "loop_idle ?e" for t
    using Channel_destroy_ok[of e' ?c ch'] e'(2-4) by (simp_all add: loop_idle_def)
  let ?w = "Socket_destroy (acceptSocket w1) (upd_loop l (\<lambda>_. ?e) w1)"
  have "TcpServer_destroy cbs order w = Inr ?w"
    using off e'(1) gone(1) l by (cases w1) (simp add: TcpServer_destroy_def w1(1) Acceptor_destroy_def on_loop_def
        upd_loop_def)
  moreover have "dom (registry e') = own - {acceptSocket w1}"
    using w1(2) none by (auto simp: serving_def e'(5))
  moreover have "acceptSocket w1 = acceptSocket w" using w1(4) by (simp add: same_kernel_def)
  ultimately show ?thesis
    using gone(2) empty w1(5) by (intro exI[of _ ?w]) (simp add: Socket_destroy_def upd_loop_def)
qed

subsection \<open>Sessions\<close>

text \<open>
  What the clients of a server do, one after the other, and what the server is to make of it: the
  connections by their descriptors, the bytes sent so far on every connection, the number of the
  next one, and the number in the name of the next one.
\<close>

datatype client_event = Connect int sockaddr_in | Send int "char list" | HangUp int

record session =
  opens :: "int \<Rightarrow> nat option"
  sent :: "nat \<Rightarrow> char list"
  next_conn :: nat
  next_number :: int

fun session_step :: "(char list \<Rightarrow> char list) \<Rightarrow> client_event \<Rightarrow> session \<Rightarrow> session" where
  "session_step answer (Connect fd peer) s = s\<lparr>opens := (opens s)(fd \<mapsto> next_conn s),
     sent := (sent s)(next_conn s := []), next_conn := next_conn s + 2, next_number := next_number s + 1\<rparr>"
| "session_step answer (Send fd d) s = (case opens s fd of None \<Rightarrow> s
     | Some i \<Rightarrow> s\<lparr>sent := (sent s)(i := sent s i @ answer d)\<rparr>)"
| "session_step answer (HangUp fd) s = s\<lparr>opens := (opens s)(fd := None)\<rparr>"

text \<open>
  An event that can happen: a new descriptor is not in use, and only open connections send and
  hang up. A message is what one \<open>readv\<close> can deliver into any buffer.
\<close>

fun possible :: "int set \<Rightarrow> session \<Rightarrow> client_event \<Rightarrow> bool" where
  "possible own s (Connect fd peer) \<longleftrightarrow> fd \<notin> own \<and> opens s fd = None \<and> next_number s + 1 < 2 ^ 31"
| "possible own s (Send fd d) \<longleftrightarrow> opens s fd \<noteq> None \<and> d \<noteq> [] \<and> length d \<le> extrabuf_size"
| "possible own s (HangUp fd) \<longleftrightarrow> opens s fd \<noteq> None"

fun possible_all :: "(char list \<Rightarrow> char list) \<Rightarrow> int set \<Rightarrow> session \<Rightarrow> client_event list \<Rightarrow> bool" where
  "possible_all answer own s [] \<longleftrightarrow> True"
| "possible_all answer own s (ev # evs) \<longleftrightarrow>
     possible own s ev \<and> possible_all answer own (session_step answer ev s) evs"

text \<open>
  The kernel's side: the descriptor that is ready, and its answers to the calls that the server
  makes; it takes all that is written. \<open>a\<close>, \<open>r\<close> and \<open>k\<close> count the calls of \<open>accept4\<close>, \<open>readv\<close> and
  \<open>write\<close> so far.
\<close>

fun ready_fd :: "int \<Rightarrow> client_event \<Rightarrow> int" where
  "ready_fd sock (Connect fd peer) = sock"
| "ready_fd sock (Send fd d) = fd"
| "ready_fd sock (HangUp fd) = fd"

fun kernel_plays ::
    "(char list \<Rightarrow> char list) \<Rightarrow> server_world \<Rightarrow> client_event list \<Rightarrow> nat \<Rightarrow> nat \<Rightarrow> nat \<Rightarrow> bool" where
  "kernel_plays answer w [] a r k \<longleftrightarrow> True"
| "kernel_plays answer w (Connect fd peer # evs) a r k \<longleftrightarrow>
     accept_answers w a = AcceptOk fd peer \<and> kernel_plays answer w evs (Suc a) r k"
| "kernel_plays answer w (Send fd d # evs) a r k \<longleftrightarrow> read_answers w r = ReadOk d
     \<and> takes_all (write_answers w k) (answer d) \<and> kernel_plays answer w evs a (Suc r) (Suc k)"
| "kernel_plays answer w (HangUp fd # evs) a r k \<longleftrightarrow>
     read_answers w r = ReadOk [] \<and> kernel_plays answer w evs a (Suc r) k"

lemma kernel_plays_answers:
  "accept_answers w' = accept_answers w \<Longrightarrow> read_answers w' = read_answers w \<Longrightarrow>
   write_answers w' = write_answers w \<Longrightarrow>
   kernel_plays answer w' evs a r k = kernel_plays answer w evs a r k"
  by (induction answer w evs a r k rule: kernel_plays.induct) simp_all

lemma kernel_plays_cong:
  "same_kernel w w' \<Longrightarrow> kernel_plays answer w' evs a r k = kernel_plays answer w evs a r k"
  by (rule kernel_plays_answers) (simp_all add: same_kernel_def)

text \<open>
  Facts about sessions: the number of a connection belongs to one descriptor at most; while it is
  open it gets the answers to its own messages, whatever the others do, and afterwards nothing.
\<close>

fun chunks :: "int \<Rightarrow> client_event list \<Rightarrow> char list list" where
  "chunks fd [] = []"
| "chunks fd (Send fd' d # evs) = (if fd' = fd then d # chunks fd evs else chunks fd evs)"
| "chunks fd (ev # evs) = chunks fd evs"

fun connects :: "client_event list \<Rightarrow> nat" where
  "connects [] = 0"
| "connects (Connect fd peer # evs) = Suc (connects evs)"
| "connects (ev # evs) = connects evs"

definition session_wf :: "session \<Rightarrow> bool" where
  "session_wf s \<longleftrightarrow> inj_on (opens s) (dom (opens s)) \<and> (\<forall>i \<in> ran (opens s). i < next_conn s)"

lemma session_step_wf: "session_wf s \<Longrightarrow> session_wf (session_step answer ev s)"
proof (cases ev)
  case (Connect fd peer)
  assume wf: "session_wf s"
  then have "next_conn s \<notin> ran (opens s)" by (auto simp: session_wf_def)
  with wf show ?thesis
    by (auto simp: Connect session_wf_def inj_on_def ran_def split: if_splits)
next
  case (HangUp fd)
  assume "session_wf s"
  then show ?thesis by (auto simp: HangUp session_wf_def inj_on_def ran_def split: if_splits)
qed (auto simp: session_wf_def split: option.splits)

lemma session_wf_fold: "session_wf s \<Longrightarrow> session_wf (fold (session_step answer) evs s)"
  by (induction evs arbitrary: s) (simp_all add: session_step_wf)

lemma next_conn_fold: "next_conn (fold (session_step answer) evs s) = next_conn s + 2 * connects evs"
  by (induction evs arbitrary: s rule: connects.induct) (auto split: option.splits)

lemma open_session:
  "session_wf s \<Longrightarrow> opens s fd = Some i \<Longrightarrow> possible_all answer own s evs \<Longrightarrow> HangUp fd \<notin> set evs \<Longrightarrow>
   opens (fold (session_step answer) evs s) fd = Some i
     \<and> sent (fold (session_step answer) evs s) i = sent s i @ concat (map answer (chunks fd evs))"
proof (induction evs arbitrary: s)
  case (Cons ev evs)
  note wf = session_step_wf[OF Cons.prems(1), of answer ev]
  have i: "i < next_conn s" using Cons.prems(1,2) by (auto simp: session_wf_def ran_def)
  have other: "j \<noteq> i" if "opens s fd' = Some j" "fd' \<noteq> fd" for fd' j
    using Cons.prems(1,2) that by (auto simp: session_wf_def inj_on_def dom_def)
  show ?case
  proof (cases ev)
    case (Connect fd' peer)
    then have "fd \<noteq> fd'" using Cons.prems(2,3) by auto
    then show ?thesis using Cons.IH[OF wf] Cons.prems i by (simp add: Connect)
  next
    case (Send fd' d)
    then show ?thesis using Cons.IH[OF wf] Cons.prems other by (auto split: option.splits)
  next
    case (HangUp fd')
    then show ?thesis using Cons.IH[OF wf] Cons.prems by auto
  qed
qed simp

lemma closed_session:
  "i < next_conn s \<Longrightarrow> i \<notin> ran (opens s) \<Longrightarrow> sent (fold (session_step answer) evs s) i = sent s i"
proof (induction evs arbitrary: s)
  case (Cons ev evs)
  have "i < next_conn (session_step answer ev s)" "i \<notin> ran (opens (session_step answer ev s))"
    "sent (session_step answer ev s) i = sent s i"
    using Cons.prems by (cases ev; force simp: ran_def split: option.splits if_splits)+
  then show ?case using Cons.IH by simp
qed simp

lemma possible_all_append:
  "possible_all answer own s (xs @ ys) \<longleftrightarrow>
     possible_all answer own s xs \<and> possible_all answer own (fold (session_step answer) xs s) ys"
  by (induction xs arbitrary: s) auto

text \<open>What a client gets that connects, sends, and hangs up, in the midst of others.\<close>

lemma session_of_client:
  assumes wf: "session_wf s" and evs: "evs = pre @ Connect fd peer # mid @ HangUp fd # post"
    and ok: "possible_all answer own s evs" and mid: "HangUp fd \<notin> set mid"
  shows "sent (fold (session_step answer) evs s) (next_conn s + 2 * connects pre)
    = concat (map answer (chunks fd mid))"
proof -
  let ?s1 = "fold (session_step answer) pre s" and ?i = "next_conn s + 2 * connects pre"
  let ?s2 = "session_step answer (Connect fd peer) ?s1"
  let ?s3 = "fold (session_step answer) mid ?s2"
  let ?s4 = "session_step answer (HangUp fd) ?s3"
  have i: "next_conn ?s1 = ?i" by (rule next_conn_fold)
  have wf2: "session_wf ?s2" using session_wf_fold[OF wf] by (rule session_step_wf)
  have "possible_all answer own ?s2 mid" using ok by (simp add: evs possible_all_append)
  with open_session[OF wf2, of fd ?i] i mid
  have s3: "opens ?s3 fd = Some ?i" "sent ?s3 ?i = concat (map answer (chunks fd mid))" by auto
  have "session_wf ?s3" using wf2 by (rule session_wf_fold)
  then have "?i \<notin> ran (opens ?s4)" "?i < next_conn ?s4"
    using s3(1) by (auto simp: session_wf_def ran_def inj_on_def dom_def)
  then have "sent (fold (session_step answer) post ?s4) ?i = sent ?s4 ?i"
    by (rule closed_session[rotated])
  then show ?thesis using s3(2) by (simp add: evs)
qed

text \<open>The state of a server that stands for a session.\<close>

definition session_of :: "nat \<Rightarrow> int set \<Rightarrow> server_world \<Rightarrow> session \<Rightarrow> bool" where
  "session_of l own w s \<longleftrightarrow> serving l own (opens s) w \<and> sent s = (\<lambda>i. wire (conns w i))
     \<and> next_conn s = next_address w \<and> next_number s = nextConnId w"

context answering
begin

lemma round_accepts:
  assumes sv: "serving l own ops w" and acc: "accept_answers w (accepts_done w) = AcceptOk fd peer"
    and fd: "fd \<notin> own" "fd \<notin> dom ops" and n: "nextConnId w + 1 < 2 ^ 31"
  shows "\<exists>w'. server_round cbs ok l (WaitOk [(EPOLLIN, acceptSocket w)], t) w = Inr w'
    \<and> serving l own (ops(fd \<mapsto> next_address w)) w'
    \<and> (\<forall>j. wire (conns w' j) = (if j = next_address w then [] else wire (conns w j)))
    \<and> same_kernel w w' \<and> accepts_done w' = Suc (accepts_done w) \<and> reads_done w' = reads_done w
    \<and> writes_done w' = writes_done w \<and> next_address w' = next_address w + 2
    \<and> nextConnId w' = nextConnId w + 1"
proof -
  have lst: "listening_on l w" and wf: "wf_poller (loops w l)" "1 < event_slots (loops w l)"
    using sv by (simp_all add: serving_def loop_idle_def)
  obtain ch where ch: "heap (loops w l) (acceptChannel w) = Some ch" "chan_fd ch = acceptSocket w"
      "index ch = kAdded" "\<not> tied ch" using lst by (auto simp: listening_on_def)
  let ?w1 = "after_poll l (acceptChannel w) ch t w"
  let ?w2 = "?w1\<lparr>accepts_done := Suc (accepts_done w)\<rparr>"
  have f: "accept_answers ?w1 = accept_answers w" "accepts_done ?w1 = accepts_done w"
    "acceptChannel ?w1 = acceptChannel w" "next_address ?w1 = next_address w"
    "nextConnId ?w1 = nextConnId w" "acceptSocket ?w1 = acceptSocket w" "reads_done ?w1 = reads_done w"
    "writes_done ?w1 = writes_done w" "same_kernel w ?w1"
    by (simp_all add: after_poll_def same_kernel_def)
  have sv2: "serving l own ops ?w2" using serving_after_poll[OF sv ch(1)] by simp
  obtain w' where w': "newConnection cbs fd peer ?w2 = Inr w'" "serving l own (ops(fd \<mapsto> next_address w)) w'"
    "\<forall>j. wire (conns w' j) = (if j = next_address w then [] else wire (conns w j))" "same_kernel ?w2 w'"
    "accepts_done w' = Suc (accepts_done w)" "reads_done w' = reads_done w" "writes_done w' = writes_done w"
    "next_address w' = next_address w + 2" "nextConnId w' = nextConnId w + 1"
    using serving_connect[OF sv2 fd _ connection_logs, of peer] n by (auto simp: f)
  have "handle_channel cbs (\<lambda>_. True) l (acceptChannel w) t ?w1
      = Acceptor_handleRead (Some (newConnection cbs)) ?w1"
    using handle_acceptor[of ?w1 l "set_revents EPOLLIN ch"] ch lst by (auto simp: f(3) listening_on_def)
  also have "\<dots> = Inr w'" by (simp add: Acceptor_handleRead_def socket_accept_def f acc w'(1))
  finally have "server_round cbs ok l (WaitOk [(EPOLLIN, acceptSocket w)], t) w = Inr w'"
    using server_round_one[OF registered_interest[OF wf(1) ch(1,3)] ch(1) wf(2)] ch(2)
      doPendingFunctors_none[of w' l] w'(2) by (simp add: serving_def loop_idle_def)
  then show ?thesis using w' f(9) by (simp add: same_kernel_def)
qed

lemma round_closes:
  assumes sv: "serving l own ops w" and i: "ops fd = Some i"
    and read: "read_answers w (reads_done w) = ReadOk []"
  shows "\<exists>w'. server_round cbs ok l (WaitOk [(EPOLLIN, fd)], t) w = Inr w'
    \<and> serving l own (ops(fd := None)) w' \<and> (\<forall>j. wire (conns w' j) = wire (conns w j))
    \<and> same_kernel w w' \<and> accepts_done w' = accepts_done w \<and> reads_done w' = Suc (reads_done w)
    \<and> writes_done w' = writes_done w \<and> next_address w' = next_address w
    \<and> nextConnId w' = nextConnId w"
proof -
  note op = serving_opened[OF sv i]
  let ?c = "conn_channel (conns w i)"
  obtain ch where ch: "heap (loops w l) ?c = Some ch" "chan_fd ch = fd" "index ch = kAdded"
      "tied ch" "tie_obj ch = Some i" using op by (auto simp: opened_def)
  have wf: "wf_poller (loops w l)" "1 < event_slots (loops w l)"
    using sv by (simp_all add: serving_def loop_idle_def)
  let ?w1 = "after_poll l ?c ch t w"
  have sv1: "serving l own ops ?w1" by (rule serving_after_poll[OF sv ch(1)])
  have f: "read_answers ?w1 = read_answers w" "reads_done ?w1 = reads_done w"
    "accepts_done ?w1 = accepts_done w" "writes_done ?w1 = writes_done w" "same_kernel w ?w1"
    "next_address ?w1 = next_address w" "nextConnId ?w1 = nextConnId w"
    by (simp_all add: after_poll_def same_kernel_def)
  obtain b where b: "readFd (ReadOk []) (inputBuffer (conns w i)) = Inr (0, None, b)"
      "wf_buffer b" "contents b = []"
    using readFd_ok[of "inputBuffer (conns w i)" "[]"] op by (auto simp: opened_def)
  let ?w2 = "upd_conn i (\<lambda>c. c\<lparr>inputBuffer := b\<rparr>) (?w1\<lparr>reads_done := Suc (reads_done w)\<rparr>)"
  have sv2: "serving l own ops ?w2"
    by (rule serving_input[OF sv1 _ _ _ _ b(2,3), where i = i and s = "wire (conns w i)"]) simp_all
  obtain w' where w': "bind_result (handleClose (conn_cbs cbs) i ?w2)
        (doPendingFunctors (\<lambda>w. loops w l) (upd_loop l) (exec_functor cbs ok)) = Inr w'"
    "serving l own (ops(fd := None)) w'" "\<forall>j. wire (conns w' j) = wire (conns ?w2 j)"
    "same_kernel ?w2 w'" "accepts_done w' = accepts_done ?w2" "reads_done w' = reads_done ?w2"
    "writes_done w' = writes_done ?w2" "next_address w' = next_address ?w2"
    "nextConnId w' = nextConnId ?w2"
    using serving_close[OF sv2 i connection_logs, of ok] by (elim exE conjE) (rule that)
  have "handle_channel cbs (\<lambda>_. True) l ?c t ?w1 = handleRead (conn_cbs cbs) i t ?w1"
    by (rule handle_connection[where ch = "set_revents EPOLLIN ch"])
      (use ch serving_opened[OF sv1 i] in \<open>auto simp: opened_def\<close>)
  also have "\<dots> = handleClose (conn_cbs cbs) i ?w2"
    using b(1) read by (simp add: handleRead_def f)
  finally have "server_round cbs ok l (WaitOk [(EPOLLIN, fd)], t) w = Inr w'"
    using server_round_one[OF registered_interest[OF wf(1) ch(1,3)] ch(1) wf(2)] ch(2) w'(1) by simp
  then show ?thesis using w' f by (auto simp: same_kernel_def)
qed

text \<open>One event is one round, and the round does what the session says.\<close>

lemma round_refines:
  assumes so: "session_of l own w s" and ok: "possible own s ev"
    and plays: "kernel_plays answer w (ev # evs) (accepts_done w) (reads_done w) (writes_done w)"
  shows "\<exists>w'. server_round cbs ok' l (WaitOk [(EPOLLIN, ready_fd (acceptSocket w) ev)], t) w = Inr w'
    \<and> session_of l own w' (session_step answer ev s) \<and> acceptSocket w' = acceptSocket w
    \<and> kernel_plays answer w' evs (accepts_done w') (reads_done w') (writes_done w')"
proof -
  have sv: "serving l own (opens s) w" and s: "sent s = (\<lambda>i. wire (conns w i))"
    "next_conn s = next_address w" "next_number s = nextConnId w"
    using so by (simp_all add: session_of_def)
  show ?thesis
  proof (cases ev)
    case (Connect fd peer)
    with ok s plays have "accept_answers w (accepts_done w) = AcceptOk fd peer" "fd \<notin> own"
      "fd \<notin> dom (opens s)" "nextConnId w + 1 < 2 ^ 31" by (simp_all add: domIff)
    from round_accepts[OF sv this, of ok' t] obtain w' where
      w': "server_round cbs ok' l (WaitOk [(EPOLLIN, acceptSocket w)], t) w = Inr w'"
      "serving l own ((opens s)(fd \<mapsto> next_address w)) w'"
      "\<forall>j. wire (conns w' j) = (if j = next_address w then [] else wire (conns w j))"
      "same_kernel w w'" "accepts_done w' = Suc (accepts_done w)" "reads_done w' = reads_done w"
      "writes_done w' = writes_done w" "next_address w' = next_address w + 2"
      "nextConnId w' = nextConnId w + 1" by blast
    have "session_of l own w' (session_step answer ev s)"
      using w'(2,3,8,9) s by (auto simp: session_of_def Connect fun_eq_iff)
    then show ?thesis using w'(1,4-7) plays kernel_plays_cong[OF w'(4)]
      by (auto simp: Connect same_kernel_def)
  next
    case (Send fd d)
    with ok plays obtain i where i: "opens s fd = Some i" and d: "d \<noteq> []" "length d \<le> extrabuf_size"
      "read_answers w (reads_done w) = ReadOk d" "takes_all (write_answers w (writes_done w)) (answer d)"
      by auto
    from round_answers[OF sv i d(3,1,2,4), of ok' t] obtain w' where
      w': "server_round cbs ok' l (WaitOk [(EPOLLIN, fd)], t) w = Inr w'" "serving l own (opens s) w'"
      "\<forall>j. wire (conns w' j) = (if j = i then wire (conns w i) @ answer d else wire (conns w j))"
      "same_kernel w w'" "accepts_done w' = accepts_done w" "reads_done w' = Suc (reads_done w)"
      "writes_done w' = Suc (writes_done w)" "next_address w' = next_address w"
      "nextConnId w' = nextConnId w" by blast
    have "session_of l own w' (session_step answer ev s)"
      using w'(2,3,8,9) s i by (auto simp: session_of_def Send fun_eq_iff)
    then show ?thesis using w'(1,4-7) plays kernel_plays_cong[OF w'(4)]
      by (auto simp: Send same_kernel_def)
  next
    case (HangUp fd)
    with ok plays obtain i where i: "opens s fd = Some i" and r: "read_answers w (reads_done w) = ReadOk []"
      by auto
    from round_closes[OF sv i r, of ok' t] obtain w' where
      w': "server_round cbs ok' l (WaitOk [(EPOLLIN, fd)], t) w = Inr w'"
      "serving l own ((opens s)(fd := None)) w'" "\<forall>j. wire (conns w' j) = wire (conns w j)"
      "same_kernel w w'" "accepts_done w' = accepts_done w" "reads_done w' = Suc (reads_done w)"
      "writes_done w' = writes_done w" "next_address w' = next_address w"
      "nextConnId w' = nextConnId w" by blast
    have "session_of l own w' (session_step answer ev s)"
      using w'(2,3,8,9) s by (auto simp: session_of_def HangUp fun_eq_iff)
    then show ?thesis using w'(1,4-7) plays kernel_plays_cong[OF w'(4)]
      by (auto simp: HangUp same_kernel_def)
  qed
qed

lemma rounds_refine:
  "session_of l own w s \<Longrightarrow> possible_all answer own s (map fst evs) \<Longrightarrow>
   kernel_plays answer w (map fst evs) (accepts_done w) (reads_done w) (writes_done w) \<Longrightarrow>
   \<exists>w'. loop_rounds (\<lambda>w. loops w l) (upd_loop l) (exec_functor cbs ok) (handle_channel cbs (\<lambda>_. True) l)
       (map (\<lambda>(ev, t). (WaitOk [(EPOLLIN, ready_fd (acceptSocket w) ev)], t)) evs) w = Inr w'
     \<and> session_of l own w' (fold (session_step answer) (map fst evs) s)"
proof (induction evs arbitrary: w s)
  case Nil
  then have "\<not> quit_flag (loops w l)" by (simp add: session_of_def serving_def loop_idle_def)
  with Nil show ?case by simp
next
  case (Cons e evs)
  obtain ev t where e: "e = (ev, t)" by (cases e)
  have "\<not> quit_flag (loops w l)" using Cons.prems(1) by (simp add: session_of_def serving_def loop_idle_def)
  moreover obtain w1 where w1: "server_round cbs ok l (WaitOk [(EPOLLIN, ready_fd (acceptSocket w) ev)], t) w = Inr w1"
    "session_of l own w1 (session_step answer ev s)" "acceptSocket w1 = acceptSocket w"
    "kernel_plays answer w1 (map fst evs) (accepts_done w1) (reads_done w1) (writes_done w1)"
    using round_refines[OF Cons.prems(1), of ev "map fst evs" ok t] Cons.prems(2,3) by (auto simp: e)
  moreover obtain w' where "loop_rounds (\<lambda>w. loops w l) (upd_loop l) (exec_functor cbs ok)
      (handle_channel cbs (\<lambda>_. True) l)
      (map (\<lambda>(ev, t). (WaitOk [(EPOLLIN, ready_fd (acceptSocket w) ev)], t)) evs) w1 = Inr w'"
    "session_of l own w' (fold (session_step answer) (map fst evs) (session_step answer ev s))"
    using Cons.IH[OF w1(2) _ w1(4)] Cons.prems(2) by (auto simp: e w1(3))
  ultimately show ?case by (auto simp: e server_round_def simp del: loop_rounds.simps simp: loop_rounds.simps[of _ _ _ _ "_ # _"])
qed

text \<open>\<open>loop ()\<close> on the events of a session.\<close>

lemma loop_refines:
  assumes so: "session_of l own w s" and ok: "possible_all answer own s (map fst evs)"
    and plays: "kernel_plays answer w (map fst evs) (accepts_done w) (reads_done w) (writes_done w)"
  shows "\<exists>w'. server_loop cbs (\<lambda>_. True) listen_ok l
      (map (\<lambda>(ev, t). (WaitOk [(EPOLLIN, ready_fd (acceptSocket w) ev)], t)) evs) w = Inr w'
    \<and> session_of l own w' (fold (session_step answer) (map fst evs) s)"
proof -
  let ?w = "upd_loop l (\<lambda>e. e\<lparr>looping := True, quit_flag := False\<rparr>) w"
  have wf: "wf_poller (e\<lparr>looping := True, quit_flag := False\<rparr>) = wf_poller e" for e :: "loop_functor eventloop"
    by (rule wf_poller_cong) simp_all
  have "opened l i fd ?w = opened l i fd w" for i fd by (simp add: opened_def)
  then have "session_of l own ?w s"
    using so by (auto simp: session_of_def serving_def loop_idle_def listening_on_def wf)
  moreover have "same_kernel w ?w" by (simp add: same_kernel_def)
  ultimately show ?thesis
    using rounds_refine[of l own ?w s evs listen_ok] ok plays kernel_plays_cong
    by (simp add: server_loop_def loop_def)
qed

end


subsection \<open>A server that starts\<close>

text \<open>
  Between the constructor and \<open>start\<close>: the acceptor has its channel, which the poller does not
  know yet.
\<close>

lemma TcpServer_eq:
  assumes "0 \<le> sock"
  shows "TcpServer (Some l) addr name opt sock True w = Inr (upd_loop l
      (put_channel (next_address w) (Channel sock)) (w\<lparr>srv_loop := l, ipPort := toIpPort addr,
      srv_name := name, acceptSocket := sock, acceptChannel := next_address w,
      next_address := next_address w + 1, listenning := False, so_reuseaddr := (opt = kReusePort),
      so_reuseport := True, bound_to := Some addr, threadPool := EventLoopThreadPool l name,
      srv_started := 0, nextConnId := 1, connections := Map.empty\<rparr>))"
  using assms by (cases w) (simp add: TcpServer_def Acceptor_def createNonblocking_def bindAddress_def
      setReusePort_def setReuseAddr_def upd_loop_def Let_def)

lemma start_pool_alone: "start_pool None fresh (EventLoopThreadPool l name) w
  = Inr ((EventLoopThreadPool l name)\<lparr>pool_started := True\<rparr>, w)"
  by (simp add: start_pool_def EventLoopThreadPool_def)

lemma server_starts:
  assumes idle: "loop_idle (loops w l)" and here: "threadId (loops w l) = cur_thread w"
    and old: "{wakeupChannel (loops w l), timerChannel (loops w l)} \<union> dom (heap (loops w l))
      \<subseteq> {..<next_address w}"
    and sock: "registry (loops w l) sock = None" "0 \<le> sock" and cb: "srv_threadInit cbs = None"
  shows "\<exists>w1 w'. TcpServer (Some l) addr name opt sock True w = Inr w1
    \<and> server_start cbs fresh True w1 = Inr w'
    \<and> session_of l (insert sock (dom (registry (loops w l)))) w' \<lparr>opens = Map.empty,
         sent = (\<lambda>i. wire (conns w i)), next_conn = next_address w + 1, next_number = 1\<rparr>
    \<and> acceptSocket w' = sock \<and> listenning w' \<and> accept_answers w' = accept_answers w
    \<and> read_answers w' = read_answers w \<and> write_answers w' = write_answers w
    \<and> accepts_done w' = accepts_done w \<and> reads_done w' = reads_done w \<and> writes_done w' = writes_done w"
proof -
  let ?c = "next_address w" and ?p = "EventLoopThreadPool l name"
  let ?w1 = "upd_loop l (put_channel ?c (Channel sock)) (w\<lparr>srv_loop := l, ipPort := toIpPort addr,
      srv_name := name, acceptSocket := sock, acceptChannel := next_address w,
      next_address := next_address w + 1, listenning := False, so_reuseaddr := (opt = kReusePort),
      so_reuseport := True, bound_to := Some addr, threadPool := ?p,
      srv_started := 0, nextConnId := 1, connections := Map.empty\<rparr>)"
  have "heap (loops w l) ?c = None" using old by (auto simp: domIff)
  moreover have "wf_poller (loops w l)" using idle by (simp add: loop_idle_def)
  ultimately obtain e where e: "enableReading ?c (put_channel ?c (Channel sock) (loops w l)) = Inr e"
    "wf_poller e" "registry e = (registry (loops w l))(sock \<mapsto> ?c)"
    "heap e = (heap (loops w l))(?c \<mapsto> want_read (Channel sock)\<lparr>index := kAdded\<rparr>)"
    "event_slots e = event_slots (loops w l)" "poll_state.more e = poll_state.more (loops w l)"
    using open_channel[of "loops w l" ?c sock] sock(1) by blast
  note lf = loop_more_fields[OF e(6)]
  let ?w = "(upd_loop l (\<lambda>_. e) ?w1)\<lparr>srv_started := 1, threadPool := ?p\<lparr>pool_started := True\<rparr>, listenning := True\<rparr>"
  have start: "server_start cbs fresh True ?w1 = Inr ?w"
    using e(1) here by (cases w) (simp add: server_start_def Let_def cb start_pool_alone run_on_def
        runInLoop_def isInLoopThread_def Acceptor_listen_def socket_listen_def on_loop_def upd_loop_def
        put_channel_def)
  have "names_inv ?w" using length_toIpPort by (simp add: names_inv_def upd_loop_def)
  then have "listening_on l ?w"
    using here old unfolding listening_on_def
    by (auto simp: e(4) lf upd_loop_def EventLoopThreadPool_def wf_pool_def getAllLoops_def Channel_def
        want_read_def)
  moreover have "loop_idle e" using idle e(2,5) by (simp add: loop_idle_def lf)
  ultimately have "serving l (insert sock (dom (registry (loops w l)))) Map.empty ?w"
    by (simp add: serving_def e(3) upd_loop_def)
  then show ?thesis
    using start TcpServer_eq[OF sock(2)] by (simp add: session_of_def upd_loop_def)
qed

end
