(* ===== verification/Http_Server.thy ===== *)
theory Http_Server
  imports Http_Message Server_Session
begin

section \<open>The HTTP server (src/http/HttpServer.*)\<close>

text \<open>
  An \<open>HttpServer\<close> is a \<open>TcpServer\<close> with four loops whose connection and message callbacks are
  member functions; the user's callback fills in the response to a request. The state is the
  \<open>server_world\<close>. Arguments of the model are the user's callback, empty when the user has set
  an empty one, and the order in which the headers of a response are visited. What the code
  logs is not part of the state.
\<close>

type_synonym http_callback = "http_request \<Rightarrow> http_response \<Rightarrow> http_response result"
type_synonym header_order = "http_response \<Rightarrow> (char list \<times> char list) list"

definition defaultHttpCallback :: http_callback where
  "defaultHttpCallback req resp =
     Inr (setCloseConnection True (setStatusMessage ''Not Found'' (setStatusCode k404NotFound resp)))"

definition onConnection :: "nat \<Rightarrow> server_world \<Rightarrow> server_world result" where
  "onConnection i w = Inr w"

text \<open>
  The callbacks of a connection as far as \<open>send\<close> and \<open>shutdown\<close> look at them: an \<open>HttpServer\<close>
  sets no write complete callback. (They never look at the message callback, which is
  \<open>onMessage\<close> below: \<open>http_send_cbs\<close>.)
\<close>

definition send_cbs :: "server_world conn_callbacks" where
  "send_cbs = \<lparr>connectionCallback = Some onConnection, messageCallback = None,
     writeCompleteCallback = None, closeCallback_conn = Some removeConnection,
     highWaterMarkCallback = None\<rparr>"

definition wants_close :: "http_request \<Rightarrow> bool" where
  "wants_close req \<longleftrightarrow> getHeader ''Connection'' req = ''close''
     \<or> r_version req = kHttp10 \<and> getHeader ''Connection'' req \<noteq> ''Keep-Alive''"

definition onRequest ::
    "http_callback option \<Rightarrow> header_order \<Rightarrow> nat \<Rightarrow> http_request \<Rightarrow> server_world
       \<Rightarrow> server_world result" where
  "onRequest httpCallback order i req w =
     bind_result (call_function httpCallback (\<lambda>f. f req (HttpResponse (wants_close req))))
       (\<lambda>response.
     bind_result (appendToBuffer (order response) response (Buffer kInitialSize)) (\<lambda>buf.
     bind_result (send_buffer send_cbs i buf w) (\<lambda>(buf', w1).
       if p_closeConnection response then shutdown_conn i w1 else Inr w1)))"

definition bad_request :: "char list" where
  "bad_request = ''HTTP/1.1 400 Bad Request'' @ CRLF @ CRLF"

definition onMessage ::
    "http_callback option \<Rightarrow> header_order \<Rightarrow> nat \<Rightarrow> TimeStamp \<Rightarrow> server_world
       \<Rightarrow> server_world result" where
  "onMessage httpCallback order i receiveTime w =
     (case parseRequest (inputBuffer (conns w i)) receiveTime HttpContext of
        None \<Rightarrow> Inl NoReturn
      | Some r \<Rightarrow> bind_result r (\<lambda>(ok, context, buf).
          let w1 = upd_conn i (\<lambda>c. c\<lparr>inputBuffer := buf\<rparr>) w
          in bind_result
               (if \<not> ok then bind_result (send_string send_cbs i bad_request w1) (shutdown_conn i)
                else Inr w1)
               (\<lambda>w2. if gotAll context then onRequest httpCallback order i (c_request context) w2
                     else Inr w2)))"

definition http_callbacks ::
    "http_callback option \<Rightarrow> header_order \<Rightarrow> server_world server_callbacks" where
  "http_callbacks httpCallback order =
     \<lparr>srv_connection = Some onConnection, srv_message = Some (onMessage httpCallback order),
      srv_writeComplete = None, srv_threadInit = None, srv_user = (\<lambda>n w. Inr w),
      srv_timer = (\<lambda>n w. Inr w)\<rparr>"

definition HttpServer ::
    "nat option \<Rightarrow> sockaddr_in \<Rightarrow> char list \<Rightarrow> server_option \<Rightarrow> int \<Rightarrow> bool \<Rightarrow> server_world
       \<Rightarrow> server_world result" where
  "HttpServer lp listenAddr name opt fd bind_ok w =
     bind_result (TcpServer lp listenAddr name opt fd bind_ok w)
       (\<lambda>w1. Inr (server_setThreadNum 4 w1))"

definition http_start ::
    "http_callback option \<Rightarrow> header_order \<Rightarrow> (nat \<Rightarrow> nat) \<Rightarrow> bool \<Rightarrow> server_world
       \<Rightarrow> server_world result" where
  "http_start httpCallback order fresh listen_ok w =
     server_start (http_callbacks httpCallback order) fresh listen_ok w"

subsection \<open>The callbacks keep the contracts of connection and server\<close>

lemma http_send_cbs:
  "sendInLoop (conn_cbs (http_callbacks cb order)) i msg w = sendInLoop send_cbs i msg w"
  by (rule sendInLoop_cong) (simp_all add: conn_cbs_def http_callbacks_def send_cbs_def)

lemma parse_new_context:
  assumes "wf_buffer b"
  obtains ok c' b' where "parseRequest b t HttpContext = Some (Inr (ok, c', b'))" and "wf_buffer b'"
    and "parse_text t HttpContext (contents b) = (ok, c', contents b')"
proof -
  obtain ok c' s' where eq: "parse_text t HttpContext (contents b) = (ok, c', s')" by (rule prod_cases3)
  have "parsing HttpContext" by (simp add: parsing_def HttpContext_def)
  from parse_loop_text[OF assms this eq] that eq show thesis by (auto simp: parseRequest_def)
qed

lemma parse_new_context_eq:
  assumes "wf_buffer b" and "parse_text t HttpContext (contents b) = (ok, c, s)"
  shows "\<exists>b'. parseRequest b t HttpContext = Some (Inr (ok, c, b')) \<and> wf_buffer b' \<and> contents b' = s"
  using parse_loop_text[OF assms(1) _ assms(2)]
  by (simp add: parseRequest_def parsing_def HttpContext_def)

lemma keeps_onRequest:
  assumes inv: "conn_inv i w"
  shows "keeps i w (onRequest cb order i req w)"
proof -
  have "keeps i w (bind_result (send_buffer send_cbs i buf w) (\<lambda>(buf', w1).
       if close then shutdown_conn i w1 else Inr w1))" for buf close
  proof -
    have "keeps i w (bind_result (bind_result (send_buffer send_cbs i buf w) (\<lambda>(b', w'). Inr w'))
        (\<lambda>w1. if close then shutdown_conn i w1 else Inr w1))"
      by (rule keeps_bind[OF keeps_send_buffer[OF inv]]) (simp add: keeps_shutdown)
    then show ?thesis by (simp add: bind_result_assoc split_def)
  qed
  then have "keeps i w (bind_result (appendToBuffer (order resp) resp (Buffer kInitialSize)) (\<lambda>buf.
     bind_result (send_buffer send_cbs i buf w) (\<lambda>(buf', w1).
       if p_closeConnection resp then shutdown_conn i w1 else Inr w1)))" for resp
    by (cases "appendToBuffer (order resp) resp (Buffer kInitialSize)") simp_all
  then show ?thesis
    unfolding onRequest_def
    by (cases "call_function cb (\<lambda>f. f req (HttpResponse (wants_close req)))") simp_all
qed

lemma keeps_onMessage:
  assumes inv: "conn_inv i w"
  shows "keeps i w (onMessage cb order i t w)"
proof -
  have "wf_buffer (inputBuffer (conns w i))" using inv by (simp add: conn_inv_def)
  then obtain ok c' b' where p: "parseRequest (inputBuffer (conns w i)) t HttpContext
      = Some (Inr (ok, c', b'))" "wf_buffer b'"
    by (rule parse_new_context)
  let ?w1 = "upd_conn i (\<lambda>c. c\<lparr>inputBuffer := b'\<rparr>) w"
  have inv1: "conn_inv i ?w1" using inv p(2) by (simp add: conn_inv_def channel_inv_def)
  have "keeps i ?w1 (bind_result
      (if \<not> ok then bind_result (send_string send_cbs i bad_request ?w1) (shutdown_conn i) else Inr ?w1)
      (\<lambda>w2. if gotAll c' then onRequest cb order i (c_request c') w2 else Inr w2))"
  proof (rule keeps_bind)
    show "keeps i ?w1 (if \<not> ok then bind_result (send_string send_cbs i bad_request ?w1) (shutdown_conn i)
        else Inr ?w1)"
      using inv1 by (simp add: keeps_shutdown_after keeps_send_string)
  qed (simp add: keeps_onRequest)
  from keeps_from[OF this, of w] show ?thesis using p(1) by (simp add: onMessage_def Let_def)
qed

interpretation http_conn: conn_user "conn_cbs (http_callbacks cb order)" i for cb order i
  by unfold_locales
    (auto simp: conn_cbs_def http_callbacks_def onConnection_def keeps_onMessage keeps_removeConnection)

interpretation http_srv: server_user "http_callbacks cb order" l for cb order l
  by unfold_locales (auto simp: http_callbacks_def onConnection_def grows_same)

text \<open>A buffer that was filled by several appends is like one filled at once.\<close>

definition holding :: "char list \<Rightarrow> buffer \<Rightarrow> bool" where
  "holding s m \<longleftrightarrow> length s \<le> kInitialSize \<and> readerIndex m = kCheapPrepend
     \<and> writerIndex m = kCheapPrepend + length s
     \<and> store m = replicate kCheapPrepend (CHR 0x00) @ s @ replicate (kInitialSize - length s) (CHR 0x00)"

lemma holding_fresh: "holding [] (Buffer kInitialSize)"
  by (simp add: holding_def Buffer_def replicate_add[symmetric])

lemma holding_append:
  assumes "holding s m" and "length (s @ d) \<le> kInitialSize"
  shows "\<exists>m'. append_buffer d m = Inr m' \<and> holding (s @ d) m'"
proof -
  have "writableBytes m = kInitialSize - length s"
    using assms(1) by (simp add: holding_def writableBytes_def)
  then have "ensureWritableBytes (length d) m = Inr m"
    using assms(2) by (auto simp: ensureWritableBytes_def)
  moreover have "replicate (kInitialSize - length s) (CHR 0x00)
      = replicate (length d) (CHR 0x00) @ replicate (kInitialSize - length (s @ d)) (CHR 0x00)"
    using assms(2) by (simp add: replicate_add[symmetric])
  ultimately show ?thesis
    using assms by (simp add: append_buffer_def holding_def copy_to_def)
qed

lemma holding_append_all:
  "holding s m \<Longrightarrow> length (s @ concat ds) \<le> kInitialSize \<Longrightarrow>
   \<exists>m'. append_all ds m = Inr m' \<and> holding (s @ concat ds) m'"
proof (induction ds arbitrary: s m)
  case (Cons d ds)
  then obtain m1 where "append_buffer d m = Inr m1" "holding (s @ d) m1"
    using holding_append[of s m d] by auto
  with Cons.IH[of "s @ d" m1] Cons.prems(2) show ?case by simp
qed simp

lemma holding_read:
  assumes "holding s m" and "2 * length s \<le> kInitialSize"
  shows "read_range m (writerIndex m) (readableBytes m) = Inr (replicate (length s) (CHR 0x00))"
proof -
  have rb: "readableBytes m = length s" using assms(1) by (simp add: holding_def readableBytes_def)
  have "take (length s) (replicate (kInitialSize - length s) (CHR 0x00)) = replicate (length s) (CHR 0x00)"
    using assms(2) by (simp add: min_def)
  then show ?thesis using assms by (simp add: read_range_def rb holding_def segment_def)
qed

lemma contents_holding: "holding s m \<Longrightarrow> contents m = s"
  by (simp add: holding_def contents_def segment_def)

subsection \<open>Properties\<close>

text \<open>C9: a response is not sent, but as many zero bytes. \<open>onRequest\<close> hands the buffer that holds the
  response to \<open>send (Buffer *)\<close>, which sends the bytes behind its contents. So for a connection in
  state \<open>kConnected\<close>, in the thread of its loop, and a callback of the user that returns a response of
  at most 512 bytes (with a body shorter than 10^13), the bytes sent to the peer or waiting in the
  output buffer grow by as many zero bytes as the response has characters. The exception is a peer
  that the \<open>write\<close> finds gone (\<open>EPIPE\<close>, \<open>ECONNRESET\<close>). Then the connection is in state
  \<open>kDisconnecting\<close> when the response asks for it to be closed, and is \<open>kConnected\<close> otherwise.\<close>

theorem http_response_is_zero_bytes:
  assumes here: "here i w" and "\<not> lost_peer i w"
    and cb: "f req (HttpResponse (wants_close req)) = Inr resp"
    and small: "2 * length (response_text (order resp) resp) \<le> kInitialSize"
      "length (p_body resp) < 10 ^ 13"
  shows "\<exists>w'. onRequest (Some f) order i req w = Inr w' \<and> conn_inv i w'
    \<and> stream i w' = stream i w @ replicate (length (response_text (order resp) resp)) (CHR 0x00)
    \<and> conn_state (conns w' i) = (if p_closeConnection resp then kDisconnecting else kConnected)"
proof -
  let ?t = "response_text (order resp) resp"
  obtain m where m: "appendToBuffer (order resp) resp (Buffer kInitialSize) = Inr m" "holding ?t m"
    using holding_append_all[OF holding_fresh, of "response_pieces (order resp) resp"] small
      concat_response_pieces[OF small(2), of "order resp"] by (auto simp: appendToBuffer_pieces)
  obtain w1 where w1: "sendInLoop send_cbs i (replicate (length ?t) (CHR 0x00)) w = Inr w1" "here i w1"
      "stream i w1 = stream i w @ replicate (length ?t) (CHR 0x00)"
    using sendInLoop_here[OF here, of send_cbs "replicate (length ?t) (CHR 0x00)"] assms(2) by auto
  have "send_buffer send_cbs i m w = Inr (retrieveAll m, w1)"
    using here w1(1) holding_read[OF m(2) small(1)] by (simp add: here_def send_buffer_def)
  then have "onRequest (Some f) order i req w
      = (if p_closeConnection resp then shutdown_conn i w1 else Inr w1)"
    using cb m(1) by (simp add: onRequest_def call_function_def)
  then show ?thesis using shutdown_here[OF w1(2)] w1(2,3) by (auto simp: here_def)
qed

lemma not_found_text: "response_text [] (setCloseConnection True (setStatusMessage ''Not Found''
     (setStatusCode k404NotFound (HttpResponse c))))
   = ''HTTP/1.1 404 Not Found'' @ CRLF @ ''Connection: close'' @ CRLF @ CRLF"
proof -
  have "decimal 404 = ''404''" by code_simp
  then show ?thesis
    by (simp add: response_text_def setCloseConnection_def setStatusMessage_def setStatusCode_def
        HttpResponse_def header_text_def)
qed

theorem http_response_is_zero_bytes_witness:
  "\<exists>w'. onRequest (Some defaultHttpCallback) (\<lambda>_. []) 0 HttpRequest sample_server = Inr w'
     \<and> stream 0 w' = replicate 45 (CHR 0x00) \<and> conn_state (conns w' 0) = kDisconnecting"
proof -
  define r where "r = setCloseConnection True (setStatusMessage ''Not Found'' (setStatusCode k404NotFound
     (HttpResponse (wants_close HttpRequest))))"
  have cb: "defaultHttpCallback HttpRequest (HttpResponse (wants_close HttpRequest)) = Inr r"
    by (simp add: defaultHttpCallback_def r_def)
  have len: "length (response_text [] r) = 45" unfolding r_def not_found_text by simp
  have r: "p_closeConnection r" "p_body r = []"
    by (simp_all add: r_def setCloseConnection_def setStatusMessage_def setStatusCode_def HttpResponse_def)
  have "stream 0 sample_server = []" by (simp add: stream_def)
  then show ?thesis
    using http_response_is_zero_bytes[where order = "\<lambda>_. []" and f = defaultHttpCallback
        and req = HttpRequest, OF sample_here sample_peer cb] len r
    by (auto simp: kInitialSize_def)
qed

text \<open>When a request cannot be read.\<close>

lemma refused_answer:
  assumes here: "here i w" and "\<not> lost_peer i w"
    and bad: "parse_text t HttpContext (contents (inputBuffer (conns w i))) = (False, c, s)"
  shows "\<exists>w'. onMessage cb order i t w = Inr w' \<and> conn_inv i w'
    \<and> stream i w' = stream i w @ bad_request \<and> conn_state (conns w' i) = kDisconnecting
    \<and> contents (inputBuffer (conns w' i)) = s"
proof -
  have "wf_buffer (inputBuffer (conns w i))" using here by (simp add: here_def conn_inv_def)
  from parse_new_context_eq[OF this bad]
  obtain b' where p: "parseRequest (inputBuffer (conns w i)) t HttpContext = Some (Inr (False, c, b'))"
      "wf_buffer b'" "contents b' = s" by blast
  let ?w1 = "upd_conn i (\<lambda>c. c\<lparr>inputBuffer := b'\<rparr>) w"
  have got: "\<not> gotAll c" using parse_text_bad[OF bad] by (auto simp: parsing_def HttpContext_def gotAll_def)
  note h1 = here_input[OF here p(2)]
  obtain w2 where w2: "sendInLoop send_cbs i bad_request ?w1 = Inr w2" "here i w2"
      "stream i w2 = stream i w @ bad_request" "inputBuffer (conns w2 i) = b'"
    using sendInLoop_here[OF h1, of send_cbs bad_request] assms(2) by auto
  obtain w3 where w3: "shutdown_conn i w2 = Inr w3" "conn_inv i w3"
      "conn_state (conns w3 i) = kDisconnecting" "stream i w3 = stream i w2"
      "inputBuffer (conns w3 i) = inputBuffer (conns w2 i)"
    using shutdown_here[OF w2(2)] by blast
  have "send_string send_cbs i bad_request ?w1 = Inr w2"
    using h1 w2(1) by (simp add: send_string_def here_def)
  then have "onMessage cb order i t w = Inr w3"
    using p(1) got w3(1) by (simp add: onMessage_def Let_def)
  then show ?thesis using w3 w2(3,4) p(3) by auto
qed

text \<open>A request line that cannot be read is answered. When \<open>parseRequest\<close> fails, the
  client gets \<open>400 Bad Request\<close>, whole, and the connection is shut down; the bad bytes stay in
  the input buffer, and nothing that the server sends later has an effect.\<close>

theorem bad_request_is_answered:
  assumes "here i w" and "\<not> lost_peer i w"
    and "parse_text t HttpContext (contents (inputBuffer (conns w i))) = (False, c, s)"
  shows "\<exists>w'. onMessage cb order i t w = Inr w' \<and> conn_inv i w'
    \<and> stream i w' = stream i w @ bad_request \<and> conn_state (conns w' i) = kDisconnecting
    \<and> contents (inputBuffer (conns w' i)) = s \<and> send_string send_cbs i msg w' = Inr w'"
proof -
  obtain w' where w': "onMessage cb order i t w = Inr w'" "conn_inv i w'"
      "stream i w' = stream i w @ bad_request" "conn_state (conns w' i) = kDisconnecting"
      "contents (inputBuffer (conns w' i)) = s"
    using refused_answer[OF assms, of cb order] by blast
  then have "send_string send_cbs i msg w' = Inr w'" by (simp add: send_string_def)
  with w' show ?thesis by blast
qed

theorem bad_request_is_answered_witness:
  "\<exists>w'. onMessage None (\<lambda>_. []) 0 TimeStamp_default (server_with_input (''HELLO'' @ CRLF)) = Inr w'
     \<and> stream 0 w' = bad_request \<and> conn_state (conns w' 0) = kDisconnecting"
proof -
  obtain b where b: "server_with_input (''HELLO'' @ CRLF)
        = upd_conn 0 (\<lambda>c. c\<lparr>inputBuffer := b\<rparr>) sample_server"
      "contents b = ''HELLO'' @ CRLF" "here 0 (server_with_input (''HELLO'' @ CRLF))"
      "\<not> lost_peer 0 (server_with_input (''HELLO'' @ CRLF))"
      "stream 0 (server_with_input (''HELLO'' @ CRLF)) = []"
    using server_with_input by blast
  have "parse_text TimeStamp_default HttpContext (''HELLO'' @ CRLF) = (False, HttpContext, ''HELLO'' @ CRLF)"
    by (subst parse_text.simps) (simp add: HttpContext_def after_request_line_def processRequestLine_def)
  then have "parse_text TimeStamp_default HttpContext
      (contents (inputBuffer (conns (server_with_input (''HELLO'' @ CRLF)) 0)))
      = (False, HttpContext, ''HELLO'' @ CRLF)" using b(1,2) by simp
  from bad_request_is_answered[OF b(3,4) this, of None "\<lambda>_. []" "[]"] b(5) show ?thesis by auto
qed

lemma parse_request_line_only:
  assumes "m \<noteq> kInvalid" and "target_ok path query" and "v = kHttp10 \<or> v = kHttp11"
  shows "\<exists>c. parse_text t HttpContext (request_line m path query v @ CRLF) = (True, c, []) \<and> \<not> gotAll c"
proof -
  let ?line = "request_line m path query v"
  have hit: "search_crlf (?line @ CRLF) = Some (length ?line)"
    by (rule search_crlf_hit[OF request_line_no_CR[OF assms(2)]])
  obtain c where c: "after_request_line t (take (length ?line) (?line @ CRLF)) HttpContext = (True, c)"
      "c_state c = kExpectHeaders"
    using processRequestLine_ok[OF assms, of HttpRequest]
    by (simp add: after_request_line_def HttpContext_def)
  have "parse_text t HttpContext (?line @ CRLF) = parse_text t c []"
    using parse_text_request[OF hit _ c(1)] by (simp add: HttpContext_def)
  then show ?thesis using c(2) by (simp add: parse_text_none gotAll_def)
qed

lemma method_of_colon: "method_of (s @ '':'') = kInvalid"
  by (auto simp: append_eq_Cons_conv)

lemma parse_header_as_request:
  assumes "header_ok h" and "CHR '' '' \<notin> set (fst h)"
  shows "\<exists>c. parse_text t HttpContext (header_line h @ CRLF @ rest)
    = (False, c, header_line h @ CRLF @ rest)"
proof -
  let ?s = "header_line h @ CR # LF # rest"
  have hit: "search_crlf ?s = Some (length (header_line h))"
    by (rule search_crlf_hit[OF header_line_no_CR[OF assms(1)]])
  have line: "header_line h = (fst h @ '':'') @ CHR '' '' # snd h" by (simp add: header_line_def)
  have f: "find_char (CHR '' '') (header_line h) = length (fst h @ '':'')"
    unfolding line using assms(2) by (intro find_char_append_hit) simp
  have t: "take (length (fst h @ '':'')) (header_line h) = fst h @ '':''" unfolding line by simp
  have "\<not> fst (processRequestLine (header_line h) (c_request HttpContext))"
    unfolding processRequestLine_def Let_def f t setMethod_def method_of_colon
    by (simp add: line)
  then have "\<exists>c. after_request_line t (take (length (header_line h)) ?s) HttpContext = (False, c)"
    by (cases "processRequestLine (header_line h) (c_request HttpContext)")
      (simp add: after_request_line_def)
  then obtain c where "after_request_line t (take (length (header_line h)) ?s) HttpContext = (False, c)" ..
  from parse_text_request[OF hit _ this] show ?thesis by (simp add: HttpContext_def)
qed

text \<open>A request that arrives in two pieces is refused. \<open>onMessage\<close> makes a new context for
  every call: when a request line has arrived and its headers have not, the line is taken out
  of the buffer and forgotten; when the headers follow, the first of them is read as a request
  line and answered with \<open>400 Bad Request\<close>.\<close>

theorem split_request_is_refused:
  assumes here: "here i w" and peer: "\<not> lost_peer i w"
    and first: "contents (inputBuffer (conns w i)) = request_line m path query v @ CRLF"
      "m \<noteq> kInvalid" "target_ok path query" "v = kHttp10 \<or> v = kHttp11"
    and second: "contents b = header_line h @ CRLF @ rest" "wf_buffer b"
      "header_ok h" "CHR '' '' \<notin> set (fst h)"
  shows "\<exists>b1 w2. onMessage cb order i t w = Inr (upd_conn i (\<lambda>c. c\<lparr>inputBuffer := b1\<rparr>) w)
    \<and> contents b1 = []
    \<and> onMessage cb order i t' (upd_conn i (\<lambda>c. c\<lparr>inputBuffer := b\<rparr>) w) = Inr w2
    \<and> stream i w2 = stream i w @ bad_request \<and> conn_state (conns w2 i) = kDisconnecting"
proof -
  have wf: "wf_buffer (inputBuffer (conns w i))" using here by (simp add: here_def conn_inv_def)
  obtain c where c: "parse_text t HttpContext (request_line m path query v @ CRLF) = (True, c, [])"
      "\<not> gotAll c"
    using parse_request_line_only[OF first(2-4)] by blast
  from parse_new_context_eq[OF wf c(1)[folded first(1)]]
  obtain b1 where p: "parseRequest (inputBuffer (conns w i)) t HttpContext
      = Some (Inr (True, c, b1))" "contents b1 = []" by blast
  then have one: "onMessage cb order i t w = Inr (upd_conn i (\<lambda>c. c\<lparr>inputBuffer := b1\<rparr>) w)"
    using c(2) by (simp add: onMessage_def Let_def)
  let ?w = "upd_conn i (\<lambda>c. c\<lparr>inputBuffer := b\<rparr>) w"
  obtain c' where "parse_text t' HttpContext (contents b) = (False, c', contents b)"
    unfolding second(1) using parse_header_as_request[OF second(3,4)] by blast
  then have "\<exists>w2. onMessage cb order i t' ?w = Inr w2 \<and> conn_inv i w2
    \<and> stream i w2 = stream i ?w @ bad_request \<and> conn_state (conns w2 i) = kDisconnecting
    \<and> contents (inputBuffer (conns w2 i)) = contents b"
    using refused_answer[OF here_input[OF here second(2)], of t' c' "contents b" cb order] peer by simp
  then show ?thesis using one p(2) by auto
qed

theorem split_request_is_refused_witness:
  "\<exists>b b1 w2. onMessage None (\<lambda>_. []) 0 TimeStamp_default
       (server_with_input (''GET / HTTP/1.1'' @ CRLF))
       = Inr (upd_conn 0 (\<lambda>c. c\<lparr>inputBuffer := b1\<rparr>) (server_with_input (''GET / HTTP/1.1'' @ CRLF)))
     \<and> contents b1 = [] \<and> contents b = ''Host: h'' @ CRLF @ CRLF
     \<and> onMessage None (\<lambda>_. []) 0 TimeStamp_default
         (upd_conn 0 (\<lambda>c. c\<lparr>inputBuffer := b\<rparr>) (server_with_input (''GET / HTTP/1.1'' @ CRLF))) = Inr w2
     \<and> stream 0 w2 = bad_request"
proof -
  define first where "first = ''GET / HTTP/1.1'' @ CRLF"
  obtain b0 where w: "server_with_input first = upd_conn 0 (\<lambda>c. c\<lparr>inputBuffer := b0\<rparr>) sample_server"
      "contents b0 = first" "here 0 (server_with_input first)" "\<not> lost_peer 0 (server_with_input first)"
      "stream 0 (server_with_input first) = []"
    using server_with_input by blast
  have line: "contents (inputBuffer (conns (server_with_input first) 0))
      = request_line kGet ''/'' [] kHttp11 @ CRLF"
    using w(1,2) by (simp add: request_line_def version_text_def first_def)
  obtain b where b: "wf_buffer b" "contents b = ''Host: h'' @ CRLF @ CRLF"
    using append_buffer_ok[OF wf_Buffer, of "''Host: h'' @ CRLF @ CRLF" kInitialSize] by auto
  then have h: "contents b = header_line (''Host'', ''h'') @ CRLF @ CRLF" by (simp add: header_line_def)
  have ok: "kGet \<noteq> kInvalid" "kHttp11 = kHttp10 \<or> kHttp11 = kHttp11" "target_ok ''/'' []"
      "header_ok (''Host'', ''h'')" "CHR '' '' \<notin> set (fst (''Host'', ''h''))"
    by (simp_all add: target_ok_def header_ok_def trimmed_def isspace_def)
  from split_request_is_refused[OF w(3,4) line ok(1,3,2) h b(1) ok(4,5), of None "\<lambda>_. []"
      TimeStamp_default TimeStamp_default, unfolded w(5) append_Nil] b(2)
  show ?thesis unfolding first_def by blast
qed

end
