(* ===== verification/Base_ThreadPool.thy ===== *)
theory Base_ThreadPool
  imports Net_Prelude "HOL-Library.Multiset"
begin

section \<open>Threads and the thread pool (src/base/CurrentThread.*, Thread.*, ThreadPool.*)\<close>

text \<open>
  The state of a \<open>ThreadPool\<close>: the flag, the queue of tasks, and where each worker is in
  \<open>runInThread\<close>. A task is a number, \<open>None\<close> an empty \<open>std::function\<close>. A step is a critical
  section or the code between two of them; a wait on the condition variable may end at any
  time. The test \<open>while (running_)\<close> is not made under the mutex, so for C++ it races with \<open>stop\<close>; here it is one
  step that reads the old or the new value. \<open>worker_step\<close> holds the steps of the workers, \<open>client_step\<close> those of the threads that
  add tasks and stop the pool. \<open>added\<close>, \<open>taken\<close> and \<open>executed\<close> record the tasks that were given
  to \<open>addTask\<close>, removed from the queue, and called.
\<close>

subsection \<open>Thread identifiers and names\<close>

text \<open>\<open>t_cachedTid\<close>, local to a thread, is filled by the first call of \<open>tid\<close>.\<close>

definition cacheTid :: "int \<Rightarrow> int \<Rightarrow> int" where
  "cacheTid gettid t_cachedTid = (if t_cachedTid = 0 then gettid else t_cachedTid)"

definition current_tid :: "int \<Rightarrow> int \<Rightarrow> int \<times> int" where
  "current_tid gettid t_cachedTid =
     (let cached = (if t_cachedTid = 0 then cacheTid gettid t_cachedTid else t_cachedTid)
      in (cached, cached))"

record thread_object =
  started :: bool
  joined :: bool
  has_thread :: bool      \<comment> \<open>\<open>thread_\<close> is not null\<close>
  detached :: bool
  thread_tid :: int       \<comment> \<open>\<open>tid_\<close>\<close>
  thread_name :: "char list"

definition setDefaultName :: "int \<Rightarrow> char list \<Rightarrow> char list \<times> int" where
  "setDefaultName numCreated name =
     ((if name = [] then snprintf_keep 32 (''Thread'' @ decimal_int numCreated) else name),
      numCreated + 1)"

definition Thread :: "int \<Rightarrow> char list \<Rightarrow> thread_object \<times> int" where
  "Thread numCreated name =
     (let (n, num) = setDefaultName numCreated name
      in (\<lparr>started = False, joined = False, has_thread = False, detached = False, thread_tid = 0,
           thread_name = n\<rparr>, num))"

text \<open>\<open>start\<close> returns after the semaphore was posted, by when the new thread has set \<open>tid_\<close>.\<close>

definition Thread_start :: "int \<Rightarrow> thread_object \<Rightarrow> thread_object" where
  "Thread_start gettid t = t\<lparr>started := True, has_thread := True, thread_tid := fst (current_tid gettid 0)\<rparr>"

definition Thread_join :: "thread_object \<Rightarrow> thread_object result" where
  "Thread_join t = (if has_thread t then Inr (t\<lparr>joined := True\<rparr>) else Inl NullPointer)"

definition Thread_destroy :: "thread_object \<Rightarrow> thread_object result" where
  "Thread_destroy t =
     (if started t \<and> \<not> joined t
      then if has_thread t then Inr (t\<lparr>detached := True\<rparr>) else Inl NullPointer
      else Inr t)"

subsection \<open>The pool\<close>

datatype worker =
    WInit              \<comment> \<open>before the call of \<open>threadInitCallback_\<close>\<close>
  | WTest              \<comment> \<open>at \<open>while (running_)\<close>\<close>
  | WEnter             \<comment> \<open>before it locks the mutex\<close>
  | WWaiting           \<comment> \<open>in \<open>cond_.wait\<close>\<close>
  | WWoken             \<comment> \<open>woken, before it has the mutex again\<close>
  | WRunning "nat option"
  | WDone

record thread_pool =
  tp_running :: bool                  \<comment> \<open>\<open>running_\<close>\<close>
  tp_queue :: "nat option list"       \<comment> \<open>\<open>queue_\<close>\<close>
  workers :: "worker list"            \<comment> \<open>\<open>threads_\<close>\<close>
  added :: "nat option list"
  taken :: "nat option list"
  executed :: "nat list"

definition ThreadPool :: thread_pool where
  "ThreadPool = \<lparr>tp_running = False, tp_queue = [], workers = [], added = [], taken = [], executed = []\<rparr>"

definition tp_start :: "nat \<Rightarrow> thread_pool \<Rightarrow> thread_pool" where
  "tp_start threadSize p = p\<lparr>tp_running := True, workers := workers p @ replicate threadSize WInit\<rparr>"

definition queueSize :: "thread_pool \<Rightarrow> nat" where
  "queueSize p = length (tp_queue p)"

text \<open>Calling a \<open>std::function\<close> that the pool has been given.\<close>

definition call_task :: "nat option \<Rightarrow> thread_pool \<Rightarrow> thread_pool result" where
  "call_task t p = (case t of None \<Rightarrow> Inl BadFunctionCall
     | Some n \<Rightarrow> Inr (p\<lparr>executed := executed p @ [n]\<rparr>))"

text \<open>\<open>notify_one\<close> wakes worker \<open>k\<close>, if it is one that waits.\<close>

definition notify_one :: "nat \<Rightarrow> worker list \<Rightarrow> worker list" where
  "notify_one k ws = (if k < length ws \<and> ws ! k = WWaiting then ws[k := WWoken] else ws)"

definition notify_all :: "worker list \<Rightarrow> worker list" where
  "notify_all ws = map (\<lambda>w. if w = WWaiting then WWoken else w) ws"

definition addTask :: "nat \<Rightarrow> nat option \<Rightarrow> thread_pool \<Rightarrow> thread_pool result" where
  "addTask k task p =
     (if workers p = [] then call_task task p
      else Inr (p\<lparr>tp_queue := tp_queue p @ [task], added := added p @ [task],
                  workers := notify_one k (workers p)\<rparr>))"

definition tp_stop :: "thread_pool \<Rightarrow> thread_pool" where
  "tp_stop p = p\<lparr>tp_running := False, workers := notify_all (workers p)\<rparr>"

text \<open>The critical section of \<open>runInThread\<close>, from the lock to the wait, the return or the pop.\<close>

definition take_section :: "nat \<Rightarrow> thread_pool \<Rightarrow> thread_pool" where
  "take_section i p =
     (case tp_queue p of
        [] \<Rightarrow> p\<lparr>workers := (workers p)[i := if tp_running p then WWaiting else WDone]\<rparr>
      | t # ts \<Rightarrow> p\<lparr>tp_queue := ts, taken := taken p @ [t], workers := (workers p)[i := WRunning t]\<rparr>)"

definition run_task :: "nat \<Rightarrow> nat option \<Rightarrow> thread_pool \<Rightarrow> thread_pool" where
  "run_task i t p = p\<lparr>workers := (workers p)[i := WTest],
     executed := executed p @ (case t of None \<Rightarrow> [] | Some n \<Rightarrow> [n])\<rparr>"

definition at :: "nat \<Rightarrow> thread_pool \<Rightarrow> worker \<Rightarrow> bool" where
  "at i p w \<longleftrightarrow> i < length (workers p) \<and> workers p ! i = w"

definition move :: "nat \<Rightarrow> worker \<Rightarrow> thread_pool \<Rightarrow> thread_pool" where
  "move i w p = p\<lparr>workers := (workers p)[i := w]\<rparr>"

inductive worker_step :: "thread_pool \<Rightarrow> thread_pool \<Rightarrow> bool" where
  w_init: "at i p WInit \<Longrightarrow> worker_step p (move i WTest p)"
| w_test: "at i p WTest \<Longrightarrow> worker_step p (move i (if tp_running p then WEnter else WDone) p)"
| w_section: "at i p WEnter \<or> at i p WWoken \<Longrightarrow> worker_step p (take_section i p)"
| w_run: "at i p (WRunning t) \<Longrightarrow> worker_step p (run_task i t p)"

inductive client_step :: "thread_pool \<Rightarrow> thread_pool \<Rightarrow> bool" where
  wake: "at i p WWaiting \<Longrightarrow> client_step p (move i WWoken p)"
| add: "workers p \<noteq> [] \<Longrightarrow> at k p WWaiting \<or> WWaiting \<notin> set (workers p) \<Longrightarrow>
    addTask k t p = Inr q \<Longrightarrow> client_step p q"
| stop: "client_step p (tp_stop p)"

inductive pool_reachable :: "nat \<Rightarrow> thread_pool \<Rightarrow> bool" for n where
  start: "0 < n \<Longrightarrow> pool_reachable n (tp_start n ThreadPool)"
| worker: "pool_reachable n p \<Longrightarrow> worker_step p q \<Longrightarrow> pool_reachable n q"
| client: "pool_reachable n p \<Longrightarrow> client_step p q \<Longrightarrow> pool_reachable n q"

text \<open>The destructor stops a running pool and joins its threads; it returns when all are done.\<close>

definition ThreadPool_destroy :: "thread_pool \<Rightarrow> thread_pool" where
  "ThreadPool_destroy p = (if tp_running p then tp_stop p else p)"

definition joinable :: "thread_pool \<Rightarrow> bool" where
  "joinable p \<longleftrightarrow> (\<forall>w \<in> set (workers p). w = WDone)"

subsection \<open>Invariant\<close>

fun task_of :: "worker \<Rightarrow> nat option list" where
  "task_of (WRunning t) = [t]"
| "task_of _ = []"

definition in_hand :: "thread_pool \<Rightarrow> nat option multiset" where
  "in_hand p = mset (concat (map task_of (workers p)))"

definition pool_inv :: "thread_pool \<Rightarrow> bool" where
  "pool_inv p \<longleftrightarrow> workers p \<noteq> [] \<and> added p = taken p @ tp_queue p
     \<and> filter_mset (\<lambda>t. t \<noteq> None) (mset (taken p))
         = filter_mset (\<lambda>t. t \<noteq> None) (in_hand p) + image_mset Some (mset (executed p))
     \<and> (tp_running p \<longrightarrow> WDone \<notin> set (workers p)
          \<and> (tp_queue p \<noteq> [] \<longrightarrow> (\<exists>w \<in> set (workers p). w \<noteq> WWaiting)))
     \<and> (\<not> tp_running p \<longrightarrow> WWaiting \<notin> set (workers p))"

lemma in_hand_update:
  assumes "i < length ws"
  shows "mset (concat (map task_of (ws[i := w]))) + mset (task_of (ws ! i))
    = mset (concat (map task_of ws)) + mset (task_of w)"
  using assms
proof (induction ws arbitrary: i)
  case (Cons v ws)
  then show ?case by (cases i) (simp_all add: ac_simps)
qed simp

lemma set_update_other: "i < length ws \<Longrightarrow> v \<in> set ws \<Longrightarrow> v \<noteq> ws ! i \<Longrightarrow> v \<in> set (ws[i := w])"
  by (metis in_set_conv_nth length_list_update nth_list_update_neq)

lemma notify_idle: "task_of w = [] \<Longrightarrow> i < length ws \<Longrightarrow> task_of (ws ! i) = [] \<Longrightarrow>
  mset (concat (map task_of (ws[i := w]))) = mset (concat (map task_of ws))"
  using in_hand_update[of i ws w] by simp

lemma notify_all_idle: "map task_of (notify_all ws) = map task_of ws"
  by (simp add: notify_all_def)

text \<open>A move between two places where a worker holds no task.\<close>

lemma pool_inv_move:
  assumes "pool_inv p" and "at i p v" and "task_of v = []" "task_of w = []" and "w \<noteq> WWaiting"
    and "tp_running p \<longrightarrow> w \<noteq> WDone"
  shows "pool_inv (move i w p)"
proof -
  have i: "i < length (workers p)" "workers p ! i = v" using assms(2) by (simp_all add: at_def)
  have w: "w \<in> set ((workers p)[i := w])" using i by (simp add: set_update_memI)
  have sub: "set ((workers p)[i := w]) \<subseteq> insert w (set (workers p))" by (rule set_update_subset_insert)
  have "mset (concat (map task_of ((workers p)[i := w]))) = mset (concat (map task_of (workers p)))"
    using assms(3,4) i by (intro notify_idle) simp_all
  then have "in_hand (move i w p) = in_hand p" by (simp add: in_hand_def move_def)
  then show ?thesis using assms(1,5,6) w sub i(1)
    by (auto simp: pool_inv_def move_def)
qed

lemma pool_inv_section:
  assumes inv: "pool_inv p" and a: "at i p WEnter \<or> at i p WWoken"
  shows "pool_inv (take_section i p)"
proof -
  from a obtain v where i: "i < length (workers p)" "workers p ! i = v" "task_of v = []"
    by (auto simp: at_def)
  show ?thesis
  proof (cases "tp_queue p")
    case Nil
    let ?w = "if tp_running p then WWaiting else WDone"
    have sub: "set ((workers p)[i := ?w]) \<subseteq> insert ?w (set (workers p))"
      by (rule set_update_subset_insert)
    have "mset (concat (map task_of ((workers p)[i := ?w]))) = mset (concat (map task_of (workers p)))"
      using i by (intro notify_idle) simp_all
    then have "in_hand (take_section i p) = in_hand p" by (simp add: in_hand_def take_section_def Nil)
    then show ?thesis using inv sub Nil i(1)
      by (auto simp: pool_inv_def take_section_def split: if_splits)
  next
    case (Cons t ts)
    have w: "WRunning t \<in> set ((workers p)[i := WRunning t])" using i by (simp add: set_update_memI)
    have sub: "set ((workers p)[i := WRunning t]) \<subseteq> insert (WRunning t) (set (workers p))"
      by (rule set_update_subset_insert)
    have "in_hand (take_section i p) = in_hand p + {#t#}"
      using in_hand_update[OF i(1), of "WRunning t"] i(2,3)
      by (simp add: in_hand_def take_section_def Cons)
    then show ?thesis using inv sub w Cons i(1)
      by (auto simp: pool_inv_def take_section_def)
  qed
qed

lemma pool_inv_run:
  assumes inv: "pool_inv p" and a: "at i p (WRunning t)"
  shows "pool_inv (run_task i t p)"
proof -
  have i: "i < length (workers p)" "workers p ! i = WRunning t" using a by (simp_all add: at_def)
  have w: "WTest \<in> set ((workers p)[i := WTest])" using i by (simp add: set_update_memI)
  have sub: "set ((workers p)[i := WTest]) \<subseteq> insert WTest (set (workers p))"
    by (rule set_update_subset_insert)
  have "in_hand p = in_hand (run_task i t p) + {#t#}"
    using in_hand_update[OF i(1), of WTest] i(2) by (simp add: in_hand_def run_task_def)
  then have "filter_mset (\<lambda>t. t \<noteq> None) (in_hand p)
      = filter_mset (\<lambda>t. t \<noteq> None) (in_hand (run_task i t p)) + (if t = None then {#} else {#t#})"
    by simp
  then show ?thesis using inv sub w i(1)
    by (cases t) (auto simp: pool_inv_def run_task_def)
qed

lemma pool_inv_worker: "worker_step p q \<Longrightarrow> pool_inv p \<Longrightarrow> pool_inv q"
proof (induction rule: worker_step.induct)
  case (w_init i p)
  show ?case by (rule pool_inv_move[OF w_init(2,1)]) simp_all
next
  case (w_test i p)
  show ?case by (rule pool_inv_move[OF w_test(2,1)]) simp_all
next
  case (w_section i p)
  then show ?case by (intro pool_inv_section)
next
  case (w_run i p t)
  then show ?case by (intro pool_inv_run)
qed

lemma pool_inv_client: "client_step p q \<Longrightarrow> pool_inv p \<Longrightarrow> pool_inv q"
proof (induction rule: client_step.induct)
  case (wake i p)
  show ?case by (rule pool_inv_move[OF wake(2,1)]) simp_all
next
  case (add p k t q)
  then have q: "q = p\<lparr>tp_queue := tp_queue p @ [t], added := added p @ [t],
      workers := notify_one k (workers p)\<rparr>" by (simp add: addTask_def)
  show ?case
  proof (cases "at k p WWaiting")
    case True
    then have k: "k < length (workers p)" "workers p ! k = WWaiting" by (simp_all add: at_def)
    have w: "WWoken \<in> set ((workers p)[k := WWoken])" using k by (simp add: set_update_memI)
    have sub: "set ((workers p)[k := WWoken]) \<subseteq> insert WWoken (set (workers p))"
      by (rule set_update_subset_insert)
    have "in_hand q = in_hand p"
      using notify_idle[of WWoken k "workers p"] k by (simp add: q in_hand_def notify_one_def)
    then show ?thesis using add.prems w sub k
      by (auto simp: pool_inv_def q notify_one_def)
  next
    case False
    then have none: "WWaiting \<notin> set (workers p)" using add.hyps(2) by simp
    then have "notify_one k (workers p) = workers p"
      by (auto simp: notify_one_def dest: nth_mem)
    then show ?thesis using add.prems none add.hyps(1)
      by (auto simp: pool_inv_def q in_hand_def neq_Nil_conv)
  qed
next
  case (stop p)
  have "in_hand (tp_stop p) = in_hand p"
    by (simp add: in_hand_def tp_stop_def notify_all_idle)
  moreover have "WWaiting \<notin> set (notify_all (workers p))"
    by (auto simp: notify_all_def)
  ultimately show ?case using stop by (auto simp: pool_inv_def tp_stop_def notify_all_def)
qed

lemma pool_reachable_inv: "pool_reachable n p \<Longrightarrow> pool_inv p"
proof (induction rule: pool_reachable.induct)
  case start
  then show ?case
    by (auto simp: pool_inv_def tp_start_def ThreadPool_def in_hand_def)
qed (blast intro: pool_inv_worker pool_inv_client)+

lemma worker_can_step:
  assumes "w \<in> set (workers p)" and "w \<noteq> WWaiting" and "w \<noteq> WDone"
  shows "\<exists>q. worker_step p q"
proof -
  from assms(1) obtain i where "at i p w" by (auto simp: at_def in_set_conv_nth)
  then show ?thesis using assms(2,3) by (cases w) (blast intro: worker_step.intros)+
qed

subsection \<open>The end of a stopped pool\<close>

fun worker_rank :: "worker \<Rightarrow> nat" where
  "worker_rank WInit = 2"
| "worker_rank WTest = 1"
| "worker_rank WEnter = 3"
| "worker_rank WWaiting = 4"
| "worker_rank WWoken = 3"
| "worker_rank (WRunning t) = 2"
| "worker_rank WDone = 0"

definition pool_rank :: "thread_pool \<Rightarrow> nat" where
  "pool_rank p = sum_list (map worker_rank (workers p))"

lemma rank_update:
  assumes "i < length ws" and "worker_rank w < worker_rank (ws ! i)"
  shows "sum_list (map worker_rank (ws[i := w])) < sum_list (map worker_rank ws)"
  using assms
proof (induction ws arbitrary: i)
  case (Cons v ws)
  then show ?case by (cases i) simp_all
qed simp

lemma stopped_step:
  assumes "worker_step p q" and "\<not> tp_running p"
  shows "\<not> tp_running q \<and> pool_rank q < pool_rank p"
  using assms
proof (induction rule: worker_step.induct)
  case (w_section i p)
  then have i: "i < length (workers p)" "worker_rank (workers p ! i) = 3" by (auto simp: at_def)
  show ?case
    using w_section rank_update[OF i(1)] i(2)
    by (auto simp: take_section_def pool_rank_def split: list.splits)
qed (use rank_update in \<open>auto simp: at_def move_def run_task_def pool_rank_def\<close>)

lemma stopped_steps:
  assumes "(worker_step ^^ k) p q" and "\<not> tp_running p"
  shows "\<not> tp_running q \<and> k + pool_rank q \<le> pool_rank p"
  using assms
proof (induction k arbitrary: q)
  case (Suc k)
  then obtain r where "(worker_step ^^ k) p r" "worker_step r q" by auto
  with Suc.IH[of r] Suc.prems(2) stopped_step[of r q] show ?case by fastforce
qed simp

lemma rank_bound: "WWaiting \<notin> set ws \<Longrightarrow> sum_list (map worker_rank ws) \<le> 3 * length ws"
proof (induction ws)
  case (Cons w ws)
  then show ?case by (cases w) simp_all
qed simp

lemma stopped_reaches_end:
  assumes "pool_inv p" and "\<not> tp_running p"
  shows "\<exists>q. worker_step\<^sup>*\<^sup>* p q \<and> joinable q"
  using assms
proof (induction "pool_rank p" arbitrary: p rule: less_induct)
  case less
  show ?case
  proof (cases "joinable p")
    case False
    then obtain w where "w \<in> set (workers p)" "w \<noteq> WDone" by (auto simp: joinable_def)
    then obtain q where q: "worker_step p q"
      using worker_can_step less.prems by (metis pool_inv_def)
    then obtain r where "worker_step\<^sup>*\<^sup>* q r" "joinable r"
      using less.hyps[of q] stopped_step[OF q less.prems(2)] pool_inv_worker[OF q less.prems(1)] by blast
    then show ?thesis using q by (meson converse_rtranclp_into_rtranclp)
  qed blast
qed

subsection \<open>Properties\<close>

text \<open>In a pool of one worker the calls come in the order of the queue.\<close>

definition one_worker_inv :: "thread_pool \<Rightarrow> bool" where
  "one_worker_inv p \<longleftrightarrow> length (workers p) = 1
     \<and> filter (\<lambda>t. t \<noteq> None) (taken p)
         = map Some (executed p) @ filter (\<lambda>t. t \<noteq> None) (task_of (workers p ! 0))"

lemma one_worker_step:
  assumes "worker_step p q" and "one_worker_inv p"
  shows "one_worker_inv q"
  using assms
proof (induction rule: worker_step.induct)
  case (w_section i p)
  then have i: "i = 0" "task_of (workers p ! 0) = []" by (auto simp: at_def one_worker_inv_def)
  then show ?case using w_section by (cases "tp_queue p") (auto simp: one_worker_inv_def take_section_def)
next
  case (w_run i p t)
  then show ?case by (cases t) (auto simp: one_worker_inv_def run_task_def at_def)
qed (auto simp: one_worker_inv_def move_def at_def)

lemma one_worker_client:
  assumes "client_step p q" and "one_worker_inv p"
  shows "one_worker_inv q"
  using assms
proof (induction rule: client_step.induct)
  case (add p k t q)
  then have q: "q = p\<lparr>tp_queue := tp_queue p @ [t], added := added p @ [t], workers := notify_one k (workers p)\<rparr>"
    by (simp add: addTask_def)
  have "task_of (notify_one k (workers p) ! 0) = task_of (workers p ! 0)"
    using add.prems by (cases "k = 0") (auto simp: notify_one_def one_worker_inv_def)
  then show ?case using add.prems by (simp add: q one_worker_inv_def) (simp add: notify_one_def)
next
  case (stop p)
  then have "task_of (notify_all (workers p) ! 0) = task_of (workers p ! 0)"
    by (auto simp: notify_all_def one_worker_inv_def)
  then show ?case using stop by (simp add: one_worker_inv_def tp_stop_def) (simp add: notify_all_def)
qed (auto simp: one_worker_inv_def move_def at_def)

lemma one_worker_reachable: "pool_reachable n p \<Longrightarrow> n = 1 \<Longrightarrow> one_worker_inv p"
proof (induction rule: pool_reachable.induct)
  case start
  then show ?case by (simp add: one_worker_inv_def tp_start_def ThreadPool_def)
qed (blast intro: one_worker_step one_worker_client)+

text \<open>C24: a pool takes its tasks in the order in which they were added and calls every one that it takes
  once. In every interleaving of the workers with the threads that add tasks and stop the pool, the tasks
  that were added are those that were taken followed by those in the queue, in order; and the tasks that
  were taken and can be called (an empty \<open>std::function\<close> is skipped) are those that have been called
  and those that a worker has in hand, each as often as it was taken. With several workers the calls
  may come in another order; with one worker they come in the order of the queue.\<close>

theorem tasks_are_called_once:
  assumes "pool_reachable n p"
  shows "added p = taken p @ tp_queue p
    \<and> filter_mset (\<lambda>t. t \<noteq> None) (mset (taken p))
        = filter_mset (\<lambda>t. t \<noteq> None) (in_hand p) + image_mset Some (mset (executed p))
    \<and> (n = 1 \<longrightarrow> filter (\<lambda>t. t \<noteq> None) (taken p)
         = map Some (executed p) @ filter (\<lambda>t. t \<noteq> None) (concat (map task_of (workers p))))"
proof -
  have "concat (map task_of (workers p)) = task_of (workers p ! 0)" if "one_worker_inv p"
    using that by (cases "workers p") (auto simp: one_worker_inv_def)
  then show ?thesis using pool_reachable_inv[OF assms] one_worker_reachable[OF assms]
    by (auto simp: pool_inv_def one_worker_inv_def)
qed

text \<open>One worker in a pool, after one task was added.\<close>

definition one_task :: thread_pool where
  "one_task = (tp_start 1 ThreadPool)\<lparr>tp_queue := [Some 7], added := [Some 7]\<rparr>"

lemma one_task_reachable: "pool_reachable 1 one_task"
proof -
  let ?p = "tp_start 1 ThreadPool"
  have "workers ?p = [WInit]" by (simp add: tp_start_def ThreadPool_def)
  then have "addTask 0 (Some 7) ?p = Inr one_task"
    by (simp add: addTask_def one_task_def notify_one_def tp_start_def ThreadPool_def)
  with \<open>workers ?p = [WInit]\<close> have "client_step ?p one_task"
    by (intro client_step.add[of ?p 0]) simp_all
  then show ?thesis by (blast intro: pool_reachable.intros)
qed

theorem tasks_are_called_once_witness:
  "added one_task = taken one_task @ [Some 7] \<and> taken one_task = []"
  using tasks_are_called_once[OF one_task_reachable]
  by (simp add: one_task_def tp_start_def ThreadPool_def)

text \<open>C36: no lost wakeup in the pool. While it runs and a task is in the queue, not all workers
  are waiting for a notification: some worker can take a step.\<close>

theorem pool_never_stalls:
  assumes "pool_reachable n p" and "tp_running p" and "tp_queue p \<noteq> []"
  shows "\<exists>q. worker_step p q"
proof -
  from pool_reachable_inv[OF assms(1)] assms(2,3) obtain w
    where "w \<in> set (workers p)" "w \<noteq> WWaiting" "WDone \<notin> set (workers p)"
    by (auto simp: pool_inv_def)
  then show ?thesis by (intro worker_can_step) auto
qed

theorem pool_never_stalls_witness: "\<exists>q. worker_step one_task q"
  by (rule pool_never_stalls[OF one_task_reachable])
    (simp_all add: one_task_def tp_start_def ThreadPool_def)

text \<open>C37: the destructor of a pool returns. From any state, once it has stopped the pool (which it skips when
  the pool has been stopped before), the workers can take no more than three steps each (with tasks that
  return), and they can all come to their end, so that every \<open>join\<close> returns. When they have, no worker
  takes a step any more, and the tasks that have been called are those that were taken: the tasks that
  are still in the queue then have not been called and never are.\<close>

theorem stopped_pool_ends:
  assumes "pool_reachable n p"
  shows "(\<exists>q. worker_step\<^sup>*\<^sup>* (ThreadPool_destroy p) q \<and> joinable q)
    \<and> (\<forall>k q. (worker_step ^^ k) (ThreadPool_destroy p) q \<longrightarrow> k \<le> 3 * length (workers p))
    \<and> (\<forall>q. worker_step\<^sup>*\<^sup>* (ThreadPool_destroy p) q \<and> joinable q \<longrightarrow>
         (\<forall>r. \<not> worker_step q r) \<and> added q = taken q @ tp_queue q
         \<and> filter_mset (\<lambda>t. t \<noteq> None) (mset (taken q)) = image_mset Some (mset (executed q)))"
proof -
  let ?d = "ThreadPool_destroy p"
  have inv: "pool_inv ?d"
    using pool_reachable_inv[OF assms] pool_inv_client[OF client_step.stop] by (simp add: ThreadPool_destroy_def)
  have off: "\<not> tp_running ?d" by (simp add: ThreadPool_destroy_def tp_stop_def)
  have len: "length (workers ?d) = length (workers p)"
    by (simp add: ThreadPool_destroy_def tp_stop_def notify_all_def)
  have "pool_rank ?d \<le> 3 * length (workers p)"
    using rank_bound[of "workers ?d"] inv off by (simp add: pool_inv_def pool_rank_def len)
  moreover have "(\<forall>r. \<not> worker_step q r) \<and> added q = taken q @ tp_queue q
         \<and> filter_mset (\<lambda>t. t \<noteq> None) (mset (taken q)) = image_mset Some (mset (executed q))"
    if q: "worker_step\<^sup>*\<^sup>* ?d q" "joinable q" for q
  proof -
    have "pool_inv q" using q(1) by (induction rule: rtranclp_induct) (use inv pool_inv_worker in blast)+
    moreover have ended: "workers q ! i = WDone" if "i < length (workers q)" for i
      using q(2) that by (simp add: joinable_def)
    then have "\<not> worker_step q r" for r by (auto simp: at_def elim!: worker_step.cases)
    moreover have "map task_of (workers q) = map (\<lambda>_. []) (workers q)"
      using q(2) by (auto simp: joinable_def)
    then have "in_hand q = {#}" by (simp add: in_hand_def)
    ultimately show ?thesis by (simp add: pool_inv_def)
  qed
  ultimately show ?thesis
    using stopped_reaches_end[OF inv off] stopped_steps[OF _ off] by fastforce
qed

theorem stopped_pool_ends_witness:
  "\<exists>q. worker_step\<^sup>*\<^sup>* (ThreadPool_destroy one_task) q \<and> joinable q \<and> (\<forall>r. \<not> worker_step q r)"
  using stopped_pool_ends[OF one_task_reachable] by blast

text \<open>A stopped pool may leave tasks uncalled: a worker that comes to \<open>while (running_)\<close>
  after \<open>stop\<close> does not look at the queue.\<close>

theorem stopped_pool_drops_tasks:
  "\<exists>p. pool_reachable 1 p \<and> joinable p \<and> tp_queue p = [Some 7] \<and> executed p = []"
proof -
  let ?s = "tp_stop one_task"
  have w: "workers one_task = [WInit]" by (simp add: one_task_def tp_start_def ThreadPool_def)
  have "pool_reachable 1 ?s" using one_task_reachable by (blast intro: pool_reachable.client client_step.stop)
  moreover have "worker_step ?s (move 0 WTest ?s)"
    by (rule worker_step.w_init) (simp add: at_def tp_stop_def w notify_all_def)
  moreover have "worker_step (move 0 WTest ?s) (move 0 WDone (move 0 WTest ?s))"
    using worker_step.w_test[of 0 "move 0 WTest ?s"]
    by (simp add: at_def move_def tp_stop_def w notify_all_def)
  ultimately have "pool_reachable 1 (move 0 WDone (move 0 WTest ?s))"
    by (blast intro: pool_reachable.worker)
  moreover have "joinable (move 0 WDone (move 0 WTest ?s))"
    by (simp add: joinable_def move_def tp_stop_def w notify_all_def)
  ultimately show ?thesis
    by (intro exI[of _ "move 0 WDone (move 0 WTest ?s)"])
      (simp add: move_def tp_stop_def one_task_def tp_start_def ThreadPool_def)
qed

end
