(* ===== verification/Mysql_Pool.thy ===== *)
theory Mysql_Pool
  imports Net_Prelude "HOL-Library.Signed_Division" "HOL-Library.Multiset"
begin

section \<open>The MySQL connection and its pool (src/mysql/MysqlConn.*, ConnectionPool.*)\<close>

text \<open>
  The C API of MySQL is not part of the repository: it is the record \<open>mysql_api\<close> of functions
  on the state \<open>'d\<close> of the client library, an argument of the definitions that use it; the
  success of a call is its result 0, or a pointer that is not null. A row is the list of its
  fields, \<open>None\<close> for an SQL null. The pool is a step relation: its critical sections are the
  functions below; \<open>lent\<close> holds the connections that clients have, \<open>made\<close> counts the
  connections ever opened and numbers the next one.
\<close>

record ('d, 'h, 'r) mysql_api =
  mysql_init :: "'d \<Rightarrow> 'h option \<times> 'd"
  mysql_real_connect ::
    "'h \<Rightarrow> char list \<Rightarrow> char list \<Rightarrow> char list \<Rightarrow> char list \<Rightarrow> nat \<Rightarrow> 'd \<Rightarrow> bool \<times> 'd"
  mysql_set_character_set :: "'h \<Rightarrow> char list \<Rightarrow> 'd \<Rightarrow> 'd"
  mysql_query :: "'h \<Rightarrow> char list \<Rightarrow> 'd \<Rightarrow> bool \<times> 'd"
  mysql_store_result :: "'h \<Rightarrow> 'd \<Rightarrow> 'r option \<times> 'd"
  mysql_fetch_row :: "'r \<Rightarrow> 'd \<Rightarrow> char list option list option \<times> 'd"
  mysql_num_fields :: "'r \<Rightarrow> 'd \<Rightarrow> nat"
  mysql_free_result :: "'r \<Rightarrow> 'd \<Rightarrow> 'd"
  mysql_autocommit_off :: "'h \<Rightarrow> 'd \<Rightarrow> bool \<times> 'd"
  mysql_commit :: "'h \<Rightarrow> 'd \<Rightarrow> bool \<times> 'd"
  mysql_rollback :: "'h \<Rightarrow> 'd \<Rightarrow> bool \<times> 'd"
  mysql_close :: "'h \<Rightarrow> 'd \<Rightarrow> 'd"

record ('h, 'r) mysql_conn =
  mc_conn :: "'h option"                            \<comment> \<open>\<open>conn_\<close>\<close>
  mc_res :: "'r option"                             \<comment> \<open>\<open>res_\<close>\<close>
  mc_row :: "char list option list option"          \<comment> \<open>\<open>row_\<close>\<close>
  mc_lastActive :: int                              \<comment> \<open>\<open>lastActiveTime_\<close>, in nanoseconds\<close>

definition MysqlConn ::
    "('d, 'h, 'r) mysql_api \<Rightarrow> 'd \<Rightarrow> (('h, 'r) mysql_conn \<times> 'd) result" where
  "MysqlConn api d =
     (let (h, d1) = mysql_init api d
      in case h of None \<Rightarrow> Inl NullPointer
         | Some c \<Rightarrow> Inr (\<lparr>mc_conn = Some c, mc_res = None, mc_row = None, mc_lastActive = 0\<rparr>,
                          mysql_set_character_set api c ''utf8'' d1))"

definition freeResult ::
    "('d, 'h, 'r) mysql_api \<Rightarrow> ('h, 'r) mysql_conn \<Rightarrow> 'd \<Rightarrow> ('h, 'r) mysql_conn \<times> 'd" where
  "freeResult api c d =
     (case mc_res c of None \<Rightarrow> (c, d) | Some r \<Rightarrow> (c\<lparr>mc_res := None\<rparr>, mysql_free_result api r d))"

definition MysqlConn_destroy :: "('d, 'h, 'r) mysql_api \<Rightarrow> ('h, 'r) mysql_conn \<Rightarrow> 'd \<Rightarrow> 'd" where
  "MysqlConn_destroy api c d =
     (let d1 = (case mc_conn c of None \<Rightarrow> d | Some h \<Rightarrow> mysql_close api h d)
      in snd (freeResult api c d1))"

definition mysql_connect ::
    "('d, 'h, 'r) mysql_api \<Rightarrow> char list \<Rightarrow> char list \<Rightarrow> char list \<Rightarrow> char list \<Rightarrow> nat
       \<Rightarrow> ('h, 'r) mysql_conn \<Rightarrow> 'd \<Rightarrow> bool \<times> 'd" where
  "mysql_connect api user passwd dbName ip port c d =
     (case mc_conn c of None \<Rightarrow> (False, d)
      | Some h \<Rightarrow> mysql_real_connect api h ip user passwd dbName port d)"

definition mysql_update ::
    "('d, 'h, 'r) mysql_api \<Rightarrow> char list \<Rightarrow> ('h, 'r) mysql_conn \<Rightarrow> 'd \<Rightarrow> bool \<times> 'd" where
  "mysql_update api sql c d =
     (case mc_conn c of None \<Rightarrow> (False, d) | Some h \<Rightarrow> mysql_query api h sql d)"

text \<open>\<open>query\<close> stores a result and does not send its argument.\<close>

definition mysql_select ::
    "('d, 'h, 'r) mysql_api \<Rightarrow> char list \<Rightarrow> ('h, 'r) mysql_conn \<Rightarrow> 'd
       \<Rightarrow> bool \<times> ('h, 'r) mysql_conn \<times> 'd" where
  "mysql_select api sql c d =
     (case mc_conn c of None \<Rightarrow> (False, c, d)
      | Some h \<Rightarrow>
          let (c1, d1) = freeResult api c d;
              (r, d2) = mysql_store_result api h d1
          in (True, c1\<lparr>mc_res := r\<rparr>, d2))"

definition mysql_next ::
    "('d, 'h, 'r) mysql_api \<Rightarrow> ('h, 'r) mysql_conn \<Rightarrow> 'd \<Rightarrow> bool \<times> ('h, 'r) mysql_conn \<times> 'd" where
  "mysql_next api c d =
     (case mc_res c of None \<Rightarrow> (False, c, d)
      | Some r \<Rightarrow>
          let (row, d1) = mysql_fetch_row api r d
          in (row \<noteq> None, c\<lparr>mc_row := row\<rparr>, d1))"

text \<open>The fields of a row have the lengths that \<open>mysql_fetch_lengths\<close> returns, null has length 0.\<close>

definition mysql_value ::
    "('d, 'h, 'r) mysql_api \<Rightarrow> int \<Rightarrow> ('h, 'r) mysql_conn \<Rightarrow> 'd \<Rightarrow> char list result" where
  "mysql_value api k c d =
     (case mc_res c of None \<Rightarrow> Inl NullPointer
      | Some r \<Rightarrow>
          if k < 0 \<or> k \<ge> int (mysql_num_fields api r d) then Inr []
          else case mc_row c of None \<Rightarrow> Inl NullPointer
               | Some row \<Rightarrow> if nat k < length row
                    then Inr (case row ! nat k of None \<Rightarrow> [] | Some s \<Rightarrow> s) else Inl OutOfBounds)"

definition with_handle ::
    "('h \<Rightarrow> 'd \<Rightarrow> bool \<times> 'd) \<Rightarrow> ('h, 'r) mysql_conn \<Rightarrow> 'd \<Rightarrow> (bool \<times> 'd) result" where
  "with_handle f c d = (case mc_conn c of None \<Rightarrow> Inl NullPointer | Some h \<Rightarrow> Inr (f h d))"

definition mysql_transaction where
  "mysql_transaction api c d = with_handle (mysql_autocommit_off api) c d"

definition mysql_do_commit where
  "mysql_do_commit api c d = with_handle (mysql_commit api) c d"

definition mysql_do_rollback where
  "mysql_do_rollback api c d = with_handle (mysql_rollback api) c d"

definition refreshAliveTime :: "int \<Rightarrow> ('h, 'r) mysql_conn \<Rightarrow> ('h, 'r) mysql_conn" where
  "refreshAliveTime now c = c\<lparr>mc_lastActive := now\<rparr>"

definition alive_ms :: "int \<Rightarrow> int \<Rightarrow> int" where
  "alive_ms now before = (now - before) sdiv 1000000"

definition getAliveTime :: "int \<Rightarrow> ('h, 'r) mysql_conn \<Rightarrow> int" where
  "getAliveTime now c = alive_ms now (mc_lastActive c)"

subsection \<open>The pool\<close>

text \<open>A connection of the pool is its number and the time of its last use, in nanoseconds.\<close>

record conn_pool =
  minSize :: int
  maxSize :: int
  currentSize :: int
  maxIdleTime :: int
  connQueue :: "(nat \<times> int) list"
  lent :: "nat list"
  made :: nat
  clock :: int

definition addConnection :: "conn_pool \<Rightarrow> conn_pool" where
  "addConnection p = p\<lparr>connQueue := connQueue p @ [(made p, clock p)], made := Suc (made p),
     currentSize := currentSize p + 1\<rparr>"

definition count_one :: "conn_pool \<Rightarrow> conn_pool" where
  "count_one p = p\<lparr>currentSize := currentSize p + 1\<rparr>"

text \<open>The pool is a static object: \<open>currentSize_\<close> starts at 0.\<close>

definition ConnectionPool :: "int \<Rightarrow> int \<Rightarrow> int \<Rightarrow> int \<Rightarrow> conn_pool" where
  "ConnectionPool mn mx idle now =
     ((\<lambda>p. count_one (addConnection p)) ^^ nat mn)
       \<lparr>minSize = mn, maxSize = mx, currentSize = 0, maxIdleTime = idle, connQueue = [], lent = [],
        made = 0, clock = now\<rparr>"

text \<open>One turn of \<open>produceConnection\<close>, once the queue is empty.\<close>

definition produce :: "conn_pool \<Rightarrow> conn_pool" where
  "produce p = (if currentSize p < maxSize p then count_one (addConnection p) else p)"

text \<open>A negative \<open>minSize_\<close> is a huge number in the comparison with a \<open>size_t\<close>.\<close>

fun recycle_loop :: "int \<Rightarrow> int \<Rightarrow> int \<Rightarrow> (nat \<times> int) list \<Rightarrow> int \<Rightarrow> (nat \<times> int) list \<times> int" where
  "recycle_loop mn idle now [] n = ([], n)"
| "recycle_loop mn idle now (c # q) n =
     (if 0 \<le> mn \<and> mn < int (length (c # q)) \<and> alive_ms now (snd c) \<ge> idle
      then recycle_loop mn idle now q (n - 1)
      else (c # q, n))"

definition recycle_section :: "conn_pool \<Rightarrow> conn_pool" where
  "recycle_section p =
     (let (q, n) = recycle_loop (minSize p) (maxIdleTime p) (clock p) (connQueue p) (currentSize p)
      in p\<lparr>connQueue := q, currentSize := n\<rparr>)"

text \<open>\<open>None\<close>: the queue is empty and the client goes on waiting, time-out or not.\<close>

definition getConnection :: "conn_pool \<Rightarrow> (nat \<times> conn_pool) option" where
  "getConnection p =
     (case connQueue p of [] \<Rightarrow> None
      | c # q \<Rightarrow> Some (fst c, p\<lparr>connQueue := q, lent := fst c # lent p\<rparr>))"

text \<open>The deleter of the pointer that a client has.\<close>

definition give_back :: "nat \<Rightarrow> conn_pool \<Rightarrow> conn_pool" where
  "give_back i p = p\<lparr>connQueue := connQueue p @ [(i, clock p)], lent := remove1 i (lent p)\<rparr>"

fun empty_queue :: "(nat \<times> int) list \<Rightarrow> int \<Rightarrow> int" where
  "empty_queue [] n = n"
| "empty_queue (c # q) n = empty_queue q (n - 1)"

definition ConnectionPool_destroy :: "conn_pool \<Rightarrow> conn_pool" where
  "ConnectionPool_destroy p =
     p\<lparr>connQueue := [], currentSize := empty_queue (connQueue p) (currentSize p)\<rparr>"

inductive cp_step :: "conn_pool \<Rightarrow> conn_pool \<Rightarrow> bool" where
  cp_produce: "connQueue p = [] \<Longrightarrow> cp_step p (produce p)"
| cp_recycle: "cp_step p (recycle_section p)"
| cp_get: "getConnection p = Some (i, q) \<Longrightarrow> cp_step p q"
| cp_give_back: "i \<in> set (lent p) \<Longrightarrow> cp_step p (give_back i p)"
| cp_time: "clock p \<le> t \<Longrightarrow> cp_step p (p\<lparr>clock := t\<rparr>)"

inductive cp_reachable :: "conn_pool \<Rightarrow> conn_pool \<Rightarrow> bool" for p0 where
  cp_start: "cp_reachable p0 p0"
| cp_next: "cp_reachable p0 p \<Longrightarrow> cp_step p q \<Longrightarrow> cp_reachable p0 q"

subsection \<open>Invariant\<close>

definition ids :: "conn_pool \<Rightarrow> nat list" where
  "ids p = map fst (connQueue p) @ lent p"

definition live :: "conn_pool \<Rightarrow> int" where
  "live p = int (length (connQueue p) + length (lent p))"

definition cp_inv :: "int \<Rightarrow> int \<Rightarrow> conn_pool \<Rightarrow> bool" where
  "cp_inv mn mx p \<longleftrightarrow> minSize p = mn \<and> maxSize p = mx \<and> distinct (ids p)
     \<and> (\<forall>i \<in> set (ids p). i < made p)
     \<and> currentSize p = live p + int (made p)
     \<and> currentSize p \<le> max (2 * mn) (mx + 1)
     \<and> (mx \<le> 2 * mn \<longrightarrow> live p = mn \<and> int (made p) = mn)"

lemma prefill:
  "((\<lambda>p. count_one (addConnection p)) ^^ n)
      \<lparr>minSize = mn, maxSize = mx, currentSize = 0, maxIdleTime = idle, connQueue = [], lent = [],
       made = 0, clock = now\<rparr>
   = \<lparr>minSize = mn, maxSize = mx, currentSize = 2 * int n, maxIdleTime = idle,
      connQueue = map (\<lambda>i. (i, now)) [0..<n], lent = [], made = n, clock = now\<rparr>"
  by (induction n) (simp_all add: count_one_def addConnection_def)

lemma cp_inv_start:
  "0 \<le> mn \<Longrightarrow> cp_inv mn mx (ConnectionPool mn mx idle now)"
  by (simp add: ConnectionPool_def prefill cp_inv_def ids_def live_def comp_def)

lemma recycle_loop_spec:
  assumes "recycle_loop mn idle now q n = (q', n')"
  shows "\<exists>k. q' = drop k q \<and> k \<le> length q \<and> n' = n - int k
    \<and> (k = 0 \<or> 0 \<le> mn \<and> mn \<le> int (length q) - int k)"
  using assms
proof (induction q arbitrary: n)
  case (Cons c q)
  show ?case
  proof (cases "0 \<le> mn \<and> mn < int (length (c # q)) \<and> alive_ms now (snd c) \<ge> idle")
    case True
    with Cons.prems have "recycle_loop mn idle now q (n - 1) = (q', n')" by simp
    from Cons.IH[OF this] obtain k where "q' = drop k q" "k \<le> length q" "n' = n - 1 - int k"
        "k = 0 \<or> 0 \<le> mn \<and> mn \<le> int (length q) - int k" by blast
    then show ?thesis using True by (intro exI[of _ "Suc k"]) auto
  next
    case False
    with Cons.prems have "q' = c # q" "n' = n" by auto
    then show ?thesis by (intro exI[of _ 0]) simp
  qed
qed simp

lemma cp_inv_produce:
  assumes "cp_inv mn mx p" and "connQueue p = []"
  shows "cp_inv mn mx (produce p)"
  using assms by (auto simp: cp_inv_def produce_def count_one_def addConnection_def ids_def live_def)

lemma cp_inv_recycle:
  assumes inv: "cp_inv mn mx p"
  shows "cp_inv mn mx (recycle_section p)"
proof -
  obtain q n where eq: "recycle_loop (minSize p) (maxIdleTime p) (clock p) (connQueue p) (currentSize p)
      = (q, n)" by fastforce
  from recycle_loop_spec[OF this] obtain k where k: "q = drop k (connQueue p)" "k \<le> length (connQueue p)"
      "n = currentSize p - int k"
      "k = 0 \<or> 0 \<le> minSize p \<and> minSize p \<le> int (length (connQueue p)) - int k" by blast
  have r: "recycle_section p = p\<lparr>connQueue := q, currentSize := n\<rparr>"
    by (simp add: recycle_section_def eq)
  have sub: "set (map fst q) \<subseteq> set (map fst (connQueue p))"
    by (auto simp: k(1) dest: in_set_dropD)
  have "set (ids (recycle_section p)) \<subseteq> set (ids p)" using sub by (auto simp: r ids_def)
  then have bound: "\<forall>i \<in> set (ids (recycle_section p)). i < made p" using inv by (auto simp: cp_inv_def)
  have "distinct (map fst q)" using inv by (simp add: k(1) cp_inv_def ids_def drop_map[symmetric])
  then have "distinct (ids (recycle_section p))"
    using inv sub by (auto simp: r cp_inv_def ids_def)
  moreover have "live (recycle_section p) = live p - int k" using k(1,2) by (simp add: r live_def)
  moreover have "mx \<le> 2 * mn \<longrightarrow> k = 0"
    using inv k(2,4) by (auto simp: cp_inv_def live_def)
  ultimately show ?thesis
    using inv bound k(3) by (simp add: cp_inv_def) (auto simp: r)
qed

lemma live_ids: "live p = int (length (ids p))"
  by (simp add: live_def ids_def)

lemma cp_inv_permute:
  assumes "cp_inv mn mx p" and "mset (ids q) = mset (ids p)"
    and "minSize q = minSize p" "maxSize q = maxSize p" "currentSize q = currentSize p" "made q = made p"
  shows "cp_inv mn mx q"
proof -
  have "distinct (ids q) = distinct (ids p)" using assms(2) by (rule mset_eq_imp_distinct_iff)
  moreover have "set (ids q) = set (ids p)" using assms(2) by (rule mset_eq_setD)
  moreover have "length (ids q) = length (ids p)" using assms(2) by (rule mset_eq_length)
  ultimately show ?thesis using assms(1,3-) by (simp add: cp_inv_def live_ids)
qed

lemma cp_inv_step: "cp_step p q \<Longrightarrow> cp_inv mn mx p \<Longrightarrow> cp_inv mn mx q"
proof (induction rule: cp_step.induct)
  case (cp_give_back i p)
  show ?case
    by (rule cp_inv_permute[OF cp_give_back.prems])
      (use cp_give_back.hyps in \<open>simp_all add: ids_def give_back_def\<close>)
next
  case (cp_get p i q)
  show ?case
    by (rule cp_inv_permute[OF cp_get.prems])
      (use cp_get.hyps in \<open>auto simp: ids_def getConnection_def split: list.splits\<close>)
next
  case (cp_time p t)
  show ?case by (rule cp_inv_permute[OF cp_time.prems]) (simp_all add: ids_def)
qed (simp_all add: cp_inv_produce cp_inv_recycle)

lemma cp_reachable_inv:
  "cp_reachable (ConnectionPool mn mx idle now) p \<Longrightarrow> 0 \<le> mn \<Longrightarrow> cp_inv mn mx p"
  by (induction rule: cp_reachable.induct) (auto simp: cp_inv_start intro: cp_inv_step)

subsection \<open>Properties\<close>

text \<open>No connection is handed to two clients, and what \<open>currentSize_\<close> counts. In every
  reachable state the connections in the queue and those that clients have are different ones.
  Both \<open>addConnection\<close> and its callers increment \<open>currentSize_\<close>, so it is the number of live
  connections plus the number of connections ever made; the pool thus stays below its maximum,
  with about half of it in use at most.\<close>

theorem pool_connections_are_distinct:
  assumes "cp_reachable (ConnectionPool mn mx idle now) p" and "0 \<le> mn"
  shows "distinct (map fst (connQueue p) @ lent p)
    \<and> currentSize p = int (length (connQueue p) + length (lent p)) + int (made p)
    \<and> 2 * int (length (connQueue p) + length (lent p)) \<le> max (2 * mn) (mx + 1)"
proof -
  have inv: "cp_inv mn mx p" using cp_reachable_inv[OF assms] .
  then have "set (ids p) \<subseteq> {..<made p}" by (auto simp: cp_inv_def)
  then have "card (set (ids p)) \<le> made p" using card_mono[of "{..<made p}"] by simp
  then have "live p \<le> int (made p)" using inv distinct_card[of "ids p"]
    by (simp add: cp_inv_def live_def ids_def)
  then show ?thesis using inv unfolding cp_inv_def ids_def live_def by simp
qed

definition sample_pool :: conn_pool where
  "sample_pool = ConnectionPool 2 4 60000 0"

lemma sample_pool_eq: "sample_pool = \<lparr>minSize = 2, maxSize = 4, currentSize = 4, maxIdleTime = 60000,
    connQueue = [(0, 0), (1, 0)], lent = [], made = 2, clock = 0\<rparr>"
  by (simp add: sample_pool_def ConnectionPool_def prefill upt_rec)

definition sample_lent :: conn_pool where
  "sample_lent = sample_pool\<lparr>connQueue := [], lent := [1, 0]\<rparr>"

lemma sample_lent_reachable: "cp_reachable (ConnectionPool 2 4 60000 0) sample_lent"
proof -
  let ?p1 = "sample_pool\<lparr>connQueue := [(1, 0)], lent := [0]\<rparr>"
  have "cp_step sample_pool ?p1"
    by (rule cp_step.cp_get[of _ 0]) (simp add: getConnection_def sample_pool_eq)
  moreover have "cp_step ?p1 sample_lent"
    by (rule cp_step.cp_get[of _ 1]) (simp add: getConnection_def sample_lent_def sample_pool_eq)
  moreover have "cp_reachable (ConnectionPool 2 4 60000 0) sample_pool"
    unfolding sample_pool_def by (rule cp_reachable.cp_start)
  ultimately show ?thesis by (blast intro: cp_reachable.cp_next)
qed

theorem pool_connections_are_distinct_witness:
  "distinct (lent sample_lent) \<and> currentSize sample_lent = 4"
  using pool_connections_are_distinct[OF sample_lent_reachable]
  by (simp add: sample_lent_def sample_pool_eq)

text \<open>A pool whose maximum is at most twice its minimum never grows. It keeps exactly
  \<open>minSize_\<close> connections for ever: with all of them in use, the producer does nothing and a
  client that asks for one more waits until one is given back, although the maximum has not
  been reached.\<close>

theorem pool_never_grows:
  assumes "cp_reachable (ConnectionPool mn mx idle now) p" and "0 \<le> mn" and "mx \<le> 2 * mn"
  shows "int (length (connQueue p) + length (lent p)) = mn \<and> int (made p) = mn
    \<and> (connQueue p = [] \<longrightarrow> produce p = p \<and> getConnection p = None)"
proof -
  have "cp_inv mn mx p" using cp_reachable_inv[OF assms(1,2)] .
  then show ?thesis using assms(3) by (auto simp: cp_inv_def live_def produce_def getConnection_def)
qed

theorem pool_never_grows_witness:
  "length (lent sample_lent) = 2 \<and> maxSize sample_lent = 4 \<and> produce sample_lent = sample_lent
     \<and> getConnection sample_lent = None"
  using pool_never_grows[OF sample_lent_reachable] by (simp add: sample_lent_def sample_pool_eq)

end
