(* ===== verification/Server_Timers.thy ===== *)
theory Server_Timers
  imports Server_Session
begin

section \<open>Timers of a server's loop\<close>

text \<open>
  How the timer queue of \<open>Timer_Queue\<close> and the loop of a server work together: a callback that
  adds timers to the queue of a loop keeps the contract of \<open>timer_host\<close>, and a timer that another
  thread has added reaches the queue in the next round of the loop.
\<close>

lemma upd_timers_simps [simp]:
  "srv_timers (upd_timers l g w) l = g (srv_timers w l)" "loops (upd_timers l g w) = loops w"
  "conns (upd_timers l g w) = conns w" "cur_thread (upd_timers l g w) = cur_thread w"
  by (simp_all add: upd_timers_def)

lemma srv_timers_upd_loop [simp]: "srv_timers (upd_loop l g w) = srv_timers w"
  by (simp add: upd_loop_def)

text \<open>A user's callback \<open>c\<close> that adds the timers of \<open>script c\<close> in the thread of loop \<open>l\<close>.\<close>

definition adding_callback ::
    "nat \<Rightarrow> (nat \<Rightarrow> (nat \<times> timer) list) \<Rightarrow> nat \<Rightarrow> server_world \<Rightarrow> server_world result" where
  "adding_callback l script c w =
     bind_result (run_script script c (srv_timers w l)) (\<lambda>q. Inr (upd_timers l (\<lambda>_. q) w))"

interpretation server_timers:
  timer_host "\<lambda>w. srv_timers w l" "upd_timers l" "adding_callback l script" for l script
  by unfold_locales (auto simp: adding_callback_def run_script_def adds_timers_script)

text \<open>A channel of the loop's own: registered and not tied.\<close>

definition own_channel :: "nat \<Rightarrow> int \<Rightarrow> loop_functor eventloop \<Rightarrow> bool" where
  "own_channel c fd e \<longleftrightarrow> (\<exists>ch. heap e c = Some ch \<and> chan_fd ch = fd \<and> index ch = kAdded \<and> \<not> tied ch)"

lemma own_channel_poll:
  assumes "own_channel c fd (loops w l)" and "wf_poller (loops w l)" and "1 < event_slots (loops w l)"
  obtains ch where "server_round cbs ok l (WaitOk [(EPOLLIN, fd)], t) w
      = bind_result (handle_channel cbs (\<lambda>_. True) l c t (after_poll l c ch t w))
          (doPendingFunctors (\<lambda>w. loops w l) (upd_loop l) (exec_functor cbs ok))"
    and "heap (loops (after_poll l c ch t w) l) c = Some (set_revents EPOLLIN ch)" and "\<not> tied ch"
proof -
  obtain ch where ch: "heap (loops w l) c = Some ch" "chan_fd ch = fd" "index ch = kAdded" "\<not> tied ch"
    using assms(1) by (auto simp: own_channel_def)
  have "interest (loops w l) fd = Some (events ch, c)" "1 < event_slots (loops w l)"
    using registered_interest[OF assms(2) ch(1,3)] assms(3) ch(2) by simp_all
  from server_round_one[OF this(1) ch(1) this(2)] ch that show thesis by simp
qed

text \<open>What a functor of \<open>addTimer\<close> makes of the queue, called alone.\<close>

lemma run_add_timer:
  assumes "pendingFunctors (loops w l) = [AddTimerInLoop l p]" and "addTimerInLoop p (srv_timers w l) = Inr q"
  shows "\<exists>w'. doPendingFunctors (\<lambda>w. loops w l) (upd_loop l) (exec_functor cbs ok) w = Inr w'
    \<and> srv_timers w' l = q \<and> pendingFunctors (loops w' l) = [] \<and> \<not> callingPendingFunctors (loops w' l)
    \<and> wakeup_count (loops w' l) = wakeup_count (loops w l)"
  using assms by (simp add: doPendingFunctors_def Let_def call_sequence_fun add_timer_in_loop_def)

text \<open>C32: a timer that another thread adds reaches the loop. \<open>runAt\<close>, called from another thread,
  leaves the set of timers alone, queues a functor and wakes the loop, which is blocked in
  \<open>poll\<close>; in the round that follows, the loop inserts the timer, and the timerfd is armed for the
  earliest timer of the set.\<close>

theorem timer_reaches_loop:
  assumes idle: "loop_idle (loops w l)" and inv: "timers_inv (srv_timers w l)" "armed_ok (srv_timers w l)"
    and fresh: "timer_heap (srv_timers w l) p = None" "p < UINTPTR_MAX"
    and other: "threadId (loops w l) \<noteq> cur_thread w"
    and wake: "own_channel (wakeupChannel (loops w l)) fd (loops w l)"
  shows "\<exists>w1 w2. server_runAt l p time cb w = Inr w1 \<and> timers (srv_timers w1 l) = timers (srv_timers w l)
    \<and> 0 < wakeup_count (loops w1 l)
    \<and> server_round cbs ok l (WaitOk [(EPOLLIN, fd)], t) (w1\<lparr>cur_thread := threadId (loops w l)\<rparr>) = Inr w2
    \<and> set (timers (srv_timers w2 l)) = insert (time, p) (set (timers (srv_timers w l)))
    \<and> timer_heap (srv_timers w2 l) p = Some (Timer cb time 0)
    \<and> timers_inv (srv_timers w2 l) \<and> armed_ok (srv_timers w2 l)
    \<and> wakeup_count (loops w2 l) = 0 \<and> pendingFunctors (loops w2 l) = []"
proof -
  let ?q = "(srv_timers w l)\<lparr>timer_heap := (timer_heap (srv_timers w l))(p \<mapsto> Timer cb time 0)\<rparr>"
  let ?w1 = "upd_loop l (queueInLoop (cur_thread w) (AddTimerInLoop l p)) (upd_timers l (\<lambda>_. ?q) w)"
  have run: "server_runAt l p time cb w = Inr ?w1"
    using other by (simp add: server_runAt_def runAt_def addTimer_def Let_def runInLoop_def
        isInLoopThread_def upd_timers_def)
  have q: "timers_inv ?q" "armed_ok ?q" "timer_heap ?q p = Some (Timer cb time 0)"
    using inv fresh(1) by (fastforce simp: timers_inv_def armed_ok_def)+
  obtain q' where q': "addTimerInLoop p ?q = Inr q'" "timers_inv q'" "armed_ok q'"
    "timer_heap q' = timer_heap ?q" "set (timers q') = insert (time, p) (set (timers (srv_timers w l)))"
    using addTimerInLoop_ok[OF q(1,3) fresh(2)] q(2) by (auto simp: Timer_def)
  let ?w2 = "?w1\<lparr>cur_thread := threadId (loops w l)\<rparr>" and ?c = "wakeupChannel (loops w l)"
  have more: "wakeupChannel (queueInLoop t f e) = wakeupChannel e" "event_slots (queueInLoop t f e) = event_slots e"
    for t f and e :: "loop_functor eventloop"
    by (simp_all add: queue_defs)
  have "own_channel ?c fd (loops ?w2 l)" "wf_poller (loops ?w2 l)" "1 < event_slots (loops ?w2 l)"
    using wake idle by (simp_all add: own_channel_def loop_idle_def more)
  then obtain ch where ch: "server_round cbs ok l (WaitOk [(EPOLLIN, fd)], t) ?w2
      = bind_result (handle_channel cbs (\<lambda>_. True) l ?c t (after_poll l ?c ch t ?w2))
          (doPendingFunctors (\<lambda>w. loops w l) (upd_loop l) (exec_functor cbs ok))"
    "heap (loops (after_poll l ?c ch t ?w2) l) ?c = Some (set_revents EPOLLIN ch)" "\<not> tied ch"
    by (rule own_channel_poll)
  have c: "wakeupChannel (loops (after_poll l ?c ch t ?w2) l) = ?c" by (simp add: more)
  let ?w3 = "upd_loop l (snd \<circ> wakeup_handleRead) (after_poll l ?c ch t ?w2)"
  have "handle_channel cbs (\<lambda>_. True) l ?c t (after_poll l ?c ch t ?w2) = Inr ?w3"
    using handle_wakeup_fd[of "after_poll l ?c ch t ?w2" l] ch(2,3) unfolding c by simp
  moreover have "pendingFunctors (loops ?w3 l) = [AddTimerInLoop l p]" "srv_timers ?w3 l = ?q"
      "wakeup_count (loops ?w3 l) = 0"
    using idle by (simp_all add: wakeup_handleRead_def loop_idle_def after_poll_def put_channel_def)
  ultimately obtain w4 where "server_round cbs ok l (WaitOk [(EPOLLIN, fd)], t) ?w2 = Inr w4"
    "srv_timers w4 l = q'" "pendingFunctors (loops w4 l) = []" "wakeup_count (loops w4 l) = 0"
    using run_add_timer[of ?w3 l p q' cbs ok] q'(1) ch(1) by auto
  moreover have "timers (srv_timers ?w1 l) = timers (srv_timers w l)" "0 < wakeup_count (loops ?w1 l)"
    using other by simp_all
  ultimately show ?thesis using run q' by (intro exI[of _ ?w1] exI[of _ w4]) simp
qed

theorem timer_reaches_loop_witness:
  "\<exists>e w1 w2. EventLoop False False 2 4 20 5 21 = Inr e
     \<and> server_runAt 7 30 TimeStamp_default 6 (upd_loop 7 (\<lambda>_. e) sample_server) = Inr w1
     \<and> server_round quiet_server True 7 (WaitOk [(EPOLLIN, 5)], TimeStamp_default)
          (w1\<lparr>cur_thread := 2\<rparr>) = Inr w2
     \<and> set (timers (srv_timers w2 7)) = {(TimeStamp_default, 30)}"
proof -
  obtain e :: "loop_functor eventloop" where e: "EventLoop False False 2 4 20 5 21 = Inr e" "wf_poller e"
    "heap e = [20 \<mapsto> want_read (Channel 4)\<lparr>index := kAdded\<rparr>, 21 \<mapsto> want_read (Channel 5)\<lparr>index := kAdded\<rparr>]"
    "event_slots e = kInitEventListSize" "threadId e = 2" "wakeupChannel e = 21"
    "pendingFunctors e = []" "\<not> callingPendingFunctors e" "\<not> quit_flag e"
    using EventLoop_ok[of 4 5 20 21 2] by (auto elim!: exE conjE)
  let ?w = "upd_loop 7 (\<lambda>_. e) sample_server"
  have "srv_timers ?w 7 = no_timers" by (simp add: sample_server_def sample_world_def world.defs)
  then have "timers_inv (srv_timers ?w 7)" "armed_ok (srv_timers ?w 7)"
    "timer_heap (srv_timers ?w 7) 30 = None" "timers (srv_timers ?w 7) = []"
    by (simp_all add: no_timers_def timers_inv_def armed_ok_def)
  moreover have "loop_idle (loops ?w 7)" using e by (simp add: loop_idle_def kInitEventListSize_def)
  moreover have "threadId (loops ?w 7) \<noteq> cur_thread ?w" using e(5) by simp
  moreover have "own_channel (wakeupChannel (loops ?w 7)) 5 (loops ?w 7)"
    using e(3,6) by (simp add: own_channel_def want_read_def Channel_def)
  ultimately show ?thesis
    using timer_reaches_loop[of ?w 7 30 5 TimeStamp_default 6 quiet_server True TimeStamp_default] e(1,5)
    by (auto simp: UINTPTR_MAX_def)
qed

end
