(* ===== verification/Echo_Server.thy ===== *)
theory Echo_Server
  imports Server_Session
begin

section \<open>The echo server (example/echo.cpp)\<close>

text \<open>
  An \<open>EchoServer\<close> is a \<open>TcpServer\<close> without threads of its own, whose message callback sends what
  it has received back to the sender; \<open>main\<close> makes a loop and a server on port 8080 and runs the
  loop. The state is the \<open>server_world\<close>; what the code logs is not part of it.
\<close>

definition echo_onConnection :: "nat \<Rightarrow> server_world \<Rightarrow> server_world result" where
  "echo_onConnection i w = Inr w"

text \<open>
  The callbacks of a connection as far as \<open>send\<close> looks at them: no write complete callback is
  set. (\<open>send\<close> never looks at the message callback: \<open>echo_send_cbs\<close>.)
\<close>

definition echo_cbs :: "server_world conn_callbacks" where
  "echo_cbs = \<lparr>connectionCallback = Some echo_onConnection, messageCallback = None,
     writeCompleteCallback = None, closeCallback_conn = Some removeConnection,
     highWaterMarkCallback = None\<rparr>"

text \<open>\<open>buf\<close> is the input buffer of the connection.\<close>

definition echo_onMessage :: "nat \<Rightarrow> TimeStamp \<Rightarrow> server_world \<Rightarrow> server_world result" where
  "echo_onMessage i time w =
     bind_result (retrieveAllAsString (inputBuffer (conns w i))) (\<lambda>(msg, buf).
       send_string echo_cbs i msg (upd_conn i (\<lambda>c. c\<lparr>inputBuffer := buf\<rparr>) w))"

definition echo_callbacks :: "server_world server_callbacks" where
  "echo_callbacks =
     \<lparr>srv_connection = Some echo_onConnection, srv_message = Some echo_onMessage,
      srv_writeComplete = None, srv_threadInit = None, srv_user = (\<lambda>n w. Inr w),
      srv_timer = (\<lambda>n w. Inr w)\<rparr>"

definition EchoServer ::
    "nat \<Rightarrow> sockaddr_in \<Rightarrow> char list \<Rightarrow> int \<Rightarrow> bool \<Rightarrow> server_world \<Rightarrow> server_world result" where
  "EchoServer l addr name sock bind_ok w = TcpServer (Some l) addr name kNoReusePort sock bind_ok w"

definition echo_start :: "(nat \<Rightarrow> nat) \<Rightarrow> bool \<Rightarrow> server_world \<Rightarrow> server_world result" where
  "echo_start fresh listen_ok w = server_start echo_callbacks fresh listen_ok w"

text \<open>
  \<open>main\<close>: what the system gives the program is the setting of \<open>MUDUO_USE_POLL\<close>, the descriptors
  of the timerfd, the eventfd and the listening socket, whether \<open>bind\<close> and \<open>listen\<close> succeed, the
  clock, and the events. The loop is number 0. Nothing calls \<open>quit\<close>: \<open>loop ()\<close> goes on for as
  long as there are events.
\<close>

record startup =
  use_poll :: bool
  fd_timer :: int
  fd_event :: int
  fd_listen :: int
  bind_ok :: bool
  listen_ok :: bool
  now_values :: "nat \<Rightarrow> TimeStamp"

definition echo_main ::
    "startup \<Rightarrow> (wait_answer \<times> TimeStamp) list \<Rightarrow> server_world \<Rightarrow> server_world result" where
  "echo_main sys evs w =
     bind_result (EventLoop (use_poll sys) False (cur_thread w) (fd_timer sys) (next_address w)
                    (fd_event sys) (next_address w + 1)) (\<lambda>lp.
       let w1 = upd_timers 0 (\<lambda>_. no_timers\<lparr>clock := now_values sys\<rparr>) (upd_loop 0 (\<lambda>_. lp)
                  (w\<lparr>next_address := next_address w + 2\<rparr>));
           addr = InetAddress 8080 ''127.0.0.1''
       in bind_result (EchoServer 0 addr ''EchoServer'' (fd_listen sys) (bind_ok sys) w1) (\<lambda>w2.
          bind_result (echo_start (\<lambda>i. i + 1) (listen_ok sys) w2)
            (server_loop echo_callbacks (\<lambda>_. True) (listen_ok sys) 0 evs)))"

subsection \<open>The callbacks keep their contracts\<close>

lemma echo_send_cbs: "sendInLoop (conn_cbs echo_callbacks) i msg w = sendInLoop echo_cbs i msg w"
  by (rule sendInLoop_cong) (simp_all add: conn_cbs_def echo_callbacks_def echo_cbs_def)

lemma retrieve_all_input:
  assumes "wf_buffer b"
  shows "\<exists>b'. retrieveAllAsString b = Inr (contents b, b') \<and> wf_buffer b' \<and> contents b' = []"
  using retrieveAsString_ok[OF assms, of "readableBytes b"] length_contents[OF assms]
  by (auto simp: retrieveAllAsString_def)

lemma keeps_echo_onMessage:
  assumes inv: "conn_inv i w"
  shows "keeps i w (echo_onMessage i t w)"
proof -
  have "wf_buffer (inputBuffer (conns w i))" using inv by (simp add: conn_inv_def)
  then obtain b where b: "retrieveAllAsString (inputBuffer (conns w i))
      = Inr (contents (inputBuffer (conns w i)), b)" "wf_buffer b"
    using retrieve_all_input by blast
  let ?w1 = "upd_conn i (\<lambda>c. c\<lparr>inputBuffer := b\<rparr>) w"
  have "conn_inv i ?w1" using inv b(2) by (simp add: conn_inv_def channel_inv_def)
  from keeps_from[OF keeps_send_string[OF this], of w] b(1) show ?thesis by (simp add: echo_onMessage_def)
qed

interpretation echo_conn: conn_user "conn_cbs echo_callbacks" i for i
  by unfold_locales
    (auto simp: conn_cbs_def echo_callbacks_def echo_onConnection_def keeps_echo_onMessage
      keeps_removeConnection)

interpretation echo_srv: server_user echo_callbacks l for l
  by unfold_locales (auto simp: echo_callbacks_def echo_onConnection_def grows_same)

lemma echo_answers:
  assumes inv: "conn_inv i w" and st: "conn_state (conns w i) = kConnected"
    and here: "isInLoopThread (cur_thread w) (cloop i w)"
    and out: "contents (outputBuffer (conns w i)) = []"
    and takes: "takes_all (write_answers w (writes_done w)) (contents (inputBuffer (conns w i)))"
  shows "\<exists>b. wf_buffer b \<and> contents b = [] \<and> echo_onMessage i t w
    = Inr (upd_conn i (\<lambda>c. c\<lparr>inputBuffer := b, wire := wire c @ contents (inputBuffer (conns w i))\<rparr>)
        (w\<lparr>writes_done := Suc (writes_done w)\<rparr>))"
proof -
  have "wf_buffer (inputBuffer (conns w i))" using inv by (simp add: conn_inv_def)
  then obtain b where b: "retrieveAllAsString (inputBuffer (conns w i))
      = Inr (contents (inputBuffer (conns w i)), b)" "wf_buffer b" "contents b = []"
    using retrieve_all_input by blast
  let ?w1 = "upd_conn i (\<lambda>c. c\<lparr>inputBuffer := b\<rparr>) w"
  have "conn_inv i ?w1" using inv b(2) by (simp add: conn_inv_def channel_inv_def)
  from sendInLoop_all[OF this, of "contents (inputBuffer (conns w i))" echo_cbs] st out takes
  have "sendInLoop echo_cbs i (contents (inputBuffer (conns w i))) ?w1
      = Inr (upd_conn i (\<lambda>c. c\<lparr>wire := wire c @ contents (inputBuffer (conns w i))\<rparr>)
          (?w1\<lparr>writes_done := Suc (writes_done w)\<rparr>))"
    by (simp add: active_def echo_cbs_def)
  then have "echo_onMessage i t w
      = Inr (upd_conn i (\<lambda>c. c\<lparr>inputBuffer := b, wire := wire c @ contents (inputBuffer (conns w i))\<rparr>)
          (w\<lparr>writes_done := Suc (writes_done w)\<rparr>))"
    using b(1) st here by (simp add: echo_onMessage_def send_string_def) (simp add: upd_conn_def)
  with b(2,3) show ?thesis by blast
qed

interpretation echo: answering echo_callbacks "\<lambda>d. d"
  by unfold_locales
    (use echo_answers in \<open>auto simp: echo_callbacks_def echo_onConnection_def fun_eq_iff call_function_def\<close>)


subsection \<open>The whole program\<close>

definition system_ok :: "startup \<Rightarrow> bool" where
  "system_ok sys \<longleftrightarrow> \<not> use_poll sys \<and> bind_ok sys \<and> listen_ok sys
     \<and> distinct [fd_timer sys, fd_event sys, fd_listen sys] \<and> 0 \<le> fd_event sys \<and> 0 \<le> fd_listen sys"

definition own_fds :: "startup \<Rightarrow> int set" where
  "own_fds sys = {fd_listen sys, fd_event sys, fd_timer sys}"

definition echo_events :: "startup \<Rightarrow> (client_event \<times> TimeStamp) list \<Rightarrow> (wait_answer \<times> TimeStamp) list"
  where
  "echo_events sys evs = map (\<lambda>(ev, t). (WaitOk [(EPOLLIN, ready_fd (fd_listen sys) ev)], t)) evs"

definition no_clients :: "server_world \<Rightarrow> session" where
  "no_clients w = \<lparr>opens = Map.empty, sent = (\<lambda>i. wire (conns w i)), next_conn = next_address w + 3,
     next_number = 1\<rparr>"

text \<open>
  A session that can happen to a program that is started in the state \<open>w\<close>: the clients' events are
  \<open>possible\<close>, and the kernel's answers are those of the events (\<open>kernel_plays\<close>). In particular the
  kernel takes every write whole. That is a condition on the kernel which TCP does not promise: with
  a partial write the rest goes to \<open>handleWrite\<close>, which sends other bytes (\<open>handleWrite_wrong_bytes\<close>),
  and the program is no echo server then.
\<close>

definition echo_session :: "startup \<Rightarrow> server_world \<Rightarrow> client_event list \<Rightarrow> bool" where
  "echo_session sys w evs \<longleftrightarrow> possible_all (\<lambda>d. d) (own_fds sys) (no_clients w) evs
     \<and> kernel_plays (\<lambda>d. d) w evs (accepts_done w) (reads_done w) (writes_done w)"

lemma no_clients_wf: "session_wf (no_clients w)"
  by (simp add: no_clients_def session_wf_def)

lemma echo_main_runs:
  assumes sys: "system_ok sys" and evs: "echo_session sys w (map fst evs)"
  shows "\<exists>w'. echo_main sys (echo_events sys evs) w = Inr w'
    \<and> session_of 0 (own_fds sys) w' (fold (session_step (\<lambda>d. d)) (map fst evs) (no_clients w))"
proof -
  let ?a = "next_address w"
  have sys': "fd_timer sys \<noteq> fd_event sys" "?a \<noteq> ?a + 1" "0 \<le> fd_event sys" "0 \<le> fd_listen sys"
    "fd_listen sys \<notin> {fd_timer sys, fd_event sys}"
    using sys by (auto simp: system_ok_def)
  obtain e :: "loop_functor eventloop" where
    e: "EventLoop False False (cur_thread w) (fd_timer sys) ?a (fd_event sys) (?a + 1) = Inr e"
    "wf_poller e" "heap e = [?a \<mapsto> want_read (Channel (fd_timer sys))\<lparr>index := kAdded\<rparr>,
                 ?a + 1 \<mapsto> want_read (Channel (fd_event sys))\<lparr>index := kAdded\<rparr>]"
    "registry e = [fd_timer sys \<mapsto> ?a, fd_event sys \<mapsto> ?a + 1]" "event_slots e = kInitEventListSize"
    "threadId e = cur_thread w" "timerChannel e = ?a" "wakeupChannel e = ?a + 1"
    "pendingFunctors e = []" "\<not> callingPendingFunctors e" "\<not> quit_flag e"
    using EventLoop_ok[OF sys'(1-3), of "cur_thread w"] by (elim exE conjE) (rule that)
  define w1 where "w1 = upd_timers 0 (\<lambda>_. no_timers\<lparr>clock := now_values sys\<rparr>) (upd_loop 0 (\<lambda>_. e)
      (w\<lparr>next_address := ?a + 2\<rparr>))"
  have f: "loops w1 0 = e" "cur_thread w1 = cur_thread w" "next_address w1 = ?a + 2"
    "conns w1 = conns w" "accept_answers w1 = accept_answers w" "read_answers w1 = read_answers w"
    "write_answers w1 = write_answers w" "accepts_done w1 = accepts_done w"
    "reads_done w1 = reads_done w" "writes_done w1 = writes_done w"
    by (simp_all add: w1_def upd_timers_def upd_loop_def)
  have idle: "loop_idle (loops w1 0)" using e by (simp add: f loop_idle_def kInitEventListSize_def)
  obtain w2 w3 where w3: "TcpServer (Some 0) (InetAddress 8080 ''127.0.0.1'') ''EchoServer'' kNoReusePort
      (fd_listen sys) True w1 = Inr w2" "server_start echo_callbacks (\<lambda>i. i + 1) True w2 = Inr w3"
    "session_of 0 (own_fds sys) w3 (no_clients w)" "acceptSocket w3 = fd_listen sys"
    "accept_answers w3 = accept_answers w" "read_answers w3 = read_answers w"
    "write_answers w3 = write_answers w" "accepts_done w3 = accepts_done w"
    "reads_done w3 = reads_done w" "writes_done w3 = writes_done w"
    using server_starts[OF idle, of "fd_listen sys" echo_callbacks "InetAddress 8080 ''127.0.0.1''"
        "''EchoServer''" kNoReusePort "\<lambda>i. i + 1"] sys' e
    by (auto simp: f own_fds_def no_clients_def echo_callbacks_def insert_commute numeral_3_eq_3)
  have plays: "kernel_plays (\<lambda>d. d) w3 (map fst evs) (accepts_done w3) (reads_done w3) (writes_done w3)"
    using evs kernel_plays_answers[OF w3(5-7)] by (simp add: echo_session_def w3(8-10))
  obtain w' where "server_loop echo_callbacks (\<lambda>_. True) True 0 (echo_events sys evs) w3 = Inr w'"
    "session_of 0 (own_fds sys) w' (fold (session_step (\<lambda>d. d)) (map fst evs) (no_clients w))"
    using echo.loop_refines[OF w3(3) _ plays, of True] evs
    by (auto simp: echo_session_def echo_events_def w3(4))
  then show ?thesis
    using sys e(1) w3(1,2)
    by (auto simp: echo_main_def system_ok_def EchoServer_def echo_start_def Let_def w1_def)
qed

subsection \<open>Properties\<close>

text \<open>A message is echoed, whole. When a message of an open connection has been read and
  \<open>onMessage\<close> is called in the thread of the loop, the bytes sent to the peer or waiting in the
  output buffer grow by exactly the bytes of the input buffer, which is empty afterwards; the one
  exception is a peer that has closed or reset the connection.\<close>

theorem message_is_echoed:
  assumes here: "here i w"
  shows "\<exists>w'. echo_onMessage i t w = Inr w' \<and> here i w'
    \<and> stream i w' = stream i w @ (if lost_peer i w then [] else contents (inputBuffer (conns w i)))
    \<and> contents (inputBuffer (conns w' i)) = []"
proof -
  have "wf_buffer (inputBuffer (conns w i))" using here by (simp add: here_def conn_inv_def)
  then obtain b where b: "retrieveAllAsString (inputBuffer (conns w i))
      = Inr (contents (inputBuffer (conns w i)), b)" "wf_buffer b" "contents b = []"
    using retrieve_all_input by blast
  let ?w1 = "upd_conn i (\<lambda>c. c\<lparr>inputBuffer := b\<rparr>) w"
  note h1 = here_input[OF here b(2)]
  have "echo_onMessage i t w = sendInLoop echo_cbs i (contents (inputBuffer (conns w i))) ?w1"
    using b(1) h1 by (simp add: echo_onMessage_def send_string_def here_def)
  then show ?thesis
    using sendInLoop_here[OF h1, of echo_cbs "contents (inputBuffer (conns w i))"] b(3) by auto
qed

text \<open>A program with two clients, whose messages are interleaved.\<close>

definition sample_system :: startup where
  "sample_system = \<lparr>use_poll = False, fd_timer = 4, fd_event = 5, fd_listen = 3, bind_ok = True,
     listen_ok = True, now_values = (\<lambda>_. TimeStamp_default)\<rparr>"

definition sample_session :: "client_event list" where
  "sample_session = [Connect 7 no_address, Connect 8 no_address, Send 7 ''hi'', Send 8 ''yo'',
     Send 7 ''!'', HangUp 7, HangUp 8]"

definition sample_start :: server_world where
  "sample_start = sample_server\<lparr>
     accept_answers := (\<lambda>n. AcceptOk (if n = 0 then 7 else 8) no_address),
     read_answers := (\<lambda>n. ReadOk (if n = 0 then ''hi'' else if n = 1 then ''yo''
       else if n = 2 then ''!'' else [])),
     write_answers := (\<lambda>_. WriteOk 100), accepts_done := 0, reads_done := 0, writes_done := 0\<rparr>"

definition at_once :: "client_event list \<Rightarrow> (client_event \<times> TimeStamp) list" where
  "at_once evs = map (\<lambda>ev. (ev, TimeStamp_default)) evs"

lemma map_fst_at_once [simp]: "map fst (at_once evs) = evs"
  by (simp add: at_once_def comp_def)

lemma sample_system_ok: "system_ok sample_system"
  by (simp add: system_ok_def sample_system_def)

lemma sample_echo_session: "echo_session sample_system sample_start sample_session"
  by (simp add: echo_session_def sample_session_def sample_start_def no_clients_def own_fds_def
      sample_system_def extrabuf_size_def takes_all_def)

theorem message_is_echoed_witness:
  "\<exists>w'. echo_onMessage 0 TimeStamp_default (server_with_input ''ping'') = Inr w'
     \<and> stream 0 w' = ''ping'' \<and> contents (inputBuffer (conns w' 0)) = []"
proof -
  obtain b where b: "server_with_input ''ping'' = upd_conn 0 (\<lambda>c. c\<lparr>inputBuffer := b\<rparr>) sample_server"
      "contents b = ''ping''" "here 0 (server_with_input ''ping'')"
      "\<not> lost_peer 0 (server_with_input ''ping'')" "stream 0 (server_with_input ''ping'') = []"
    using server_with_input by blast
  have "contents (inputBuffer (conns (server_with_input ''ping'') 0)) = ''ping''" using b(1,2) by simp
  then show ?thesis using message_is_echoed[OF b(3), of TimeStamp_default] b(4,5) by auto
qed

text \<open>C7: as long as the kernel takes every write whole, the echo server implements the specification of
  a session. \<open>main\<close> gets through all the events, and its state then stands for the abstract session:
  the open connections and the bytes sent on each are those the specification says. What is assumed:
  \<open>bind\<close>, \<open>listen\<close> and epoll succeed (\<open>system_ok\<close>); \<open>epoll_wait\<close> reports one event a round, a client
  that connects (to an unused descriptor, fewer than 2^31 - 1 in all), a non-empty message of at most
  65536 bytes of an open connection, read whole, or a hangup, a read of nothing; and each \<open>write\<close> takes
  the whole message (\<open>takes_all\<close>). After a partial write \<open>handleWrite\<close> sends wrong bytes
  (handleWrite_wrong_bytes), so the last condition cannot be dropped. A closed connection leaves the
  map and the poller here; its destructor, which closes the socket, is not part of this model.\<close>

theorem echo_refines_session:
  assumes "system_ok sys" and "echo_session sys w (map fst evs)"
  shows "\<exists>w'. echo_main sys (echo_events sys evs) w = Inr w'
    \<and> session_of 0 (own_fds sys) w' (fold (session_step (\<lambda>d. d)) (map fst evs) (no_clients w))"
  using assms by (rule echo_main_runs)

theorem echo_refines_session_witness:
  "\<exists>w'. echo_main sample_system (echo_events sample_system (at_once sample_session)) sample_start = Inr w'
    \<and> session_of 0 (own_fds sample_system) w'
        (fold (session_step (\<lambda>d. d)) sample_session (no_clients sample_start))"
  using echo_refines_session[OF sample_system_ok, of sample_start "at_once sample_session"]
    sample_echo_session by simp

text \<open>C13: as long as the kernel takes every write whole, every client gets back its own bytes, in order
  and nothing else. A client that connects, sends messages and hangs up, while others do the same,
  has been sent the concatenation of its messages when the program has handled all the events. The
  conditions are those of a session (\<open>system_ok\<close>, \<open>echo_session\<close>): \<open>bind\<close>, \<open>listen\<close> and epoll succeed,
  one event is reported a round, messages are non-empty and at most 65536 bytes, each is read whole,
  and each \<open>write\<close> takes the whole message: after a partial write the rest is left to
  \<open>handleWrite\<close>, which sends other bytes (handleWrite_wrong_bytes), and the statement is false.\<close>

theorem client_gets_own_bytes:
  assumes "system_ok sys" and "echo_session sys w (map fst evs)"
    and "map fst evs = pre @ Connect fd peer # mid @ HangUp fd # post" and "HangUp fd \<notin> set mid"
  shows "\<exists>w'. echo_main sys (echo_events sys evs) w = Inr w'
    \<and> wire (conns w' (next_address w + 3 + 2 * connects pre)) = concat (chunks fd mid)"
proof -
  let ?s = "fold (session_step (\<lambda>d. d)) (map fst evs) (no_clients w)"
  obtain w' where w': "echo_main sys (echo_events sys evs) w = Inr w'" "session_of 0 (own_fds sys) w' ?s"
    using echo_main_runs[OF assms(1,2)] by blast
  have "sent ?s (next_address w + 3 + 2 * connects pre) = concat (chunks fd mid)"
    using session_of_client[OF no_clients_wf assms(3), of "\<lambda>d. d" "own_fds sys" w] assms(2,4)
    by (simp add: echo_session_def no_clients_def)
  with w' show ?thesis by (auto simp: session_of_def)
qed

theorem client_gets_own_bytes_witness:
  "\<exists>w'. echo_main sample_system (echo_events sample_system (at_once sample_session)) sample_start = Inr w'
     \<and> wire (conns w' 13) = ''hi!''"
proof -
  have "map fst (at_once sample_session) = [] @ Connect 7 no_address
      # [Connect 8 no_address, Send 7 ''hi'', Send 8 ''yo'', Send 7 ''!''] @ HangUp 7 # [HangUp 8]"
    by (simp add: sample_session_def)
  from client_gets_own_bytes[OF sample_system_ok _ this, of sample_start] sample_echo_session
  show ?thesis by (simp add: sample_start_def)
qed

text \<open>C28: nothing is left of clients that are gone. When every client of a session has hung up, the map
  of connections is empty and the poller, and the kernel's interest list, know the three descriptors
  of the server itself and no others; the loop has no functor pending. The sessions are those of
  \<open>echo_session\<close> with \<open>system_ok\<close>: \<open>bind\<close>, \<open>listen\<close> and epoll succeed, one event is reported a round
  (a connection accepted, a non-empty message of at most 65536 bytes read whole, or a hangup seen
  as a read of nothing), and every \<open>write\<close> takes the whole message. The theorem is about the map,
  the poller and the queue; the destructor of a connection and the closing of its socket are not
  part of this model (http_hangup_frees_connection shows them for the http server).\<close>

theorem server_cleans_up:
  assumes "system_ok sys" and "echo_session sys w (map fst evs)"
    and "opens (fold (session_step (\<lambda>d. d)) (map fst evs) (no_clients w)) = Map.empty"
  shows "\<exists>w'. echo_main sys (echo_events sys evs) w = Inr w' \<and> connections w' = Map.empty
    \<and> dom (registry (loops w' 0)) = own_fds sys \<and> dom (interest (loops w' 0)) \<subseteq> own_fds sys
    \<and> pendingFunctors (loops w' 0) = []"
proof -
  obtain w' where w': "echo_main sys (echo_events sys evs) w = Inr w'" "serving 0 (own_fds sys) Map.empty w'"
    using echo_main_runs[OF assms(1,2)] assms(3) by (auto simp: session_of_def)
  then have reg: "dom (registry (loops w' 0)) = own_fds sys" and wf: "wf_poller (loops w' 0)"
    and "pendingFunctors (loops w' 0) = []" "\<forall>name i. connections w' name \<noteq> Some i"
    by (auto simp: serving_def loop_idle_def)
  moreover have "dom (interest (loops w' 0)) \<subseteq> dom (registry (loops w' 0))"
    using interest_registry[OF wf] by fastforce
  moreover have "connections w' = Map.empty"
    using calculation(4) by (auto simp: fun_eq_iff)
  ultimately show ?thesis using w'(1) by simp
qed

theorem server_cleans_up_witness:
  "\<exists>w'. echo_main sample_system (echo_events sample_system (at_once sample_session)) sample_start = Inr w'
     \<and> connections w' = Map.empty"
proof -
  have "opens (fold (session_step (\<lambda>d. d)) (map fst (at_once sample_session)) (no_clients sample_start))
      = Map.empty"
    by (auto simp: sample_session_def no_clients_def fun_eq_iff)
  with server_cleans_up[OF sample_system_ok, of sample_start "at_once sample_session"] sample_echo_session
  show ?thesis by auto
qed

text \<open>C29: the destructor of a server leaves nothing behind. For a server whose loop is idle, with any
  number of open connections and a connection callback that only logs, visiting the entries of the
  map once each, in any order, succeeds (no channel is destroyed while it is registered): the map
  becomes empty, the poller forgets the descriptors of all the connections and of the acceptor and
  keeps the others, the loop is idle again, and the sockets that are closed are those of all the
  connections, each once and in the order of the visits, and then the listening one.\<close>

theorem server_destruction:
  assumes "serving l own clients w" and "srv_connection cbs = Some (\<lambda>i w. Inr w)"
    and "dom (connections w) \<subseteq> set order" and "distinct order"
  shows "\<exists>w'. TcpServer_destroy cbs order w = Inr w' \<and> connections w' = Map.empty
    \<and> loop_idle (loops w' l) \<and> dom (registry (loops w' l)) = own - {acceptSocket w}
    \<and> dom (interest (loops w' l)) \<subseteq> own - {acceptSocket w}
    \<and> closed_fds w' = closed_fds w @ closed_in_order w order @ [acceptSocket w]
    \<and> set (closed_in_order w order) = dom clients \<and> distinct (closed_in_order w order)"
proof -
  obtain w' where w': "TcpServer_destroy cbs order w = Inr w'" "connections w' = Map.empty"
    "loop_idle (loops w' l)" "dom (registry (loops w' l)) = own - {acceptSocket w}"
    "closed_fds w' = closed_fds w @ closed_in_order w order @ [acceptSocket w]"
    using server_destroyed[OF assms] by blast
  have "wf_poller (loops w' l)" using w'(3) by (simp add: loop_idle_def)
  then have "dom (interest (loops w' l)) \<subseteq> dom (registry (loops w' l))"
    using interest_registry by fastforce
  with w' closed_in_order_clients[OF assms(1,3,4)] show ?thesis by auto
qed

text \<open>Two clients are connected when the server of the echo program is destroyed.\<close>

theorem server_destruction_witness:
  "\<exists>w w'. echo_main sample_system
        (echo_events sample_system (at_once [Connect 7 no_address, Connect 8 no_address])) sample_start = Inr w
     \<and> connections w (conn_name (conns w 13)) = Some 13 \<and> connections w (conn_name (conns w 15)) = Some 15
     \<and> TcpServer_destroy echo_callbacks [conn_name (conns w 13), conn_name (conns w 15)] w = Inr w'
     \<and> connections w' = Map.empty \<and> dom (registry (loops w' 0)) = {3, 4, 5} - {acceptSocket w}
     \<and> {7, 8} \<subseteq> set (closed_fds w')"
proof -
  let ?evs = "[Connect 7 no_address, Connect 8 no_address]"
  have "echo_session sample_system sample_start ?evs"
    by (simp add: echo_session_def sample_start_def no_clients_def own_fds_def sample_system_def)
  then obtain w where w: "echo_main sample_system (echo_events sample_system (at_once ?evs)) sample_start = Inr w"
    "serving 0 {3, 4, 5} [7 \<mapsto> 13, 8 \<mapsto> 15] w"
    using echo_main_runs[OF sample_system_ok, of sample_start "at_once ?evs"]
    by (auto simp: session_of_def no_clients_def sample_start_def own_fds_def sample_system_def insert_commute)
  have "opened 0 13 7 w" "opened 0 15 8 w" by (rule serving_opened[OF w(2)], simp)+
  then have both: "connections w (conn_name (conns w 13)) = Some 13" "connections w (conn_name (conns w 15)) = Some 15"
    by (simp_all add: opened_def)
  have "dom (connections w) \<subseteq> set [conn_name (conns w 13), conn_name (conns w 15)]"
    using w(2) by (auto simp: serving_def split: if_splits)
  moreover have "srv_connection echo_callbacks = Some (\<lambda>i w. Inr w)"
    by (simp add: echo_callbacks_def echo_onConnection_def[abs_def])
  moreover have "distinct [conn_name (conns w 13), conn_name (conns w 15)]" using both by auto
  ultimately obtain w' where w':
    "TcpServer_destroy echo_callbacks [conn_name (conns w 13), conn_name (conns w 15)] w = Inr w'"
    "connections w' = Map.empty" "dom (registry (loops w' 0)) = {3, 4, 5} - {acceptSocket w}"
    "closed_fds w' = closed_fds w @ closed_in_order w [conn_name (conns w 13), conn_name (conns w 15)] @ [acceptSocket w]"
    "set (closed_in_order w [conn_name (conns w 13), conn_name (conns w 15)]) = dom [7 \<mapsto> 13, 8 \<mapsto> 15 :: nat]"
    using server_destruction[OF w(2)] by blast
  then have "{7, 8} \<subseteq> set (closed_fds w')" unfolding w'(4) set_append w'(5) by simp
  with w'(1-3) have "\<exists>w'. TcpServer_destroy echo_callbacks [conn_name (conns w 13), conn_name (conns w 15)] w = Inr w'
      \<and> connections w' = Map.empty \<and> dom (registry (loops w' 0)) = {3, 4, 5} - {acceptSocket w}
      \<and> {7, 8} \<subseteq> set (closed_fds w')" by blast
  then show ?thesis using w(1) both by blast
qed

end
