(* ===== verification/Mysql_Config.thy ===== *)
theory Mysql_Config
  imports Mysql_Pool "HOL-Library.Word"
begin

section \<open>The configuration of the pool (the constructor in src/mysql/ConnectionPool.cpp)\<close>

text \<open>
  The constructor reads nine values from a file with \<open>operator>>\<close>. An \<open>ifstream\<close> is what is left
  of the file and whether its \<open>failbit\<close> is unset: an extraction skips white space, takes a word or
  a number, and sets the bit when there is none; once it is set, extractions do nothing. The pool
  is a static object, so a member that is not read is empty or 0.
\<close>

record istream =
  left :: "char list"
  good :: bool

definition skip_ws :: "istream \<Rightarrow> istream" where
  "skip_ws s =
     (let r = dropWhile isspace (left s) in s\<lparr>left := r, good := good s \<and> r \<noteq> []\<rparr>)"

text \<open>\<open>operator>>\<close> for a string, whose old value is \<open>v\<close>.\<close>

definition get_string :: "char list \<Rightarrow> istream \<Rightarrow> char list \<times> istream" where
  "get_string v s =
     (let s1 = (if good s then skip_ws s else s)
      in if good s1
         then (takeWhile (\<lambda>c. \<not> isspace c) (left s1),
               s1\<lparr>left := dropWhile (\<lambda>c. \<not> isspace c) (left s1)\<rparr>)
         else (v, s1))"

text \<open>The characters of a decimal number: its sign, its digits and what follows.\<close>

definition isdigit :: "char \<Rightarrow> bool" where
  "isdigit c \<longleftrightarrow> of_char c \<in> {48..57 :: nat}"

definition scan_number :: "char list \<Rightarrow> bool \<times> char list \<times> char list" where
  "scan_number cs =
     (let (neg, r) = (case cs of [] \<Rightarrow> (False, [])
                      | c # cs' \<Rightarrow> if c = CHR ''-'' then (True, cs')
                                  else if c = CHR ''+'' then (False, cs') else (False, cs))
      in (neg, takeWhile isdigit r, dropWhile isdigit r))"

text \<open>
  For an \<open>int\<close>: 0 without digits, the nearest bound for a number that is too large or too small,
  and the bit is set in both cases.
\<close>

definition get_int :: "int \<Rightarrow> istream \<Rightarrow> int \<times> istream" where
  "get_int v s =
     (let s1 = (if good s then skip_ws s else s)
      in if good s1
         then let (neg, ds, r) = scan_number (left s1);
                  n = int (parse_decimal ds); k = (if neg then - n else n)
              in if ds = [] then (0, s1\<lparr>left := r, good := False\<rparr>)
                 else if k < - (2 ^ 31) then (- (2 ^ 31), s1\<lparr>left := r, good := False\<rparr>)
                 else if k \<ge> 2 ^ 31 then (2 ^ 31 - 1, s1\<lparr>left := r, good := False\<rparr>)
                 else (k, s1\<lparr>left := r\<rparr>)
         else (v, s1))"

text \<open>For an \<open>unsigned short\<close>: a sign negates modulo \<open>2 ^ 16\<close>, and the bound is the largest value.\<close>

definition get_ushort :: "16 word \<Rightarrow> istream \<Rightarrow> 16 word \<times> istream" where
  "get_ushort v s =
     (let s1 = (if good s then skip_ws s else s)
      in if good s1
         then let (neg, ds, r) = scan_number (left s1); n = parse_decimal ds
              in if ds = [] then (0, s1\<lparr>left := r, good := False\<rparr>)
                 else if n \<ge> 2 ^ 16 then (- 1, s1\<lparr>left := r, good := False\<rparr>)
                 else ((if neg then - of_nat n else of_nat n), s1\<lparr>left := r\<rparr>)
         else (v, s1))"

record pool_config =
  cf_ip :: "char list"          \<comment> \<open>\<open>ip_\<close>\<close>
  cf_user :: "char list"        \<comment> \<open>\<open>user_\<close>\<close>
  cf_passwd :: "char list"      \<comment> \<open>\<open>passwd_\<close>\<close>
  cf_dbName :: "char list"      \<comment> \<open>\<open>dbName_\<close>\<close>
  cf_port :: "16 word"          \<comment> \<open>\<open>port_\<close>\<close>
  cf_minSize :: int             \<comment> \<open>\<open>minSize_\<close>\<close>
  cf_maxSize :: int             \<comment> \<open>\<open>maxSize_\<close>\<close>
  cf_timeout :: int             \<comment> \<open>\<open>timeout_\<close>\<close>
  cf_maxIdleTime :: int         \<comment> \<open>\<open>maxIdleTime_\<close>\<close>

definition read_config :: "char list \<Rightarrow> pool_config" where
  "read_config text =
     (let (ip, s1) = get_string [] \<lparr>left = text, good = True\<rparr>;
          (user, s2) = get_string [] s1;
          (passwd, s3) = get_string [] s2;
          (dbName, s4) = get_string [] s3;
          (port, s5) = get_ushort 0 s4;
          (mn, s6) = get_int 0 s5;
          (mx, s7) = get_int 0 s6;
          (timeout, s8) = get_int 0 s7;
          (idle, s9) = get_int 0 s8
      in \<lparr>cf_ip = ip, cf_user = user, cf_passwd = passwd, cf_dbName = dbName, cf_port = port,
          cf_minSize = mn, cf_maxSize = mx, cf_timeout = timeout, cf_maxIdleTime = idle\<rparr>)"

text \<open>The constructor: \<open>file\<close> is \<open>None\<close> when the file cannot be opened.\<close>

definition open_pool :: "char list option \<Rightarrow> int \<Rightarrow> (pool_config \<times> conn_pool) result" where
  "open_pool file now =
     bind_result (check (file \<noteq> None)) (\<lambda>_.
       let c = read_config (case file of None \<Rightarrow> [] | Some text \<Rightarrow> text)
       in Inr (c, ConnectionPool (cf_minSize c) (cf_maxSize c) (cf_maxIdleTime c) now))"

subsection \<open>Reading one field\<close>

definition blank :: "char list \<Rightarrow> bool" where
  "blank s \<longleftrightarrow> (\<forall>c \<in> set s. isspace c)"

definition word_ok :: "char list \<Rightarrow> bool" where
  "word_ok s \<longleftrightarrow> s \<noteq> [] \<and> (\<forall>c \<in> set s. \<not> isspace c)"

text \<open>What follows a field is nothing or white space.\<close>

definition ends_field :: "char list \<Rightarrow> bool" where
  "ends_field r \<longleftrightarrow> r = [] \<or> isspace (hd r)"

lemma skip_to_word:
  assumes "blank ws" and "word_ok f"
  shows "skip_ws \<lparr>left = ws @ f @ r, good = True\<rparr> = \<lparr>left = f @ r, good = True\<rparr>"
proof -
  have "dropWhile isspace (ws @ f @ r) = f @ r"
    using assms by (cases f) (auto simp: blank_def word_ok_def dropWhile_append2)
  then show ?thesis using assms(2) by (simp add: skip_ws_def word_ok_def)
qed

lemma get_string_word:
  assumes "blank ws" and "word_ok f" and "ends_field r"
  shows "get_string v \<lparr>left = ws @ f @ r, good = True\<rparr> = (f, \<lparr>left = r, good = True\<rparr>)"
proof -
  have "takeWhile (\<lambda>c. \<not> isspace c) r = []" "dropWhile (\<lambda>c. \<not> isspace c) r = r"
    using assms(3) by (cases r; auto simp: ends_field_def)+
  then show ?thesis using assms(2)
    by (auto simp: get_string_def skip_to_word[OF assms(1,2)] word_ok_def takeWhile_append2
        dropWhile_append2)
qed


lemma isdigit_decimal: "c \<in> set (decimal n) \<Longrightarrow> isdigit c"
  using set_decimal[of n] by (auto simp: isdigit_def digit_char_def)

lemma isdigit_no_space: "isdigit c \<Longrightarrow> \<not> isspace c \<and> c \<noteq> CHR ''-'' \<and> c \<noteq> CHR ''+''"
  by (auto simp: isdigit_def isspace_def)

lemma scan_digits:
  assumes "ends_field r"
  shows "takeWhile isdigit (decimal n @ r) = decimal n" and "dropWhile isdigit (decimal n @ r) = r"
proof -
  have "takeWhile isdigit r = []" "dropWhile isdigit r = r"
    using assms isdigit_no_space by (cases r; auto simp: ends_field_def)+
  then show "takeWhile isdigit (decimal n @ r) = decimal n" and "dropWhile isdigit (decimal n @ r) = r"
    using isdigit_decimal by (simp_all add: takeWhile_append2 dropWhile_append2)
qed

lemma scan_number_decimal:
  assumes "ends_field r"
  shows "scan_number (decimal n @ r) = (False, decimal n, r)"
    and "scan_number (CHR ''-'' # decimal n @ r) = (True, decimal n, r)"
proof -
  obtain c cs where d: "decimal n = c # cs" using decimal_nonempty by (cases "decimal n") auto
  then have "isdigit c" using isdigit_decimal[of c n] by simp
  then have "c \<noteq> CHR ''-''" "c \<noteq> CHR ''+''" using isdigit_no_space by blast+
  then show "scan_number (decimal n @ r) = (False, decimal n, r)"
    using scan_digits[OF assms, of n] d by (simp add: scan_number_def)
  show "scan_number (CHR ''-'' # decimal n @ r) = (True, decimal n, r)"
    using scan_digits[OF assms, of n] by (simp add: scan_number_def)
qed

lemma word_ok_decimal: "word_ok (decimal n)" "word_ok (decimal_int k)"
  using isdigit_decimal isdigit_no_space
  by (auto simp: word_ok_def decimal_int_def isspace_def)

lemma get_int_number:
  assumes "blank ws" and "ends_field r" and "- (2 ^ 31) \<le> k" "k < 2 ^ 31"
  shows "get_int v \<lparr>left = ws @ decimal_int k @ r, good = True\<rparr> = (k, \<lparr>left = r, good = True\<rparr>)"
proof -
  note skip = skip_to_word[OF assms(1) word_ok_decimal(2), of k r]
  show ?thesis
  proof (cases "k < 0")
    case True
    then have "decimal_int k = CHR ''-'' # decimal (nat (- k))" by (simp add: decimal_int_def)
    then show ?thesis
      using True assms(3,4) skip scan_number_decimal(2)[OF assms(2), of "nat (- k)"]
      by (simp add: get_int_def parse_decimal_decimal)
  next
    case False
    then have "decimal_int k = decimal (nat k)" by (simp add: decimal_int_def)
    then show ?thesis
      using False assms(3,4) skip scan_number_decimal(1)[OF assms(2), of "nat k"]
      by (simp add: get_int_def parse_decimal_decimal)
  qed
qed

lemma get_ushort_number:
  assumes "blank ws" and "ends_field r"
  shows "get_ushort v \<lparr>left = ws @ decimal (unat p) @ r, good = True\<rparr> = (p, \<lparr>left = r, good = True\<rparr>)"
  using scan_number_decimal(1)[OF assms(2), of "unat p"] unat_16_less[of p]
  by (simp add: get_ushort_def skip_to_word[OF assms(1) word_ok_decimal(1)] parse_decimal_decimal)

text \<open>Nothing is read from a stream without words, or in an error state.\<close>

lemma get_nothing:
  assumes "blank ws"
  shows "get_string v \<lparr>left = ws, good = g\<rparr> = (v, \<lparr>left = (if g then [] else ws), good = False\<rparr>)"
    and "get_int k \<lparr>left = ws, good = g\<rparr> = (k, \<lparr>left = (if g then [] else ws), good = False\<rparr>)"
    and "get_ushort p \<lparr>left = ws, good = g\<rparr> = (p, \<lparr>left = (if g then [] else ws), good = False\<rparr>)"
proof -
  have "dropWhile isspace ws = []" using assms by (simp add: blank_def)
  then show "get_string v \<lparr>left = ws, good = g\<rparr> = (v, \<lparr>left = (if g then [] else ws), good = False\<rparr>)"
    and "get_int k \<lparr>left = ws, good = g\<rparr> = (k, \<lparr>left = (if g then [] else ws), good = False\<rparr>)"
    and "get_ushort p \<lparr>left = ws, good = g\<rparr> = (p, \<lparr>left = (if g then [] else ws), good = False\<rparr>)"
    by (simp_all add: get_string_def get_int_def get_ushort_def skip_ws_def)
qed

subsection \<open>Configuration files\<close>

definition config_fields :: "pool_config \<Rightarrow> char list list" where
  "config_fields c = [cf_ip c, cf_user c, cf_passwd c, cf_dbName c, decimal (unat (cf_port c)),
     decimal_int (cf_minSize c), decimal_int (cf_maxSize c), decimal_int (cf_timeout c),
     decimal_int (cf_maxIdleTime c)]"

definition config_ok :: "pool_config \<Rightarrow> bool" where
  "config_ok c \<longleftrightarrow> (\<forall>s \<in> {cf_ip c, cf_user c, cf_passwd c, cf_dbName c}. word_ok s)
     \<and> (\<forall>k \<in> {cf_minSize c, cf_maxSize c, cf_timeout c, cf_maxIdleTime c}. - (2 ^ 31) \<le> k \<and> k < 2 ^ 31)"

text \<open>Fields with white space between them, and perhaps before the first and after the last one.\<close>

fun layout :: "char list list \<Rightarrow> char list list \<Rightarrow> char list \<Rightarrow> char list" where
  "layout (ws # wss) (f # fs) end_ws = ws @ f @ layout wss fs end_ws"
| "layout wss fs end_ws = end_ws"

definition separators :: "char list list \<Rightarrow> bool" where
  "separators wss \<longleftrightarrow> (\<forall>ws \<in> set wss. blank ws) \<and> (\<forall>ws \<in> set (tl wss). ws \<noteq> [])"

lemma blank_ends: "blank ws \<Longrightarrow> ws \<noteq> [] \<Longrightarrow> ends_field (ws @ r)"
  by (cases ws) (auto simp: blank_def ends_field_def)

lemma blank_end: "blank ws \<Longrightarrow> ends_field ws"
  by (cases ws) (auto simp: blank_def ends_field_def)

lemma length_9:
  assumes "length xs = 9"
  obtains a b c d e f g h i where "xs = [a, b, c, d, e, f, g, h, i]"
  using assms by (auto simp: numeral_eq_Suc length_Suc_conv)

lemma layout_ends: "separators wss \<Longrightarrow> blank end_ws \<Longrightarrow> wss \<noteq> [] \<Longrightarrow> hd wss \<noteq> [] \<Longrightarrow>
  ends_field (layout wss fs end_ws)"
  by (cases wss; cases fs) (auto simp: blank_ends blank_end separators_def)

lemma read_config_layout:
  assumes ok: "config_ok c" and seps: "separators wss" "length wss = 9" "blank end_ws"
  shows "read_config (layout wss (config_fields c) end_ws) = c"
proof -
  obtain w1 w2 w3 w4 w5 w6 w7 w8 w9 where wss: "wss = [w1, w2, w3, w4, w5, w6, w7, w8, w9]"
    using length_9[OF seps(2)] .
  have b: "blank w1" "blank w2" "blank w3" "blank w4" "blank w5" "blank w6" "blank w7" "blank w8" "blank w9"
    and ends: "ends_field (w2 @ r)" "ends_field (w3 @ r)" "ends_field (w4 @ r)" "ends_field (w5 @ r)"
      "ends_field (w6 @ r)" "ends_field (w7 @ r)" "ends_field (w8 @ r)" "ends_field (w9 @ r)" for r
    using seps(1) by (simp_all add: wss separators_def blank_ends)
  have fields: "word_ok (cf_ip c)" "word_ok (cf_user c)" "word_ok (cf_passwd c)" "word_ok (cf_dbName c)"
    "- (2 ^ 31) \<le> cf_minSize c" "cf_minSize c < 2 ^ 31" "- (2 ^ 31) \<le> cf_maxSize c" "cf_maxSize c < 2 ^ 31"
    "- (2 ^ 31) \<le> cf_timeout c" "cf_timeout c < 2 ^ 31"
    "- (2 ^ 31) \<le> cf_maxIdleTime c" "cf_maxIdleTime c < 2 ^ 31"
    using ok by (simp_all add: config_ok_def)
  show ?thesis
    unfolding read_config_def wss config_fields_def layout.simps
    by (simp only: get_string_word get_ushort_number get_int_number b ends fields blank_end[OF seps(3)]
        Let_def prod.case) simp
qed


text \<open>The file \<open>src/mysql/test/mysql.conf\<close> of the repository.\<close>

definition mysql_conf :: "char list" where
  "mysql_conf = ''127.0.0.1 root 123456 yourdb 3306 2 4 10 5000''"

definition one_space :: "char list list" where
  "one_space = [[], '' '', '' '', '' '', '' '', '' '', '' '', '' '', '' '']"

definition sample_config :: pool_config where
  "sample_config = \<lparr>cf_ip = ''127.0.0.1'', cf_user = ''root'', cf_passwd = ''123456'',
     cf_dbName = ''yourdb'', cf_port = 3306, cf_minSize = 2, cf_maxSize = 4, cf_timeout = 10,
     cf_maxIdleTime = 5000\<rparr>"

lemma sample_config_ok: "config_ok sample_config"
  by (simp add: config_ok_def sample_config_def word_ok_def isspace_def)

lemma digit_chars: "map digit_char [0, 1, 2, 3, 4, 5, 6, 7, 8, 9] = ''0123456789''"
  by code_simp

lemma sample_decimals: "decimal 3306 = ''3306''" "decimal_int 2 = ''2''" "decimal_int 4 = ''4''"
  "decimal_int 10 = ''10''" "decimal_int 5000 = ''5000''"
  by (simp_all add: decimal_int_def decimal.simps digit_chars[simplified])

lemma sample_layout: "layout one_space (config_fields sample_config) [] = mysql_conf"
  by (simp add: config_fields_def sample_config_def mysql_conf_def sample_decimals one_space_def)

lemma one_space_ok: "separators one_space" "length one_space = 9" "blank []"
  by (simp_all add: separators_def blank_def isspace_def one_space_def)

lemma read_mysql_conf: "read_config mysql_conf = sample_config"
  using read_config_layout[OF sample_config_ok one_space_ok] by (simp add: sample_layout)


lemma truncated_sizes:
  assumes ok: "config_ok c" and seps: "separators wss" "length wss = 9" "blank end_ws" and k: "k \<le> 5"
  shows "cf_minSize (read_config (layout wss (take k (config_fields c)) end_ws)) = 0
    \<and> cf_maxSize (read_config (layout wss (take k (config_fields c)) end_ws)) = 0"
proof -
  obtain w1 w2 w3 w4 w5 w6 w7 w8 w9 where wss: "wss = [w1, w2, w3, w4, w5, w6, w7, w8, w9]"
    using length_9[OF seps(2)] .
  have b: "blank w1" "blank w2" "blank w3" "blank w4" "blank w5"
    and ends: "ends_field (w2 @ r)" "ends_field (w3 @ r)" "ends_field (w4 @ r)" "ends_field (w5 @ r)" for r
    using seps(1) by (simp_all add: wss separators_def blank_ends)
  have fields: "word_ok (cf_ip c)" "word_ok (cf_user c)" "word_ok (cf_passwd c)" "word_ok (cf_dbName c)"
    using ok by (simp_all add: config_ok_def)
  have e: "blank []" by (simp add: blank_def)
  from k have "k = 0 \<or> k = 1 \<or> k = 2 \<or> k = 3 \<or> k = 4 \<or> k = 5" by linarith
  then show ?thesis
    unfolding read_config_def wss config_fields_def
    by (elim disjE) (simp_all add: get_string_word get_ushort_number b ends fields blank_end[OF seps(3)]
        get_nothing[OF seps(3)] get_nothing[OF e] numeral_eq_Suc)
qed

text \<open>A configuration file that breaks off gives a pool that never serves. The constructor does
  not look whether the extractions have succeeded. When the file ends before the size of the pool,
  both sizes are 0: in every reachable state the pool has no connection, and a client that asks for
  one waits for ever.\<close>

theorem truncated_config_never_serves:
  assumes "config_ok c" and "separators wss" "length wss = 9" "blank end_ws" and "k \<le> 5"
    and "open_pool (Some (layout wss (take k (config_fields c)) end_ws)) now = Inr (c', p0)"
    and "cp_reachable p0 p"
  shows "getConnection p = None \<and> connQueue p = [] \<and> lent p = []"
proof -
  have "p0 = ConnectionPool 0 0 (cf_maxIdleTime c') now"
    using assms(6) truncated_sizes[OF assms(1-5)] by (auto simp: open_pool_def Let_def)
  with assms(7) have "cp_inv 0 0 p" using cp_reachable_inv[of 0 0] by simp
  then have "length (connQueue p) = 0" "length (lent p) = 0" unfolding cp_inv_def live_def by linarith+
  then have "connQueue p = []" "lent p = []" by simp_all
  then show ?thesis by (simp add: getConnection_def)
qed

theorem truncated_config_never_serves_witness:
  "\<exists>c' p0. open_pool (Some ''127.0.0.1 root 123456 yourdb'') 0 = Inr (c', p0) \<and> getConnection p0 = None"
proof -
  have conf: "layout one_space (take 4 (config_fields sample_config)) []
      = ''127.0.0.1 root 123456 yourdb''"
    by (simp add: config_fields_def sample_config_def one_space_def)
  obtain c' p0 where p0: "open_pool (Some ''127.0.0.1 root 123456 yourdb'') 0 = Inr (c', p0)"
    by (simp add: open_pool_def Let_def)
  from truncated_config_never_serves[OF sample_config_ok one_space_ok, of 4 0 c' p0 p0] p0 conf
  show ?thesis by (simp add: cp_reachable.cp_start)
qed

end
