(* ===== verification/Pool_Program.thy ===== *)
theory Pool_Program
  imports Mysql_Config
begin

section \<open>A program that uses the pool (src/mysql/test/pooltest.cpp)\<close>

text \<open>
  The benchmark of the repository: threads insert rows and select them, through connections of
  their own or through those of the pool. A thread is the list of what it has still to do and its
  variable \<open>conn\<close>; the threads run interleaved, one call at a time, beside the two threads that the
  pool starts. The connections of the pool are the objects behind the numbers of \<open>Mysql_Pool\<close>.
\<close>

datatype ('h, 'r) conn_var =
    NoConn
  | LocalConn "('h, 'r) mysql_conn"   \<comment> \<open>an object on the stack\<close>
  | PoolConn nat                      \<comment> \<open>a pointer to a connection of the pool\<close>

datatype bench_action =
    NewConn
  | Connect "char list" "char list" "char list" "char list"  \<comment> \<open>user, password, data base, address\<close>
  | Update "char list"
  | Query "char list"
  | EndConn                           \<comment> \<open>the end of the scope of \<open>conn\<close>\<close>
  | GetInstance
  | Borrow
  | Spawn "bench_action list"
  | Join nat
  | Mark                              \<comment> \<open>\<open>begin = steady_clock::now()\<close>\<close>
  | Report "char list"                \<comment> \<open>from \<open>end = steady_clock::now()\<close> to the output\<close>
  | ReturnMain                        \<comment> \<open>the end of \<open>main\<close> and the destructor of the pool\<close>

type_synonym ('h, 'r) bench_thread = "bench_action list \<times> ('h, 'r) conn_var"

record ('d, 'h, 'r) bench =
  b_lib :: 'd
  b_pool :: "(pool_config \<times> conn_pool) option"      \<comment> \<open>the static object of \<open>getInstance\<close>\<close>
  b_conns :: "nat \<Rightarrow> ('h, 'r) mysql_conn option"     \<comment> \<open>the objects of the pool\<close>
  b_threads :: "('h, 'r) bench_thread list"          \<comment> \<open>the first one is that of \<open>main\<close>\<close>
  b_begin :: int
  b_out :: "char list"                               \<comment> \<open>\<open>cout\<close>\<close>
  b_over :: bool

subsection \<open>The connections of the pool\<close>

text \<open>\<open>addConnection\<close> does not look whether the connection could be made.\<close>

definition make_connection ::
    "('d, 'h, 'r) mysql_api \<Rightarrow> pool_config \<Rightarrow> int \<Rightarrow> 'd \<Rightarrow> (('h, 'r) mysql_conn \<times> 'd) result" where
  "make_connection api cfg now d =
     bind_result (MysqlConn api d) (\<lambda>(c, d1).
       let (ok, d2) = mysql_connect api (cf_user cfg) (cf_passwd cfg) (cf_dbName cfg) (cf_ip cfg)
                        (unat (cf_port cfg)) c d1
       in Inr (refreshAliveTime now c, d2))"

fun make_connections ::
    "('d, 'h, 'r) mysql_api \<Rightarrow> pool_config \<Rightarrow> int \<Rightarrow> nat list \<Rightarrow> (nat \<Rightarrow> ('h, 'r) mysql_conn option) \<Rightarrow> 'd
       \<Rightarrow> ((nat \<Rightarrow> ('h, 'r) mysql_conn option) \<times> 'd) result" where
  "make_connections api cfg now [] cs d = Inr (cs, d)"
| "make_connections api cfg now (n # ns) cs d =
     bind_result (make_connection api cfg now d) (\<lambda>(c, d1).
       make_connections api cfg now ns (cs(n \<mapsto> c)) d1)"

fun delete_connections ::
    "('d, 'h, 'r) mysql_api \<Rightarrow> nat list \<Rightarrow> (nat \<Rightarrow> ('h, 'r) mysql_conn option) \<Rightarrow> 'd
       \<Rightarrow> ((nat \<Rightarrow> ('h, 'r) mysql_conn option) \<times> 'd) result" where
  "delete_connections api [] cs d = Inr (cs, d)"
| "delete_connections api (n # ns) cs d =
     (case cs n of None \<Rightarrow> Inl OutOfBounds
      | Some c \<Rightarrow> delete_connections api ns (cs(n := None)) (MysqlConn_destroy api c d))"

text \<open>The static object is made by the first call; \<open>conf\<close> is the configuration file.\<close>

definition getInstance ::
    "('d, 'h, 'r) mysql_api \<Rightarrow> char list option \<Rightarrow> int \<Rightarrow> ('d, 'h, 'r) bench \<Rightarrow> ('d, 'h, 'r) bench result" where
  "getInstance api conf now s =
     (case b_pool s of Some p \<Rightarrow> Inr s
      | None \<Rightarrow> bind_result (open_pool conf now) (\<lambda>(cfg, p).
          bind_result (make_connections api cfg now [0..<made p] Map.empty (b_lib s)) (\<lambda>(cs, d).
            Inr (s\<lparr>b_pool := Some (cfg, p), b_conns := cs, b_lib := d\<rparr>))))"

definition produce_turn ::
    "('d, 'h, 'r) mysql_api \<Rightarrow> pool_config \<Rightarrow> conn_pool \<Rightarrow> ('d, 'h, 'r) bench \<Rightarrow> ('d, 'h, 'r) bench result" where
  "produce_turn api cfg p s =
     (if currentSize p < maxSize p
      then bind_result (make_connection api cfg (clock p) (b_lib s)) (\<lambda>(c, d).
             Inr (s\<lparr>b_pool := Some (cfg, produce p), b_conns := (b_conns s)(made p \<mapsto> c), b_lib := d\<rparr>))
      else Inr s)"

definition delete_all ::
    "('d, 'h, 'r) mysql_api \<Rightarrow> nat list \<Rightarrow> ('d, 'h, 'r) bench \<Rightarrow> ('d, 'h, 'r) bench result" where
  "delete_all api ns s =
     bind_result (delete_connections api ns (b_conns s) (b_lib s)) (\<lambda>(cs, d).
       Inr (s\<lparr>b_conns := cs, b_lib := d\<rparr>))"

definition recycle_turn ::
    "('d, 'h, 'r) mysql_api \<Rightarrow> pool_config \<Rightarrow> conn_pool \<Rightarrow> ('d, 'h, 'r) bench \<Rightarrow> ('d, 'h, 'r) bench result" where
  "recycle_turn api cfg p s =
     (let p' = recycle_section p;
          gone = take (length (connQueue p) - length (connQueue p')) (connQueue p)
      in delete_all api (map fst gone) (s\<lparr>b_pool := Some (cfg, p')\<rparr>))"

text \<open>
  \<open>~ConnectionPool\<close>, which runs when \<open>main\<close> has returned, deletes the connections in the queue. The
  members go after it, \<open>mtx_\<close> and \<open>cond_\<close> among them, while the detached threads still use them;
  what such a thread does from there on is undefined and not part of the model (\<open>b_over\<close>).
\<close>

definition pool_destructor ::
    "('d, 'h, 'r) mysql_api \<Rightarrow> ('d, 'h, 'r) bench \<Rightarrow> ('d, 'h, 'r) bench result" where
  "pool_destructor api s =
     (case b_pool s of None \<Rightarrow> Inr s
      | Some (cfg, p) \<Rightarrow>
          delete_all api (map fst (connQueue p)) (s\<lparr>b_pool := Some (cfg, ConnectionPool_destroy p)\<rparr>))"

subsection \<open>The threads\<close>

definition prog :: "('d, 'h, 'r) bench \<Rightarrow> nat \<Rightarrow> bench_action list" where
  "prog s k = fst (b_threads s ! k)"

definition var :: "('d, 'h, 'r) bench \<Rightarrow> nat \<Rightarrow> ('h, 'r) conn_var" where
  "var s k = snd (b_threads s ! k)"

definition set_var :: "nat \<Rightarrow> ('h, 'r) conn_var \<Rightarrow> ('d, 'h, 'r) bench \<Rightarrow> ('d, 'h, 'r) bench" where
  "set_var k v s = s\<lparr>b_threads := (b_threads s)[k := (prog s k, v)]\<rparr>"

definition pop_prog :: "nat \<Rightarrow> ('d, 'h, 'r) bench \<Rightarrow> ('d, 'h, 'r) bench" where
  "pop_prog k s = s\<lparr>b_threads := (b_threads s)[k := (tl (prog s k), var s k)]\<rparr>"

text \<open>The object that the variable of thread \<open>k\<close> stands for.\<close>

definition conn_object :: "nat \<Rightarrow> ('d, 'h, 'r) bench \<Rightarrow> ('h, 'r) mysql_conn result" where
  "conn_object k s =
     (case var s k of NoConn \<Rightarrow> Inl NullPointer | LocalConn c \<Rightarrow> Inr c
      | PoolConn n \<Rightarrow> (case b_conns s n of None \<Rightarrow> Inl OutOfBounds | Some c \<Rightarrow> Inr c))"

definition put_object :: "nat \<Rightarrow> ('h, 'r) mysql_conn \<Rightarrow> ('d, 'h, 'r) bench \<Rightarrow> ('d, 'h, 'r) bench" where
  "put_object k c s =
     (case var s k of PoolConn n \<Rightarrow> s\<lparr>b_conns := (b_conns s)(n \<mapsto> c)\<rparr> | _ \<Rightarrow> set_var k (LocalConn c) s)"

text \<open>The destructor of an object on the stack, or the deleter of a pointer from the pool.\<close>

definition end_conn ::
    "('d, 'h, 'r) mysql_api \<Rightarrow> nat \<Rightarrow> ('d, 'h, 'r) bench \<Rightarrow> ('d, 'h, 'r) bench result" where
  "end_conn api k s =
     (case var s k of NoConn \<Rightarrow> Inl NullPointer
      | LocalConn c \<Rightarrow> Inr (set_var k NoConn (s\<lparr>b_lib := MysqlConn_destroy api c (b_lib s)\<rparr>))
      | PoolConn n \<Rightarrow>
          (case b_pool s of None \<Rightarrow> Inl NullPointer
           | Some (cfg, p) \<Rightarrow> bind_result (conn_object k s) (\<lambda>c.
               Inr (set_var k NoConn
                 (s\<lparr>b_conns := (b_conns s)(n \<mapsto> refreshAliveTime (clock p) c),
                    b_pool := Some (cfg, give_back n p)\<rparr>)))))"

definition label_own :: "char list" where
  "label_own =
     [CHR 0xE9, CHR 0x9D, CHR 0x9E, CHR 0xE8, CHR 0xBF, CHR 0x9E, CHR 0xE6, CHR 0x8E,
      CHR 0xA5, CHR 0xE6, CHR 0xB1, CHR 0xA0]
     @ '', ''
     @ [CHR 0xE5, CHR 0x8D, CHR 0x95, CHR 0xE7, CHR 0xBA, CHR 0xBF, CHR 0xE7, CHR 0xA8,
      CHR 0x8B]
     @ '', ''
     @ [CHR 0xE7, CHR 0x94, CHR 0xA8, CHR 0xE6, CHR 0x97, CHR 0xB6]
     @ '': ''"

definition label_pool :: "char list" where
  "label_pool =
     [CHR 0xE8, CHR 0xBF, CHR 0x9E, CHR 0xE6, CHR 0x8E, CHR 0xA5, CHR 0xE6, CHR 0xB1,
      CHR 0xA0]
     @ '', ''
     @ [CHR 0xE5, CHR 0x8D, CHR 0x95, CHR 0xE7, CHR 0xBA, CHR 0xBF, CHR 0xE7, CHR 0xA8,
      CHR 0x8B]
     @ '', ''
     @ [CHR 0xE7, CHR 0x94, CHR 0xA8, CHR 0xE6, CHR 0x97, CHR 0xB6]
     @ '': ''"

definition label_own_threads :: "char list" where
  "label_own_threads =
     [CHR 0xE9, CHR 0x9D, CHR 0x9E, CHR 0xE8, CHR 0xBF, CHR 0x9E, CHR 0xE6, CHR 0x8E,
      CHR 0xA5, CHR 0xE6, CHR 0xB1, CHR 0xA0]
     @ '', ''
     @ [CHR 0xE5, CHR 0xA4, CHR 0x9A, CHR 0xE5, CHR 0x8D, CHR 0x95, CHR 0xE7, CHR 0xBA,
      CHR 0xBF, CHR 0xE7, CHR 0xA8, CHR 0x8B]
     @ '', ''
     @ [CHR 0xE7, CHR 0x94, CHR 0xA8, CHR 0xE6, CHR 0x97, CHR 0xB6]
     @ '': ''"

definition label_pool_threads :: "char list" where
  "label_pool_threads =
     [CHR 0xE8, CHR 0xBF, CHR 0x9E, CHR 0xE6, CHR 0x8E, CHR 0xA5, CHR 0xE6, CHR 0xB1,
      CHR 0xA0]
     @ '', ''
     @ [CHR 0xE5, CHR 0xA4, CHR 0x9A, CHR 0xE5, CHR 0x8D, CHR 0x95, CHR 0xE7, CHR 0xBA,
      CHR 0xBF, CHR 0xE7, CHR 0xA8, CHR 0x8B]
     @ '', ''
     @ [CHR 0xE7, CHR 0x94, CHR 0xA8, CHR 0xE6, CHR 0x97, CHR 0xB6]
     @ '': ''"

definition label_ns :: "char list" where
  "label_ns =
     '' ''
     @ [CHR 0xE7, CHR 0xBA, CHR 0xB3, CHR 0xE7, CHR 0xA7, CHR 0x92]
     @ '', ''"

definition label_ms :: "char list" where
  "label_ms =
     '' ''
     @ [CHR 0xE6, CHR 0xAF, CHR 0xAB, CHR 0xE7, CHR 0xA7, CHR 0x92]"

definition report_text :: "char list \<Rightarrow> int \<Rightarrow> char list" where
  "report_text label len =
     label @ decimal_int len @ label_ns @ decimal_int (len sdiv 1000000) @ label_ms @ [CHR 0x0A]"

text \<open>What thread \<open>k\<close> does; \<open>now\<close> is the time of the steady clock.\<close>

fun bench_act ::
    "('d, 'h, 'r) mysql_api \<Rightarrow> char list option \<Rightarrow> int \<Rightarrow> nat \<Rightarrow> bench_action
       \<Rightarrow> ('d, 'h, 'r) bench \<Rightarrow> ('d, 'h, 'r) bench result" where
  "bench_act api conf now k NewConn s =
     bind_result (MysqlConn api (b_lib s)) (\<lambda>(c, d). Inr (set_var k (LocalConn c) (s\<lparr>b_lib := d\<rparr>)))"
| "bench_act api conf now k (Connect user passwd dbName ip) s =
     bind_result (conn_object k s) (\<lambda>c.
       Inr (s\<lparr>b_lib := snd (mysql_connect api user passwd dbName ip 3306 c (b_lib s))\<rparr>))"
| "bench_act api conf now k (Update sql) s =
     bind_result (conn_object k s) (\<lambda>c.
       Inr (s\<lparr>b_lib := snd (mysql_update api sql c (b_lib s))\<rparr>))"
| "bench_act api conf now k (Query sql) s =
     bind_result (conn_object k s) (\<lambda>c.
       let (ok, c1, d) = mysql_select api sql c (b_lib s)
       in Inr (put_object k c1 (s\<lparr>b_lib := d\<rparr>)))"
| "bench_act api conf now k EndConn s = end_conn api k s"
| "bench_act api conf now k GetInstance s = getInstance api conf now s"
| "bench_act api conf now k Borrow s =
     (case b_pool s of None \<Rightarrow> Inl NullPointer
      | Some (cfg, p) \<Rightarrow>
          (case getConnection p of None \<Rightarrow> Inl NoReturn
           | Some (n, q) \<Rightarrow> Inr (set_var k (PoolConn n) (s\<lparr>b_pool := Some (cfg, q)\<rparr>))))"
| "bench_act api conf now k (Spawn p) s = Inr (s\<lparr>b_threads := b_threads s @ [(p, NoConn)]\<rparr>)"
| "bench_act api conf now k (Join j) s = Inr s"
| "bench_act api conf now k Mark s = Inr (s\<lparr>b_begin := now\<rparr>)"
| "bench_act api conf now k (Report label) s =
     Inr (s\<lparr>b_out := b_out s @ report_text label (now - b_begin s)\<rparr>)"
| "bench_act api conf now k ReturnMain s =
     bind_result (pool_destructor api s) (\<lambda>s1. Inr (s1\<lparr>b_over := True\<rparr>))"

text \<open>
  \<open>getConnection\<close> waits while the queue is empty, \<open>join\<close> until the thread is done.
\<close>

fun bench_ready :: "bench_action \<Rightarrow> ('d, 'h, 'r) bench \<Rightarrow> bool" where
  "bench_ready Borrow s = (case b_pool s of None \<Rightarrow> True | Some (cfg, p) \<Rightarrow> connQueue p \<noteq> [])"
| "bench_ready (Join j) s = (j < length (b_threads s) \<and> prog s j = [])"
| "bench_ready act s = True"

inductive bench_step ::
    "('d, 'h, 'r) mysql_api \<Rightarrow> char list option \<Rightarrow> ('d, 'h, 'r) bench \<Rightarrow> ('d, 'h, 'r) bench \<Rightarrow> bool"
  for api conf where
  thread_acts:
    "\<not> b_over s \<Longrightarrow> k < length (b_threads s) \<Longrightarrow> prog s k = act # rest \<Longrightarrow> bench_ready act s \<Longrightarrow>
     bench_act api conf now k act (pop_prog k s) = Inr s' \<Longrightarrow> bench_step api conf s s'"
| producer:
    "\<not> b_over s \<Longrightarrow> b_pool s = Some (cfg, p) \<Longrightarrow> connQueue p = [] \<Longrightarrow> produce_turn api cfg p s = Inr s' \<Longrightarrow>
     bench_step api conf s s'"
| recycler:
    "\<not> b_over s \<Longrightarrow> b_pool s = Some (cfg, p) \<Longrightarrow> recycle_turn api cfg p s = Inr s' \<Longrightarrow>
     bench_step api conf s s'"
| time_passes:
    "\<not> b_over s \<Longrightarrow> b_pool s = Some (cfg, p) \<Longrightarrow> clock p \<le> t \<Longrightarrow>
     bench_step api conf s (s\<lparr>b_pool := Some (cfg, p\<lparr>clock := t\<rparr>)\<rparr>)"

definition bench_start :: "'d \<Rightarrow> bench_action list \<Rightarrow> ('d, 'h, 'r) bench" where
  "bench_start d main = \<lparr>b_lib = d, b_pool = None, b_conns = (\<lambda>_. None), b_threads = [(main, NoConn)],
     b_begin = 0, b_out = [], b_over = False\<rparr>"

definition bench_reachable ::
    "('d, 'h, 'r) mysql_api \<Rightarrow> char list option \<Rightarrow> 'd \<Rightarrow> bench_action list \<Rightarrow> ('d, 'h, 'r) bench \<Rightarrow> bool" where
  "bench_reachable api conf d main s \<longleftrightarrow> (bench_step api conf)\<^sup>*\<^sup>* (bench_start d main) s"

subsection \<open>The program\<close>

definition insert_own :: "int \<Rightarrow> char list" where
  "insert_own i = snprintf_keep 100
     (''insert into user values('' @ decimal_int i @ '','zhang san', '221B')'')"

definition insert_pooled :: "int \<Rightarrow> char list" where
  "insert_pooled i = snprintf_keep 1024
     (''insert into user values('' @ decimal_int i @ '', 'zhang san', '221B')'')"

definition select_user :: "char list" where
  "select_user = snprintf_keep 1024 ''select * from user''"

definition op1 :: "int \<Rightarrow> int \<Rightarrow> bench_action list" where
  "op1 b e = concat (map (\<lambda>i.
     [NewConn, Connect ''root'' ''123456'' ''yourdb'' ''127.0.0.1'', Update (insert_own i), EndConn])
     [b..e - 1])"

definition op2 :: "int \<Rightarrow> int \<Rightarrow> bench_action list" where
  "op2 b e = concat (map (\<lambda>i. [Borrow, Update (insert_pooled i), EndConn]) [b..e - 1])"

definition op3 :: "int \<Rightarrow> int \<Rightarrow> bench_action list" where
  "op3 b e = concat (map (\<lambda>i.
     [NewConn, Connect ''root'' ''123456'' ''yourdb'' ''192.168.199.115'', Query select_user, EndConn])
     [b..e - 1])"

definition op4 :: "int \<Rightarrow> int \<Rightarrow> bench_action list" where
  "op4 b e = concat (map (\<lambda>i. [Borrow, Query select_user, EndConn]) [b..e - 1])"

text \<open>
  Five threads with a thousand numbers each, which are joined in the same order. The threads of a
  test have the numbers from \<open>n\<close> on.
\<close>

definition five_threads :: "nat \<Rightarrow> (int \<Rightarrow> int \<Rightarrow> bench_action list) \<Rightarrow> bench_action list" where
  "five_threads n op =
     map (\<lambda>i. Spawn (op (1000 * i) (1000 * (i + 1)))) [0, 1, 2, 3, 4] @ map Join [n, n + 1, n + 2, n + 3, n + 4]"

definition test1 :: "bench_action list" where
  "test1 = [Mark] @ op1 0 5000 @ [Report label_own]
     @ [GetInstance, Mark] @ op2 0 5000 @ [Report label_pool]"

definition test2 :: "nat \<Rightarrow> bench_action list" where
  "test2 n = [NewConn, Connect ''root'' ''123456'' ''test'' ''127.0.0.1'', Mark] @ five_threads n op1
       @ [Report label_own_threads, EndConn]
     @ [GetInstance, Mark] @ five_threads (n + 5) op2 @ [Report label_pool_threads]"

definition test3 :: "nat \<Rightarrow> bench_action list" where
  "test3 n = [GetInstance, Mark] @ five_threads n op4 @ [Report label_pool_threads]"

definition bench_main :: "bench_action list" where
  "bench_main = test1 @ test3 1 @ [ReturnMain]"

text \<open>
  \<open>query\<close>, which \<open>main\<close> does not call: the result of the insertion and the rows of the selection,
  as they are printed. \<open>None\<close> if the rows do not end.
\<close>

definition row_text ::
    "('d, 'h, 'r) mysql_api \<Rightarrow> ('h, 'r) mysql_conn \<Rightarrow> 'd \<Rightarrow> char list result" where
  "row_text api c d =
     bind_result (mysql_value api 0 c d) (\<lambda>v0. bind_result (mysql_value api 1 c d) (\<lambda>v1.
     bind_result (mysql_value api 2 c d) (\<lambda>v2. bind_result (mysql_value api 3 c d) (\<lambda>v3.
       Inr (v0 @ '', '' @ v1 @ '', '' @ v2 @ '', '' @ v3 @ [CHR 0x0A])))))"

partial_function (option) print_rows ::
    "('d, 'h, 'r) mysql_api \<Rightarrow> ('h, 'r) mysql_conn \<Rightarrow> 'd \<Rightarrow> char list
       \<Rightarrow> (('h, 'r) mysql_conn \<times> 'd \<times> char list) result option" where
  "print_rows api c d out_text =
     (let (more, c1, d1) = mysql_next api c d
      in if \<not> more then Some (Inr (c1, d1, out_text))
         else case row_text api c1 d1 of Inl e \<Rightarrow> Some (Inl e)
              | Inr t \<Rightarrow> print_rows api c1 d1 (out_text @ t))"

definition query_test ::
    "('d, 'h, 'r) mysql_api \<Rightarrow> 'd \<Rightarrow> (char list \<times> 'd) result option" where
  "query_test api d =
     (case MysqlConn api d of Inl e \<Rightarrow> Some (Inl e)
      | Inr (c, d1) \<Rightarrow>
          let (ok, d2) = mysql_connect api ''root'' ''123456'' ''test'' ''127.0.0.1'' 3306 c d1;
              (flag, d3) = mysql_update api ''insert into user values(1, 'zhang san', '221B')'' c d2;
              text1 = ''flag value:  '' @ decimal_int (if flag then 1 else 0) @ [CHR 0x0A];
              (ok2, c1, d4) = mysql_select api ''select * from user'' c d3
          in map_option (map_sum id (\<lambda>(c2, d5, t). (t, MysqlConn_destroy api c2 d5)))
               (print_rows api c1 d4 text1))"

subsection \<open>Programs that use their connections in turn\<close>

datatype conn_kind = KNone | KLocal | KPool

fun kind :: "('h, 'r) conn_var \<Rightarrow> conn_kind" where
  "kind NoConn = KNone"
| "kind (LocalConn c) = KLocal"
| "kind (PoolConn n) = KPool"

text \<open>
  \<open>m\<close>: the program of the main thread, which alone starts and joins threads; \<open>h\<close>: the pool has been
  made; \<open>u\<close>: the threads not yet joined; \<open>n\<close>: the number of the next thread. Nobody waits while it
  has a connection of the pool.
\<close>

fun prog_ok :: "bool \<Rightarrow> bool \<Rightarrow> nat list \<Rightarrow> nat \<Rightarrow> conn_kind \<Rightarrow> bench_action list \<Rightarrow> bool" where
  "prog_ok m h u n kd [] \<longleftrightarrow> kd = KNone"
| "prog_ok m h u n kd (NewConn # p) \<longleftrightarrow> kd = KNone \<and> prog_ok m h u n KLocal p"
| "prog_ok m h u n kd (Connect a b c d # p) \<longleftrightarrow> kd \<noteq> KNone \<and> prog_ok m h u n kd p"
| "prog_ok m h u n kd (Update q # p) \<longleftrightarrow> kd \<noteq> KNone \<and> prog_ok m h u n kd p"
| "prog_ok m h u n kd (Query q # p) \<longleftrightarrow> kd \<noteq> KNone \<and> prog_ok m h u n kd p"
| "prog_ok m h u n kd (EndConn # p) \<longleftrightarrow> kd \<noteq> KNone \<and> prog_ok m h u n KNone p"
| "prog_ok m h u n kd (GetInstance # p) \<longleftrightarrow> m \<and> prog_ok m True u n kd p"
| "prog_ok m h u n kd (Borrow # p) \<longleftrightarrow> h \<and> kd = KNone \<and> prog_ok m h u n KPool p"
| "prog_ok m h u n kd (Spawn q # p) \<longleftrightarrow> m \<and> prog_ok False h [] 0 KNone q \<and> prog_ok m h (n # u) (Suc n) kd p"
| "prog_ok m h u n kd (Join j # p) \<longleftrightarrow> m \<and> kd \<noteq> KPool \<and> j \<in> set u \<and> prog_ok m h (removeAll j u) n kd p"
| "prog_ok m h u n kd (Mark # p) \<longleftrightarrow> m \<and> prog_ok m h u n kd p"
| "prog_ok m h u n kd (Report l # p) \<longleftrightarrow> m \<and> prog_ok m h u n kd p"
| "prog_ok m h u n kd (ReturnMain # p) \<longleftrightarrow> m \<and> u = [] \<and> kd = KNone \<and> p = []"

definition main_ok :: "bench_action list \<Rightarrow> bool" where
  "main_ok p \<longleftrightarrow> prog_ok True False [] 1 KNone p"

fun next_kind :: "bench_action \<Rightarrow> conn_kind \<Rightarrow> conn_kind" where
  "next_kind NewConn kd = KLocal"
| "next_kind Borrow kd = KPool"
| "next_kind EndConn kd = KNone"
| "next_kind act kd = kd"

fun spawned :: "bench_action \<Rightarrow> bench_action list list" where
  "spawned (Spawn q) = [q]"
| "spawned act = []"

lemma prog_ok_pool: "prog_ok m False u n kd p \<Longrightarrow> prog_ok m True u n kd p"
proof -
  have "prog_ok m h u n kd p \<Longrightarrow> prog_ok m True u n kd p" for h
    by (induction m h u n kd p rule: prog_ok.induct) auto
  then show "prog_ok m False u n kd p \<Longrightarrow> prog_ok m True u n kd p" .
qed

text \<open>The threads as their programs and the kinds of their variables.\<close>

definition progs_ok :: "bool \<Rightarrow> (bench_action list \<times> conn_kind) list \<Rightarrow> bool" where
  "progs_ok h ts \<longleftrightarrow> ts \<noteq> [] \<and> (\<exists>u. set u \<subseteq> {1..<length ts}
     \<and> prog_ok True h u (length ts) (snd (ts ! 0)) (fst (ts ! 0))
     \<and> (\<forall>k \<in> {1..<length ts}. prog_ok False h [] 0 (snd (ts ! k)) (fst (ts ! k))
          \<and> (k \<notin> set u \<longrightarrow> fst (ts ! k) = [])))"

lemma progs_ok_thread:
  assumes "progs_ok h ts" and "k < length ts" and "ts ! k = (p, kd)"
  shows "\<exists>u n. prog_ok (k = 0) h u n kd p"
proof (cases k)
  case 0
  then show ?thesis using assms by (auto simp: progs_ok_def)
next
  case (Suc i)
  then have "k \<in> {1..<length ts}" using assms(2) by simp
  then have "prog_ok False h [] 0 kd p" using assms(1,3) unfolding progs_ok_def by (metis fst_conv snd_conv)
  then show ?thesis using Suc by auto
qed

lemma progs_ok_act:
  assumes ok: "progs_ok h ts" and k: "k < length ts" "ts ! k = (act # rest, kd)"
    and join: "\<And>j. act = Join j \<Longrightarrow> fst (ts ! j) = []"
  shows "progs_ok (h \<or> act = GetInstance)
           (ts[k := (rest, next_kind act kd)] @ map (\<lambda>q. (q, KNone)) (spawned act))"
proof -
  obtain u where u: "ts \<noteq> []" "set u \<subseteq> {1..<length ts}"
    "prog_ok True h u (length ts) (snd (ts ! 0)) (fst (ts ! 0))"
    "\<And>k. k \<in> {1..<length ts} \<Longrightarrow> prog_ok False h [] 0 (snd (ts ! k)) (fst (ts ! k))"
    "\<And>k. k \<in> {1..<length ts} \<Longrightarrow> k \<notin> set u \<Longrightarrow> fst (ts ! k) = []"
    using ok by (auto simp: progs_ok_def)
  show ?thesis
  proof (cases k)
    case 0
    have main: "prog_ok True h u (length ts) kd (act # rest)" using u(3) k 0 by simp
    define u' where "u' = (case act of Spawn q \<Rightarrow> length ts # u | Join j \<Rightarrow> removeAll j u | _ \<Rightarrow> u)"
    have others: "prog_ok False (h \<or> act = GetInstance) [] 0 (snd (ts ! i)) (fst (ts ! i))" if "i \<in> {1..<length ts}" for i
      using u(4)[OF that] by (cases h; cases "act = GetInstance") (auto intro: prog_ok_pool)
    show ?thesis unfolding progs_ok_def
    proof (intro conjI exI[of _ u'])
      show "ts[k := (rest, next_kind act kd)] @ map (\<lambda>q. (q, KNone)) (spawned act) \<noteq> []" using u(1) by simp
      show "set u' \<subseteq> {1..<length (ts[k := (rest, next_kind act kd)] @ map (\<lambda>q. (q, KNone)) (spawned act))}"
        using u(1,2) by (auto simp: u'_def Suc_le_eq split: bench_action.splits)
      show "prog_ok True (h \<or> act = GetInstance) u'
          (length (ts[k := (rest, next_kind act kd)] @ map (\<lambda>q. (q, KNone)) (spawned act)))
          (snd ((ts[k := (rest, next_kind act kd)] @ map (\<lambda>q. (q, KNone)) (spawned act)) ! 0))
          (fst ((ts[k := (rest, next_kind act kd)] @ map (\<lambda>q. (q, KNone)) (spawned act)) ! 0))"
        using main u(1) 0 by (cases act) (auto simp: u'_def nth_append)
      show "\<forall>i \<in> {1..<length (ts[k := (rest, next_kind act kd)] @ map (\<lambda>q. (q, KNone)) (spawned act))}.
          prog_ok False (h \<or> act = GetInstance) [] 0
            (snd ((ts[k := (rest, next_kind act kd)] @ map (\<lambda>q. (q, KNone)) (spawned act)) ! i))
            (fst ((ts[k := (rest, next_kind act kd)] @ map (\<lambda>q. (q, KNone)) (spawned act)) ! i))
          \<and> (i \<notin> set u' \<longrightarrow> fst ((ts[k := (rest, next_kind act kd)] @ map (\<lambda>q. (q, KNone)) (spawned act)) ! i) = [])"
        using others u(5) main join 0 by (cases act) (auto simp: u'_def nth_append less_Suc_eq)
    qed
  next
    case (Suc i)
    have kid: "prog_ok False h [] 0 kd (act # rest)" "k \<in> set u"
      using u(4)[of k] u(5)[of k] k Suc by auto
    have same: "spawned act = []" "(h \<or> act = GetInstance) = h" using kid(1) by (cases act; auto)+
    show ?thesis unfolding progs_ok_def same
      using u k kid Suc by (intro conjI exI[of _ u]) (cases act; auto simp: nth_list_update)+
  qed
qed

subsection \<open>What is sent\<close>

fun update_of :: "bench_action \<Rightarrow> char list list" where
  "update_of (Update q) = [q]"
| "update_of act = []"

definition updates :: "bench_action list \<Rightarrow> char list list" where
  "updates p = concat (map update_of p)"

definition forks :: "bench_action list \<Rightarrow> bench_action list list" where
  "forks p = concat (map spawned p)"

text \<open>The programs of the threads that the main program is and makes, in the order of their numbers.\<close>

definition sources :: "bench_action list \<Rightarrow> bench_action list list" where
  "sources p = p # forks p"

definition sent_by :: "nat \<Rightarrow> (nat \<times> char list) list \<Rightarrow> char list list" where
  "sent_by k l = map snd (filter (\<lambda>e. fst e = k) l)"

lemma sequences_simps [simp]:
  "updates [] = []" "updates (a # p) = update_of a @ updates p" "updates (p @ q) = updates p @ updates q"
  "forks [] = []" "forks (a # p) = spawned a @ forks p" "forks (p @ q) = forks p @ forks q"
  "sent_by k [] = []" "sent_by k (l @ l') = sent_by k l @ sent_by k l'"
  "sent_by k ((i, x) # l) = (if i = k then [x] else []) @ sent_by k l"
  by (simp_all add: updates_def forks_def sent_by_def)

definition sent_ok :: "bench_action list \<Rightarrow> (nat \<times> char list) list \<Rightarrow> bench_action list list \<Rightarrow> bool" where
  "sent_ok main l ps \<longleftrightarrow> (\<exists>qs. sources main = qs @ forks (ps ! 0) \<and> length qs = length ps \<and> ps \<noteq> []
     \<and> (\<forall>e \<in> set l. fst e < length ps)
     \<and> (\<forall>k < length ps. sent_by k l @ updates (ps ! k) = updates (qs ! k)))"

lemma sent_by_new: "\<forall>e \<in> set l. fst e < k \<Longrightarrow> sent_by k l = []"
  by (auto simp: sent_by_def filter_empty_conv)

lemma sent_by_map: "sent_by k (map (\<lambda>q. (i, q)) qs) = (if k = i then qs else [])"
  by (induction qs) auto

lemma sent_ok_act:
  assumes ok: "sent_ok main l ps" and k: "k < length ps" "ps ! k = act # rest"
    and spawn: "spawned act \<noteq> [] \<Longrightarrow> k = 0"
  shows "sent_ok main (l @ map (\<lambda>q. (k, q)) (update_of act)) (ps[k := rest] @ spawned act)"
proof -
  obtain qs where qs: "sources main = qs @ forks (ps ! 0)" "length qs = length ps" "ps \<noteq> []"
    "\<And>e. e \<in> set l \<Longrightarrow> fst e < length ps"
    "\<And>k. k < length ps \<Longrightarrow> sent_by k l @ updates (ps ! k) = updates (qs ! k)"
    using ok by (auto simp: sent_ok_def)
  have len: "length (spawned act) \<le> 1" by (cases act) auto
  have forks: "spawned act @ forks ((ps[k := rest]) ! 0) = forks (ps ! 0)"
    using k spawn qs(3) by (cases "k = 0") auto
  show ?thesis unfolding sent_ok_def
  proof (intro conjI exI[of _ "qs @ spawned act"] allI impI)
    show "sources main = (qs @ spawned act) @ forks ((ps[k := rest] @ spawned act) ! 0)"
      using qs(1,3) forks by (simp add: nth_append)
    show "length (qs @ spawned act) = length (ps[k := rest] @ spawned act)" by (simp add: qs(2))
    show "ps[k := rest] @ spawned act \<noteq> []" using qs(3) by simp
    show "\<forall>e \<in> set (l @ map (\<lambda>q. (k, q)) (update_of act)). fst e < length (ps[k := rest] @ spawned act)"
      using qs(4) k(1) by fastforce
  next
    fix i
    assume i: "i < length (ps[k := rest] @ spawned act)"
    show "sent_by i (l @ map (\<lambda>q. (k, q)) (update_of act)) @ updates ((ps[k := rest] @ spawned act) ! i)
        = updates ((qs @ spawned act) ! i)"
    proof (cases "i < length ps")
      case True
      then show ?thesis using qs(2) qs(5)[OF True] k
        by (auto simp: nth_append sent_by_map nth_list_update)
    next
      case False
      then have "i = length ps" using i len by simp
      moreover have "sent_by (length ps) l = []" using qs(4) by (intro sent_by_new) auto
      ultimately show ?thesis using k(1) qs(2) by (simp add: nth_append sent_by_map)
    qed
  qed
qed

subsection \<open>The pool and its users\<close>

lemma produce_sizes:
  "minSize (produce p) = minSize p \<and> maxSize (produce p) = maxSize p \<and> live p \<le> live (produce p)"
  by (simp add: produce_def count_one_def addConnection_def live_def)

lemma recycle_sizes:
  assumes "recycle_section p = p'"
  shows "\<exists>k \<le> length (connQueue p). connQueue p' = drop k (connQueue p) \<and> lent p' = lent p
    \<and> minSize p' = minSize p \<and> maxSize p' = maxSize p \<and> (minSize p \<le> live p \<longrightarrow> minSize p \<le> live p')"
proof -
  obtain q n where r: "recycle_loop (minSize p) (maxIdleTime p) (clock p) (connQueue p) (currentSize p) = (q, n)"
    by fastforce
  from recycle_loop_spec[OF r] obtain k where k: "q = drop k (connQueue p)" "k \<le> length (connQueue p)"
    "k = 0 \<or> 0 \<le> minSize p \<and> minSize p \<le> int (length (connQueue p)) - int k" by blast
  have "p' = p\<lparr>connQueue := q, currentSize := n\<rparr>" using assms r by (simp add: recycle_section_def)
  then show ?thesis using k by (intro exI[of _ k]) (auto simp: live_def)
qed

definition once :: "nat option list \<Rightarrow> bool" where
  "once L \<longleftrightarrow> distinct (filter (\<lambda>x. x \<noteq> None) L)"

text \<open>
  The pool \<open>P\<close>, the connections that exist, each with the time of its last use, and the
  connections \<open>L\<close> that the threads have.
\<close>

definition pool_side ::
    "int \<Rightarrow> (pool_config \<times> conn_pool) option \<Rightarrow> (nat \<Rightarrow> int option) \<Rightarrow> nat option list \<Rightarrow> bool" where
  "pool_side mn P T L \<longleftrightarrow>
     (case P of None \<Rightarrow> T = (\<lambda>_. None) \<and> (\<forall>x \<in> set L. x = None)
      | Some (cfg, p) \<Rightarrow> minSize p = mn \<and> cp_inv mn (maxSize p) p \<and> mn \<le> live p \<and> dom T = set (ids p)
          \<and> (\<forall>(n, t) \<in> set (connQueue p). T n = Some t)
          \<and> (\<forall>n. n \<in> set (lent p) \<longleftrightarrow> Some n \<in> set L) \<and> once L)"

lemma once_index:
  assumes "once L" and "i < length L" "j < length L" "L ! i = Some n" "L ! j = Some n"
  shows "i = j"
proof (rule ccontr)
  assume "i \<noteq> j"
  then obtain a b where ab: "a < b" "b < length L" "L ! a = Some n" "L ! b = Some n"
    using assms(2-) by (metis linorder_neqE_nat)
  have "once (take b L @ Some n # drop (Suc b) L)" using assms(1) id_take_nth_drop[of b L] ab by simp
  then have "Some n \<notin> set (take b L)" by (auto simp: once_def)
  moreover have "take b L ! a = Some n" "a < length (take b L)" using ab by simp_all
  ultimately show False by (metis nth_mem)
qed

lemma pool_side_made:
  assumes "0 \<le> mn" and "\<And>n. T n = (if n < nat mn then Some now else None)" and "\<forall>x \<in> set L. x = None"
  shows "pool_side mn (Some (cfg, ConnectionPool mn mx idle now)) T L"
  using assms cp_inv_start[OF assms(1), of mx idle now]
  by (auto simp: pool_side_def ConnectionPool_def prefill live_def ids_def once_def dom_def image_image split: if_splits)

lemma pool_side_thread:
  "pool_side mn P T L \<Longrightarrow> pool_side mn P T (L @ [None])"
  by (auto simp: pool_side_def once_def nth_append split: option.splits if_splits)

lemma pool_side_ids:
  assumes "pool_side mn (Some (cfg, p)) T L"
  shows "distinct (map fst (connQueue p))" "distinct (lent p)" "set (map fst (connQueue p)) \<inter> set (lent p) = {}"
    "\<And>n. n \<in> set (ids p) \<Longrightarrow> n < made p" "\<And>n. Some n \<in> set L \<Longrightarrow> n \<in> set (lent p)"
  using assms by (auto simp: pool_side_def cp_inv_def ids_def)

lemma pool_side_idle:
  assumes "pool_side mn (Some (cfg, p)) T L" and "\<forall>x \<in> set L. x = None"
  shows "lent p = []"
proof -
  have "n \<notin> set (lent p)" for n using assms by (auto simp: pool_side_def)
  then show ?thesis by (cases "lent p") auto
qed

lemma split_at:
  assumes "k < length L" and "L ! k = x"
  obtains us vs where "L = us @ x # vs" and "\<And>y. L[k := y] = us @ y # vs"
  using assms id_take_nth_drop[of k L] upd_conv_take_nth_drop[of k L] by metis

lemma pool_side_borrow:
  assumes side: "pool_side mn (Some (cfg, p)) T L" and get: "getConnection p = Some (n, q)"
    and k: "k < length L" "L ! k = None"
  shows "pool_side mn (Some (cfg, q)) T (L[k := Some n])"
proof -
  obtain t r where q: "connQueue p = (n, t) # r" "q = p\<lparr>connQueue := r, lent := n # lent p\<rparr>"
    using get by (auto simp: getConnection_def split: list.splits)
  obtain us vs where L: "L = us @ None # vs" "L[k := Some n] = us @ Some n # vs" using split_at[OF k] by metis
  have "cp_inv mn (maxSize p) q"
    by (rule cp_inv_permute[of _ _ p]) (use side q in \<open>auto simp: pool_side_def ids_def\<close>)
  moreover have "Some n \<notin> set (us @ None # vs)" using pool_side_ids(3,5)[OF side] q(1) by (auto simp: L(1))
  ultimately show ?thesis using side[unfolded L(1)] unfolding L(2)
    by (auto simp: pool_side_def q live_def ids_def once_def)
qed

lemma pool_side_give_back:
  assumes side: "pool_side mn (Some (cfg, p)) T L" and k: "k < length L" "L ! k = Some n"
  shows "pool_side mn (Some (cfg, give_back n p)) (T(n \<mapsto> clock p)) (L[k := None])"
proof -
  have n: "n \<in> set (lent p)" using pool_side_ids(5)[OF side, of n] k by (metis nth_mem)
  obtain us vs where L: "L = us @ Some n # vs" "L[k := None] = us @ None # vs" using split_at[OF k] by metis
  have once: "Some n \<notin> set us" "Some n \<notin> set vs" "once (us @ None # vs)"
    using side[unfolded L(1)] by (auto simp: pool_side_def once_def)
  have m: "mset (ids (give_back n p)) = mset (ids p)" using n by (simp add: ids_def give_back_def)
  then have ids: "set (ids (give_back n p)) = set (ids p)" by (rule mset_eq_setD)
  have "cp_inv mn (maxSize p) (give_back n p)"
    by (rule cp_inv_permute[of _ _ p]) (use side n in \<open>simp_all add: pool_side_def ids_def give_back_def\<close>)
  moreover have "i \<in> set (lent (give_back n p)) \<longleftrightarrow> Some i \<in> set (L[k := None])" for i
    using side[unfolded L(1)] once pool_side_ids(2)[OF side] unfolding L(2) by (auto simp: pool_side_def give_back_def)
  moreover have "live (give_back n p) = live p"
    using mset_eq_length[OF m] by (simp add: live_ids)
  moreover have "\<forall>(i, t) \<in> set (connQueue (give_back n p)). (T(n \<mapsto> clock p)) i = Some t"
    using side n pool_side_ids(3)[OF side] by (fastforce simp: pool_side_def give_back_def)
  moreover have "dom (T(n \<mapsto> clock p)) = set (ids p)" using side n by (auto simp: pool_side_def ids_def)
  ultimately show ?thesis using side ids once(3) unfolding L(2)
    by (simp add: pool_side_def) (simp add: give_back_def)
qed

lemma pool_side_produce:
  assumes side: "pool_side mn (Some (cfg, p)) T L" and e: "connQueue p = []" "currentSize p < maxSize p"
  shows "pool_side mn (Some (cfg, produce p)) (T(made p \<mapsto> clock p)) L"
proof -
  have "cp_inv mn (maxSize p) (produce p)" by (rule cp_inv_produce) (use side e in \<open>simp_all add: pool_side_def\<close>)
  moreover have "live p \<le> live (produce p)" using produce_sizes by simp
  ultimately show ?thesis using side e
    by (auto simp: pool_side_def produce_def count_one_def addConnection_def ids_def)
qed

lemma pool_side_recycle:
  assumes side: "pool_side mn (Some (cfg, p)) T L" and r: "recycle_section p = p'"
    and g: "gone = take (length (connQueue p) - length (connQueue p')) (connQueue p)"
  shows "pool_side mn (Some (cfg, p')) (\<lambda>n. if n \<in> set (map fst gone) then None else T n) L"
    and "set (map fst gone) \<subseteq> dom T" "distinct (map fst gone)"
proof -
  obtain k where k: "k \<le> length (connQueue p)" "connQueue p' = drop k (connQueue p)" "lent p' = lent p"
    "minSize p' = minSize p" "maxSize p' = maxSize p" "minSize p \<le> live p \<longrightarrow> minSize p \<le> live p'"
    using recycle_sizes[OF r] by blast
  then have gone: "gone = take k (connQueue p)" by (simp add: g)
  have inv: "cp_inv mn (maxSize p) p'" using cp_inv_recycle[of mn "maxSize p" p] side r by (simp add: pool_side_def)
  have split: "connQueue p = gone @ connQueue p'" by (simp add: gone k(2))
  have d: "distinct (map fst gone)" "set (map fst gone) \<inter> set (map fst (connQueue p')) = {}"
    "set (map fst gone) \<inter> set (lent p) = {}" "set (map fst gone) \<subseteq> set (ids p)"
    using pool_side_ids(1,3)[OF side] by (auto simp: split ids_def)
  then show "distinct (map fst gone)" "set (map fst gone) \<subseteq> dom T" using side by (simp_all add: pool_side_def)
  have "dom T = set (ids p)" using side by (simp add: pool_side_def)
  then have "dom (\<lambda>n. if n \<in> set (map fst gone) then None else T n) = set (ids p) - set (map fst gone)"
    by (auto simp: dom_def split: if_splits)
  also have "\<dots> = set (ids p')" using d by (auto simp: ids_def split k(3))
  finally have dom: "dom (\<lambda>n. if n \<in> set (map fst gone) then None else T n) = set (ids p')" .
  have "T n = Some t" if "(n, t) \<in> set (connQueue p')" for n t
    using side that by (auto simp: pool_side_def split)
  moreover have "n \<notin> set (map fst gone)" if "(n, t) \<in> set (connQueue p')" for n t
    using d(2) image_eqI[of n fst "(n, t)"] that by (auto simp del: image_eqI)
  ultimately have "\<forall>(n, t) \<in> set (connQueue p'). n \<notin> set (map fst gone) \<and> T n = Some t" by blast
  then show "pool_side mn (Some (cfg, p')) (\<lambda>n. if n \<in> set (map fst gone) then None else T n) L"
    using side k(3-6) inv dom unfolding pool_side_def option.case prod.case by auto
qed

lemma pool_side_time:
  "pool_side mn (Some (cfg, p)) T L \<Longrightarrow> pool_side mn (Some (cfg, p\<lparr>clock := t\<rparr>)) T L"
  using cp_inv_permute[of mn "maxSize p" p "p\<lparr>clock := t\<rparr>"] by (auto simp: pool_side_def ids_def live_def)

subsection \<open>The invariant of the program\<close>

fun borrowed :: "('h, 'r) conn_var \<Rightarrow> nat option" where
  "borrowed (PoolConn n) = Some n"
| "borrowed v = None"

definition lends :: "('d, 'h, 'r) bench \<Rightarrow> nat option list" where
  "lends s = map (\<lambda>t. borrowed (snd t)) (b_threads s)"

definition stamps :: "(nat \<Rightarrow> ('h, 'r) mysql_conn option) \<Rightarrow> nat \<Rightarrow> int option" where
  "stamps cs n = map_option mc_lastActive (cs n)"

lemma stamps_simps [simp]:
  "stamps (cs(n \<mapsto> c)) = (stamps cs)(n \<mapsto> mc_lastActive c)" "stamps (cs(n := None)) = (stamps cs)(n := None)"
  "stamps (\<lambda>_. None) = (\<lambda>_. None)"
  by (auto simp: stamps_def fun_eq_iff)

text \<open>Every object has its handle.\<close>

fun local_open :: "('h, 'r) conn_var \<Rightarrow> bool" where
  "local_open (LocalConn c) \<longleftrightarrow> mc_conn c \<noteq> None"
| "local_open v \<longleftrightarrow> True"

definition all_open :: "(nat \<Rightarrow> ('h, 'r) mysql_conn option) \<Rightarrow> bool" where
  "all_open cs \<longleftrightarrow> (\<forall>n c. cs n = Some c \<longrightarrow> mc_conn c \<noteq> None)"

definition views :: "('d, 'h, 'r) bench \<Rightarrow> (bench_action list \<times> conn_kind) list" where
  "views s = map (\<lambda>t. (fst t, kind (snd t))) (b_threads s)"

definition bench_inv :: "int \<Rightarrow> ('d, 'h, 'r) bench \<Rightarrow> bool" where
  "bench_inv mn s \<longleftrightarrow>
     (if b_over s then b_conns s = (\<lambda>_. None) \<and> (\<forall>t \<in> set (b_threads s). fst t = [])
      else pool_side mn (b_pool s) (stamps (b_conns s)) (lends s))
     \<and> progs_ok (b_pool s \<noteq> None) (views s)
     \<and> all_open (b_conns s) \<and> (\<forall>t \<in> set (b_threads s). local_open (snd t))"

text \<open>\<open>mysql_init\<close> returns null only when there is no memory.\<close>

definition api_ok :: "('d, 'h, 'r) mysql_api \<Rightarrow> bool" where
  "api_ok api \<longleftrightarrow> (\<forall>d. fst (mysql_init api d) \<noteq> None)"

lemma MysqlConn_ok:
  assumes "api_ok api"
  obtains c d' where "MysqlConn api d = Inr (c, d')" and "mc_conn c \<noteq> None"
proof -
  obtain h d1 where "mysql_init api d = (Some h, d1)"
    using assms by (metis api_ok_def not_None_eq prod.collapse)
  then show thesis using that by (simp add: MysqlConn_def)
qed

lemma make_connection_ok:
  assumes "api_ok api"
  obtains c d' where "make_connection api cfg now d = Inr (c, d')" and "mc_conn c \<noteq> None" "mc_lastActive c = now"
proof -
  obtain c d1 where "MysqlConn api d = Inr (c, d1)" "mc_conn c \<noteq> None" by (rule MysqlConn_ok[OF assms])
  then have "make_connection api cfg now d = Inr (refreshAliveTime now c, snd (mysql_connect api (cf_user cfg)
      (cf_passwd cfg) (cf_dbName cfg) (cf_ip cfg) (unat (cf_port cfg)) c d1))"
    by (simp add: make_connection_def case_prod_unfold Let_def)
  then show thesis by (rule that) (simp_all add: refreshAliveTime_def \<open>mc_conn c \<noteq> None\<close>[simplified])
qed

lemma make_connections_ok:
  assumes "api_ok api"
  shows "all_open cs \<Longrightarrow> \<exists>cs' d'. make_connections api cfg now ns cs d = Inr (cs', d') \<and> all_open cs'
    \<and> stamps cs' = (\<lambda>n. if n \<in> set ns then Some now else stamps cs n)"
proof (induction ns arbitrary: cs d)
  case (Cons n ns)
  obtain c d1 where c: "make_connection api cfg now d = Inr (c, d1)" "mc_conn c \<noteq> None" "mc_lastActive c = now"
    by (rule make_connection_ok[OF assms])
  have "all_open (cs(n \<mapsto> c))" using Cons.prems c(2) by (auto simp: all_open_def)
  then obtain cs' d' where "make_connections api cfg now ns (cs(n \<mapsto> c)) d1 = Inr (cs', d')" "all_open cs'"
    "stamps cs' = (\<lambda>i. if i \<in> set ns then Some now else stamps (cs(n \<mapsto> c)) i)" using Cons.IH by blast
  moreover from this have "stamps cs' = (\<lambda>i. if i \<in> set (n # ns) then Some now else stamps cs i)"
    by (auto simp: fun_eq_iff c(3))
  ultimately show ?case using c(1) by simp
qed simp

lemma delete_connections_ok:
  assumes "distinct ns" and "set ns \<subseteq> dom (stamps cs)" and "all_open cs"
  shows "\<exists>cs' d'. delete_connections api ns cs d = Inr (cs', d') \<and> all_open cs'
    \<and> stamps cs' = (\<lambda>n. if n \<in> set ns then None else stamps cs n)"
  using assms
proof (induction ns arbitrary: cs d)
  case (Cons n ns)
  obtain c where c: "cs n = Some c" using Cons.prems(2) by (auto simp: stamps_def)
  have "set ns \<subseteq> dom (stamps (cs(n := None)))" using Cons.prems(1,2) by (fastforce simp: stamps_def dom_def)
  moreover have "all_open (cs(n := None))" using Cons.prems(3) by (auto simp: all_open_def)
  ultimately obtain cs' d' where
    "delete_connections api ns (cs(n := None)) (MysqlConn_destroy api c d) = Inr (cs', d')" "all_open cs'"
    "stamps cs' = (\<lambda>i. if i \<in> set ns then None else stamps (cs(n := None)) i)"
    using Cons.IH Cons.prems(1) by (meson distinct.simps(2))
  moreover from this have "stamps cs' = (\<lambda>i. if i \<in> set (n # ns) then None else stamps cs i)"
    by (auto simp: fun_eq_iff)
  ultimately show ?case using c by simp
qed simp

lemma select_keeps:
  "mysql_select api q c d = (ok, c', d') \<Longrightarrow> mc_conn c' = mc_conn c \<and> mc_lastActive c' = mc_lastActive c"
  by (auto simp: mysql_select_def freeResult_def Let_def split: option.splits prod.splits)

subsection \<open>Every action keeps the invariant\<close>

lemma progs_ok_return:
  assumes ok: "progs_ok h ts" and k: "k < length ts" "ts ! k = (ReturnMain # rest, kd)"
  shows "k = 0 \<and> rest = [] \<and> (\<forall>i \<in> {1..<length ts}. fst (ts ! i) = [])"
proof -
  obtain u where u: "prog_ok True h u (length ts) (snd (ts ! 0)) (fst (ts ! 0))"
    "\<And>k. k \<in> {1..<length ts} \<Longrightarrow> prog_ok False h [] 0 (snd (ts ! k)) (fst (ts ! k))"
    "\<And>k. k \<in> {1..<length ts} \<Longrightarrow> k \<notin> set u \<Longrightarrow> fst (ts ! k) = []"
    using ok by (auto simp: progs_ok_def)
  have k0: "k = 0"
  proof (rule ccontr)
    assume "k \<noteq> 0"
    then show False using u(2)[of k] k by simp
  qed
  with u(1) k have "u = []" "rest = []" by simp_all
  with u(3) k0 show ?thesis by simp
qed

lemma bench_invI:
  assumes inv: "bench_inv mn s" and k: "k < length (b_threads s)" "prog s k = act # rest"
    and join: "\<And>j. act = Join j \<Longrightarrow> j < length (b_threads s) \<and> prog s j = []"
    and threads: "b_threads s' = (b_threads s)[k := (rest, v)] @ map (\<lambda>q. (q, NoConn)) (spawned act)"
    and v: "kind v = next_kind act (kind (var s k))" "local_open v"
    and pool: "b_pool s' \<noteq> None \<longleftrightarrow> b_pool s \<noteq> None \<or> act = GetInstance" and conns: "all_open (b_conns s')"
    and side: "\<not> b_over s' \<and> pool_side mn (b_pool s') (stamps (b_conns s'))
                   ((lends s)[k := borrowed v] @ map (\<lambda>_. None) (spawned act))
               \<or> b_over s' \<and> act = ReturnMain \<and> b_conns s' = (\<lambda>_. None)"
  shows "bench_inv mn s'"
proof -
  have progs: "progs_ok (b_pool s \<noteq> None) (views s)"
    and opens: "\<forall>t \<in> set (b_threads s). local_open (snd t)"
    using inv by (simp_all add: bench_inv_def)
  have vk: "k < length (views s)" "views s ! k = (act # rest, kind (var s k))"
    using k by (simp_all add: views_def prog_def var_def)
  have views: "views s' = (views s)[k := (rest, next_kind act (kind (var s k)))] @ map (\<lambda>q. (q, KNone)) (spawned act)"
    by (simp add: views_def threads v(1) map_update comp_def)
  have p: "progs_ok (b_pool s' \<noteq> None) (views s')"
    unfolding pool views by (rule progs_ok_act[OF progs vk]) (use join in \<open>auto simp: views_def prog_def\<close>)
  have o: "\<forall>t \<in> set (b_threads s'). local_open (snd t)"
    using opens v(2) by (auto simp: threads dest!: subsetD[OF set_update_subset_insert])
  have "\<forall>t \<in> set (b_threads s'). fst t = []" if r: "act = ReturnMain"
  proof -
    have "rest = []" "\<And>i. 0 < i \<Longrightarrow> i < length (b_threads s) \<Longrightarrow> fst (b_threads s ! i) = []" "k = 0"
      using progs_ok_return[OF progs vk(1) vk(2)[unfolded r]] by (auto simp: views_def)
    then have "fst ((b_threads s)[k := (rest, v)] ! i) = []" if "i < length (b_threads s)" for i
      using that by (cases "i = k") auto
    then show ?thesis using r by (fastforce simp: threads in_set_conv_nth)
  qed
  moreover have "lends s' = (lends s)[k := borrowed v] @ map (\<lambda>_. None) (spawned act)"
    by (simp add: lends_def threads map_update comp_def)
  ultimately show ?thesis using side p o conns by (auto simp: bench_inv_def)
qed

lemma pop_prog_simps [simp]:
  "b_lib (pop_prog k s) = b_lib s" "b_pool (pop_prog k s) = b_pool s" "b_conns (pop_prog k s) = b_conns s"
  "b_over (pop_prog k s) = b_over s"
  "b_threads (pop_prog k s) = (b_threads s)[k := (tl (prog s k), var s k)]"
  by (simp_all add: pop_prog_def)

lemma set_var_simps [simp]:
  "b_lib (set_var k v s) = b_lib s" "b_pool (set_var k v s) = b_pool s" "b_conns (set_var k v s) = b_conns s"
  "b_over (set_var k v s) = b_over s"
  "b_threads (set_var k v s) = (b_threads s)[k := (prog s k, v)]"
  by (simp_all add: set_var_def)

lemma thread_simps [simp]:
  "k < length (b_threads s) \<Longrightarrow> prog (pop_prog k s) k = tl (prog s k)"
  "k < length (b_threads s) \<Longrightarrow> var (pop_prog k s) k = var s k"
  "prog (s\<lparr>b_lib := d\<rparr>) = prog s" "var (s\<lparr>b_lib := d\<rparr>) = var s"
  "prog (s\<lparr>b_pool := p\<rparr>) = prog s" "var (s\<lparr>b_pool := p\<rparr>) = var s"
  "prog (s\<lparr>b_conns := cs\<rparr>) = prog s" "var (s\<lparr>b_conns := cs\<rparr>) = var s"
  "k < length (b_threads s) \<Longrightarrow> (b_threads s)[k := (prog s k, var s k)] = b_threads s"
  by (simp_all add: prog_def var_def fun_eq_iff)

lemma lends_same: "k < length (b_threads s) \<Longrightarrow> (lends s)[k := borrowed (var s k)] = lends s"
  by (simp add: lends_def var_def list_update_same_conv)

lemma conn_object_ok:
  assumes side: "pool_side mn (b_pool s) (stamps (b_conns s)) (lends s)" and opens: "all_open (b_conns s)"
    and k: "k < length (b_threads s)" "local_open (var s k)" and kind: "kind (var s k) \<noteq> KNone"
  shows "\<exists>c. conn_object k s = Inr c \<and> mc_conn c \<noteq> None"
proof (cases "var s k")
  case (PoolConn n)
  then have n: "Some n \<in> set (lends s)" using k by (force simp: lends_def var_def in_set_conv_nth)
  then obtain cfg p where p: "b_pool s = Some (cfg, p)" using side by (auto simp: pool_side_def split: option.splits)
  have "n \<in> set (ids p)" using pool_side_ids(5)[OF side[unfolded p] n] by (simp add: ids_def)
  then have "n \<in> dom (stamps (b_conns s))" using side p by (simp add: pool_side_def)
  then obtain c where "b_conns s n = Some c" by (auto simp: stamps_def)
  then show ?thesis using PoolConn opens by (auto simp: conn_object_def all_open_def)
qed (use kind k(2) in \<open>auto simp: conn_object_def\<close>)

lemma conn_object_pop: "k < length (b_threads s) \<Longrightarrow> conn_object k (pop_prog k s) = conn_object k s"
  by (simp add: conn_object_def split: conn_var.split)

text \<open>Thread \<open>k\<close> is about to do \<open>act\<close>.\<close>

definition acting ::
    "int \<Rightarrow> ('d, 'h, 'r) bench \<Rightarrow> nat \<Rightarrow> bench_action \<Rightarrow> bench_action list \<Rightarrow> bool" where
  "acting mn s k act rest \<longleftrightarrow> bench_inv mn s \<and> \<not> b_over s \<and> k < length (b_threads s)
     \<and> prog s k = act # rest \<and> bench_ready act s"

lemma actingD:
  assumes "acting mn s k act rest"
  shows "pool_side mn (b_pool s) (stamps (b_conns s)) (lends s)" "all_open (b_conns s)" "local_open (var s k)"
    "k < length (b_threads s)" "prog s k = act # rest" "\<not> b_over s" "bench_ready act s"
    "\<exists>u n. prog_ok (k = 0) (b_pool s \<noteq> None) u n (kind (var s k)) (act # rest)"
proof -
  have k: "bench_inv mn s" "k < length (b_threads s)" "prog s k = act # rest" "\<not> b_over s" "bench_ready act s"
    using assms by (simp_all add: acting_def)
  then show "pool_side mn (b_pool s) (stamps (b_conns s)) (lends s)" "all_open (b_conns s)"
    "k < length (b_threads s)" "prog s k = act # rest" "\<not> b_over s" "bench_ready act s"
    by (simp_all add: bench_inv_def)
  show "local_open (var s k)" using k(1,2) by (simp add: bench_inv_def var_def)
  have "views s ! k = (act # rest, kind (var s k))" "k < length (views s)"
    using k(2,3) by (simp_all add: views_def prog_def var_def)
  then show "\<exists>u n. prog_ok (k = 0) (b_pool s \<noteq> None) u n (kind (var s k)) (act # rest)"
    using k(1) by (intro progs_ok_thread[of _ "views s"]) (simp_all add: bench_inv_def)
qed

lemma actingI:
  assumes act: "acting mn s k act rest"
    and "b_threads s' = (b_threads s)[k := (rest, v)] @ map (\<lambda>q. (q, NoConn)) (spawned act)"
    and "kind v = next_kind act (kind (var s k))" "local_open v"
    and "b_pool s' \<noteq> None \<longleftrightarrow> b_pool s \<noteq> None \<or> act = GetInstance" and "all_open (b_conns s')"
    and "\<not> b_over s' \<and> pool_side mn (b_pool s') (stamps (b_conns s'))
                   ((lends s)[k := borrowed v] @ map (\<lambda>_. None) (spawned act))
               \<or> b_over s' \<and> act = ReturnMain \<and> b_conns s' = (\<lambda>_. None)"
  shows "bench_inv mn s'"
  by (rule bench_invI[OF _ actingD(4,5)[OF act] _ assms(2-)]) (use act in \<open>auto simp: acting_def\<close>)

lemma acting_object:
  assumes act: "acting mn s k act rest" and kind: "kind (var s k) \<noteq> KNone"
  shows "\<exists>c. conn_object k (pop_prog k s) = Inr c \<and> mc_conn c \<noteq> None"
  using conn_object_ok[OF actingD(1,2,4,3)[OF act] kind] conn_object_pop[OF actingD(4)[OF act]] by simp

text \<open>An action that works on an object that stays what it is.\<close>

lemma act_on_object:
  assumes act: "acting mn s k act rest" and spawned: "spawned act = []" and same: "next_kind act (kind (var s k)) = kind (var s k)"
    and other: "act \<noteq> GetInstance"
    and s': "b_threads s' = (b_threads s)[k := (rest, var s k)]" "b_pool s' = b_pool s" "b_conns s' = b_conns s"
      "b_over s' = b_over s"
  shows "bench_inv mn s'"
  by (rule actingI[OF act, of _ "var s k"])
    (use actingD[OF act] assms(2-) in \<open>simp_all add: lends_same\<close>)

lemma act_simple:
  assumes api: "api_ok api" and act: "acting mn s k act rest"
    and simple: "act \<in> {NewConn, Mark} \<union> range Join \<union> range Report \<union> range Spawn"
  shows "\<exists>s'. bench_act api conf now k act (pop_prog k s) = Inr s' \<and> bench_inv mn s'"
proof -
  note d = actingD[OF act]
  consider (new) "act = NewConn" | (same) "act = Mark \<or> (\<exists>j. act = Join j) \<or> (\<exists>l. act = Report l)"
    | (spawn) q where "act = Spawn q" using simple by auto
  then show ?thesis
  proof cases
    case new
    obtain c d' where c: "MysqlConn api (b_lib s) = Inr (c, d')" "mc_conn c \<noteq> None" by (rule MysqlConn_ok[OF api])
    let ?s' = "set_var k (LocalConn c) ((pop_prog k s)\<lparr>b_lib := d'\<rparr>)"
    have "kind (var s k) = KNone" using d(8) new by auto
    then have "borrowed (var s k) = None" by (cases "var s k") auto
    then have "bench_inv mn ?s'"
      by (intro actingI[OF act, of _ "LocalConn c"])
        (use d c(2) new lends_same[OF d(4)] in \<open>auto simp: split: option.splits\<close>)
    then show ?thesis using c(1) new by simp
  next
    case same
    have "bench_inv mn s'" if "b_threads s' = (b_threads s)[k := (rest, var s k)]"
      "b_pool s' = b_pool s" "b_conns s' = b_conns s" "b_over s' = b_over s"
      for s' :: "('a, 'b, 'c) bench"
      by (rule act_on_object[OF act]) (use same that in auto)
    then show ?thesis using same d(5) by auto
  next
    case spawn
    have "bench_inv mn ((pop_prog k s)\<lparr>b_threads := b_threads (pop_prog k s) @ [(q, NoConn)]\<rparr>)"
      by (intro actingI[OF act, of _ "var s k"])
        (use d spawn in \<open>auto simp: lends_same intro: pool_side_thread\<close>)
    then show ?thesis using spawn by simp
  qed
qed

lemma act_connection:
  assumes act: "acting mn s k act rest" and a: "(\<exists>a b c d. act = Connect a b c d) \<or> (\<exists>q. act = Update q)"
  shows "\<exists>s'. bench_act api conf now k act (pop_prog k s) = Inr s' \<and> bench_inv mn s'"
proof -
  note d = actingD[OF act]
  have "kind (var s k) \<noteq> KNone" using d(8) a by auto
  then obtain c where c: "conn_object k (pop_prog k s) = Inr c" "mc_conn c \<noteq> None"
    using acting_object[OF act] by blast
  have "bench_inv mn s'" if "b_threads s' = (b_threads s)[k := (rest, var s k)]"
      "b_pool s' = b_pool s" "b_conns s' = b_conns s"
      "b_over s' = b_over s" for s' :: "('a, 'b, 'c) bench"
    by (rule act_on_object[OF act]) (use a that in auto)
  then show ?thesis using a c d(5) by auto
qed

lemma act_query:
  assumes act: "acting mn s k (Query q) rest"
  shows "\<exists>s'. bench_act api conf now k (Query q) (pop_prog k s) = Inr s' \<and> bench_inv mn s'"
proof -
  note d = actingD[OF act]
  obtain c where c: "conn_object k (pop_prog k s) = Inr c" "mc_conn c \<noteq> None"
    using acting_object[OF act] d(8) by auto
  obtain ok c1 d1 where sel: "mysql_select api q c (b_lib s) = (ok, c1, d1)" by (metis prod_cases3)
  note keeps = select_keeps[OF sel]
  define s' where "s' = put_object k c1 ((pop_prog k s)\<lparr>b_lib := d1\<rparr>)"
  have "bench_inv mn s'"
  proof (cases "var s k")
    case (PoolConn n)
    have n: "b_conns s n = Some c" using c(1) d(4) PoolConn by (auto simp: conn_object_def split: option.splits)
    have "stamps ((b_conns s)(n \<mapsto> c1)) = stamps (b_conns s)" using n keeps by (auto simp: stamps_def fun_eq_iff)
    moreover have "all_open ((b_conns s)(n \<mapsto> c1))" using d(2) c(2) keeps by (auto simp: all_open_def)
    ultimately show ?thesis
      by (intro actingI[OF act, of _ "var s k"])
        (use d PoolConn lends_same[OF d(4)] in \<open>auto simp: s'_def put_object_def simp del: stamps_simps\<close>)
  next
    case (LocalConn c0)
    then show ?thesis
      by (intro actingI[OF act, of _ "LocalConn c1"])
        (use d c(2) keeps lends_same[OF d(4)] in \<open>auto simp: s'_def put_object_def\<close>)
  qed (use d(8) in simp)
  then show ?thesis using c sel by (simp add: s'_def)
qed

lemma act_end:
  assumes act: "acting mn s k EndConn rest"
  shows "\<exists>s'. bench_act api conf now k EndConn (pop_prog k s) = Inr s' \<and> bench_inv mn s'"
proof -
  note d = actingD[OF act]
  show ?thesis
  proof (cases "var s k")
    case (LocalConn c)
    have "bench_inv mn (set_var k NoConn ((pop_prog k s)\<lparr>b_lib := MysqlConn_destroy api c (b_lib s)\<rparr>))"
      by (intro actingI[OF act, of _ NoConn]) (use d LocalConn lends_same[OF d(4)] in auto)
    then show ?thesis using LocalConn d(4) by (simp add: end_conn_def)
  next
    case (PoolConn n)
    then have kn: "k < length (lends s)" "lends s ! k = Some n" using d(4) by (simp_all add: lends_def var_def)
    then have "Some n \<in> set (lends s)" by (metis nth_mem)
    then obtain cfg p where p: "b_pool s = Some (cfg, p)" using d(1) by (auto simp: pool_side_def split: option.splits)
    obtain c where c: "conn_object k (pop_prog k s) = Inr c" "mc_conn c \<noteq> None"
      using acting_object[OF act] PoolConn by auto
    define s' where "s' = set_var k NoConn ((pop_prog k s)
      \<lparr>b_conns := (b_conns s)(n \<mapsto> refreshAliveTime (clock p) c), b_pool := Some (cfg, give_back n p)\<rparr>)"
    have "all_open (b_conns s')" using d(2) c(2) by (auto simp: s'_def all_open_def refreshAliveTime_def)
    moreover have "pool_side mn (b_pool s') (stamps (b_conns s')) ((lends s)[k := None])"
      using pool_side_give_back[OF d(1)[unfolded p] kn] by (simp add: s'_def refreshAliveTime_def)
    ultimately have "bench_inv mn s'"
      by (intro actingI[OF act, of _ NoConn]) (use d p in \<open>auto simp: s'_def\<close>)
    then show ?thesis using PoolConn d(4) p c by (simp add: end_conn_def s'_def)
  qed (use d(8) in simp)
qed

lemma act_borrow:
  assumes act: "acting mn s k Borrow rest"
  shows "\<exists>s'. bench_act api conf now k Borrow (pop_prog k s) = Inr s' \<and> bench_inv mn s'"
proof -
  note d = actingD[OF act]
  obtain cfg p where p: "b_pool s = Some (cfg, p)" using d(8) by auto
  then obtain n q where q: "getConnection p = Some (n, q)"
    using d(7) by (cases "connQueue p") (auto simp: getConnection_def)
  have "kind (var s k) = KNone" using d(8) by simp
  then have k: "k < length (lends s)" "lends s ! k = None"
    using d(4) by (auto simp: lends_def var_def elim: kind.elims)
  define s' where "s' = set_var k (PoolConn n) ((pop_prog k s)\<lparr>b_pool := Some (cfg, q)\<rparr>)"
  have "pool_side mn (b_pool s') (stamps (b_conns s')) ((lends s)[k := Some n])"
    using pool_side_borrow[OF d(1)[unfolded p] q k] by (simp add: s'_def)
  then have "bench_inv mn s'"
    by (intro actingI[OF act, of _ "PoolConn n"]) (use d p in \<open>auto simp: s'_def\<close>)
  then show ?thesis using p q by (simp add: s'_def)
qed

lemma made_start: "0 \<le> mn \<Longrightarrow> made (ConnectionPool mn mx idle now) = nat mn"
  by (simp add: ConnectionPool_def prefill)

lemma act_instance:
  assumes api: "api_ok api" and act: "acting mn s k GetInstance rest"
    and conf: "conf = Some text'" "mn = cf_minSize (read_config text')" "0 \<le> mn"
  shows "\<exists>s'. bench_act api conf now k GetInstance (pop_prog k s) = Inr s' \<and> bench_inv mn s'"
proof -
  note d = actingD[OF act]
  show ?thesis
  proof (cases "b_pool s")
    case (Some p)
    have "bench_inv mn (pop_prog k s)"
      by (intro actingI[OF act, of _ "var s k"]) (use d Some lends_same[OF d(4)] in auto)
    then show ?thesis using Some by (simp add: getInstance_def)
  next
    case None
    define cfg where "cfg = read_config text'"
    define p where "p = ConnectionPool mn (cf_maxSize cfg) (cf_maxIdleTime cfg) now"
    have opened: "open_pool conf now = Inr (cfg, p)" by (simp add: open_pool_def conf p_def cfg_def Let_def)
    obtain cs d' where cs: "make_connections api cfg now [0..<made p] Map.empty (b_lib s) = Inr (cs, d')"
      "all_open cs" "stamps cs = (\<lambda>n. if n \<in> set [0..<made p] then Some now else stamps (\<lambda>_. None) n)"
      using make_connections_ok[OF api, of "\<lambda>_. None"] by (force simp: all_open_def)
    define s' where "s' = (pop_prog k s)\<lparr>b_pool := Some (cfg, p), b_conns := cs, b_lib := d'\<rparr>"
    have "\<forall>x \<in> set (lends s). x = None" using d(1) None by (simp add: pool_side_def)
    then have "pool_side mn (b_pool s') (stamps (b_conns s')) (lends s)"
      unfolding s'_def p_def
      by (simp, intro pool_side_made) (use conf cs(3) in \<open>auto simp: p_def made_start\<close>)
    then have "bench_inv mn s'"
      by (intro actingI[OF act, of _ "var s k"]) (use d cs(2) lends_same[OF d(4)] in \<open>auto simp: s'_def\<close>)
    then show ?thesis using None opened cs(1) by (simp add: getInstance_def s'_def)
  qed
qed

lemma act_return:
  assumes act: "acting mn s k ReturnMain rest"
  shows "\<exists>s'. bench_act api conf now k ReturnMain (pop_prog k s) = Inr s' \<and> bench_inv mn s'"
proof -
  note d = actingD[OF act]
  have v: "k = 0" "rest = []" "kind (var s k) = KNone" using d(8) by auto
  have inv: "progs_ok (b_pool s \<noteq> None) (views s)" using act by (simp add: acting_def bench_inv_def)
  have vk: "k < length (views s)" "views s ! k = (ReturnMain # rest, kind (var s k))"
    using d(4,5) by (simp_all add: views_def prog_def var_def)
  have "borrowed (snd (b_threads s ! i)) = None" if i: "i < length (b_threads s)" for i
  proof (cases "i = 0")
    case True
    then show ?thesis using v by (auto simp: var_def elim: kind.elims)
  next
    case False
    then have "fst (views s ! i) = []" using progs_ok_return[OF inv vk] i by (simp add: views_def)
    then obtain u n where "prog_ok (i = 0) (b_pool s \<noteq> None) u n (snd (views s ! i)) []"
      using progs_ok_thread[OF inv, of i] i by (metis length_map prod.collapse views_def)
    then show ?thesis using i by (auto simp: views_def elim: kind.elims)
  qed
  then have none: "\<forall>x \<in> set (lends s). x = None" by (fastforce simp: lends_def in_set_conv_nth)
  show ?thesis
  proof (cases "b_pool s")
    case None
    have "stamps (b_conns s) = (\<lambda>_. None)" using d(1) None by (simp add: pool_side_def)
    then have "b_conns s = (\<lambda>_. None)" by (auto simp: stamps_def fun_eq_iff)
    then have "bench_inv mn ((pop_prog k s)\<lparr>b_over := True\<rparr>)"
      by (intro actingI[OF act, of _ "var s k"]) (use d None in \<open>auto simp: all_open_def\<close>)
    then show ?thesis using None by (simp add: pool_destructor_def)
  next
    case (Some cp)
    then obtain cfg p where p: "b_pool s = Some (cfg, p)" by (cases cp) auto
    have "lent p = []" using pool_side_idle[OF d(1)[unfolded p] none] .
    then have dom: "dom (stamps (b_conns s)) = set (map fst (connQueue p))"
      using d(1) p by (simp add: pool_side_def ids_def)
    then obtain cs d' where cs: "delete_connections api (map fst (connQueue p)) (b_conns s) (b_lib s) = Inr (cs, d')"
      "stamps cs = (\<lambda>n. if n \<in> set (map fst (connQueue p)) then None else stamps (b_conns s) n)"
      using delete_connections_ok[OF pool_side_ids(1)[OF d(1)[unfolded p]] _ d(2), of api "b_lib s"] by blast
    have "stamps cs n = None" for n using cs(2) dom by (auto simp: dom_def)
    then have "cs = (\<lambda>_. None)" by (auto simp: stamps_def fun_eq_iff)
    moreover define s' where "s' = (pop_prog k s)\<lparr>b_pool := Some (cfg, ConnectionPool_destroy p), b_conns := cs, b_lib := d', b_over := True\<rparr>"
    ultimately have "bench_inv mn s'"
      by (intro actingI[OF act, of _ "var s k"]) (use d p in \<open>auto simp: all_open_def s'_def\<close>)
    then show ?thesis using p cs(1) by (simp add: pool_destructor_def delete_all_def s'_def)
  qed
qed

lemma act_ok:
  assumes api: "api_ok api" and act: "acting mn s k act rest"
    and conf: "conf = Some text'" "mn = cf_minSize (read_config text')" "0 \<le> mn"
  shows "\<exists>s'. bench_act api conf now k act (pop_prog k s) = Inr s' \<and> bench_inv mn s'"
proof (cases act)
  case (Query q)
  then show ?thesis using act_query act by simp
next
  case EndConn
  then show ?thesis using act_end act by simp
next
  case GetInstance
  then show ?thesis using act_instance[OF api _ conf] act by simp
next
  case Borrow
  then show ?thesis using act_borrow act by simp
next
  case ReturnMain
  then show ?thesis using act_return act by simp
qed (use act_simple[OF api act] act_connection[OF act] in auto)

lemma producer_ok:
  assumes api: "api_ok api" and inv: "bench_inv mn s" and "\<not> b_over s" "b_pool s = Some (cfg, p)" "connQueue p = []"
  shows "\<exists>s'. produce_turn api cfg p s = Inr s' \<and> bench_inv mn s'"
proof (cases "currentSize p < maxSize p")
  case True
  obtain c d' where c: "make_connection api cfg (clock p) (b_lib s) = Inr (c, d')" "mc_conn c \<noteq> None"
    "mc_lastActive c = clock p" by (rule make_connection_ok[OF api])
  have "pool_side mn (Some (cfg, produce p)) ((stamps (b_conns s))(made p \<mapsto> clock p)) (lends s)"
    by (rule pool_side_produce) (use inv assms(3-5) True in \<open>simp_all add: bench_inv_def\<close>)
  then have "bench_inv mn (s\<lparr>b_pool := Some (cfg, produce p), b_conns := (b_conns s)(made p \<mapsto> c), b_lib := d'\<rparr>)"
    using inv assms(3,4) c(2,3) by (auto simp: bench_inv_def all_open_def lends_def views_def)
  then show ?thesis using c(1) True by (simp add: produce_turn_def)
qed (use inv in \<open>simp add: produce_turn_def\<close>)

lemma recycler_ok:
  assumes inv: "bench_inv mn s" and "\<not> b_over s" "b_pool s = Some (cfg, p)"
  shows "\<exists>s'. recycle_turn api cfg p s = Inr s' \<and> bench_inv mn s'"
proof -
  define p' where "p' = recycle_section p"
  define gone where "gone = take (length (connQueue p) - length (connQueue p')) (connQueue p)"
  have side: "pool_side mn (Some (cfg, p)) (stamps (b_conns s)) (lends s)" and opens: "all_open (b_conns s)"
    using inv assms(2,3) by (simp_all add: bench_inv_def)
  note r = pool_side_recycle[OF side p'_def[symmetric] gone_def]
  obtain cs d' where cs: "delete_connections api (map fst gone) (b_conns s) (b_lib s) = Inr (cs, d')" "all_open cs"
    "stamps cs = (\<lambda>n. if n \<in> set (map fst gone) then None else stamps (b_conns s) n)"
    using delete_connections_ok[OF r(3,2) opens, of api "b_lib s"] by blast
  have "bench_inv mn (s\<lparr>b_pool := Some (cfg, p'), b_conns := cs, b_lib := d'\<rparr>)"
    using inv assms(2,3) r(1) cs(2,3) by (auto simp: bench_inv_def lends_def views_def)
  then show ?thesis using cs(1)
    by (simp add: recycle_turn_def delete_all_def p'_def[symmetric] gone_def[symmetric] Let_def)
qed

lemma bench_inv_step:
  assumes step: "bench_step api conf s s'" and inv: "bench_inv mn s" and api: "api_ok api"
    and conf: "conf = Some text'" "mn = cf_minSize (read_config text')" "0 \<le> mn"
  shows "bench_inv mn s'"
  using step
proof cases
  case (thread_acts k act rest now)
  then have "acting mn s k act rest" using inv by (simp add: acting_def)
  from act_ok[OF api this conf, of now] thread_acts show ?thesis by auto
next
  case (producer cfg p)
  then show ?thesis using producer_ok[OF api inv producer(1-3)] by auto
next
  case (recycler cfg p)
  then show ?thesis using recycler_ok[OF inv recycler(1,2), of api] by auto
next
  case (time_passes cfg p t)
  then show ?thesis using inv by (auto simp: bench_inv_def lends_def views_def intro: pool_side_time)
qed

lemma bench_inv_start:
  "main_ok main \<Longrightarrow> bench_inv mn (bench_start d main)"
  by (auto simp: bench_inv_def bench_start_def pool_side_def lends_def views_def progs_ok_def main_ok_def
      all_open_def intro!: exI[of _ "[]"])

lemma bench_inv_reachable:
  assumes "bench_reachable api (Some text') d main s" and "main_ok main" "api_ok api" "0 \<le> cf_minSize (read_config text')"
  shows "bench_inv (cf_minSize (read_config text')) s"
  using assms(1) unfolding bench_reachable_def
proof (induction rule: rtranclp_induct)
  case base
  show ?case by (rule bench_inv_start[OF assms(2)])
next
  case (step s s')
  show ?case by (rule bench_inv_step[OF step.hyps(2) step.IH assms(3) refl refl assms(4)])
qed

subsection \<open>What the client library is given\<close>

text \<open>
  \<open>sent\<close> reads off the state of the library the statements that \<open>mysql_query\<close> was given so far. The
  documentation of the C API says that \<open>mysql_query\<close> sends its argument; no other call that the
  program makes takes a statement.
\<close>

definition query_log :: "('d, 'h, 'r) mysql_api \<Rightarrow> ('d \<Rightarrow> char list list) \<Rightarrow> bool" where
  "query_log api sent \<longleftrightarrow>
     (\<forall>h q d. sent (snd (mysql_query api h q d)) = sent d @ [q])
     \<and> (\<forall>d. sent (snd (mysql_init api d)) = sent d)
     \<and> (\<forall>h ip user passwd db port d. sent (snd (mysql_real_connect api h ip user passwd db port d)) = sent d)
     \<and> (\<forall>h cs d. sent (mysql_set_character_set api h cs d) = sent d)
     \<and> (\<forall>h d. sent (snd (mysql_store_result api h d)) = sent d)
     \<and> (\<forall>r d. sent (mysql_free_result api r d) = sent d)
     \<and> (\<forall>h d. sent (mysql_close api h d) = sent d)"

lemma query_logD:
  assumes "query_log api sent"
  shows "sent (snd (mysql_query api h q d)) = sent d @ [q]" "mysql_init api d = (x, d1) \<Longrightarrow> sent d1 = sent d"
    "sent (snd (mysql_real_connect api h ip user passwd db port d)) = sent d"
    "sent (mysql_set_character_set api h cs d) = sent d"
    "mysql_store_result api h d = (r, d1) \<Longrightarrow> sent d1 = sent d"
    "sent (mysql_free_result api y d) = sent d" "sent (mysql_close api h d) = sent d"
  using assms by (simp_all add: query_log_def) (metis snd_conv)+

lemma connection_sends:
  assumes log: "query_log api sent"
  shows "MysqlConn api d = Inr (c, d') \<Longrightarrow> sent d' = sent d"
    "sent (snd (mysql_connect api user passwd db ip port c d)) = sent d"
    "sent (MysqlConn_destroy api c d) = sent d" "mysql_select api q c d = (flag, c', d') \<Longrightarrow> sent d' = sent d"
    "mc_conn c \<noteq> None \<Longrightarrow> sent (snd (mysql_update api q c d)) = sent d @ [q]"
    "make_connection api cfg now d = Inr (c, d') \<Longrightarrow> sent d' = sent d"
proof -
  show conn: "sent d' = sent d" if "MysqlConn api d = Inr (c, d')" for c d'
    using that query_logD[OF log] by (auto simp: MysqlConn_def Let_def split: prod.splits option.splits)
  show con: "sent (snd (mysql_connect api user passwd db ip port c d)) = sent d" for user passwd db ip port c d
    using query_logD(3)[OF log] by (simp add: mysql_connect_def split: option.split)
  have free: "sent (snd (freeResult api c d)) = sent d" for c d
    using query_logD(6)[OF log] by (simp add: freeResult_def split: option.split)
  show "sent (MysqlConn_destroy api c d) = sent d"
    using free query_logD(7)[OF log] by (simp add: MysqlConn_destroy_def split: option.split)
  show "sent d' = sent d" if "mysql_select api q c d = (flag, c', d')"
    using that free[of c d] query_logD(5)[OF log]
    by (auto simp: mysql_select_def Let_def split: option.splits prod.splits)
  show "sent (snd (mysql_update api q c d)) = sent d @ [q]" if "mc_conn c \<noteq> None"
    using that query_logD(1)[OF log] by (auto simp: mysql_update_def)
  show "sent d' = sent d" if "make_connection api cfg now d = Inr (c, d')"
    using that conn con
    by (cases "MysqlConn api d") (auto simp: make_connection_def Let_def case_prod_unfold)
qed

lemma made_and_deleted_send:
  assumes log: "query_log api sent"
  shows "make_connections api cfg now ns cs d = Inr (cs', d') \<Longrightarrow> sent d' = sent d"
    and "delete_connections api ns cs d = Inr (cs', d') \<Longrightarrow> sent d' = sent d"
proof -
  show "make_connections api cfg now ns cs d = Inr (cs', d') \<Longrightarrow> sent d' = sent d"
  proof (induction ns arbitrary: cs d)
    case (Cons n ns)
    then obtain c d1 where "make_connection api cfg now d = Inr (c, d1)"
      "make_connections api cfg now ns (cs(n \<mapsto> c)) d1 = Inr (cs', d')"
      by (cases "make_connection api cfg now d") auto
    then show ?case using Cons.IH connection_sends(6)[OF log] by metis
  qed simp
  show "delete_connections api ns cs d = Inr (cs', d') \<Longrightarrow> sent d' = sent d"
  proof (induction ns arbitrary: cs d)
    case (Cons n ns)
    then obtain c where "delete_connections api ns (cs(n := None)) (MysqlConn_destroy api c d) = Inr (cs', d')"
      by (auto split: option.splits)
    then show ?case using Cons.IH connection_sends(3)[OF log] by metis
  qed simp
qed

lemma turns_send:
  assumes log: "query_log api sent"
  shows "produce_turn api cfg p s = Inr s' \<Longrightarrow> sent (b_lib s') = sent (b_lib s)"
    and "recycle_turn api cfg p s = Inr s' \<Longrightarrow> sent (b_lib s') = sent (b_lib s)"
    and "pool_destructor api s = Inr s' \<Longrightarrow> sent (b_lib s') = sent (b_lib s)"
    and "getInstance api conf now s = Inr s' \<Longrightarrow> sent (b_lib s') = sent (b_lib s)"
proof -
  have all: "sent (b_lib s') = sent (b_lib s)" if "delete_all api ns s = Inr s'" for ns and s s' :: "('a, 'b, 'c) bench"
    using that made_and_deleted_send(2)[OF log]
    by (cases "delete_connections api ns (b_conns s) (b_lib s)") (auto simp: delete_all_def)
  show "produce_turn api cfg p s = Inr s' \<Longrightarrow> sent (b_lib s') = sent (b_lib s)"
    using connection_sends(6)[OF log]
    by (cases "make_connection api cfg (clock p) (b_lib s)") (auto simp: produce_turn_def split: if_splits)
  show "recycle_turn api cfg p s = Inr s' \<Longrightarrow> sent (b_lib s') = sent (b_lib s)"
    by (auto simp: recycle_turn_def Let_def dest: all)
  show "pool_destructor api s = Inr s' \<Longrightarrow> sent (b_lib s') = sent (b_lib s)"
    by (auto simp: pool_destructor_def split: option.splits dest: all)
  show "sent (b_lib s') = sent (b_lib s)" if i: "getInstance api conf now s = Inr s'"
  proof (cases "b_pool s")
    case None
    then obtain cfg p where p: "open_pool conf now = Inr (cfg, p)" using i
      by (cases "open_pool conf now") (auto simp: getInstance_def)
    with None i obtain cs d where "make_connections api cfg now [0..<made p] Map.empty (b_lib s) = Inr (cs, d)"
      "b_lib s' = d"
      by (cases "make_connections api cfg now [0..<made p] Map.empty (b_lib s)") (auto simp: getInstance_def)
    then show ?thesis using made_and_deleted_send(1)[OF log] by blast
  qed (use i in \<open>simp add: getInstance_def\<close>)
qed

text \<open>An action sends the statement of an \<open>update\<close>, and no other action sends anything.\<close>

lemma put_object_lib [simp]: "b_lib (put_object k c s) = b_lib s"
  by (simp add: put_object_def set_var_def split: conn_var.split)

lemma act_sends:
  assumes log: "query_log api sent" and act: "bench_act api conf now k act s = Inr s'"
    and opens: "\<And>c. conn_object k s = Inr c \<Longrightarrow> mc_conn c \<noteq> None"
  shows "sent (b_lib s') = sent (b_lib s) @ update_of act"
proof (cases act)
  case NewConn
  then show ?thesis using act connection_sends(1)[OF log] by (cases "MysqlConn api (b_lib s)") auto
next
  case (Connect a b c d)
  then show ?thesis using act connection_sends(2)[OF log] by (cases "conn_object k s") auto
next
  case (Update q)
  then show ?thesis using act connection_sends(5)[OF log] opens by (cases "conn_object k s") auto
next
  case (Query q)
  then show ?thesis using act connection_sends(4)[OF log]
    by (cases "conn_object k s") (auto simp: Let_def split: prod.splits)
next
  case EndConn
  then show ?thesis using act connection_sends(3)[OF log]
    by (cases "conn_object k s") (auto simp: end_conn_def split: conn_var.splits option.splits)
next
  case ReturnMain
  then show ?thesis using act turns_send(3)[OF log] by (cases "pool_destructor api s") auto
qed (use act turns_send(4)[OF log] in \<open>auto split: option.splits prod.splits\<close>)

subsection \<open>The threads can go on\<close>

text \<open>A thread that has a connection of the pool never waits.\<close>

lemma holder_is_ready:
  assumes "prog_ok m h u n KPool p" obtains act rest where "p = act # rest" "bench_ready act s"
proof (cases p)
  case (Cons act rest)
  moreover have "bench_ready act s" using assms Cons by (cases act) auto
  ultimately show thesis by (rule that)
qed (use assms in simp)

lemma someone_can_act:
  assumes inv: "bench_inv mn s" and over: "\<not> b_over s" and mn: "0 < mn"
    and todo: "k0 < length (b_threads s)" "prog s k0 \<noteq> []"
  shows "\<exists>k act rest. k < length (b_threads s) \<and> prog s k = act # rest \<and> bench_ready act s"
proof -
  have progs: "progs_ok (b_pool s \<noteq> None) (views s)"
    and side: "pool_side mn (b_pool s) (stamps (b_conns s)) (lends s)"
    using inv over by (simp_all add: bench_inv_def)
  have ok: "\<exists>u n. prog_ok (k = 0) (b_pool s \<noteq> None) u n (kind (var s k)) (prog s k)"
    if "k < length (b_threads s)" for k
    using progs_ok_thread[OF progs, of k] that by (simp add: views_def prog_def var_def)
  show ?thesis
  proof (cases "\<exists>k < length (b_threads s). kind (var s k) = KPool")
    case True
    then obtain k where k: "k < length (b_threads s)" "kind (var s k) = KPool" by blast
    with ok[OF k(1)] show ?thesis using holder_is_ready by metis
  next
    case False
    have "borrowed (snd t) = None" if "t \<in> set (b_threads s)" for t
      using that False by (cases "snd t") (auto simp: in_set_conv_nth var_def)
    then have none: "\<forall>x \<in> set (lends s). x = None" by (simp add: lends_def)
    have borrow: "bench_ready Borrow s"
    proof (cases "b_pool s")
      case (Some cp)
      obtain cfg p where p: "cp = (cfg, p)" by (cases cp) auto
      have "lent p = []" using pool_side_idle[OF side[unfolded Some p] none] .
      moreover have "mn \<le> live p" using side Some p by (simp add: pool_side_def)
      ultimately show ?thesis using mn Some p by (auto simp: live_def)
    qed simp
    show ?thesis
    proof (cases "\<exists>k < length (b_threads s). 0 < k \<and> prog s k \<noteq> []")
      case True
      then obtain k act rest where k: "k < length (b_threads s)" "0 < k" "prog s k = act # rest"
        by (metis neq_Nil_conv)
      have "bench_ready act s" using ok[OF k(1)] k(2,3) borrow by (cases act) auto
      then show ?thesis using k by blast
    next
      case False
      then have k0: "k0 = 0" using todo by auto
      then obtain act rest where a: "prog s 0 = act # rest" using todo by (metis neq_Nil_conv)
      obtain u where u: "set u \<subseteq> {1..<length (b_threads s)}"
        "prog_ok True (b_pool s \<noteq> None) u (length (b_threads s)) (kind (var s 0)) (act # rest)"
        using progs a todo k0 by (auto simp: progs_ok_def views_def prog_def var_def)
      have joined: "prog s j = [] \<and> j < length (b_threads s)" if "j \<in> set u" for j
        using that u(1) False by fastforce
      have "bench_ready act s" using u(2) joined borrow by (cases act) auto
      then show ?thesis using a todo k0 by blast
    qed
  qed
qed

subsection \<open>The work that is left\<close>

fun prog_work :: "bench_action list \<Rightarrow> nat" where
  "prog_work [] = 0"
| "prog_work (Spawn q # p) = Suc (prog_work q + prog_work p)"
| "prog_work (act # p) = Suc (prog_work p)"

definition bench_work :: "('d, 'h, 'r) bench \<Rightarrow> nat" where
  "bench_work s = sum_list (map prog_work (map fst (b_threads s)))"

definition finished :: "('d, 'h, 'r) bench \<Rightarrow> bool" where
  "finished s \<longleftrightarrow> (\<forall>t \<in> set (b_threads s). fst t = [])"

lemma set_var_progs: "map fst (b_threads (set_var k v s)) = map fst (b_threads s)"
  by (cases "k < length (b_threads s)") (simp_all add: map_update prog_def list_update_same_conv list_update_beyond)

lemma act_threads:
  assumes "bench_act api conf now k act s = Inr s'"
  shows "map fst (b_threads s') = map fst (b_threads s) @ spawned act" and "act \<noteq> ReturnMain \<Longrightarrow> b_over s' = b_over s"
    and "act = ReturnMain \<Longrightarrow> b_over s'"
proof -
  have "map fst (b_threads s') = map fst (b_threads s) @ spawned act \<and> (b_over s' = b_over s \<or> act = ReturnMain \<and> b_over s')"
    using assms
    by (cases act)
      (auto simp: set_var_progs[simplified] put_object_def end_conn_def getInstance_def pool_destructor_def
        delete_all_def Let_def split: option.splits prod.splits conn_var.splits)
  then show "map fst (b_threads s') = map fst (b_threads s) @ spawned act" "act \<noteq> ReturnMain \<Longrightarrow> b_over s' = b_over s"
    by auto
  show "act = ReturnMain \<Longrightarrow> b_over s'" using assms by auto
qed

lemma progs_after:
  assumes "bench_act api conf now k act (pop_prog k s) = Inr s'" and "k < length (b_threads s)" "prog s k = act # rest"
  shows "map fst (b_threads s') = (map fst (b_threads s))[k := rest] @ spawned act"
  using act_threads(1)[OF assms(1)] assms(3) by (simp add: map_update)

lemma sum_list_replace:
  "k < length xs \<Longrightarrow> sum_list (xs[k := y]) + xs ! k = sum_list xs + (y :: nat)"
  by (induction xs arbitrary: k) (auto simp: nth_Cons split: nat.splits)

text \<open>Every action of a thread lowers the work by one.\<close>

lemma act_work:
  assumes "bench_act api conf now k act (pop_prog k s) = Inr s'" and k: "k < length (b_threads s)" "prog s k = act # rest"
  shows "bench_work s' + 1 = bench_work s"
proof -
  have "prog_work (act # rest) = Suc (prog_work rest + sum_list (map prog_work (spawned act)))" by (cases act) auto
  moreover have "sum_list ((map prog_work (map fst (b_threads s)))[k := prog_work rest]) + prog_work (act # rest)
      = bench_work s + prog_work rest"
    using sum_list_replace[of k "map prog_work (map fst (b_threads s))" "prog_work rest"] k
    by (simp add: bench_work_def prog_def)
  ultimately show ?thesis unfolding bench_work_def progs_after[OF assms] by (simp add: map_update)
qed

lemma step_work:
  assumes "bench_step api conf s s'"
  shows "bench_work s' \<le> bench_work s"
  using assms
proof cases
  case (thread_acts k act rest now)
  then show ?thesis using act_work[OF thread_acts(5,2,3)] by simp
qed (auto simp: bench_work_def produce_turn_def recycle_turn_def delete_all_def Let_def split: if_splits)

lemma program_goes_on:
  assumes api: "api_ok api" and inv: "bench_inv mn s" and conf: "mn = cf_minSize (read_config text')" "0 < mn"
    and todo: "\<not> finished s"
  shows "\<exists>k act rest. k < length (b_threads s) \<and> prog s k = act # rest \<and> bench_ready act s
    \<and> (\<exists>s'. bench_act api (Some text') now k act (pop_prog k s) = Inr s' \<and> bench_step api (Some text') s s'
         \<and> bench_work s' + 1 = bench_work s)"
proof -
  have over: "\<not> b_over s" using inv todo unfolding bench_inv_def finished_def by (meson)
  obtain k0 where "k0 < length (b_threads s)" "prog s k0 \<noteq> []"
    using todo by (auto simp: finished_def prog_def in_set_conv_nth)
  then obtain k act rest where k: "k < length (b_threads s)" "prog s k = act # rest" "bench_ready act s"
    using someone_can_act[OF inv over conf(2)] by blast
  then have "acting mn s k act rest" using inv over by (simp add: acting_def)
  then obtain s' where s': "bench_act api (Some text') now k act (pop_prog k s) = Inr s'"
    using act_ok[OF api _ refl conf(1)] conf(2) by fastforce
  then have "bench_step api (Some text') s s'" by (rule bench_step.thread_acts[OF over k])
  then show ?thesis using k s' act_work[OF s' k(1,2)] by blast
qed

lemma bench_ends:
  assumes api: "api_ok api" and conf: "mn = cf_minSize (read_config text')" "0 < mn"
  shows "bench_inv mn s \<Longrightarrow> \<exists>s'. (bench_step api (Some text'))\<^sup>*\<^sup>* s s' \<and> finished s'"
proof (induction "bench_work s" arbitrary: s rule: less_induct)
  case less
  show ?case
  proof (cases "finished s")
    case False
    obtain s1 where s1: "bench_step api (Some text') s s1" "bench_work s1 + 1 = bench_work s"
      using program_goes_on[OF api less.prems conf False] by blast
    have "bench_inv mn s1" by (rule bench_inv_step[OF s1(1) less.prems api refl conf(1)]) (use conf in simp)
    then obtain s' where "(bench_step api (Some text'))\<^sup>*\<^sup>* s1 s'" "finished s'" using less.hyps[of s1] s1(2) by auto
    then show ?thesis using s1(1) by (meson converse_rtranclp_into_rtranclp)
  qed auto
qed

subsection \<open>The programs of the benchmark\<close>

lemma prog_ok_op1: "prog_ok m h u n KNone (op1 b e @ p) = prog_ok m h u n KNone p"
proof -
  have "prog_ok m h u n KNone (concat (map (\<lambda>i. [NewConn, Connect a1 a2 a3 a4, Update (f i), EndConn]) xs) @ p)
      = prog_ok m h u n KNone p" for xs :: "int list" and a1 a2 a3 a4 f by (induction xs) auto
  then show ?thesis by (simp add: op1_def)
qed

lemma prog_ok_op2: "prog_ok m True u n KNone (op2 b e @ p) = prog_ok m True u n KNone p"
proof -
  have "prog_ok m True u n KNone (concat (map (\<lambda>i. [Borrow, Update (f i), EndConn]) xs) @ p)
      = prog_ok m True u n KNone p" for xs :: "int list" and f by (induction xs) auto
  then show ?thesis by (simp add: op2_def)
qed

lemma prog_ok_op4: "prog_ok m True u n KNone (op4 b e @ p) = prog_ok m True u n KNone p"
proof -
  have "prog_ok m True u n KNone (concat (map (\<lambda>i. [Borrow, Query q, EndConn]) xs) @ p)
      = prog_ok m True u n KNone p" for xs :: "int list" and q by (induction xs) auto
  then show ?thesis by (simp add: op4_def)
qed

lemma prog_ok_op:
  "prog_ok False h [] 0 KNone (op1 b e)" "prog_ok False True [] 0 KNone (op2 b e)" "prog_ok False True [] 0 KNone (op4 b e)"
  using prog_ok_op1[of _ _ _ _ b e "[]"] prog_ok_op2[of _ _ _ b e "[]"] prog_ok_op4[of _ _ _ b e "[]"] by simp_all

lemma bench_main_ok: "main_ok bench_main"
  by (simp add: main_ok_def bench_main_def test1_def test3_def five_threads_def prog_ok_op1 prog_ok_op2 prog_ok_op)

lemma test2_ok: "main_ok (test2 1 @ [ReturnMain])"
  by (simp add: main_ok_def test2_def five_threads_def prog_ok_op)

lemma updates_op:
  "updates (op1 b e) = map insert_own [b..e - 1]" "updates (op2 b e) = map insert_pooled [b..e - 1]"
  "updates (op4 b e) = []" "forks (op1 b e) = []" "forks (op2 b e) = []" "forks (op4 b e) = []"
proof -
  have "updates (concat (map (\<lambda>i. [NewConn, Connect a1 a2 a3 a4, Update (f i), EndConn]) xs)) = map f xs"
    "updates (concat (map (\<lambda>i. [Borrow, Update (f i), EndConn]) xs)) = map f xs"
    "updates (concat (map (\<lambda>i. [Borrow, Query q, EndConn]) xs)) = []"
    "forks (concat (map (\<lambda>i. [NewConn, Connect a1 a2 a3 a4, Update (f i), EndConn]) xs)) = []"
    "forks (concat (map (\<lambda>i. [Borrow, Update (f i), EndConn]) xs)) = []"
    "forks (concat (map (\<lambda>i. [Borrow, Query q, EndConn]) xs)) = []"
    for xs :: "int list" and a1 a2 a3 a4 f q by (induction xs) auto
  then show "updates (op1 b e) = map insert_own [b..e - 1]" "updates (op2 b e) = map insert_pooled [b..e - 1]"
    "updates (op4 b e) = []" "forks (op1 b e) = []" "forks (op2 b e) = []" "forks (op4 b e) = []"
    by (simp_all add: op1_def op2_def op4_def)
qed

lemma bench_main_sources:
  "updates bench_main = map insert_own [0..4999] @ map insert_pooled [0..4999]"
  "forks bench_main = map (\<lambda>i. op4 (1000 * i) (1000 * (i + 1))) [0, 1, 2, 3, 4]"
  by (simp_all add: bench_main_def test1_def test3_def five_threads_def updates_op)

text \<open>The buffers are large enough for the statements.\<close>

lemma length_decimal_int:
  assumes "- (2 ^ 31) \<le> i" "i < 2 ^ 31"
  shows "length (decimal_int i) \<le> 11"
proof -
  have "nat i < 10000000000" "nat (- i) < 10000000000" using assms by simp_all
  then have "length (decimal (nat i)) \<le> 10" "length (decimal (nat (- i))) \<le> 10"
    by (auto intro: length_decimal_le)
  then show ?thesis by (simp add: decimal_int_def)
qed

lemma statements_fit:
  assumes "- (2 ^ 31) \<le> i" "i < 2 ^ 31"
  shows "insert_own i = ''insert into user values('' @ decimal_int i @ '','zhang san', '221B')''"
    and "insert_pooled i = ''insert into user values('' @ decimal_int i @ '', 'zhang san', '221B')''"
    and "select_user = ''select * from user''"
  using length_decimal_int[OF assms]
  by (simp_all add: insert_own_def insert_pooled_def select_user_def snprintf_keep_def)

text \<open>A program that ends with the end of \<open>main\<close> is over when all threads are done.\<close>

lemma ends_with_return:
  assumes "bench_reachable api conf d (m @ [ReturnMain]) s"
  shows "b_threads s \<noteq> [] \<and> (b_over s \<or> (\<exists>q. prog s 0 = q @ [ReturnMain]))"
  using assms unfolding bench_reachable_def
proof (induction rule: rtranclp_induct)
  case base
  show ?case by (simp add: bench_start_def prog_def)
next
  case (step s s')
  show ?case using step.hyps(2)
  proof cases
    case (thread_acts k act rest now)
    have progs: "map fst (b_threads s') = (map fst (b_threads s))[k := rest] @ spawned act"
      by (rule progs_after[OF thread_acts(5,2,3)])
    have ne: "b_threads s' \<noteq> []" using step.IH progs by auto
    then have "prog s' 0 = map fst (b_threads s') ! 0" by (simp add: prog_def)
    then have first: "prog s' 0 = (if k = 0 then rest else prog s 0)" "b_threads s' \<noteq> []"
      using step.IH ne by (auto simp: progs nth_append prog_def)
    obtain q where q: "prog s 0 = q @ [ReturnMain]" using step.IH thread_acts(1) by blast
    then show ?thesis
      using first act_threads(3)[OF thread_acts(5)] thread_acts(3) by (cases q) auto
  qed (use step.IH in \<open>auto simp: produce_turn_def recycle_turn_def delete_all_def prog_def Let_def split: if_splits\<close>)
qed

subsection \<open>Who sent what\<close>

text \<open>
  The statements that have been sent can be told apart by threads, so that each thread has sent a first
  part of the updates of its program.
\<close>

definition sent_so_far ::
    "('d \<Rightarrow> char list list) \<Rightarrow> 'd \<Rightarrow> bench_action list \<Rightarrow> ('d, 'h, 'r) bench \<Rightarrow> bool" where
  "sent_so_far sent d main s \<longleftrightarrow>
     (\<exists>l. sent (b_lib s) = sent d @ map snd l \<and> sent_ok main l (map fst (b_threads s)))"

lemma acting_open:
  assumes "acting mn s k act rest" and "conn_object k (pop_prog k s) = Inr c"
  shows "mc_conn c \<noteq> None"
proof -
  note d = actingD[OF assms(1)]
  have "conn_object k s = Inr c" using assms(2) conn_object_pop[OF d(4)] by simp
  then show ?thesis using d(2,3) by (auto simp: conn_object_def all_open_def split: conn_var.splits option.splits)
qed

lemma sent_so_far_step:
  assumes log: "query_log api sent" and step: "bench_step api conf s s'" and inv: "bench_inv mn s"
    and so: "sent_so_far sent d main s"
  shows "sent_so_far sent d main s'"
proof -
  obtain l where l: "sent (b_lib s) = sent d @ map snd l" "sent_ok main l (map fst (b_threads s))"
    using so by (auto simp: sent_so_far_def)
  from step show ?thesis
  proof cases
    case (thread_acts k act rest now)
    then have a: "acting mn s k act rest" using inv by (simp add: acting_def)
    have "sent (b_lib s') = sent (b_lib (pop_prog k s)) @ update_of act"
      using act_sends[OF log thread_acts(5)] acting_open[OF a] by blast
    moreover have "spawned act \<noteq> [] \<Longrightarrow> k = 0" using actingD(8)[OF a] by (cases act) auto
    then have "sent_ok main (l @ map (\<lambda>q. (k, q)) (update_of act)) ((map fst (b_threads s))[k := rest] @ spawned act)"
      by (intro sent_ok_act[OF l(2)]) (use thread_acts in \<open>auto simp: prog_def\<close>)
    ultimately show ?thesis using l(1) progs_after[OF thread_acts(5,2,3)] unfolding sent_so_far_def
      by (intro exI[of _ "l @ map (\<lambda>q. (k, q)) (update_of act)"]) (simp add: comp_def)
  next
    case (producer cfg p)
    then have "sent (b_lib s') = sent (b_lib s)" "b_threads s' = b_threads s"
      using turns_send(1)[OF log] by (auto simp: produce_turn_def Let_def split: if_splits)
    then show ?thesis using l by (auto simp: sent_so_far_def)
  next
    case (recycler cfg p)
    then have "sent (b_lib s') = sent (b_lib s)" "b_threads s' = b_threads s"
      using turns_send(2)[OF log] by (auto simp: recycle_turn_def delete_all_def Let_def)
    then show ?thesis using l by (auto simp: sent_so_far_def)
  next
    case (time_passes cfg p t)
    then show ?thesis using l by (auto simp: sent_so_far_def)
  qed
qed

lemma sent_so_far_reachable:
  assumes "query_log api sent" and "bench_reachable api (Some text') d main s" and "main_ok main" "api_ok api"
    and "0 \<le> cf_minSize (read_config text')"
  shows "sent_so_far sent d main s"
  using assms(2) unfolding bench_reachable_def
proof (induction rule: rtranclp_induct)
  case base
  show ?case
    by (auto simp: sent_so_far_def bench_start_def sent_ok_def sources_def intro!: exI[of _ "[]"] exI[of _ "[main]"])
next
  case (step s s')
  then have "bench_reachable api (Some text') d main s" by (simp add: bench_reachable_def)
  from sent_so_far_step[OF assms(1) step.hyps(2) bench_inv_reachable[OF this assms(3-5)] step.IH] show ?case .
qed

subsection \<open>Properties\<close>

text \<open>C17: the program is safe, in every interleaving, until \<open>main\<close> has returned and the destructor of the
  pool has run, for a configuration whose \<open>minSize_\<close> is not negative, and as long as \<open>mysql_init\<close>
  never returns null (the code dereferences its result). No action of a thread that is not waiting
  fails, and no turn of the two threads of the pool, producer and recycler, does: in particular no
  object of the pool is used or deleted after it has been deleted. A connection of the pool has one
  user, and the objects that exist are those in the queue and those that threads have. What the two
  detached threads do when the members of the pool are gone is not part of it.\<close>

theorem pool_program_is_safe:
  assumes "api_ok api" and "main_ok main" and "0 \<le> cf_minSize (read_config conf)"
    and "bench_reachable api (Some conf) d main s" and "\<not> b_over s"
  shows "(k < length (b_threads s) \<and> prog s k = act # rest \<and> bench_ready act s \<longrightarrow>
      (\<exists>s'. bench_act api (Some conf) now k act (pop_prog k s) = Inr s'))
    \<and> (\<forall>cfg p. b_pool s = Some (cfg, p) \<longrightarrow> (\<exists>s'. recycle_turn api cfg p s = Inr s')
         \<and> (connQueue p = [] \<longrightarrow> (\<exists>s'. produce_turn api cfg p s = Inr s')))
    \<and> (\<forall>i < length (b_threads s). \<forall>j < length (b_threads s). \<forall>n. var s i = PoolConn n \<and> var s j = PoolConn n \<longrightarrow> i = j)
    \<and> (\<forall>cfg p. b_pool s = Some (cfg, p) \<longrightarrow> dom (b_conns s) =
         set (map fst (connQueue p)) \<union> {n. \<exists>i < length (b_threads s). var s i = PoolConn n})"
proof -
  let ?mn = "cf_minSize (read_config conf)"
  have inv: "bench_inv ?mn s" by (rule bench_inv_reachable[OF assms(4,2,1,3)])
  then have side: "pool_side ?mn (b_pool s) (stamps (b_conns s)) (lends s)" using assms(5) by (simp add: bench_inv_def)
  have len: "length (lends s) = length (b_threads s)" by (simp add: lends_def)
  have L: "lends s ! i = Some n \<longleftrightarrow> var s i = PoolConn n" if "i < length (b_threads s)" for i n
    using that by (cases "var s i") (auto simp: lends_def var_def)
  show ?thesis
  proof (intro conjI allI impI)
    assume "k < length (b_threads s) \<and> prog s k = act # rest \<and> bench_ready act s"
    then have "acting ?mn s k act rest" using inv assms(5) by (simp add: acting_def)
    then show "\<exists>s'. bench_act api (Some conf) now k act (pop_prog k s) = Inr s'"
      using act_ok[OF assms(1) _ refl refl assms(3)] by blast
  next
    fix cfg p assume "b_pool s = Some (cfg, p)"
    then show "\<exists>s'. recycle_turn api cfg p s = Inr s'" using recycler_ok[OF inv assms(5)] by blast
  next
    fix cfg p assume "b_pool s = Some (cfg, p)" and "connQueue p = []"
    then show "\<exists>s'. produce_turn api cfg p s = Inr s'" using producer_ok[OF assms(1) inv assms(5)] by blast
  next
    fix i j n
    assume ij: "i < length (b_threads s)" "j < length (b_threads s)" "var s i = PoolConn n \<and> var s j = PoolConn n"
    then have "once (lends s)" using side L[OF ij(1), of n] by (auto simp: pool_side_def lends_def split: option.splits)
    then show "i = j" by (rule once_index) (use ij L in \<open>auto simp: lends_def\<close>)
  next
    fix cfg p
    assume p: "b_pool s = Some (cfg, p)"
    have "n \<in> set (lent p) \<longleftrightarrow> (\<exists>i < length (b_threads s). var s i = PoolConn n)" for n
    proof -
      have "n \<in> set (lent p) \<longleftrightarrow> Some n \<in> set (lends s)" using side p by (auto simp: pool_side_def)
      also have "\<dots> \<longleftrightarrow> (\<exists>i < length (b_threads s). lends s ! i = Some n)"
        by (simp only: in_set_conv_nth len)
      finally show ?thesis using L by auto
    qed
    moreover have "dom (b_conns s) = dom (stamps (b_conns s))" by (auto simp: stamps_def dom_def)
    ultimately show "dom (b_conns s) =
         set (map fst (connQueue p)) \<union> {n. \<exists>i < length (b_threads s). var s i = PoolConn n}"
      using side p by (auto simp: pool_side_def ids_def)
  qed
qed

text \<open>C22: the program cannot get stuck when \<open>minSize_\<close> is positive, as long as \<open>mysql_init\<close> never returns
  null. In every reachable state in which a thread has something left to do, some thread is not
  waiting and can do its next action. Every action that a thread performs lowers the work that is
  left by one, and no step raises it; so from every reachable state the program can come to its end,
  where all threads are done and \<open>main\<close> is past the body of the destructor of the pool. (The members
  of the pool, for one of which the detached producer may be waiting, are destroyed after that; this
  is left out.)\<close>

theorem pool_program_can_end:
  assumes "api_ok api" and "main_ok main" and "0 < cf_minSize (read_config conf)"
    and "bench_reachable api (Some conf) d main s"
  shows "(\<not> finished s \<longrightarrow> (\<exists>k act rest s'. k < length (b_threads s) \<and> prog s k = act # rest \<and> bench_ready act s
           \<and> bench_act api (Some conf) now k act (pop_prog k s) = Inr s'))
    \<and> (\<forall>k act rest t s'. k < length (b_threads s) \<and> prog s k = act # rest
         \<and> bench_act api (Some conf) t k act (pop_prog k s) = Inr s' \<longrightarrow> bench_work s' + 1 = bench_work s)
    \<and> (\<forall>s'. bench_step api (Some conf) s s' \<longrightarrow> bench_work s' \<le> bench_work s)
    \<and> (\<exists>s'. (bench_step api (Some conf))\<^sup>*\<^sup>* s s' \<and> finished s')"
proof -
  have inv: "bench_inv (cf_minSize (read_config conf)) s"
    by (rule bench_inv_reachable[OF assms(4,2,1)]) (use assms(3) in simp)
  have "\<exists>k act rest s'. k < length (b_threads s) \<and> prog s k = act # rest \<and> bench_ready act s
      \<and> bench_act api (Some conf) now k act (pop_prog k s) = Inr s'" if "\<not> finished s"
    using program_goes_on[OF assms(1) inv refl assms(3) that, of now] by blast
  moreover have "\<exists>s'. (bench_step api (Some conf))\<^sup>*\<^sup>* s s' \<and> finished s'" by (rule bench_ends[OF assms(1) refl assms(3) inv])
  ultimately show ?thesis using act_work step_work by blast
qed

text \<open>Every statement is sent once, in the order of the program of its thread: the statements that
  \<open>mysql_query\<close> has been given can be told apart by threads, so that what a thread has sent, with what
  it has still to send, are the updates of its program. The arguments of \<open>query\<close> are never sent.\<close>

theorem threads_send_their_updates:
  assumes "query_log api sent" and "api_ok api" and "main_ok main" and "0 \<le> cf_minSize (read_config conf)"
    and "bench_reachable api (Some conf) d main s"
  shows "length (sources main) = length (b_threads s) + length (forks (prog s 0))
    \<and> (\<exists>l. sent (b_lib s) = sent d @ map snd l
         \<and> (\<forall>k < length (b_threads s). sent_by k l @ updates (prog s k) = updates (sources main ! k)))"
proof -
  obtain l qs where l: "sent (b_lib s) = sent d @ map snd l" "sources main = qs @ forks (map fst (b_threads s) ! 0)"
    "length qs = length (b_threads s)" "b_threads s \<noteq> []"
    "\<And>k. k < length (b_threads s) \<Longrightarrow> sent_by k l @ updates (map fst (b_threads s) ! k) = updates (qs ! k)"
    using sent_so_far_reachable[OF assms(1,5,3,2,4)] by (auto simp: sent_so_far_def sent_ok_def)
  moreover have "map fst (b_threads s) ! 0 = prog s 0" using l(4) by (simp add: prog_def)
  ultimately show ?thesis by (auto simp: nth_append prog_def intro!: exI[of _ l])
qed

lemma sent_by_one:
  assumes "\<forall>e \<in> set l. fst e = k"
  shows "l = map (\<lambda>q. (k, q)) (sent_by k l)"
  using assms by (induction l) (auto simp: sent_by_def)

lemma select_threads_send_nothing:
  assumes "k \<noteq> 0" and "k < length (sources bench_main)"
  shows "updates (sources bench_main ! k) = []"
proof -
  have "updates q = []" if "q \<in> set (forks bench_main)" for q
    using that by (auto simp: bench_main_sources updates_op)
  then show ?thesis using assms by (cases k) (auto simp: sources_def)
qed

text \<open>C21: what the benchmark comes to. When its threads are done, \<open>main\<close> is past the destructor of the pool,
  no connection of the pool is open, and the statements that the client library has been given with
  \<open>mysql_query\<close>, by all the threads and in the order of the calls, are ten thousand insertions with their
  whole text: those of \<open>op1\<close>, then those of \<open>op2\<close>. The five threads that are timed for their selections have
  sent nothing: \<open>query\<close> does not pass its argument on. \<open>sent\<close> reads the statements given to \<open>mysql_query\<close>
  off the state of the library; \<open>minSize_\<close> is not negative and \<open>mysql_init\<close> never returns null.\<close>

theorem benchmark_result:
  assumes "query_log api sent" and "api_ok api" and "0 \<le> cf_minSize (read_config conf)"
    and "bench_reachable api (Some conf) d bench_main s" and "finished s"
  shows "b_over s \<and> b_conns s = (\<lambda>_. None)
    \<and> sent (b_lib s) = sent d
        @ map (\<lambda>i. ''insert into user values('' @ decimal_int i @ '','zhang san', '221B')'') [0..4999]
        @ map (\<lambda>i. ''insert into user values('' @ decimal_int i @ '', 'zhang san', '221B')'') [0..4999]"
proof -
  have inv: "bench_inv (cf_minSize (read_config conf)) s"
    by (rule bench_inv_reachable[OF assms(4) bench_main_ok assms(2,3)])
  have "bench_main = (test1 @ test3 1) @ [ReturnMain]" by (simp add: bench_main_def)
  then have ends: "b_threads s \<noteq> []" "b_over s \<or> (\<exists>q. prog s 0 = q @ [ReturnMain])"
    using ends_with_return[of api "Some conf" d "test1 @ test3 1" s] assms(4) by simp_all
  moreover have idle: "prog s i = []" if "i < length (b_threads s)" for i
    using assms(5) that by (simp add: finished_def prog_def)
  ultimately have over: "b_over s" by auto
  obtain l qs where l: "sent (b_lib s) = sent d @ map snd l" "sources bench_main = qs @ forks (map fst (b_threads s) ! 0)"
    "length qs = length (b_threads s)" "\<forall>e \<in> set l. fst e < length (b_threads s)"
    "\<And>k. k < length (b_threads s) \<Longrightarrow> sent_by k l @ updates (map fst (b_threads s) ! k) = updates (qs ! k)"
    using sent_so_far_reachable[OF assms(1,4) bench_main_ok assms(2,3)] by (auto simp: sent_so_far_def sent_ok_def)
  have qs: "sources bench_main = qs" using l(2) ends(1) idle[of 0] by (simp add: prog_def)
  have sends: "sent_by k l = updates (sources bench_main ! k)" if "k < length (b_threads s)" for k
    using l(5)[OF that] idle[OF that] that by (simp add: qs prog_def)
  have "\<forall>e \<in> set l. fst e = 0"
  proof (rule ballI, rule ccontr)
    fix e assume e: "e \<in> set l" and "fst e \<noteq> 0"
    then have "sent_by (fst e) l = []"
      using sends[of "fst e"] select_threads_send_nothing[of "fst e"] l(3,4) qs by auto
    then show False using e by (auto simp: sent_by_def filter_empty_conv)
  qed
  then have "map snd l = sent_by 0 l" by (subst sent_by_one[of l 0]) (simp_all add: comp_def)
  also have "\<dots> = map insert_own [0..4999] @ map insert_pooled [0..4999]"
    using sends[of 0] ends(1) by (simp add: sources_def bench_main_sources)
  also have "map insert_own [0..4999]
      = map (\<lambda>i. ''insert into user values('' @ decimal_int i @ '','zhang san', '221B')'') [0..4999]"
    using statements_fit(1) by (auto intro!: map_cong)
  also have "map insert_pooled [0..4999]
      = map (\<lambda>i. ''insert into user values('' @ decimal_int i @ '', 'zhang san', '221B')'') [0..4999]"
    using statements_fit(2) by (auto intro!: map_cong)
  finally show ?thesis using over inv l(1) by (simp add: bench_inv_def)
qed

subsection \<open>The selection\<close>

text \<open>
  What the C API documents of a result: \<open>mysql_fetch_row\<close> hands out its rows in turn, and then null;
  \<open>rows\<close> are those that are left.
\<close>

definition table_api :: "('d, 'h, 'r) mysql_api \<Rightarrow> ('r \<Rightarrow> 'd \<Rightarrow> char list option list list) \<Rightarrow> bool" where
  "table_api api rows \<longleftrightarrow> (\<forall>r d. mysql_num_fields api r d = 4
     \<and> (case rows r d of [] \<Rightarrow> fst (mysql_fetch_row api r d) = None
        | row # rest \<Rightarrow> fst (mysql_fetch_row api r d) = Some row
                      \<and> rows r (snd (mysql_fetch_row api r d)) = rest))"

definition field :: "char list option \<Rightarrow> char list" where
  "field x = (case x of None \<Rightarrow> [] | Some s \<Rightarrow> s)"

definition row_line :: "char list option list \<Rightarrow> char list" where
  "row_line row = field (row ! 0) @ '', '' @ field (row ! 1) @ '', '' @ field (row ! 2) @ '', '' @ field (row ! 3) @ [CHR 0x0A]"

lemma row_text_line:
  assumes "table_api api rows" and "mc_res c = Some r" "mc_row c = Some row" "length row = 4"
  shows "row_text api c d = Inr (row_line row)"
  using assms by (simp add: row_text_def mysql_value_def table_api_def row_line_def field_def)

lemma print_rows_all:
  assumes api: "table_api api rows"
  shows "mc_res c = Some r \<Longrightarrow> \<forall>row \<in> set (rows r d). length row = 4 \<Longrightarrow>
    \<exists>c' d'. print_rows api c d t = Some (Inr (c', d', t @ concat (map row_line (rows r d))))"
proof (induction "rows r d" arbitrary: c d t)
  case Nil
  then have "fst (mysql_fetch_row api r d) = None" using api by (auto simp: table_api_def split: list.splits)
  then obtain d1 where "mysql_fetch_row api r d = (None, d1)" by (metis prod.collapse)
  then show ?case using Nil by (subst print_rows.simps) (simp add: mysql_next_def Let_def)
next
  case (Cons row rest)
  have "case rows r d of [] \<Rightarrow> fst (mysql_fetch_row api r d) = None
      | row # rest \<Rightarrow> fst (mysql_fetch_row api r d) = Some row \<and> rows r (snd (mysql_fetch_row api r d)) = rest"
    using api by (simp add: table_api_def)
  then have "fst (mysql_fetch_row api r d) = Some row" "rows r (snd (mysql_fetch_row api r d)) = rest"
    by (simp_all flip: Cons.hyps(2))
  then obtain d1 where f: "mysql_fetch_row api r d = (Some row, d1)" "rows r d1 = rest" by (metis prod.collapse snd_conv)
  have "row_text api (c\<lparr>mc_row := Some row\<rparr>) d1 = Inr (row_line row)"
    by (rule row_text_line[OF api]) (use Cons.prems Cons.hyps(2)[symmetric] in auto)
  moreover obtain c' d' where "print_rows api (c\<lparr>mc_row := Some row\<rparr>) d1 (t @ row_line row)
      = Some (Inr (c', d', (t @ row_line row) @ concat (map row_line (rows r d1))))"
    using Cons.hyps(1)[of d1 "c\<lparr>mc_row := Some row\<rparr>" "t @ row_line row"] f(2) Cons.prems Cons.hyps(2)[symmetric]
    by auto
  ultimately show ?case using f Cons.prems(1) Cons.hyps(2)[symmetric]
    by (subst print_rows.simps) (simp add: mysql_next_def Let_def)
qed

text \<open>\<open>query\<close> returns, and prints every row of the stored result once and in order, in whatever state
  the client library was: the state in which the result is stored comes from the insertion before
  it, not from the selection, which is not sent.\<close>

theorem query_prints_rows:
  assumes api: "table_api api rows" and c: "MysqlConn api d = Inr (c, d1)"
    and upd: "mysql_update api ''insert into user values(1, 'zhang san', '221B')'' c
                (snd (mysql_connect api ''root'' ''123456'' ''test'' ''127.0.0.1'' 3306 c d1)) = (flag, d2)"
    and sel: "mysql_store_result api (the (mc_conn c)) d2 = (Some r, d3)" and fields: "\<forall>row \<in> set (rows r d3). length row = 4"
  shows "\<exists>d'. query_test api d = Some (Inr (''flag value:  '' @ (if flag then ''1'' else ''0'') @ [CHR 0x0A]
                @ concat (map row_line (rows r d3)), d'))"
proof -
  have h: "mc_conn c \<noteq> None" "mc_res c = None" using c by (auto simp: MysqlConn_def Let_def split: option.splits prod.splits)
  then have select: "mysql_select api q c d2 = (True, c\<lparr>mc_res := Some r\<rparr>, d3)" for q
    using sel by (auto simp: mysql_select_def freeResult_def)
  have dec: "decimal_int (if flag then 1 else 0) = (if flag then ''1'' else ''0'')"
    by (simp add: decimal_int_def decimal.simps digit_chars[simplified])
  let ?t = "''flag value:  '' @ (if flag then ''1'' else ''0'') @ [CHR 0x0A]"
  obtain c' d' where "print_rows api (c\<lparr>mc_res := Some r\<rparr>) d3 ?t
      = Some (Inr (c', d', ?t @ concat (map row_line (rows r d3))))"
    using print_rows_all[OF api _ fields, of "c\<lparr>mc_res := Some r\<rparr>" ?t] by auto
  then show ?thesis using c upd select by (simp add: query_test_def Let_def case_prod_unfold dec)
qed

subsection \<open>Instances\<close>

text \<open>A server that keeps the statements and has one table, with the configuration file of the repository.\<close>

definition sample_api :: "(char list list \<times> char list option list list, nat, unit) mysql_api" where
  "sample_api = \<lparr>mysql_init = (\<lambda>d. (Some (length (fst d)), d)), mysql_real_connect = (\<lambda>h a b c e p d. (True, d)),
     mysql_set_character_set = (\<lambda>h t d. d), mysql_query = (\<lambda>h t d. (True, (fst d @ [t], snd d))),
     mysql_store_result = (\<lambda>h d. (Some (), d)),
     mysql_fetch_row = (\<lambda>r d. case snd d of [] \<Rightarrow> (None, d) | row # t \<Rightarrow> (Some row, (fst d, t))),
     mysql_num_fields = (\<lambda>r d. 4), mysql_free_result = (\<lambda>r d. d), mysql_autocommit_off = (\<lambda>h d. (True, d)),
     mysql_commit = (\<lambda>h d. (True, d)), mysql_rollback = (\<lambda>h d. (True, d)), mysql_close = (\<lambda>h d. d)\<rparr>"

lemma sample_api_ok: "api_ok sample_api" "table_api sample_api (\<lambda>r d. snd d)" "query_log sample_api fst"
  by (auto simp: api_ok_def table_api_def query_log_def sample_api_def split: list.splits)

lemma sample_sizes: "0 < cf_minSize (read_config mysql_conf)" "0 \<le> cf_minSize (read_config mysql_conf)"
  by (simp_all add: read_mysql_conf sample_config_def)

text \<open>Actions of one thread, one after the other.\<close>

fun run_thread ::
    "('d, 'h, 'r) mysql_api \<Rightarrow> char list option \<Rightarrow> int \<Rightarrow> nat \<Rightarrow> nat \<Rightarrow> ('d, 'h, 'r) bench \<Rightarrow> ('d, 'h, 'r) bench option" where
  "run_thread api conf now k 0 s = Some s"
| "run_thread api conf now k (Suc n) s =
     (case prog s k of [] \<Rightarrow> None
      | act # rest \<Rightarrow>
          if \<not> b_over s \<and> k < length (b_threads s) \<and> bench_ready act s
          then (case bench_act api conf now k act (pop_prog k s) of Inl e \<Rightarrow> None
                | Inr s' \<Rightarrow> run_thread api conf now k n s')
          else None)"

lemma run_thread_steps:
  "run_thread api conf now k n s = Some s' \<Longrightarrow> (bench_step api conf)\<^sup>*\<^sup>* s s'"
proof (induction n arbitrary: s)
  case (Suc n)
  then obtain act rest s1 where "prog s k = act # rest" "\<not> b_over s" "k < length (b_threads s)" "bench_ready act s"
    "bench_act api conf now k act (pop_prog k s) = Inr s1" "run_thread api conf now k n s1 = Some s'"
    by (auto split: list.splits if_splits sum.splits)
  then show ?case using Suc.IH[of s1] bench_step.thread_acts[of s k act rest api conf now s1]
    by (meson converse_rtranclp_into_rtranclp)
qed simp

definition small_main :: "bench_action list" where
  "small_main = [GetInstance, Borrow, Update (insert_pooled 1), EndConn, ReturnMain]"

lemma small_main_ok: "main_ok small_main"
  by (simp add: main_ok_def small_main_def)

lemma small_run:
  "\<exists>s. run_thread sample_api (Some mysql_conf) 0 0 2 (bench_start ([], []) small_main) = Some s
     \<and> prog s 0 = Update (insert_pooled 1) # [EndConn, ReturnMain] \<and> var s 0 = PoolConn 0 \<and> length (b_threads s) = 1
     \<and> b_pool s = Some (sample_config, p1) \<and> \<not> b_over s"
  if "p1 = \<lparr>minSize = 2, maxSize = 4, currentSize = 4, maxIdleTime = 5000, connQueue = [(1, 0)], lent = [0],
        made = 2, clock = 0\<rparr>"
  by (simp add: that numeral_2_eq_2 bench_start_def small_main_def prog_def var_def pop_prog_def set_var_def getInstance_def
      open_pool_def read_mysql_conf sample_config_def ConnectionPool_def prefill upt_rec getConnection_def
      make_connection_def MysqlConn_def mysql_connect_def sample_api_def Let_def)

lemma sample_bench_ends:
  assumes "main_ok main"
  shows "\<exists>s. bench_reachable sample_api (Some mysql_conf) ([], []) main s \<and> finished s"
  using bench_ends[OF sample_api_ok(1) refl sample_sizes(1) bench_inv_start[OF assms]]
  unfolding bench_reachable_def by blast

theorem pool_program_is_safe_witness:
  "\<exists>s. bench_reachable sample_api (Some mysql_conf) ([], []) small_main s \<and> var s 0 = PoolConn 0
     \<and> dom (b_conns s) = {0, 1}
     \<and> (\<exists>s'. bench_act sample_api (Some mysql_conf) 0 0 (Update (insert_pooled 1)) (pop_prog 0 s) = Inr s')"
proof -
  obtain s where s: "run_thread sample_api (Some mysql_conf) 0 0 2 (bench_start ([], []) small_main) = Some s"
    "prog s 0 = Update (insert_pooled 1) # [EndConn, ReturnMain]" "var s 0 = PoolConn 0" "length (b_threads s) = 1"
    "b_pool s = Some (sample_config, \<lparr>minSize = 2, maxSize = 4, currentSize = 4, maxIdleTime = 5000,
        connQueue = [(1, 0)], lent = [0], made = 2, clock = 0\<rparr>)" "\<not> b_over s"
    using small_run[OF refl] by blast
  have reach: "bench_reachable sample_api (Some mysql_conf) ([], []) small_main s"
    unfolding bench_reachable_def by (rule run_thread_steps[OF s(1)])
  from pool_program_is_safe[OF sample_api_ok(1) small_main_ok sample_sizes(2) reach s(6),
      of 0 "Update (insert_pooled 1)" "[EndConn, ReturnMain]" 0] s
  have "\<exists>s'. bench_act sample_api (Some mysql_conf) 0 0 (Update (insert_pooled 1)) (pop_prog 0 s) = Inr s'"
    "dom (b_conns s) = {0, 1}" by auto
  then show ?thesis using reach s(3) by blast
qed

theorem pool_program_can_end_witness:
  "\<exists>s'. (bench_step sample_api (Some mysql_conf))\<^sup>*\<^sup>* (bench_start ([], []) bench_main) s' \<and> finished s'"
  using pool_program_can_end[OF sample_api_ok(1) bench_main_ok sample_sizes(1), of "([], [])" "bench_start ([], []) bench_main"]
  by (simp add: bench_reachable_def)

theorem threads_send_their_updates_witness:
  "\<exists>s l. bench_reachable sample_api (Some mysql_conf) ([], []) (test2 1 @ [ReturnMain]) s
     \<and> length (b_threads s) = 11 \<and> fst (b_lib s) = map snd l \<and> sent_by 3 l = map insert_own [2000..2999]"
proof -
  define m where "m = test2 1 @ [ReturnMain]"
  have ok: "main_ok m" unfolding m_def by (rule test2_ok)
  obtain s where s: "bench_reachable sample_api (Some mysql_conf) ([], []) m s" "finished s"
    using sample_bench_ends[OF ok] by blast
  have idle: "prog s i = []" if "i < length (b_threads s)" for i
    using s(2) that by (simp add: finished_def prog_def)
  have src: "sources m = m # map (\<lambda>i. op1 (1000 * i) (1000 * (i + 1))) [0, 1, 2, 3, 4]
      @ map (\<lambda>i. op2 (1000 * i) (1000 * (i + 1))) [0, 1, 2, 3, 4]"
    by (simp add: m_def sources_def test2_def five_threads_def updates_op)
  obtain l where l: "length (sources m) = length (b_threads s) + length (forks (prog s 0))"
    "fst (b_lib s) = map snd l"
    "\<And>k. k < length (b_threads s) \<Longrightarrow> sent_by k l @ updates (prog s k) = updates (sources m ! k)"
    using threads_send_their_updates[OF sample_api_ok(3,1) ok sample_sizes(2) s(1)] by auto
  have "b_threads s \<noteq> []" using ends_with_return[OF s(1)[unfolded m_def]] by simp
  then have len: "length (b_threads s) = 11" using l(1) idle[of 0] by (simp add: src)
  have "sent_by 3 l = map insert_own [2000..2999]" using l(3)[of 3] idle[of 3] len by (simp add: src updates_op)
  then show ?thesis using s(1) len l(2) unfolding m_def by auto
qed

theorem benchmark_result_witness:
  "\<exists>s. bench_reachable sample_api (Some mysql_conf) ([], []) bench_main s \<and> b_over s \<and> b_conns s = (\<lambda>_. None)
     \<and> length (fst (b_lib s)) = 10000"
proof -
  obtain s where s: "bench_reachable sample_api (Some mysql_conf) ([], []) bench_main s" "finished s"
    using sample_bench_ends[OF bench_main_ok] by blast
  show ?thesis using benchmark_result[OF sample_api_ok(3,1) sample_sizes(2) s] s(1) by (intro exI[of _ s]) simp
qed

theorem query_prints_rows_witness:
  "\<exists>d'. query_test sample_api ([], [[Some ''1'', Some ''Ann'', None, Some ''Bo'']])
     = Some (Inr (''flag value:  1'' @ [CHR 0x0A] @ ''1, Ann, , Bo'' @ [CHR 0x0A], d'))"
proof -
  let ?rows = "[[Some ''1'', Some ''Ann'', None, Some ''Bo'']]" and ?sql = "''insert into user values(1, 'zhang san', '221B')''"
  let ?c = "\<lparr>mc_conn = Some 0, mc_res = None, mc_row = None, mc_lastActive = 0\<rparr>"
  have c: "MysqlConn sample_api ([], ?rows) = Inr (?c, ([], ?rows))" by (simp add: MysqlConn_def sample_api_def)
  have u: "mysql_update sample_api ?sql ?c
      (snd (mysql_connect sample_api ''root'' ''123456'' ''test'' ''127.0.0.1'' 3306 ?c ([], ?rows))) = (True, ([?sql], ?rows))"
    by (simp add: mysql_update_def mysql_connect_def sample_api_def)
  have r: "mysql_store_result sample_api (the (mc_conn ?c)) ([?sql], ?rows) = (Some (), ([?sql], ?rows))"
    by (simp add: sample_api_def)
  show ?thesis using query_prints_rows[OF sample_api_ok(2) c u r] by (simp add: row_line_def field_def)
qed

end
