(* ===== verification/Conn_Frame.thy ===== *)
theory Conn_Frame
  imports Server_Session
begin

section \<open>What an event of one connection leaves alone\<close>

text \<open>
  \<open>conn_frame k i w w'\<close>: between \<open>w\<close> and \<open>w'\<close> only connection \<open>i\<close>, its channel and its entry in the
  poller of its loop have changed, and no functor has been queued; with \<open>k\<close>, a channel that listened
  for input still does. The operations that a connection does in its own loop stay within this
  frame, whatever their results. With it,
  \<open>event_outcomes\<close> says in what ways an event of a connection can end.
\<close>

subsection \<open>Frames\<close>

definition listening :: "channel \<Rightarrow> bool" where
  "listening ch \<longleftrightarrow> isReading ch \<and> index ch = kAdded"

definition same_channel :: "bool \<Rightarrow> channel \<Rightarrow> channel \<Rightarrow> bool" where
  "same_channel k ch ch' \<longleftrightarrow> chan_fd ch' = chan_fd ch \<and> tied ch' = tied ch \<and> tie_obj ch' = tie_obj ch
     \<and> (index ch \<noteq> kNew \<longrightarrow> index ch' \<noteq> kNew) \<and> (k \<and> listening ch \<longrightarrow> listening ch')"

lemma same_channel_refl [simp]: "same_channel k ch ch"
  by (simp add: same_channel_def)

lemma same_channel_trans: "same_channel k a b \<Longrightarrow> same_channel k b c \<Longrightarrow> same_channel k a c"
  by (simp add: same_channel_def)

definition loop_frame :: "bool \<Rightarrow> nat \<Rightarrow> 'f eventloop \<Rightarrow> 'f eventloop \<Rightarrow> bool" where
  "loop_frame k c e e' \<longleftrightarrow>
     (\<forall>d. d \<noteq> c \<longrightarrow> heap e' d = heap e d) \<and> rel_option (same_channel k) (heap e c) (heap e' c)
     \<and> (\<forall>fd. registry e' fd \<noteq> registry e fd \<longrightarrow> (\<exists>ch. heap e c = Some ch \<and> chan_fd ch = fd))
     \<and> event_slots e' = event_slots e \<and> poll_state.more e' = poll_state.more e"

lemma rel_option_same [simp]: "rel_option (same_channel k) x x"
  by (cases x) simp_all

lemma loop_frame_refl [simp]: "loop_frame k c e e"
  by (simp add: loop_frame_def)

lemma rel_option_trans:
  "rel_option (same_channel k) x y \<Longrightarrow> rel_option (same_channel k) y z \<Longrightarrow> rel_option (same_channel k) x z"
  by (cases x; cases y; cases z) (auto intro: same_channel_trans)

lemma loop_frame_trans:
  assumes "loop_frame k c a b" and "loop_frame k c b d"
  shows "loop_frame k c a d"
proof -
  have "\<exists>ch. heap a c = Some ch \<and> chan_fd ch = fd" if "registry d fd \<noteq> registry a fd" for fd
  proof (cases "registry b fd = registry a fd")
    case True
    with that assms(2) have "\<exists>ch. heap b c = Some ch \<and> chan_fd ch = fd"
      unfolding loop_frame_def by metis
    moreover have "rel_option (same_channel k) (heap a c) (heap b c)" using assms(1) by (simp add: loop_frame_def)
    ultimately show ?thesis by (cases "heap a c") (auto simp: same_channel_def)
  next
    case False
    then show ?thesis using assms(1) by (auto simp: loop_frame_def)
  qed
  moreover have "rel_option (same_channel k) (heap a c) (heap d c)"
    using assms rel_option_trans unfolding loop_frame_def by blast
  ultimately show ?thesis using assms unfolding loop_frame_def by auto
qed

definition same_identity :: "tcpconn \<Rightarrow> tcpconn \<Rightarrow> bool" where
  "same_identity c c' \<longleftrightarrow> conn_loop c' = conn_loop c \<and> conn_name c' = conn_name c
     \<and> conn_channel c' = conn_channel c \<and> sockfd c' = sockfd c"

lemma same_identity_refl [simp]: "same_identity c c"
  by (simp add: same_identity_def)

definition conn_frame :: "bool \<Rightarrow> nat \<Rightarrow> 's world_scheme \<Rightarrow> 's world_scheme \<Rightarrow> bool" where
  "conn_frame k i w w' \<longleftrightarrow>
     (\<forall>j. j \<noteq> i \<longrightarrow> conns w' j = conns w j) \<and> same_identity (conns w i) (conns w' i)
     \<and> (\<forall>l. l \<noteq> conn_loop (conns w i) \<longrightarrow> loops w' l = loops w l)
     \<and> loop_frame k (conn_channel (conns w i)) (cloop i w) (cloop i w')
     \<and> world.more w' = world.more w \<and> cur_thread w' = cur_thread w"

lemma conn_frame_refl [simp]: "conn_frame k i w w"
  by (simp add: conn_frame_def)

lemma conn_frame_trans:
  assumes "conn_frame k i a b" and "conn_frame k i b c"
  shows "conn_frame k i a c"
  using assms loop_frame_trans[of k "conn_channel (conns a i)" "cloop i a" "cloop i b" "cloop i c"]
  unfolding conn_frame_def same_identity_def by simp

text \<open>The loop of the connection keeps its queue, its thread and its flags.\<close>

lemma conn_frame_loop:
  assumes "conn_frame k i w w'"
  shows "poll_state.more (loops w' l) = poll_state.more (loops w l)"
  using assms by (cases "l = conn_loop (conns w i)")
    (auto simp: conn_frame_def loop_frame_def cloop_def same_identity_def)

lemma conn_frame_slots:
  assumes "conn_frame k i w w'"
  shows "event_slots (loops w' l) = event_slots (loops w l)"
  using assms by (cases "l = conn_loop (conns w i)")
    (auto simp: conn_frame_def loop_frame_def cloop_def same_identity_def)

lemma conn_frame_thread:
  assumes "conn_frame k i w w'"
  shows "isInLoopThread (cur_thread w') (cloop i w') = isInLoopThread (cur_thread w) (cloop i w)"
proof -
  have "cloop i w' = loops w' (conn_loop (conns w i))" "cur_thread w' = cur_thread w"
    using assms by (simp_all add: conn_frame_def same_identity_def cloop_def)
  then show ?thesis
    using loop_more_fields(3)[OF conn_frame_loop[OF assms, of "conn_loop (conns w i)"]]
    by (simp add: isInLoopThread_def cloop_def)
qed

definition framed :: "bool \<Rightarrow> nat \<Rightarrow> 's world_scheme \<Rightarrow> 's world_scheme result \<Rightarrow> bool" where
  "framed k i w r \<longleftrightarrow> (\<forall>w'. r = Inr w' \<longrightarrow> conn_frame k i w w')"

lemma framedD: "framed k i w r \<Longrightarrow> r = Inr w' \<Longrightarrow> conn_frame k i w w'"
  by (simp add: framed_def)

lemma framed_Inl [simp]: "framed k i w (Inl e)"
  by (simp add: framed_def)

lemma framed_Inr [simp]: "framed k i w (Inr w') = conn_frame k i w w'"
  by (simp add: framed_def)

lemma framed_from: "conn_frame k i w w1 \<Longrightarrow> framed k i w1 r \<Longrightarrow> framed k i w r"
  unfolding framed_def using conn_frame_trans by blast

lemma framed_bind:
  assumes "framed k i w r" and "\<And>w1. r = Inr w1 \<Longrightarrow> framed k i w1 (g w1)"
  shows "framed k i w (bind_result r g)"
  using assms by (cases r) (auto intro: framed_from)

lemma framed_value: "(\<And>x. r = Inr x \<Longrightarrow> framed k i w (g x)) \<Longrightarrow> framed k i w (bind_result r g)"
  by (cases r) simp_all

subsection \<open>The operations of a connection in its loop\<close>

lemma frame_upd_conn [simp]:
  "same_identity (conns w i) (g (conns w i)) \<Longrightarrow> conn_frame k i w (upd_conn i g w)"
  by (simp add: conn_frame_def same_identity_def cloop_def upd_conn_more)

lemma frame_counters [simp]:
  "conn_frame k i w (w\<lparr>reads_done := m\<rparr>)" "conn_frame k i w (w\<lparr>writes_done := m\<rparr>)"
  by (simp_all add: conn_frame_def cloop_def)

lemma frame_setState [simp]: "conn_frame k i w (setState i s w)"
  by (simp add: setState_def same_identity_def)

lemma frame_shutdownWrite [simp]: "conn_frame k i w (shutdownWrite i w)"
  by (simp add: shutdownWrite_def same_identity_def)

lemma poller_update_frame:
  "poller_update oper c ch s = Inr s' \<Longrightarrow> heap s' = heap s \<and> registry s' = registry s
     \<and> event_slots s' = event_slots s \<and> poll_state.more s' = poll_state.more s"
  by (auto simp: poller_update_def split: option.splits if_splits)

lemma updateChannel_frame:
  assumes "updateChannel c s = Inr s'" and ch: "heap s c = Some ch"
  shows "(\<forall>d. d \<noteq> c \<longrightarrow> heap s' d = heap s d)
    \<and> (\<exists>n. heap s' c = Some (ch\<lparr>index := n\<rparr>) \<and> n \<noteq> kNew
        \<and> (index ch = kAdded \<and> \<not> isNoneEvent ch \<longrightarrow> n = kAdded))
    \<and> (\<forall>fd. registry s' fd \<noteq> registry s fd \<longrightarrow> chan_fd ch = fd) \<and> event_slots s' = event_slots s"
proof -
  have k: "kAdded \<noteq> kNew" "kDeleted \<noteq> kNew" "kAdded \<noteq> kDeleted" by (simp_all add: index_defs)
  have same: "ch\<lparr>index := index ch\<rparr> = ch" by simp
  show ?thesis
  proof (cases "index ch = kNew \<or> index ch = kDeleted")
    case True
    then obtain s1 where "poller_update EPOLL_CTL_ADD c (ch\<lparr>index := kAdded\<rparr>)
        (put_channel c (ch\<lparr>index := kAdded\<rparr>) s1) = Inr s'"
      "s1 = s\<lparr>registry := (registry s)(chan_fd ch \<mapsto> c)\<rparr> \<or> s1 = s"
      using assms by (auto simp: updateChannel_def check_def Let_def split: if_splits)
    from poller_update_frame[OF this(1)] this(2) show ?thesis using k(1) by (auto simp: put_channel_def split: if_splits)
  next
    case added: False
    show ?thesis
    proof (cases "isNoneEvent ch")
      case True
      then obtain s1 where "poller_update EPOLL_CTL_DEL c ch s = Inr s1"
        "s' = put_channel c (ch\<lparr>index := kDeleted\<rparr>) s1"
        using assms added by (auto simp: updateChannel_def)
      then show ?thesis using poller_update_frame[of EPOLL_CTL_DEL c ch s s1] k(2) True
        by (auto simp: put_channel_def intro!: exI[of _ kDeleted])
    next
      case False
      then have "poller_update EPOLL_CTL_MOD c ch s = Inr s'"
        using assms added by (simp add: updateChannel_def)
      from poller_update_frame[OF this] show ?thesis
        using added ch same by (auto intro!: exI[of _ "index ch"])
    qed
  qed
qed

lemma isReading_write: "isReading (want_write ch) = isReading ch" "isReading (unwant_write ch) = isReading ch"
proof -
  have "kWriteEvent AND kReadEvent = 0" and n: "NOT kWriteEvent AND kReadEvent = kReadEvent"
    by (simp_all add: channel_events)
  then have "(events ch OR kWriteEvent) AND kReadEvent = events ch AND kReadEvent"
    by (simp add: word_ao_dist)
  then show "isReading (want_write ch) = isReading ch" by (simp add: isReading_def want_write_def)
  show "isReading (unwant_write ch) = isReading ch"
    by (simp add: isReading_def unwant_write_def and.assoc n)
qed

lemma listening_not_none: "isReading ch \<Longrightarrow> \<not> isNoneEvent ch"
  by (auto simp: isReading_def isNoneEvent_def kNoneEvent_def)

lemma change_events_frame:
  assumes "change_events f c e = Inr e'"
    and f: "\<And>x. chan_fd (f x) = chan_fd x" "\<And>x. tied (f x) = tied x" "\<And>x. tie_obj (f x) = tie_obj x"
      "\<And>x. index (f x) = index x" "\<And>x. k \<Longrightarrow> isReading x \<Longrightarrow> isReading (f x)"
  shows "loop_frame k c e e'"
proof -
  from assms(1) obtain ch where ch: "heap e c = Some ch" "updateChannel c (put_channel c (f ch) e) = Inr e'"
    by (auto simp: change_events_def split: option.splits)
  have "heap (put_channel c (f ch) e) c = Some (f ch)" by (simp add: put_channel_def)
  note u = updateChannel_frame[OF ch(2) this]
  from u obtain n where n: "heap e' c = Some (f ch\<lparr>index := n\<rparr>)" "n \<noteq> kNew"
    "index (f ch) = kAdded \<and> \<not> isNoneEvent (f ch) \<longrightarrow> n = kAdded" by blast
  have "listening (f ch\<lparr>index := n\<rparr>)" if "k" "listening ch"
    using that f(4,5)[of ch] n(3) listening_not_none[of "f ch"] by (simp add: listening_def isReading_def)
  then have "same_channel k ch (f ch\<lparr>index := n\<rparr>)" using n(2) f by (simp add: same_channel_def)
  then show ?thesis
    using u n(1) change_events_more[OF assms(1)] ch(1) f(1) by (auto simp: loop_frame_def put_channel_def)
qed

lemma frame_upd_cloop:
  assumes "loop_frame k (conn_channel (conns w i)) (cloop i w) e"
  shows "conn_frame k i w (upd_cloop i (\<lambda>_. e) w)"
  using assms by (simp add: conn_frame_def) (simp add: upd_cloop_def)

lemma framed_change:
  assumes "chan_op = change_events f"
    and "\<And>x. chan_fd (f x) = chan_fd x" "\<And>x. tied (f x) = tied x" "\<And>x. tie_obj (f x) = tie_obj x"
      "\<And>x. index (f x) = index x" "\<And>x. k \<Longrightarrow> isReading x \<Longrightarrow> isReading (f x)"
  shows "framed k i w (on_channel chan_op i w)"
  unfolding on_channel_def
  by (rule framed_value) (simp add: frame_upd_cloop change_events_frame assms)

lemma framed_ops [simp]:
  "framed k i w (on_channel enableWriting i w)" "framed k i w (on_channel disableWriting i w)"
  by (rule framed_change[where f = want_write], simp add: channel_ops, simp_all add: isReading_write,
      (simp add: want_write_def)+,
      rule framed_change[where f = unwant_write], simp add: channel_ops, simp_all add: isReading_write,
      (simp add: unwant_write_def)+)

lemma frame_socket_write: "socket_write i data w = (r, w1) \<Longrightarrow> conn_frame k i w w1"
  by (auto simp: socket_write_def Let_def same_identity_def split: sum.splits
      intro: conn_frame_trans[OF frame_counters(2) frame_upd_conn])

lemma frame_direct_write:
  "direct_write cbs i msg ch w = (a, b, c, w1) \<Longrightarrow> writeCompleteCallback cbs = None \<Longrightarrow>
     conn_frame k i w w1"
  by (auto simp: direct_write_def Let_def intro: frame_socket_write split: if_splits prod.splits sum.splits)

lemma framed_buffer_remaining:
  assumes "highWaterMarkCallback cbs = None"
  shows "framed k i w (buffer_remaining cbs i data w)"
proof -
  have "framed k i w (if p then on_channel enableWriting i (upd_conn i (\<lambda>c. c\<lparr>outputBuffer := out\<rparr>) w)
      else Inr (upd_conn i (\<lambda>c. c\<lparr>outputBuffer := out\<rparr>) w))" for p out
    by (rule framed_from[of k _ _ "upd_conn i (\<lambda>c. c\<lparr>outputBuffer := out\<rparr>) w"])
      (simp_all add: same_identity_def)
  then show ?thesis
    using assms by (auto simp: buffer_remaining_def Let_def intro!: framed_value)
qed

lemma framed_sendInLoop:
  assumes "writeCompleteCallback cbs = None" and "highWaterMarkCallback cbs = None"
  shows "framed k i w (sendInLoop cbs i msg w)"
proof -
  have "framed k i w (let (nwrote, remaining, faultError, w1) = direct_write cbs i msg ch w
        in if \<not> faultError \<and> remaining > 0
           then buffer_remaining cbs i (take remaining (drop nwrote msg)) w1
           else Inr w1)" for ch
  proof -
    obtain a b c w1 where dw: "direct_write cbs i msg ch w = (a, b, c, w1)" by (rule prod_cases4)
    show ?thesis
      using framed_from[OF frame_direct_write[OF dw assms(1)]] framed_buffer_remaining[OF assms(2)]
      by (simp add: dw)
  qed
  then show ?thesis unfolding sendInLoop_def by (auto intro: framed_value)
qed

lemma framed_shutdownInLoop: "framed k i w (shutdownInLoop i w)"
  unfolding shutdownInLoop_def by (auto intro: framed_value)

lemma framed_send_string:
  assumes "isInLoopThread (cur_thread w) (cloop i w)"
    and "writeCompleteCallback cbs = None" "highWaterMarkCallback cbs = None"
  shows "framed k i w (send_string cbs i msg w)"
  using assms(1) by (simp add: send_string_def framed_sendInLoop[OF assms(2,3)])

lemma framed_send_buffer:
  assumes "isInLoopThread (cur_thread w) (cloop i w)"
    and "writeCompleteCallback cbs = None" "highWaterMarkCallback cbs = None"
  shows "framed k i w (bind_result (send_buffer cbs i b w) (\<lambda>(b', w'). Inr w'))"
  using assms framedD[OF framed_sendInLoop[OF assms(2,3)]] by (auto simp: send_buffer_def framed_def)

lemma framed_shutdown:
  assumes "isInLoopThread (cur_thread w) (cloop i w)"
  shows "framed k i w (shutdown_conn i w)"
  using assms
  by (simp add: shutdown_conn_def run_conn_def runInLoop_def framed_from[OF frame_setState framed_shutdownInLoop])

lemma framed_handleWrite:
  assumes "writeCompleteCallback cbs = None"
  shows "framed k i w (handleWrite cbs i w)"
proof -
  let ?out = "outputBuffer (conns w i)"
  have "framed k i w (case socket_write i data w of
                 (Inl e, w1) \<Rightarrow> Inr w1
               | (Inr n, w1) \<Rightarrow>
                   if n > 0
                   then bind_result (retrieve n ?out) (\<lambda>out'.
                        let w2 = upd_conn i (\<lambda>c. c\<lparr>outputBuffer := out'\<rparr>) w1
                        in if readableBytes out' = 0
                           then bind_result (on_channel disableWriting i w2) (\<lambda>w3.
                                let w4 = (if writeCompleteCallback cbs \<noteq> None
                                          then queue_conn i (CallWriteComplete i) w3 else w3)
                                in if conn_state (conns w4 i) = kDisconnecting
                                   then shutdownInLoop i w4 else Inr w4)
                           else Inr w2)
                   else Inr w1)" for data
  proof -
    obtain r w1 where sw: "socket_write i data w = (r, w1)" by (rule prod.exhaust)
    note f1 = frame_socket_write[OF sw]
    have f2: "conn_frame k i w (upd_conn i (\<lambda>c. c\<lparr>outputBuffer := out'\<rparr>) w1)" for out'
      using f1 by (rule conn_frame_trans) (simp add: same_identity_def)
    have "framed k i w (bind_result (on_channel disableWriting i w2) (\<lambda>w3.
        if conn_state (conns w3 i) = kDisconnecting then shutdownInLoop i w3 else Inr w3))"
      if "conn_frame k i w w2" for w2
      using that by (intro framed_from[OF that] framed_bind) (auto intro: framed_shutdownInLoop)
    then show ?thesis
      using f1 f2 assms by (auto simp: sw Let_def split: sum.splits intro!: framed_value)
  qed
  then show ?thesis unfolding handleWrite_def Let_def by (auto intro!: framed_value)
qed

subsection \<open>The outcomes of an event\<close>

text \<open>
  After an event the connection is still open, or it has been closed and its removal from the
  server has been asked for. The one failure is the read behind the contents of a buffer.
\<close>

definition stays :: "nat \<Rightarrow> server_world \<Rightarrow> server_world \<Rightarrow> bool" where
  "stays i w w' \<longleftrightarrow> conn_frame True i w w' \<and> conn_inv i w' \<and> active (conns w' i)"

definition leaves :: "nat \<Rightarrow> server_world \<Rightarrow> server_world \<Rightarrow> bool" where
  "leaves i w w' \<longleftrightarrow> conn_frame False i w w' \<and> conn_inv i w' \<and> conn_state (conns w' i) = kDisconnected
     \<and> (\<exists>ch. get_chan i w' = Inr ch \<and> index ch = kDeleted)"

definition stays_open :: "nat \<Rightarrow> server_world \<Rightarrow> server_world result \<Rightarrow> bool" where
  "stays_open i w r \<longleftrightarrow> r = Inl OutOfBounds \<or> (\<exists>w'. r = Inr w' \<and> stays i w w')"

definition outcome :: "nat \<Rightarrow> server_world \<Rightarrow> server_world result \<Rightarrow> bool" where
  "outcome i w r \<longleftrightarrow> stays_open i w r \<or> (\<exists>w1. leaves i w w1 \<and> r = removeConnection i w1)"

text \<open>What the handlers of a connection find when they start.\<close>

definition in_loop :: "nat \<Rightarrow> server_world \<Rightarrow> bool" where
  "in_loop i w \<longleftrightarrow> conn_inv i w \<and> active (conns w i) \<and> isInLoopThread (cur_thread w) (cloop i w)
     \<and> (\<exists>ch. get_chan i w = Inr ch \<and> listening ch)"

lemma conn_frame_channel:
  assumes "conn_frame k i w w'" and "get_chan i w = Inr ch"
  obtains ch' where "get_chan i w' = Inr ch'" and "same_channel k ch ch'"
proof -
  have "conn_channel (conns w' i) = conn_channel (conns w i)"
    "rel_option (same_channel k) (heap (cloop i w) (conn_channel (conns w i)))
      (heap (cloop i w') (conn_channel (conns w i)))"
    using assms(1) by (simp_all add: conn_frame_def same_identity_def loop_frame_def)
  with assms(2) that show thesis by (auto simp: get_chan_def option_rel_Some1 split: option.splits)
qed

lemma stays_in_loop:
  assumes "in_loop i w" and "stays i w w'"
  shows "in_loop i w'"
proof -
  have fr: "conn_frame True i w w'" using assms(2) by (simp add: stays_def)
  obtain ch where "get_chan i w = Inr ch" "listening ch" using assms(1) by (auto simp: in_loop_def)
  then have "\<exists>ch. get_chan i w' = Inr ch \<and> listening ch"
    using conn_frame_channel[OF fr] by (metis same_channel_def)
  then show ?thesis using assms conn_frame_thread[OF fr] by (simp add: in_loop_def stays_def)
qed

lemma conn_frame_weak: "conn_frame True i w w' \<Longrightarrow> conn_frame False i w w'"
proof -
  have "rel_option (same_channel False) x y" if "rel_option (same_channel True) x y" for x y
    using that by (cases x; cases y) (auto simp: same_channel_def)
  then show "conn_frame True i w w' \<Longrightarrow> conn_frame False i w w'" by (simp add: conn_frame_def loop_frame_def)
qed

lemma stays_refl: "in_loop i w \<Longrightarrow> stays i w w"
  by (simp add: stays_def in_loop_def)

lemma stays_trans: "stays i a b \<Longrightarrow> stays i b c \<Longrightarrow> stays i a c"
  unfolding stays_def using conn_frame_trans by blast

lemma stays_leaves: "stays i a b \<Longrightarrow> leaves i b c \<Longrightarrow> leaves i a c"
  unfolding stays_def leaves_def using conn_frame_trans conn_frame_weak by blast

lemma stays_openI: "stays i w w' \<Longrightarrow> stays_open i w (Inr w')"
  by (simp add: stays_open_def)

lemma stays_open_Inl [simp]: "stays_open i w (Inl OutOfBounds)"
  by (simp add: stays_open_def)

lemma stays_open_from: "stays i w w1 \<Longrightarrow> stays_open i w1 r \<Longrightarrow> stays_open i w r"
  unfolding stays_open_def using stays_trans by blast

lemma stays_open_bind:
  assumes "in_loop i w" and "stays_open i w r" and "\<And>w1. in_loop i w1 \<Longrightarrow> stays_open i w1 (k w1)"
  shows "stays_open i w (bind_result r k)"
  using assms stays_in_loop stays_open_from unfolding stays_open_def[of i w r] by auto

lemma outcome_stays: "stays_open i w r \<Longrightarrow> outcome i w r"
  by (simp add: outcome_def)

lemma outcome_from: "stays i w w1 \<Longrightarrow> outcome i w1 r \<Longrightarrow> outcome i w r"
  unfolding outcome_def using stays_open_from stays_leaves by blast

text \<open>Reading replaces the input buffer.\<close>

lemma stays_input:
  assumes "in_loop i w" and "wf_buffer b" and "w1 = w \<or> (\<exists>n. w1 = w\<lparr>reads_done := n\<rparr>)"
  shows "stays i w (upd_conn i (\<lambda>c. c\<lparr>inputBuffer := b\<rparr>) w1)"
proof -
  have "conn_frame True i w w1" and "conns w1 = conns w" "loops w1 = loops w" using assms(3) by auto
  moreover from this have "conn_frame True i w (upd_conn i (\<lambda>c. c\<lparr>inputBuffer := b\<rparr>) w1)"
    by (rule_tac conn_frame_trans[of True i w w1]) (simp_all add: same_identity_def)
  moreover have "conn_inv i w1"
    using assms(1) by (rule_tac conn_inv_loop_cong[of i w]) (simp_all add: calculation in_loop_def cloop_def)
  then have "conn_inv i (upd_conn i (\<lambda>c. c\<lparr>inputBuffer := b\<rparr>) w1)"
    using assms(2) by (auto simp: conn_inv_def channel_inv_def)
  ultimately show ?thesis using assms(1) by (simp add: stays_def in_loop_def active_def)
qed

lemma send_stays:
  assumes l: "in_loop i w"
    and none: "writeCompleteCallback cbs = None" "highWaterMarkCallback cbs = None"
  shows "\<exists>w'. sendInLoop cbs i msg w = Inr w' \<and> stays i w w'"
proof -
  obtain w' where w': "sendInLoop cbs i msg w = Inr w'" "conn_inv i w'" "same_conn (conns w i) (conns w' i)"
    using sendInLoop_ok[of i w cbs msg] l by (auto simp: in_loop_def)
  then show ?thesis
    using framedD[OF framed_sendInLoop[OF none] w'(1)] same_connD(1)[OF w'(3)] l
    by (simp add: stays_def in_loop_def active_def)
qed

lemma send_string_stays:
  assumes "in_loop i w" and "writeCompleteCallback cbs = None" "highWaterMarkCallback cbs = None"
  shows "stays_open i w (send_string cbs i msg w)"
  using send_stays[OF assms, of msg] assms(1) stays_refl[OF assms(1)]
  by (auto simp: send_string_def in_loop_def stays_open_def)

lemma send_buffer_stays:
  assumes "in_loop i w" and "writeCompleteCallback cbs = None" "highWaterMarkCallback cbs = None"
  shows "stays_open i w (bind_result (send_buffer cbs i b w) (\<lambda>(b', w'). Inr w'))"
proof -
  have "stays_open i w (bind_result (read_range b m n) (\<lambda>data. sendInLoop cbs i data w))" for m n
    using send_stays[OF assms] by (auto simp: read_range_def stays_open_def)
  then show ?thesis
    using assms(1) stays_openI[OF stays_refl[OF assms(1)]]
    by (simp add: send_buffer_def in_loop_def bind_result_assoc)
qed

lemma shutdown_stays:
  assumes l: "in_loop i w"
  shows "stays_open i w (shutdown_conn i w)"
proof (cases "conn_state (conns w i) = kConnected")
  case True
  with l obtain w' where "shutdown_conn i w = Inr w'" "conn_inv i w'" "conn_state (conns w' i) = kDisconnecting"
    using shutdown_ok[of i w] by (auto simp: in_loop_def)
  then show ?thesis
    using framedD[OF framed_shutdown, of w i w'] l
    by (auto simp: stays_open_def stays_def in_loop_def active_def)
next
  case False
  then show ?thesis using stays_openI[OF stays_refl[OF l]] by (simp add: shutdown_conn_def)
qed

lemma write_stays:
  assumes l: "in_loop i w" and none: "writeCompleteCallback cbs = None"
  shows "stays_open i w (handleWrite cbs i w)"
proof -
  let ?out = "outputBuffer (conns w i)"
  have inv: "conn_inv i w" and act: "active (conns w i)" using l by (simp_all add: in_loop_def)
  from inv obtain ch where ch: "get_chan i w = Inr ch" by (rule conn_invE) blast
  consider "contents ?out = []" | "contents ?out \<noteq> []" "writerIndex ?out + readableBytes ?out \<le> length (store ?out)"
    | "contents ?out \<noteq> []" "length (store ?out) < writerIndex ?out + readableBytes ?out"
    by linarith
  then show ?thesis
  proof cases
    case 1
    then have "\<not> isWriting ch" using idle_iff_empty(2)[OF inv act ch] by simp
    then show ?thesis using handleWrite_not_writing[OF ch] stays_openI[OF stays_refl[OF l]] by simp
  next
    case 2
    from handleWrite_ok[OF inv act this, of cbs] obtain w' where
      "handleWrite cbs i w = Inr w'" "conn_inv i w'" "conn_state (conns w' i) = conn_state (conns w i)"
      by blast
    then show ?thesis
      using framedD[OF framed_handleWrite[OF none]] act by (auto simp: stays_open_def stays_def active_def)
  next
    case 3
    then show ?thesis using handleWrite_out_of_bounds[OF inv act] by simp
  qed
qed

text \<open>Asking for the removal changes no connection and no channel.\<close>

lemma removeConnection_total:
  "\<exists>w2. removeConnection i w = Inr w2 \<and> conns w2 = conns w
    \<and> (\<forall>l. heap (loops w2 l) = heap (loops w l))"
  by (simp add: removeConnection_def run_on_def runInLoop_def removeConnectionInLoop_def)
    (simp add: queue_conn_def upd_cloop_def)

lemma leaves_quiet:
  assumes "leaves i w w1" and "set hs \<subseteq> {OnError, OnWrite}"
  shows "bind_result (removeConnection i w1) (call_sequence (call_handler (conn_chan_callbacks cbs i) t) hs)
    = removeConnection i w1"
proof -
  from assms(1) have inv: "conn_inv i w1" and st: "conn_state (conns w1 i) = kDisconnected"
    by (simp_all add: leaves_def)
  from inv obtain ch where ch: "get_chan i w1 = Inr ch" "channel_inv (conns w1 i) ch"
    by (rule conn_invE) blast
  obtain w2 where w2: "removeConnection i w1 = Inr w2" "conns w2 = conns w1"
      "\<forall>l. heap (loops w2 l) = heap (loops w1 l)"
    using removeConnection_total by blast
  have "get_chan i w2 = Inr ch" using ch(1) by (simp add: get_chan_def cloop_def w2(2,3))
  moreover have "\<not> isWriting ch" using ch(2) st isWriting_none by (simp add: channel_inv_def)
  ultimately have "handleWrite cbs i w2 = Inr w2" by (rule handleWrite_not_writing)
  then have "call_sequence (call_handler (conn_chan_callbacks cbs i) t) hs w2 = Inr w2"
    using assms(2) by (induction hs) (auto simp: conn_chan_callbacks_def call_if_set_def handleError_def)
  then show ?thesis by (simp add: w2(1))
qed

text \<open>
  The one way in which the handlers of an event may fail: the read or the write handler, called after
  the ones before it have returned, reads past the end of a buffer.
\<close>

definition overrun ::
    "server_world server_callbacks \<Rightarrow> nat \<Rightarrow> TimeStamp \<Rightarrow> handler list \<Rightarrow> server_world \<Rightarrow> bool" where
  "overrun cbs i t hs w \<longleftrightarrow> (\<exists>xs h ys w1. hs = xs @ h # ys \<and> h \<in> {OnRead, OnWrite}
     \<and> call_sequence (call_handler (conn_chan_callbacks (conn_cbs cbs) i) t) xs w = Inr w1
     \<and> call_handler (conn_chan_callbacks (conn_cbs cbs) i) t h w1 = Inl OutOfBounds)"

text \<open>
  The contract of callbacks that stay in their connection: the connection callback logs, and
  the message callback uses the connection it is called for in the thread of its loop, keeps it
  open and keeps its invariant.
\<close>

locale local_callbacks =
  fixes cbs :: "server_world server_callbacks"
  assumes only_logs: "srv_connection cbs = Some (\<lambda>i w. Inr w)"
    and no_complete: "srv_writeComplete cbs = None"
    and message_stays: "in_loop i w \<Longrightarrow> stays_open i w (call_function (srv_message cbs) (\<lambda>f. f i t w))"
begin

lemma cbs_none: "writeCompleteCallback (conn_cbs cbs) = None" "highWaterMarkCallback (conn_cbs cbs) = None"
  by (simp_all add: conn_cbs_def no_complete)

lemma close_leaves:
  assumes l: "in_loop i w"
  shows "\<exists>w1. handleClose (conn_cbs cbs) i w = removeConnection i w1 \<and> leaves i w w1"
proof -
  have inv: "conn_inv i w" using l by (simp add: in_loop_def)
  let ?c = "conn_channel (conns w i)" and ?w0 = "setState i kDisconnected w"
  obtain w1 where w1: "on_channel disableAll i (setState i kDisconnected w) = Inr w1" "conn_inv i w1"
    "conns w1 = (conns w)(i := (conns w i)\<lparr>conn_state := kDisconnected\<rparr>)"
    using close_channel_ok[OF inv] by blast
  obtain ch where ch: "get_chan i w = Inr ch" "index ch = kAdded"
    using l by (auto simp: in_loop_def listening_def)
  from inv ch(1) have hp: "heap (cloop i w) ?c = Some ch" "fd_free ?c ch (cloop i w)" "wf_poller (cloop i w)"
    by (auto simp: conn_inv_def get_chan_def)
  have "disableAll ?c (cloop i w) = Inr (after_change ?c (unwant_all ch) (cloop i w))"
    using change_events_ok[OF hp(3,1,2), of unwant_all] by (simp add: channel_ops)
  then have "w1 = upd_cloop i (\<lambda>_. after_change ?c (unwant_all ch) (cloop i w)) ?w0"
    using w1(1) by (simp add: on_channel_def)
  then have "get_chan i w1 = Inr (unwant_all ch\<lparr>index := kDeleted\<rparr>)"
    using ch(2) by (simp add: get_chan_def heap_after_change)
  moreover have "framed False i ?w0 (on_channel disableAll i ?w0)"
    by (rule framed_change[where f = unwant_all]) (simp_all add: channel_ops unwant_all_def)
  then have "framed False i w (on_channel disableAll i ?w0)" by (rule framed_from[OF frame_setState])
  ultimately show ?thesis
    using w1 by (auto simp: handleClose_def call_function_def conn_cbs_def only_logs leaves_def dest: framedD)
qed

lemma read_outcome:
  assumes l: "in_loop i w"
  shows "outcome i w (handleRead (conn_cbs cbs) i t w)"
proof -
  have inv: "conn_inv i w" using l by (simp add: in_loop_def)
  obtain n e b where r: "wf_buffer b"
    "handleRead (conn_cbs cbs) i t w =
      (let w1 = upd_conn i (\<lambda>c. c\<lparr>inputBuffer := b\<rparr>) (w\<lparr>reads_done := Suc (reads_done w)\<rparr>)
       in if (n :: int) > 0 then call_function (messageCallback (conn_cbs cbs)) (\<lambda>f. f i t w1)
          else if n = 0 then handleClose (conn_cbs cbs) i w1 else handleError i w1)"
    using handleRead_ok[OF inv, of "conn_cbs cbs" t] by (auto simp: Let_def)
  let ?w1 = "upd_conn i (\<lambda>c. c\<lparr>inputBuffer := b\<rparr>) (w\<lparr>reads_done := Suc (reads_done w)\<rparr>)"
  have s: "stays i w ?w1" using stays_input[OF l r(1)] by blast
  then have l1: "in_loop i ?w1" using l stays_in_loop by blast
  have "outcome i ?w1 (handleRead (conn_cbs cbs) i t w)"
    unfolding r(2) Let_def
    using message_stays[OF l1, of t] close_leaves[OF l1] stays_openI[OF stays_refl[OF l1]]
    by (auto simp: outcome_def conn_cbs_def handleError_def in_loop_def)
  with s show ?thesis by (rule outcome_from)
qed

lemma outcome_then_quiet:
  assumes l: "in_loop i w" and out: "outcome i w r" and hs: "set hs \<subseteq> {OnError, OnWrite}"
  shows "outcome i w (bind_result r
    (call_sequence (call_handler (conn_chan_callbacks (conn_cbs cbs) i) t) hs))"
proof -
  have one: "stays_open i w1 (call_handler (conn_chan_callbacks (conn_cbs cbs) i) t h w1)"
    if "in_loop i w1" "h \<in> {OnError, OnWrite}" for w1 h
    using that write_stays[OF that(1) cbs_none(1)] stays_openI[OF stays_refl[OF that(1)]]
    by (auto simp: conn_chan_callbacks_def call_if_set_def handleError_def)
  have all: "stays_open i w1 (call_sequence (call_handler (conn_chan_callbacks (conn_cbs cbs) i) t) gs w1)"
    if "in_loop i w1" "set gs \<subseteq> {OnError, OnWrite}" for w1 gs
    using that
  proof (induction gs arbitrary: w1)
    case Nil
    then show ?case using stays_openI[OF stays_refl] by simp
  next
    case (Cons h gs)
    show ?case unfolding call_sequence.simps
      by (rule stays_open_bind) (use Cons one in auto)
  qed
  from out[unfolded outcome_def] show ?thesis
  proof
    assume "stays_open i w r"
    with l have "stays_open i w (bind_result r
        (call_sequence (call_handler (conn_chan_callbacks (conn_cbs cbs) i) t) hs))"
      using all hs by (intro stays_open_bind)
    then show ?thesis by (rule outcome_stays)
  next
    assume "\<exists>w1. leaves i w w1 \<and> r = removeConnection i w1"
    then show ?thesis using leaves_quiet[OF _ hs] unfolding outcome_def by metis
  qed
qed

text \<open>
  The one combination that closes a connection twice is a hangup with urgent data and without
  input.
\<close>

lemma event_outcomes:
  fixes e :: "32 word"
  assumes l: "in_loop i w" and sane: "\<not> (bit e 4 \<and> \<not> bit e 0 \<and> bit e 1)"
  shows "outcome i w (call_sequence (call_handler (conn_chan_callbacks (conn_cbs cbs) i) t) (handlers_for e) w)"
proof -
  let ?call = "call_handler (conn_chan_callbacks (conn_cbs cbs) i) t"
  let ?E = "if bit e 3 then [OnError] else []" and ?W = "if bit e 2 then [OnWrite] else []"
  have inv: "conn_inv i w" using l by (simp add: in_loop_def)
  have error: "call_sequence ?call (?E @ hs) w = call_sequence ?call hs w" for hs
    by (simp add: conn_chan_callbacks_def call_if_set_def handleError_def)
  have here: "outcome i w (Inr w)" by (rule outcome_stays[OF stays_openI[OF stays_refl[OF l]]])
  consider (close) "handlers_for e = OnClose # ?E @ ?W" | (read) "handlers_for e = ?E @ OnRead # ?W"
    | (none) "handlers_for e = ?E @ ?W"
    using sane by (cases "bit e 0"; cases "bit e 4"; cases "bit e 1") (simp_all add: handlers_for_def)
  then show ?thesis
  proof cases
    case close
    have "outcome i w (handleClose (conn_cbs cbs) i w)" using close_leaves[OF l] by (auto simp: outcome_def)
    then have "outcome i w (?call OnClose w)" by (simp add: conn_chan_callbacks_def call_if_set_def)
    moreover have "set (?E @ ?W) \<subseteq> {OnError, OnWrite}" by auto
    ultimately show ?thesis unfolding close call_sequence.simps by (rule outcome_then_quiet[OF l])
  next
    case read
    have "outcome i w (?call OnRead w)"
      using read_outcome[OF l] by (simp add: conn_chan_callbacks_def call_if_set_def)
    moreover have "set ?W \<subseteq> {OnError, OnWrite}" by auto
    ultimately show ?thesis unfolding read error call_sequence.simps by (rule outcome_then_quiet[OF l])
  next
    case none
    have "set ?W \<subseteq> {OnError, OnWrite}" by auto
    from outcome_then_quiet[OF l here this, of t] show ?thesis
      unfolding none error bind_result.simps .
  qed
qed

lemma failed_overrun:
  fixes e :: "32 word"
  assumes l: "in_loop i w"
    and f: "call_sequence (call_handler (conn_chan_callbacks (conn_cbs cbs) i) t) (handlers_for e) w = Inl OutOfBounds"
  shows "overrun cbs i t (handlers_for e) w"
proof -
  let ?call = "call_handler (conn_chan_callbacks (conn_cbs cbs) i) t"
  obtain xs h ys w1 where h: "handlers_for e = xs @ h # ys" "call_sequence ?call xs w = Inr w1" "?call h w1 = Inl OutOfBounds"
    using call_sequence_fails[OF f] by blast
  have "h \<noteq> OnError" using h(3) by (auto simp: conn_chan_callbacks_def call_if_set_def handleError_def)
  moreover have "h \<noteq> OnClose"
  proof
    assume c: "h = OnClose"
    have "OnClose \<notin> set (tl (handlers_for e))" by (simp add: handlers_for_def)
    then have "xs = []" using h(1) c by (cases xs) auto
    then have "handleClose (conn_cbs cbs) i w = Inl OutOfBounds"
      using h(2,3) c by (simp add: conn_chan_callbacks_def call_if_set_def)
    then show False using close_leaves[OF l] removeConnection_total[of i] by (metis Inl_Inr_False)
  qed
  ultimately have "h \<in> {OnRead, OnWrite}" by (cases h) simp_all
  then show ?thesis using h unfolding overrun_def by blast
qed

end

end
