(* ===== verification/Server_Threads.thy ===== *)
theory Server_Threads
  imports Conn_Frame
begin

section \<open>A server with several loops\<close>

text \<open>
  The threads of a server run its loops at the same time. A loop is where its thread is in
  \<open>loop ()\<close>: waiting in \<open>poll\<close>, handling the channels that are ready, or calling the functors it
  has swapped out of its queue. A step is one call of \<open>poll\<close>, of one handler, of one functor, one
  critical section of \<open>doPendingFunctors\<close>, a part of a call of \<open>send\<close> or \<open>shutdown\<close> by some other
  thread that holds the connection, or the end of a connection; a schedule is any list of steps.

  A call by another thread is not one step, as nothing in the code makes it one: \<open>send\<close> reads
  \<open>state_\<close>, and later queues the functor; \<open>shutdown\<close> reads \<open>state_\<close>, later writes \<open>kDisconnecting\<close>,
  and later queues the functor. Between these steps any other thread may run. \<open>call_left\<close> is what a
  thread has still to do of the call it is in, \<open>in_call\<close> the threads that are in a call; such a thread
  holds a shared pointer to the connection.
\<close>

datatype loop_pos = Polling | Handling "nat list" TimeStamp | Calling "loop_functor list"

datatype call_left =
    QueueSend nat "char list"
  | SetDisconnecting nat
  | QueueShutdown nat

record thread_state =
  srv :: server_world
  loop_at :: "nat \<Rightarrow> loop_pos"
  in_call :: "(nat \<times> call_left) list"

datatype thread_event =
    RunLoop nat wait_answer TimeStamp
  | SendFrom nat nat "char list"
  | ShutdownFrom nat nat
  | GoOn nat
  | ReleaseFrom nat nat

definition server_loops :: "server_world \<Rightarrow> nat set" where
  "server_loops w = insert (srv_loop w) (set (pool_loops (threadPool w)))"

definition loop_turn ::
    "server_world server_callbacks \<Rightarrow> bool \<Rightarrow> nat \<Rightarrow> wait_answer \<Rightarrow> TimeStamp \<Rightarrow> thread_state
       \<Rightarrow> thread_state result" where
  "loop_turn cbs ok l ans now s =
     (let w = (srv s)\<lparr>cur_thread := threadId (loops (srv s) l)\<rparr>;
          go = (\<lambda>p w'. Inr (s\<lparr>srv := w', loop_at := (loop_at s)(l := p)\<rparr>))
      in case loop_at s l of
           Polling \<Rightarrow>
             if quit_flag (loops w l) then Inr s
             else bind_result (poll ans now (loops w l)) (\<lambda>(t, active, _, e).
                    go (Handling active t)
                      (upd_loop l (\<lambda>_. e\<lparr>activeChannels := active, pollReturnTime := t\<rparr>) w))
         | Handling [] t \<Rightarrow>
             go (Calling (pendingFunctors (loops w l)))
               (upd_loop l (\<lambda>e. e\<lparr>callingPendingFunctors := True, pendingFunctors := []\<rparr>) w)
         | Handling (c # cs) t \<Rightarrow>
             bind_result (handle_channel cbs (\<lambda>_. True) l c t w) (go (Handling cs t))
         | Calling [] \<Rightarrow> go Polling (upd_loop l (\<lambda>e. e\<lparr>callingPendingFunctors := False\<rparr>) w)
         | Calling (f # fs) \<Rightarrow> bind_result (exec_functor cbs ok f w) (go (Calling fs)))"

text \<open>The functors that loop \<open>l\<close> has still to call: the ones swapped out, then its queue.\<close>

definition swapped :: "thread_state \<Rightarrow> nat \<Rightarrow> loop_functor list" where
  "swapped s l = (case loop_at s l of Calling fs \<Rightarrow> fs | _ \<Rightarrow> [])"

definition todo :: "thread_state \<Rightarrow> nat \<Rightarrow> loop_functor list" where
  "todo s l = swapped s l @ pendingFunctors (loops (srv s) l)"

text \<open>
  Who owns connection \<open>i\<close>: the map of the server, or a functor in a queue, holds a shared pointer to it.
  A functor that has been called keeps its pointer until the vector of \<open>doPendingFunctors\<close> goes, and
  a thread that is in a call of \<open>send\<close> or \<open>shutdown\<close> has one of its own (\<open>held\<close>). When the last of all
  the pointers goes is up to the schedule: \<open>ReleaseFrom t i\<close> is the moment when thread \<open>t\<close> drops it and
  the destructor runs, at any time after the connection is not owned any more and no call is left.
\<close>

definition owned :: "nat \<Rightarrow> thread_state \<Rightarrow> bool" where
  "owned i s \<longleftrightarrow> connections (srv s) (conn_name (conns (srv s) i)) = Some i
     \<or> (\<exists>l \<in> server_loops (srv s). \<exists>f \<in> set (todo s l). functor_holds f = Some i)"

fun call_conn :: "call_left \<Rightarrow> nat" where
  "call_conn (QueueSend i msg) = i"
| "call_conn (SetDisconnecting i) = i"
| "call_conn (QueueShutdown i) = i"

definition held :: "nat \<Rightarrow> thread_state \<Rightarrow> bool" where
  "held i s \<longleftrightarrow> (\<exists>(t, c) \<in> set (in_call s). call_conn c = i)"

text \<open>
  The parts of \<open>send\<close> and \<open>shutdown\<close> after the test of \<open>state_\<close>. \<open>go_on\<close> makes the next step of a
  call, and says what is left of it.
\<close>

definition send_rest ::
    "server_world conn_callbacks \<Rightarrow> nat \<Rightarrow> char list \<Rightarrow> server_world \<Rightarrow> server_world result" where
  "send_rest cbs i message w =
     (if isInLoopThread (cur_thread w) (cloop i w) then sendInLoop cbs i message w
      else run_conn i (SendInLoop i message) (sendInLoop cbs i message) w)"

definition shutdown_queue :: "nat \<Rightarrow> server_world \<Rightarrow> server_world result" where
  "shutdown_queue i w = run_conn i (ShutdownInLoop i) (shutdownInLoop i) w"

fun go_on ::
    "server_world conn_callbacks \<Rightarrow> call_left \<Rightarrow> server_world
       \<Rightarrow> (call_left option \<times> server_world) result" where
  "go_on cbs (QueueSend i msg) w = bind_result (send_rest cbs i msg w) (\<lambda>w'. Inr (None, w'))"
| "go_on cbs (SetDisconnecting i) w = Inr (Some (QueueShutdown i), setState i kDisconnecting w)"
| "go_on cbs (QueueShutdown i) w = bind_result (shutdown_queue i w) (\<lambda>w'. Inr (None, w'))"

text \<open>The calls in progress after thread \<open>t\<close> has got to \<open>c\<close>.\<close>

definition set_call :: "nat \<Rightarrow> call_left option \<Rightarrow> thread_state \<Rightarrow> thread_state" where
  "set_call t c s = s\<lparr>in_call :=
     (case c of None \<Rightarrow> [] | Some c' \<Rightarrow> [(t, c')]) @ filter (\<lambda>(u, _). u \<noteq> t) (in_call s)\<rparr>"

text \<open>
  A thread that is in a call makes no other call. The calls that find another state than
  \<open>kConnected\<close> return at once.
\<close>

fun server_step ::
    "server_world server_callbacks \<Rightarrow> bool \<Rightarrow> thread_event \<Rightarrow> thread_state \<Rightarrow> thread_state result" where
  "server_step cbs ok (RunLoop l ans now) s =
     (if l \<in> server_loops (srv s) then loop_turn cbs ok l ans now s else Inr s)"
| "server_step cbs ok (SendFrom t i msg) s =
     (if map_of (in_call s) t = None \<and> conn_state (conns (srv s) i) = kConnected
      then Inr (set_call t (Some (QueueSend i msg)) s) else Inr s)"
| "server_step cbs ok (ShutdownFrom t i) s =
     (if map_of (in_call s) t = None \<and> conn_state (conns (srv s) i) = kConnected
      then Inr (set_call t (Some (SetDisconnecting i)) s) else Inr s)"
| "server_step cbs ok (GoOn t) s =
     (case map_of (in_call s) t of None \<Rightarrow> Inr s
      | Some c \<Rightarrow> bind_result (go_on (conn_cbs cbs) c ((srv s)\<lparr>cur_thread := t\<rparr>))
          (\<lambda>(c', w). Inr (set_call t c' (s\<lparr>srv := w\<rparr>))))"
| "server_step cbs ok (ReleaseFrom t i) s =
     (if owned i s \<or> held i s then Inr s
      else bind_result (TcpConnection_destroy i ((srv s)\<lparr>cur_thread := t\<rparr>)) (\<lambda>w. Inr (s\<lparr>srv := w\<rparr>)))"

definition server_run ::
    "server_world server_callbacks \<Rightarrow> bool \<Rightarrow> thread_event list \<Rightarrow> thread_state \<Rightarrow> thread_state result" where
  "server_run cbs ok = call_sequence (server_step cbs ok)"

text \<open>
  What the kernel and the other threads do not do. \<open>epoll_wait\<close> reports a descriptor once, no
  timer, which nobody has armed, and no hangup with urgent data and without input; \<open>accept\<close>
  returns a descriptor that is not open; another thread is not one of the loops. What is released is a
  connection of the server that has not been destroyed (\<open>stands\<close>). The number of connections stays
  below \<open>2 ^ 31 - 1\<close>.

  The steps of a call of \<open>send\<close> or \<open>shutdown\<close> after its test of \<open>state_\<close> happen while the connection
  has not been closed (\<open>not_closed\<close>): it may have been shut down in between, and every thread may
  have run, but a call that \<open>handleClose\<close> has overtaken goes no further. The code does nothing to
  keep such a call from going on; \<open>late_shutdown_meets_freed_connection\<close> shows what it does then.
\<close>

definition not_closed :: "nat \<Rightarrow> server_world \<Rightarrow> bool" where
  "not_closed i w \<longleftrightarrow> connections w (conn_name (conns w i)) = Some i
     \<and> (conn_state (conns w i) = kConnected \<or> conn_state (conns w i) = kDisconnecting)"

definition fd_in_use :: "int \<Rightarrow> server_world \<Rightarrow> bool" where
  "fd_in_use fd w \<longleftrightarrow> (\<exists>l \<in> server_loops w. registry (loops w l) fd \<noteq> None)
     \<or> (\<exists>i < next_address w. connections w (conn_name (conns w i)) = Some i \<and> sockfd (conns w i) = fd)"

definition sane_events :: "32 word \<Rightarrow> bool" where
  "sane_events e \<longleftrightarrow> \<not> (bit e 4 \<and> \<not> bit e 0 \<and> bit e 1)"

definition sane_wait :: "wait_answer \<Rightarrow> nat \<Rightarrow> server_world \<Rightarrow> bool" where
  "sane_wait ans l w \<longleftrightarrow>
     (ans = WaitOk [] \<or> event_slots (loops w l) < 2 ^ 31 \<and> 0 < event_slots (loops w l))
     \<and> (case ans of WaitErr _ \<Rightarrow> True
        | WaitOk evs \<Rightarrow> distinct (map snd evs) \<and> (\<forall>(e, fd) \<in> set evs. sane_events e
            \<and> registry (loops w l) fd \<noteq> Some (timerChannel (loops w l))))"

definition own_channels :: "nat \<Rightarrow> server_world \<Rightarrow> nat set" where
  "own_channels l w = {wakeupChannel (loops w l), timerChannel (loops w l)}
     \<union> (if l = srv_loop w then {acceptChannel w} else {})"

definition stands :: "nat \<Rightarrow> server_world \<Rightarrow> bool" where
  "stands i w \<longleftrightarrow> (let l = conn_loop (conns w i)
     in l \<in> server_loops w \<and> heap (loops w l) (Suc i) \<noteq> None \<and> Suc i \<notin> own_channels l w)"

fun plausible :: "thread_event \<Rightarrow> thread_state \<Rightarrow> bool" where
  "plausible (RunLoop l ans now) s \<longleftrightarrow>
     (case loop_at s l of
        Polling \<Rightarrow> sane_wait ans l (srv s)
      | Handling (c # cs) t \<Rightarrow> c = acceptChannel (srv s) \<longrightarrow>
          nextConnId (srv s) + 1 < 2 ^ 31
          \<and> (case accept_answers (srv s) (accepts_done (srv s)) of
               AcceptErr _ \<Rightarrow> True | AcceptOk fd peer \<Rightarrow> \<not> fd_in_use fd (srv s))
      | _ \<Rightarrow> True)"
| "plausible (SendFrom t i msg) s \<longleftrightarrow> (\<forall>l \<in> server_loops (srv s). threadId (loops (srv s) l) \<noteq> t)"
| "plausible (ShutdownFrom t i) s \<longleftrightarrow> (\<forall>l \<in> server_loops (srv s). threadId (loops (srv s) l) \<noteq> t)"
| "plausible (GoOn t) s \<longleftrightarrow> (\<forall>l \<in> server_loops (srv s). threadId (loops (srv s) l) \<noteq> t)
     \<and> (case map_of (in_call s) t of None \<Rightarrow> True
        | Some c \<Rightarrow> not_closed (call_conn c) (srv s))"
| "plausible (ReleaseFrom t i) s \<longleftrightarrow> stands i (srv s)"

fun plausible_run ::
    "server_world server_callbacks \<Rightarrow> bool \<Rightarrow> thread_event list \<Rightarrow> thread_state \<Rightarrow> bool" where
  "plausible_run cbs ok [] s \<longleftrightarrow> True"
| "plausible_run cbs ok (ev # evs) s \<longleftrightarrow> plausible ev s
     \<and> (case server_step cbs ok ev s of Inl _ \<Rightarrow> True | Inr s' \<Rightarrow> plausible_run cbs ok evs s')"

text \<open>A call whose steps follow each other is the call as one function.\<close>

lemma send_in_steps:
  assumes "map_of (in_call s) t = None"
  shows "bind_result (server_step cbs ok (SendFrom t i msg) s) (server_step cbs ok (GoOn t))
    = (if conn_state (conns (srv s) i) = kConnected
       then bind_result (send_string (conn_cbs cbs) i msg ((srv s)\<lparr>cur_thread := t\<rparr>))
         (\<lambda>w. Inr (set_call t None (s\<lparr>srv := w\<rparr>)))
       else Inr s)"
  using assms by (auto simp: set_call_def send_string_def send_rest_def bind_result_assoc)

lemma setState_thread:
  "(setState i k (w\<lparr>cur_thread := t\<rparr>))\<lparr>cur_thread := t\<rparr> = setState i k (w\<lparr>cur_thread := t\<rparr>)"
  by (cases w) (simp add: setState_def upd_conn_def)

lemma shutdown_in_steps:
  assumes "map_of (in_call s) t = None"
  shows "bind_result (bind_result (server_step cbs ok (ShutdownFrom t i) s) (server_step cbs ok (GoOn t)))
      (server_step cbs ok (GoOn t))
    = (if conn_state (conns (srv s) i) = kConnected
       then bind_result (shutdown_conn i ((srv s)\<lparr>cur_thread := t\<rparr>))
         (\<lambda>w. Inr (set_call t None (s\<lparr>srv := w\<rparr>)))
       else Inr s)"
  using assms by (auto simp: set_call_def shutdown_conn_def shutdown_queue_def bind_result_assoc setState_thread)

lemma set_call_simps [simp]:
  "srv (set_call t c s) = srv s" "loop_at (set_call t c s) = loop_at s"
  "swapped (set_call t c s) = swapped s" "todo (set_call t c s) = todo s" "owned i (set_call t c s) = owned i s"
  by (simp_all add: set_call_def swapped_def todo_def owned_def fun_eq_iff)

subsection \<open>The life of a connection in a server\<close>

text \<open>
  A connection that \<open>newConnection\<close> has made is opened by the thread of its loop. Once closed, it
  waits to be taken out of the map by the thread of the server, and then to be taken out of the
  poller by its own; then it is gone, and its memory may be freed. In each of these waits one functor is on its way; while the connection is
  open, and behind it, there may be calls of \<open>sendInLoop\<close> and \<open>shutdownInLoop\<close>.
\<close>

datatype stage = Fresh | Opening | Open | Removing | Dying | Gone

fun conn_of :: "loop_functor \<Rightarrow> nat option" where
  "conn_of (SendInLoop i msg) = Some i"
| "conn_of (ShutdownInLoop i) = Some i"
| "conn_of (CallWriteComplete i) = Some i"
| "conn_of (CallHighWaterMark i n) = Some i"
| "conn_of (ConnectEstablished i) = Some i"
| "conn_of (ConnectDestroyed i) = Some i"
| "conn_of (RemoveConnectionInLoop i) = Some i"
| "conn_of _ = None"

fun is_data :: "loop_functor \<Rightarrow> bool" where
  "is_data (SendInLoop i msg) = True"
| "is_data (ShutdownInLoop i) = True"
| "is_data _ = False"

definition about :: "nat \<Rightarrow> loop_functor list \<Rightarrow> loop_functor list" where
  "about i fs = filter (\<lambda>f. conn_of f = Some i) fs"

text \<open>\<open>io\<close> is the loop of the connection, \<open>base\<close> that of the server.\<close>

fun awaited :: "stage \<Rightarrow> nat \<Rightarrow> nat \<Rightarrow> nat \<Rightarrow> nat \<Rightarrow> loop_functor list" where
  "awaited Opening i io base l = (if l = io then [ConnectEstablished i] else [])"
| "awaited Removing i io base l = (if l = base then [RemoveConnectionInLoop i] else [])"
| "awaited Dying i io base l = (if l = io then [ConnectDestroyed i] else [])"
| "awaited _ i io base l = []"

definition queue_ok :: "stage \<Rightarrow> nat \<Rightarrow> nat \<Rightarrow> nat \<Rightarrow> nat \<Rightarrow> loop_functor list \<Rightarrow> bool" where
  "queue_ok st i io base l q \<longleftrightarrow> (\<exists>ds. q = ds @ awaited st i io base l \<and> (\<forall>f \<in> set ds. is_data f)
     \<and> (ds \<noteq> [] \<longrightarrow> l = io \<and> st \<in> {Open, Removing, Dying}))"

definition live :: "stage \<Rightarrow> bool" where
  "live st \<longleftrightarrow> st \<in> {Opening, Open, Removing, Dying}"

definition in_map :: "stage \<Rightarrow> bool" where
  "in_map st \<longleftrightarrow> st \<in> {Opening, Open, Removing}"

definition staying :: "stage \<Rightarrow> bool" where
  "staying st \<longleftrightarrow> st \<in> {Opening, Open}"

definition closing :: "stage \<Rightarrow> bool" where
  "closing st \<longleftrightarrow> st \<in> {Removing, Dying, Gone}"

fun stage_ok :: "stage \<Rightarrow> nat \<Rightarrow> server_world \<Rightarrow> channel \<Rightarrow> bool" where
  "stage_ok Fresh i w ch = True"
| "stage_ok Opening i w ch \<longleftrightarrow> conn_inv i w \<and> conn_state (conns w i) = kConnecting \<and> index ch = kNew"
| "stage_ok Gone i w ch \<longleftrightarrow> conn_state (conns w i) = kDisconnected \<and> index ch = kNew"
| "stage_ok Open i w ch \<longleftrightarrow> conn_inv i w \<and> active (conns w i) \<and> listening ch
     \<and> tied ch \<and> tie_obj ch = Some i"
| "stage_ok st i w ch \<longleftrightarrow> conn_inv i w \<and> conn_state (conns w i) = kDisconnected
     \<and> index ch = kDeleted \<and> tied ch \<and> tie_obj ch = Some i"

text \<open>The address of a channel is the one behind that of its connection.\<close>

definition conn_ok :: "stage \<Rightarrow> nat \<Rightarrow> server_world \<Rightarrow> bool" where
  "conn_ok st i w \<longleftrightarrow>
     (if st = Fresh then conn_state (conns w i) \<noteq> kConnected
      else Suc i < next_address w \<and> conn_loop (conns w i) \<in> server_loops w
        \<and> conn_channel (conns w i) = Suc i
        \<and> (case heap (loops w (conn_loop (conns w i))) (Suc i) of
             None \<Rightarrow> st = Gone \<and> conn_state (conns w i) = kDisconnected
           | Some ch \<Rightarrow> stage_ok st i w ch))"

subsection \<open>The invariant\<close>

definition own_ok :: "(nat \<Rightarrow> stage) \<Rightarrow> nat \<Rightarrow> server_world \<Rightarrow> nat \<Rightarrow> bool" where
  "own_ok st l w c \<longleftrightarrow> c < next_address w \<and> (\<forall>i. st i \<noteq> Fresh \<longrightarrow> c \<noteq> Suc i)
     \<and> (\<exists>ch. heap (loops w l) c = Some ch \<and> \<not> tied ch \<and> index ch = kAdded
          \<and> (\<forall>i. live (st i) \<longrightarrow> sockfd (conns w i) \<noteq> chan_fd ch))"

definition poller_ok :: "(nat \<Rightarrow> stage) \<Rightarrow> nat \<Rightarrow> server_world \<Rightarrow> bool" where
  "poller_ok st l w \<longleftrightarrow> wf_poller (loops w l) \<and> (\<forall>c \<in> own_channels l w. own_ok st l w c)
     \<and> (\<forall>c \<in> dom (heap (loops w l)). c \<in> own_channels l w
          \<or> (\<exists>i. c = Suc i \<and> st i \<noteq> Fresh \<and> conn_loop (conns w i) = l))"

definition map_ok :: "(nat \<Rightarrow> stage) \<Rightarrow> server_world \<Rightarrow> bool" where
  "map_ok st w \<longleftrightarrow> (\<forall>n i. connections w n = Some i \<longleftrightarrow> conn_name (conns w i) = n \<and> in_map (st i))"

definition fds_ok :: "(nat \<Rightarrow> stage) \<Rightarrow> server_world \<Rightarrow> bool" where
  "fds_ok st w \<longleftrightarrow> (\<forall>i j. live (st i) \<and> live (st j) \<and> sockfd (conns w i) = sockfd (conns w j) \<longrightarrow> i = j)"

definition queues_ok :: "(nat \<Rightarrow> stage) \<Rightarrow> (nat \<Rightarrow> loop_functor list) \<Rightarrow> server_world \<Rightarrow> bool" where
  "queues_ok st Q w \<longleftrightarrow> (\<forall>l \<in> server_loops w.
     (\<forall>i. queue_ok (st i) i (conn_loop (conns w i)) (srv_loop w) l (about i (Q l)))
     \<and> (\<forall>f \<in> set (Q l). conn_of f \<noteq> None))"

definition server_ok :: "server_world \<Rightarrow> bool" where
  "server_ok w \<longleftrightarrow> names_inv w \<and> wf_pool (threadPool w) \<and> baseLoop (threadPool w) = srv_loop w
     \<and> inj_on (\<lambda>l. threadId (loops w l)) (server_loops w)"

definition world_inv :: "(nat \<Rightarrow> stage) \<Rightarrow> (nat \<Rightarrow> loop_functor list) \<Rightarrow> server_world \<Rightarrow> bool" where
  "world_inv st Q w \<longleftrightarrow> server_ok w \<and> (\<forall>i. conn_ok (st i) i w) \<and> (\<forall>l \<in> server_loops w. poller_ok st l w)
     \<and> map_ok st w \<and> fds_ok st w \<and> queues_ok st Q w"

definition ready_ok :: "(nat \<Rightarrow> stage) \<Rightarrow> nat \<Rightarrow> server_world \<Rightarrow> nat \<Rightarrow> bool" where
  "ready_ok st l w c \<longleftrightarrow> c \<in> own_channels l w \<and> c \<noteq> timerChannel (loops w l)
     \<or> (\<exists>i ch. c = Suc i \<and> st i = Open \<and> conn_loop (conns w i) = l
          \<and> heap (loops w l) c = Some ch \<and> sane_events (revents ch))"

text \<open>A loop that waits, or is about to, has been woken if there are functors in its queue.\<close>

definition woken :: "'f eventloop \<Rightarrow> bool" where
  "woken e \<longleftrightarrow> (pendingFunctors e \<noteq> [] \<longrightarrow> 0 < wakeup_count e)"

fun pos_ok :: "(nat \<Rightarrow> stage) \<Rightarrow> nat \<Rightarrow> server_world \<Rightarrow> loop_pos \<Rightarrow> bool" where
  "pos_ok st l w Polling \<longleftrightarrow> \<not> callingPendingFunctors (loops w l) \<and> woken (loops w l)"
| "pos_ok st l w (Handling cs t) \<longleftrightarrow> \<not> callingPendingFunctors (loops w l) \<and> distinct cs
     \<and> (\<forall>c \<in> set cs. ready_ok st l w c)"
| "pos_ok st l w (Calling fs) \<longleftrightarrow> callingPendingFunctors (loops w l) \<and> woken (loops w l)"

definition threads_inv :: "(nat \<Rightarrow> stage) \<Rightarrow> thread_state \<Rightarrow> bool" where
  "threads_inv st s \<longleftrightarrow> world_inv st (todo s) (srv s)
     \<and> (\<forall>l \<in> server_loops (srv s). pos_ok st l (srv s) (loop_at s l))"

subsection \<open>Facts about queues\<close>

lemma about_simps [simp]:
  "about i [] = []" "about i (xs @ ys) = about i xs @ about i ys"
  "about i (f # fs) = (if conn_of f = Some i then f # about i fs else about i fs)"
  by (simp_all add: about_def)

lemma queue_ok_data:
  assumes "queue_ok st i io base l (f # q)" and "is_data f"
  shows "queue_ok st i io base l q" "l = io" "st \<in> {Open, Removing, Dying}"
proof -
  from assms(1) obtain ds where ds: "f # q = ds @ awaited st i io base l" "\<forall>f \<in> set ds. is_data f"
      "ds \<noteq> [] \<longrightarrow> l = io \<and> st \<in> {Open, Removing, Dying}"
    by (auto simp: queue_ok_def)
  have "\<not> is_data g" if "g \<in> set (awaited st i io base l)" for g
    using that by (cases st) (auto split: if_splits)
  then have "ds \<noteq> []" using ds(1) assms(2) by (metis append_Nil list.set_intros(1))
  with ds(1) obtain ds' where ds': "ds = f # ds'" by (cases ds) auto
  with ds show "queue_ok st i io base l q" "l = io" "st \<in> {Open, Removing, Dying}"
    by (auto simp: queue_ok_def)
qed

lemma queue_ok_awaited:
  assumes "queue_ok st i io base l (f # q)" and "\<not> is_data f"
  shows "q = []" "awaited st i io base l = [f]"
proof -
  from assms(1) obtain ds where ds: "f # q = ds @ awaited st i io base l" "\<forall>f \<in> set ds. is_data f"
    by (auto simp: queue_ok_def)
  with assms(2) have "ds = []" by (cases ds) auto
  with ds(1) have "awaited st i io base l = f # q" by simp
  then show "q = []" "awaited st i io base l = [f]" by (cases st; auto split: if_splits)+
qed

lemma queue_ok_empty: "queue_ok st i io base l [] \<longleftrightarrow> awaited st i io base l = []"
  by (auto simp: queue_ok_def)

lemma queue_ok_add_data:
  assumes "queue_ok Open i io base l q" and "is_data f" and "l = io"
  shows "queue_ok Open i io base l (q @ [f])"
  using assms by (auto simp: queue_ok_def)

text \<open>A loop without functors about a connection other than data.\<close>

lemma queue_ok_closes:
  assumes "queue_ok Open i io base l q"
  shows "queue_ok Dying i io base l (q @ (if l = io then [ConnectDestroyed i] else []))"
    and "queue_ok Removing i io base l (q @ (if l = base then [RemoveConnectionInLoop i] else []))"
  using assms by (auto simp: queue_ok_def)

lemma queue_ok_removed:
  assumes "queue_ok Removing i io base l (if l = base then RemoveConnectionInLoop i # q else q)"
  shows "queue_ok Dying i io base l (if l = io then q @ [ConnectDestroyed i] else q)"
proof (cases "l = base")
  case True
  then have "q = []" using queue_ok_awaited(1)[of Removing i io base l "RemoveConnectionInLoop i" q] assms by simp
  then show ?thesis by (auto simp: queue_ok_def)
next
  case False
  then show ?thesis using assms by (auto simp: queue_ok_def)
qed

lemma queueInLoop_channels [simp]:
  "wakeupChannel (queueInLoop t f e) = wakeupChannel e" "timerChannel (queueInLoop t f e) = timerChannel e"
  by (simp_all add: queue_defs)

subsection \<open>Changes that keep the invariant\<close>

definition server_same :: "server_world \<Rightarrow> server_world \<Rightarrow> bool" where
  "server_same w w' \<longleftrightarrow> srv_loop w' = srv_loop w \<and> srv_name w' = srv_name w \<and> ipPort w' = ipPort w
     \<and> threadPool w' = threadPool w \<and> nextConnId w' = nextConnId w
     \<and> acceptChannel w' = acceptChannel w \<and> next_address w' = next_address w
     \<and> closed_fds w' = closed_fds w"

lemma server_same_refl [simp]: "server_same w w"
  by (simp add: server_same_def)

lemma server_same_trans: "server_same a b \<Longrightarrow> server_same b c \<Longrightarrow> server_same a c"
  by (simp add: server_same_def)

lemma server_same_more: "world.more w' = world.more w \<Longrightarrow> server_same w w'"
  using server_fields[of w' w] by (simp add: server_same_def)

lemma server_same_loops: "server_same w w' \<Longrightarrow> server_loops w' = server_loops w"
  by (simp add: server_same_def server_loops_def)

text \<open>Only the returned events of channels, queues, counters and flags may differ.\<close>

definition similar :: "channel \<Rightarrow> channel \<Rightarrow> bool" where
  "similar ch ch' \<longleftrightarrow> chan_fd ch' = chan_fd ch \<and> events ch' = events ch \<and> index ch' = index ch
     \<and> tied ch' = tied ch \<and> tie_obj ch' = tie_obj ch"

lemma similar_simps:
  assumes "similar ch ch'"
  shows "chan_fd ch' = chan_fd ch" "index ch' = index ch" "tied ch' = tied ch" "tie_obj ch' = tie_obj ch"
    "fd_free c ch' e = fd_free c ch e" "channel_inv cn ch' = channel_inv cn ch"
    "listening ch' = listening ch"
  using assms by (auto simp: similar_def fd_free_def channel_inv_def isNoneEvent_def isWriting_def
      listening_def isReading_def)

lemma similar_refl [simp]: "similar ch ch"
  by (simp add: similar_def)

definition loop_view :: "'f eventloop \<Rightarrow> 'f eventloop \<Rightarrow> bool" where
  "loop_view e e' \<longleftrightarrow> registry e' = registry e \<and> (\<forall>c. rel_option similar (heap e c) (heap e' c))
     \<and> (wf_poller e \<longrightarrow> wf_poller e') \<and> threadId e' = threadId e
     \<and> wakeupChannel e' = wakeupChannel e \<and> timerChannel e' = timerChannel e"

lemma rel_option_similar [simp]: "rel_option similar x x"
  by (cases x) simp_all

lemma loop_viewI:
  "heap e' = heap e \<Longrightarrow> registry e' = registry e \<Longrightarrow> interest e' = interest e \<Longrightarrow> threadId e' = threadId e \<Longrightarrow>
   wakeupChannel e' = wakeupChannel e \<Longrightarrow> timerChannel e' = timerChannel e \<Longrightarrow> loop_view e e'"
  using wf_poller_cong[of e e'] by (simp add: loop_view_def)

lemma loop_view_refl [simp]: "loop_view e e"
  by (simp add: loop_view_def)

definition same_view :: "server_world \<Rightarrow> server_world \<Rightarrow> bool" where
  "same_view w w' \<longleftrightarrow> conns w' = conns w \<and> (\<forall>l. loop_view (loops w l) (loops w' l))
     \<and> server_same w w' \<and> connections w' = connections w"

lemma view_heap:
  assumes "loop_view e e'" and "heap e c = Some ch"
  obtains ch' where "heap e' c = Some ch'" and "similar ch ch'"
proof -
  have "rel_option similar (heap e c) (heap e' c)" using assms(1) by (simp add: loop_view_def)
  with assms(2) that show thesis by (auto simp: option_rel_Some1)
qed

lemma view_dom: "loop_view e e' \<Longrightarrow> dom (heap e') = dom (heap e)"
proof -
  assume v: "loop_view e e'"
  have "heap e' c = None \<longleftrightarrow> heap e c = None" for c
    using v unfolding loop_view_def by (metis option.rel_distinct(1,2) rel_option_None1 rel_option_None2)
  then show ?thesis by (auto simp: dom_def)
qed

lemma view_own_channels: "same_view w w' \<Longrightarrow> own_channels l w' = own_channels l w"
  by (simp add: same_view_def own_channels_def loop_view_def server_same_def)

lemma view_conn_inv:
  assumes v: "same_view w w'" and "conn_inv i w"
  shows "conn_inv i w'"
proof -
  let ?c = "conn_channel (conns w i)"
  have lv: "loop_view (cloop i w) (cloop i w')" and cn: "conns w' = conns w"
    using v by (simp_all add: same_view_def cloop_def)
  from assms(2) obtain ch where ch: "heap (cloop i w) ?c = Some ch" "fd_free ?c ch (cloop i w)"
    "channel_inv (conns w i) ch" "wf_poller (cloop i w)" "wf_buffer (inputBuffer (conns w i))"
    "wf_buffer (outputBuffer (conns w i))" by (rule conn_invE)
  obtain ch' where ch': "heap (cloop i w') ?c = Some ch'" "similar ch ch'" using view_heap[OF lv ch(1)] .
  have "registry (cloop i w') = registry (cloop i w)" "wf_poller (cloop i w')"
    using lv ch(4) by (simp_all add: loop_view_def)
  then show ?thesis
    using ch(2-6) ch' similar_simps[OF ch'(2)] by (simp add: conn_inv_def cn fd_free_def)
qed

lemma view_conn_ok:
  assumes v: "same_view w w'" and "conn_ok x i w"
  shows "conn_ok x i w'"
proof (cases "x = Fresh")
  case True
  then show ?thesis using assms by (simp add: conn_ok_def same_view_def)
next
  case False
  let ?l = "conn_loop (conns w i)"
  have f: "conns w' = conns w" "server_loops w' = server_loops w" "next_address w' = next_address w"
    and lv: "loop_view (loops w ?l) (loops w' ?l)"
    using v server_same_loops[of w w'] by (auto simp: same_view_def server_same_def)
  from assms(2) False have i: "Suc i < next_address w" "?l \<in> server_loops w" "conn_channel (conns w i) = Suc i"
    by (auto simp: conn_ok_def)
  show ?thesis
  proof (cases "heap (loops w ?l) (Suc i)")
    case None
    then have "heap (loops w' ?l) (Suc i) = None" using view_dom[OF lv] by (metis domIff)
    then show ?thesis using None assms(2) False i by (simp add: conn_ok_def f)
  next
    case (Some ch)
    then have ok: "stage_ok x i w ch" using assms(2) False by (simp add: conn_ok_def)
    obtain ch' where ch': "heap (loops w' ?l) (Suc i) = Some ch'" "similar ch ch'" using view_heap[OF lv Some] .
    have "stage_ok x i w' ch'"
      using ok similar_simps[OF ch'(2)] view_conn_inv[OF v, of i] by (cases x) (auto simp: f)
    then show ?thesis using i ch'(1) False by (simp add: conn_ok_def f)
  qed
qed

lemma view_poller_ok:
  assumes v: "same_view w w'" and "poller_ok st l w"
  shows "poller_ok st l w'"
proof -
  have f: "conns w' = conns w" "own_channels l w' = own_channels l w" "next_address w' = next_address w"
    and lv: "loop_view (loops w l) (loops w' l)"
    using v view_own_channels by (auto simp: same_view_def server_same_def)
  have "own_ok st l w' c" if o: "own_ok st l w c" for c
  proof -
    from o obtain ch where ch: "heap (loops w l) c = Some ch" "\<not> tied ch" "index ch = kAdded"
      "\<forall>i. live (st i) \<longrightarrow> sockfd (conns w i) \<noteq> chan_fd ch" by (auto simp: own_ok_def)
    obtain ch' where "heap (loops w' l) c = Some ch'" "similar ch ch'" using view_heap[OF lv ch(1)] .
    then show ?thesis using o ch(2-) similar_simps by (auto simp: own_ok_def f)
  qed
  then show ?thesis
    using assms(2) lv view_dom[OF lv] by (auto simp: poller_ok_def f loop_view_def)
qed

lemma view_server_ok:
  assumes "same_view w w'" and "server_ok w"
  shows "server_ok w'"
proof -
  have "server_same w w'" "connections w' = connections w" "\<forall>l. threadId (loops w' l) = threadId (loops w l)"
    using assms(1) by (auto simp: same_view_def loop_view_def)
  then show ?thesis using assms(2) names_inv_cong[of w w'] server_same_loops[of w w']
    by (simp add: server_ok_def server_same_def inj_on_def)
qed

lemma queues_view:
  assumes "same_view w w'" and "queues_ok st Q w"
  shows "queues_ok st Q w'"
  using assms server_same_loops[of w w'] by (auto simp: queues_ok_def same_view_def server_same_def)

lemma world_inv_view:
  assumes "same_view w w'" and "world_inv st Q w"
  shows "world_inv st Q w'"
proof -
  have "server_loops w' = server_loops w" "conns w' = conns w" "connections w' = connections w"
    using assms(1) server_same_loops[of w w'] by (auto simp: same_view_def)
  moreover from this have "map_ok st w' = map_ok st w" "fds_ok st w' = fds_ok st w"
    by (simp_all add: map_ok_def fds_ok_def)
  ultimately show ?thesis
    using assms(2) view_conn_ok[OF assms(1)] view_poller_ok[OF assms(1)] view_server_ok[OF assms(1)]
      queues_view[OF assms(1)]
    unfolding world_inv_def by metis
qed

text \<open>Only connection \<open>i\<close>, its channel and its descriptor may differ.\<close>

definition others_same :: "nat \<Rightarrow> server_world \<Rightarrow> server_world \<Rightarrow> bool" where
  "others_same i w w' \<longleftrightarrow>
     (\<forall>j. j \<noteq> i \<longrightarrow> conns w' j = conns w j) \<and> same_identity (conns w i) (conns w' i)
     \<and> (\<forall>l c. l \<noteq> conn_loop (conns w i) \<or> c \<noteq> Suc i \<longrightarrow> heap (loops w' l) c = heap (loops w l) c)
     \<and> (\<forall>l fd. l \<noteq> conn_loop (conns w i) \<or> fd \<noteq> sockfd (conns w i) \<longrightarrow>
          registry (loops w' l) fd = registry (loops w l) fd)
     \<and> (\<forall>l. threadId (loops w' l) = threadId (loops w l)
          \<and> wakeupChannel (loops w' l) = wakeupChannel (loops w l)
          \<and> timerChannel (loops w' l) = timerChannel (loops w l) \<and> event_slots (loops w' l) = event_slots (loops w l))
     \<and> server_same w w'"

lemma others_same_trans:
  assumes "others_same i a b" and "others_same i b c"
  shows "others_same i a c"
proof -
  have "server_same a c" using assms server_same_trans unfolding others_same_def by blast
  then show ?thesis using assms unfolding others_same_def same_identity_def by simp
qed

lemma others_same_frame:
  assumes fr: "conn_frame k i w w'" and c: "conn_channel (conns w i) = Suc i" and inv: "conn_inv i w"
  shows "others_same i w w'"
proof -
  let ?l = "conn_loop (conns w i)"
  from inv obtain ch where ch: "heap (cloop i w) (Suc i) = Some ch" "chan_fd ch = sockfd (conns w i)"
    unfolding c[symmetric] by (rule conn_invE) (auto simp: channel_inv_def)
  have cl: "cloop i w = loops w ?l" "cloop i w' = loops w' ?l"
    using fr by (simp_all add: cloop_def conn_frame_def same_identity_def)
  have lf: "loop_frame k (Suc i) (loops w ?l) (loops w' ?l)"
    using fr by (simp add: conn_frame_def c cl)
  have far: "loops w' l = loops w l" if "l \<noteq> ?l" for l using fr that by (simp add: conn_frame_def)
  have "registry (loops w' l) fd = registry (loops w l) fd" if "l \<noteq> ?l \<or> fd \<noteq> sockfd (conns w i)" for l fd
    using lf ch that far cl by (cases "l = ?l") (auto simp: loop_frame_def)
  moreover have "heap (loops w' l) c = heap (loops w l) c" if "l \<noteq> ?l \<or> c \<noteq> Suc i" for l c
    using lf that far by (cases "l = ?l") (auto simp: loop_frame_def)
  moreover have "server_same w w'" using fr server_same_more[of w' w] by (simp add: conn_frame_def)
  ultimately show ?thesis
    using fr loop_more_fields[OF conn_frame_loop[OF fr]] conn_frame_slots[OF fr] by (simp add: others_same_def conn_frame_def)
qed

lemma others_same_view:
  assumes "conns w' = conns w" and "\<And>l. heap (loops w' l) = heap (loops w l)"
    and "\<And>l. registry (loops w' l) = registry (loops w l)"
    and "\<And>l. threadId (loops w' l) = threadId (loops w l)
      \<and> wakeupChannel (loops w' l) = wakeupChannel (loops w l) \<and> timerChannel (loops w' l) = timerChannel (loops w l)
      \<and> event_slots (loops w' l) = event_slots (loops w l)"
    and "server_same w w'"
  shows "others_same i w w'"
  using assms by (simp add: others_same_def)

lemma own_channels_others:
  "others_same i w w' \<Longrightarrow> own_channels l w' = own_channels l w"
  by (simp add: others_same_def own_channels_def server_same_def)

text \<open>Another connection keeps what it has.\<close>

lemma conn_ok_cong:
  assumes ok: "conn_ok x j w" and f: "conns w' j = conns w j" "server_loops w' = server_loops w"
    and na: "next_address w \<le> next_address w'"
    and heap: "heap (loops w' (conn_loop (conns w j))) (Suc j) = heap (loops w (conn_loop (conns w j))) (Suc j)"
    and wf: "\<And>l. l \<in> server_loops w \<Longrightarrow> wf_poller (loops w' l)"
    and fd: "live x \<Longrightarrow> registry (loops w' (conn_loop (conns w j))) (sockfd (conns w j))
      = registry (loops w (conn_loop (conns w j))) (sockfd (conns w j))"
  shows "conn_ok x j w'"
proof (cases "x = Fresh")
  case True
  then show ?thesis using ok f by (simp add: conn_ok_def)
next
  case False
  let ?l = "conn_loop (conns w j)"
  from ok False have j: "Suc j < next_address w" "?l \<in> server_loops w" "conn_channel (conns w j) = Suc j"
    by (auto simp: conn_ok_def)
  have inv: "conn_inv j w'" if "conn_inv j w" "live x" and ch: "heap (loops w ?l) (Suc j) = Some ch" for ch
  proof -
    from that(1) have ch': "fd_free (Suc j) ch (loops w ?l)" "channel_inv (conns w j) ch"
      "wf_buffer (inputBuffer (conns w j))" "wf_buffer (outputBuffer (conns w j))"
      using ch j(3) by (auto simp: conn_inv_def cloop_def)
    have "chan_fd ch = sockfd (conns w j)" using ch'(2) by (simp add: channel_inv_def)
    then have "registry (loops w' ?l) (chan_fd ch) = registry (loops w ?l) (chan_fd ch)"
      using fd[OF that(2)] by simp
    then have "fd_free (Suc j) ch (loops w' ?l)" using ch'(1) by (simp add: fd_free_def)
    then show ?thesis
      using wf[OF j(2)] ch' ch j(3) heap by (auto simp: conn_inv_def cloop_def f(1))
  qed
  show ?thesis
  proof (cases "heap (loops w ?l) (Suc j)")
    case None
    then show ?thesis using ok j heap False na by (simp add: conn_ok_def f)
  next
    case (Some ch)
    then have "stage_ok x j w ch" using ok False by (simp add: conn_ok_def)
    then have "stage_ok x j w' ch" using inv[OF _ _ Some] by (cases x) (auto simp: f(1) live_def)
    then show ?thesis using Some j heap False na by (simp add: conn_ok_def f)
  qed
qed

lemma conn_ok_other:
  assumes o: "others_same i w w'" and j: "j \<noteq> i" and ok: "conn_ok x j w"
    and wf: "\<And>l. l \<in> server_loops w \<Longrightarrow> wf_poller (loops w' l)"
    and fd: "live x \<Longrightarrow> sockfd (conns w j) \<noteq> sockfd (conns w i)"
  shows "conn_ok x j w'"
  by (rule conn_ok_cong[OF ok _ _ _ _ wf])
    (use o j fd server_same_loops[of w w'] in \<open>auto simp: others_same_def server_same_def\<close>)

lemma poller_ok_others:
  assumes o: "others_same i w w'" and ok: "poller_ok st l w" and st: "live (st i)"
    and wf: "wf_poller (loops w' l)" and x: "x \<noteq> Fresh"
  shows "poller_ok (st(i := x)) l w'"
proof -
  have own: "own_channels l w' = own_channels l w" using o by (rule own_channels_others)
  have nf: "st i \<noteq> Fresh" using st by (auto simp: live_def)
  have f: "sockfd (conns w' j) = sockfd (conns w j)" "conn_loop (conns w' j) = conn_loop (conns w j)" for j
    using o by (cases "j = i"; simp add: others_same_def same_identity_def)+
  have same: "heap (loops w' l) c = heap (loops w l) c" if "l \<noteq> conn_loop (conns w i) \<or> c \<noteq> Suc i" for c
    using o that by (simp add: others_same_def)
  have na: "next_address w' = next_address w" using o by (simp add: others_same_def server_same_def)
  have "own_ok (st(i := x)) l w' c" if c: "own_ok st l w c" for c
  proof -
    have "c \<noteq> Suc i" using c nf by (auto simp: own_ok_def)
    then have "heap (loops w' l) c = heap (loops w l) c" using same by blast
    then show ?thesis using c nf st by (auto simp: own_ok_def na f)
  qed
  moreover have "c \<in> own_channels l w \<or> (\<exists>j. c = Suc j \<and> (st(i := x)) j \<noteq> Fresh \<and> conn_loop (conns w' j) = l)"
    if "c \<in> dom (heap (loops w' l))" for c
  proof (cases "l \<noteq> conn_loop (conns w i) \<or> c \<noteq> Suc i")
    case True
    then have "c \<in> dom (heap (loops w l))" using that same by (simp add: domIff)
    then show ?thesis using ok x by (auto simp: poller_ok_def f)
  next
    case False
    then show ?thesis using x f by auto
  qed
  ultimately show ?thesis using ok wf by (auto simp: poller_ok_def own)
qed

text \<open>
  One connection goes from its stage to \<open>x\<close>, and leaves the map of the server when the new stage
  says so.
\<close>

lemma world_inv_conn:
  assumes inv: "world_inv st Q w" and st: "live (st i)" and o: "others_same i w w'"
    and wf: "\<And>l. l \<in> server_loops w \<Longrightarrow> wf_poller (loops w' l)"
    and i: "conn_ok x i w'" "x \<noteq> Fresh" "in_map x \<Longrightarrow> in_map (st i)"
    and map: "connections w' = (if in_map x \<or> \<not> in_map (st i) then connections w
      else (connections w)(conn_name (conns w i) := None))"
    and q: "queues_ok (st(i := x)) Q' w'"
  shows "world_inv (st(i := x)) Q' w'"
proof -
  let ?st = "st(i := x)"
  have w: "server_ok w" "\<And>j. conn_ok (st j) j w" "\<And>l. l \<in> server_loops w \<Longrightarrow> poller_ok st l w"
    "map_ok st w" "fds_ok st w" using inv by (simp_all add: world_inv_def)
  have ss: "server_same w w'" and L: "server_loops w' = server_loops w"
    using o server_same_loops[of w w'] by (simp_all add: others_same_def)
  have f: "sockfd (conns w' j) = sockfd (conns w j)" "conn_name (conns w' j) = conn_name (conns w j)" for j
    using o by (cases "j = i"; simp add: others_same_def same_identity_def)+
  have "conn_ok (?st j) j w'" for j
    using conn_ok_other[OF o _ w(2) wf, of j] i(1) w(5) st by (auto simp: fds_ok_def)
  moreover have "poller_ok ?st l w'" if "l \<in> server_loops w" for l
    using poller_ok_others[OF o w(3)[OF that] st wf[OF that] i(2)] .
  moreover have "map_ok ?st w'"
  proof -
    have "j = i" if "in_map (st j)" "in_map (st i)" "conn_name (conns w j) = conn_name (conns w i)" for j
      using w(4) that unfolding map_ok_def by (metis option.inject)
    then show ?thesis using w(4) i(3) unfolding map_ok_def map f by (auto split: if_splits)
  qed
  moreover have "fds_ok ?st w'"
  proof -
    have "live (?st j) \<Longrightarrow> live (st j)" for j using st by (cases "j = i") auto
    then show ?thesis using w(5) unfolding fds_ok_def f by blast
  qed
  moreover have "server_ok w'"
  proof -
    have "names_inv w'"
      using w(1) names_inv_cong[of w w'] names_inv_remove[of w w' "conn_name (conns w i)"] map ss
      by (auto simp: server_ok_def server_same_def split: if_splits)
    then show ?thesis using w(1) o L ss by (simp add: server_ok_def others_same_def server_same_def)
  qed
  ultimately show ?thesis using q by (simp add: world_inv_def L)
qed

text \<open>The functors that are about other connections are the same.\<close>

lemma queues_ok_conn:
  assumes q: "queues_ok st Q w" and o: "others_same i w w'"
    and Q': "\<And>l j. l \<in> server_loops w \<Longrightarrow> j \<noteq> i \<Longrightarrow> about j (Q' l) = about j (Q l)"
      "\<And>l. l \<in> server_loops w \<Longrightarrow> \<forall>f \<in> set (Q' l). conn_of f \<noteq> None"
      "\<And>l. l \<in> server_loops w \<Longrightarrow>
        queue_ok x i (conn_loop (conns w i)) (srv_loop w) l (about i (Q' l))"
  shows "queues_ok (st(i := x)) Q' w'"
proof -
  have "conn_loop (conns w' j) = conn_loop (conns w j)" for j
    using o by (cases "j = i") (simp_all add: others_same_def same_identity_def)
  moreover have "server_loops w' = server_loops w" "srv_loop w' = srv_loop w"
    using o server_same_loops[of w w'] by (simp_all add: others_same_def server_same_def)
  ultimately show ?thesis using q Q' by (auto simp: queues_ok_def)
qed

end
