(* ===== verification/Thread_Steps.thy ===== *)
theory Thread_Steps
  imports Server_Threads
begin

section \<open>The steps of the threads of a server\<close>

text \<open>
  Every step of a thread keeps the invariant of \<open>Server_Threads\<close>: one lemma for each kind of
  functor, for an event of a connection, for a new connection, and for the parts of the round.
\<close>

text \<open>
  \<open>polite l w w'\<close>: the thread of loop \<open>l\<close> wakes the other loops when it queues functors there, and
  its own when it is calling functors.
\<close>

definition polite :: "nat \<Rightarrow> server_world \<Rightarrow> server_world \<Rightarrow> bool" where
  "polite l w w' \<longleftrightarrow> cur_thread w' = cur_thread w
     \<and> (\<forall>m. callingPendingFunctors (loops w' m) = callingPendingFunctors (loops w m)
        \<and> quit_flag (loops w' m) = quit_flag (loops w m))
     \<and> (\<forall>m. m \<noteq> l \<or> callingPendingFunctors (loops w m) \<longrightarrow> woken (loops w m) \<longrightarrow> woken (loops w' m))"

lemma polite_more:
  assumes "\<And>m. poll_state.more (loops w' m) = poll_state.more (loops w m)" and "cur_thread w' = cur_thread w"
  shows "polite l w w'"
  using loop_more_fields(2,4,6,8)[OF assms(1)] assms(2) by (simp add: polite_def woken_def)

lemma polite_frame: "conn_frame k i w w' \<Longrightarrow> polite l w w'"
  by (rule polite_more) (erule conn_frame_loop, simp add: conn_frame_def)

lemma polite_trans: "polite l a b \<Longrightarrow> polite l b c \<Longrightarrow> polite l a c"
  by (auto simp: polite_def)

lemma polite_queue:
  assumes "m \<noteq> l \<Longrightarrow> threadId (loops w m) \<noteq> t"
  shows "polite l w (upd_loop m (queueInLoop t f) w)"
  using assms by (auto simp: polite_def woken_def)

text \<open>
  \<open>confined l w w'\<close>: the thread of loop \<open>l\<close> writes to connections of its own and to new ones; what
  it changes of another loop is the queue, to which it appends, the counter that wakes it, and
  memory that was free.
\<close>

definition only_queued :: "nat \<Rightarrow> 'f eventloop \<Rightarrow> 'f eventloop \<Rightarrow> bool" where
  "only_queued n e e' \<longleftrightarrow> (\<exists>h fs k. e' = e\<lparr>heap := h, pendingFunctors := pendingFunctors e @ fs, wakeup_count := k\<rparr>
     \<and> (\<forall>c < n. h c = heap e c))"

definition confined :: "nat \<Rightarrow> server_world \<Rightarrow> server_world \<Rightarrow> bool" where
  "confined l w w' \<longleftrightarrow> next_address w \<le> next_address w'
     \<and> (\<forall>j. Suc j < next_address w \<and> conn_loop (conns w j) \<noteq> l \<longrightarrow> conns w' j = conns w j)
     \<and> (\<forall>m. m \<noteq> l \<longrightarrow> only_queued (next_address w) (loops w m) (loops w' m))"

lemma only_queued_refl [simp]: "only_queued n e e"
  unfolding only_queued_def by (intro exI[of _ "heap e"] exI[of _ "[]"] exI[of _ "wakeup_count e"]) simp

lemma only_queued_trans:
  assumes "only_queued n a b" and "only_queued n' b c" and "n \<le> n'"
  shows "only_queued n a c"
proof -
  from assms(1,2) obtain h fs k h' fs' k' where
    b: "b = a\<lparr>heap := h, pendingFunctors := pendingFunctors a @ fs, wakeup_count := k\<rparr>" "\<forall>d < n. h d = heap a d"
    and c: "c = b\<lparr>heap := h', pendingFunctors := pendingFunctors b @ fs', wakeup_count := k'\<rparr>" "\<forall>d < n'. h' d = heap b d"
    unfolding only_queued_def by blast
  have "c = a\<lparr>heap := h', pendingFunctors := pendingFunctors a @ (fs @ fs'), wakeup_count := k'\<rparr>"
    unfolding c(1) b(1) by simp
  moreover have "\<forall>d < n. h' d = heap a d" using b c(2) assms(3) by simp
  ultimately show ?thesis unfolding only_queued_def by blast
qed

lemma only_queued_queue: "only_queued n e (queueInLoop t f e)"
  unfolding only_queued_def queue_defs
  by (intro exI[of _ "heap e"] exI[of _ "[f]"] exI[of _ "wakeup_count (queueInLoop t f e)"]) (simp add: queue_defs)

lemma only_queued_put: "n \<le> c \<Longrightarrow> only_queued n e (put_channel c ch e)"
  unfolding only_queued_def put_channel_def
  by (intro exI[of _ "(heap e)(c \<mapsto> ch)"] exI[of _ "[]"] exI[of _ "wakeup_count e"]) simp

lemma confined_trans:
  assumes a: "confined l a b" and b: "confined l b c"
  shows "confined l a c"
proof -
  have n: "next_address a \<le> next_address b" "next_address b \<le> next_address c" using a b by (simp_all add: confined_def)
  have "conns c j = conns a j" if "Suc j < next_address a" "conn_loop (conns a j) \<noteq> l" for j
    using a b n that by (simp add: confined_def)
  moreover have "only_queued (next_address a) (loops a m) (loops c m)" if "m \<noteq> l" for m
    using a b n(1) that only_queued_trans unfolding confined_def by blast
  ultimately show ?thesis using n by (simp add: confined_def)
qed

lemma confined_queue: "confined l w (upd_loop m (queueInLoop t f) w)"
  by (simp add: confined_def only_queued_queue)

lemma confined_own:
  assumes "conns w' = conns w" and "\<And>m. m \<noteq> l \<Longrightarrow> loops w' m = loops w m" and "next_address w' = next_address w"
  shows "confined l w w'"
  using assms by (simp add: confined_def)

lemma confined_frame:
  assumes "conn_frame k i w w'" and "conn_loop (conns w i) = l"
  shows "confined l w w'"
proof -
  have "next_address w' = next_address w" using assms(1) server_same_more[of w' w]
    by (simp add: conn_frame_def server_same_def)
  moreover have "conns w' j = conns w j" if "conn_loop (conns w j) \<noteq> l" for j
    using that assms by (cases "j = i") (simp_all add: conn_frame_def)
  ultimately show ?thesis using assms by (simp add: confined_def conn_frame_def)
qed

definition queue :: "(nat \<Rightarrow> loop_functor list) \<Rightarrow> server_world \<Rightarrow> nat \<Rightarrow> loop_functor list" where
  "queue pre w m = pre m @ pendingFunctors (loops w m)"

text \<open>What a functor of a connection in loop \<open>io\<close> queues when it is called.\<close>

fun queued_by :: "loop_functor \<Rightarrow> nat \<Rightarrow> nat \<Rightarrow> loop_functor list" where
  "queued_by (RemoveConnectionInLoop i) io m = (if m = io then [ConnectDestroyed i] else [])"
| "queued_by _ io m = []"

definition adds :: "loop_functor \<Rightarrow> nat \<Rightarrow> server_world \<Rightarrow> server_world \<Rightarrow> bool" where
  "adds f io w w' \<longleftrightarrow>
     (\<forall>m. pendingFunctors (loops w' m) = pendingFunctors (loops w m) @ queued_by f io m)"

text \<open>Connection \<open>i\<close> goes to stage \<open>x\<close>, in the thread of loop \<open>l\<close>.\<close>

definition steps_to ::
    "nat \<Rightarrow> (nat \<Rightarrow> loop_functor list) \<Rightarrow> (nat \<Rightarrow> stage) \<Rightarrow> server_world \<Rightarrow> nat \<Rightarrow> stage
       \<Rightarrow> server_world \<Rightarrow> bool" where
  "steps_to l pre st w i x w' \<longleftrightarrow>
     world_inv (st(i := x)) (queue pre w') w' \<and> others_same i w w' \<and> polite l w w' \<and> confined l w w'"

lemma queue_same:
  assumes "\<And>m. pendingFunctors (loops w' m) = pendingFunctors (loops w m)"
  shows "queue pre w' = queue pre w"
  using assms by (simp add: queue_def fun_eq_iff)

text \<open>What the invariant says of a connection that the server has.\<close>

lemma world_conn:
  assumes "world_inv st Q w" and "live (st i)"
  shows "conn_inv i w" "conn_channel (conns w i) = Suc i" "conn_loop (conns w i) \<in> server_loops w"
    "Suc i < next_address w" "\<exists>ch. heap (loops w (conn_loop (conns w i))) (Suc i) = Some ch
      \<and> get_chan i w = Inr ch \<and> stage_ok (st i) i w ch"
proof -
  have "conn_ok (st i) i w" "st i \<noteq> Fresh" using assms by (auto simp: world_inv_def live_def)
  moreover have "st i \<noteq> Gone" using assms(2) by (auto simp: live_def)
  ultimately obtain ch where ch: "conn_channel (conns w i) = Suc i" "conn_loop (conns w i) \<in> server_loops w"
    "Suc i < next_address w" "heap (loops w (conn_loop (conns w i))) (Suc i) = Some ch" "stage_ok (st i) i w ch"
    by (auto simp: conn_ok_def split: option.splits)
  then show "conn_channel (conns w i) = Suc i" "conn_loop (conns w i) \<in> server_loops w"
    "Suc i < next_address w" "\<exists>ch. heap (loops w (conn_loop (conns w i))) (Suc i) = Some ch
      \<and> get_chan i w = Inr ch \<and> stage_ok (st i) i w ch"
    by (simp_all add: get_chan_def cloop_def)
  show "conn_inv i w" using ch(5) assms(2) by (cases "st i") (auto simp: live_def)
qed

lemma world_wf: "world_inv st Q w \<Longrightarrow> l \<in> server_loops w \<Longrightarrow> wf_poller (loops w l)"
  by (simp add: world_inv_def poller_ok_def)

lemma world_queue:
  assumes "world_inv st Q w" and "l \<in> server_loops w"
  shows "queue_ok (st i) i (conn_loop (conns w i)) (srv_loop w) l (about i (Q l))"
    and "\<forall>f \<in> set (Q l). conn_of f \<noteq> None"
  using assms by (simp_all add: world_inv_def queues_ok_def)

lemma world_thread:
  assumes "world_inv st Q w" and "l \<in> server_loops w" "m \<in> server_loops w"
    and "threadId (loops w l) = threadId (loops w m)"
  shows "l = m"
  using assms by (auto simp: world_inv_def server_ok_def inj_on_def)

lemma base_in_loops [simp]: "srv_loop w \<in> server_loops w"
  by (simp add: server_loops_def)

text \<open>A call of \<open>sendInLoop\<close> or \<open>shutdownInLoop\<close> leaves the queue.\<close>

lemma drop_data:
  assumes inv: "world_inv st (queue (pre(l := f # pre l)) w) w" and f: "is_data f" "conn_of f = Some i"
    and l: "l \<in> server_loops w"
  shows "world_inv st (queue pre w) w" "conn_loop (conns w i) = l" "st i \<in> {Open, Removing, Dying}"
proof -
  let ?Q = "queue (pre(l := f # pre l)) w"
  have "queue_ok (st i) i (conn_loop (conns w i)) (srv_loop w) l (f # about i (queue pre w l))"
    using world_queue(1)[OF inv l, of i] f(2) by (simp add: queue_def)
  note q = queue_ok_data[OF this f(1)]
  from q show "conn_loop (conns w i) = l" "st i \<in> {Open, Removing, Dying}" by simp_all
  have "queues_ok st ?Q w" using inv by (simp add: world_inv_def)
  moreover have "others_same i w w" by (simp add: others_same_def)
  ultimately have "queues_ok (st(i := st i)) (queue pre w) w"
  proof (rule queues_ok_conn)
    fix m assume m: "m \<in> server_loops w"
    show "about j (queue pre w m) = about j (?Q m)" if "j \<noteq> i" for j
      using that f(2) by (simp add: queue_def)
    show "\<forall>f \<in> set (queue pre w m). conn_of f \<noteq> None"
      using world_queue(2)[OF inv m] by (cases "m = l") (auto simp: queue_def)
    show "queue_ok (st i) i (conn_loop (conns w i)) (srv_loop w) m (about i (queue pre w m))"
      using world_queue(1)[OF inv m, of i] q(1) f(2) by (cases "m = l") (auto simp: queue_def)
  qed
  then show "world_inv st (queue pre w) w" using inv by (simp add: world_inv_def)
qed

text \<open>The same for the functor that a connection waits for.\<close>

lemma take_awaited:
  assumes inv: "world_inv st (queue (pre(l := f # pre l)) w) w" and f: "\<not> is_data f" "conn_of f = Some i"
    and l: "l \<in> server_loops w"
  shows "awaited (st i) i (conn_loop (conns w i)) (srv_loop w) l = [f]" "about i (queue pre w l) = []"
proof -
  have "queue_ok (st i) i (conn_loop (conns w i)) (srv_loop w) l (f # about i (queue pre w l))"
    using world_queue(1)[OF inv l, of i] f(2) by (simp add: queue_def)
  from queue_ok_awaited[OF this f(1)]
  show "awaited (st i) i (conn_loop (conns w i)) (srv_loop w) l = [f]" "about i (queue pre w l) = []" by simp_all
qed

subsection \<open>Steps that leave the connection in its stage\<close>

lemma step_frame:
  assumes inv: "world_inv st (queue pre w) w" and st: "st i \<in> {Open, Removing, Dying}"
    and l: "conn_loop (conns w i) = l"
    and fr: "conn_frame True i w w'" and inv': "conn_inv i w'"
    and state: "if st i = Open then active (conns w' i)
      else conn_state (conns w' i) = kDisconnected \<and> loops w' = loops w"
  shows "steps_to l pre st w i (st i) w'"
proof -
  have live: "live (st i)" using st by (auto simp: live_def)
  note c = world_conn[OF inv live]
  let ?l = "conn_loop (conns w i)"
  have o: "others_same i w w'" using fr c(2,1) by (rule others_same_frame)
  have io: "conn_loop (conns w' i) = ?l" "conn_channel (conns w' i) = Suc i"
    using fr c(2) by (simp_all add: conn_frame_def same_identity_def)
  obtain ch where ch: "heap (loops w ?l) (Suc i) = Some ch" "stage_ok (st i) i w ch" using c(5) by blast
  have "rel_option (same_channel True) (heap (loops w ?l) (Suc i)) (heap (loops w' ?l) (Suc i))"
    using fr io by (simp add: conn_frame_def loop_frame_def cloop_def c(2))
  with ch(1) obtain ch' where ch': "heap (loops w' ?l) (Suc i) = Some ch'" "same_channel True ch ch'"
    by (auto simp: option_rel_Some1)
  have "stage_ok (st i) i w' ch'"
    using st ch ch' inv' state by (auto simp: same_channel_def)
  then have ok: "conn_ok (st i) i w'"
    using ch'(1) c(3,4) io st o server_same_loops[of w w']
    by (auto simp: conn_ok_def others_same_def server_same_def)
  have wf: "wf_poller (loops w' m)" if "m \<in> server_loops w" for m
  proof (cases "m = ?l")
    case True
    then show ?thesis using inv' io by (simp add: conn_inv_def cloop_def)
  next
    case False
    then show ?thesis using fr world_wf[OF inv that] by (simp add: conn_frame_def)
  qed
  have Q: "queue pre w' = queue pre w"
    by (rule queue_same) (rule loop_more_fields(8)[OF conn_frame_loop[OF fr]])
  have q: "queues_ok (st(i := st i)) (queue pre w') w'"
    using inv queues_ok_conn[of st "queue pre w" w i w' "queue pre w" "st i"] world_queue[OF inv]
    by (simp add: world_inv_def o Q)
  have more: "connections w' = connections w" using fr server_fields(5)[of w' w] by (simp add: conn_frame_def)
  have "world_inv (st(i := st i)) (queue pre w') w'"
    by (rule world_inv_conn[OF inv live o wf ok _ _ _ q]) (use st more in auto)
  then show ?thesis using o polite_frame[OF fr] confined_frame[OF fr l] by (simp add: steps_to_def)
qed

subsection \<open>Closing\<close>

lemma conn_inv_server [simp]: "conn_inv i (w\<lparr>connections := m\<rparr>) = conn_inv i w"
  by (simp add: conn_inv_def cloop_def)

text \<open>
  A closed connection leaves the map, and \<open>connectDestroyed\<close> is queued in its loop. \<open>w1\<close> is the
  state in which \<open>removeConnectionInLoop\<close> is called, which may be in the handler that has closed the
  connection.
\<close>

lemma remove_step:
  assumes inv: "world_inv st Q w" and st: "st i \<in> {Open, Removing}"
    and w1: "others_same i w w1" "conn_inv i w1" "conn_state (conns w1 i) = kDisconnected"
      "connections w1 = connections w"
    and ch: "get_chan i w1 = Inr ch" "index ch = kDeleted" "tied ch" "tie_obj ch = Some i"
    and wf: "\<And>m. m \<in> server_loops w \<Longrightarrow> wf_poller (loops w1 m)"
    and Q: "\<And>m j. m \<in> server_loops w \<Longrightarrow> j \<noteq> i \<Longrightarrow> about j (Q' m) = about j (Q m)"
      "\<And>m. m \<in> server_loops w \<Longrightarrow> set (Q' m) \<subseteq> insert (ConnectDestroyed i) (set (Q m))"
      "\<And>m. m \<in> server_loops w \<Longrightarrow> queue_ok Dying i (conn_loop (conns w i)) (srv_loop w) m (about i (Q' m))"
  shows "\<exists>w'. removeConnectionInLoop i w1 = Inr w' \<and> world_inv (st(i := Dying)) Q' w' \<and> others_same i w w'
    \<and> w' = upd_loop (conn_loop (conns w i)) (queueInLoop (cur_thread w1) (ConnectDestroyed i))
        (w1\<lparr>connections := (connections w)(conn_name (conns w i) := None)\<rparr>)"
proof -
  let ?l = "conn_loop (conns w i)"
  let ?wc = "w1\<lparr>connections := (connections w)(conn_name (conns w i) := None)\<rparr>"
  let ?w' = "upd_loop ?l (queueInLoop (cur_thread w1) (ConnectDestroyed i)) ?wc"
  have live: "live (st i)" using st by (auto simp: live_def)
  note c = world_conn[OF inv live]
  have id: "conn_loop (conns w1 i) = ?l" "conn_name (conns w1 i) = conn_name (conns w i)"
    "conn_channel (conns w1 i) = Suc i"
    using w1(1) c(2) by (simp_all add: others_same_def same_identity_def)
  have eq: "removeConnectionInLoop i w1 = Inr ?w'"
    by (simp add: removeConnectionInLoop_def Let_def w1(4) id queue_conn_def upd_cloop_def)
  have "others_same i w1 ?w'"
    by (rule others_same_view) (auto simp: server_same_def)
  with w1(1) have o: "others_same i w ?w'" by (rule others_same_trans)
  have inv': "conn_inv i ?w'" using w1(2) by (intro conn_inv_queue_loop) simp
  have hp: "heap (loops w1 ?l) (Suc i) = Some ch"
    using ch(1) by (auto simp: get_chan_def cloop_def id split: option.splits)
  have "stage_ok Dying i ?w' ch" using inv' w1(3) ch(2-4) by simp
  then have ok: "conn_ok Dying i ?w'"
    using hp c(3,4) id o server_same_loops[of w ?w'] by (auto simp: conn_ok_def others_same_def server_same_def)
  have wf': "wf_poller (loops ?w' m)" if "m \<in> server_loops w" for m
    using wf[OF that] by (cases "m = ?l") simp_all
  have "queues_ok st Q w" using inv by (simp add: world_inv_def)
  from queues_ok_conn[OF this o, of Q' Dying] have q: "queues_ok (st(i := Dying)) Q' ?w'"
    using Q world_queue(2)[OF inv] by fastforce
  have "world_inv (st(i := Dying)) Q' ?w'"
    by (rule world_inv_conn[OF inv live o wf' ok _ _ _ q]) (use st in \<open>auto simp: in_map_def\<close>)
  then show ?thesis using eq o by blast
qed

lemma removing_functor_step:
  assumes inv: "world_inv st (queue (pre(l := RemoveConnectionInLoop i # pre l)) w) w"
    and l: "l \<in> server_loops w" "cur_thread w = threadId (loops w l)"
    and calling: "callingPendingFunctors (loops w l)"
  shows "\<exists>w'. removeConnectionInLoop i w = Inr w' \<and> st i = Removing \<and> steps_to l pre st w i Dying w'
    \<and> adds (RemoveConnectionInLoop i) (conn_loop (conns w i)) w w'"
proof -
  let ?f = "RemoveConnectionInLoop i" and ?io = "conn_loop (conns w i)"
  have t: "awaited (st i) i ?io (srv_loop w) l = [?f]" "about i (queue pre w l) = []"
    using take_awaited[OF inv, of i] l(1) by auto
  then have st: "st i = Removing" and base: "l = srv_loop w" by (cases "st i"; simp split: if_splits)+
  have live: "live (st i)" by (simp add: st live_def)
  note c = world_conn[OF inv live]
  obtain ch where ch: "get_chan i w = Inr ch" "stage_ok Removing i w ch" using c(5) st by auto
  let ?w' = "upd_loop ?io (queueInLoop (cur_thread w) (ConnectDestroyed i))
        (w\<lparr>connections := (connections w)(conn_name (conns w i) := None)\<rparr>)"
  have pend: "pendingFunctors (loops ?w' m) = pendingFunctors (loops w m)
      @ (if m = ?io then [ConnectDestroyed i] else [])" for m by simp
  have q: "queue_ok Dying i ?io (srv_loop w) m (about i (queue pre ?w' m))" if m: "m \<in> server_loops w" for m
  proof -
    have "queue_ok Removing i ?io (srv_loop w) m (if m = srv_loop w then ?f # about i (queue pre w m)
        else about i (queue pre w m))"
      using world_queue(1)[OF inv m, of i] by (cases "m = l") (simp_all add: st queue_def base)
    from queue_ok_removed[OF this] show ?thesis by (simp add: queue_def pend split: if_splits)
  qed
  have "\<exists>w'. removeConnectionInLoop i w = Inr w' \<and> world_inv (st(i := Dying)) (queue pre ?w') w'
      \<and> others_same i w w' \<and> w' = ?w'"
    by (rule remove_step[OF inv _ _ c(1) _ refl ch(1)])
      (use st ch(2) world_wf[OF inv] q in \<open>auto simp: others_same_def queue_def pend split: if_splits\<close>)
  moreover have "polite l (w\<lparr>connections := m\<rparr>) (upd_loop ?io (queueInLoop (cur_thread w) f) (w\<lparr>connections := m\<rparr>))"
    for m f
    by (rule polite_queue) (use world_thread[OF inv l(1) c(3)] l(2) in auto)
  then have "polite l w ?w'" by (simp add: polite_def)
  moreover have "confined l w ?w'" by (simp add: confined_def only_queued_queue)
  moreover have "adds ?f ?io w ?w'" by (simp add: adds_def pend)
  ultimately show ?thesis using st by (auto simp: steps_to_def)
qed

text \<open>What \<open>handleClose\<close> leads to, in the thread of the loop of the connection.\<close>

lemma leaves_facts:
  assumes inv: "world_inv st (queue pre w) w" and st: "st i = Open" and lv: "leaves i w w1"
  shows "others_same i w w1" and "connections w1 = connections w" and "cur_thread w1 = cur_thread w"
    and "poll_state.more (loops w1 m) = poll_state.more (loops w m)"
    and "\<exists>ch. get_chan i w1 = Inr ch \<and> heap (loops w1 (conn_loop (conns w i))) (Suc i) = Some ch
      \<and> index ch = kDeleted \<and> tied ch \<and> tie_obj ch = Some i"
    and "m \<in> server_loops w \<Longrightarrow> wf_poller (loops w1 m)"
proof -
  let ?l = "conn_loop (conns w i)"
  note c = world_conn[OF inv, of i]
  have fr: "conn_frame False i w w1" and inv1: "conn_inv i w1" using lv by (simp_all add: leaves_def)
  have ci: "conn_channel (conns w i) = Suc i" "conn_inv i w" using c st by (simp_all add: live_def)
  show "others_same i w w1" using fr ci by (rule others_same_frame)
  have id: "conn_loop (conns w1 i) = ?l" "conn_channel (conns w1 i) = Suc i"
    using fr ci(1) by (simp_all add: conn_frame_def same_identity_def)
  show "connections w1 = connections w" "cur_thread w1 = cur_thread w"
    using fr server_fields(5)[of w1 w] by (simp_all add: conn_frame_def)
  show "poll_state.more (loops w1 m) = poll_state.more (loops w m)" using fr by (rule conn_frame_loop)
  obtain ch where ch: "get_chan i w = Inr ch" "stage_ok Open i w ch" using c(5) st by (auto simp: live_def)
  obtain ch1 where gc: "get_chan i w1 = Inr ch1" "index ch1 = kDeleted" using lv by (auto simp: leaves_def)
  from conn_frame_channel[OF fr ch(1)] gc(1) have "same_channel False ch ch1" by auto
  then show "\<exists>ch. get_chan i w1 = Inr ch \<and> heap (loops w1 ?l) (Suc i) = Some ch
      \<and> index ch = kDeleted \<and> tied ch \<and> tie_obj ch = Some i"
    using gc ch(2) by (auto simp: get_chan_def cloop_def id same_channel_def split: option.splits)
  show "wf_poller (loops w1 m)" if "m \<in> server_loops w"
    using inv1 id fr world_wf[OF inv that] by (cases "m = ?l") (simp_all add: conn_inv_def cloop_def conn_frame_def)
qed

text \<open>In the thread of the server \<open>removeConnectionInLoop\<close> is called at once, in another thread it is queued.\<close>

lemma close_step_here:
  assumes inv: "world_inv st (queue pre w) w" and st: "st i = Open" and lv: "leaves i w w1"
    and here: "threadId (loops w (srv_loop w)) = cur_thread w"
  shows "\<exists>w'. removeConnection i w1 = Inr w' \<and> steps_to (conn_loop (conns w i)) pre st w i Dying w'"
proof -
  let ?l = "conn_loop (conns w i)"
  note lf = leaves_facts[OF inv st lv]
  have fr: "conn_frame False i w w1" and inv1: "conn_inv i w1" and dis: "conn_state (conns w1 i) = kDisconnected"
    using lv by (simp_all add: leaves_def)
  note lm = loop_more_fields[OF lf(4)]
  obtain ch1 where ch1: "get_chan i w1 = Inr ch1" "index ch1 = kDeleted" "tied ch1" "tie_obj ch1 = Some i"
    using lf(5) by blast
  let ?w' = "upd_loop ?l (queueInLoop (cur_thread w1) (ConnectDestroyed i))
      (w1\<lparr>connections := (connections w)(conn_name (conns w i) := None)\<rparr>)"
  have pend: "pendingFunctors (loops ?w' m) = pendingFunctors (loops w m)
      @ (if m = ?l then [ConnectDestroyed i] else [])" for m by (simp add: lm)
  have q: "queue_ok Dying i ?l (srv_loop w) m (about i (queue pre ?w' m))" if "m \<in> server_loops w" for m
  proof -
    have "queue_ok Open i ?l (srv_loop w) m (about i (queue pre w m))"
      using world_queue(1)[OF inv that, of i] by (simp add: st)
    from queue_ok_closes(1)[OF this] show ?thesis unfolding queue_def pend by (simp split: if_splits)
  qed
  have "\<exists>w'. removeConnectionInLoop i w1 = Inr w' \<and> world_inv (st(i := Dying)) (queue pre ?w') w'
      \<and> others_same i w w' \<and> w' = ?w'"
    by (rule remove_step[OF inv _ lf(1) inv1 dis lf(2) ch1])
      (use st lf(6) q in \<open>auto simp: queue_def lm split: if_splits\<close>)
  moreover have "srv_loop w1 = srv_loop w" using lf(1) by (simp add: others_same_def server_same_def)
  then have "removeConnection i w1 = removeConnectionInLoop i w1"
    by (intro removeConnection_inline) (simp add: lf(3) lm here)
  moreover have "polite ?l (w1\<lparr>connections := m\<rparr>) (upd_loop ?l g (w1\<lparr>connections := m\<rparr>))"
    if "g = queueInLoop (cur_thread w1) (ConnectDestroyed i)" for m g
    unfolding that by (rule polite_queue) simp
  then have "polite ?l w1 ?w'" by (simp add: polite_def)
  then have "polite ?l w ?w'" by (rule polite_trans[OF polite_frame[OF fr]])
  moreover have "confined ?l w1 ?w'" by (simp add: confined_def only_queued_queue)
  then have "confined ?l w ?w'" by (rule confined_trans[OF confined_frame[OF fr refl]])
  ultimately show ?thesis by (auto simp: steps_to_def)
qed

lemma close_step_far:
  assumes inv: "world_inv st (queue pre w) w" and st: "st i = Open" and lv: "leaves i w w1"
    and l: "cur_thread w = threadId (loops w (conn_loop (conns w i)))"
    and far: "threadId (loops w (srv_loop w)) \<noteq> cur_thread w"
  shows "\<exists>w'. removeConnection i w1 = Inr w' \<and> steps_to (conn_loop (conns w i)) pre st w i Removing w'"
proof -
  let ?l = "conn_loop (conns w i)" and ?f = "RemoveConnectionInLoop i"
  let ?w' = "upd_loop (srv_loop w) (queueInLoop (cur_thread w) ?f) w1"
  have live: "live (st i)" by (simp add: st live_def)
  note c = world_conn[OF inv live] and lf = leaves_facts[OF inv st lv]
  have fr: "conn_frame False i w w1" and inv1: "conn_inv i w1" and dis: "conn_state (conns w1 i) = kDisconnected"
    using lv by (simp_all add: leaves_def)
  note lm = loop_more_fields[OF lf(4)]
  obtain ch1 where ch1: "heap (loops w1 ?l) (Suc i) = Some ch1" "index ch1 = kDeleted" "tied ch1" "tie_obj ch1 = Some i"
    using lf(5) by blast
  have "srv_loop w1 = srv_loop w" using lf(1) by (simp add: others_same_def server_same_def)
  then have eq: "removeConnection i w1 = Inr ?w'"
    using far by (simp add: removeConnection_def run_on_def runInLoop_def isInLoopThread_def lf(3) lm)
  have "others_same i w1 ?w'" by (rule others_same_view) (auto simp: server_same_def)
  with lf(1) have o': "others_same i w ?w'" by (rule others_same_trans)
  have "stage_ok Removing i ?w' ch1" using conn_inv_queue_loop[OF inv1] dis ch1(2-4) by simp
  then have ok: "conn_ok Removing i ?w'"
    using ch1(1) c(2-4) o' server_same_loops[of w ?w']
    by (auto simp: conn_ok_def others_same_def server_same_def same_identity_def)
  have pend: "pendingFunctors (loops ?w' m) = pendingFunctors (loops w m)
      @ (if m = srv_loop w then [?f] else [])" for m by (simp add: lm)
  have "queues_ok st (queue pre w) w" using inv by (simp add: world_inv_def)
  then have q: "queues_ok (st(i := Removing)) (queue pre ?w') ?w'"
    using o'
  proof (rule queues_ok_conn)
    fix m assume m: "m \<in> server_loops w"
    show "about j (queue pre ?w' m) = about j (queue pre w m)" if "j \<noteq> i" for j
      using that unfolding queue_def pend by simp
    show "\<forall>f \<in> set (queue pre ?w' m). conn_of f \<noteq> None"
      using world_queue(2)[OF inv m] unfolding queue_def pend by auto
    have "queue_ok Open i ?l (srv_loop w) m (about i (queue pre w m))"
      using world_queue(1)[OF inv m, of i] by (simp add: st)
    from queue_ok_closes(2)[OF this] show "queue_ok Removing i ?l (srv_loop w) m (about i (queue pre ?w' m))"
      unfolding queue_def pend by (simp split: if_splits)
  qed
  have "world_inv (st(i := Removing)) (queue pre ?w') ?w'"
    by (rule world_inv_conn[OF inv live o' _ ok _ _ _ q]) (use st lf(2,6) in \<open>auto simp: in_map_def\<close>)
  moreover have "polite ?l w1 ?w'"
    by (rule polite_queue) (use world_thread[OF inv c(3) base_in_loops] far l in \<open>auto simp: lm\<close>)
  then have "polite ?l w ?w'" by (rule polite_trans[OF polite_frame[OF fr]])
  moreover have "confined ?l w ?w'" by (rule confined_trans[OF confined_frame[OF fr refl] confined_queue])
  ultimately show ?thesis using eq o' by (auto simp: steps_to_def)
qed

lemma close_step:
  assumes "world_inv st (queue pre w) w" and "st i = Open"
    and "cur_thread w = threadId (loops w (conn_loop (conns w i)))" and "leaves i w w1"
  shows "\<exists>w' x. removeConnection i w1 = Inr w' \<and> x \<in> {Removing, Dying}
    \<and> steps_to (conn_loop (conns w i)) pre st w i x w'"
  using close_step_here[OF assms(1,2,4)] close_step_far[OF assms(1,2,4,3)]
  by (cases "threadId (loops w (srv_loop w)) = cur_thread w") blast+

lemma dying_functor_step:
  assumes inv: "world_inv st (queue (pre(l := ConnectDestroyed i # pre l)) w) w"
    and l: "l \<in> server_loops w"
  shows "\<exists>w'. connectDestroyed cbs i w = Inr w' \<and> st i = Dying \<and> steps_to l pre st w i Gone w'
    \<and> adds (ConnectDestroyed i) io w w' \<and> heap (loops w' (conn_loop (conns w i))) (Suc i) \<noteq> None"
proof -
  let ?f = "ConnectDestroyed i" and ?io = "conn_loop (conns w i)"
  let ?Q = "queue (pre(l := ConnectDestroyed i # pre l)) w"
  have t: "awaited (st i) i ?io (srv_loop w) l = [?f]" "about i (queue pre w l) = []"
    using take_awaited[OF inv, of i] l by auto
  then have st: "st i = Dying" and io: "l = ?io" by (cases "st i"; simp split: if_splits)+
  have live: "live (st i)" by (simp add: st live_def)
  note c = world_conn[OF inv live]
  obtain ch where ch: "heap (loops w l) (Suc i) = Some ch" "conn_state (conns w i) = kDisconnected"
    using c(5) st io by auto
  from c(1) ch(1) have ch2: "fd_free (Suc i) ch (loops w l)" "channel_inv (conns w i) ch"
    by (auto simp: conn_inv_def cloop_def c(2) io)
  have none: "isNoneEvent ch" and fd: "chan_fd ch = sockfd (conns w i)"
    using ch2(2) ch(2) by (auto simp: channel_inv_def)
  have free: "index ch \<noteq> kNew \<or> registry (loops w l) (chan_fd ch) = None" using ch2(1) by (auto simp: fd_free_def)
  obtain e where e: "channel_remove (Suc i) (loops w l) = Inr e" "wf_poller e"
    "registry e = (registry (loops w l))(chan_fd ch := None)"
    "heap e = (heap (loops w l))(Suc i \<mapsto> ch\<lparr>index := kNew\<rparr>)"
    "poll_state.more e = poll_state.more (loops w l)" "event_slots e = event_slots (loops w l)"
    using channel_remove_ok[OF world_wf[OF inv l] ch(1) none free] by blast
  note lm = loop_more_fields[OF e(5)]
  let ?w' = "upd_loop l (\<lambda>_. e) w"
  have eq: "connectDestroyed cbs i w = Inr ?w'"
    using e(1) by (simp add: connectDestroyed_def ch(2) on_channel_def c(2) cloop_def io upd_cloop_def)
  have o: "others_same i w ?w'" by (auto simp: others_same_def e lm io fd server_same_def)
  have "stage_ok Gone i ?w' (ch\<lparr>index := kNew\<rparr>)" using ch(2) by simp
  then have ok: "conn_ok Gone i ?w'"
    using c(2-4) e(4) o server_same_loops[of w ?w'] by (simp add: conn_ok_def io[symmetric] others_same_def)
  have pend: "pendingFunctors (loops ?w' m) = pendingFunctors (loops w m)" for m by (simp add: lm)
  have "queues_ok st ?Q w" using inv by (simp add: world_inv_def)
  then have q: "queues_ok (st(i := Gone)) (queue pre ?w') ?w'"
    using o
  proof (rule queues_ok_conn)
    fix m assume m: "m \<in> server_loops w"
    show "about j (queue pre ?w' m) = about j (?Q m)" if "j \<noteq> i" for j
      using that unfolding queue_def pend by simp
    show "\<forall>f \<in> set (queue pre ?w' m). conn_of f \<noteq> None"
      using world_queue(2)[OF inv m] unfolding queue_def pend by (cases "m = l") auto
    have "about i (queue pre w m) = []"
    proof (cases "m = l")
      case True
      then show ?thesis using t(2) by simp
    next
      case False
      then show ?thesis using world_queue(1)[OF inv m, of i] st io by (auto simp: queue_ok_def queue_def)
    qed
    then show "queue_ok Gone i ?io (srv_loop w) m (about i (queue pre ?w' m))"
      unfolding queue_def pend by (simp add: queue_ok_empty)
  qed
  have "world_inv (st(i := Gone)) (queue pre ?w') ?w'"
    by (rule world_inv_conn[OF inv live o _ ok _ _ _ q])
      (use st world_wf[OF inv] e(2) in \<open>auto simp: in_map_def\<close>)
  moreover have "polite l w ?w'" by (rule polite_more) (simp_all add: e(5))
  moreover have "confined l w ?w'" by (rule confined_own) simp_all
  moreover have "adds ?f io w ?w'" by (simp add: adds_def lm)
  moreover have "heap (loops ?w' ?io) (Suc i) \<noteq> None" by (simp add: io[symmetric] e(4))
  ultimately show ?thesis using eq st o by (auto simp: steps_to_def)
qed

subsection \<open>Opening\<close>

text \<open>
  \<open>connectEstablished\<close>, called from the queue, or at once when the server accepts in the thread of
  the loop. \<open>Q'\<close> is \<open>Q\<close> without the functor.
\<close>

lemma established_step:
  assumes inv: "world_inv st Q w" and st: "st i = Opening"
    and cb: "connectionCallback cbs = Some (\<lambda>i w. Inr w)"
    and Q: "\<And>m j. m \<in> server_loops w \<Longrightarrow> j \<noteq> i \<Longrightarrow> about j (Q' m) = about j (Q m)"
      "\<And>m. m \<in> server_loops w \<Longrightarrow> set (Q' m) \<subseteq> set (Q m) \<and> about i (Q' m) = []"
  shows "\<exists>w'. connectEstablished cbs i w = Inr w' \<and> world_inv (st(i := Open)) Q' w' \<and> others_same i w w'
    \<and> confined (conn_loop (conns w i)) w w' \<and> (\<forall>m. poll_state.more (loops w' m) = poll_state.more (loops w m)) \<and> cur_thread w' = cur_thread w"
proof -
  let ?io = "conn_loop (conns w i)" and ?c = "conn_channel (conns w i)"
  have live: "live (st i)" by (simp add: st live_def)
  note c = world_conn[OF inv live]
  have con: "conn_state (conns w i) = kConnecting" using c(5) by (auto simp: st)
  obtain ch where ch: "heap (loops w ?io) (Suc i) = Some ch" "get_chan i w = Inr ch" "index ch = kNew"
    using c(5) by (auto simp: st)
  let ?ch = "want_read (tie i ch)"
  let ?w' = "upd_cloop i (\<lambda>e. after_change ?c ?ch (put_channel ?c (tie i ch) e)) (setState i kConnected w)"
  have eq: "connectEstablished cbs i w = Inr ?w'"
    using connectEstablished_eq[OF c(1) con ch(2) refl, of cbs] cb by (simp add: call_function_def)
  obtain w3 ch3 where w3: "connectEstablished cbs i w = call_function (connectionCallback cbs) (\<lambda>f. f i w3)"
    "conn_inv i w3" "conns w3 = (conns w)(i := (conns w i)\<lparr>conn_state := kConnected\<rparr>)"
    "get_chan i w3 = Inr ch3" "tied ch3" "tie_obj ch3 = Some i" "isReading ch3"
    using established_ok[OF c(1) con, of cbs] by blast
  have same: "w3 = ?w'" using w3(1) eq cb by (simp add: call_function_def)
  have fd: "chan_fd ch = sockfd (conns w i)"
    using c(1) ch(1) by (auto simp: conn_inv_def cloop_def c(2) channel_inv_def)
  have k: "kNew \<noteq> kAdded" by (simp add: index_defs)
  have lp: "loops w3 = (loops w)(?io := after_change (Suc i) ?ch (put_channel (Suc i) (tie i ch) (loops w ?io)))"
    by (simp add: same upd_cloop_def setState_def c(2))
  have views: "heap (loops w3 ?io) = (heap (loops w ?io))(Suc i \<mapsto> ?ch\<lparr>index := kAdded\<rparr>)"
    "registry (loops w3 ?io) = (registry (loops w ?io))(chan_fd ch \<mapsto> Suc i)"
    "poll_state.more (loops w3 ?io) = poll_state.more (loops w ?io)"
    "event_slots (loops w3 ?io) = event_slots (loops w ?io)"
    using k unfolding lp by (simp_all add: after_change_def put_channel_def ch(3))
  have more: "poll_state.more (loops w3 m) = poll_state.more (loops w m)" for m
    using views(3) unfolding lp by (cases "m = ?io") simp_all
  note lm = loop_more_fields[OF more]
  have "world.more w3 = world.more w" by (simp add: same setState_def)
  then have ss: "server_same w w3" "connections w3 = connections w"
    using server_same_more[of w3 w] server_fields(5)[of w3 w] by blast+
  have far: "loops w3 m = loops w m" if "m \<noteq> ?io" for m using that by (simp add: lp)
  have "heap (loops w3 m) d = heap (loops w m) d" if "m \<noteq> ?io \<or> d \<noteq> Suc i" for m d
    using that far[of m] views(1) by (cases "m = ?io") auto
  moreover have "registry (loops w3 m) d = registry (loops w m) d" if "m \<noteq> ?io \<or> d \<noteq> sockfd (conns w i)" for m d
    using that far[of m] views(2) fd by (cases "m = ?io") auto
  moreover have "event_slots (loops w3 m) = event_slots (loops w m)" for m
    using far[of m] views(4) by (cases "m = ?io") simp_all
  ultimately have o: "others_same i w w3"
    using ss(1) w3(3) lm(3,5,7) by (simp add: others_same_def same_identity_def)
  have "ch3 = ?ch\<lparr>index := kAdded\<rparr>"
    using w3(3,4) views(1) by (simp add: get_chan_def cloop_def c(2))
  then have "listening (?ch\<lparr>index := kAdded\<rparr>)" using w3(7) by (simp add: listening_def)
  then have "stage_ok Open i w3 (?ch\<lparr>index := kAdded\<rparr>)"
    using w3 k by (auto simp: active_def want_read_def tie_def)
  then have ok: "conn_ok Open i w3"
    using views(1) c(2-4) w3(3) ss(1) server_same_loops[of w w3] by (simp add: conn_ok_def server_same_def)
  have wf: "wf_poller (loops w3 m)" if "m \<in> server_loops w" for m
  proof (cases "m = ?io")
    case True
    then show ?thesis using w3(2,3) by (simp add: conn_inv_def cloop_def)
  next
    case False
    then show ?thesis using world_wf[OF inv that] by (simp add: lp)
  qed
  have "queues_ok st Q w" using inv by (simp add: world_inv_def)
  then have q: "queues_ok (st(i := Open)) Q' w3"
    using o
  proof (rule queues_ok_conn)
    fix m assume m: "m \<in> server_loops w"
    show "\<forall>f \<in> set (Q' m). conn_of f \<noteq> None" using world_queue(2)[OF inv m] Q(2)[OF m] by blast
    show "queue_ok Open i ?io (srv_loop w) m (about i (Q' m))" using Q(2)[OF m] by (simp add: queue_ok_empty)
  qed (rule Q(1))
  have "world_inv (st(i := Open)) Q' w3"
    by (rule world_inv_conn[OF inv live o wf ok _ _ _ q]) (use st ss in \<open>auto simp: in_map_def\<close>)
  moreover have "cur_thread w3 = cur_thread w" by (simp add: same)
  moreover have "confined ?io w w3"
    using w3(3) far ss(1) by (simp add: confined_def server_same_def)
  ultimately show ?thesis using eq same o more by (intro exI[of _ w3]) simp
qed

lemma opening_functor_step:
  assumes inv: "world_inv st (queue (pre(l := ConnectEstablished i # pre l)) w) w"
    and l: "l \<in> server_loops w" and cb: "connectionCallback cbs = Some (\<lambda>i w. Inr w)"
  shows "\<exists>w'. connectEstablished cbs i w = Inr w' \<and> st i = Opening \<and> steps_to l pre st w i Open w'
    \<and> adds (ConnectEstablished i) io w w'"
proof -
  let ?f = "ConnectEstablished i" and ?io = "conn_loop (conns w i)"
  have t: "awaited (st i) i ?io (srv_loop w) l = [?f]" "about i (queue pre w l) = []"
    using take_awaited[OF inv, of i] l by auto
  then have st: "st i = Opening" and io: "l = ?io" by (cases "st i"; simp split: if_splits)+
  have empty: "about i (queue pre w m) = []" if m: "m \<in> server_loops w" for m
  proof (cases "m = l")
    case True
    then show ?thesis using t(2) by simp
  next
    case False
    then show ?thesis using world_queue(1)[OF inv m, of i] st io by (auto simp: queue_ok_def queue_def)
  qed
  obtain w' where w': "connectEstablished cbs i w = Inr w'" "world_inv (st(i := Open)) (queue pre w) w'"
    "others_same i w w'" "\<forall>m. poll_state.more (loops w' m) = poll_state.more (loops w m)" "confined l w w'"
    "cur_thread w' = cur_thread w"
    unfolding io using established_step[OF inv st cb, of "queue pre w"] empty by (fastforce simp: queue_def)
  have pend: "pendingFunctors (loops w' m) = pendingFunctors (loops w m)" for m
    using loop_more_fields(8) w'(4) by blast
  have "queue pre w' = queue pre w" by (rule queue_same) (rule pend)
  then show ?thesis using w' st polite_more[of w' w l] by (auto simp: steps_to_def adds_def pend)
qed

subsection \<open>Calling a functor\<close>

lemma steps_heap:
  assumes "steps_to l pre st w i x w'" and "live x"
  shows "heap (loops w' (conn_loop (conns w i))) (Suc i) \<noteq> None"
proof -
  have "world_inv (st(i := x)) (queue pre w') w'" "conn_loop (conns w' i) = conn_loop (conns w i)"
    using assms(1) by (simp_all add: steps_to_def others_same_def same_identity_def)
  then show ?thesis using world_conn(5)[of "st(i := x)" _ w' i] assms(2) by auto
qed

context local_callbacks
begin

text \<open>
  The functor \<open>f\<close> has been taken from the head of the list that loop \<open>l\<close> has swapped out. Calling it
  never fails.
\<close>

lemma functor_step:
  assumes inv: "world_inv st (queue (pre(l := f # pre l)) w) w"
    and l: "l \<in> server_loops w" "cur_thread w = threadId (loops w l)"
    and calling: "callingPendingFunctors (loops w l)"
  shows "\<exists>w' i x. exec_functor cbs ok f w = Inr w' \<and> steps_to l pre st w i x w'
    \<and> (st i = Open \<longrightarrow> conn_loop (conns w i) = l) \<and> adds f (conn_loop (conns w i)) w w'
    \<and> (closing (st i) \<longrightarrow> closing x) \<and> (staying (st i) \<longrightarrow> staying x)
    \<and> heap (loops w' (conn_loop (conns w i))) (Suc i) \<noteq> None"
proof -
  obtain i where i: "conn_of f = Some i" using world_queue(2)[OF inv l(1)] by (auto simp: queue_def)
  show ?thesis
  proof (cases "is_data f")
    case True
    note d = drop_data[OF inv True i l(1)]
    have live: "live (st i)" using d(3) by (auto simp: live_def)
    note c = world_conn[OF d(1) live]
    obtain ch where ch: "get_chan i w = Inr ch" "stage_ok (st i) i w ch" using c(5) by blast
    have state: "if st i = Open then active (conns w i) else conn_state (conns w i) = kDisconnected"
      using ch(2) d(3) by auto
    have "\<exists>w'. exec_functor cbs ok f w = Inr w' \<and> conn_frame True i w w' \<and> conn_inv i w'
      \<and> conn_state (conns w' i) = conn_state (conns w i) \<and> (st i = Open \<or> loops w' = loops w)"
    proof (cases f)
      case (SendInLoop j msg)
      then have j: "j = i" using i by simp
      show ?thesis
      proof (cases "active (conns w i)")
        case True
        from sendInLoop_ok[OF c(1) this, of "conn_cbs cbs" msg] obtain w' where
          w': "sendInLoop (conn_cbs cbs) i msg w = Inr w'" "conn_inv i w'" "same_conn (conns w i) (conns w' i)"
          by blast
        moreover have "st i = Open" using True state by (auto simp: active_def split: if_splits)
        ultimately show ?thesis using SendInLoop j framedD[OF framed_sendInLoop[OF cbs_none] w'(1)] same_connD(1)
          by simp
      next
        case False
        then have "conn_state (conns w i) = kDisconnected" using state by (auto split: if_splits)
        then show ?thesis using SendInLoop j c(1) by (simp add: sendInLoop_def)
      qed
    next
      case (ShutdownInLoop j)
      then have "exec_functor cbs ok f w = Inr (if isWriting ch then w else shutdownWrite i w)"
        using i ch(1) by (simp add: shutdownInLoop_def)
      then show ?thesis using c(1) conn_inv_shutdown[OF c(1)] by (simp add: shutdownWrite_def same_identity_def)
    qed (use True in simp_all)
    then obtain w' where w': "exec_functor cbs ok f w = Inr w'" "conn_frame True i w w'" "conn_inv i w'"
      "conn_state (conns w' i) = conn_state (conns w i)" "st i = Open \<or> loops w' = loops w" by blast
    have "steps_to l pre st w i (st i) w'"
      by (rule step_frame[OF d(1,3,2) w'(2,3)]) (use state w'(4,5) in \<open>auto simp: active_def split: if_splits\<close>)
    moreover have "queued_by f io m = []" for io m using True by (cases f) simp_all
    then have "adds f (conn_loop (conns w i)) w w'"
      using loop_more_fields(8)[OF conn_frame_loop[OF w'(2)]] by (simp add: adds_def)
    ultimately show ?thesis using w'(1) d(2) steps_heap[of l pre st w i "st i" w'] live by blast
  next
    case False
    note t = take_awaited[OF inv False i l(1)]
    then consider "f = ConnectEstablished i" | "f = RemoveConnectionInLoop i" | "f = ConnectDestroyed i"
      by (cases "st i") (auto split: if_splits)
    then show ?thesis
    proof cases
      case 1
      have "connectionCallback (conn_cbs cbs) = Some (\<lambda>i w. Inr w)" by (simp add: conn_cbs_def only_logs)
      from opening_functor_step[OF inv[unfolded 1] l(1) this, where io = "conn_loop (conns w i)"] show ?thesis unfolding 1
        using steps_heap[of l pre st w i Open] by (auto simp: closing_def staying_def live_def intro!: exI[of _ i] exI[of _ Open])
    next
      case 2
      from removing_functor_step[OF inv[unfolded 2] l calling] show ?thesis unfolding 2
        using steps_heap[of l pre st w i Dying] by (auto simp: closing_def staying_def live_def intro!: exI[of _ i] exI[of _ Dying])
    next
      case 3
      from dying_functor_step[OF inv[unfolded 3] l(1), of "conn_cbs cbs" "conn_loop (conns w i)"] show ?thesis unfolding 3
        by (auto simp: closing_def staying_def intro!: exI[of _ i] exI[of _ Gone])
    qed
  qed
qed

text \<open>An event of an open connection, in the thread of its loop.\<close>

lemma event_step:
  assumes inv: "world_inv st (queue pre w) w" and st: "st i = Open" and l: "l = conn_loop (conns w i)"
    and thr: "cur_thread w = threadId (loops w l)"
    and ch: "heap (loops w l) (Suc i) = Some ch" "sane_events (revents ch)"
  shows "handle_channel cbs (\<lambda>_. True) l (Suc i) t w = Inl OutOfBounds \<and> overrun cbs i t (handlers_for (revents ch)) w
    \<or> (\<exists>w' x. handle_channel cbs (\<lambda>_. True) l (Suc i) t w = Inr w' \<and> steps_to l pre st w i x w')"
proof -
  have live: "live (st i)" and nf: "st i \<noteq> Fresh" by (simp_all add: st live_def)
  note c = world_conn[OF inv live]
  have ok: "stage_ok Open i w ch" and gc: "get_chan i w = Inr ch" using c(5) ch(1) st l by auto
  have pk: "poller_ok st m w" if "m \<in> server_loops w" for m using inv that by (simp add: world_inv_def)
  have "Suc i \<notin> own_channels m w" if "m \<in> server_loops w" for m
    using pk[OF that] nf by (auto simp: poller_ok_def own_ok_def)
  from this[of l] this[of "srv_loop w"] c(3)
  have "Suc i \<noteq> wakeupChannel (loops w l)" "Suc i \<noteq> timerChannel (loops w l)" "Suc i \<noteq> acceptChannel w"
    by (simp_all add: own_channels_def l)
  then have eq: "handle_channel cbs (\<lambda>_. True) l (Suc i) t w
      = call_sequence (call_handler (conn_chan_callbacks (conn_cbs cbs) i) t) (handlers_for (revents ch)) w"
    using ch(1) ok by (simp add: handle_channel_def handleEvent_def handleEventWithGuard_sequence)
  have inl: "in_loop i w" using ok thr l gc by (simp add: in_loop_def isInLoopThread_def cloop_def)
  from event_outcomes[OF this ch(2)[unfolded sane_events_def], of t]
  have out: "outcome i w (handle_channel cbs (\<lambda>_. True) l (Suc i) t w)" unfolding eq .
  then consider (fails) "handle_channel cbs (\<lambda>_. True) l (Suc i) t w = Inl OutOfBounds"
    | (stays) w' where "handle_channel cbs (\<lambda>_. True) l (Suc i) t w = Inr w'" "stays i w w'"
    | (leaves) w1 where "leaves i w w1" "handle_channel cbs (\<lambda>_. True) l (Suc i) t w = removeConnection i w1"
    unfolding outcome_def stays_open_def by blast
  then show ?thesis
  proof cases
    case stays
    then have "steps_to l pre st w i (st i) w'"
      using step_frame[OF inv _ l[symmetric], of w'] st by (simp add: stays_def)
    then show ?thesis using stays(1) by blast
  next
    case leaves
    from close_step[OF inv st thr[unfolded l] leaves(1)] show ?thesis unfolding leaves(2) l[symmetric] by blast
  next
    case fails
    then show ?thesis using failed_overrun[OF inl, of t] by (simp add: eq)
  qed
qed

end

subsection \<open>A new connection\<close>

text \<open>Connection \<open>i\<close> and its channel are new or have changed; this is all another loop can notice.\<close>

definition untouched :: "nat \<Rightarrow> server_world \<Rightarrow> server_world \<Rightarrow> bool" where
  "untouched i w w' \<longleftrightarrow> (\<forall>j. j \<noteq> i \<longrightarrow> conns w' j = conns w j)
     \<and> (\<forall>l c. c \<noteq> Suc i \<longrightarrow> heap (loops w' l) c = heap (loops w l) c)
     \<and> (\<forall>l. threadId (loops w' l) = threadId (loops w l)
          \<and> wakeupChannel (loops w' l) = wakeupChannel (loops w l)
          \<and> timerChannel (loops w' l) = timerChannel (loops w l))
     \<and> srv_loop w' = srv_loop w \<and> acceptChannel w' = acceptChannel w \<and> server_loops w' = server_loops w"

lemma untouched_others: "others_same i w w' \<Longrightarrow> untouched i w w'"
  using server_same_loops[of w w'] by (auto simp: others_same_def untouched_def server_same_def)

lemma untouched_trans: "untouched i a b \<Longrightarrow> untouched i b c \<Longrightarrow> untouched i a c"
  by (simp add: untouched_def)

lemma own_channels_untouched: "untouched i w w' \<Longrightarrow> own_channels l w' = own_channels l w"
  by (simp add: untouched_def own_channels_def)

text \<open>
  The connection that \<open>newConnection\<close> makes, and the state in which it hands it to its loop, whose
  queue is about to get the functor.
\<close>

definition first_conn :: "nat \<Rightarrow> int \<Rightarrow> sockaddr_in \<Rightarrow> sockaddr_in \<Rightarrow> server_world \<Rightarrow> tcpconn" where
  "first_conn io fd laddr peer w =
     (new_conn io (srv_name w @ conn_name_buf (ipPort w) (nextConnId w)) fd (Suc (next_address w)) laddr peer)
       \<lparr>keep_alive := True\<rparr>"

definition allocated ::
    "nat \<Rightarrow> loop_pool \<Rightarrow> int \<Rightarrow> sockaddr_in \<Rightarrow> sockaddr_in \<Rightarrow> server_world \<Rightarrow> server_world" where
  "allocated io p fd laddr peer w =
     (let i = next_address w
      in w\<lparr>loops := (loops w)(io := put_channel (Suc i) (Channel fd) (loops w io)),
           conns := (conns w)(i := first_conn io fd laddr peer w), threadPool := p, nextConnId := nextConnId w + 1,
           connections := (connections w)(conn_name (first_conn io fd laddr peer w) \<mapsto> i),
           next_address := Suc (Suc i)\<rparr>)"

lemma first_conn_simps [simp]:
  "conn_loop (first_conn io fd laddr peer w) = io" "sockfd (first_conn io fd laddr peer w) = fd"
  "conn_name (first_conn io fd laddr peer w) = srv_name w @ conn_name_buf (ipPort w) (nextConnId w)"
  "conn_channel (first_conn io fd laddr peer w) = Suc (next_address w)"
  "conn_state (first_conn io fd laddr peer w) = kConnecting"
  "inputBuffer (first_conn io fd laddr peer w) = Buffer kInitialSize"
  "outputBuffer (first_conn io fd laddr peer w) = Buffer kInitialSize"
  by (simp_all add: first_conn_def new_conn_def)

lemma allocated_simps [simp]:
  "conns (allocated io p fd laddr peer w) = (conns w)(next_address w := first_conn io fd laddr peer w)"
  "loops (allocated io p fd laddr peer w)
    = (loops w)(io := put_channel (Suc (next_address w)) (Channel fd) (loops w io))"
  "threadPool (allocated io p fd laddr peer w) = p" "nextConnId (allocated io p fd laddr peer w) = nextConnId w + 1"
  "connections (allocated io p fd laddr peer w)
    = (connections w)(srv_name w @ conn_name_buf (ipPort w) (nextConnId w) \<mapsto> next_address w)"
  "next_address (allocated io p fd laddr peer w) = Suc (Suc (next_address w))"
  "srv_loop (allocated io p fd laddr peer w) = srv_loop w" "srv_name (allocated io p fd laddr peer w) = srv_name w"
  "ipPort (allocated io p fd laddr peer w) = ipPort w" "acceptChannel (allocated io p fd laddr peer w) = acceptChannel w"
  "cur_thread (allocated io p fd laddr peer w) = cur_thread w"
  by (simp_all add: allocated_def Let_def)

lemma newConnection_run:
  assumes "getNextLoop (threadPool w) = Inr (io, p)" and "nextConnId w + 1 < 2 ^ 31"
  shows "\<exists>laddr. newConnection cbs fd peer w = run_on io (ConnectEstablished (next_address w))
    (connectEstablished (conn_cbs cbs) (next_address w)) (allocated io p fd laddr peer w)"
  using assms by (cases w) (auto simp: newConnection_def TcpConnection_def Let_def upd_conn_def upd_loop_def
      setKeepAlive_def allocated_def first_conn_def new_conn_def)

text \<open>A descriptor of a connection that is not gone is in use.\<close>

lemma live_fd_in_use:
  assumes inv: "world_inv st Q w" and live: "live (st j)"
  shows "fd_in_use (sockfd (conns w j)) w"
proof (cases "in_map (st j)")
  case True
  then have "connections w (conn_name (conns w j)) = Some j" using inv by (simp add: world_inv_def map_ok_def)
  then show ?thesis using world_conn(4)[OF inv live] by (auto simp: fd_in_use_def intro!: exI[of _ j])
next
  case False
  then have st: "st j = Dying" using live by (auto simp: live_def in_map_def)
  note c = world_conn[OF inv live]
  let ?l = "conn_loop (conns w j)"
  obtain ch where ch: "heap (loops w ?l) (Suc j) = Some ch" "index ch = kDeleted" using c(5) st by auto
  have "channel_inv (conns w j) ch" using c(1) ch(1) by (auto simp: conn_inv_def cloop_def c(2))
  then have "registry (loops w ?l) (sockfd (conns w j)) = Some (Suc j)"
    using wf_pollerD(2)[OF world_wf[OF inv c(3)] ch(1)] ch(2) by (auto simp: index_defs channel_inv_def)
  then show ?thesis using c(3) unfolding fd_in_use_def by blast
qed

lemma own_fd_in_use:
  assumes inv: "world_inv st Q w" and l: "l \<in> server_loops w" and c: "c \<in> own_channels l w"
    and ch: "heap (loops w l) c = Some ch"
  shows "fd_in_use (chan_fd ch) w"
proof -
  have "own_ok st l w c" using inv l c by (simp add: world_inv_def poller_ok_def)
  then have "index ch = kAdded" using ch by (simp add: own_ok_def)
  then have "registry (loops w l) (chan_fd ch) = Some c" using wf_pollerD(3)[OF world_wf[OF inv l] ch] by simp
  then show ?thesis using l unfolding fd_in_use_def by blast
qed

lemma fresh_stage: "world_inv st Q w \<Longrightarrow> st (next_address w) = Fresh"
  unfolding world_inv_def conn_ok_def by (metis Suc_lessD less_irrefl)

text \<open>What the server finds when it accepts a connection.\<close>

definition can_accept ::
    "(nat \<Rightarrow> stage) \<Rightarrow> (nat \<Rightarrow> loop_functor list) \<Rightarrow> nat \<Rightarrow> loop_pool \<Rightarrow> int \<Rightarrow> server_world \<Rightarrow> bool" where
  "can_accept st Q io p fd w \<longleftrightarrow> world_inv st Q w \<and> getNextLoop (threadPool w) = Inr (io, p)
     \<and> nextConnId w + 1 < 2 ^ 31 \<and> \<not> fd_in_use fd w"

lemma alloc_pool:
  assumes "can_accept st Q io p fd w"
  shows "io \<in> server_loops w" and "server_loops (allocated io p fd laddr peer w) = server_loops w"
    and "wf_pool p" "baseLoop p = srv_loop w"
proof -
  have so: "server_ok w" using assms by (simp add: can_accept_def world_inv_def)
  then have pool: "wf_pool (threadPool w)" by (simp add: server_ok_def)
  have p: "p = (threadPool w)\<lparr>next_loop := Suc (next_loop (threadPool w)) mod length (getAllLoops (threadPool w))\<rparr>"
    and io: "io = getAllLoops (threadPool w) ! (next_loop (threadPool w) mod length (getAllLoops (threadPool w)))"
    using getNextLoop_ok[OF pool] assms by (simp_all add: can_accept_def)
  have "getAllLoops (threadPool w) \<noteq> []" by (simp add: getAllLoops_def)
  then have "io \<in> set (getAllLoops (threadPool w))" unfolding io by simp
  then show "io \<in> server_loops w"
    using so by (auto simp: getAllLoops_def server_loops_def server_ok_def split: if_splits)
  show "server_loops (allocated io p fd laddr peer w) = server_loops w" by (simp add: server_loops_def p)
  show "wf_pool p" using getNextLoop_wf[OF pool, of "next_loop (threadPool w)"] by (simp add: p)
  show "baseLoop p = srv_loop w" using so by (simp add: p server_ok_def)
qed

lemma alloc_untouched:
  assumes "can_accept st Q io p fd w"
  shows "untouched (next_address w) w (allocated io p fd laddr peer w)"
  using alloc_pool(2)[OF assms] by (simp add: untouched_def put_channel_def)

lemma alloc_fresh:
  assumes "can_accept st Q io p fd w"
  shows "st (next_address w) = Fresh"
    and "m \<in> server_loops w \<Longrightarrow> heap (loops w m) (Suc (next_address w)) = None"
    and "m \<in> server_loops w \<Longrightarrow> wf_poller (loops (allocated io p fd laddr peer w) m)"
proof -
  have inv: "world_inv st Q w" using assms by (simp add: can_accept_def)
  show fresh: "st (next_address w) = Fresh" using fresh_stage[OF inv] .
  have none: "heap (loops w m) (Suc (next_address w)) = None" if m: "m \<in> server_loops w" for m
  proof (rule ccontr)
    assume "heap (loops w m) (Suc (next_address w)) \<noteq> None"
    moreover have pk: "poller_ok st m w" using inv m by (simp add: world_inv_def)
    ultimately have "Suc (next_address w) \<in> own_channels m w \<or> st (next_address w) \<noteq> Fresh"
      by (auto simp: poller_ok_def domIff)
    then show False using fresh pk by (auto simp: poller_ok_def own_ok_def)
  qed
  then show "m \<in> server_loops w \<Longrightarrow> heap (loops w m) (Suc (next_address w)) = None" .
  show "m \<in> server_loops w \<Longrightarrow> wf_poller (loops (allocated io p fd laddr peer w) m)"
    using world_wf[OF inv, of m] wf_put_channel_new[OF world_wf[OF inv alloc_pool(1)[OF assms]] none[OF alloc_pool(1)[OF assms]], of fd]
    by simp
qed

lemma alloc_conn_ok:
  assumes A: "can_accept st Q io p fd w"
  shows "conn_ok ((st(next_address w := Opening)) j) j (allocated io p fd laddr peer w)"
proof (cases "j = next_address w")
  case True
  let ?w = "allocated io p fd laddr peer w"
  note io = alloc_pool(1)[OF A]
  have "registry (loops w io) fd = None" using A io by (auto simp: fd_in_use_def can_accept_def)
  then have "conn_inv j ?w"
    using True alloc_fresh(3)[OF A io, of laddr peer] by (simp add: conn_inv_def cloop_def put_channel_def channel_inv_def
        fd_free_def Channel_def isNoneEvent_def kNoneEvent_def)
  then show ?thesis
    using True alloc_pool(2)[OF A] io by (simp add: conn_ok_def put_channel_def Channel_def index_defs)
next
  case False
  have "conn_ok (st j) j w" using A by (simp add: can_accept_def world_inv_def)
  then have "conn_ok (st j) j (allocated io p fd laddr peer w)"
    by (rule conn_ok_cong) (use False alloc_pool(2)[OF A] alloc_fresh(3)[OF A] in \<open>simp_all add: put_channel_def\<close>)
  then show ?thesis using False by simp
qed

lemma alloc_poller_ok:
  assumes A: "can_accept st Q io p fd w" and m: "m \<in> server_loops w"
  shows "poller_ok (st(next_address w := Opening)) m (allocated io p fd laddr peer w)"
proof -
  let ?i = "next_address w" and ?w = "allocated io p fd laddr peer w"
  have inv: "world_inv st Q w" and fd: "\<not> fd_in_use fd w" using A by (simp_all add: can_accept_def)
  have pk: "poller_ok st m w" using inv m by (simp add: world_inv_def)
  note fresh = alloc_fresh(1)[OF A] and un = alloc_untouched[OF A, of laddr peer]
  have "own_ok (st(?i := Opening)) m ?w c" if c: "c \<in> own_channels m w" for c
  proof -
    have o: "own_ok st m w c" using pk c by (simp add: poller_ok_def)
    then obtain ch where ch: "heap (loops w m) c = Some ch" "\<not> tied ch" "index ch = kAdded"
      "\<forall>j. live (st j) \<longrightarrow> sockfd (conns w j) \<noteq> chan_fd ch" "c < next_address w" by (auto simp: own_ok_def)
    have "fd \<noteq> chan_fd ch" using own_fd_in_use[OF inv m c ch(1)] fd by blast
    moreover have "heap (loops ?w m) c = Some ch" using un ch(1,5) by (simp add: untouched_def)
    ultimately show ?thesis using o ch(2-5) fresh by (auto simp: own_ok_def)
  qed
  moreover have "c \<in> own_channels m w \<or> (\<exists>j. c = Suc j \<and> (st(?i := Opening)) j \<noteq> Fresh \<and> conn_loop (conns ?w j) = m)"
    if "c \<in> dom (heap (loops ?w m))" for c
  proof (cases "c = Suc ?i")
    case True
    then show ?thesis using that alloc_fresh(2)[OF A m] by (auto split: if_splits)
  next
    case False
    then have "c \<in> dom (heap (loops w m))" using that un by (simp add: untouched_def domIff)
    then consider "c \<in> own_channels m w" | j where "c = Suc j" "st j \<noteq> Fresh" "conn_loop (conns w j) = m"
      using pk unfolding poller_ok_def by blast
    then show ?thesis using fresh by cases auto
  qed
  ultimately show ?thesis
    using alloc_fresh(3)[OF A m] own_channels_untouched[OF un] by (simp add: poller_ok_def)
qed

lemma alloc_maps:
  fixes laddr peer :: sockaddr_in
  assumes A: "can_accept st Q io p fd w"
  defines "w' \<equiv> allocated io p fd laddr peer w" and "st' \<equiv> st(next_address w := Opening)"
  shows "map_ok st' w'" and "fds_ok st' w'" and "server_ok w'"
proof -
  let ?i = "next_address w" and ?n = "srv_name w @ conn_name_buf (ipPort w) (nextConnId w)"
  have inv: "world_inv st Q w" and fd: "\<not> fd_in_use fd w" and n: "nextConnId w + 1 < 2 ^ 31"
    using A by (simp_all add: can_accept_def)
  have so: "server_ok w" and mk: "map_ok st w" and fk: "fds_ok st w" using inv by (simp_all add: world_inv_def)
  note fresh = alloc_fresh(1)[OF A]
  have new: "connections w ?n = None" using so n names_inv_fresh by (simp add: server_ok_def)
  have "connections w m \<noteq> Some ?i" for m using mk fresh by (simp add: map_ok_def in_map_def)
  moreover have "conn_name (conns w j) \<noteq> ?n" if "in_map (st j)" for j
    using mk that new unfolding map_ok_def by (metis option.distinct(1))
  moreover have "connections w m = Some j \<longleftrightarrow> conn_name (conns w j) = m \<and> in_map (st j)" for m j
    using mk by (simp add: map_ok_def)
  ultimately show "map_ok st' w'" unfolding map_ok_def by (auto simp: w'_def st'_def in_map_def)
  have "sockfd (conns w j) \<noteq> fd" if "live (st j)" for j using live_fd_in_use[OF inv that] fd by blast
  then show "fds_ok st' w'" using fk unfolding fds_ok_def by (auto simp: w'_def st'_def)
  have "names_inv w'" by (rule names_inv_add[of w]) (use so in \<open>simp_all add: server_ok_def w'_def\<close>)
  moreover have "threadId (loops w' m) = threadId (loops w m)" for m by (simp add: w'_def put_channel_def)
  ultimately show "server_ok w'"
    using so alloc_pool(2-4)[OF A] by (simp add: server_ok_def inj_on_def w'_def)
qed

lemma alloc_queues:
  assumes A: "can_accept st Q io p fd w"
  defines "i \<equiv> next_address w"
  shows "queues_ok (st(i := Opening)) (\<lambda>m. Q m @ (if m = io then [ConnectEstablished i] else []))
    (allocated io p fd laddr peer w)"
proof -
  have inv: "world_inv st Q w" using A by (simp add: can_accept_def)
  have "about i (Q m) = []" if "m \<in> server_loops w" for m
    using world_queue(1)[OF inv that, of i] alloc_fresh(1)[OF A] by (auto simp: queue_ok_def i_def)
  moreover have "queue_ok Opening i io base m (if m = io then [ConnectEstablished i] else [])" for m base
    by (simp add: queue_ok_def)
  moreover have "about j (if m = io then [ConnectEstablished i] else [])
      = (if j = i \<and> m = io then [ConnectEstablished i] else [])" for j m by simp
  ultimately have "queue_ok ((st(i := Opening)) j) j (conn_loop (conns (allocated io p fd laddr peer w) j)) (srv_loop w) m
      (about j (Q m @ (if m = io then [ConnectEstablished i] else [])))" if "m \<in> server_loops w" for j m
    using world_queue(1)[OF inv that, of j] that by (cases "j = i") (simp_all add: i_def del: about_simps(3))
  then show ?thesis
    using world_queue(2)[OF inv] alloc_pool(2)[OF A] by (auto simp: queues_ok_def split: if_splits)
qed

lemma alloc_step:
  assumes A: "can_accept st Q io p fd w"
  defines "i \<equiv> next_address w"
  shows "world_inv (st(i := Opening)) (\<lambda>m. Q m @ (if m = io then [ConnectEstablished i] else []))
    (allocated io p fd laddr peer w)"
  using alloc_conn_ok[OF A] alloc_poller_ok[OF A] alloc_maps[OF A] alloc_queues[OF A] alloc_pool(2)[OF A]
  unfolding world_inv_def i_def by simp

end
