(* ===== verification/Threads_Safe.thy ===== *)
theory Threads_Safe
  imports Thread_Steps
begin

section \<open>Every schedule of a server\<close>

text \<open>
  The invariant of \<open>Server_Threads\<close> over whole schedules. Here are the remaining kinds of steps, and
  what they come to: no plausible schedule makes a step fail, except where the read or the write
  handler of a connection reads past the end of a buffer (\<open>overrun_turn\<close>). Calls of \<open>send\<close> and
  \<open>shutdown\<close> by other threads are taken step by step (\<open>foreign_state\<close>, \<open>foreign_queue\<close>).
\<close>

subsection \<open>Steps of a thread\<close>

definition goes ::
    "nat \<Rightarrow> (nat \<Rightarrow> loop_functor list) \<Rightarrow> (nat \<Rightarrow> stage) \<Rightarrow> server_world \<Rightarrow> nat \<Rightarrow> stage
       \<Rightarrow> server_world \<Rightarrow> bool" where
  "goes l pre st w i x w' \<longleftrightarrow>
     world_inv (st(i := x)) (queue pre w') w' \<and> untouched i w w' \<and> polite l w w' \<and> confined l w w'"

lemma goes_steps: "steps_to l pre st w i x w' \<Longrightarrow> goes l pre st w i x w'"
  using untouched_others by (simp add: goes_def steps_to_def)

lemma world_inv_thread [simp]: "world_inv st Q (w\<lparr>cur_thread := t\<rparr>) = world_inv st Q w"
proof -
  have "same_view w (w\<lparr>cur_thread := t\<rparr>)" "same_view (w\<lparr>cur_thread := t\<rparr>) w"
    by (simp_all add: same_view_def server_same_def)
  then show ?thesis using world_inv_view by blast
qed

lemma goes_view:
  assumes inv: "world_inv st (queue pre w) w" and v: "same_view w w'"
    and heap: "\<And>m. heap (loops w' m) = heap (loops w m)"
    and pend: "\<And>m. pendingFunctors (loops w' m) = pendingFunctors (loops w m)"
    and "polite l w w'" "confined l w w'"
  shows "\<exists>i. st i = Fresh \<and> goes l pre st w i Fresh w'"
proof -
  let ?i = "next_address w"
  have fresh: "st ?i = Fresh" using inv by (rule fresh_stage)
  have "world_inv st (queue pre w') w'"
    using world_inv_view[OF v inv] queue_same[OF pend, of pre] by simp
  moreover have "st(?i := Fresh) = st" using fresh by (simp add: fun_upd_idem)
  moreover have "untouched ?i w w'"
    using v heap server_same_loops[of w w'] by (simp add: untouched_def same_view_def loop_view_def server_same_def)
  ultimately show ?thesis using assms(5,6) fresh by (auto simp: goes_def)
qed

lemma polite_refl: "loops w' = loops w \<Longrightarrow> cur_thread w' = cur_thread w \<Longrightarrow> polite l w w'"
  by (rule polite_more) simp_all

lemma alloc_frame:
  shows "poll_state.more (loops (allocated io p fd laddr peer w) m) = poll_state.more (loops w m)"
    and "confined l w (allocated io p fd laddr peer w)" and "polite l w (allocated io p fd laddr peer w)"
    and "queue pre (allocated io p fd laddr peer w) = queue pre w"
proof -
  show more: "poll_state.more (loops (allocated io p fd laddr peer w) m) = poll_state.more (loops w m)" for m
    by (simp add: put_channel_def)
  show "confined l w (allocated io p fd laddr peer w)" by (simp add: confined_def only_queued_put)
  show "polite l w (allocated io p fd laddr peer w)" by (rule polite_more) (rule more, simp)
  show "queue pre (allocated io p fd laddr peer w) = queue pre w"
    by (rule queue_same) (rule loop_more_fields(8)[OF more])
qed

context local_callbacks
begin

text \<open>The loop of a new connection is that of the acceptor, and opens it at once, or another one.\<close>

lemma hand_over_here:
  assumes A: "can_accept st (queue pre w) io p fd w" and thr: "cur_thread w = threadId (loops w (srv_loop w))"
    and io: "threadId (loops w io) = cur_thread w"
  shows "\<exists>w'. connectEstablished (conn_cbs cbs) (next_address w) (allocated io p fd laddr peer w) = Inr w'
    \<and> goes (srv_loop w) pre st w (next_address w) Open w'"
proof -
  let ?i = "next_address w" and ?w3 = "allocated io p fd laddr peer w"
  have inv: "world_inv st (queue pre w) w" using A by (simp add: can_accept_def)
  note L = alloc_pool(1)[OF A] alloc_pool(2)[OF A, of laddr peer] and more = alloc_frame(1)[of io p fd laddr peer w]
  have cb: "connectionCallback (conn_cbs cbs) = Some (\<lambda>i w. Inr w)" by (simp add: conn_cbs_def only_logs)
  have empty: "about ?i (queue pre w m) = []" if "m \<in> server_loops w" for m
    using world_queue(1)[OF inv that, of ?i] alloc_fresh(1)[OF A] by (auto simp: queue_ok_def)
  have "\<exists>w'. connectEstablished (conn_cbs cbs) ?i ?w3 = Inr w'
      \<and> world_inv (st(?i := Opening, ?i := Open)) (queue pre w) w' \<and> others_same ?i ?w3 w'
      \<and> confined (conn_loop (conns ?w3 ?i)) ?w3 w'
      \<and> (\<forall>m. poll_state.more (loops w' m) = poll_state.more (loops ?w3 m)) \<and> cur_thread w' = cur_thread ?w3"
    by (rule established_step[OF alloc_step[OF A] _ cb]) (use empty L(2) in auto)
  then obtain w' where w': "connectEstablished (conn_cbs cbs) ?i ?w3 = Inr w'"
    "world_inv (st(?i := Open)) (queue pre w) w'" "others_same ?i ?w3 w'" "confined io ?w3 w'"
    "\<And>m. poll_state.more (loops w' m) = poll_state.more (loops w m)" "cur_thread w' = cur_thread w"
    unfolding more by auto
  have "queue pre w' = queue pre w" by (rule queue_same) (rule loop_more_fields(8)[OF w'(5)])
  moreover have "untouched ?i w w'" using alloc_untouched[OF A] untouched_others[OF w'(3)] by (rule untouched_trans)
  moreover have "io = srv_loop w" using world_thread[OF inv _ base_in_loops, of io] L(1) io thr by simp
  then have "confined (srv_loop w) w w'" using confined_trans[OF alloc_frame(2)] w'(4) by blast
  ultimately show ?thesis using w'(1,2) polite_more[OF w'(5,6)] by (auto simp: goes_def)
qed

lemma hand_over_far:
  fixes laddr peer :: sockaddr_in
  assumes A: "can_accept st (queue pre w) io p fd w" and io: "threadId (loops w io) \<noteq> cur_thread w"
  defines "w' \<equiv> upd_loop io (queueInLoop (cur_thread w) (ConnectEstablished (next_address w)))
    (allocated io p fd laddr peer w)"
  shows "goes l pre st w (next_address w) Opening w'"
proof -
  let ?i = "next_address w" and ?w3 = "allocated io p fd laddr peer w"
  have v: "same_view ?w3 w'" by (auto simp: w'_def same_view_def server_same_def intro!: loop_viewI)
  have "queue pre w' = (\<lambda>m. queue pre w m @ (if m = io then [ConnectEstablished ?i] else []))"
    by (auto simp: w'_def queue_def fun_eq_iff put_channel_def)
  then have "world_inv (st(?i := Opening)) (queue pre w') w'" using world_inv_view[OF v alloc_step[OF A]] by simp
  moreover have "untouched ?i ?w3 w'" by (simp add: untouched_def server_loops_def w'_def)
  then have "untouched ?i w w'" by (rule untouched_trans[OF alloc_untouched[OF A]])
  moreover have "polite l ?w3 w'" unfolding w'_def
    by (rule polite_queue) (use io in \<open>simp add: put_channel_def\<close>)
  then have "polite l w w'" by (rule polite_trans[OF alloc_frame(3)])
  moreover have "confined l w w'" using alloc_frame(2) confined_queue unfolding w'_def by (rule confined_trans)
  ultimately show ?thesis by (simp add: goes_def)
qed

lemma accept_step:
  assumes inv: "world_inv st (queue pre w) w" and thr: "cur_thread w = threadId (loops w (srv_loop w))"
    and n: "nextConnId w + 1 < 2 ^ 31"
    and acc: "\<And>fd peer. accept_answers w (accepts_done w) = AcceptOk fd peer \<Longrightarrow> \<not> fd_in_use fd w"
  shows "\<exists>w' i x. Acceptor_handleRead (Some (newConnection cbs)) w = Inr w' \<and> st i = Fresh
    \<and> goes (srv_loop w) pre st w i x w'"
proof -
  let ?l = "srv_loop w" and ?w1 = "w\<lparr>accepts_done := Suc (accepts_done w)\<rparr>" and ?i = "next_address w"
  have v1: "same_view w ?w1" by (simp add: same_view_def server_same_def)
  show ?thesis
  proof (cases "accept_answers w (accepts_done w)")
    case (AcceptErr e)
    have "polite ?l w ?w1" by (rule polite_refl) simp_all
    then have "\<exists>i. st i = Fresh \<and> goes ?l pre st w i Fresh ?w1"
      by (intro goes_view[OF inv v1]) (simp_all add: confined_own)
    then show ?thesis using AcceptErr by (auto simp: Acceptor_handleRead_def socket_accept_def)
  next
    case (AcceptOk fd peer)
    have q: "queue pre ?w1 = queue pre w" by (simp add: queue_def fun_eq_iff)
    have "wf_pool (threadPool ?w1)" using inv by (simp add: world_inv_def server_ok_def)
    from getNextLoop_ok[OF this] obtain io p where nx: "getNextLoop (threadPool ?w1) = Inr (io, p)" by blast
    have A: "can_accept st (queue pre ?w1) io p fd ?w1"
      using world_inv_view[OF v1 inv] nx n acc[OF AcceptOk] by (simp add: can_accept_def fd_in_use_def server_loops_def q)
    obtain laddr where "Acceptor_handleRead (Some (newConnection cbs)) w = run_on io (ConnectEstablished ?i)
        (connectEstablished (conn_cbs cbs) ?i) (allocated io p fd laddr peer ?w1)"
      using newConnection_run[OF nx, of cbs fd peer] AcceptOk n
      by (auto simp: Acceptor_handleRead_def socket_accept_def)
    moreover have "\<exists>w' x. run_on io (ConnectEstablished ?i) (connectEstablished (conn_cbs cbs) ?i)
        (allocated io p fd laddr peer ?w1) = Inr w' \<and> goes ?l pre st ?w1 ?i x w'"
      using hand_over_here[OF A, of laddr peer] hand_over_far[OF A, of ?l laddr peer] thr
      by (cases "threadId (loops w io) = cur_thread w")
        (fastforce simp: run_on_def runInLoop_def isInLoopThread_def put_channel_def)+
    moreover have "goes ?l pre st ?w1 i x w' = goes ?l pre st w i x w'" for i x w'
      by (simp add: goes_def untouched_def server_loops_def polite_def confined_def)
    ultimately show ?thesis using fresh_stage[OF inv] by auto
  qed
qed

text \<open>The channels of the wakeup descriptor and of the acceptor.\<close>

lemma read_only_channel:
  "handleEventWithGuard \<lparr>readCallback = Some f, writeCallback = None, closeCallback = None, errorCallback = None\<rparr>
     e t w = (if e AND (EPOLLIN OR EPOLLPRI) \<noteq> 0 then f t w else Inr w)"
  by (cases "f t w") (simp_all add: handleEventWithGuard_def call_if_set_def)

lemma own_channel_step:
  assumes inv: "world_inv st (queue pre w) w" and l: "l \<in> server_loops w" "cur_thread w = threadId (loops w l)"
    and c: "c \<in> own_channels l w" "c \<noteq> timerChannel (loops w l)"
    and calling: "\<not> callingPendingFunctors (loops w l)"
    and n: "c = acceptChannel w \<Longrightarrow> nextConnId w + 1 < 2 ^ 31"
    and acc: "\<And>fd peer. c = acceptChannel w \<Longrightarrow> accept_answers w (accepts_done w) = AcceptOk fd peer
      \<Longrightarrow> \<not> fd_in_use fd w"
  shows "\<exists>w' i x. handle_channel cbs (\<lambda>_. True) l c t w = Inr w' \<and> st i = Fresh \<and> goes l pre st w i x w'"
proof -
  have "own_ok st l w c" using inv l(1) c(1) by (simp add: world_inv_def poller_ok_def)
  then obtain ch where ch: "heap (loops w l) c = Some ch" "\<not> tied ch" by (auto simp: own_ok_def)
  have same: "\<exists>i x. st i = Fresh \<and> goes l pre st w i x w"
    using goes_view[OF inv _ refl refl polite_refl[OF refl refl] confined_own[OF refl refl refl]]
    by (fastforce simp: same_view_def)
  show ?thesis
  proof (cases "c = wakeupChannel (loops w l)")
    case True
    define w' where "w' = upd_loop l (snd \<circ> wakeup_handleRead) w"
    have eq: "handle_channel cbs (\<lambda>_. True) l c t w
        = (if revents ch AND (EPOLLIN OR EPOLLPRI) \<noteq> 0 then Inr w' else Inr w)"
      using ch True by (simp add: handle_channel_def handleEvent_def read_only_channel w'_def)
    have f: "heap (loops w' m) = heap (loops w m)" "registry (loops w' m) = registry (loops w m)"
      "interest (loops w' m) = interest (loops w m)" "threadId (loops w' m) = threadId (loops w m)"
      "wakeupChannel (loops w' m) = wakeupChannel (loops w m)" "timerChannel (loops w' m) = timerChannel (loops w m)"
      "pendingFunctors (loops w' m) = pendingFunctors (loops w m)"
      "callingPendingFunctors (loops w' m) = callingPendingFunctors (loops w m)
        \<and> quit_flag (loops w' m) = quit_flag (loops w m)"
      "m \<noteq> l \<longrightarrow> wakeup_count (loops w' m) = wakeup_count (loops w m)" for m
      by (simp_all add: w'_def wakeup_handleRead_def)
    have "conns w' = conns w" "server_same w w'" "connections w' = connections w"
      by (simp_all add: w'_def server_same_def)
    then have "same_view w w'" unfolding same_view_def by (simp add: loop_viewI f(1-6))
    moreover have "cur_thread w' = cur_thread w" by (simp add: w'_def)
    then have "polite l w w'"
      unfolding polite_def woken_def using f(7-9) calling by metis
    moreover have "confined l w w'" by (rule confined_own) (simp_all add: w'_def)
    ultimately have "\<exists>i. st i = Fresh \<and> goes l pre st w i Fresh w'" by (intro goes_view[OF inv _ f(1,7)])
    then show ?thesis using eq same by (auto split: if_splits)
  next
    case False
    with c have base: "c = acceptChannel w" "l = srv_loop w" by (auto simp: own_channels_def split: if_splits)
    have eq: "handle_channel cbs (\<lambda>_. True) l c t w
        = (if revents ch AND (EPOLLIN OR EPOLLPRI) \<noteq> 0 then Acceptor_handleRead (Some (newConnection cbs)) w
           else Inr w)"
      using ch False base c(2) by (simp add: handle_channel_def handleEvent_def read_only_channel)
    have "cur_thread w = threadId (loops w (srv_loop w))" using l(2) base by simp
    from accept_step[OF inv this n[OF base(1)] acc[OF base(1)]] show ?thesis using eq same base by (auto split: if_splits)
  qed
qed

end

subsection \<open>Waiting\<close>

lemma fill_channels_view:
  assumes "fill_channels evs acc s = Inr (a, s')"
  shows "registry s' = registry s" "poll_state.more s' = poll_state.more s"
    "\<And>c. rel_option similar (heap s c) (heap s' c)" "\<And>c. c \<notin> snd ` set evs \<Longrightarrow> heap s' c = heap s c"
    "a = acc @ map snd evs"
    "\<And>e c. distinct (map snd evs) \<Longrightarrow> (e, c) \<in> set evs \<Longrightarrow> \<exists>ch. heap s' c = Some ch \<and> revents ch = e"
proof -
  have "registry s' = registry s \<and> poll_state.more s' = poll_state.more s
    \<and> (\<forall>c. rel_option similar (heap s c) (heap s' c)) \<and> (\<forall>c. c \<notin> snd ` set evs \<longrightarrow> heap s' c = heap s c)
    \<and> a = acc @ map snd evs
    \<and> (distinct (map snd evs) \<longrightarrow> (\<forall>(e, c) \<in> set evs. \<exists>ch. heap s' c = Some ch \<and> revents ch = e))"
    using assms
  proof (induction evs arbitrary: acc s)
    case Nil
    then show ?case by simp
  next
    case (Cons ev evs)
    obtain e c where ev: "ev = (e, c)" by (cases ev)
    with Cons.prems obtain ch where ch: "heap s c = Some ch"
      and fill: "fill_channels evs (acc @ [c]) (put_channel c (set_revents e ch) s) = Inr (a, s')"
      by (auto split: option.splits)
    let ?s = "put_channel c (set_revents e ch) s"
    have h: "heap ?s d = (if d = c then Some (set_revents e ch) else heap s d)" "registry ?s = registry s"
      "poll_state.more ?s = poll_state.more s" for d
      by (simp_all add: put_channel_def)
    note IH = Cons.IH[OF fill]
    have "rel_option similar (heap s d) (heap s' d)" for d
    proof (cases "d = c")
      case True
      have "rel_option similar (heap ?s c) (heap s' c)" using IH by blast
      then show ?thesis using True ch h(1)[of c] by (auto simp: option_rel_Some1 similar_def)
    next
      case False
      have "rel_option similar (heap ?s d) (heap s' d)" using IH by blast
      then show ?thesis using False h(1)[of d] by simp
    qed
    moreover have "\<exists>x. heap s' d = Some x \<and> revents x = e'"
      if "distinct (map snd (ev # evs))" "(e', d) \<in> set (ev # evs)" for e' d
    proof (cases "(e', d) \<in> set evs")
      case True
      then show ?thesis using IH that(1) by auto
    next
      case False
      with that ev have "d = c" "e' = e" "c \<notin> snd ` set evs" by auto
      then show ?thesis using IH h(1)[of c] by simp
    qed
    ultimately show ?case using IH h ev by auto
  qed
  then show "registry s' = registry s" "poll_state.more s' = poll_state.more s"
    "\<And>c. rel_option similar (heap s c) (heap s' c)" "\<And>c. c \<notin> snd ` set evs \<Longrightarrow> heap s' c = heap s c"
    "a = acc @ map snd evs"
    "\<And>e c. distinct (map snd evs) \<Longrightarrow> (e, c) \<in> set evs \<Longrightarrow> \<exists>ch. heap s' c = Some ch \<and> revents ch = e"
    by auto
qed

lemma ready_events_in:
  assumes "(e, c) \<in> set (ready_events evs s)"
  shows "\<exists>fd ev. (e, fd) \<in> set evs \<and> interest s fd = Some (ev, c)"
  using assms by (fastforce simp: ready_events_def List.map_filter_def dest!: in_set_takeD)

lemma ready_events_distinct:
  assumes wf: "wf_poller s" and "distinct (map snd evs)"
  shows "distinct (map snd (ready_events evs s))"
proof -
  let ?f = "\<lambda>(e, fd). map_option (\<lambda>(_, c). (e, c)) (interest s fd)"
  have same: "fd = fd'" if "interest s fd = Some (ev, c)" "interest s fd' = Some (ev', c)" for fd fd' ev ev' c
    using that wf unfolding wf_poller_def by (metis option.inject)
  have simps: "List.map_filter ?f [] = []"
    "List.map_filter ?f ((e, fd) # evs) = (case interest s fd of None \<Rightarrow> List.map_filter ?f evs
      | Some (ev, c) \<Rightarrow> (e, c) # List.map_filter ?f evs)" for e fd evs
    by (auto simp: List.map_filter_def split: option.splits)
  have "distinct (map snd (List.map_filter ?f evs))" using assms(2)
  proof (induction evs)
    case Nil
    then show ?case by (simp add: simps)
  next
    case (Cons x evs)
    obtain e fd where x: "x = (e, fd)" by (cases x)
    show ?case
    proof (cases "interest s fd")
      case None
      then show ?thesis using Cons by (simp add: x simps)
    next
      case (Some p)
      obtain ev c where p: "p = (ev, c)" by (cases p)
      have "c \<notin> snd ` set (List.map_filter ?f evs)"
      proof
        assume "c \<in> snd ` set (List.map_filter ?f evs)"
        then obtain e' fd' ev' where "(e', fd') \<in> set evs" "interest s fd' = Some (ev', c)"
          by (fastforce simp: List.map_filter_def)
        with same[OF Some[unfolded p]] have "fd \<in> snd ` set evs" by force
        then show False using Cons.prems x by simp
      qed
      then show ?thesis using Cons.IH Cons.prems Some p by (simp add: x simps)
    qed
  qed
  then show ?thesis by (simp add: ready_events_def take_map[symmetric] distinct_take)
qed

lemma poll_view:
  assumes wf: "wf_poller e" and slots: "ans = WaitOk [] \<or> 0 < event_slots e \<and> event_slots e < 2 ^ 31"
  shows "\<exists>a lg e'. poll ans now e = Inr (now, a, lg, e') \<and> wf_poller e'
    \<and> registry e' = registry e \<and> poll_state.more e' = poll_state.more e
    \<and> (\<forall>c. rel_option similar (heap e c) (heap e' c))
    \<and> (case ans of WaitErr _ \<Rightarrow> a = [] | WaitOk evs \<Rightarrow> distinct (map snd evs) \<longrightarrow> distinct a
         \<and> (\<forall>c \<in> set a. \<exists>r fd ev ch. (r, fd) \<in> set evs \<and> interest e fd = Some (ev, c)
              \<and> heap e' c = Some ch \<and> revents ch = r))"
proof (cases ans)
  case (WaitErr n)
  then show ?thesis using poll_error[of e n now] slots wf by simp
next
  case (WaitOk evs)
  have "poll (WaitOk []) now e = Inr (now, [], Some NothingHappened, e)" "ready_events [] e = []"
    by (simp_all add: poll_def ready_events_def List.map_filter_def)
  then obtain e' lg where p: "poll (WaitOk evs) now e = Inr (now, map snd (ready_events evs e), lg, e')" "wf_poller e'"
    using poll_ok[OF wf, of evs now] slots WaitOk wf by (cases "evs = []") auto
  show ?thesis
  proof (cases "ready_events evs e = []")
    case True
    then have "e' = e" using p(1) by (simp add: poll_def)
    then show ?thesis using p True WaitOk by simp
  next
    case False
    then obtain n s1 where "fill_channels (take n (ready_events evs e)) [] e = Inr (map snd (ready_events evs e), s1)"
      "e' = s1 \<or> e' = s1\<lparr>event_slots := event_slots s1 * 2\<rparr>"
      using p(1) by (auto simp: poll_def fillActiveChannels_def Let_def split: if_splits)
    moreover from fill_channels_view(5)[OF this(1)] have "length (take n (ready_events evs e)) = length (ready_events evs e)"
      by (metis append_Nil length_map)
    then have "take n (ready_events evs e) = ready_events evs e" by (simp add: min_def split: if_splits)
    ultimately have fill: "fill_channels (ready_events evs e) [] e = Inr (map snd (ready_events evs e), s1)"
      and e': "e' = s1 \<or> e' = s1\<lparr>event_slots := event_slots s1 * 2\<rparr>" by simp_all
    note v = fill_channels_view[OF fill]
    have "registry e' = registry e" "poll_state.more e' = poll_state.more e" "heap e' = heap s1"
      using e' v(1,2) by auto
    moreover have "\<exists>r fd ev ch. (r, fd) \<in> set evs \<and> interest e fd = Some (ev, c) \<and> heap e' c = Some ch \<and> revents ch = r"
      if d: "distinct (map snd evs)" and c: "c \<in> set (map snd (ready_events evs e))" for c
    proof -
      obtain r where r: "(r, c) \<in> set (ready_events evs e)" using c by auto
      from v(6)[OF ready_events_distinct[OF wf d] r] ready_events_in[OF r] show ?thesis
        using \<open>heap e' = heap s1\<close> by auto
    qed
    ultimately show ?thesis
      using p v(3) WaitOk ready_events_distinct[OF wf] by simp
  qed
qed

text \<open>What \<open>poll\<close> returns are channels of the loop itself and of open connections.\<close>

lemma polled_ready:
  assumes inv: "world_inv st Q w" and l: "l \<in> server_loops w"
    and c: "interest (loops w l) fd = Some (ev, c)" "registry (loops w l) fd \<noteq> Some (timerChannel (loops w l))"
    and ch: "heap (loops w' l) c = Some ch" "sane_events (revents ch)"
    and same: "conns w' = conns w" "own_channels l w' = own_channels l w" "timerChannel (loops w' l) = timerChannel (loops w l)"
  shows "ready_ok st l w' c"
proof -
  have wf: "wf_poller (loops w l)" using world_wf[OF inv l] .
  have reg: "registry (loops w l) fd = Some c" by (rule interest_registry[OF wf c(1)])
  obtain ch0 where ch0: "heap (loops w l) c = Some ch0" "index ch0 = kAdded"
    using wf c(1) unfolding wf_poller_def by blast
  have "c \<in> own_channels l w \<or> (\<exists>i. c = Suc i \<and> st i \<noteq> Fresh \<and> conn_loop (conns w i) = l)"
    using inv l ch0(1) domI[of "heap (loops w l)" c] unfolding world_inv_def poller_ok_def by blast
  then show ?thesis
  proof
    assume "c \<in> own_channels l w"
    then show ?thesis using reg c(2) by (auto simp: ready_ok_def same)
  next
    assume "\<exists>i. c = Suc i \<and> st i \<noteq> Fresh \<and> conn_loop (conns w i) = l"
    then obtain i where i: "c = Suc i" "st i \<noteq> Fresh" "conn_loop (conns w i) = l" by blast
    have "conn_ok (st i) i w" using inv by (simp add: world_inv_def)
    then have "stage_ok (st i) i w ch0" using i ch0(1) by (simp add: conn_ok_def)
    then have "st i = Open" using i(2) ch0(2) by (cases "st i") (auto simp: index_defs)
    then show ?thesis using i ch by (auto simp: ready_ok_def same)
  qed
qed

subsection \<open>The turns of a loop\<close>

lemma todo_queue: "todo s = queue (swapped s) (srv s)"
  by (simp add: todo_def queue_def fun_eq_iff)

lemma threads_world:
  assumes "threads_inv st s"
  shows "world_inv st (queue (swapped s) ((srv s)\<lparr>cur_thread := t\<rparr>)) ((srv s)\<lparr>cur_thread := t\<rparr>)"
proof -
  have "queue (swapped s) ((srv s)\<lparr>cur_thread := t\<rparr>) = todo s" by (simp add: todo_def queue_def fun_eq_iff)
  then show ?thesis using assms by (simp add: threads_inv_def)
qed

lemma ready_ok_untouched:
  assumes "ready_ok st m w c" and un: "untouched i w w'" and "st i = Open \<Longrightarrow> c \<noteq> Suc i"
  shows "ready_ok (st(i := x)) m w' c"
proof (cases "c \<in> own_channels m w \<and> c \<noteq> timerChannel (loops w m)")
  case True
  then show ?thesis using own_channels_untouched[OF un] un by (simp add: ready_ok_def untouched_def)
next
  case False
  with assms(1) obtain j ch where j: "c = Suc j" "st j = Open" "conn_loop (conns w j) = m"
    "heap (loops w m) c = Some ch" "sane_events (revents ch)" by (auto simp: ready_ok_def)
  have "j \<noteq> i" using assms(3) j(1,2) by auto
  then have "conns w' j = conns w j" "heap (loops w' m) c = heap (loops w m) c"
    using un j(1) by (simp_all add: untouched_def)
  then show ?thesis using j \<open>j \<noteq> i\<close> by (simp add: ready_ok_def)
qed

text \<open>A loop whose thread does nothing stays where it is.\<close>

lemma pos_ok_other:
  assumes pos: "pos_ok st m w p" and un: "untouched i w w'" and i: "st i = Open \<Longrightarrow> conn_loop (conns w i) \<noteq> m"
    and pol: "callingPendingFunctors (loops w' m) = callingPendingFunctors (loops w m)"
      "woken (loops w m) \<Longrightarrow> woken (loops w' m)"
    and own: "\<And>c. c \<in> own_channels m w \<Longrightarrow> c \<noteq> Suc i \<or> st i = Fresh"
  shows "pos_ok (st(i := x)) m w' p"
proof (cases p)
  case (Handling cs t)
  have "ready_ok (st(i := x)) m w' c" if "c \<in> set cs" for c
  proof (rule ready_ok_untouched[OF _ un])
    show r: "ready_ok st m w c" using pos Handling that by simp
    show "c \<noteq> Suc i" if "st i = Open" using r i own[of c] that by (auto simp: ready_ok_def)
  qed
  then show ?thesis using pos pol Handling by simp
qed (use pos pol in auto)

lemma not_own: "world_inv st Q w \<Longrightarrow> m \<in> server_loops w \<Longrightarrow> c \<in> own_channels m w \<Longrightarrow> c \<noteq> Suc i \<or> st i = Fresh"
  unfolding world_inv_def poller_ok_def own_ok_def by blast

lemma threads_invI:
  assumes T: "threads_inv st s" and W: "world_inv (st(i := x)) (todo s') (srv s')"
    and un: "untouched i (srv s) (srv s')" and i: "st i = Open \<Longrightarrow> conn_loop (conns (srv s) i) = l"
    and pol: "\<And>m. m \<noteq> l \<Longrightarrow> callingPendingFunctors (loops (srv s') m) = callingPendingFunctors (loops (srv s) m)
      \<and> (woken (loops (srv s) m) \<longrightarrow> woken (loops (srv s') m))"
    and at: "\<And>m. m \<noteq> l \<Longrightarrow> loop_at s' m = loop_at s m"
    and pos: "l \<in> server_loops (srv s) \<Longrightarrow> pos_ok (st(i := x)) l (srv s') (loop_at s' l)"
  shows "threads_inv (st(i := x)) s'"
proof -
  have "pos_ok (st(i := x)) m (srv s') (loop_at s' m)" if m: "m \<in> server_loops (srv s)" for m
  proof (cases "m = l")
    case True
    then show ?thesis using pos m by simp
  next
    case False
    have "pos_ok (st(i := x)) m (srv s') (loop_at s m)"
    proof (rule pos_ok_other[OF _ un])
      show "pos_ok st m (srv s) (loop_at s m)" using T m by (simp add: threads_inv_def)
      show "c \<noteq> Suc i \<or> st i = Fresh" if "c \<in> own_channels m (srv s)" for c
        using not_own[OF _ m that] T by (auto simp: threads_inv_def)
    qed (use i pol[OF False] False in auto)
    then show ?thesis using at[OF False] by simp
  qed
  moreover have "server_loops (srv s') = server_loops (srv s)" using un by (simp add: untouched_def)
  ultimately show ?thesis using W by (simp add: threads_inv_def)
qed

text \<open>A call made by the thread of a loop, which moves on to \<open>p\<close>.\<close>

lemma threads_goes:
  assumes T: "threads_inv st s" and g: "goes l pre st ((srv s)\<lparr>cur_thread := t\<rparr>) i x w'"
    and i: "st i = Open \<Longrightarrow> conn_loop (conns (srv s) i) = l"
    and s': "s' = s\<lparr>srv := w', loop_at := (loop_at s)(l := p)\<rparr>" and pre: "pre = swapped s'"
    and pos: "l \<in> server_loops (srv s) \<Longrightarrow> pos_ok (st(i := x)) l w' p"
  shows "threads_inv (st(i := x)) s'"
proof (rule threads_invI[OF T _ _ i])
  show "world_inv (st(i := x)) (todo s') (srv s')"
    using g unfolding todo_queue goes_def pre s' by simp
  have "server_loops ((srv s)\<lparr>cur_thread := t\<rparr>) = server_loops (srv s)" by (simp add: server_loops_def)
  then show "untouched i (srv s) (srv s')" using g by (simp add: goes_def s' untouched_def)
  show "callingPendingFunctors (loops (srv s') m) = callingPendingFunctors (loops (srv s) m)
    \<and> (woken (loops (srv s) m) \<longrightarrow> woken (loops (srv s') m))" if "m \<noteq> l" for m
    using g that by (simp add: goes_def s' polite_def)
qed (use pos in \<open>simp_all add: s'\<close>)

lemma swapped_at [simp]:
  "swapped (s\<lparr>srv := w, loop_at := (loop_at s)(l := p)\<rparr>) = (swapped s)(l := (case p of Calling fs \<Rightarrow> fs | _ \<Rightarrow> []))"
  by (simp add: swapped_def fun_eq_iff)

text \<open>A turn that changes only the loop itself.\<close>

lemma threads_own_turn:
  assumes T: "threads_inv st s" and v: "same_view (srv s) w'"
    and far: "\<And>m. m \<noteq> l \<Longrightarrow> loops w' m = loops (srv s) m"
    and todo: "todo s' = todo s" and s': "s' = s\<lparr>srv := w', loop_at := (loop_at s)(l := p)\<rparr>"
    and pos: "l \<in> server_loops (srv s) \<Longrightarrow> pos_ok st l w' p"
  shows "threads_inv st s'"
proof -
  have f: "conns w' = conns (srv s)" "server_loops w' = server_loops (srv s)"
    using v server_same_loops[of "srv s" w'] by (simp_all add: same_view_def)
  have "pos_ok st m w' (loop_at s' m)" if m: "m \<in> server_loops (srv s)" for m
  proof (cases "m = l")
    case True
    then show ?thesis using pos m s' by simp
  next
    case False
    have "ready_ok st m w' c = ready_ok st m (srv s) c" for c
      using far[OF False] view_own_channels[OF v] by (simp add: ready_ok_def f)
    then have "pos_ok st m w' p = pos_ok st m (srv s) p" for p
      using far[OF False] by (cases p) simp_all
    then show ?thesis using T m False by (simp add: s' threads_inv_def)
  qed
  moreover have "world_inv st (todo s') w'"
    using world_inv_view[OF v] T todo by (simp add: threads_inv_def)
  ultimately show ?thesis by (simp add: threads_inv_def s' f)
qed

text \<open>Waiting in \<open>poll\<close>.\<close>

lemma polling_turn:
  assumes T: "threads_inv st s" and l: "l \<in> server_loops (srv s)" and at: "loop_at s l = Polling"
    and sane: "sane_wait ans l (srv s)"
  shows "\<exists>s'. loop_turn cbs ok l ans now s = Inr s' \<and> threads_inv st s' \<and> confined l (srv s) (srv s')"
proof (cases "quit_flag (loops (srv s) l)")
  case True
  then show ?thesis using T at by (simp add: loop_turn_def confined_own)
next
  case False
  let ?w = "(srv s)\<lparr>cur_thread := threadId (loops (srv s) l)\<rparr>" and ?e = "loops (srv s) l"
  have W: "world_inv st (todo s) (srv s)" using T by (simp add: threads_inv_def)
  have wf: "wf_poller ?e" using world_wf[OF W l] .
  have slots: "ans = WaitOk [] \<or> 0 < event_slots ?e \<and> event_slots ?e < 2 ^ 31"
    using sane by (auto simp: sane_wait_def)
  from poll_view[OF wf slots, of now]
  obtain a lg e' where e': "poll ans now ?e = Inr (now, a, lg, e')" "wf_poller e'" "registry e' = registry ?e"
    "poll_state.more e' = poll_state.more ?e" "\<And>c. rel_option similar (heap ?e c) (heap e' c)"
    "case ans of WaitErr _ \<Rightarrow> a = [] | WaitOk evs \<Rightarrow> distinct (map snd evs) \<longrightarrow> distinct a
         \<and> (\<forall>c \<in> set a. \<exists>r fd ev ch. (r, fd) \<in> set evs \<and> interest ?e fd = Some (ev, c)
              \<and> heap e' c = Some ch \<and> revents ch = r)"
    by (elim exE conjE) blast
  note lm = loop_more_fields[OF e'(4)]
  define w' where "w' = upd_loop l (\<lambda>_. e'\<lparr>activeChannels := a, pollReturnTime := now\<rparr>) ?w"
  define s' where "s' = s\<lparr>srv := w', loop_at := (loop_at s)(l := Handling a now)\<rparr>"
  have eq: "loop_turn cbs ok l ans now s = Inr s'"
    using at e'(1) False by (simp add: loop_turn_def s'_def w'_def)
  have far: "loops w' m = loops (srv s) m" if "m \<noteq> l" for m using that by (simp add: w'_def)
  have here: "loops w' l = e'\<lparr>activeChannels := a, pollReturnTime := now\<rparr>" by (simp add: w'_def)
  have cn: "conns w' = conns (srv s)" by (simp add: w'_def)
  have "loop_view (loops (srv s) m) (loops w' m)" for m
    using far[of m] here e'(2,3,5) lm wf_poller_cong[of "loops w' l" e']
    by (cases "m = l") (simp_all add: loop_view_def)
  then have v: "same_view (srv s) w'"
    by (simp add: same_view_def cn) (simp add: w'_def server_same_def)
  have "ready_ok st l w' c" if c: "c \<in> set a" for c
  proof -
    obtain evs where evs: "ans = WaitOk evs" using e'(6) c by (cases ans) auto
    then obtain r fd ev ch where r: "(r, fd) \<in> set evs" "interest ?e fd = Some (ev, c)" "heap e' c = Some ch"
      "revents ch = r" using e'(6) sane c unfolding sane_wait_def by auto
    have "sane_events r" "registry ?e fd \<noteq> Some (timerChannel ?e)" using sane evs r(1) by (auto simp: sane_wait_def)
    then show ?thesis
      using polled_ready[OF W l r(2), of w' ch] r(3,4) here cn view_own_channels[OF v] lm by simp
  qed
  moreover have "distinct a" using e'(6) sane by (cases ans) (auto simp: sane_wait_def)
  moreover have "\<not> callingPendingFunctors (loops w' l)"
    using T l at lm here unfolding threads_inv_def by fastforce
  ultimately have "pos_ok st l w' (Handling a now)" by simp
  moreover have "pendingFunctors (loops w' m) = pendingFunctors (loops (srv s) m)" for m
    using far[of m] here lm by (cases "m = l") simp_all
  then have "todo s' = todo s"
    using at by (simp add: todo_def s'_def fun_eq_iff) (simp add: swapped_def)
  moreover have "confined l (srv s) (srv s')" by (rule confined_own) (simp_all add: s'_def w'_def)
  ultimately show ?thesis using eq threads_own_turn[OF T v far _ s'_def] by blast
qed

text \<open>The two critical sections around the functors.\<close>

lemma swap_turn:
  assumes T: "threads_inv st s" and l: "l \<in> server_loops (srv s)" and at: "loop_at s l = Handling [] t"
  shows "\<exists>s'. loop_turn cbs ok l ans now s = Inr s' \<and> threads_inv st s' \<and> confined l (srv s) (srv s')"
proof -
  let ?w = "(srv s)\<lparr>cur_thread := threadId (loops (srv s) l)\<rparr>"
  define w' where "w' = upd_loop l (\<lambda>e. e\<lparr>callingPendingFunctors := True, pendingFunctors := []\<rparr>) ?w"
  define s' where "s' = s\<lparr>srv := w', loop_at := (loop_at s)(l := Calling (pendingFunctors (loops (srv s) l)))\<rparr>"
  have eq: "loop_turn cbs ok l ans now s = Inr s'" using at by (simp add: loop_turn_def s'_def w'_def)
  have v: "same_view (srv s) w'"
    by (auto simp: same_view_def w'_def server_same_def intro!: loop_viewI)
  have far: "loops w' m = loops (srv s) m" if "m \<noteq> l" for m using that by (simp add: w'_def)
  have "todo s' = todo s"
    using at by (auto simp: todo_def s'_def fun_eq_iff w'_def) (simp_all add: swapped_def)
  moreover have "pos_ok st l w' (Calling (pendingFunctors (loops (srv s) l)))" by (simp add: w'_def woken_def)
  moreover have "confined l (srv s) (srv s')" by (rule confined_own) (simp_all add: s'_def w'_def)
  ultimately show ?thesis using eq threads_own_turn[OF T v far _ s'_def] by blast
qed

lemma round_end_turn:
  assumes T: "threads_inv st s" and l: "l \<in> server_loops (srv s)" and at: "loop_at s l = Calling []"
  shows "\<exists>s'. loop_turn cbs ok l ans now s = Inr s' \<and> threads_inv st s' \<and> confined l (srv s) (srv s')"
proof -
  let ?w = "(srv s)\<lparr>cur_thread := threadId (loops (srv s) l)\<rparr>"
  define w' where "w' = upd_loop l (\<lambda>e. e\<lparr>callingPendingFunctors := False\<rparr>) ?w"
  define s' where "s' = s\<lparr>srv := w', loop_at := (loop_at s)(l := Polling)\<rparr>"
  have eq: "loop_turn cbs ok l ans now s = Inr s'" using at by (simp add: loop_turn_def s'_def w'_def)
  have v: "same_view (srv s) w'"
    by (auto simp: same_view_def w'_def server_same_def intro!: loop_viewI)
  have far: "loops w' m = loops (srv s) m" if "m \<noteq> l" for m using that by (simp add: w'_def)
  have "todo s' = todo s"
    using at by (auto simp: todo_def s'_def fun_eq_iff w'_def) (simp_all add: swapped_def)
  moreover have "pos_ok st l (srv s) (Calling [])" using T l at by (auto simp: threads_inv_def)
  then have "pos_ok st l w' Polling" by (simp add: w'_def woken_def)
  moreover have "confined l (srv s) (srv s')" by (rule confined_own) (simp_all add: s'_def w'_def)
  ultimately show ?thesis using eq threads_own_turn[OF T v far _ s'_def] by blast
qed

subsection \<open>The end of a connection\<close>

lemma functor_holds_conn: "functor_holds f = Some i \<longleftrightarrow> conn_of f = Some i \<and> \<not> is_data f"
  by (cases f) auto

text \<open>The pointers in the queues: at most one, in the loop where the connection is awaited.\<close>

lemma queued_owner:
  assumes T: "threads_inv st s" and l: "l \<in> server_loops (srv s)"
  shows "(\<exists>f \<in> set (todo s l). functor_holds f = Some i)
    \<longleftrightarrow> awaited (st i) i (conn_loop (conns (srv s) i)) (srv_loop (srv s)) l \<noteq> []"
    and "f \<in> set (todo s l) \<Longrightarrow> functor_holds f = Some i
      \<Longrightarrow> [f] = awaited (st i) i (conn_loop (conns (srv s) i)) (srv_loop (srv s)) l"
proof -
  let ?a = "awaited (st i) i (conn_loop (conns (srv s) i)) (srv_loop (srv s)) l"
  have W: "world_inv st (todo s) (srv s)" using T by (simp add: threads_inv_def)
  obtain ds where ds: "about i (todo s l) = ds @ ?a" "\<forall>f \<in> set ds. is_data f"
    using world_queue(1)[OF W l, of i] by (auto simp: queue_ok_def)
  have a: "?a = [] \<or> (\<exists>f. ?a = [f] \<and> functor_holds f = Some i)" by (cases "st i") auto
  have mem: "f \<in> set (about i (todo s l)) \<longleftrightarrow> f \<in> set (todo s l) \<and> conn_of f = Some i" for f
    by (auto simp: about_def)
  have held: "f \<in> set (todo s l) \<and> functor_holds f = Some i \<longleftrightarrow> f \<in> set ?a" for f
    using mem[of f] ds a unfolding functor_holds_conn by auto
  then show "(\<exists>f \<in> set (todo s l). functor_holds f = Some i) \<longleftrightarrow> ?a \<noteq> []" by (metis list.set_intros(1) neq_Nil_conv list.set(1) empty_iff)
  show "[f] = ?a" if "f \<in> set (todo s l)" "functor_holds f = Some i"
    using held[of f] that a by auto
qed

lemma owned_live:
  assumes T: "threads_inv st s"
  shows "owned i s \<longleftrightarrow> live (st i)"
proof -
  have W: "world_inv st (todo s) (srv s)" using T by (simp add: threads_inv_def)
  have map: "connections (srv s) (conn_name (conns (srv s) i)) = Some i \<longleftrightarrow> in_map (st i)"
    using W by (simp add: world_inv_def map_ok_def)
  have q: "(\<exists>f \<in> set (todo s l). functor_holds f = Some i)
      \<longleftrightarrow> awaited (st i) i (conn_loop (conns (srv s) i)) (srv_loop (srv s)) l \<noteq> []"
    if "l \<in> server_loops (srv s)" for l using queued_owner(1)[OF T that] .
  show ?thesis
  proof (cases "st i = Dying")
    case True
    then have "conn_loop (conns (srv s) i) \<in> server_loops (srv s)" using world_conn(3)[OF W, of i] by (simp add: live_def)
    then show ?thesis using True q unfolding owned_def by (force simp: live_def)
  next
    case False
    then show ?thesis using map q unfolding owned_def by (cases "st i") (auto simp: live_def in_map_def)
  qed
qed

lemma channel_of_loop:
  assumes T: "threads_inv st s" and l: "l \<in> server_loops (srv s)"
    and c: "heap (loops (srv s) l) c = Some ch" "c \<notin> own_channels l (srv s)"
  shows "\<exists>i. c = Suc i \<and> conn_loop (conns (srv s) i) = l \<and> conn_channel (conns (srv s) i) = c
    \<and> (owned i s \<or> index ch = kNew)"
proof -
  have W: "world_inv st (todo s) (srv s)" using T by (simp add: threads_inv_def)
  then have "poller_ok st l (srv s)" using l by (simp add: world_inv_def)
  then obtain i where i: "c = Suc i" "st i \<noteq> Fresh" "conn_loop (conns (srv s) i) = l"
    using c by (auto simp: poller_ok_def dom_def)
  have "conn_ok (st i) i (srv s)" using W by (simp add: world_inv_def)
  then have "conn_channel (conns (srv s) i) = Suc i" "stage_ok (st i) i (srv s) ch"
    using i c(1) by (auto simp: conn_ok_def)
  then show ?thesis using i owned_live[OF T, of i] by (cases "st i") (auto simp: live_def)
qed

text \<open>A connection that nobody owns can be destroyed, in any thread: its channel is not registered.\<close>

lemma release_turn:
  assumes T: "threads_inv st s" and own: "\<not> owned i s" and ex: "stands i (srv s)"
  shows "\<exists>w'. TcpConnection_destroy i ((srv s)\<lparr>cur_thread := t\<rparr>) = Inr w' \<and> threads_inv st (s\<lparr>srv := w'\<rparr>)
    \<and> closed_fds w' = closed_fds (srv s) @ [sockfd (conns (srv s) i)] \<and> conns w' = conns (srv s)
    \<and> connections w' = connections (srv s) \<and> server_loops w' = server_loops (srv s)
    \<and> todo (s\<lparr>srv := w'\<rparr>) = todo s \<and> (\<forall>j. stands j w' \<longleftrightarrow> stands j (srv s) \<and> j \<noteq> i)"
proof -
  let ?l = "conn_loop (conns (srv s) i)" and ?w = "(srv s)\<lparr>cur_thread := t\<rparr>" and ?fd = "sockfd (conns (srv s) i)"
  have W: "world_inv st (todo s) (srv s)" using T by (simp add: threads_inv_def)
  obtain ch where ch: "?l \<in> server_loops (srv s)" "heap (loops (srv s) ?l) (Suc i) = Some ch"
    "Suc i \<notin> own_channels ?l (srv s)" using ex by (auto simp: stands_def Let_def)
  have i: "conn_channel (conns (srv s) i) = Suc i" "index ch = kNew"
    using channel_of_loop[OF T ch] own by auto
  have wf: "wf_poller (loops (srv s) ?l)" using world_wf[OF W ch(1)] .
  define w' where "w' = Socket_destroy ?fd
    (upd_loop ?l (\<lambda>_. (loops (srv s) ?l)\<lparr>heap := (heap (loops (srv s) ?l))(Suc i := None)\<rparr>) ?w)"
  have run: "TcpConnection_destroy i ?w = Inr w'"
    using Channel_destroy_ok(1)[OF wf ch(2) i(2), of t] i(1)
    by (simp add: TcpConnection_destroy_def on_loop_def w'_def)
  have lp: "loops w' m = (if m = ?l then (loops (srv s) ?l)\<lparr>heap := (heap (loops (srv s) ?l))(Suc i := None)\<rparr>
      else loops (srv s) m)" for m by (simp add: w'_def Socket_destroy_def)
  have f: "conns w' = conns (srv s)" "server_loops w' = server_loops (srv s)" "next_address w' = next_address (srv s)"
    "connections w' = connections (srv s)" "srv_loop w' = srv_loop (srv s)" "acceptChannel w' = acceptChannel (srv s)"
    "threadPool w' = threadPool (srv s)" "names_inv w' = names_inv (srv s)"
    by (simp_all add: w'_def Socket_destroy_def server_loops_def names_inv_def)
  have same: "wakeupChannel (loops w' m) = wakeupChannel (loops (srv s) m)"
    "timerChannel (loops w' m) = timerChannel (loops (srv s) m)" "threadId (loops w' m) = threadId (loops (srv s) m)"
    "registry (loops w' m) = registry (loops (srv s) m)" "pendingFunctors (loops w' m) = pendingFunctors (loops (srv s) m)"
    "callingPendingFunctors (loops w' m) = callingPendingFunctors (loops (srv s) m)"
    "wakeup_count (loops w' m) = wakeup_count (loops (srv s) m)" for m
    by (simp_all add: lp)
  have hp: "heap (loops w' m) c = (if m = ?l \<and> c = Suc i then None else heap (loops (srv s) m) c)" for m c
    by (simp add: lp)
  have own': "own_channels m w' = own_channels m (srv s)" for m by (simp add: own_channels_def same f)
  have gone: "st i = Gone"
  proof -
    have ck: "conn_ok (st i) i (srv s)" and pk: "poller_ok st ?l (srv s)" using W ch(1) by (simp_all add: world_inv_def)
    have "st i \<noteq> Fresh" using pk ch(2,3) domI[of "heap (loops (srv s) ?l)" "Suc i"] by (auto simp: poller_ok_def)
    then show ?thesis using own owned_live[OF T, of i] by (cases "st i") (auto simp: live_def)
  qed
  have wf': "wf_poller (loops w' m)" if "m \<in> server_loops (srv s)" for m
    using world_wf[OF W that] Channel_destroy_ok(2)[OF wf ch(2) i(2)] by (simp add: lp)
  have "conn_ok (st j) j w'" for j
  proof (cases "j = i")
    case True
    have "conn_ok Gone i (srv s)" using W gone by (metis world_inv_def)
    then show ?thesis using True ch(2) by (simp add: conn_ok_def gone f hp)
  next
    case False
    have "conn_ok (st j) j (srv s)" using W by (simp add: world_inv_def)
    then show ?thesis by (rule conn_ok_cong) (use False wf' in \<open>simp_all add: f hp same\<close>)
  qed
  moreover have "poller_ok st m w'" if m: "m \<in> server_loops (srv s)" for m
  proof -
    have pk: "poller_ok st m (srv s)" using W m by (simp add: world_inv_def)
    have "own_ok st m w' c" if "own_ok st m (srv s) c" for c
      using that gone by (auto simp: own_ok_def f hp)
    moreover have "c \<in> dom (heap (loops (srv s) m))" if "c \<in> dom (heap (loops w' m))" for c
      using that by (auto simp: hp split: if_splits)
    ultimately show ?thesis using pk wf'[OF m] unfolding poller_ok_def own' f by blast
  qed
  moreover have "server_ok w'" "map_ok st w'" "fds_ok st w'" "queues_ok st (todo s) w'"
    using W by (simp_all add: world_inv_def server_ok_def map_ok_def fds_ok_def queues_ok_def f same)
  ultimately have "world_inv st (todo s) w'" by (simp add: world_inv_def f)
  moreover have td: "todo (s\<lparr>srv := w'\<rparr>) = todo s" by (simp add: todo_def swapped_def same fun_eq_iff)
  moreover have "pos_ok st m w' p" if "pos_ok st m (srv s) p" for m p
  proof -
    have "ready_ok st m w' c" if "ready_ok st m (srv s) c" for c
      using that gone by (auto simp: ready_ok_def own' same f hp)
    then show ?thesis using that by (cases p) (simp_all add: same woken_def)
  qed
  ultimately have "threads_inv st (s\<lparr>srv := w'\<rparr>)" using T by (simp add: threads_inv_def f)
  moreover have "closed_fds w' = closed_fds (srv s) @ [?fd]" by (simp add: w'_def Socket_destroy_def)
  moreover have "stands j w' \<longleftrightarrow> stands j (srv s) \<and> j \<noteq> i" for j
    by (auto simp: stands_def Let_def f hp own')
  ultimately show ?thesis using run td f(1,2,4) by blast
qed

subsection \<open>Every step\<close>

text \<open>The threads of the loops stay, and the call was made by that of loop \<open>l\<close>.\<close>

definition in_thread :: "nat \<Rightarrow> thread_state \<Rightarrow> thread_state \<Rightarrow> bool" where
  "in_thread l s s' \<longleftrightarrow> cur_thread (srv s') = threadId (loops (srv s) l)
     \<and> (\<forall>m. threadId (loops (srv s') m) = threadId (loops (srv s) m))
     \<and> server_loops (srv s') = server_loops (srv s)"

text \<open>
  What steps leave alone that end no connection but perhaps those in \<open>A\<close>: a connection that is closing
  stays on its way and an open one open, name, loop and descriptor stay, no channel is freed, no
  descriptor is closed, the loops keep their flags and what they can report at once, and no call of
  another thread goes on.
\<close>

definition carried :: "nat set \<Rightarrow> (nat \<Rightarrow> stage) \<Rightarrow> thread_state \<Rightarrow> (nat \<Rightarrow> stage) \<Rightarrow> thread_state \<Rightarrow> bool" where
  "carried A st s st' s' \<longleftrightarrow> closed_fds (srv s') = closed_fds (srv s) \<and> in_call s' = in_call s
     \<and> (\<forall>m. quit_flag (loops (srv s') m) = quit_flag (loops (srv s) m)
          \<and> event_slots (loops (srv s') m) = event_slots (loops (srv s) m))
     \<and> (\<forall>j. (closing (st j) \<longrightarrow> closing (st' j)) \<and> (j \<notin> A \<and> staying (st j) \<longrightarrow> staying (st' j))
          \<and> same_identity (conns (srv s) j) (conns (srv s') j)
          \<and> (heap (loops (srv s) (conn_loop (conns (srv s) j))) (Suc j) \<noteq> None \<longrightarrow>
               heap (loops (srv s') (conn_loop (conns (srv s) j))) (Suc j) \<noteq> None))"

lemma carried_trans: "carried A st a st1 b \<Longrightarrow> carried A st1 b st2 c \<Longrightarrow> carried A st a st2 c"
  unfolding carried_def same_identity_def by simp

lemma carried_none: "carried {} st s st' s' \<Longrightarrow> carried A st s st' s'"
  by (simp add: carried_def)

lemma carried_own:
  assumes "closed_fds (srv s') = closed_fds (srv s)" and "in_call s' = in_call s" and "conns (srv s') = conns (srv s)"
    and "\<And>m. quit_flag (loops (srv s') m) = quit_flag (loops (srv s) m)"
    and "\<And>m. event_slots (loops (srv s') m) = event_slots (loops (srv s) m)"
    and "\<And>m. heap (loops (srv s') m) = heap (loops (srv s) m)"
  shows "carried A st s st s'"
  using assms by (simp add: carried_def)

lemma carried_steps:
  assumes g: "steps_to l pre st ((srv s)\<lparr>cur_thread := t\<rparr>) i x (srv s')" and "closing (st i) \<Longrightarrow> closing x"
    and "i \<notin> A \<Longrightarrow> staying (st i) \<Longrightarrow> staying x"
    and "heap (loops (srv s') (conn_loop (conns (srv s) i))) (Suc i) \<noteq> None" and "in_call s' = in_call s"
  shows "carried A st s (st(i := x)) s'"
proof -
  have o: "others_same i ((srv s)\<lparr>cur_thread := t\<rparr>) (srv s')" and p: "polite l ((srv s)\<lparr>cur_thread := t\<rparr>) (srv s')"
    using g by (simp_all add: steps_to_def)
  have "same_identity (conns (srv s) j) (conns (srv s') j)" for j
    using o by (cases "j = i") (simp_all add: others_same_def)
  moreover have "heap (loops (srv s') m) (Suc j) = heap (loops (srv s) m) (Suc j)" if "j \<noteq> i" for m j
    using o that by (simp add: others_same_def)
  ultimately show ?thesis
    using o p assms(2-5) by (simp add: carried_def others_same_def server_same_def polite_def)
qed

text \<open>The one kind of step that may fail: an event of a connection in the map, whose handlers overrun a buffer.\<close>

definition overrun_turn :: "server_world server_callbacks \<Rightarrow> thread_event \<Rightarrow> thread_state \<Rightarrow> bool" where
  "overrun_turn cbs ev s \<longleftrightarrow> (\<exists>l ans now i cs t ch. ev = RunLoop l ans now
     \<and> loop_at s l = Handling (Suc i # cs) t \<and> conn_loop (conns (srv s) i) = l
     \<and> connections (srv s) (conn_name (conns (srv s) i)) = Some i
     \<and> heap (loops (srv s) l) (Suc i) = Some ch
     \<and> overrun cbs i t (handlers_for (revents ch)) ((srv s)\<lparr>cur_thread := threadId (loops (srv s) l)\<rparr>))"

context local_callbacks
begin

lemma functor_turn:
  assumes T: "threads_inv st s" and l: "l \<in> server_loops (srv s)" and at: "loop_at s l = Calling (f # fs)"
  shows "\<exists>s' i x. loop_turn cbs ok l ans now s = Inr s' \<and> threads_inv (st(i := x)) s' \<and> confined l (srv s) (srv s')
    \<and> adds f (conn_loop (conns (srv s) i)) (srv s) (srv s') \<and> loop_at s' = (loop_at s)(l := Calling fs)
    \<and> server_loops (srv s') = server_loops (srv s) \<and> carried {} st s (st(i := x)) s' \<and> in_thread l s s'"
proof -
  let ?w = "(srv s)\<lparr>cur_thread := threadId (loops (srv s) l)\<rparr>" and ?pre = "(swapped s)(l := fs)"
  have "swapped s l = f # fs" using at by (simp add: swapped_def)
  then have "?pre(l := f # ?pre l) = swapped s" by (auto simp: fun_eq_iff)
  moreover have "world_inv st (queue (swapped s) ?w) ?w"
    using T by (rule threads_world)
  ultimately have W: "world_inv st (queue (?pre(l := f # ?pre l)) ?w) ?w" by simp
  have pos: "callingPendingFunctors (loops ?w l)" "woken (loops ?w l)" using T l at by (auto simp: threads_inv_def)
  have "l \<in> server_loops ?w" using l by (simp add: server_loops_def)
  from functor_step[OF W this _ pos(1), of ok] obtain w' i x where
    w': "exec_functor cbs ok f ?w = Inr w'" "steps_to l ?pre st ?w i x w'" "st i = Open \<longrightarrow> conn_loop (conns ?w i) = l"
    "adds f (conn_loop (conns ?w i)) ?w w'" "closing (st i) \<longrightarrow> closing x" "staying (st i) \<longrightarrow> staying x"
    "heap (loops w' (conn_loop (conns ?w i))) (Suc i) \<noteq> None"
    by auto
  define s' where "s' = s\<lparr>srv := w', loop_at := (loop_at s)(l := Calling fs)\<rparr>"
  have "pos_ok (st(i := x)) l w' (Calling fs)" using w'(2) pos by (simp add: steps_to_def polite_def)
  then have "threads_inv (st(i := x)) s'"
    using threads_goes[OF T goes_steps[OF w'(2)] _ s'_def] w'(3) by (simp add: s'_def)
  moreover have "loop_turn cbs ok l ans now s = Inr s'" using at w'(1) by (simp add: loop_turn_def s'_def)
  moreover have "confined l (srv s) (srv s')" using w'(2) by (simp add: steps_to_def confined_def s'_def)
  moreover have "adds f (conn_loop (conns (srv s) i)) (srv s) (srv s')" using w'(4) by (simp add: adds_def s'_def)
  moreover have "untouched i ?w w'" using w'(2) untouched_others by (simp add: steps_to_def)
  then have "server_loops w' = server_loops ?w" by (simp add: untouched_def)
  then have "server_loops w' = server_loops (srv s)" by (simp add: server_loops_def)
  moreover have "carried {} st s (st(i := x)) s'"
    using carried_steps[of l ?pre st "threadId (loops (srv s) l)" s i x s' "{}"] w'(2,5-7) by (simp add: s'_def)
  moreover have "in_thread l s s'" using w'(2) by (simp add: steps_to_def polite_def others_same_def in_thread_def s'_def
      \<open>server_loops w' = server_loops (srv s)\<close>)
  ultimately show ?thesis unfolding s'_def by auto
qed

lemma handler_turn:
  assumes T: "threads_inv st s" and l: "l \<in> server_loops (srv s)" and at: "loop_at s l = Handling (c # cs) t"
    and ev: "plausible (RunLoop l ans now) s"
  shows "loop_turn cbs ok l ans now s = Inl OutOfBounds \<and> overrun_turn cbs (RunLoop l ans now) s
    \<or> (\<exists>s' i x. loop_turn cbs ok l ans now s = Inr s' \<and> threads_inv (st(i := x)) s' \<and> confined l (srv s) (srv s')
        \<and> in_thread l s s')"
proof -
  let ?w = "(srv s)\<lparr>cur_thread := threadId (loops (srv s) l)\<rparr>"
  have sw: "swapped s l = []" using at by (simp add: swapped_def)
  have W: "world_inv st (queue (swapped s) ?w) ?w"
    using T by (rule threads_world)
  have pos: "\<not> callingPendingFunctors (loops ?w l)" "distinct (c # cs)" "\<forall>d \<in> set (c # cs). ready_ok st l (srv s) d"
    using T l at by (auto simp: threads_inv_def)
  have "ready_ok st l ?w d = ready_ok st l (srv s) d" for d by (simp add: ready_ok_def own_channels_def)
  then have ready: "ready_ok st l ?w d" if "d \<in> set (c # cs)" for d using pos(3) that by blast
  have fd: "fd_in_use d ?w = fd_in_use d (srv s)" for d by (simp add: fd_in_use_def server_loops_def)
  have l': "l \<in> server_loops ?w" "cur_thread ?w = threadId (loops ?w l)" using l by (simp_all add: server_loops_def)
  have "handle_channel cbs (\<lambda>_. True) l c t ?w = Inl OutOfBounds \<and> overrun_turn cbs (RunLoop l ans now) s
    \<or> (\<exists>w' i x. handle_channel cbs (\<lambda>_. True) l c t ?w = Inr w' \<and> goes l (swapped s) st ?w i x w'
        \<and> (st i = Open \<longrightarrow> c = Suc i \<and> conn_loop (conns ?w i) = l))"
  proof (cases "c \<in> own_channels l ?w \<and> c \<noteq> timerChannel (loops ?w l)")
    case True
    have n: "nextConnId ?w + 1 < 2 ^ 31" if "c = acceptChannel ?w" using ev at that by simp
    have acc: "\<not> fd_in_use d ?w" if "c = acceptChannel ?w" "accept_answers ?w (accepts_done ?w) = AcceptOk d peer"
      for d peer using ev at that unfolding fd by simp
    have "\<exists>w' i x. handle_channel cbs (\<lambda>_. True) l c t ?w = Inr w' \<and> st i = Fresh
        \<and> goes l (swapped s) st ?w i x w'"
      by (rule own_channel_step[OF W l' _ _ pos(1)]) (use True n acc in blast)+
    then show ?thesis by fastforce
  next
    case False
    with ready[of c] obtain i ch where i: "c = Suc i" "st i = Open" "conn_loop (conns ?w i) = l"
      "heap (loops ?w l) (Suc i) = Some ch" "sane_events (revents ch)" by (auto simp: ready_ok_def)
    have "connections (srv s) (conn_name (conns (srv s) i)) = Some i"
      using W i(2) by (simp add: world_inv_def map_ok_def in_map_def)
    then have "overrun cbs i t (handlers_for (revents ch)) ?w \<Longrightarrow> overrun_turn cbs (RunLoop l ans now) s"
      using at i unfolding overrun_turn_def by auto
    with event_step[OF W i(2) i(3)[symmetric] l'(2) i(4,5), of t] show ?thesis
      unfolding i(1) using goes_steps i(3) by blast
  qed
  then show ?thesis
  proof (elim disjE exE conjE)
    assume "handle_channel cbs (\<lambda>_. True) l c t ?w = Inl OutOfBounds" "overrun_turn cbs (RunLoop l ans now) s"
    then show ?thesis using at by (simp add: loop_turn_def)
  next
    fix w' i x assume w': "handle_channel cbs (\<lambda>_. True) l c t ?w = Inr w'" and g: "goes l (swapped s) st ?w i x w'"
      and i: "st i = Open \<longrightarrow> c = Suc i \<and> conn_loop (conns ?w i) = l"
    define s' where "s' = s\<lparr>srv := w', loop_at := (loop_at s)(l := Handling cs t)\<rparr>"
    have un: "untouched i ?w w'" and pol: "polite l ?w w'" using g by (simp_all add: goes_def)
    have "ready_ok (st(i := x)) l w' d" if "d \<in> set cs" for d
      by (rule ready_ok_untouched[OF ready un]) (use that i pos(2) in auto)
    then have "pos_ok (st(i := x)) l w' (Handling cs t)" using pos(1,2) pol by (simp add: polite_def)
    then have "threads_inv (st(i := x)) s'"
      using threads_goes[OF T g _ s'_def] i sw by (simp add: s'_def fun_upd_idem)
    moreover have "loop_turn cbs ok l ans now s = Inr s'" using at w' by (simp add: loop_turn_def s'_def)
    moreover have "confined l (srv s) (srv s')" using g by (simp add: goes_def confined_def s'_def)
    moreover have "server_loops ?w = server_loops (srv s)" by (simp add: server_loops_def)
    then have "in_thread l s s'" using g by (simp add: goes_def polite_def untouched_def in_thread_def s'_def)
    ultimately show ?thesis by blast
  qed
qed

end

lemma active_open:
  assumes T: "threads_inv st s" and act: "not_closed i (srv s)"
  shows "st i = Open"
proof -
  have ok: "conn_ok (st i) i (srv s)" using T by (simp add: threads_inv_def world_inv_def)
  have "in_map (st i)" using T act by (auto simp: threads_inv_def world_inv_def map_ok_def not_closed_def)
  then show ?thesis using act ok
    by (cases "st i") (auto simp: in_map_def conn_ok_def not_closed_def split: option.splits)
qed

lemma not_closed_active: "not_closed i w \<Longrightarrow> active (conns w i)"
  by (auto simp: not_closed_def active_def)

text \<open>
  The steps of a call by a thread that runs none of the loops: it sets the state of an open
  connection, or puts a functor into the queue of its loop.
\<close>

lemma foreign_state:
  fixes t :: nat
  assumes T: "threads_inv st s" and act: "not_closed i (srv s)"
  defines "w' \<equiv> setState i kDisconnecting ((srv s)\<lparr>cur_thread := t\<rparr>)"
  shows "threads_inv st (s\<lparr>srv := w'\<rparr>)"
proof -
  let ?w = "(srv s)\<lparr>cur_thread := t\<rparr>"
  have W: "world_inv st (queue (swapped s) ?w) ?w" using T by (rule threads_world)
  have op: "st i = Open" using active_open[OF T act] .
  then have live: "live (st i)" by (simp add: live_def)
  note c = world_conn[OF W live]
  have inv: "conn_inv i w'" using conn_inv_disconnecting[OF c(1)] not_closed_active[OF act] by (simp add: w'_def)
  have fr: "conn_frame True i ?w w'" unfolding w'_def by (rule frame_setState)
  have "active (conns w' i)" by (simp add: w'_def active_def setState_def)
  then have "steps_to (conn_loop (conns ?w i)) (swapped s) st ?w i (st i) w'"
    using step_frame[OF W _ refl fr inv] op by simp
  then have W': "world_inv st (queue (swapped s) w') w'" and o: "others_same i ?w w'" by (simp_all add: steps_to_def)
  have lp: "loops w' = loops (srv s)" by (simp add: w'_def setState_def)
  have L: "server_loops w' = server_loops (srv s)" by (simp add: w'_def setState_def server_loops_def)
  have "own_channels m w' = own_channels m (srv s)" for m
    using own_channels_others[OF o] by (simp add: own_channels_def)
  moreover have "conn_loop (conns w' j) = conn_loop (conns (srv s) j)" for j by (simp add: w'_def setState_def)
  ultimately have "ready_ok st m w' d = ready_ok st m (srv s) d" for m d by (simp add: ready_ok_def lp)
  then have "pos_ok st m w' p = pos_ok st m (srv s) p" for m p by (cases p) (simp_all add: lp)
  moreover have "swapped (s\<lparr>srv := w'\<rparr>) = swapped s" by (simp add: swapped_def fun_eq_iff)
  ultimately show ?thesis using T W' by (simp add: threads_inv_def todo_queue L)
qed

lemma foreign_queue:
  assumes T: "threads_inv st s" and t: "\<forall>l \<in> server_loops (srv s). threadId (loops (srv s) l) \<noteq> t"
    and f: "is_data f" "conn_of f = Some i" and act: "not_closed i (srv s)"
  defines "l \<equiv> conn_loop (conns (srv s) i)"
  defines "w' \<equiv> upd_loop l (queueInLoop t f) ((srv s)\<lparr>cur_thread := t\<rparr>)"
  shows "l \<in> server_loops (srv s)" "threads_inv st (s\<lparr>srv := w'\<rparr>)"
proof -
  let ?w = "(srv s)\<lparr>cur_thread := t\<rparr>"
  have W: "world_inv st (queue (swapped s) ?w) ?w" using T by (rule threads_world)
  have op: "st i = Open" using active_open[OF T act] .
  then have live: "live (st i)" by (simp add: live_def)
  note c = world_conn[OF W live]
  show l: "l \<in> server_loops (srv s)" using c(3) by (simp add: l_def server_loops_def)
  have L: "server_loops w' = server_loops (srv s)" "server_loops ?w = server_loops (srv s)"
    by (simp_all add: w'_def server_loops_def)
  have v: "same_view ?w w'" by (auto simp: w'_def same_view_def server_same_def intro!: loop_viewI)
  have Q: "queue (swapped s) w' = (\<lambda>m. queue (swapped s) ?w m @ (if m = l then [f] else []))"
    by (auto simp: queue_def w'_def fun_eq_iff)
  have "queues_ok (st(i := Open)) (queue (swapped s) w') ?w"
  proof (rule queues_ok_conn[of st "queue (swapped s) ?w" ?w])
    show "queues_ok st (queue (swapped s) ?w) ?w" using W by (simp add: world_inv_def)
    show "others_same i ?w ?w" by (simp add: others_same_def)
    fix m assume m: "m \<in> server_loops ?w"
    show "about j (queue (swapped s) w' m) = about j (queue (swapped s) ?w m)" if "j \<noteq> i" for j
      using that f(2) by (simp add: Q)
    show "\<forall>g \<in> set (queue (swapped s) w' m). conn_of g \<noteq> None"
      using world_queue(2)[OF W m] f(2) by (auto simp: Q)
    show "queue_ok Open i (conn_loop (conns ?w i)) (srv_loop ?w) m (about i (queue (swapped s) w' m))"
      using world_queue(1)[OF W m, of i] queue_ok_add_data[OF _ f(1)] f(2) op
      by (cases "m = l") (simp_all add: Q l_def)
  qed
  then have "world_inv st (queue (swapped s) w') ?w" using W op by (simp add: world_inv_def fun_upd_idem)
  then have W': "world_inv st (queue (swapped s) w') w'" using v by (rule world_inv_view[rotated])
  have hp: "heap (loops w' m) = heap (loops (srv s) m)" "timerChannel (loops w' m) = timerChannel (loops (srv s) m)"
    "callingPendingFunctors (loops w' m) = callingPendingFunctors (loops (srv s) m)" "conns w' = conns (srv s)" for m
    by (simp_all add: w'_def)
  have "own_channels m w' = own_channels m (srv s)" for m
    using view_own_channels[OF v] by (simp add: own_channels_def)
  then have ready: "ready_ok st m w' d = ready_ok st m (srv s) d" for m d by (simp add: ready_ok_def hp)
  have "woken (loops w' m)" if "m \<in> server_loops (srv s)" "woken (loops (srv s) m)" for m
    using polite_queue[of l "Suc m" ?w t f] t l that unfolding w'_def polite_def by fastforce
  then have "pos_ok st m w' p" if "m \<in> server_loops (srv s)" "pos_ok st m (srv s) p" for m p
    using that by (cases p) (simp_all add: hp ready)
  moreover have sw: "swapped (s\<lparr>srv := w'\<rparr>) = swapped s" by (simp add: swapped_def fun_eq_iff)
  ultimately show "threads_inv st (s\<lparr>srv := w'\<rparr>)"
    using T W' L(1) by (simp add: threads_inv_def todo_queue sw)
qed

lemma threads_inv_call [simp]: "threads_inv st (set_call t c s) = threads_inv st s"
  by (simp add: threads_inv_def)

context local_callbacks
begin

lemma go_on_ok:
  assumes T: "threads_inv st s" and t: "\<forall>l \<in> server_loops (srv s). threadId (loops (srv s) l) \<noteq> t"
    and act: "not_closed (call_conn c) (srv s)"
  shows "\<exists>c' w'. go_on (conn_cbs cbs) c ((srv s)\<lparr>cur_thread := t\<rparr>) = Inr (c', w') \<and> threads_inv st (s\<lparr>srv := w'\<rparr>)"
proof (cases c)
  case (QueueSend i msg)
  note q = foreign_queue[OF T t, of "SendInLoop i msg" i]
  show ?thesis using q QueueSend act t
    by (simp add: send_rest_def isInLoopThread_def cloop_def run_conn_def runInLoop_def upd_cloop_def)
next
  case (SetDisconnecting i)
  then show ?thesis using foreign_state[OF T, of i t] act by simp
next
  case (QueueShutdown i)
  note q = foreign_queue[OF T t, of "ShutdownInLoop i" i]
  show ?thesis using q QueueShutdown act t
    by (simp add: shutdown_queue_def isInLoopThread_def cloop_def run_conn_def runInLoop_def upd_cloop_def)
qed

lemma foreign_turn:
  assumes T: "threads_inv st s" and ev: "plausible ev s" and f: "\<And>l ans now. ev \<noteq> RunLoop l ans now"
  shows "\<exists>s'. server_step cbs ok ev s = Inr s' \<and> threads_inv st s'"
proof (cases ev)
  case (GoOn t)
  show ?thesis
  proof (cases "map_of (in_call s) t")
    case (Some c)
    have "\<forall>l \<in> server_loops (srv s). threadId (loops (srv s) l) \<noteq> t" "not_closed (call_conn c) (srv s)"
      using ev GoOn Some by simp_all
    from go_on_ok[OF T this] show ?thesis using GoOn Some by auto
  qed (use GoOn T in simp)
next
  case (ReleaseFrom t i)
  then show ?thesis using release_turn[OF T, of i t] T ev by (cases "owned i s"; cases "held i s") auto
qed (use f T in auto)

lemma threads_step:
  assumes T: "threads_inv st s" and ev: "plausible ev s"
  shows "server_step cbs ok ev s = Inl OutOfBounds \<and> overrun_turn cbs ev s
    \<or> (\<exists>s' st'. server_step cbs ok ev s = Inr s' \<and> threads_inv st' s'
        \<and> (\<forall>l ans now. ev = RunLoop l ans now \<longrightarrow> confined l (srv s) (srv s')))"
proof (cases "\<exists>l ans now. ev = RunLoop l ans now")
  case True
  then obtain l ans now where e: "ev = RunLoop l ans now" by blast
  show ?thesis
  proof (cases "l \<in> server_loops (srv s)")
    case l: True
    show ?thesis
    proof (cases "loop_at s l")
      case Polling
      then show ?thesis using polling_turn[OF T l Polling] ev l e by fastforce
    next
      case (Handling cs t)
      show ?thesis
      proof (cases cs)
        case Nil
        then show ?thesis using swap_turn[OF T l] Handling l e by fastforce
      next
        case (Cons c cs')
        then show ?thesis using handler_turn[OF T l _ ev[unfolded e]] Handling l e by fastforce
      qed
    next
      case (Calling fs)
      show ?thesis
      proof (cases fs)
        case Nil
        then show ?thesis using round_end_turn[OF T l] Calling l e by fastforce
      next
        case (Cons f fs')
        then show ?thesis using functor_turn[OF T l] Calling l e by fastforce
      qed
    qed
  qed (use T e in \<open>auto simp: confined_own\<close>)
next
  case False
  then show ?thesis using foreign_turn[OF T ev] by blast
qed

lemma threads_run:
  assumes "threads_inv st s" and "plausible_run cbs ok evs s"
  shows "server_run cbs ok evs s = Inl OutOfBounds
      \<and> (\<exists>xs ev ys s'. evs = xs @ ev # ys \<and> server_run cbs ok xs s = Inr s' \<and> overrun_turn cbs ev s')
    \<or> (\<exists>s' st'. server_run cbs ok evs s = Inr s' \<and> threads_inv st' s')"
  using assms
proof (induction evs arbitrary: st s)
  case Nil
  then show ?case by (auto simp: server_run_def)
next
  case (Cons ev evs)
  then have "plausible ev s" by simp
  from threads_step[OF Cons.prems(1) this, of ok] show ?case
  proof (elim disjE exE conjE)
    assume "server_step cbs ok ev s = Inl OutOfBounds" "overrun_turn cbs ev s"
    then show ?thesis
      by (intro disjI1 conjI exI[of _ "[]"] exI[of _ ev] exI[of _ evs] exI[of _ s]) (simp_all add: server_run_def)
  next
    fix s1 st1 assume s1: "server_step cbs ok ev s = Inr s1" and T: "threads_inv st1 s1"
    have run: "server_run cbs ok (ev # xs) s = server_run cbs ok xs s1" for xs using s1 by (simp add: server_run_def)
    have "plausible_run cbs ok evs s1" using Cons.prems(2) s1 by simp
    from Cons.IH[OF T this] show ?thesis
    proof (elim disjE exE conjE)
      fix xs e ys s' assume "server_run cbs ok evs s1 = Inl OutOfBounds" "evs = xs @ e # ys"
        "server_run cbs ok xs s1 = Inr s'" "overrun_turn cbs e s'"
      then show ?thesis unfolding run
        by (intro disjI1 conjI exI[of _ "ev # xs"] exI[of _ e] exI[of _ ys] exI[of _ s']) (simp_all add: run)
    qed (auto simp: run)
  qed
qed

end

end
