(* ===== verification/Thread_Runs.thy ===== *)
theory Thread_Runs
  imports Threads_Safe
begin

section \<open>Rounds and rest of a server with several loops\<close>

text \<open>
  What the invariant of the threads comes to: the map of the server and the registries of the
  pollers when the queues are empty, that the queues do become empty, and that a loop that runs
  alone does what \<open>loop ()\<close> does.
\<close>

subsection \<open>Turns of one loop\<close>

definition turns :: "TimeStamp \<Rightarrow> nat \<Rightarrow> nat \<Rightarrow> thread_event list" where
  "turns now n l = replicate n (RunLoop l (WaitOk []) now)"

lemma server_run_simps [simp]:
  "server_run cbs ok [] s = Inr s"
  "server_run cbs ok (ev # evs) s = bind_result (server_step cbs ok ev s) (server_run cbs ok evs)"
  by (simp_all add: server_run_def)

lemma server_run_append:
  "server_run cbs ok (xs @ ys) s = bind_result (server_run cbs ok xs s) (server_run cbs ok ys)"
proof (induction xs arbitrary: s)
  case (Cons ev xs)
  then show ?case by (cases "server_step cbs ok ev s") simp_all
qed simp

lemma turns_simps [simp]: "turns now 0 l = []" "turns now (Suc n) l = RunLoop l (WaitOk []) now # turns now n l"
  by (simp_all add: turns_def)

text \<open>
  The functors that are left, with the ones that they will queue: \<open>removeConnectionInLoop\<close> queues
  \<open>connectDestroyed\<close>, the others queue nothing.
\<close>

fun weight :: "loop_functor \<Rightarrow> nat" where
  "weight (RemoveConnectionInLoop i) = 2"
| "weight _ = 1"

definition work :: "loop_functor list \<Rightarrow> nat" where
  "work fs = sum_list (map weight fs)"

lemma work_simps [simp]: "work [] = 0" "work (f # fs) = weight f + work fs" "work (xs @ ys) = work xs + work ys"
  by (simp_all add: work_def)

lemma weight_pos [simp]: "0 < weight f"
  by (cases f) simp_all

lemma work_0 [simp]: "work fs = 0 \<longleftrightarrow> fs = []"
  using weight_pos by (cases fs) (auto simp del: weight_pos)

definition total_work :: "thread_state \<Rightarrow> nat" where
  "total_work s = (\<Sum>l \<in> server_loops (srv s). work (todo s l))"

lemma finite_server_loops [simp]: "finite (server_loops w)"
  by (simp add: server_loops_def)

lemma queued_work: "(\<Sum>m \<in> A. work (queued_by f io m)) < weight f" if "finite A"
proof (cases f)
  case (RemoveConnectionInLoop i)
  have "(\<Sum>m \<in> A. work (queued_by f io m)) = (\<Sum>m \<in> A. if m = io then 1 else 0)"
    by (rule sum.cong) (simp_all add: RemoveConnectionInLoop)
  also have "\<dots> \<le> 1" using that by simp
  finally show ?thesis using RemoveConnectionInLoop by simp
qed simp_all

context local_callbacks
begin

text \<open>Calling one functor leaves less to do.\<close>

lemma functor_turn_work:
  assumes T: "threads_inv st s" and l: "l \<in> server_loops (srv s)" and at: "loop_at s l = Calling (f # fs)"
  shows "\<exists>s' st'. loop_turn cbs ok l ans now s = Inr s' \<and> threads_inv st' s' \<and> total_work s' < total_work s
    \<and> loop_at s' = (loop_at s)(l := Calling fs) \<and> server_loops (srv s') = server_loops (srv s) \<and> carried {} st s st' s'"
proof -
  obtain s' i x where s': "loop_turn cbs ok l ans now s = Inr s'" "threads_inv (st(i := x)) s'"
    "adds f (conn_loop (conns (srv s) i)) (srv s) (srv s')" "loop_at s' = (loop_at s)(l := Calling fs)"
    "server_loops (srv s') = server_loops (srv s)" "carried {} st s (st(i := x)) s'"
    using functor_turn[OF T l at, of ok ans now] by blast
  let ?L = "server_loops (srv s)" and ?io = "conn_loop (conns (srv s) i)"
  have todo: "work (todo s' m) + (if m = l then weight f else 0) = work (todo s m) + work (queued_by f ?io m)" for m
    using at s'(3) by (simp add: todo_def swapped_def s'(4) adds_def)
  have "total_work s' + weight f = (\<Sum>m \<in> ?L. work (todo s' m) + (if m = l then weight f else 0))"
    using l by (simp add: total_work_def s'(5) sum.distrib)
  also have "\<dots> = total_work s + (\<Sum>m \<in> ?L. work (queued_by f ?io m))"
    by (simp add: todo total_work_def sum.distrib)
  also have "\<dots> < total_work s + weight f" using queued_work by simp
  finally show ?thesis using s' by auto
qed

lemma calling_ends:
  assumes "threads_inv st s" and "l \<in> server_loops (srv s)" and "loop_at s l = Calling fs"
  shows "\<exists>s' st'. server_run cbs ok (turns now (Suc (length fs)) l) s = Inr s' \<and> threads_inv st' s'
    \<and> total_work s' \<le> total_work s \<and> (fs \<noteq> [] \<longrightarrow> total_work s' < total_work s) \<and> carried {} st s st' s'
    \<and> loop_at s' = (loop_at s)(l := Polling) \<and> server_loops (srv s') = server_loops (srv s)"
  using assms
proof (induction fs arbitrary: st s)
  case Nil
  let ?s' = "s\<lparr>srv := upd_loop l (\<lambda>e. e\<lparr>callingPendingFunctors := False\<rparr>)
    ((srv s)\<lparr>cur_thread := threadId (loops (srv s) l)\<rparr>), loop_at := (loop_at s)(l := Polling)\<rparr>"
  have eq: "loop_turn cbs ok l (WaitOk []) now s = Inr ?s'" using Nil by (simp add: loop_turn_def)
  then have "threads_inv st ?s'" using round_end_turn[OF Nil(1,2,3), of cbs ok "WaitOk []" now] by simp
  moreover have "todo ?s' = todo s" using Nil by (auto simp: todo_def fun_eq_iff) (simp add: swapped_def)
  moreover have "server_loops (srv ?s') = server_loops (srv s)" by (simp add: server_loops_def)
  moreover have "carried {} st s st ?s'" by (rule carried_own) simp_all
  ultimately show ?case using eq Nil(2) by (intro exI[of _ ?s'] exI[of _ st]) (simp add: total_work_def)
next
  case (Cons f fs)
  obtain s1 st1 where s1: "loop_turn cbs ok l (WaitOk []) now s = Inr s1" "threads_inv st1 s1" "total_work s1 < total_work s"
    "loop_at s1 = (loop_at s)(l := Calling fs)" "server_loops (srv s1) = server_loops (srv s)" "carried {} st s st1 s1"
    using functor_turn_work[OF Cons.prems(1-3)] by blast
  have "l \<in> server_loops (srv s1)" "loop_at s1 l = Calling fs" using Cons.prems(2) s1(4,5) by simp_all
  from Cons.IH[OF s1(2) this] obtain s2 st2 where s2: "server_run cbs ok (turns now (Suc (length fs)) l) s1 = Inr s2"
    "threads_inv st2 s2" "total_work s2 \<le> total_work s1" "loop_at s2 = (loop_at s1)(l := Polling)"
    "server_loops (srv s2) = server_loops (srv s1)" "carried {} st1 s1 st2 s2" by blast
  then have "server_run cbs ok (turns now (Suc (length (f # fs))) l) s = Inr s2"
    using s1(1) Cons.prems(2) by simp
  moreover have "carried {} st s st2 s2" using carried_trans s1(6) s2(6) by blast
  ultimately show ?case using s1(3-5) s2(2-5) by (intro exI[of _ s2] exI[of _ st2]) simp
qed

end

text \<open>Nothing that such a loop does depends on the kernel.\<close>

lemma idle_plausible:
  assumes "loop_at s l = Polling \<or> (\<exists>t. loop_at s l = Handling [] t) \<or> (\<exists>fs. loop_at s l = Calling fs)"
  shows "plausible_run cbs ok (turns now n l) s"
  using assms
proof (induction n arbitrary: s)
  case (Suc n)
  let ?ev = "RunLoop l (WaitOk []) now"
  have poll: "poll (WaitOk []) now (loops (srv s) l) = Inr (now, [], Some NothingHappened, loops (srv s) l)"
    by (simp add: poll_def ready_events_def List.map_filter_def)
  have "loop_at s' l = Polling \<or> (\<exists>t. loop_at s' l = Handling [] t) \<or> (\<exists>fs. loop_at s' l = Calling fs)"
    if "server_step cbs ok ?ev s = Inr s'" for s'
    using that Suc.prems poll by (auto simp: loop_turn_def Let_def split: if_splits list.splits)
  moreover have "plausible ?ev s" using Suc.prems by (auto simp: sane_wait_def split: list.splits)
  ultimately show ?case using Suc.IH by (auto split: sum.splits)
qed simp

lemma plausible_run_append:
  "plausible_run cbs ok (xs @ ys) s \<longleftrightarrow> plausible_run cbs ok xs s
     \<and> (case server_run cbs ok xs s of Inl _ \<Rightarrow> True | Inr s' \<Rightarrow> plausible_run cbs ok ys s')"
proof (induction xs arbitrary: s)
  case (Cons x xs)
  then show ?case by (cases "server_step cbs ok x s") (simp_all add: server_run_def)
qed (simp add: server_run_def)

context local_callbacks
begin

text \<open>A round of a loop for which nothing is ready.\<close>

lemma quiet_round:
  assumes T: "threads_inv st s" and l: "l \<in> server_loops (srv s)" and at: "loop_at s l = Polling"
    and go: "\<not> quit_flag (loops (srv s) l)"
  defines "q \<equiv> pendingFunctors (loops (srv s) l)"
  shows "\<exists>s' st'. server_run cbs ok (turns now (length q + 3) l) s = Inr s' \<and> threads_inv st' s'
    \<and> total_work s' \<le> total_work s \<and> (q \<noteq> [] \<longrightarrow> total_work s' < total_work s) \<and> carried {} st s st' s'
    \<and> loop_at s' = (loop_at s)(l := Polling) \<and> server_loops (srv s') = server_loops (srv s)"
proof -
  let ?w = "(srv s)\<lparr>cur_thread := threadId (loops (srv s) l)\<rparr>"
  define s1 where "s1 = s\<lparr>srv := upd_loop l (\<lambda>e. e\<lparr>activeChannels := [], pollReturnTime := now\<rparr>) ?w,
    loop_at := (loop_at s)(l := Handling [] now)\<rparr>"
  define s2 where "s2 = s1\<lparr>srv := upd_loop l (\<lambda>e. e\<lparr>callingPendingFunctors := True, pendingFunctors := []\<rparr>)
    ((srv s1)\<lparr>cur_thread := threadId (loops (srv s1) l)\<rparr>), loop_at := (loop_at s1)(l := Calling q)\<rparr>"
  have poll: "poll (WaitOk []) now (loops (srv s) l) = Inr (now, [], Some NothingHappened, loops (srv s) l)"
    by (simp add: poll_def ready_events_def List.map_filter_def)
  have t1: "loop_turn cbs ok l (WaitOk []) now s = Inr s1"
    using at go poll by (simp add: loop_turn_def s1_def upd_loop_def)
  have "sane_wait (WaitOk []) l (srv s)" by (simp add: sane_wait_def)
  from polling_turn[OF T l at this, of cbs ok now] have T1: "threads_inv st s1" using t1 by simp
  have L1: "server_loops (srv s1) = server_loops (srv s)" by (simp add: s1_def server_loops_def)
  have t2: "loop_turn cbs ok l (WaitOk []) now s1 = Inr s2"
    by (simp add: loop_turn_def s2_def s1_def q_def)
  then have T2: "threads_inv st s2" using swap_turn[OF T1, of l now cbs ok "WaitOk []" now] l L1 by (simp add: s1_def)
  have L2: "server_loops (srv s2) = server_loops (srv s)" using L1 by (simp add: s2_def server_loops_def)
  have "todo s2 m = todo s m" for m using at by (simp add: todo_def swapped_def s2_def s1_def q_def)
  then have W: "total_work s2 = total_work s" by (simp add: total_work_def L2)
  have "carried {} st s st s2" by (rule carried_own) (simp_all add: s2_def s1_def)
  moreover have "loop_at s2 l = Calling q" "l \<in> server_loops (srv s2)" using l L2 by (simp_all add: s2_def)
  with calling_ends[OF T2, of l q ok now] obtain s' st' where s': "server_run cbs ok (turns now (Suc (length q)) l) s2 = Inr s'" "threads_inv st' s'"
    "total_work s' \<le> total_work s2" "q \<noteq> [] \<longrightarrow> total_work s' < total_work s2" "carried {} st s2 st' s'"
    "loop_at s' = (loop_at s2)(l := Polling)" "server_loops (srv s') = server_loops (srv s2)"
    by blast
  moreover have "server_run cbs ok (turns now (length q + 3) l) s = Inr s'"
    using s'(1) t1 t2 l L1 by (simp add: numeral_3_eq_3)
  moreover have "loop_at s' = (loop_at s)(l := Polling)" using s'(6) by (simp add: s2_def s1_def)
  moreover have "carried {} st s st' s'" using carried_trans calculation(1,6) by blast
  ultimately show ?thesis using W L2 by (intro exI[of _ s'] exI[of _ st']) simp
qed

text \<open>When nothing happens outside, the loops come to rest.\<close>

lemma loops_settle:
  assumes "threads_inv st s"
    and "\<And>l. l \<in> server_loops (srv s) \<Longrightarrow> loop_at s l = Polling \<and> \<not> quit_flag (loops (srv s) l)"
  shows "\<exists>evs s' st'. set evs \<subseteq> {RunLoop l (WaitOk []) now | l. l \<in> server_loops (srv s)}
    \<and> server_run cbs ok evs s = Inr s' \<and> threads_inv st' s' \<and> server_loops (srv s') = server_loops (srv s)
    \<and> (\<forall>l \<in> server_loops (srv s). loop_at s' l = Polling \<and> pendingFunctors (loops (srv s') l) = [])
    \<and> carried {} st s st' s' \<and> plausible_run cbs ok evs s"
  using assms
proof (induction "total_work s" arbitrary: st s rule: less_induct)
  case less
  show ?case
  proof (cases "\<forall>l \<in> server_loops (srv s). pendingFunctors (loops (srv s) l) = []")
    case True
    then show ?thesis using less.prems by (intro exI[of _ "[]"] exI[of _ s] exI[of _ st]) (simp add: carried_own)
  next
    case False
    then obtain l where l: "l \<in> server_loops (srv s)" "pendingFunctors (loops (srv s) l) \<noteq> []" by blast
    let ?evs = "turns now (length (pendingFunctors (loops (srv s) l)) + 3) l"
    obtain s1 st1 where s1: "server_run cbs ok ?evs s = Inr s1" "threads_inv st1 s1" "total_work s1 < total_work s"
      "carried {} st s st1 s1" "loop_at s1 = (loop_at s)(l := Polling)" "server_loops (srv s1) = server_loops (srv s)"
      using quiet_round[OF less.prems(1) l(1), of ok now] less.prems(2)[OF l(1)] l(2) by blast
    have "loop_at s1 m = Polling \<and> \<not> quit_flag (loops (srv s1) m)" if "m \<in> server_loops (srv s1)" for m
      using less.prems(2) that s1(4-6) by (simp add: carried_def)
    from less.hyps[OF s1(3,2) this] obtain evs s' st' where
      e: "set evs \<subseteq> {RunLoop l (WaitOk []) now | l. l \<in> server_loops (srv s)}"
      "server_run cbs ok evs s1 = Inr s'" "threads_inv st' s'" "server_loops (srv s') = server_loops (srv s)"
      "\<forall>l \<in> server_loops (srv s). loop_at s' l = Polling \<and> pendingFunctors (loops (srv s') l) = []"
      "carried {} st1 s1 st' s'" "plausible_run cbs ok evs s1" unfolding s1(6) by blast
    have "set ?evs \<subseteq> {RunLoop l (WaitOk []) now | l. l \<in> server_loops (srv s)}"
      using l(1) by (auto simp: turns_def)
    moreover have "plausible_run cbs ok ?evs s" using less.prems(2)[OF l(1)] idle_plausible by blast
    ultimately show ?thesis
      using e s1(1) carried_trans[OF s1(4) e(6)] by (intro exI[of _ "?evs @ evs"] exI[of _ s'] exI[of _ st'])
        (simp add: server_run_append plausible_run_append)
  qed
qed

end

subsection \<open>A loop that runs alone\<close>

text \<open>The turns of a loop after \<open>poll\<close> has returned, with nothing between them.\<close>

lemma server_turn [simp]:
  "l \<in> server_loops (srv s) \<Longrightarrow> server_step cbs ok (RunLoop l ans now) s = loop_turn cbs ok l ans now s"
  by simp

definition here :: "nat \<Rightarrow> thread_state \<Rightarrow> server_world" where
  "here l s = (srv s)\<lparr>cur_thread := threadId (loops (srv s) l)\<rparr>"

definition arrives :: "nat \<Rightarrow> loop_pos \<Rightarrow> thread_state \<Rightarrow> server_world result \<Rightarrow> thread_state result" where
  "arrives l p s r = bind_result r (\<lambda>w. Inr (s\<lparr>srv := w, loop_at := (loop_at s)(l := p)\<rparr>))"

lemma arrives_simps [simp]:
  "arrives l p s (Inl e) = Inl e" "arrives l p s (Inr w) = Inr (s\<lparr>srv := w, loop_at := (loop_at s)(l := p)\<rparr>)"
  by (simp_all add: arrives_def)

lemma here_eq: "here l s = srv s \<longleftrightarrow> cur_thread (srv s) = threadId (loops (srv s) l)"
  by (cases "srv s") (auto simp: here_def)

lemma here_same: "in_thread l s0 s \<Longrightarrow> here l s = srv s"
  by (simp add: here_eq in_thread_def)

context local_callbacks
begin

lemma handlers_alone:
  assumes "threads_inv st s" and "l \<in> server_loops (srv s)" and "loop_at s l = Handling cs t"
    and "here l s = srv s" and "plausible_run cbs ok (turns now (length cs) l) s"
  shows "server_run cbs ok (turns now (length cs) l) s
      = arrives l (Handling [] t) s (call_sequence (\<lambda>c. handle_channel cbs (\<lambda>_. True) l c t) cs (srv s))
    \<and> (\<forall>s'. server_run cbs ok (turns now (length cs) l) s = Inr s' \<longrightarrow> here l s' = srv s'
         \<and> server_loops (srv s') = server_loops (srv s) \<and> (\<exists>st'. threads_inv st' s'))"
  using assms
proof (induction cs arbitrary: st s)
  case Nil
  have "s = s\<lparr>srv := srv s, loop_at := (loop_at s)(l := Handling [] t)\<rparr>"
    using Nil(3) by (cases s) (simp add: fun_upd_idem)
  then show ?case using Nil by (auto simp: call_sequence_fun)
next
  case (Cons c cs)
  let ?r = "handle_channel cbs (\<lambda>_. True) l c t (srv s)"
  have turn: "loop_turn cbs ok l (WaitOk []) now s = arrives l (Handling cs t) s ?r"
    using Cons.prems(3,4) by (simp add: loop_turn_def here_def arrives_def)
  have "plausible (RunLoop l (WaitOk []) now) s" using Cons.prems(5) by (simp add: turns_def)
  from handler_turn[OF Cons.prems(1,2,3) this, of ok] show ?case
  proof (elim disjE exE conjE)
    assume "loop_turn cbs ok l (WaitOk []) now s = Inl OutOfBounds"
    moreover from this have "?r = Inl OutOfBounds" using turn by (cases ?r) simp_all
    ultimately show ?case using Cons.prems(2) by (simp add: call_sequence_fun)
  next
    fix s1 i x assume s1: "loop_turn cbs ok l (WaitOk []) now s = Inr s1" "threads_inv (st(i := x)) s1"
      "in_thread l s s1" "confined l (srv s) (srv s1)"
    then obtain w1 where w1: "?r = Inr w1" "s1 = s\<lparr>srv := w1, loop_at := (loop_at s)(l := Handling cs t)\<rparr>"
      using turn by (cases ?r) auto
    have L: "server_loops (srv s1) = server_loops (srv s)" using s1(3) by (simp add: in_thread_def)
    have "plausible_run cbs ok (turns now (length cs) l) s1" using Cons.prems(2,5) s1(1) by simp
    from Cons.IH[OF s1(2) _ _ here_same[OF s1(3)] this] L Cons.prems(2) w1 show ?case
      using s1(1) by (simp add: call_sequence_fun) (simp add: arrives_def)
  qed
qed

lemma functors_alone:
  assumes "threads_inv st s" and "l \<in> server_loops (srv s)" and "loop_at s l = Calling fs"
    and "here l s = srv s"
  shows "server_run cbs ok (turns now (length fs) l) s
      = arrives l (Calling []) s (call_sequence (exec_functor cbs ok) fs (srv s))
    \<and> (\<forall>s'. server_run cbs ok (turns now (length fs) l) s = Inr s' \<longrightarrow> here l s' = srv s'
         \<and> server_loops (srv s') = server_loops (srv s))"
  using assms
proof (induction fs arbitrary: st s)
  case Nil
  have "s = s\<lparr>srv := srv s, loop_at := (loop_at s)(l := Calling [])\<rparr>"
    using Nil(3) by (cases s) (simp add: fun_upd_idem)
  then show ?case using Nil by (auto simp: call_sequence_fun)
next
  case (Cons f fs)
  let ?r = "exec_functor cbs ok f (srv s)"
  have turn: "loop_turn cbs ok l (WaitOk []) now s = arrives l (Calling fs) s ?r"
    using Cons.prems(3,4) by (simp add: loop_turn_def here_def arrives_def)
  obtain s1 i x where s1: "loop_turn cbs ok l (WaitOk []) now s = Inr s1" "threads_inv (st(i := x)) s1"
      "in_thread l s s1" using functor_turn[OF Cons.prems(1-3)] by blast
  then obtain w1 where w1: "?r = Inr w1" "s1 = s\<lparr>srv := w1, loop_at := (loop_at s)(l := Calling fs)\<rparr>"
    using turn by (cases ?r) auto
  have "server_loops (srv s1) = server_loops (srv s)" using s1(3) by (simp add: in_thread_def)
  with Cons.IH[OF s1(2) _ _ here_same[OF s1(3)]] Cons.prems(2) w1 show ?case
    using s1(1) by (simp add: call_sequence_fun) (simp add: arrives_def)
qed

text \<open>What is left of a round when the handlers have returned.\<close>

lemma pending_alone:
  assumes T: "threads_inv st s" and l: "l \<in> server_loops (srv s)" and at: "loop_at s l = Handling [] t"
    and th: "here l s = srv s"
  defines "n \<equiv> length (pendingFunctors (loops (srv s) l)) + 2"
  shows "server_run cbs ok (turns now n l) s = arrives l Polling s
      (doPendingFunctors (\<lambda>w. loops w l) (upd_loop l) (exec_functor cbs ok) (srv s))"
proof -
  let ?q = "pendingFunctors (loops (srv s) l)"
  define w2 where "w2 = upd_loop l (\<lambda>e. e\<lparr>callingPendingFunctors := True, pendingFunctors := []\<rparr>) (srv s)"
  define s2 where "s2 = s\<lparr>srv := w2, loop_at := (loop_at s)(l := Calling ?q)\<rparr>"
  have t: "loop_turn cbs ok l (WaitOk []) now s = Inr s2"
    using at th by (simp add: loop_turn_def s2_def w2_def here_def Let_def)
  have T2: "threads_inv st s2" using swap_turn[OF T l at, of cbs ok "WaitOk []" now] t by simp
  have L2: "l \<in> server_loops (srv s2)" using l by (simp add: s2_def w2_def server_loops_def)
  have at2: "loop_at s2 l = Calling ?q" by (simp add: s2_def)
  have th2: "here l s2 = srv s2" using th unfolding here_eq by (simp add: s2_def w2_def)
  note f = functors_alone[OF T2 L2 at2 th2, of ok now]
  have do: "doPendingFunctors (\<lambda>w. loops w l) (upd_loop l) (exec_functor cbs ok) (srv s)
      = bind_result (call_sequence (exec_functor cbs ok) ?q w2)
          (\<lambda>w3. Inr (upd_loop l (\<lambda>e. e\<lparr>callingPendingFunctors := False\<rparr>) w3))"
    by (simp add: doPendingFunctors_def w2_def upd_loop_def Let_def)
  have n: "turns now n l = RunLoop l (WaitOk []) now # (turns now (length ?q) l @ [RunLoop l (WaitOk []) now])"
    by (simp add: n_def turns_def replicate_append_same)
  show ?thesis
  proof (cases "call_sequence (exec_functor cbs ok) ?q w2")
    case (Inl e)
    then show ?thesis using f t l by (simp add: n do server_run_append s2_def)
  next
    case (Inr w3)
    let ?s3 = "s\<lparr>srv := w3, loop_at := (loop_at s)(l := Calling [])\<rparr>"
    have r: "server_run cbs ok (turns now (length ?q) l) s2 = Inr ?s3"
      using f Inr by (simp add: s2_def)
    then have "here l ?s3 = srv ?s3 \<and> server_loops (srv ?s3) = server_loops (srv s2)" using f by blast
    then have "here l ?s3 = w3" "server_loops w3 = server_loops (srv s2)" by simp_all
    then have "server_run cbs ok [RunLoop l (WaitOk []) now] ?s3
        = Inr (s\<lparr>srv := upd_loop l (\<lambda>e. e\<lparr>callingPendingFunctors := False\<rparr>) w3, loop_at := (loop_at s)(l := Polling)\<rparr>)"
      using L2 by (simp add: loop_turn_def here_def)
    then show ?thesis using r t l Inr by (simp add: n do server_run_append)
  qed
qed

lemma round_alone:
  assumes T: "threads_inv st s" and l: "l \<in> server_loops (srv s)" and at: "loop_at s l = Polling"
    and go: "\<not> quit_flag (loops (srv s) l)"
    and ev: "\<And>n. plausible_run cbs ok (RunLoop l ans now # turns now n l) s"
  shows "\<exists>n. server_run cbs ok (RunLoop l ans now # turns now n l) s
    = arrives l Polling s (server_round cbs ok l (ans, now) (here l s))"
proof -
  have sane: "sane_wait ans l (srv s)" using ev[of 0] at by simp
  then have slots: "ans = WaitOk [] \<or> 0 < event_slots (loops (srv s) l) \<and> event_slots (loops (srv s) l) < 2 ^ 31"
    by (auto simp: sane_wait_def)
  have wf: "wf_poller (loops (srv s) l)" using T l world_wf unfolding threads_inv_def by blast
  obtain a lg e' where p: "poll ans now (loops (srv s) l) = Inr (now, a, lg, e')"
    "poll_state.more e' = poll_state.more (loops (srv s) l)" using poll_view[OF wf slots, of now] by blast
  define w1 where "w1 = upd_loop l (\<lambda>_. e'\<lparr>activeChannels := a, pollReturnTime := now\<rparr>) (here l s)"
  define s1 where "s1 = s\<lparr>srv := w1, loop_at := (loop_at s)(l := Handling a now)\<rparr>"
  have t1: "loop_turn cbs ok l ans now s = Inr s1"
    using at go p(1) by (simp add: loop_turn_def s1_def w1_def here_def)
  have T1: "threads_inv st s1" using polling_turn[OF T l at sane, of cbs ok now] t1 by simp
  have L1: "l \<in> server_loops (srv s1)" using l by (simp add: s1_def w1_def here_def server_loops_def)
  have th1: "here l s1 = srv s1" using loop_more_fields(3)[OF p(2)] by (simp add: s1_def w1_def here_def)
  have at1: "loop_at s1 l = Handling a now" by (simp add: s1_def)
  have "plausible_run cbs ok (turns now (length a) l) s1" using ev[of "length a"] t1 l by simp
  note h = handlers_alone[OF T1 L1 at1 th1 this]
  let ?do = "doPendingFunctors (\<lambda>w. loops w l) (upd_loop l) (exec_functor cbs ok)"
  let ?hs = "call_sequence (\<lambda>c. handle_channel cbs (\<lambda>_. True) l c now) a w1"
  have round: "server_round cbs ok l (ans, now) (here l s) = bind_result ?hs ?do"
    using p(1) by (simp add: server_round_def loop_round_def here_def w1_def Let_def)
  show ?thesis
  proof (cases ?hs)
    case (Inl e)
    then show ?thesis using h t1 l by (intro exI[of _ "length a"]) (simp add: round s1_def)
  next
    case (Inr w2)
    let ?s2 = "s\<lparr>srv := w2, loop_at := (loop_at s)(l := Handling [] now)\<rparr>"
    let ?n = "length (pendingFunctors (loops w2 l)) + 2"
    have r: "server_run cbs ok (turns now (length a) l) s1 = Inr ?s2" using h Inr by (simp add: s1_def)
    then obtain st2 where th2: "here l ?s2 = srv ?s2" "l \<in> server_loops (srv ?s2)" "threads_inv st2 ?s2"
      using h L1 by auto
    have "server_run cbs ok (turns now ?n l) ?s2 = arrives l Polling ?s2 (?do w2)"
      using pending_alone[OF th2(3,2) _ th2(1), of now ok now] by simp
    moreover have "turns now (length a + ?n) l = turns now (length a) l @ turns now ?n l"
      by (simp only: turns_def replicate_add)
    ultimately show ?thesis
      using r t1 l Inr by (intro exI[of _ "length a + ?n"]) (simp add: round server_run_append arrives_def del: turns_simps)
  qed
qed

end

subsection \<open>What the invariant says\<close>

text \<open>A functor never runs for a connection that has left both the map and its poller.\<close>

lemma functor_alive:
  assumes T: "threads_inv st s" and l: "l \<in> server_loops (srv s)" and f: "f \<in> set (todo s l)"
  defines "w \<equiv> srv s"
  shows "\<exists>i. conn_of f = Some i \<and> st i \<in> {Opening, Open, Removing, Dying}
    \<and> (connections w (conn_name (conns w i)) = Some i
       \<or> registry (loops w (conn_loop (conns w i))) (sockfd (conns w i)) = Some (Suc i))"
proof -
  have W: "world_inv st (todo s) w" using T by (simp add: threads_inv_def w_def)
  note l' = l[folded w_def]
  obtain i where i: "conn_of f = Some i" using world_queue(2)[OF W l'] f by auto
  have "f \<in> set (about i (todo s l))" using f i by (simp add: about_def)
  then have st: "st i \<in> {Opening, Open, Removing, Dying}"
    using world_queue(1)[OF W l', of i] by (cases "st i") (auto simp: queue_ok_def)
  then have live: "live (st i)" by (auto simp: live_def)
  note c = world_conn[OF W live]
  show ?thesis
  proof (cases "in_map (st i)")
    case True
    then have "connections w (conn_name (conns w i)) = Some i" using W by (simp add: world_inv_def map_ok_def)
    then show ?thesis using i st by blast
  next
    case False
    then have "st i = Dying" using st by (auto simp: in_map_def)
    then obtain ch where ch: "heap (loops w (conn_loop (conns w i))) (Suc i) = Some ch" "index ch = kDeleted"
      using c(5) by auto
    have "channel_inv (conns w i) ch" using c(1) ch(1) by (auto simp: conn_inv_def cloop_def c(2))
    then have "registry (loops w (conn_loop (conns w i))) (sockfd (conns w i)) = Some (Suc i)"
      using wf_pollerD(2)[OF world_wf[OF W c(3)] ch(1)] ch(2) by (auto simp: index_defs channel_inv_def)
    then show ?thesis using i st by blast
  qed
qed

text \<open>
  Behind the functor that destroys a connection there is none about the connection: \<open>sendInLoop\<close>
  and \<open>shutdownInLoop\<close>, which are bound to the connection without keeping it alive, run before.
\<close>

lemma destroyed_last:
  assumes T: "threads_inv st s" and l: "l \<in> server_loops (srv s)" and q: "todo s l = xs @ ConnectDestroyed i # ys"
  shows "about i ys = []"
proof -
  have W: "world_inv st (todo s) (srv s)" using T by (simp add: threads_inv_def)
  have "queue_ok (st i) i (conn_loop (conns (srv s) i)) (srv_loop (srv s)) l
      (about i xs @ ConnectDestroyed i # about i ys)"
    using world_queue(1)[OF W l, of i] q by simp
  then obtain ds where ds: "about i xs @ ConnectDestroyed i # about i ys
      = ds @ awaited (st i) i (conn_loop (conns (srv s) i)) (srv_loop (srv s)) l" "\<forall>f \<in> set ds. is_data f"
    by (auto simp: queue_ok_def)
  let ?a = "awaited (st i) i (conn_loop (conns (srv s) i)) (srv_loop (srv s)) l"
  have len: "length ?a \<le> 1" by (cases "st i") simp_all
  have "ConnectDestroyed i \<notin> set ds" using ds(2) by auto
  moreover have "ConnectDestroyed i \<in> set (ds @ ?a)" unfolding ds(1)[symmetric] by simp
  ultimately have a: "?a = [ConnectDestroyed i]" using len by (cases ?a) auto
  then have eq: "about i xs @ ConnectDestroyed i # about i ys = ds @ [ConnectDestroyed i]" using ds(1) by simp
  show ?thesis
  proof (rule ccontr)
    assume "about i ys \<noteq> []"
    then obtain zs z where "about i ys = zs @ [z]" using rev_exhaust by blast
    then have "about i xs @ ConnectDestroyed i # zs = ds" using eq by simp
    then show False using \<open>ConnectDestroyed i \<notin> set ds\<close> by auto
  qed
qed

text \<open>
  When no functor is left, the server has the open connections and nothing else: they are in its
  map, and a poller watches them, its own channels and no other.
\<close>

lemma resources_at_rest:
  assumes T: "threads_inv st s" and rest: "\<And>l. l \<in> server_loops (srv s) \<Longrightarrow> todo s l = []"
  defines "w \<equiv> srv s"
  shows "ran (connections w) = {i. st i = Open}"
    and "l \<in> server_loops w \<Longrightarrow> registry (loops w l) fd = Some c \<longleftrightarrow>
      (\<exists>ch. heap (loops w l) c = Some ch \<and> chan_fd ch = fd)
      \<and> (c \<in> own_channels l w \<or> (\<exists>i \<in> ran (connections w). c = Suc i \<and> conn_loop (conns w i) = l))"
proof -
  have W: "world_inv st (todo s) w" using T by (simp add: threads_inv_def w_def)
  have stage: "st i \<in> {Fresh, Open, Gone}" for i
  proof -
    have "awaited (st i) i (conn_loop (conns w i)) (srv_loop w) m = []" if "m \<in> server_loops w" for m
      using world_queue(1)[OF W that, of i] rest that by (simp add: w_def queue_ok_empty)
    moreover have "conn_loop (conns w i) \<in> server_loops w" if "live (st i)" using world_conn(3)[OF W that] .
    ultimately show ?thesis using base_in_loops[of w] by (cases "st i") (fastforce simp: live_def)+
  qed
  have m: "connections w n = Some i \<longleftrightarrow> conn_name (conns w i) = n \<and> in_map (st i)" for n i
    using W by (simp add: world_inv_def map_ok_def)
  show ran: "ran (connections w) = {i. st i = Open}"
  proof -
    have "in_map (st i) \<longleftrightarrow> st i = Open" for i using stage[of i] by (auto simp: in_map_def)
    then show ?thesis by (auto simp: ran_def m)
  qed
  assume l: "l \<in> server_loops w"
  have wf: "wf_poller (loops w l)" using world_wf[OF W l] .
  have pk: "poller_ok st l w" using W l by (simp add: world_inv_def)
  show "registry (loops w l) fd = Some c \<longleftrightarrow>
      (\<exists>ch. heap (loops w l) c = Some ch \<and> chan_fd ch = fd)
      \<and> (c \<in> own_channels l w \<or> (\<exists>i \<in> ran (connections w). c = Suc i \<and> conn_loop (conns w i) = l))"
  proof
    assume r: "registry (loops w l) fd = Some c"
    then obtain ch where ch: "heap (loops w l) c = Some ch" "chan_fd ch = fd" using wf unfolding wf_poller_def by blast
    then have idx: "index ch \<noteq> kNew" using wf_pollerD(2)[OF wf ch(1)] r by simp
    have "c \<in> own_channels l w \<or> (\<exists>i. c = Suc i \<and> st i \<noteq> Fresh \<and> conn_loop (conns w i) = l)"
      using pk ch(1) domI[of "heap (loops w l)" c] unfolding poller_ok_def by blast
    moreover have "st i = Open" if "c = Suc i" "st i \<noteq> Fresh" "conn_loop (conns w i) = l" for i
    proof -
      have "conn_ok (st i) i w" using W by (simp add: world_inv_def)
      then have "stage_ok (st i) i w ch" using that ch(1) by (simp add: conn_ok_def)
      then show ?thesis using that(2) stage[of i] idx by auto
    qed
    ultimately show "(\<exists>ch. heap (loops w l) c = Some ch \<and> chan_fd ch = fd)
      \<and> (c \<in> own_channels l w \<or> (\<exists>i \<in> ran (connections w). c = Suc i \<and> conn_loop (conns w i) = l))"
      using ch by (auto simp: ran)
  next
    assume h: "(\<exists>ch. heap (loops w l) c = Some ch \<and> chan_fd ch = fd)
      \<and> (c \<in> own_channels l w \<or> (\<exists>i \<in> ran (connections w). c = Suc i \<and> conn_loop (conns w i) = l))"
    then obtain ch where ch: "heap (loops w l) c = Some ch" "chan_fd ch = fd" by blast
    have "index ch = kAdded"
    proof (cases "c \<in> own_channels l w")
      case True
      then have "own_ok st l w c" using pk by (simp add: poller_ok_def)
      then show ?thesis using ch(1) by (simp add: own_ok_def)
    next
      case False
      then obtain i where i: "c = Suc i" "st i = Open" "conn_loop (conns w i) = l" using h by (auto simp: ran)
      have "conn_ok (st i) i w" using W by (simp add: world_inv_def)
      then have "stage_ok (st i) i w ch" using i ch(1) by (simp add: conn_ok_def)
      then show ?thesis using i(2) by (simp add: listening_def)
    qed
    then show "registry (loops w l) fd = Some c" using wf_pollerD(3)[OF wf ch(1)] ch(2) by simp
  qed
qed

fun calls_in_time :: "loop_functor list \<Rightarrow> bool" where
  "calls_in_time (ConnectDestroyed i # fs) \<longleftrightarrow> (\<forall>f \<in> set fs. conn_of f \<noteq> Some i) \<and> calls_in_time fs"
| "calls_in_time (_ # fs) \<longleftrightarrow> calls_in_time fs"
| "calls_in_time [] \<longleftrightarrow> True"

lemma calls_in_timeI:
  assumes "\<And>xs i ys. fs = xs @ ConnectDestroyed i # ys \<Longrightarrow> about i ys = []"
  shows "calls_in_time fs"
  using assms
proof (induction fs)
  case Nil
  show ?case by simp
next
  case (Cons f fs)
  have rest: "calls_in_time fs" by (rule Cons.IH) (use Cons.prems[of "f # xs" for xs] in simp)
  show ?case
  proof (cases f)
    case (ConnectDestroyed i)
    then have "about i fs = []" using Cons.prems[of "[]"] by simp
    then show ?thesis using rest ConnectDestroyed by (auto simp: about_def filter_empty_conv)
  qed (simp_all add: rest)
qed

subsection \<open>A server with threads that starts\<close>

text \<open>The loop \<open>m\<close> is as its constructor has left it.\<close>

definition new_loop :: "server_world \<Rightarrow> nat \<Rightarrow> bool" where
  "new_loop w m \<longleftrightarrow> (\<exists>timerfd ct evtfd c. timerfd \<noteq> evtfd \<and> ct \<noteq> c \<and> 0 \<le> evtfd
     \<and> ct < next_address w \<and> c < next_address w
     \<and> EventLoop False False (threadId (loops w m)) timerfd ct evtfd c = Inr (loops w m))"

lemma new_loopD:
  assumes "new_loop w m"
  shows "wf_poller (loops w m)" "pendingFunctors (loops w m) = []" "\<not> callingPendingFunctors (loops w m)"
    "dom (heap (loops w m)) = {wakeupChannel (loops w m), timerChannel (loops w m)}"
    "\<And>d ch. heap (loops w m) d = Some ch \<Longrightarrow> \<not> tied ch \<and> index ch = kAdded \<and> d < next_address w"
    "\<not> quit_flag (loops w m)" "event_slots (loops w m) = kInitEventListSize"
proof -
  obtain timerfd ct evtfd c where f: "timerfd \<noteq> evtfd" "ct \<noteq> c" "0 \<le> evtfd" "ct < next_address w" "c < next_address w"
    "EventLoop False False (threadId (loops w m)) timerfd ct evtfd c = Inr (loops w m)"
    using assms by (auto simp: new_loop_def)
  obtain e :: "loop_functor eventloop" where e: "EventLoop False False (threadId (loops w m)) timerfd ct evtfd c = Inr e"
    "wf_poller e" "heap e = [ct \<mapsto> want_read (Channel timerfd)\<lparr>index := kAdded\<rparr>,
                 c \<mapsto> want_read (Channel evtfd)\<lparr>index := kAdded\<rparr>]"
    "event_slots e = kInitEventListSize" "timerChannel e = ct" "wakeupChannel e = c" "pendingFunctors e = []"
    "\<not> callingPendingFunctors e" "\<not> quit_flag e"
    using EventLoop_ok[OF f(1-3), of "threadId (loops w m)"] by blast
  have same: "loops w m = e" using e(1) f(6) by simp
  then show "wf_poller (loops w m)" "pendingFunctors (loops w m) = []" "\<not> callingPendingFunctors (loops w m)"
    "\<not> quit_flag (loops w m)" "event_slots (loops w m) = kInitEventListSize"
    using e by simp_all
  show "dom (heap (loops w m)) = {wakeupChannel (loops w m), timerChannel (loops w m)}"
    unfolding same e(3,5,6) by auto
  show "\<not> tied ch \<and> index ch = kAdded \<and> d < next_address w" if "heap (loops w m) d = Some ch" for d ch
    using that f(4,5) unfolding same e(3) by (auto simp: want_read_def Channel_def split: if_splits)
qed

lemma start_pool_none: "\<exists>p'. start_pool None fresh p w = Inr (p', w)"
proof -
  have "\<exists>p'. call_sequence (start_thread None fresh) ns (p, w) = Inr (p', w)" for ns p
    by (induction ns arbitrary: p) (simp_all add: call_sequence_fun start_thread_def Let_def)
  then obtain p' where "call_sequence (start_thread None fresh) [0..<nat (numThreads p)] (p\<lparr>pool_started := True\<rparr>, w)
    = Inr (p', w)" by blast
  then show ?thesis by (simp add: start_pool_def)
qed

text \<open>A server \<open>w'\<close> that has been made in \<open>w\<close>, on loop \<open>l\<close> with the socket \<open>sock\<close>, and started.\<close>

definition started_on :: "nat \<Rightarrow> int \<Rightarrow> server_world \<Rightarrow> server_world \<Rightarrow> bool" where
  "started_on l sock w w' \<longleftrightarrow> srv_loop w' = l \<and> acceptChannel w' = next_address w
     \<and> next_address w' = Suc (next_address w) \<and> nextConnId w' = 1 \<and> next_loop (threadPool w') = 0
     \<and> connections w' = Map.empty \<and> accept_answers w' = accept_answers w
     \<and> next_address w \<notin> {wakeupChannel (loops w' l), timerChannel (loops w' l)}
     \<and> heap (loops w' l) (next_address w) = Some (want_read (Channel sock)\<lparr>index := kAdded\<rparr>)
     \<and> registry (loops w' l) = (registry (loops w l))(sock \<mapsto> next_address w)
     \<and> (\<forall>m. threadId (loops w' m) = threadId (loops w m) \<and> (m \<noteq> l \<longrightarrow> loops w' m = loops w m))"

text \<open>
  The state after the constructor and \<open>start\<close>: the loop of the server is \<open>e\<close>, which listens on the
  socket \<open>sock\<close>.
\<close>

definition just_started ::
    "nat \<Rightarrow> int \<Rightarrow> (nat \<Rightarrow> nat) \<Rightarrow> int \<Rightarrow> server_world \<Rightarrow> loop_functor eventloop \<Rightarrow> server_world \<Rightarrow> bool" where
  "just_started l sock fresh n w e w' \<longleftrightarrow>
     conns w' = conns w \<and> srv_loop w' = l \<and> acceptChannel w' = next_address w \<and> next_address w' = Suc (next_address w)
     \<and> connections w' = Map.empty \<and> nextConnId w' = 1 \<and> length (ipPort w') \<le> 21
     \<and> accept_answers w' = accept_answers w \<and> loops w' = (loops w)(l := e)
     \<and> pool_loops (threadPool w') = map fresh [0..<nat n] \<and> next_loop (threadPool w') = 0 \<and> baseLoop (threadPool w') = l
     \<and> wf_poller e \<and> registry e = (registry (loops w l))(sock \<mapsto> next_address w)
     \<and> heap e = (heap (loops w l))(next_address w \<mapsto> want_read (Channel sock)\<lparr>index := kAdded\<rparr>)
     \<and> event_slots e = event_slots (loops w l) \<and> poll_state.more e = poll_state.more (loops w l)"

lemma just_startedD:
  assumes "just_started l sock fresh n w e w'"
  shows "conns w' = conns w" "srv_loop w' = l" "acceptChannel w' = next_address w" "next_address w' = Suc (next_address w)"
    "connections w' = Map.empty" "nextConnId w' = 1" "loops w' m = (if m = l then e else loops w m)"
    and "threadId (loops w' m) = threadId (loops w m)" "wakeupChannel (loops w' m) = wakeupChannel (loops w m)"
    "timerChannel (loops w' m) = timerChannel (loops w m)" "pendingFunctors (loops w' m) = pendingFunctors (loops w m)"
    "callingPendingFunctors (loops w' m) = callingPendingFunctors (loops w m)"
    "quit_flag (loops w' m) = quit_flag (loops w m)" "event_slots (loops w' m) = event_slots (loops w m)"
    and "heap e = (heap (loops w l))(next_address w \<mapsto> want_read (Channel sock)\<lparr>index := kAdded\<rparr>)" "wf_poller e"
proof -
  note lf = loop_more_fields[of e "loops w l"]
  show "conns w' = conns w" "srv_loop w' = l" "acceptChannel w' = next_address w" "next_address w' = Suc (next_address w)"
    "connections w' = Map.empty" "nextConnId w' = 1" "loops w' m = (if m = l then e else loops w m)"
    "threadId (loops w' m) = threadId (loops w m)" "wakeupChannel (loops w' m) = wakeupChannel (loops w m)"
    "timerChannel (loops w' m) = timerChannel (loops w m)" "pendingFunctors (loops w' m) = pendingFunctors (loops w m)"
    "callingPendingFunctors (loops w' m) = callingPendingFunctors (loops w m)"
    "quit_flag (loops w' m) = quit_flag (loops w m)" "event_slots (loops w' m) = event_slots (loops w m)"
    "heap e = (heap (loops w l))(next_address w \<mapsto> want_read (Channel sock)\<lparr>index := kAdded\<rparr>)" "wf_poller e"
    using assms lf unfolding just_started_def by auto
qed

lemma server_start_run:
  assumes new: "new_loop w l" and here: "threadId (loops w l) = cur_thread w"
    and sock: "registry (loops w l) sock = None" "0 \<le> sock" and cb: "srv_threadInit cbs = None"
  shows "\<exists>w1 w' e. TcpServer (Some l) addr name opt sock True w = Inr w1
    \<and> server_start cbs fresh True (server_setThreadNum n w1) = Inr w' \<and> just_started l sock fresh n w e w'"
proof -
  let ?c = "next_address w" and ?p = "setThreadNum n (EventLoopThreadPool l name)"
  define w1 where "w1 = upd_loop l (put_channel ?c (Channel sock)) (w\<lparr>srv_loop := l, ipPort := toIpPort addr,
      srv_name := name, acceptSocket := sock, acceptChannel := next_address w,
      next_address := next_address w + 1, listenning := False, so_reuseaddr := (opt = kReusePort),
      so_reuseport := True, bound_to := Some addr, threadPool := EventLoopThreadPool l name,
      srv_started := 0, nextConnId := 1, connections := Map.empty\<rparr>)"
  note nl = new_loopD[OF new]
  have "heap (loops w l) ?c = None" using nl(5)[of ?c] by (cases "heap (loops w l) ?c") auto
  then obtain e where e: "enableReading ?c (put_channel ?c (Channel sock) (loops w l)) = Inr e"
    "wf_poller e" "registry e = (registry (loops w l))(sock \<mapsto> ?c)"
    "heap e = (heap (loops w l))(?c \<mapsto> want_read (Channel sock)\<lparr>index := kAdded\<rparr>)"
    "event_slots e = event_slots (loops w l)" "poll_state.more e = poll_state.more (loops w l)"
    using open_channel[OF nl(1) _ sock(1)] by blast
  obtain p where p: "start_pool None fresh ?p (w1\<lparr>threadPool := ?p, srv_started := 1\<rparr>)
      = Inr (p, w1\<lparr>threadPool := ?p, srv_started := 1\<rparr>)"
    using start_pool_none[of fresh ?p "w1\<lparr>threadPool := ?p, srv_started := 1\<rparr>"] by (elim exE) (rule that)
  note ps = start_pool_state[OF p]
  define w' where "w' = (upd_loop l (\<lambda>_. e) w1)\<lparr>srv_started := 1, threadPool := p, listenning := True\<rparr>"
  have "server_start cbs fresh True (server_setThreadNum n w1) = Inr w'"
    using e(1) here p by (cases w) (simp add: server_start_def Let_def cb server_setThreadNum_def run_on_def w1_def w'_def
        runInLoop_def isInLoopThread_def Acceptor_listen_def socket_listen_def on_loop_def upd_loop_def
        put_channel_def EventLoopThreadPool_def)
  moreover have "pool_loops p = map fresh [0..<nat n]" "next_loop p = 0" "baseLoop p = l"
    by (simp_all add: ps setThreadNum_def EventLoopThreadPool_def)
  then have "just_started l sock fresh n w e w'"
    using e(2-6) length_toIpPort by (simp add: just_started_def w'_def w1_def fun_eq_iff upd_loop_def)
  ultimately show ?thesis using TcpServer_eq[OF sock(2)] by (auto simp: w1_def)
qed

lemma started_poller:
  assumes J: "just_started l sock fresh n w e w'" and new: "new_loop w m"
  shows "poller_ok (\<lambda>_. Fresh) m w'"
proof -
  let ?c = "next_address w"
  note f = just_startedD[OF J] and nl = new_loopD[OF new]
  have c: "heap (loops w m) ?c = None" using nl(5)[of ?c] by (cases "heap (loops w m) ?c") auto
  have own: "own_channels m w' = {wakeupChannel (loops w m), timerChannel (loops w m)} \<union> (if m = l then {?c} else {})"
    by (simp add: own_channels_def f(2,3,9,10))
  have hp: "heap (loops w' m) = (if m = l then (heap (loops w m))(?c \<mapsto> want_read (Channel sock)\<lparr>index := kAdded\<rparr>)
      else heap (loops w m))" by (simp add: f(7,15))
  have "own_ok (\<lambda>_. Fresh) m w' d" if d: "d \<in> own_channels m w'" for d
  proof (cases "d = ?c \<and> m = l")
    case True
    then have "heap (loops w' m) d = Some (want_read (Channel sock)\<lparr>index := kAdded\<rparr>)" using hp by simp
    moreover have "d < next_address w'" using True by (simp add: f(4))
    ultimately show ?thesis by (simp add: own_ok_def live_def want_read_def Channel_def)
  next
    case False
    then have "d \<in> dom (heap (loops w m))" using d nl(4) by (auto simp: own split: if_splits)
    then obtain ch where ch: "heap (loops w m) d = Some ch" by blast
    then have "heap (loops w' m) d = Some ch" using c by (auto simp: hp)
    then show ?thesis using nl(5)[OF ch] by (simp add: own_ok_def f(4) live_def)
  qed
  moreover have "dom (heap (loops w' m)) = own_channels m w'" using nl(4) by (auto simp: hp own)
  moreover have "wf_poller (loops w' m)" using nl(1) f(16) by (simp add: f(7))
  ultimately show ?thesis by (simp add: poller_ok_def)
qed

lemma server_threads_start:
  assumes new: "\<And>m. m \<in> M \<Longrightarrow> new_loop w m" and M: "M = insert l (set (map fresh [0..<nat n]))"
    and ids: "inj_on (\<lambda>m. threadId (loops w m)) M" and here: "threadId (loops w l) = cur_thread w"
    and none: "\<And>i. conn_state (conns w i) \<noteq> kConnected"
    and sock: "registry (loops w l) sock = None" "0 \<le> sock" and cb: "srv_threadInit cbs = None"
  shows "\<exists>w1 w'. TcpServer (Some l) addr name opt sock True w = Inr w1
    \<and> server_start cbs fresh True (server_setThreadNum n w1) = Inr w'
    \<and> threads_inv (\<lambda>_. Fresh) \<lparr>srv = w', loop_at = (\<lambda>_. Polling), in_call = []\<rparr> \<and> server_loops w' = M
    \<and> started_on l sock w w' \<and> pool_loops (threadPool w') = map fresh [0..<nat n]
    \<and> (\<forall>m \<in> M. \<not> quit_flag (loops w' m) \<and> pendingFunctors (loops w' m) = []
         \<and> event_slots (loops w' m) = kInitEventListSize)"
proof -
  have l: "l \<in> M" by (simp add: M)
  note nl = new_loopD[OF new]
  obtain w1 w' e where w': "TcpServer (Some l) addr name opt sock True w = Inr w1"
    "server_start cbs fresh True (server_setThreadNum n w1) = Inr w'" and J: "just_started l sock fresh n w e w'"
    using server_start_run[OF new[OF l] here sock cb] by blast
  note f = just_startedD[OF J]
  have pool: "pool_loops (threadPool w') = map fresh [0..<nat n]" "next_loop (threadPool w') = 0"
    "baseLoop (threadPool w') = l" "length (ipPort w') \<le> 21" "accept_answers w' = accept_answers w"
    "registry e = (registry (loops w l))(sock \<mapsto> next_address w)" using J by (simp_all add: just_started_def)
  have L: "server_loops w' = M" by (simp add: server_loops_def f pool M)
  have "server_ok w'"
    using ids pool(4) by (simp add: server_ok_def names_inv_def f(2,5,6,8) wf_pool_def pool L)
  moreover have "queues_ok (\<lambda>_. Fresh) (todo \<lparr>srv = w', loop_at = (\<lambda>_. Polling), in_call = []\<rparr>) w'"
    using nl(2) by (simp add: queues_ok_def L todo_def swapped_def f(11) queue_ok_empty)
  moreover have "poller_ok (\<lambda>_. Fresh) m w'" if "m \<in> M" for m using started_poller[OF J new[OF that]] .
  ultimately have "world_inv (\<lambda>_. Fresh) (todo \<lparr>srv = w', loop_at = (\<lambda>_. Polling), in_call = []\<rparr>) w'"
    using none by (simp add: world_inv_def L conn_ok_def map_ok_def fds_ok_def live_def in_map_def f(1,5))
  moreover have "pos_ok (\<lambda>_. Fresh) m w' Polling" if "m \<in> M" for m
    using nl(2,3)[OF that] by (simp add: f(11,12) woken_def)
  ultimately have "threads_inv (\<lambda>_. Fresh) \<lparr>srv = w', loop_at = (\<lambda>_. Polling), in_call = []\<rparr>"
    by (simp add: threads_inv_def L)
  moreover have "started_on l sock w w'"
  proof -
    have "heap (loops w l) (next_address w) = None" using nl(5)[OF l] by (metis less_irrefl not_Some_eq)
    then have "next_address w \<notin> {wakeupChannel (loops w' l), timerChannel (loops w' l)}"
      using nl(4)[OF l] by (auto simp: f(9,10))
    then show ?thesis using f(2-6,8,15) pool(2,5,6) by (simp add: started_on_def f(7))
  qed
  ultimately show ?thesis using w' L nl(2,6,7) pool(1) by (auto simp: f(11,13,14))
qed

end
