(* ===== verification/Server_Schedules.thy ===== *)
theory Server_Schedules
  imports Thread_Runs Echo_Server Http_Server
begin

section \<open>The threads of the two servers\<close>

text \<open>
  The callbacks of the echo server and of an \<open>HttpServer\<close> work on the connection that they are
  called for. So what \<open>Threads_Safe\<close> and \<open>Thread_Runs\<close> show of every schedule holds for them:
  with as many loops as \<open>setThreadNum\<close> asks for and however the threads are scheduled, within what
  \<open>plausible\<close> says of the kernel and of the calls of other threads.
\<close>

lemma stays_bind_shutdown:
  "in_loop i w \<Longrightarrow> stays_open i w r \<Longrightarrow> stays_open i w (bind_result r (shutdown_conn i))"
  by (rule stays_open_bind) (simp_all add: shutdown_stays)

lemma in_loop_buffer: "in_loop i w \<Longrightarrow> wf_buffer (inputBuffer (conns w i))"
  by (simp add: in_loop_def conn_inv_def)

interpretation echo_threads: local_callbacks echo_callbacks
proof
  fix i t w
  assume l: "in_loop i w"
  obtain b where b: "retrieveAllAsString (inputBuffer (conns w i)) = Inr (contents (inputBuffer (conns w i)), b)"
    "wf_buffer b" using retrieve_all_input[OF in_loop_buffer[OF l]] by blast
  have s: "stays i w (upd_conn i (\<lambda>c. c\<lparr>inputBuffer := b\<rparr>) w)" by (rule stays_input[OF l b(2)]) simp
  have "stays_open i w (send_string echo_cbs i msg (upd_conn i (\<lambda>c. c\<lparr>inputBuffer := b\<rparr>) w))" for msg
    by (rule stays_open_from[OF s send_string_stays[OF stays_in_loop[OF l s]]]) (simp_all add: echo_cbs_def)
  then show "stays_open i w (call_function (srv_message echo_callbacks) (\<lambda>f. f i t w))"
    using b(1) by (simp add: echo_callbacks_def call_function_def echo_onMessage_def)
qed (simp_all add: echo_callbacks_def echo_onConnection_def fun_eq_iff)

text \<open>A user callback of an \<open>HttpServer\<close> that only fills in the response.\<close>

definition answers_with :: "(http_request \<Rightarrow> http_response \<Rightarrow> http_response) \<Rightarrow> http_callback option" where
  "answers_with g = Some (\<lambda>req resp. Inr (g req resp))"

lemma onRequest_stays:
  assumes l: "in_loop i w"
  shows "stays_open i w (onRequest (answers_with g) order i req w)"
proof -
  let ?r = "g req (HttpResponse (wants_close req))"
  obtain b where b: "appendToBuffer (order ?r) ?r (Buffer kInitialSize) = Inr b"
    using append_all_ok[OF wf_Buffer, of "response_pieces (order ?r) ?r" kInitialSize]
    by (auto simp: appendToBuffer_pieces)
  have "stays_open i w (bind_result (bind_result (send_buffer send_cbs i b w) (\<lambda>(b', w'). Inr w'))
      (\<lambda>w1. if p_closeConnection ?r then shutdown_conn i w1 else Inr w1))"
  proof (rule stays_open_bind[OF l])
    show "stays_open i w (bind_result (send_buffer send_cbs i b w) (\<lambda>(b', w'). Inr w'))"
      by (rule send_buffer_stays[OF l]) (simp_all add: send_cbs_def)
    show "stays_open i w1 (if p_closeConnection ?r then shutdown_conn i w1 else Inr w1)" if "in_loop i w1" for w1
      using that shutdown_stays stays_openI[OF stays_refl] by simp
  qed
  then show ?thesis
    using b by (simp add: onRequest_def answers_with_def call_function_def bind_result_assoc split_def)
qed

interpretation http_threads: local_callbacks "http_callbacks (answers_with g) order" for g order
proof
  fix i t w
  assume l: "in_loop i w"
  let ?cb = "answers_with g"
  obtain ok c' b where p: "parseRequest (inputBuffer (conns w i)) t HttpContext = Some (Inr (ok, c', b))"
    "wf_buffer b" using parse_new_context[OF in_loop_buffer[OF l]] by metis
  let ?w1 = "upd_conn i (\<lambda>c. c\<lparr>inputBuffer := b\<rparr>) w"
  have s: "stays i w ?w1" by (rule stays_input[OF l p(2)]) simp
  note l1 = stays_in_loop[OF l s]
  have "stays_open i ?w1 (bind_result
      (if \<not> ok then bind_result (send_string send_cbs i bad_request ?w1) (shutdown_conn i) else Inr ?w1)
      (\<lambda>w2. if gotAll c' then onRequest ?cb order i (c_request c') w2 else Inr w2))"
  proof (rule stays_open_bind[OF l1])
    have "stays_open i ?w1 (send_string send_cbs i bad_request ?w1)"
      by (rule send_string_stays[OF l1]) (simp_all add: send_cbs_def)
    then show "stays_open i ?w1 (if \<not> ok then bind_result (send_string send_cbs i bad_request ?w1) (shutdown_conn i)
        else Inr ?w1)"
      using stays_bind_shutdown[OF l1] stays_openI[OF stays_refl[OF l1]] by simp
    show "stays_open i w2 (if gotAll c' then onRequest ?cb order i (c_request c') w2 else Inr w2)"
      if "in_loop i w2" for w2
      using that onRequest_stays stays_openI[OF stays_refl] by simp
  qed
  from stays_open_from[OF s this]
  show "stays_open i w (call_function (srv_message (http_callbacks ?cb order)) (\<lambda>f. f i t w))"
    using p(1) by (simp add: http_callbacks_def call_function_def onMessage_def Let_def)
qed (simp_all add: http_callbacks_def onConnection_def fun_eq_iff)

subsection \<open>An \<open>HttpServer\<close> and its threads\<close>

text \<open>
  What a program gives to the constructor of an \<open>HttpServer\<close>, and the callback that it sets. The
  server has the loop of the program and four of its own.
\<close>

record http_setup =
  hs_loop :: nat
  hs_addr :: sockaddr_in
  hs_name :: "char list"
  hs_option :: server_option
  hs_sock :: int
  hs_fresh :: "nat \<Rightarrow> nat"
  hs_answer :: "http_request \<Rightarrow> http_response \<Rightarrow> http_response"
  hs_order :: header_order

definition hs_callbacks :: "http_setup \<Rightarrow> server_world server_callbacks" where
  "hs_callbacks h = http_callbacks (answers_with (hs_answer h)) (hs_order h)"

definition hs_loops :: "http_setup \<Rightarrow> nat set" where
  "hs_loops h = insert (hs_loop h) (set (map (hs_fresh h) [0..<4]))"

definition http_begin :: "http_setup \<Rightarrow> server_world \<Rightarrow> thread_state result" where
  "http_begin h w =
     bind_result (HttpServer (Some (hs_loop h)) (hs_addr h) (hs_name h) (hs_option h) (hs_sock h) True w) (\<lambda>w1.
     bind_result (http_start (answers_with (hs_answer h)) (hs_order h) (hs_fresh h) True w1) (\<lambda>w2.
       Inr \<lparr>srv = w2, loop_at = (\<lambda>_. Polling), in_call = []\<rparr>))"

text \<open>
  What the server finds when it is made: loops of its own, each in a thread of its own, and a
  listening socket that no loop watches.
\<close>

definition http_world_ok :: "http_setup \<Rightarrow> server_world \<Rightarrow> bool" where
  "http_world_ok h w \<longleftrightarrow> (\<forall>m \<in> hs_loops h. new_loop w m)
     \<and> inj_on (\<lambda>m. threadId (loops w m)) (hs_loops h) \<and> threadId (loops w (hs_loop h)) = cur_thread w
     \<and> (\<forall>i. conn_state (conns w i) \<noteq> kConnected)
     \<and> registry (loops w (hs_loop h)) (hs_sock h) = None \<and> 0 \<le> hs_sock h"

definition http_reached :: "http_setup \<Rightarrow> server_world \<Rightarrow> thread_state \<Rightarrow> bool" where
  "http_reached h w s \<longleftrightarrow> (\<exists>s0 evs. http_begin h w = Inr s0 \<and> plausible_run (hs_callbacks h) True evs s0
     \<and> server_run (hs_callbacks h) True evs s0 = Inr s)"

text \<open>
  A loop that waits has been woken if functors are queued, and each functor that is left is about a
  connection that the map or a poller still has; no functor about a connection is behind the one
  that destroys it.
\<close>

definition sound_state :: "thread_state \<Rightarrow> bool" where
  "sound_state s \<longleftrightarrow> (\<forall>l \<in> server_loops (srv s).
     (loop_at s l = Polling \<and> pendingFunctors (loops (srv s) l) \<noteq> [] \<longrightarrow> 0 < wakeup_count (loops (srv s) l))
     \<and> calls_in_time (todo s l)
     \<and> (\<forall>f \<in> set (todo s l). \<exists>i. conn_of f = Some i
          \<and> (connections (srv s) (conn_name (conns (srv s) i)) = Some i
             \<or> registry (loops (srv s) (conn_loop (conns (srv s) i))) (sockfd (conns (srv s) i)) = Some (Suc i))))"

lemma threads_sound:
  assumes T: "threads_inv st s"
  shows "sound_state s"
  unfolding sound_state_def
proof (intro ballI conjI)
  fix l assume l: "l \<in> server_loops (srv s)"
  show "loop_at s l = Polling \<and> pendingFunctors (loops (srv s) l) \<noteq> [] \<longrightarrow> 0 < wakeup_count (loops (srv s) l)"
    using T l by (auto simp: threads_inv_def woken_def dest!: bspec)
  show "calls_in_time (todo s l)" using destroyed_last[OF T l] by (rule calls_in_timeI)
  show "\<exists>i. conn_of f = Some i
          \<and> (connections (srv s) (conn_name (conns (srv s) i)) = Some i
             \<or> registry (loops (srv s) (conn_loop (conns (srv s) i))) (sockfd (conns (srv s) i)) = Some (Suc i))"
    if "f \<in> set (todo s l)" for f using functor_alive[OF T l that] by blast
qed

lemma http_begins:
  assumes "http_world_ok h w"
  shows "\<exists>s0. http_begin h w = Inr s0 \<and> threads_inv (\<lambda>_. Fresh) s0 \<and> server_loops (srv s0) = hs_loops h
    \<and> loop_at s0 = (\<lambda>_. Polling) \<and> in_call s0 = [] \<and> (\<forall>m \<in> hs_loops h. \<not> quit_flag (loops (srv s0) m)
         \<and> pendingFunctors (loops (srv s0) m) = [] \<and> event_slots (loops (srv s0) m) = kInitEventListSize)
    \<and> started_on (hs_loop h) (hs_sock h) w (srv s0)
    \<and> pool_loops (threadPool (srv s0)) = map (hs_fresh h) [0..<4]"
proof -
  have cb: "srv_threadInit (http_callbacks (answers_with (hs_answer h)) (hs_order h)) = None"
    by (simp add: http_callbacks_def)
  have M: "hs_loops h = insert (hs_loop h) (set (map (hs_fresh h) [0..<nat 4]))" by (simp add: hs_loops_def)
  obtain w1 w' where "TcpServer (Some (hs_loop h)) (hs_addr h) (hs_name h) (hs_option h) (hs_sock h) True w = Inr w1"
    "server_start (http_callbacks (answers_with (hs_answer h)) (hs_order h)) (hs_fresh h) True
       (server_setThreadNum 4 w1) = Inr w'"
    "threads_inv (\<lambda>_. Fresh) \<lparr>srv = w', loop_at = (\<lambda>_. Polling), in_call = []\<rparr>" "server_loops w' = hs_loops h"
    "\<forall>m \<in> hs_loops h. \<not> quit_flag (loops w' m) \<and> pendingFunctors (loops w' m) = []
       \<and> event_slots (loops w' m) = kInitEventListSize"
    "started_on (hs_loop h) (hs_sock h) w w'" "pool_loops (threadPool w') = map (hs_fresh h) [0..<nat 4]"
    using server_threads_start[where w = w and l = "hs_loop h" and n = 4, OF _ M _ _ _ _ _ cb] assms
    unfolding http_world_ok_def by blast
  then show ?thesis by (simp add: http_begin_def HttpServer_def http_start_def)
qed

lemma http_reached_inv:
  assumes "http_world_ok h w" and "http_reached h w s"
  shows "\<exists>st. threads_inv st s"
proof -
  from assms(2) obtain s0 evs where r: "http_begin h w = Inr s0" "plausible_run (hs_callbacks h) True evs s0"
    "server_run (hs_callbacks h) True evs s0 = Inr s" by (auto simp: http_reached_def)
  then have "threads_inv (\<lambda>_. Fresh) s0" using http_begins[OF assms(1)] by auto
  from http_threads.threads_run[OF this, of "hs_answer h" "hs_order h"] r(2,3) show ?thesis
    unfolding hs_callbacks_def by fastforce
qed

lemma http_reached_run:
  assumes "http_reached h w s" and "plausible_run (hs_callbacks h) True evs s" and "server_run (hs_callbacks h) True evs s = Inr s'"
  shows "http_reached h w s'"
proof -
  obtain s0 xs where s0: "http_begin h w = Inr s0" "plausible_run (hs_callbacks h) True xs s0"
    "server_run (hs_callbacks h) True xs s0 = Inr s" using assms(1) by (auto simp: http_reached_def)
  have "plausible_run (hs_callbacks h) True (xs @ evs) s0" using s0(2,3) assms(2) by (simp add: plausible_run_append)
  moreover have "server_run (hs_callbacks h) True (xs @ evs) s0 = Inr s'" using s0(3) assms(3) by (simp add: server_run_append)
  ultimately show ?thesis using s0(1) unfolding http_reached_def by blast
qed

lemma http_reached_step:
  "http_reached h w s \<Longrightarrow> plausible ev s \<Longrightarrow> server_step (hs_callbacks h) True ev s = Inr s' \<Longrightarrow> http_reached h w s'"
  by (rule http_reached_run[of h w s "[ev]"]) simp_all

subsection \<open>A sample\<close>

text \<open>Loop \<open>m\<close> runs in thread \<open>m + 1\<close>; its descriptors are \<open>2 m + 10\<close> and \<open>2 m + 11\<close>.\<close>

definition sample_setup :: http_setup where
  "sample_setup = \<lparr>hs_loop = 0, hs_addr = InetAddress 80 ''127.0.0.1'', hs_name = ''web'',
     hs_option = kNoReusePort, hs_sock = 3, hs_fresh = Suc, hs_answer = (\<lambda>req resp. resp),
     hs_order = (\<lambda>_. [])\<rparr>"

definition sample_threads :: server_world where
  "sample_threads = sample_server
     \<lparr>loops := (\<lambda>m. case EventLoop False False (Suc m) (2 * int m + 10) (2 * m) (2 * int m + 11) (2 * m + 1) of
          Inr e \<Rightarrow> e | Inl _ \<Rightarrow> sample_eventloop),
      conns := (\<lambda>i. (conns sample_server i)\<lparr>conn_state := kConnecting\<rparr>),
      accept_answers := (\<lambda>_. AcceptOk 40 (InetAddress 5000 ''127.0.0.1''))\<rparr>"

lemma sample_threads_loop:
  "\<exists>e. EventLoop False False (Suc m) (2 * int m + 10) (2 * m) (2 * int m + 11) (2 * m + 1) = Inr e
     \<and> loops sample_threads m = e \<and> threadId e = Suc m
     \<and> registry e = [2 * int m + 10 \<mapsto> 2 * m, 2 * int m + 11 \<mapsto> 2 * m + 1]"
proof -
  have d: "2 * int m + 10 \<noteq> 2 * int m + 11" "2 * m \<noteq> 2 * m + 1" "0 \<le> 2 * int m + 11" by simp_all
  obtain e :: "loop_functor eventloop" where
    e: "EventLoop False False (Suc m) (2 * int m + 10) (2 * m) (2 * int m + 11) (2 * m + 1) = Inr e"
    "threadId e = Suc m" "registry e = [2 * int m + 10 \<mapsto> 2 * m, 2 * int m + 11 \<mapsto> 2 * m + 1]"
    using EventLoop_ok[OF d, of "Suc m"] by blast
  then show ?thesis by (simp add: sample_threads_def)
qed

lemma sample_setup_loops: "hs_loops sample_setup = {0, 1, 2, 3, 4}"
  by (auto simp: hs_loops_def sample_setup_def)

lemma sample_threads_ok: "http_world_ok sample_setup sample_threads"
proof -
  have ids: "threadId (loops sample_threads m) = Suc m" for m using sample_threads_loop[of m] by auto
  have "new_loop sample_threads m" if "m \<in> hs_loops sample_setup" for m
  proof -
    have "2 * m < next_address sample_threads" "2 * m + 1 < next_address sample_threads"
      using that by (auto simp: sample_setup_loops sample_threads_def)
    then show ?thesis
      using sample_threads_loop[of m] unfolding new_loop_def ids
      by (intro exI[of _ "2 * int m + 10"] exI[of _ "2 * m"] exI[of _ "2 * int m + 11"] exI[of _ "2 * m + 1"]) auto
  qed
  moreover have "registry (loops sample_threads 0) 3 = None" using sample_threads_loop[of 0] by auto
  ultimately show ?thesis
    by (simp add: http_world_ok_def ids) (simp add: sample_setup_def sample_threads_def)
qed

lemma sample_first_step:
  assumes "http_begin sample_setup sample_threads = Inr s0"
  shows "\<exists>s. server_step (hs_callbacks sample_setup) True (RunLoop 0 (WaitErr 4) TimeStamp_default) s0 = Inr s
    \<and> plausible (RunLoop 0 (WaitErr 4) TimeStamp_default) s0"
proof -
  have s0: "threads_inv (\<lambda>_. Fresh) s0" "server_loops (srv s0) = {0, 1, 2, 3, 4}" "loop_at s0 = (\<lambda>_. Polling)"
    "event_slots (loops (srv s0) 0) = kInitEventListSize"
    using http_begins[OF sample_threads_ok] assms by (auto simp: sample_setup_loops)
  then have "sane_wait (WaitErr 4) 0 (srv s0)" by (simp add: sane_wait_def kInitEventListSize_def)
  moreover have "loop_at s0 0 = Polling" "0 \<in> server_loops (srv s0)" using s0 by simp_all
  ultimately show ?thesis
    using polling_turn[OF s0(1), of 0 "WaitErr 4" "hs_callbacks sample_setup" True TimeStamp_default] by auto
qed

text \<open>A client connects: loop 0 accepts, and hands the connection to loop 1.\<close>

definition sample_acceptor :: channel where
  "sample_acceptor = want_read (Channel 3)\<lparr>index := kAdded\<rparr>"

definition sample_polled :: "TimeStamp \<Rightarrow> thread_state \<Rightarrow> server_world" where
  "sample_polled t s = after_poll 0 (next_address sample_threads) sample_acceptor t ((srv s)\<lparr>cur_thread := 1\<rparr>)"

lemma sample_started:
  assumes "http_begin sample_setup sample_threads = Inr s"
  defines "c \<equiv> next_address sample_threads"
  shows "world_inv (\<lambda>_. Fresh) (todo s) (srv s)" "server_loops (srv s) = {0, 1, 2, 3, 4}" "loop_at s = (\<lambda>_. Polling)"
    "\<forall>m \<in> {0, 1, 2, 3, 4}. \<not> quit_flag (loops (srv s) m) \<and> pendingFunctors (loops (srv s) m) = []
       \<and> event_slots (loops (srv s) m) = kInitEventListSize"
    "pool_loops (threadPool (srv s)) = [1, 2, 3, 4]" "next_loop (threadPool (srv s)) = 0"
    "srv_loop (srv s) = 0" "acceptChannel (srv s) = c" "nextConnId (srv s) = 1" "next_address (srv s) = Suc c"
    "connections (srv s) = Map.empty" "accept_answers (srv s) n = AcceptOk 40 (InetAddress 5000 ''127.0.0.1'')"
    "c \<noteq> wakeupChannel (loops (srv s) 0)" "c \<noteq> timerChannel (loops (srv s) 0)"
    "heap (loops (srv s) 0) c = Some sample_acceptor"
    "registry (loops (srv s) m) = (if m = 0 then [10 \<mapsto> 0, 11 \<mapsto> 1, 3 \<mapsto> c] else [2 * int m + 10 \<mapsto> 2 * m, 2 * int m + 11 \<mapsto> 2 * m + 1])"
    "threadId (loops (srv s) m) = Suc m" "in_call s = []"
proof -
  have hs: "hs_loop sample_setup = 0" "hs_sock sample_setup = 3" "map (hs_fresh sample_setup) [0..<4] = [1, 2, 3, 4]"
    by (simp_all add: sample_setup_def upt_rec)
  have b: "threads_inv (\<lambda>_. Fresh) s" "server_loops (srv s) = hs_loops sample_setup" "loop_at s = (\<lambda>_. Polling)"
    "\<forall>m \<in> hs_loops sample_setup. \<not> quit_flag (loops (srv s) m) \<and> pendingFunctors (loops (srv s) m) = []
       \<and> event_slots (loops (srv s) m) = kInitEventListSize"
    "started_on 0 3 sample_threads (srv s)" "pool_loops (threadPool (srv s)) = [1, 2, 3, 4]" "in_call s = []"
    using http_begins[OF sample_threads_ok] assms(1) unfolding hs by auto
  have old: "threadId (loops sample_threads m) = Suc m"
    "registry (loops sample_threads m) = [2 * int m + 10 \<mapsto> 2 * m, 2 * int m + 11 \<mapsto> 2 * m + 1]" for m
    using sample_threads_loop[of m] by auto
  show "world_inv (\<lambda>_. Fresh) (todo s) (srv s)" using b(1) by (simp add: threads_inv_def)
  show "server_loops (srv s) = {0, 1, 2, 3, 4}" "loop_at s = (\<lambda>_. Polling)"
    "\<forall>m \<in> {0, 1, 2, 3, 4}. \<not> quit_flag (loops (srv s) m) \<and> pendingFunctors (loops (srv s) m) = []
       \<and> event_slots (loops (srv s) m) = kInitEventListSize"
    using b(2-4) unfolding sample_setup_loops by blast+
  show "pool_loops (threadPool (srv s)) = [1, 2, 3, 4]" by (rule b(6))
  show "in_call s = []" by (rule b(7))
  show "next_loop (threadPool (srv s)) = 0" "srv_loop (srv s) = 0" "acceptChannel (srv s) = c" "nextConnId (srv s) = 1"
    "next_address (srv s) = Suc c" "connections (srv s) = Map.empty"
    "accept_answers (srv s) n = AcceptOk 40 (InetAddress 5000 ''127.0.0.1'')"
    "c \<noteq> wakeupChannel (loops (srv s) 0)" "c \<noteq> timerChannel (loops (srv s) 0)"
    "heap (loops (srv s) 0) c = Some sample_acceptor"
    "registry (loops (srv s) m) = (if m = 0 then [10 \<mapsto> 0, 11 \<mapsto> 1, 3 \<mapsto> c] else [2 * int m + 10 \<mapsto> 2 * m, 2 * int m + 11 \<mapsto> 2 * m + 1])"
    "threadId (loops (srv s) m) = Suc m"
    using b(5) old[of m] old[of 0] unfolding started_on_def
    by (simp_all add: c_def sample_acceptor_def) (simp add: sample_threads_def)
qed

lemma sample_polls:
  assumes "http_begin sample_setup sample_threads = Inr s"
  shows "plausible (RunLoop 0 (WaitOk [(EPOLLIN, 3)]) t) s"
    and "server_step cbs True (RunLoop 0 (WaitOk [(EPOLLIN, 3)]) t) s
      = Inr \<lparr>srv = sample_polled t s, loop_at = (\<lambda>_. Polling)(0 := Handling [next_address sample_threads] t), in_call = []\<rparr>"
proof -
  note b = sample_started[OF assms]
  have "wf_poller (loops (srv s) 0)" using b(1) by (rule world_wf) (simp add: b(2))
  from registered_interest[OF this b(15)]
  have int: "interest (loops (srv s) 0) 3 = Some (events sample_acceptor, next_address sample_threads)"
    by (simp add: sample_acceptor_def want_read_def Channel_def)
  have slots: "1 < event_slots (loops (srv s) 0)" using b(4) by (simp add: kInitEventListSize_def)
  show "server_step cbs True (RunLoop 0 (WaitOk [(EPOLLIN, 3)]) t) s
      = Inr \<lparr>srv = sample_polled t s, loop_at = (\<lambda>_. Polling)(0 := Handling [next_address sample_threads] t), in_call = []\<rparr>"
    using poll_one[OF int b(15) slots, of EPOLLIN t] b(2,3) b(4) b(17)[of 0] b(18)
    by (simp add: loop_turn_def sample_polled_def after_poll_def upd_loop_def)
  show "plausible (RunLoop 0 (WaitOk [(EPOLLIN, 3)]) t) s"
    using b(3,4) b(14) b(16)[of 0] by (simp add: sane_wait_def sane_events_def kInitEventListSize_def EPOLLIN_def)
qed

lemma sample_hands_over:
  assumes "http_begin sample_setup sample_threads = Inr s"
  defines "i \<equiv> Suc (next_address sample_threads)"
  shows "\<exists>w. handle_channel cbs (\<lambda>_. True) 0 (next_address sample_threads) t (sample_polled t s) = Inr w
    \<and> pendingFunctors (loops w 1) = [ConnectEstablished i] \<and> conn_loop (conns w i) = 1
    \<and> connections w (conn_name (conns w i)) = Some i \<and> server_loops w = {0, 1, 2, 3, 4}
    \<and> (\<forall>m \<in> {0, 1, 2, 3, 4}. \<not> quit_flag (loops w m) \<and> event_slots (loops w m) = kInitEventListSize)"
proof -
  note b = sample_started[OF assms(1)]
  let ?c = "next_address sample_threads" and ?w1 = "sample_polled t s" and ?peer = "InetAddress 5000 ''127.0.0.1''"
  let ?w2 = "?w1\<lparr>accepts_done := Suc (accepts_done ?w1)\<rparr>"
  have lp: "loops ?w1 m = (if m = 0 then (put_channel ?c (set_revents EPOLLIN sample_acceptor) (loops (srv s) 0))
      \<lparr>activeChannels := [?c], pollReturnTime := t\<rparr> else loops (srv s) m)" for m
    by (simp add: sample_polled_def after_poll_def)
  have same: "threadPool ?w2 = threadPool (srv s)" "next_address ?w2 = i" "cur_thread ?w2 = 1" "srv_loop ?w2 = 0"
    "acceptChannel ?w1 = ?c" "accept_answers ?w1 (accepts_done ?w1) = AcceptOk 40 ?peer"
    using b(7,8,10) b(12)[of "accepts_done (srv s)"] by (simp_all add: sample_polled_def after_poll_def i_def)
  have n: "nextConnId ?w2 + 1 < 2 ^ 31" using b(9) by (simp add: sample_polled_def after_poll_def)
  have pool: "wf_pool (threadPool (srv s))" using b(1) by (simp add: world_inv_def server_ok_def)
  have "getAllLoops (threadPool (srv s)) = [1, 2, 3, 4]" using b(5) by (simp add: getAllLoops_def)
  then obtain p where p: "getNextLoop (threadPool ?w2) = Inr (1, p)" "pool_loops p = [1, 2, 3, 4]"
    using getNextLoop_ok[OF pool] b(5,6) same(1) by simp
  obtain laddr where new: "newConnection cbs 40 ?peer ?w2
    = run_on 1 (ConnectEstablished i) (connectEstablished (conn_cbs cbs) i) (allocated 1 p 40 laddr ?peer ?w2)"
    using newConnection_run[OF p(1), of cbs 40 ?peer] n unfolding same(2) by blast
  let ?w = "upd_loop 1 (queueInLoop 1 (ConnectEstablished i)) (allocated 1 p 40 laddr ?peer ?w2)"
  have run: "newConnection cbs 40 ?peer ?w2 = Inr ?w"
    unfolding new using b(17)[of 1] same(3) by (simp add: run_on_def runInLoop_def isInLoopThread_def lp put_channel_def)
  have "handle_channel cbs (\<lambda>_. True) 0 ?c t ?w1 = Acceptor_handleRead (Some (newConnection cbs)) ?w1"
    using handle_acceptor[of ?w1 0 "set_revents EPOLLIN sample_acceptor" cbs "\<lambda>_. True" t] b(13,14) same(5)
    by (simp add: lp put_channel_def sample_acceptor_def want_read_def Channel_def)
  then have "handle_channel cbs (\<lambda>_. True) 0 ?c t ?w1 = Inr ?w"
    using run same(6) by (simp add: Acceptor_handleRead_def socket_accept_def)
  moreover have "pendingFunctors (loops ?w 1) = [ConnectEstablished i]" using b(4) by (simp add: lp put_channel_def)
  moreover have "conn_loop (conns ?w i) = 1" "connections ?w (conn_name (conns ?w i)) = Some i"
    using same(2) by simp_all
  moreover have "server_loops ?w = {0, 1, 2, 3, 4}" using p(2) same(4) by (simp add: server_loops_def)
  moreover have "\<not> quit_flag (loops ?w m) \<and> event_slots (loops ?w m) = kInitEventListSize" if "m \<in> {0, 1, 2, 3, 4}" for m
    using b(4)[rule_format, OF that] by (cases "m = 0"; cases "m = 1") (simp_all add: lp put_channel_def)
  ultimately show ?thesis by blast
qed

lemma sample_fd_new:
  assumes "http_begin sample_setup sample_threads = Inr s"
  shows "\<not> fd_in_use 40 (sample_polled t s)"
proof -
  note b = sample_started[OF assms]
  have "registry (loops (sample_polled t s) m) 40 = None" if "m \<in> {0, 1, 2, 3, 4}" for m
    using that b(16)[of m] by (auto simp: sample_polled_def after_poll_def put_channel_def)
  moreover have "connections (sample_polled t s) = Map.empty" "server_loops (sample_polled t s) = {0, 1, 2, 3, 4}"
    using b(2,11) by (simp_all add: sample_polled_def after_poll_def server_loops_def)
  ultimately show ?thesis by (simp add: fd_in_use_def)
qed

lemma sample_accepts:
  fixes t :: TimeStamp
  assumes s0: "http_begin sample_setup sample_threads = Inr s0"
  defines "evs \<equiv> [RunLoop 0 (WaitOk [(EPOLLIN, 3)]) t, RunLoop 0 (WaitOk []) t]"
  shows "\<exists>s i. plausible_run cbs True evs s0 \<and> server_run cbs True evs s0 = Inr s
    \<and> pendingFunctors (loops (srv s) 1) = [ConnectEstablished i] \<and> conn_loop (conns (srv s) i) = 1
    \<and> connections (srv s) (conn_name (conns (srv s) i)) = Some i
    \<and> loop_at s = (\<lambda>_. Polling)(0 := Handling [] t) \<and> in_call s = [] \<and> server_loops (srv s) = {0, 1, 2, 3, 4}
    \<and> (\<forall>m \<in> {0, 1, 2, 3, 4}. \<not> quit_flag (loops (srv s) m) \<and> event_slots (loops (srv s) m) = kInitEventListSize)"
proof -
  note b = sample_started[OF s0] and p = sample_polls(1)[OF s0, of t] sample_polls(2)[OF s0, of cbs t]
  let ?c = "next_address sample_threads" and ?w1 = "sample_polled t s0"
  define s1 where "s1 = \<lparr>srv = ?w1, loop_at = (\<lambda>_. Polling)(0 := Handling [?c] t), in_call = []\<rparr>"
  obtain w where w: "handle_channel cbs (\<lambda>_. True) 0 ?c t ?w1 = Inr w"
    "pendingFunctors (loops w 1) = [ConnectEstablished (Suc ?c)]" "conn_loop (conns w (Suc ?c)) = 1"
    "connections w (conn_name (conns w (Suc ?c))) = Some (Suc ?c)" "server_loops w = {0, 1, 2, 3, 4}"
    "\<forall>m \<in> {0, 1, 2, 3, 4}. \<not> quit_flag (loops w m) \<and> event_slots (loops w m) = kInitEventListSize"
    using sample_hands_over[OF s0] by blast
  define s2 where "s2 = s1\<lparr>srv := w, loop_at := (loop_at s1)(0 := Handling [] t)\<rparr>"
  have w1: "threadId (loops ?w1 0) = 1" "server_loops ?w1 = {0, 1, 2, 3, 4}" "?w1\<lparr>cur_thread := 1\<rparr> = ?w1"
    "nextConnId ?w1 = 1" "accept_answers ?w1 n = AcceptOk 40 (InetAddress 5000 ''127.0.0.1'')" for n
    using b(17)[of 0] b(2,9) b(12)[of n] by (simp_all add: sample_polled_def server_loops_def after_poll_def put_channel_def upd_loop_def)
  have "handle_channel cbs (\<lambda>_. True) 0 ?c t (?w1\<lparr>cur_thread := Suc 0\<rparr>) = Inr w"
    using w(1) w1(3) by (simp only: One_nat_def)
  then have step2: "server_step cbs True (RunLoop 0 (WaitOk []) t) s1 = Inr s2"
    using w1(1,2) by (simp add: loop_turn_def s1_def s2_def)
  have "plausible (RunLoop 0 (WaitOk []) t) s1"
    using w1(4,5) sample_fd_new[OF s0] by (simp add: s1_def)
  then show ?thesis
    using p step2 w(2-6) by (intro exI[of _ s2] exI[of _ "Suc ?c"])
      (simp add: evs_def s1_def[symmetric] server_run_def del: server_step.simps plausible.simps, simp add: s2_def s1_def)
qed

subsection \<open>Properties\<close>

text \<open>C2: an \<open>HttpServer\<close> with its four threads is safe under every plausible schedule, with one exception. The user's
  callback only fills in the response; \<open>bind\<close> and \<open>listen\<close> succeed. The server starts; then its loops
  take any steps, other threads make calls of \<open>send\<close> and \<open>shutdown\<close>, in the
  steps the code has, and destructors run. No step fails, so none uses a freed channel, except that
  \<open>handleRead\<close> (\<open>onRequest\<close>, which sends a \<open>Buffer\<close>) or \<open>handleWrite\<close>, for a connection in the map,
  may read past the end of a buffer (\<open>overrun_turn\<close>). Every state reached is a \<open>sound_state\<close>: a loop
  with functors has been woken, and no functor is for a connection out of both map and poller. Assumed
  (\<open>plausible\<close>): a wait reports a descriptor once, not the timer, and no hangup with urgent data but
  no input; \<open>accept\<close> gives an unused descriptor; fewer than 2^31 - 1 connections; callers run no
  loop; a call does not go on once its connection is closed; a connection is freed once.\<close>

theorem http_threads_are_safe:
  assumes "http_world_ok h w"
  shows "\<exists>s0. http_begin h w = Inr s0 \<and> server_loops (srv s0) = hs_loops h
    \<and> (\<forall>evs. plausible_run (hs_callbacks h) True evs s0 \<longrightarrow>
         server_run (hs_callbacks h) True evs s0 = Inl OutOfBounds
           \<and> (\<exists>xs ev ys s. evs = xs @ ev # ys \<and> server_run (hs_callbacks h) True xs s0 = Inr s
                \<and> overrun_turn (hs_callbacks h) ev s)
         \<or> (\<exists>s. server_run (hs_callbacks h) True evs s0 = Inr s \<and> sound_state s))"
proof -
  obtain s0 where s0: "http_begin h w = Inr s0" "threads_inv (\<lambda>_. Fresh) s0" "server_loops (srv s0) = hs_loops h"
    using http_begins[OF assms] by blast
  show ?thesis
  proof (intro exI[of _ s0] conjI allI impI)
    fix evs assume "plausible_run (hs_callbacks h) True evs s0"
    from http_threads.threads_run[OF s0(2) this[unfolded hs_callbacks_def]]
    show "server_run (hs_callbacks h) True evs s0 = Inl OutOfBounds
        \<and> (\<exists>xs ev ys s. evs = xs @ ev # ys \<and> server_run (hs_callbacks h) True xs s0 = Inr s
             \<and> overrun_turn (hs_callbacks h) ev s)
      \<or> (\<exists>s. server_run (hs_callbacks h) True evs s0 = Inr s \<and> sound_state s)"
      unfolding hs_callbacks_def[symmetric]
      by (rule disj_forward) (assumption, erule exE, erule exE, erule conjE, drule threads_sound, intro exI conjI)
  qed (use s0 in simp_all)
qed

theorem http_threads_are_safe_witness:
  "\<exists>s0. http_begin sample_setup sample_threads = Inr s0 \<and> server_loops (srv s0) = {0, 1, 2, 3, 4}
    \<and> plausible_run (hs_callbacks sample_setup) True [RunLoop 0 (WaitErr 4) TimeStamp_default] s0
    \<and> (\<exists>s. server_run (hs_callbacks sample_setup) True [RunLoop 0 (WaitErr 4) TimeStamp_default] s0 = Inr s
         \<and> sound_state s)"
proof -
  let ?evs = "[RunLoop 0 (WaitErr 4) TimeStamp_default]"
  obtain s0 where s0: "http_begin sample_setup sample_threads = Inr s0" "server_loops (srv s0) = {0, 1, 2, 3, 4}"
    "\<forall>evs. plausible_run (hs_callbacks sample_setup) True evs s0 \<longrightarrow>
         server_run (hs_callbacks sample_setup) True evs s0 = Inl OutOfBounds
           \<and> (\<exists>xs ev ys s. evs = xs @ ev # ys \<and> server_run (hs_callbacks sample_setup) True xs s0 = Inr s
                \<and> overrun_turn (hs_callbacks sample_setup) ev s)
         \<or> (\<exists>s. server_run (hs_callbacks sample_setup) True evs s0 = Inr s \<and> sound_state s)"
    using http_threads_are_safe[OF sample_threads_ok] by (auto simp: sample_setup_loops)
  then obtain s where s: "server_step (hs_callbacks sample_setup) True (hd ?evs) s0 = Inr s"
    "plausible (hd ?evs) s0" using sample_first_step by (metis list.sel(1))
  then have p: "plausible_run (hs_callbacks sample_setup) True ?evs s0" by simp
  have run: "server_run (hs_callbacks sample_setup) True ?evs s0 = Inr s" using s(1) by simp
  then have "sound_state s" using s0(3)[rule_format, OF p] by (simp del: server_run_simps)
  with p run s0(1,2) show ?thesis by blast
qed

text \<open>C8: the thread of a loop works on its own loop. In any state that an \<open>HttpServer\<close> reaches, a step
  that the thread of loop \<open>l\<close> makes changes no connection of another loop; of another loop it
  changes the queue, to which it appends functors, the counter of its eventfd, and memory that was
  free, in which the acceptor puts the channel of a new connection.\<close>

theorem http_threads_are_confined:
  assumes "http_world_ok h w" and "http_reached h w s" and "plausible (RunLoop l ans now) s"
    and "server_step (hs_callbacks h) True (RunLoop l ans now) s = Inr s'"
  shows "(\<forall>j. Suc j < next_address (srv s) \<and> conn_loop (conns (srv s) j) \<noteq> l \<longrightarrow>
        conns (srv s') j = conns (srv s) j)
    \<and> (\<forall>m. m \<noteq> l \<longrightarrow> (\<exists>cs fs k. loops (srv s') m = (loops (srv s) m)
          \<lparr>heap := cs, pendingFunctors := pendingFunctors (loops (srv s) m) @ fs, wakeup_count := k\<rparr>
        \<and> (\<forall>c < next_address (srv s). cs c = heap (loops (srv s) m) c)))"
proof -
  obtain st where "threads_inv st s" using http_reached_inv[OF assms(1,2)] by blast
  from http_threads.threads_step[OF this assms(3), of "hs_answer h" "hs_order h" True] assms(4)
  have "confined l (srv s) (srv s')" unfolding hs_callbacks_def by auto
  then show ?thesis by (simp add: confined_def only_queued_def)
qed

theorem http_threads_are_confined_witness:
  "\<exists>s s'. http_reached sample_setup sample_threads s
    \<and> server_step (hs_callbacks sample_setup) True (RunLoop 0 (WaitErr 4) TimeStamp_default) s = Inr s'
    \<and> (\<exists>cs fs k. loops (srv s') 1 = (loops (srv s) 1)
          \<lparr>heap := cs, pendingFunctors := pendingFunctors (loops (srv s) 1) @ fs, wakeup_count := k\<rparr>
        \<and> (\<forall>c < next_address (srv s). cs c = heap (loops (srv s) 1) c))"
proof -
  obtain s s' where s: "http_begin sample_setup sample_threads = Inr s"
    "server_step (hs_callbacks sample_setup) True (RunLoop 0 (WaitErr 4) TimeStamp_default) s = Inr s'"
    "plausible (RunLoop 0 (WaitErr 4) TimeStamp_default) s"
    using http_begins[OF sample_threads_ok] sample_first_step by blast
  have r: "http_reached sample_setup sample_threads s"
    unfolding http_reached_def using s(1) by (intro exI[of _ s] exI[of _ "[]"]) simp
  have "(1::nat) \<noteq> 0" by simp
  with http_threads_are_confined[OF sample_threads_ok r s(3,2)] r s(2) show ?thesis by blast
qed

text \<open>C3: an \<open>HttpServer\<close> comes to rest, and then it holds what it needs. From any state in which all
  loops are about to wait and none has been told to quit, some further rounds, in which nothing
  is ready, empty all queues, and no descriptor is closed in them. Then each poller has registered its own channels and those of the
  connections in the map that run in its loop, and no other: nothing of a closed connection is left.\<close>

theorem http_server_comes_to_rest:
  assumes "http_world_ok h w" and "http_reached h w s"
    and "\<And>l. l \<in> server_loops (srv s) \<Longrightarrow> loop_at s l = Polling \<and> \<not> quit_flag (loops (srv s) l)"
  shows "\<exists>evs s'. set evs \<subseteq> {RunLoop l (WaitOk []) now | l. l \<in> server_loops (srv s)}
    \<and> server_run (hs_callbacks h) True evs s = Inr s' \<and> http_reached h w s'
    \<and> closed_fds (srv s') = closed_fds (srv s)
    \<and> (\<forall>l \<in> server_loops (srv s). todo s' l = []
       \<and> (\<forall>fd c. registry (loops (srv s') l) fd = Some c \<longleftrightarrow>
            (\<exists>ch. heap (loops (srv s') l) c = Some ch \<and> chan_fd ch = fd)
            \<and> (c \<in> own_channels l (srv s')
               \<or> (\<exists>i \<in> ran (connections (srv s')). c = Suc i \<and> conn_loop (conns (srv s') i) = l))))"
proof -
  obtain st where "threads_inv st s" using http_reached_inv[OF assms(1,2)] by blast
  from http_threads.loops_settle[OF this assms(3), of now "hs_answer h" "hs_order h" True]
  obtain evs s' st' where e: "set evs \<subseteq> {RunLoop l (WaitOk []) now | l. l \<in> server_loops (srv s)}"
    "server_run (hs_callbacks h) True evs s = Inr s'" "threads_inv st' s'" "server_loops (srv s') = server_loops (srv s)"
    "\<forall>l \<in> server_loops (srv s). loop_at s' l = Polling \<and> pendingFunctors (loops (srv s') l) = []"
    "carried {} st s st' s'" "plausible_run (hs_callbacks h) True evs s"
    unfolding hs_callbacks_def by blast
  have rest: "todo s' l = []" if "l \<in> server_loops (srv s')" for l
    using e(4,5) that by (simp add: todo_def swapped_def)
  have "http_reached h w s'" "closed_fds (srv s') = closed_fds (srv s)"
    using http_reached_run[OF assms(2) e(7,2)] e(6) by (simp_all add: carried_def)
  then show ?thesis using e(1,2,4) rest resources_at_rest(2)[OF e(3) rest] by (intro exI[of _ evs] exI[of _ s']) simp
qed

theorem http_server_comes_to_rest_witness:
  "\<exists>s evs s'. http_reached sample_setup sample_threads s
    \<and> server_run (hs_callbacks sample_setup) True evs s = Inr s' \<and> todo s' 1 = []"
proof -
  obtain s where s: "http_begin sample_setup sample_threads = Inr s" "server_loops (srv s) = hs_loops sample_setup"
    "loop_at s = (\<lambda>_. Polling)" "\<forall>m \<in> hs_loops sample_setup. \<not> quit_flag (loops (srv s) m)"
    using http_begins[OF sample_threads_ok] by blast
  have r: "http_reached sample_setup sample_threads s"
    unfolding http_reached_def using s(1) by (intro exI[of _ s] exI[of _ "[]"]) simp
  have "loop_at s l = Polling \<and> \<not> quit_flag (loops (srv s) l)" if "l \<in> server_loops (srv s)" for l
    using that s by simp
  from http_server_comes_to_rest[OF sample_threads_ok r this, of TimeStamp_default] obtain evs s' where
    "server_run (hs_callbacks sample_setup) True evs s = Inr s'" "\<forall>l \<in> server_loops (srv s). todo s' l = []" by blast
  then show ?thesis using r s(2) by (auto simp: sample_setup_loops)
qed

end
