(* ===== verification/Conn_Owners.thy ===== *)
theory Conn_Owners
  imports Server_Schedules
begin

section \<open>Who owns a connection (std::shared_ptr in src/net/TcpServer.cpp, src/net/TcpConnection.cpp)\<close>

text \<open>
  A \<open>TcpConnection\<close> lives as long as a shared pointer to it (\<open>owned\<close> in \<open>Server_Threads\<close>). The channels
  that a poller or a list of ready channels refer to, and the functors that are bound to the bare
  \<open>this\<close>, do not count. This theory says of every state of a server that whatever refers to a
  connection finds it owned, and that a connection which is not owned can be destroyed; then what
  happens to connections when a loop ends with functors in its queue, and when another thread is
  overtaken in a call of \<open>shutdown\<close>.
\<close>

text \<open>A functor, a ready channel and an entry of the poller are for a connection that somebody owns.\<close>

lemma functors_owned:
  assumes T: "threads_inv st s" and l: "l \<in> server_loops (srv s)" and f: "f \<in> set (todo s l)"
  shows "\<exists>i. conn_of f = Some i \<and> owned i s"
proof -
  obtain i where "conn_of f = Some i" "st i \<in> {Opening, Open, Removing, Dying}"
    using functor_alive[OF T l f] by blast
  then show ?thesis using owned_live[OF T] by (auto simp: live_def)
qed

lemma registered_owned:
  assumes T: "threads_inv st s" and l: "l \<in> server_loops (srv s)"
    and r: "registry (loops (srv s) l) fd = Some c"
  shows "c \<in> own_channels l (srv s) \<or> (\<exists>i. c = Suc i \<and> owned i s)"
proof -
  have "world_inv st (todo s) (srv s)" using T by (simp add: threads_inv_def)
  then have wf: "wf_poller (loops (srv s) l)" using world_wf l by blast
  then obtain ch where ch: "heap (loops (srv s) l) c = Some ch" "chan_fd ch = fd"
    using r unfolding wf_poller_def by blast
  then have "index ch \<noteq> kNew" using wf_pollerD(2)[OF wf ch(1)] r by simp
  then show ?thesis using channel_of_loop[OF T l ch(1)] by blast
qed

lemma ready_owned:
  assumes T: "threads_inv st s" and l: "l \<in> server_loops (srv s)"
    and at: "loop_at s l = Handling cs t" "c \<in> set cs"
  shows "c \<in> own_channels l (srv s) \<or> (\<exists>i. c = Suc i \<and> owned i s)"
proof -
  have "ready_ok st l (srv s) c" using T l at by (auto simp: threads_inv_def dest!: bspec)
  then show ?thesis using owned_live[OF T] by (auto simp: ready_ok_def live_def)
qed

text \<open>The last pointer to a connection is in the functor that destroys it, in the queue of its own loop.\<close>

lemma last_owner:
  assumes T: "threads_inv st s" and own: "owned i s"
    and gone: "connections (srv s) (conn_name (conns (srv s) i)) \<noteq> Some i"
  shows "ConnectDestroyed i \<in> set (todo s (conn_loop (conns (srv s) i)))"
    and "l \<in> server_loops (srv s) \<Longrightarrow> f \<in> set (todo s l) \<Longrightarrow> functor_holds f = Some i
      \<Longrightarrow> l = conn_loop (conns (srv s) i) \<and> f = ConnectDestroyed i"
proof -
  let ?io = "conn_loop (conns (srv s) i)"
  have W: "world_inv st (todo s) (srv s)" using T by (simp add: threads_inv_def)
  have "\<not> in_map (st i)" using W gone by (simp add: world_inv_def map_ok_def)
  then have dying: "st i = Dying" using owned_live[OF T] own by (auto simp: live_def in_map_def)
  then have "?io \<in> server_loops (srv s)" using world_conn(3)[OF W, of i] by (simp add: live_def)
  then show "ConnectDestroyed i \<in> set (todo s ?io)"
    using queued_owner[OF T, where l = ?io and i = i] dying by auto
  show "l = ?io \<and> f = ConnectDestroyed i"
    if "l \<in> server_loops (srv s)" "f \<in> set (todo s l)" "functor_holds f = Some i"
    using queued_owner(2)[OF T that] dying by (auto split: if_splits)
qed

text \<open>The connections of the server that have not been destroyed; those of its map are among them.\<close>

lemma stands_stage:
  assumes T: "threads_inv st s" and "stands i (srv s)"
  shows "Suc i < next_address (srv s)" and "st i \<noteq> Fresh"
proof -
  let ?l = "conn_loop (conns (srv s) i)"
  have W: "world_inv st (todo s) (srv s)" using T by (simp add: threads_inv_def)
  from assms(2) have ex: "?l \<in> server_loops (srv s)" "Suc i \<in> dom (heap (loops (srv s) ?l))"
    "Suc i \<notin> own_channels ?l (srv s)" by (auto simp: stands_def Let_def)
  then have "poller_ok st ?l (srv s)" using W by (simp add: world_inv_def)
  then show st: "st i \<noteq> Fresh" using ex(2,3) by (auto simp: poller_ok_def)
  have "conn_ok (st i) i (srv s)" using W by (simp add: world_inv_def)
  then show "Suc i < next_address (srv s)" using st by (simp add: conn_ok_def)
qed

lemma live_stands:
  assumes T: "threads_inv st s" and "live (st i)"
  shows "stands i (srv s)"
proof -
  have W: "world_inv st (todo s) (srv s)" using T by (simp add: threads_inv_def)
  note c = world_conn[OF W assms(2)]
  have "Suc i \<notin> own_channels (conn_loop (conns (srv s) i)) (srv s)"
  proof
    assume "Suc i \<in> own_channels (conn_loop (conns (srv s) i)) (srv s)"
    then have "own_ok st (conn_loop (conns (srv s) i)) (srv s) (Suc i)"
      using W c(3) by (simp add: world_inv_def poller_ok_def)
    moreover have "st i \<noteq> Fresh" using assms(2) by (auto simp: live_def)
    ultimately show False unfolding own_ok_def by blast
  qed
  then show ?thesis using c(3,5) by (auto simp: stands_def Let_def)
qed

lemma release_list:
  assumes "threads_inv st s" and "distinct is" and "\<forall>i \<in> set is. stands i (srv s) \<and> \<not> owned i s \<and> \<not> held i s"
  shows "\<exists>s'. server_run cbs ok (map (ReleaseFrom t) is) s = Inr s' \<and> threads_inv st s'
    \<and> plausible_run cbs ok (map (ReleaseFrom t) is) s
    \<and> closed_fds (srv s') = closed_fds (srv s) @ map (\<lambda>i. sockfd (conns (srv s) i)) is
    \<and> conns (srv s') = conns (srv s) \<and> connections (srv s') = connections (srv s)
    \<and> server_loops (srv s') = server_loops (srv s) \<and> todo s' = todo s \<and> in_call s' = in_call s
    \<and> (\<forall>j. stands j (srv s') \<longleftrightarrow> stands j (srv s) \<and> j \<notin> set is)"
  using assms
proof (induction "is" arbitrary: s)
  case Nil
  then show ?case by (simp add: server_run_def)
next
  case (Cons i "is")
  then have own: "\<not> owned i s" "stands i (srv s)" and free: "\<not> held i s" by simp_all
  obtain w' where w': "TcpConnection_destroy i ((srv s)\<lparr>cur_thread := t\<rparr>) = Inr w'" "threads_inv st (s\<lparr>srv := w'\<rparr>)"
    "closed_fds w' = closed_fds (srv s) @ [sockfd (conns (srv s) i)]" "conns w' = conns (srv s)"
    "connections w' = connections (srv s)" "server_loops w' = server_loops (srv s)"
    "todo (s\<lparr>srv := w'\<rparr>) = todo s" "\<forall>j. stands j w' \<longleftrightarrow> stands j (srv s) \<and> j \<noteq> i"
    using release_turn[OF Cons.prems(1) own, of t] by blast
  let ?s = "s\<lparr>srv := w'\<rparr>"
  have step: "server_step cbs ok (ReleaseFrom t i) s = Inr ?s" using w'(1) own free by simp
  have "owned j ?s = owned j s" "held j ?s = held j s" for j by (simp_all add: owned_def held_def w'(4-7))
  then have "\<forall>j \<in> set is. stands j (srv ?s) \<and> \<not> owned j ?s \<and> \<not> held j ?s" using Cons.prems(2,3) w'(8) by auto
  then obtain s' where s': "server_run cbs ok (map (ReleaseFrom t) is) ?s = Inr s'" "threads_inv st s'"
    "plausible_run cbs ok (map (ReleaseFrom t) is) ?s"
    "closed_fds (srv s') = closed_fds w' @ map (\<lambda>i. sockfd (conns w' i)) is"
    "conns (srv s') = conns w'" "connections (srv s') = connections w'"
    "server_loops (srv s') = server_loops w'" "todo s' = todo ?s" "in_call s' = in_call ?s"
    "\<forall>j. stands j (srv s') \<longleftrightarrow> stands j w' \<and> j \<notin> set is"
    using Cons.IH[OF w'(2)] Cons.prems(2) by auto
  have "server_run cbs ok (map (ReleaseFrom t) (i # is)) s = Inr s'"
    using step s'(1) by (simp add: server_run_def del: server_step.simps)
  moreover have "plausible_run cbs ok (map (ReleaseFrom t) (i # is)) s"
    using step s'(3) own(2) by (simp del: server_step.simps)
  ultimately show ?case using s'(2,4-10) w'(3-8) by auto
qed

subsection \<open>The end of a loop with functors in its queue\<close>

text \<open>
  The destructor of the vector \<open>pendingFunctors_\<close> drops the functors one after the other, with the
  pointers they hold; a functor that is not called does nothing else. \<open>destroy_loop\<close> is \<open>~EventLoop\<close>
  in a server: \<open>EventLoop_destroy\<close> with the connections that its queue has kept.
\<close>

fun release_functors :: "nat \<Rightarrow> loop_functor list \<Rightarrow> server_world \<Rightarrow> server_world result" where
  "release_functors l [] w = Inr (upd_loop l (\<lambda>e. e\<lparr>pendingFunctors := []\<rparr>) w)"
| "release_functors l (f # fs) w =
     bind_result
       (let w1 = upd_loop l (\<lambda>e. e\<lparr>pendingFunctors := fs\<rparr>) w
        in case functor_holds f of None \<Rightarrow> Inr w1 | Some i \<Rightarrow> release_connection i w1)
       (release_functors l fs)"

definition destroy_loop :: "nat \<Rightarrow> server_world \<Rightarrow> server_world result" where
  "destroy_loop l w =
     bind_result (on_loop (\<lambda>c e. bind_result (disableAll c e) (channel_remove c)) l (wakeupChannel (loops w l)) w) (\<lambda>w1.
     bind_result (release_functors l (pendingFunctors (loops w1 l)) w1) (\<lambda>w2.
     bind_result (on_loop (Channel_destroy (cur_thread w2)) l (wakeupChannel (loops w l)) w2) (\<lambda>w3.
     bind_result (TimerQueue_destroy (cur_thread w3) (srv_timers w3 l) (loops w3 l)) (\<lambda>(q, e).
       Inr (upd_timers l (\<lambda>_. q) (upd_loop l (\<lambda>_. e) w3))))))"

text \<open>Without a pointer in the queue, that is what the destructor of the loop does and nothing else.\<close>

lemma release_nothing:
  "\<forall>f \<in> set fs. functor_holds f = None \<Longrightarrow> fs \<noteq> [] \<or> pendingFunctors (loops w l) = [] \<Longrightarrow>
     release_functors l fs w = Inr (upd_loop l (\<lambda>e. e\<lparr>pendingFunctors := []\<rparr>) w)"
  by (induction fs arbitrary: w) (auto simp: upd_loop_def)

lemma destroy_loop_eq:
  assumes "\<forall>f \<in> set (pendingFunctors (loops w l)). functor_holds f = None"
  shows "destroy_loop l w = bind_result (EventLoop_destroy (cur_thread w) (loops w l)) (\<lambda>e.
    Inr (upd_timers l (\<lambda>q. q\<lparr>timer_heap := foldl (\<lambda>h t. h(snd t := None)) (timer_heap q) (timers q)\<rparr>)
      (upd_loop l (\<lambda>_. e) w)))"
proof (cases "bind_result (disableAll (wakeupChannel (loops w l)) (loops w l))
    (channel_remove (wakeupChannel (loops w l)))")
  case (Inl a)
  then show ?thesis by (simp add: destroy_loop_def EventLoop_destroy_def on_loop_def)
next
  case (Inr e)
  then have "pendingFunctors e = pendingFunctors (loops w l)"
    using loop_more_fields(8)[of e "loops w l"] change_events_more channel_remove_more
    by (fastforce simp: disableAll_def)
  then have "release_functors l (pendingFunctors e) (upd_loop l (\<lambda>_. e) w)
      = Inr (upd_loop l (\<lambda>e. e\<lparr>pendingFunctors := []\<rparr>) (upd_loop l (\<lambda>_. e) w))"
    using assms by (intro release_nothing) auto
  note run = this Inr
  let ?d = "Channel_destroy (cur_thread w) (wakeupChannel (loops w l)) (e\<lparr>pendingFunctors := []\<rparr>)"
  show ?thesis
  proof (cases ?d)
    case (Inl a)
    then show ?thesis using run
      by (simp add: destroy_loop_def EventLoop_destroy_def on_loop_def upd_loop_def)
  next
    case (Inr b)
    then show ?thesis using run
      by (cases "close_timerChannel (cur_thread w) b")
        (simp_all add: destroy_loop_def EventLoop_destroy_def on_loop_def upd_loop_def upd_timers_def
          TimerQueue_destroy_def)
  qed
qed

text \<open>A registered channel of a connection whose last pointer goes, in the thread of its loop.\<close>

lemma release_registered:
  assumes wf: "wf_poller (loops w l)" and ch: "heap (loops w l) (conn_channel (conns w i)) = Some ch"
    "index ch \<noteq> kNew" and l: "conn_loop (conns w i) = l" "threadId (loops w l) = cur_thread w"
    and last: "\<not> conn_shared i w"
  shows "release_connection i w = Inl AssertFail"
  using last Channel_destroy_registered[OF wf ch l(2)] l(1)
  by (simp add: release_connection_def TcpConnection_destroy_def on_loop_def)

text \<open>
  Loops that \<open>conn_shared\<close> looks at. A connection is open and settled when no functor holds it.
\<close>

definition settled :: "nat \<Rightarrow> server_world \<Rightarrow> bool" where
  "settled i w \<longleftrightarrow> (\<forall>l \<in> set (srv_loop w # getAllLoops (threadPool w)).
     Some i \<notin> functor_holds ` set (pendingFunctors (loops w l)))"

lemma conn_shared_settled:
  "conn_shared i w \<longleftrightarrow> connections w (conn_name (conns w i)) = Some i \<or> \<not> settled i w"
  by (auto simp: conn_shared_def settled_def list_ex_iff)

text \<open>
  The thread of the server destroys it while the loop \<open>l\<close> of one of its connections is between the
  last critical section of \<open>doPendingFunctors\<close> and its test of \<open>quit_\<close>: the functor is queued, and the
  thread that owned the loop tells it to quit.
\<close>

lemma destroy_queues:
  assumes n: "connections w n = Some i" "conn_name (conns w i) = n"
    and l: "conn_loop (conns w i) = l" "l \<in> set (srv_loop w # getAllLoops (threadPool w))"
    and other: "threadId (loops w l) \<noteq> cur_thread w"
  shows "destroy_connection cbs n w
    = Inr (upd_loop l (queueInLoop (cur_thread w) (ConnectDestroyed i)) (w\<lparr>connections := (connections w)(n := None)\<rparr>))"
proof -
  let ?w = "upd_loop l (queueInLoop (cur_thread w) (ConnectDestroyed i)) (w\<lparr>connections := (connections w)(n := None)\<rparr>)"
  have "\<not> settled i ?w" using l(2) by (auto simp: settled_def intro!: bexI[of _ l])
  then have "conn_shared i ?w" by (simp add: conn_shared_settled)
  then show ?thesis
    using n l(1) other by (simp add: destroy_connection_def run_conn_def runInLoop_def isInLoopThread_def
        release_connection_def cloop_def upd_cloop_def)
qed

lemma loop_dies_with_connection:
  assumes wf: "wf_poller (loops w l)" and thr: "threadId (loops w l) = cur_thread w"
    and wake: "heap (loops w l) (wakeupChannel (loops w l)) = Some wch" "index wch = kAdded"
    and ch: "heap (loops w l) (conn_channel (conns w i)) = Some ch" "index ch \<noteq> kNew"
      "conn_channel (conns w i) \<noteq> wakeupChannel (loops w l)" "conn_loop (conns w i) = l"
    and pend: "pendingFunctors (loops w l) = [ConnectDestroyed i]"
    and last: "connections w (conn_name (conns w i)) \<noteq> Some i"
      "settled i (upd_loop l (\<lambda>e. e\<lparr>pendingFunctors := []\<rparr>) w)"
  shows "destroy_loop l w = Inl AssertFail"
proof -
  let ?e = "loops w l" and ?c = "conn_channel (conns w i)"
  have free: "fd_free (wakeupChannel ?e) wch ?e" using wake(2) by (simp add: fd_free_def index_defs)
  obtain e where e: "bind_result (disableAll (wakeupChannel ?e) ?e) (channel_remove (wakeupChannel ?e)) = Inr e"
    "wf_poller e" "registry e = (registry ?e)(chan_fd wch := None)"
    "heap e = (heap ?e)(wakeupChannel ?e \<mapsto> unwant_all wch\<lparr>index := kNew\<rparr>)" "poll_state.more e = poll_state.more ?e"
    using close_channel[OF wf wake(1) free] by (elim exE conjE) (rule that)
  note more = loop_more_fields[OF e(5)]
  let ?w = "upd_loop l (\<lambda>_. e\<lparr>pendingFunctors := []\<rparr>) w"
  have "wf_poller (loops ?w l)" using e(2) wf_poller_cong[of e "e\<lparr>pendingFunctors := []\<rparr>"] by simp
  moreover have "heap (loops ?w l) (conn_channel (conns ?w i)) = Some ch" using ch(1,3) by (simp add: e(4))
  moreover have "settled i ?w" using last(2) by (auto simp: settled_def split: if_splits)
  ultimately have "release_connection i ?w = Inl AssertFail"
    using ch(2,4) last(1) thr more by (intro release_registered[where l = l and ch = ch]) (simp_all add: conn_shared_settled)
  then show ?thesis
    using e(1) more pend by (simp add: destroy_loop_def on_loop_def upd_loop_def)
qed

subsection \<open>A call that is overtaken by the closing of its connection\<close>

text \<open>What \<open>shutdown\<close> does after its test of the state.\<close>

definition shutdown_rest :: "nat \<Rightarrow> server_world \<Rightarrow> server_world result" where
  "shutdown_rest i w = run_conn i (ShutdownInLoop i) (shutdownInLoop i) (setState i kDisconnecting w)"

lemma shutdown_conn_rest:
  "shutdown_conn i w = (if conn_state (conns w i) = kConnected then shutdown_rest i w else Inr w)"
  by (simp add: shutdown_conn_def shutdown_rest_def)

lemma shutdown_rest_steps: "shutdown_rest i w = shutdown_queue i (setState i kDisconnecting w)"
  by (simp add: shutdown_rest_def shutdown_queue_def)

text \<open>The functor that it queues has no pointer; the one of the caller goes when the call returns.\<close>

lemma late_shutdown:
  assumes wf: "wf_poller (loops w l)" and ch: "heap (loops w l) (conn_channel (conns w i)) = Some ch" "index ch = kNew"
    and l: "conn_loop (conns w i) = l" "threadId (loops w l) \<noteq> cur_thread w"
    and pend: "pendingFunctors (loops w l) = []" and last: "\<not> conn_shared i w"
  shows "\<exists>w1 w2. shutdown_rest i w = Inr w1 \<and> release_connection i w1 = Inr w2
    \<and> closed_fds w2 = closed_fds w @ [sockfd (conns w i)] \<and> pendingFunctors (loops w2 l) = [ShutdownInLoop i]
    \<and> exec_functor cbs ok (ShutdownInLoop i) (w2\<lparr>cur_thread := threadId (loops w l)\<rparr>) = Inl NullPointer"
proof -
  let ?q = "queueInLoop (cur_thread w) (ShutdownInLoop i) (loops w l)" and ?c = "conn_channel (conns w i)"
  let ?w1 = "upd_loop l (\<lambda>_. ?q) (setState i kDisconnecting w)"
  have run: "shutdown_rest i w = Inr ?w1"
    using l by (simp add: shutdown_rest_def run_conn_def runInLoop_def isInLoopThread_def cloop_def upd_cloop_def
        setState_def upd_conn_def upd_loop_def)
  have wf1: "wf_poller ?q" by (rule wf_poller_cong[THEN iffD1, OF _ _ _ wf]) simp_all
  have ch1: "heap ?q ?c = Some ch" using ch(1) by simp
  have "settled i ?w1" unfolding settled_def
  proof
    fix m assume m: "m \<in> set (srv_loop ?w1 # getAllLoops (threadPool ?w1))"
    have "settled i w" using last by (simp add: conn_shared_settled)
    moreover have "m \<in> set (srv_loop w # getAllLoops (threadPool w))" using m by (simp add: setState_def)
    ultimately have "Some i \<notin> functor_holds ` set (pendingFunctors (loops w m))" unfolding settled_def by blast
    then show "Some i \<notin> functor_holds ` set (pendingFunctors (loops ?w1 m))"
      using pend by (cases "m = l") (simp_all add: setState_def)
  qed
  then have "\<not> conn_shared i ?w1"
    using last by (auto simp: conn_shared_settled setState_def upd_conn_def)
  then have "release_connection i ?w1
      = Inr (Socket_destroy (sockfd (conns w i)) (upd_loop l (\<lambda>_. ?q\<lparr>heap := (heap ?q)(?c := None)\<rparr>) ?w1))"
    using Channel_destroy_ok(1)[OF wf1 ch1 ch(2)] l(1)
    by (simp add: release_connection_def TcpConnection_destroy_def on_loop_def setState_def upd_conn_def)
  then show ?thesis
    using run pend l(1) by (simp add: Socket_destroy_def shutdownInLoop_def get_chan_def cloop_def setState_def upd_conn_def)
qed

subsection \<open>Properties\<close>

text \<open>C4: a connection is never destroyed too early, and it can be destroyed at any time after. In every
  state that an \<open>HttpServer\<close> reaches, a connection that a functor in a queue, a registered channel or
  a channel that a loop is about to handle belongs to is owned: the map or a queued functor holds a
  shared pointer to it. Once it has left the map, only the queue of its own loop holds one, in the
  functor that destroys it. A connection that nobody owns, that no thread holds which is in a call
  of \<open>send\<close> or \<open>shutdown\<close>, and that has not been destroyed yet can be, by any thread: its socket is
  closed, and the state after that is reached too. Reached means by a schedule that is \<open>plausible\<close>
  (http_threads_are_safe lists its conditions); the calls of other threads are taken in steps, the
  test of the state, its change and the queueing, but no call goes on once \<open>handleClose\<close> has
  overtaken it: late_shutdown_meets_freed_connection shows that the first part is false without that.\<close>

theorem http_connections_are_owned:
  assumes "http_world_ok h w" and "http_reached h w s" and "l \<in> server_loops (srv s)"
  shows "(\<forall>f \<in> set (todo s l). \<exists>i. conn_of f = Some i \<and> owned i s)
    \<and> (\<forall>fd c. registry (loops (srv s) l) fd = Some c \<longrightarrow>
         c \<in> own_channels l (srv s) \<or> (\<exists>i. c = Suc i \<and> owned i s))
    \<and> (\<forall>cs t. loop_at s l = Handling cs t \<longrightarrow>
         (\<forall>c \<in> set cs. c \<in> own_channels l (srv s) \<or> (\<exists>i. c = Suc i \<and> owned i s)))
    \<and> (\<forall>i. owned i s \<and> connections (srv s) (conn_name (conns (srv s) i)) \<noteq> Some i \<longrightarrow>
         ConnectDestroyed i \<in> set (todo s (conn_loop (conns (srv s) i)))
         \<and> (\<forall>f \<in> set (todo s l). functor_holds f = Some i \<longrightarrow>
              l = conn_loop (conns (srv s) i) \<and> f = ConnectDestroyed i))
    \<and> (\<forall>i t. \<not> owned i s \<and> \<not> held i s \<and> stands i (srv s) \<longrightarrow>
         (\<exists>s'. server_step (hs_callbacks h) True (ReleaseFrom t i) s = Inr s' \<and> http_reached h w s'
           \<and> \<not> stands i (srv s') \<and> closed_fds (srv s') = closed_fds (srv s) @ [sockfd (conns (srv s) i)]))"
proof -
  obtain st where T: "threads_inv st s" using http_reached_inv[OF assms(1,2)] by blast
  note l = assms(3)
  have "\<exists>s'. server_step (hs_callbacks h) True (ReleaseFrom t i) s = Inr s' \<and> http_reached h w s'
      \<and> \<not> stands i (srv s') \<and> closed_fds (srv s') = closed_fds (srv s) @ [sockfd (conns (srv s) i)]"
    if own: "\<not> owned i s" "stands i (srv s)" and free: "\<not> held i s" for i t
  proof -
    obtain w' where w': "TcpConnection_destroy i ((srv s)\<lparr>cur_thread := t\<rparr>) = Inr w'"
      "closed_fds w' = closed_fds (srv s) @ [sockfd (conns (srv s) i)]" "\<not> stands i w'"
      using release_turn[OF T own, of t] by auto
    then have step: "server_step (hs_callbacks h) True (ReleaseFrom t i) s = Inr (s\<lparr>srv := w'\<rparr>)"
      using own(1) free by simp
    moreover have "plausible (ReleaseFrom t i) s" using own(2) by simp
    ultimately have "http_reached h w (s\<lparr>srv := w'\<rparr>)" using http_reached_step[OF assms(2)] by blast
    with w' step show ?thesis by auto
  qed
  moreover have "\<forall>f \<in> set (todo s l). \<exists>i. conn_of f = Some i \<and> owned i s" using functors_owned[OF T l] by blast
  moreover note registered_owned[OF T l] ready_owned[OF T l] last_owner[OF T] l
  ultimately show ?thesis by simp
qed

theorem http_connections_are_owned_witness:
  "\<exists>s i. http_reached sample_setup sample_threads s \<and> todo s 1 = [ConnectEstablished i]
    \<and> (\<exists>j. conn_of (ConnectEstablished i) = Some j \<and> owned j s)
    \<and> (\<forall>fd c. registry (loops (srv s) 1) fd = Some c \<longrightarrow>
         c \<in> own_channels 1 (srv s) \<or> (\<exists>i. c = Suc i \<and> owned i s))"
proof -
  let ?cbs = "hs_callbacks sample_setup" and ?t = TimeStamp_default
  obtain s0 where s0: "http_begin sample_setup sample_threads = Inr s0" using http_begins[OF sample_threads_ok] by blast
  obtain s i evs where s: "plausible_run ?cbs True evs s0" "server_run ?cbs True evs s0 = Inr s"
    "pendingFunctors (loops (srv s) 1) = [ConnectEstablished i]"
    "loop_at s = (\<lambda>_. Polling)(0 := Handling [] ?t)" "server_loops (srv s) = {0, 1, 2, 3, 4}"
    using sample_accepts[OF s0, of ?cbs ?t] by blast
  have r: "http_reached sample_setup sample_threads s" unfolding http_reached_def using s0 s(1,2) by blast
  have l: "1 \<in> server_loops (srv s)" using s(5) by simp
  have todo: "todo s 1 = [ConnectEstablished i]" using s(3,4) by (simp add: todo_def swapped_def)
  note c = http_connections_are_owned[OF sample_threads_ok r l]
  from c have "\<exists>j. conn_of (ConnectEstablished i) = Some j \<and> owned j s" unfolding todo by simp
  moreover from c have "\<forall>fd c. registry (loops (srv s) 1) fd = Some c \<longrightarrow>
         c \<in> own_channels 1 (srv s) \<or> (\<exists>i. c = Suc i \<and> owned i s)" by blast
  ultimately show ?thesis using r todo by blast
qed

text \<open>C30: a loop that quits with functors in its queue takes a connection with it that is still
  registered. The destructor of a server, in a thread other than that of loop \<open>l\<close>, queues
  \<open>connectDestroyed\<close> for an open connection, and the functor has the last pointer to it. If the loop
  is past its last pass over the queue when \<open>quit\<close> comes, it stops without another one, and
  \<open>~EventLoop\<close>, which drops the functor, destroys the connection in the thread of the loop while the
  poller has its channel: the assertion in \<open>~Channel\<close> fails.\<close>

theorem quit_loses_destruction:
  assumes "wf_poller (loops w l)" and "pendingFunctors (loops w l) = []"
    and n: "connections w n = Some i" "conn_name (conns w i) = n" "settled i w"
    and l: "conn_loop (conns w i) = l" "l \<in> set (srv_loop w # getAllLoops (threadPool w))"
    and other: "threadId (loops w l) \<noteq> cur_thread w"
    and ch: "heap (loops w l) (conn_channel (conns w i)) = Some ch" "index ch = kAdded"
      "conn_channel (conns w i) \<noteq> wakeupChannel (loops w l)"
    and wake: "heap (loops w l) (wakeupChannel (loops w l)) = Some wch" "index wch = kAdded"
  shows "\<exists>w1. destroy_connection cbs n w = Inr w1 \<and> pendingFunctors (loops w1 l) = [ConnectDestroyed i]
    \<and> (let w2 = (upd_loop l (quit (cur_thread w1)) w1)\<lparr>cur_thread := threadId (loops w1 l)\<rparr>
       in (\<forall>envs. loop_rounds (\<lambda>w. loops w l) (upd_loop l) (exec_functor cbs ok) (handle_channel cbs alive l) envs w2
             = Inr (upd_loop l (\<lambda>e. e\<lparr>looping := False\<rparr>) w2))
          \<and> destroy_loop l (upd_loop l (\<lambda>e. e\<lparr>looping := False\<rparr>) w2) = Inl AssertFail)"
proof -
  let ?w1 = "upd_loop l (queueInLoop (cur_thread w) (ConnectDestroyed i)) (w\<lparr>connections := (connections w)(n := None)\<rparr>)"
  have run: "destroy_connection cbs n w = Inr ?w1" using destroy_queues[OF n(1,2) l other] by simp
  have pend: "pendingFunctors (loops ?w1 l) = [ConnectDestroyed i]" using assms(2) by simp
  define w2 where "w2 = (upd_loop l (quit (cur_thread ?w1)) ?w1)\<lparr>cur_thread := threadId (loops ?w1 l)\<rparr>"
  let ?w3 = "upd_loop l (\<lambda>e. e\<lparr>looping := False\<rparr>) w2"
  have e: "loops w2 l = quit (cur_thread w) (queueInLoop (cur_thread w) (ConnectDestroyed i) (loops w l))"
    by (simp add: w2_def)
  have q: "quit_flag (loops w2 l)" by (simp add: e quit_def Let_def wakeup_def)
  have stop: "loop_rounds (\<lambda>w. loops w l) (upd_loop l) (exec_functor cbs ok) (handle_channel cbs alive l) envs w2
      = Inr ?w3" for envs by (subst loop_rounds.simps) (simp add: q)
  have same: "heap (loops ?w3 l) = heap (loops w l)" "registry (loops ?w3 l) = registry (loops w l)"
    "interest (loops ?w3 l) = interest (loops w l)" "wakeupChannel (loops ?w3 l) = wakeupChannel (loops w l)"
    "pendingFunctors (loops ?w3 l) = [ConnectDestroyed i]" "threadId (loops ?w3 l) = cur_thread ?w3"
    "conns ?w3 = conns w" "connections ?w3 = (connections w)(n := None)"
    using pend by (simp_all add: e w2_def quit_def Let_def queue_defs)
  have "wf_poller (loops ?w3 l)" using assms(1) wf_poller_cong same(1-3) by metis
  moreover have "settled i (upd_loop l (\<lambda>e. e\<lparr>pendingFunctors := []\<rparr>) ?w3)"
    using n(3) by (auto simp: settled_def w2_def)
  ultimately have "destroy_loop l ?w3 = Inl AssertFail"
    using loop_dies_with_connection[of ?w3 l wch i ch] wake ch l(1) n(2) same by (simp add: index_defs)
  then show ?thesis using run pend stop unfolding Let_def w2_def by blast
qed

text \<open>A server on loop 0 with a connection, on descriptor 8, that runs in loop 7, whose thread is 2.\<close>

lemma dying_sample:
  fixes e0 :: "loop_functor eventloop"
  assumes "EventLoop False False 2 4 20 5 21 = Inr e0"
  obtains e where "enableReading 1 (put_channel 1 (Channel 8) e0) = Inr e" "wf_poller e" "threadId e = 2"
    "heap e = (heap e0)(1 \<mapsto> want_read (Channel 8)\<lparr>index := kAdded\<rparr>)" "pendingFunctors e = []"
    "wakeupChannel e = 21" "heap e0 21 = Some (want_read (Channel 5)\<lparr>index := kAdded\<rparr>)"
proof -
  have e0: "wf_poller e0" "heap e0 = [20 \<mapsto> want_read (Channel 4)\<lparr>index := kAdded\<rparr>, 21 \<mapsto> want_read (Channel 5)\<lparr>index := kAdded\<rparr>]"
    "registry e0 = [4 \<mapsto> 20, 5 \<mapsto> 21]" "threadId e0 = 2" "wakeupChannel e0 = 21" "pendingFunctors e0 = []"
    using EventLoop_ok[of 4 5 20 21 2, where 'f = loop_functor] assms by auto
  have "heap e0 1 = None" "registry e0 8 = None" by (simp_all add: e0)
  from open_channel[OF e0(1) this] obtain e where e: "enableReading 1 (put_channel 1 (Channel 8) e0) = Inr e"
    "wf_poller e" "heap e = (heap e0)(1 \<mapsto> want_read (Channel 8)\<lparr>index := kAdded\<rparr>)"
    "poll_state.more e = poll_state.more e0" by blast
  have "threadId e = 2" "wakeupChannel e = 21" "pendingFunctors e = []"
    using loop_more_fields[OF e(4)] e0(4-6) by simp_all
  then show thesis using that[OF e(1,2)] e(3) e0(2) by simp
qed

theorem quit_loses_destruction_witness:
  "\<exists>e0 e w1. EventLoop False False 2 4 20 5 21 = Inr e0 \<and> enableReading 1 (put_channel 1 (Channel 8) e0) = Inr e
    \<and> destroy_connection quiet_server ''srv-127.0.0.1:80#1''
        (upd_loop 7 (\<lambda>_. e) (upd_conn 0 (\<lambda>c. c\<lparr>conn_loop := 7, sockfd := 8\<rparr>) sample_server)) = Inr w1
    \<and> pendingFunctors (loops w1 7) = [ConnectDestroyed 0]
    \<and> destroy_loop 7 (upd_loop 7 (\<lambda>e. e\<lparr>looping := False\<rparr>)
        ((upd_loop 7 (quit (cur_thread w1)) w1)\<lparr>cur_thread := threadId (loops w1 7)\<rparr>)) = Inl AssertFail"
proof -
  obtain e0 :: "loop_functor eventloop" where e0: "EventLoop False False 2 4 20 5 21 = Inr e0"
    using EventLoop_ok[of 4 5 20 21 2, where 'f = loop_functor] by auto
  obtain e where e: "enableReading 1 (put_channel 1 (Channel 8) e0) = Inr e" "wf_poller e" "threadId e = 2"
    "heap e = (heap e0)(1 \<mapsto> want_read (Channel 8)\<lparr>index := kAdded\<rparr>)" "pendingFunctors e = []"
    "wakeupChannel e = 21" "heap e0 21 = Some (want_read (Channel 5)\<lparr>index := kAdded\<rparr>)"
    using dying_sample[OF e0] by blast
  let ?w = "upd_loop 7 (\<lambda>_. e) (upd_conn 0 (\<lambda>c. c\<lparr>conn_loop := 7, sockfd := 8\<rparr>) sample_server)"
  have conn: "conn_loop (conns ?w 0) = 7" "conn_channel (conns ?w 0) = 1" "conn_name (conns ?w 0) = ''srv-127.0.0.1:80#1''"
    "connections ?w ''srv-127.0.0.1:80#1'' = Some 0" "loops ?w 7 = e" "loops ?w 0 = sample_loops 0"
    "srv_loop ?w = 0" "getAllLoops (threadPool ?w) = [7]" "cur_thread ?w = 1"
    by (simp_all add: upd_conn_def sample_world_def new_conn_def getAllLoops_def)
  have "settled 0 ?w" unfolding settled_def conn(7,8) using conn(5,6) e(5)
    by (simp add: sample_loops_def sample_eventloop_def)
  moreover have "index (want_read (Channel fd)\<lparr>index := kAdded\<rparr>) = kAdded" for fd by simp
  ultimately have "\<exists>w1. destroy_connection quiet_server ''srv-127.0.0.1:80#1'' ?w = Inr w1
      \<and> pendingFunctors (loops w1 7) = [ConnectDestroyed 0]
      \<and> (let w2 = (upd_loop 7 (quit (cur_thread w1)) w1)\<lparr>cur_thread := threadId (loops w1 7)\<rparr>
       in (\<forall>envs. loop_rounds (\<lambda>w. loops w 7) (upd_loop 7) (exec_functor quiet_server True)
              (handle_channel quiet_server (\<lambda>_. True) 7) envs w2 = Inr (upd_loop 7 (\<lambda>e. e\<lparr>looping := False\<rparr>) w2))
          \<and> destroy_loop 7 (upd_loop 7 (\<lambda>e. e\<lparr>looping := False\<rparr>) w2) = Inl AssertFail)"
    using conn e by (intro quit_loses_destruction[where ch = "want_read (Channel 8)\<lparr>index := kAdded\<rparr>"
        and wch = "want_read (Channel 5)\<lparr>index := kAdded\<rparr>"]) simp_all
  then show ?thesis using e0 e(1) unfolding Let_def by blast
qed

text \<open>C31: \<open>shutdown\<close> may reach a connection that has been freed. A thread other than that of the loop has
  tested the state of an open connection, which is \<open>kConnected\<close>, and holds the pointer with which it
  called. Before it goes on, the peer hangs up: the loop closes the connection, takes it out of the
  map and out of the poller. The rest of \<open>shutdown\<close> queues \<open>shutdownInLoop\<close>, bound to the bare
  \<open>this\<close>; the thread drops its pointer, which is the last one, so the connection is destroyed and its
  socket closed; and the functor, when the loop calls it, finds no channel.\<close>

theorem late_shutdown_meets_freed_connection:
  assumes sv: "serving l own clients w" and i: "clients fd = Some i"
    and cb: "srv_connection cbs = Some (\<lambda>i w. Inr w)" and t: "t \<noteq> threadId (loops w l)"
  shows "shutdown_conn i (w\<lparr>cur_thread := t\<rparr>) = shutdown_rest i (w\<lparr>cur_thread := t\<rparr>)
    \<and> (\<exists>w1 w2 w3. bind_result (handleClose (conn_cbs cbs) i w)
           (doPendingFunctors (\<lambda>w. loops w l) (upd_loop l) (exec_functor cbs ok)) = Inr w1
       \<and> conn_state (conns w1 i) = kDisconnected
       \<and> shutdown_rest i (w1\<lparr>cur_thread := t\<rparr>) = Inr w2 \<and> release_connection i w2 = Inr w3
       \<and> closed_fds w3 = closed_fds w @ [fd] \<and> pendingFunctors (loops w3 l) = [ShutdownInLoop i]
       \<and> exec_functor cbs ok (ShutdownInLoop i) (w3\<lparr>cur_thread := threadId (loops w l)\<rparr>) = Inl NullPointer)"
proof -
  note op = serving_opened[OF sv i]
  have conn: "conn_state (conns w i) = kConnected" "conn_loop (conns w i) = l" "sockfd (conns w i) = fd"
    using op by (simp_all add: opened_def)
  obtain w1 ch where w1: "bind_result (handleClose (conn_cbs cbs) i w)
        (doPendingFunctors (\<lambda>w. loops w l) (upd_loop l) (exec_functor cbs ok)) = Inr w1"
    "serving l own (clients(fd := None)) w1" "closed_fds w1 = closed_fds w"
    "conns w1 = (conns w)(i := (conns w i)\<lparr>conn_state := kDisconnected\<rparr>)"
    "connections w1 = (connections w)(conn_name (conns w i) := None)"
    "heap (loops w1 l) (conn_channel (conns w i)) = Some ch" "index ch = kNew"
    "threadId (loops w1 l) = threadId (loops w l)"
    using serving_close[OF sv i cb, of ok] by (elim exE conjE) (rule that)
  let ?w = "w1\<lparr>cur_thread := t\<rparr>"
  have idle: "wf_poller (loops w1 l)" "pendingFunctors (loops w1 l) = []"
    and pool: "srv_loop w1 = l" "getAllLoops (threadPool w1) = [l]"
    using w1(2) by (simp_all add: serving_def loop_idle_def listening_on_def)
  have "settled i ?w" using idle(2) by (simp add: settled_def pool)
  then have "\<not> conn_shared i ?w" by (simp add: conn_shared_settled w1(4,5))
  then show ?thesis
    using late_shutdown[of ?w l i ch cbs ok] w1 conn idle t
    by (auto simp: shutdown_conn_rest)
qed

text \<open>A client of the echo program hangs up.\<close>

theorem late_shutdown_meets_freed_connection_witness:
  "\<exists>w w1 w2 w3. echo_main sample_system
        (echo_events sample_system (at_once [Connect 7 no_address])) sample_start = Inr w
     \<and> shutdown_conn 13 (w\<lparr>cur_thread := Suc (threadId (loops w 0))\<rparr>)
         = shutdown_rest 13 (w\<lparr>cur_thread := Suc (threadId (loops w 0))\<rparr>)
     \<and> bind_result (handleClose (conn_cbs echo_callbacks) 13 w)
           (doPendingFunctors (\<lambda>w. loops w 0) (upd_loop 0) (exec_functor echo_callbacks True)) = Inr w1
     \<and> shutdown_rest 13 (w1\<lparr>cur_thread := Suc (threadId (loops w 0))\<rparr>) = Inr w2
     \<and> release_connection 13 w2 = Inr w3 \<and> 7 \<in> set (closed_fds w3)
     \<and> exec_functor echo_callbacks True (ShutdownInLoop 13) (w3\<lparr>cur_thread := threadId (loops w 0)\<rparr>)
         = Inl NullPointer"
proof -
  let ?evs = "[Connect 7 no_address]"
  have "echo_session sample_system sample_start ?evs"
    by (simp add: echo_session_def sample_start_def no_clients_def own_fds_def sample_system_def)
  then obtain w where w: "echo_main sample_system (echo_events sample_system (at_once ?evs)) sample_start = Inr w"
    "serving 0 {3, 4, 5} [7 \<mapsto> 13] w"
    using echo_main_runs[OF sample_system_ok, of sample_start "at_once ?evs"]
    by (auto simp: session_of_def no_clients_def sample_start_def own_fds_def sample_system_def insert_commute)
  have cb: "srv_connection echo_callbacks = Some (\<lambda>i w. Inr w)"
    by (simp add: echo_callbacks_def echo_onConnection_def[abs_def])
  have "Suc (threadId (loops w 0)) \<noteq> threadId (loops w 0)" by simp
  from late_shutdown_meets_freed_connection[OF w(2) _ cb this, of 7 13 True] w(1) show ?thesis
    by (auto simp del: exec_functor.simps)
qed

end
