(* ===== verification/Conn_Closing.thy ===== *)
theory Conn_Closing
  imports Conn_Owners
begin

section \<open>How a connection ends (TcpConnection::handleClose, TcpServer::removeConnection)\<close>

text \<open>
  The peer of a connection hangs up, and the thread of its loop calls \<open>handleClose\<close>. What follows is
  in the queues: \<open>removeConnectionInLoop\<close> for the loop of the server, then \<open>connectDestroyed\<close> for
  the loop of the connection. Here are the rounds that it takes, and what is left after them.
\<close>

lemma own_channel_not_conn:
  assumes W: "world_inv st Q w" and "st i \<noteq> Fresh" and l: "l \<in> server_loops w"
  shows "Suc i \<notin> own_channels l w" and "Suc i \<noteq> acceptChannel w"
proof -
  have no: "Suc i \<notin> own_channels m w" if "m \<in> server_loops w" for m
    using assms(2) not_own[OF W that] by blast
  show "Suc i \<notin> own_channels l w" by (rule no[OF l])
  show "Suc i \<noteq> acceptChannel w" using no[of "srv_loop w"] by (auto simp: own_channels_def server_loops_def)
qed

lemma hangup_handlers: "handlers_for EPOLLHUP = [OnClose]" "sane_events EPOLLHUP"
  by (simp_all add: handlers_for_def EPOLLHUP_def sane_events_def bit_numeral_rec)

subsection \<open>The round in which a peer hangs up\<close>

context local_callbacks
begin

text \<open>The round of the loop of an open connection whose peer has hung up, up to its functors.\<close>

lemma hangup_polled:
  fixes now :: TimeStamp
  assumes T: "threads_inv st s" and at: "loop_at s l = Polling" and go: "\<not> quit_flag (loops (srv s) l)"
    and st: "st i = Open" and l: "conn_loop (conns (srv s) i) = l"
    and slots: "1 < event_slots (loops (srv s) l)" "event_slots (loops (srv s) l) < 2 ^ 31"
  defines "ans \<equiv> WaitOk [(EPOLLHUP, sockfd (conns (srv s) i))]"
  shows "\<exists>s' ch. loop_turn cbs ok l ans now s = Inr s' \<and> sane_wait ans l (srv s) \<and> threads_inv st s'
    \<and> carried {i} st s st s' \<and> loop_at s' = (loop_at s)(l := Handling [Suc i] now)
    \<and> heap (loops (srv s') l) (Suc i) = Some (set_revents EPOLLHUP ch) \<and> conns (srv s') = conns (srv s)
    \<and> server_loops (srv s') = server_loops (srv s) \<and> Suc i \<notin> own_channels l (srv s')
    \<and> Suc i \<noteq> acceptChannel (srv s')"
proof -
  let ?w = "(srv s)\<lparr>cur_thread := threadId (loops (srv s) l)\<rparr>"
  have W: "world_inv st (todo s) (srv s)" using T by (simp add: threads_inv_def)
  have live: "live (st i)" and nf: "st i \<noteq> Fresh" by (simp_all add: st live_def)
  note c = world_conn[OF W live]
  have lin: "l \<in> server_loops (srv s)" using c(3) l by simp
  obtain ch where ch: "heap (loops (srv s) l) (Suc i) = Some ch" "stage_ok Open i (srv s) ch"
    "get_chan i (srv s) = Inr ch" using c(5) st l by auto
  have wf: "wf_poller (loops (srv s) l)" using world_wf[OF W lin] .
  have fd: "chan_fd ch = sockfd (conns (srv s) i)"
    using c(1) ch(3) by (auto simp: conn_inv_def get_chan_def channel_inv_def split: option.splits)
  have "index ch = kAdded" using ch(2) by (simp add: listening_def)
  then have int: "interest (loops (srv s) l) (sockfd (conns (srv s) i)) = Some (events ch, Suc i)"
    and reg: "registry (loops (srv s) l) (sockfd (conns (srv s) i)) = Some (Suc i)"
    using registered_interest[OF wf ch(1)] wf_pollerD(3)[OF wf ch(1)] fd by simp_all
  have no: "Suc i \<notin> own_channels l (srv s)" "Suc i \<noteq> acceptChannel (srv s)"
    using own_channel_not_conn[OF W nf lin] own_channel_not_conn[OF W nf] by (auto simp: own_channels_def)
  define w1 where "w1 = upd_loop l (\<lambda>e. (put_channel (Suc i) (set_revents EPOLLHUP ch) e)
    \<lparr>activeChannels := [Suc i], pollReturnTime := now\<rparr>) ?w"
  define s1 where "s1 = s\<lparr>srv := w1, loop_at := (loop_at s)(l := Handling [Suc i] now)\<rparr>"
  have t1: "loop_turn cbs ok l ans now s = Inr s1"
    using at go poll_one[OF int ch(1) slots(1), of EPOLLHUP now]
    by (simp add: loop_turn_def s1_def w1_def upd_loop_def ans_def)
  have sane: "sane_wait ans l (srv s)"
    using slots hangup_handlers(2) reg no(1) by (simp add: sane_wait_def ans_def own_channels_def)
  have T1: "threads_inv st s1" using polling_turn[OF T lin at sane, of cbs ok now] t1 by simp
  have hp: "heap (loops w1 m) d = (if m = l \<and> d = Suc i then Some (set_revents EPOLLHUP ch)
    else heap (loops (srv s) m) d)" for m d by (simp add: w1_def put_channel_def)
  have "conns w1 = conns (srv s)" "closed_fds w1 = closed_fds (srv s)"
    "quit_flag (loops w1 m) = quit_flag (loops (srv s) m)" "event_slots (loops w1 m) = event_slots (loops (srv s) m)"
    for m by (simp_all add: w1_def put_channel_def)
  then have "carried {i} st s st s1" using hp by (simp add: carried_def s1_def)
  moreover have "conns w1 = conns (srv s)" "server_loops w1 = server_loops (srv s)"
    "own_channels l w1 = own_channels l (srv s)" "acceptChannel w1 = acceptChannel (srv s)"
    by (simp_all add: w1_def put_channel_def server_loops_def own_channels_def)
  ultimately show ?thesis using t1 sane T1 no hp[of l "Suc i"]
    by (intro exI[of _ s1] exI[of _ ch]) (simp add: s1_def)
qed

text \<open>Then the handlers of the channel close the connection.\<close>

lemma hangup_handled:
  assumes T: "threads_inv st s" and at: "loop_at s l = Handling [Suc i] now" and st: "st i = Open"
    and l: "conn_loop (conns (srv s) i) = l" and no: "Suc i \<notin> own_channels l (srv s)" "Suc i \<noteq> acceptChannel (srv s)"
    and hup: "heap (loops (srv s) l) (Suc i) = Some (set_revents EPOLLHUP ch)"
  shows "\<exists>s' x. loop_turn cbs ok l (WaitOk []) now s = Inr s' \<and> threads_inv (st(i := x)) s' \<and> closing x
    \<and> carried {i} st s (st(i := x)) s' \<and> loop_at s' = (loop_at s)(l := Handling [] now)
    \<and> server_loops (srv s') = server_loops (srv s)"
proof -
  let ?w = "(srv s)\<lparr>cur_thread := threadId (loops (srv s) l)\<rparr>"
  have W: "world_inv st (queue (swapped s) ?w) ?w" using threads_world[OF T] by simp
  have live: "live (st i)" by (simp add: st live_def)
  note c = world_conn[OF W live]
  have ok: "stage_ok Open i ?w (set_revents EPOLLHUP ch)" "get_chan i ?w = Inr (set_revents EPOLLHUP ch)"
    using c(5) hup st l by auto
  have lin: "l \<in> server_loops (srv s)" using c(3) l by (simp add: server_loops_def)
  have inl: "in_loop i ?w" using ok l by (simp add: in_loop_def isInLoopThread_def cloop_def)
  have "handle_channel cbs (\<lambda>_. True) l (Suc i) now ?w = handleClose (conn_cbs cbs) i ?w"
    using hup ok(1) no by (simp add: handle_channel_def handleEvent_def handleEventWithGuard_sequence hangup_handlers
        call_sequence_fun conn_chan_callbacks_def call_if_set_def own_channels_def)
  moreover obtain w2 where w2: "handleClose (conn_cbs cbs) i ?w = removeConnection i w2" "leaves i ?w w2"
    using close_leaves[OF inl] by blast
  moreover obtain w3 x where w3: "removeConnection i w2 = Inr w3" "x \<in> {Removing, Dying}"
    "steps_to l (swapped s) st ?w i x w3"
    using close_step[OF W st _ w2(2)] l by auto
  ultimately have hc: "handle_channel cbs (\<lambda>_. True) l (Suc i) now ?w = Inr w3" by simp
  define s2 where "s2 = s\<lparr>srv := w3, loop_at := (loop_at s)(l := Handling [] now)\<rparr>"
  have t2: "loop_turn cbs ok l (WaitOk []) now s = Inr s2" using hc at by (simp add: loop_turn_def s2_def)
  have cl: "closing x" "live x" using w3(2) by (auto simp: closing_def live_def)
  have pre: "swapped s = swapped s2" using at by (simp add: s2_def fun_eq_iff swapped_def)
  have "threads_inv (st(i := x)) s2"
  proof (rule threads_goes[OF T goes_steps[OF w3(3)] _ s2_def pre])
    show "conn_loop (conns (srv s) i) = l" by (fact l)
    have "pos_ok st l (srv s) (Handling [Suc i] now)" using T lin at by (auto simp: threads_inv_def)
    then show "pos_ok (st(i := x)) l w3 (Handling [] now)"
      using w3(3) by (simp add: steps_to_def polite_def)
  qed
  moreover have "carried {i} st s (st(i := x)) s2"
    by (rule carried_steps[where l = l and pre = "swapped s" and t = "threadId (loops (srv s) l)"])
      (use w3(3) cl steps_heap[OF w3(3) cl(2)] in \<open>simp_all add: s2_def\<close>)
  moreover have "server_loops w3 = server_loops (srv s)"
    using w3(3) server_same_loops by (fastforce simp: steps_to_def others_same_def server_loops_def)
  ultimately show ?thesis using t2 cl(1) by (intro exI[of _ s2] exI[of _ x]) (simp add: s2_def)
qed

lemma hangup_turns:
  fixes now :: TimeStamp
  assumes T: "threads_inv st s" and at: "loop_at s l = Polling" and go: "\<not> quit_flag (loops (srv s) l)"
    and st: "st i = Open" and l: "conn_loop (conns (srv s) i) = l"
    and slots: "1 < event_slots (loops (srv s) l)" "event_slots (loops (srv s) l) < 2 ^ 31"
  defines "evs \<equiv> [RunLoop l (WaitOk [(EPOLLHUP, sockfd (conns (srv s) i))]) now, RunLoop l (WaitOk []) now]"
  shows "\<exists>s' x. server_run cbs ok evs s = Inr s' \<and> plausible_run cbs ok evs s
    \<and> threads_inv (st(i := x)) s' \<and> closing x \<and> carried {i} st s (st(i := x)) s'
    \<and> loop_at s' = (loop_at s)(l := Handling [] now) \<and> server_loops (srv s') = server_loops (srv s)"
proof -
  obtain s1 ch where s1: "loop_turn cbs ok l (WaitOk [(EPOLLHUP, sockfd (conns (srv s) i))]) now s = Inr s1"
    "sane_wait (WaitOk [(EPOLLHUP, sockfd (conns (srv s) i))]) l (srv s)" "threads_inv st s1"
    "carried {i} st s st s1" "loop_at s1 = (loop_at s)(l := Handling [Suc i] now)"
    "heap (loops (srv s1) l) (Suc i) = Some (set_revents EPOLLHUP ch)" "conns (srv s1) = conns (srv s)"
    "server_loops (srv s1) = server_loops (srv s)" "Suc i \<notin> own_channels l (srv s1)" "Suc i \<noteq> acceptChannel (srv s1)"
    using hangup_polled[OF T at go st l slots] by blast
  have "loop_at s1 l = Handling [Suc i] now" "conn_loop (conns (srv s1) i) = l" using s1(5,7) l by simp_all
  from hangup_handled[OF s1(3) this(1) st this(2) s1(9,10,6)]
  obtain s2 x where s2: "loop_turn cbs ok l (WaitOk []) now s1 = Inr s2" "threads_inv (st(i := x)) s2" "closing x"
    "carried {i} st s1 (st(i := x)) s2" "loop_at s2 = (loop_at s1)(l := Handling [] now)"
    "server_loops (srv s2) = server_loops (srv s1)" by blast
  have lin: "l \<in> server_loops (srv s)"
    using T st l world_conn(3)[of st "todo s" "srv s" i] by (simp add: threads_inv_def live_def)
  have "server_run cbs ok evs s = Inr s2" using s1(1,8) s2(1) lin by (simp add: evs_def)
  moreover have "plausible_run cbs ok evs s"
    using s1 s2(1) lin at by (simp add: evs_def)
  ultimately show ?thesis using s2 s1(5,8) carried_trans[OF s1(4) s2(4)] by (intro exI[of _ s2] exI[of _ x]) simp
qed

text \<open>A round ends when the handlers have returned.\<close>

lemma round_ends:
  fixes now :: TimeStamp
  assumes T: "threads_inv st s" and lin: "l \<in> server_loops (srv s)" and at: "loop_at s l = Handling [] t"
  shows "\<exists>n s' st'. server_run cbs ok (turns now n l) s = Inr s' \<and> plausible_run cbs ok (turns now n l) s
    \<and> threads_inv st' s' \<and> carried {} st s st' s' \<and> loop_at s' = (loop_at s)(l := Polling)
    \<and> server_loops (srv s') = server_loops (srv s)"
proof -
  let ?q = "pendingFunctors (loops (srv s) l)"
  define s2 where "s2 = s\<lparr>srv := upd_loop l (\<lambda>e. e\<lparr>callingPendingFunctors := True, pendingFunctors := []\<rparr>)
    ((srv s)\<lparr>cur_thread := threadId (loops (srv s) l)\<rparr>), loop_at := (loop_at s)(l := Calling ?q)\<rparr>"
  have t2: "loop_turn cbs ok l (WaitOk []) now s = Inr s2" using at by (simp add: loop_turn_def s2_def)
  then have T2: "threads_inv st s2" using swap_turn[OF T lin at, of cbs ok "WaitOk []" now] by simp
  have C2: "carried {} st s st s2" by (rule carried_own) (simp_all add: s2_def)
  have L2: "server_loops (srv s2) = server_loops (srv s)" by (simp add: s2_def server_loops_def)
  then have "l \<in> server_loops (srv s2)" "loop_at s2 l = Calling ?q" using lin by (simp_all add: s2_def)
  from calling_ends[OF T2 this, of ok now] obtain s3 st3 where s3:
    "server_run cbs ok (turns now (Suc (length ?q)) l) s2 = Inr s3" "threads_inv st3 s3" "carried {} st s2 st3 s3"
    "loop_at s3 = (loop_at s2)(l := Polling)" "server_loops (srv s3) = server_loops (srv s2)" by blast
  let ?n = "Suc (Suc (length ?q))"
  have "server_run cbs ok (turns now ?n l) s = Inr s3" using t2 lin s3(1) by simp
  moreover have "plausible_run cbs ok (turns now ?n l) s" using idle_plausible at by blast
  moreover have "carried {} st s st3 s3" using carried_trans C2 s3(3) by blast
  moreover have "loop_at s3 = (loop_at s)(l := Polling)" by (simp add: s3(4) s2_def)
  ultimately show ?thesis using s3(2,5) L2 by (intro exI[of _ ?n] exI[of _ s3] exI[of _ st3]) simp
qed

lemma hangup_round:
  fixes now :: TimeStamp
  assumes T: "threads_inv st s" and at: "loop_at s l = Polling" and go: "\<not> quit_flag (loops (srv s) l)"
    and st: "st i = Open" and l: "conn_loop (conns (srv s) i) = l"
    and slots: "1 < event_slots (loops (srv s) l)" "event_slots (loops (srv s) l) < 2 ^ 31"
  defines "ev \<equiv> RunLoop l (WaitOk [(EPOLLHUP, sockfd (conns (srv s) i))]) now"
  shows "\<exists>n s' st'. server_run cbs ok (ev # turns now n l) s = Inr s' \<and> plausible_run cbs ok (ev # turns now n l) s
    \<and> threads_inv st' s' \<and> closing (st' i) \<and> carried {i} st s st' s'
    \<and> loop_at s' = (loop_at s)(l := Polling) \<and> server_loops (srv s') = server_loops (srv s)"
proof -
  obtain s1 x where s1: "server_run cbs ok [ev, RunLoop l (WaitOk []) now] s = Inr s1"
    "plausible_run cbs ok [ev, RunLoop l (WaitOk []) now] s" "threads_inv (st(i := x)) s1" "closing x"
    "carried {i} st s (st(i := x)) s1" "loop_at s1 = (loop_at s)(l := Handling [] now)"
    "server_loops (srv s1) = server_loops (srv s)"
    using hangup_turns[OF T at go st l slots] unfolding ev_def by blast
  have lin: "l \<in> server_loops (srv s1)"
    using T st l world_conn(3)[of st "todo s" "srv s" i] s1(7) by (simp add: threads_inv_def live_def)
  have "loop_at s1 l = Handling [] now" by (simp add: s1(6))
  from round_ends[OF s1(3) lin this, of ok now] obtain n s2 st2 where s2: "server_run cbs ok (turns now n l) s1 = Inr s2"
    "plausible_run cbs ok (turns now n l) s1" "threads_inv st2 s2" "carried {} (st(i := x)) s1 st2 s2"
    "loop_at s2 = (loop_at s1)(l := Polling)" "server_loops (srv s2) = server_loops (srv s1)" by blast
  have "closing (st2 i)" using s2(4) s1(4) by (simp add: carried_def)
  moreover have "carried {i} st s st2 s2" using carried_trans[OF s1(5) carried_none[OF s2(4)]] .
  moreover have eq: "ev # turns now (Suc n) l = [ev, RunLoop l (WaitOk []) now] @ turns now n l" by simp
  have "server_run cbs ok (ev # turns now (Suc n) l) s = Inr s2"
    unfolding eq server_run_append s1(1) using s2(1) by simp
  moreover have "plausible_run cbs ok (ev # turns now (Suc n) l) s"
    unfolding eq plausible_run_append s1(1) using s1(2) s2(2) by simp
  moreover have "loop_at s2 = (loop_at s)(l := Polling)" by (simp add: s2(5) s1(6))
  ultimately show ?thesis
    using s2(3,6) s1(7) by (intro exI[of _ "Suc n"] exI[of _ s2] exI[of _ st2]) simp
qed

text \<open>The rounds after it, in which nothing is ready, until the queues are empty.\<close>

lemma hangup_settles:
  fixes now :: TimeStamp
  assumes T: "threads_inv st s" and st: "st i = Open" and l: "conn_loop (conns (srv s) i) = l"
    and idle: "\<And>m. m \<in> server_loops (srv s) \<Longrightarrow> loop_at s m = Polling \<and> \<not> quit_flag (loops (srv s) m)"
    and slots: "1 < event_slots (loops (srv s) l)" "event_slots (loops (srv s) l) < 2 ^ 31"
  defines "ev \<equiv> RunLoop l (WaitOk [(EPOLLHUP, sockfd (conns (srv s) i))]) now"
  shows "\<exists>evs s' st'. set evs \<subseteq> {RunLoop m (WaitOk []) now | m. m \<in> server_loops (srv s)}
    \<and> server_run cbs ok (ev # evs) s = Inr s' \<and> plausible_run cbs ok (ev # evs) s \<and> threads_inv st' s'
    \<and> closing (st' i) \<and> carried {i} st s st' s' \<and> server_loops (srv s') = server_loops (srv s)
    \<and> (\<forall>m \<in> server_loops (srv s'). todo s' m = [])"
proof -
  have lin: "l \<in> server_loops (srv s)"
    using T st l world_conn(3)[of st "todo s" "srv s" i] by (simp add: threads_inv_def live_def)
  obtain n s1 st1 where s1: "server_run cbs ok (ev # turns now n l) s = Inr s1"
    "plausible_run cbs ok (ev # turns now n l) s" "threads_inv st1 s1" "closing (st1 i)" "carried {i} st s st1 s1"
    "loop_at s1 = (loop_at s)(l := Polling)" "server_loops (srv s1) = server_loops (srv s)"
    using hangup_round[OF T _ _ st l slots] idle[OF lin] unfolding ev_def by blast
  have "loop_at s1 m = Polling \<and> \<not> quit_flag (loops (srv s1) m)" if "m \<in> server_loops (srv s1)" for m
    using idle[of m] that s1(5-7) by (simp add: carried_def)
  from loops_settle[OF s1(3) this, of now ok]
  obtain evs s2 st2 where s2: "set evs \<subseteq> {RunLoop m (WaitOk []) now | m. m \<in> server_loops (srv s1)}"
    "server_run cbs ok evs s1 = Inr s2" "threads_inv st2 s2" "server_loops (srv s2) = server_loops (srv s1)"
    "\<forall>m \<in> server_loops (srv s1). loop_at s2 m = Polling \<and> pendingFunctors (loops (srv s2) m) = []"
    "carried {} st1 s1 st2 s2" "plausible_run cbs ok evs s1" by blast
  let ?evs = "turns now n l @ evs"
  have eq: "ev # ?evs = (ev # turns now n l) @ evs" by simp
  have "server_run cbs ok (ev # ?evs) s = Inr s2" unfolding eq server_run_append s1(1) using s2(2) by simp
  moreover have "plausible_run cbs ok (ev # ?evs) s" unfolding eq plausible_run_append s1(1) using s1(2) s2(7) by simp
  moreover have "carried {i} st s st2 s2" using carried_trans[OF s1(5) carried_none[OF s2(6)]] .
  moreover have "closing (st2 i)" using s2(6) s1(4) by (simp add: carried_def)
  moreover have "todo s2 m = []" if "m \<in> server_loops (srv s2)" for m
    using s2(4,5) that by (simp add: todo_def swapped_def)
  moreover have "set ?evs \<subseteq> {RunLoop m (WaitOk []) now | m. m \<in> server_loops (srv s)}"
    using s2(1) lin s1(7) by (auto simp: turns_def)
  ultimately show ?thesis using s2(3,4) s1(7) by (intro exI[of _ ?evs] exI[of _ s2] exI[of _ st2]) simp
qed

end

subsection \<open>At rest\<close>

text \<open>A connection that is closing is gone when there is nothing left to do, and its channel is not registered.\<close>

lemma closing_at_rest:
  assumes T: "threads_inv st s" and "closing (st i)" and rest: "\<And>l. l \<in> server_loops (srv s) \<Longrightarrow> todo s l = []"
  shows "st i = Gone" and "\<not> owned i s"
proof -
  have W: "world_inv st (todo s) (srv s)" using T by (simp add: threads_inv_def)
  then have "conn_ok (st i) i (srv s)" by (simp add: world_inv_def)
  then have lin: "conn_loop (conns (srv s) i) \<in> server_loops (srv s)"
    using assms(2) by (auto simp: conn_ok_def closing_def)
  have "srv_loop (srv s) \<in> server_loops (srv s)" by (simp add: server_loops_def)
  then have "queue_ok (st i) i (conn_loop (conns (srv s) i)) (srv_loop (srv s)) m []"
    if "m \<in> {conn_loop (conns (srv s) i), srv_loop (srv s)}" for m
    using world_queue(1)[OF W, of m i] rest[of m] lin that by auto
  then have "awaited (st i) i (conn_loop (conns (srv s) i)) (srv_loop (srv s)) m = []"
    if "m \<in> {conn_loop (conns (srv s) i), srv_loop (srv s)}" for m
    using that by (simp add: queue_ok_empty)
  from this[of "conn_loop (conns (srv s) i)"] this[of "srv_loop (srv s)"]
  show gone: "st i = Gone" using assms(2) by (auto simp: closing_def)
  then show "\<not> owned i s" using owned_live[OF T] by (simp add: live_def)
qed


text \<open>Connections that are in the map and have not been closed.\<close>

lemma staying_in_map:
  assumes T: "threads_inv st s"
  shows "staying (st i) \<longleftrightarrow> connections (srv s) (conn_name (conns (srv s) i)) = Some i
      \<and> conn_state (conns (srv s) i) \<noteq> kDisconnected"
    and "st i = Open \<longleftrightarrow> connections (srv s) (conn_name (conns (srv s) i)) = Some i
      \<and> conn_state (conns (srv s) i) \<in> {kConnected, kDisconnecting}"
proof -
  have W: "world_inv st (todo s) (srv s)" using T by (simp add: threads_inv_def)
  have m: "connections (srv s) (conn_name (conns (srv s) i)) = Some i \<longleftrightarrow> in_map (st i)"
    using W by (simp add: world_inv_def map_ok_def)
  have "live (st i) \<Longrightarrow> \<exists>ch. stage_ok (st i) i (srv s) ch" using world_conn(5)[OF W] by blast
  then show "staying (st i) \<longleftrightarrow> connections (srv s) (conn_name (conns (srv s) i)) = Some i
      \<and> conn_state (conns (srv s) i) \<noteq> kDisconnected"
    "st i = Open \<longleftrightarrow> connections (srv s) (conn_name (conns (srv s) i)) = Some i
      \<and> conn_state (conns (srv s) i) \<in> {kConnected, kDisconnecting}"
    unfolding m by (cases "st i"; auto simp: staying_def in_map_def live_def active_def)+
qed

lemma staying_at_rest:
  assumes T: "threads_inv st s" and st: "staying (st i)" and rest: "\<And>l. l \<in> server_loops (srv s) \<Longrightarrow> todo s l = []"
  shows "st i = Open"
proof -
  have W: "world_inv st (todo s) (srv s)" using T by (simp add: threads_inv_def)
  have "live (st i)" using st by (auto simp: staying_def live_def)
  then have lin: "conn_loop (conns (srv s) i) \<in> server_loops (srv s)" by (rule world_conn(3)[OF W])
  have "awaited (st i) i (conn_loop (conns (srv s) i)) (srv_loop (srv s)) (conn_loop (conns (srv s) i)) = []"
    using world_queue(1)[OF W lin, of i] rest[OF lin] by (simp add: queue_ok_empty)
  then show ?thesis using st by (auto simp: staying_def)
qed

text \<open>A connection that stands is closing when its state says so, and steps that end nothing carry it on.\<close>

lemma closed_is_closing:
  assumes T: "threads_inv st s" and "stands i (srv s)"
  shows "closing (st i) \<longleftrightarrow> conn_state (conns (srv s) i) = kDisconnected"
    and "connections (srv s) (conn_name (conns (srv s) i)) \<noteq> Some i \<Longrightarrow> closing (st i)"
proof -
  have W: "world_inv st (todo s) (srv s)" using T by (simp add: threads_inv_def)
  have nf: "st i \<noteq> Fresh" using stands_stage[OF T assms(2)] by simp
  moreover have "conn_ok (st i) i (srv s)" using W by (simp add: world_inv_def)
  ultimately obtain ch where "stage_ok (st i) i (srv s) ch"
    using assms(2) by (auto simp: conn_ok_def stands_def Let_def)
  then show "closing (st i) \<longleftrightarrow> conn_state (conns (srv s) i) = kDisconnected"
    using nf by (cases "st i") (auto simp: closing_def active_def)
  have "connections (srv s) (conn_name (conns (srv s) i)) = Some i \<longleftrightarrow> in_map (st i)"
    using W by (simp add: world_inv_def map_ok_def)
  then show "connections (srv s) (conn_name (conns (srv s) i)) \<noteq> Some i \<Longrightarrow> closing (st i)"
    using nf by (cases "st i") (auto simp: closing_def in_map_def)
qed

lemma closing_stands:
  assumes C: "carried A st s st' s'" and T': "threads_inv st' s'" and "stands i (srv s)" and "closing (st' i)"
  shows "stands i (srv s')"
proof -
  have W: "world_inv st' (todo s') (srv s')" using T' by (simp add: threads_inv_def)
  have nf: "st' i \<noteq> Fresh" using assms(4) by (auto simp: closing_def)
  moreover have "conn_ok (st' i) i (srv s')" using W by (simp add: world_inv_def)
  ultimately have lin: "conn_loop (conns (srv s') i) \<in> server_loops (srv s')" by (simp add: conn_ok_def)
  have "heap (loops (srv s) (conn_loop (conns (srv s) i))) (Suc i) \<noteq> None"
    using assms(3) by (simp add: stands_def Let_def)
  moreover have "conn_loop (conns (srv s') i) = conn_loop (conns (srv s) i)"
    using C by (simp add: carried_def same_identity_def)
  ultimately show ?thesis
    using C lin own_channel_not_conn(1)[OF W nf lin] by (simp add: carried_def stands_def Let_def)
qed

lemma carried_in_map:
  assumes C: "carried A st s st' s'" and T: "threads_inv st s" and T': "threads_inv st' s'" and "j \<notin> A"
    and j: "connections (srv s) k = Some j" "conn_state (conns (srv s) j) \<noteq> kDisconnected"
  shows "connections (srv s') k = Some j"
proof -
  have n: "conn_name (conns (srv s) j) = k"
    using T j(1) by (simp add: threads_inv_def world_inv_def map_ok_def)
  then have "staying (st j)" using staying_in_map(1)[OF T] j by simp
  then have "staying (st' j)" using C assms(4) by (simp add: carried_def)
  moreover have "conn_name (conns (srv s') j) = k" using C n by (simp add: carried_def same_identity_def)
  ultimately show ?thesis using staying_in_map(1)[OF T'] by auto
qed

text \<open>Then it can be destroyed, and nothing refers to it.\<close>

lemma closing_released:
  assumes T: "threads_inv st s" and cl: "closing (st i)" and rest: "\<And>l. l \<in> server_loops (srv s) \<Longrightarrow> todo s l = []"
    and "stands i (srv s)" and free: "\<not> held i s"
  shows "\<exists>s'. server_run cbs ok [ReleaseFrom t i] s = Inr s' \<and> plausible_run cbs ok [ReleaseFrom t i] s
    \<and> closed_fds (srv s') = closed_fds (srv s) @ [sockfd (conns (srv s) i)] \<and> connections (srv s') = connections (srv s)
    \<and> i \<notin> ran (connections (srv s')) \<and> \<not> stands i (srv s')
    \<and> (\<forall>m \<in> server_loops (srv s). todo s' m = [] \<and> Suc i \<notin> ran (registry (loops (srv s') m)))"
proof -
  note r = closing_at_rest[OF T cl rest]
  have "\<forall>j \<in> set [i]. stands j (srv s) \<and> \<not> owned j s \<and> \<not> held j s" using r(2) assms(4) free by simp
  from release_list[OF T _ this, of cbs ok t] obtain s' where
    s': "server_run cbs ok [ReleaseFrom t i] s = Inr s'" "threads_inv st s'" "plausible_run cbs ok [ReleaseFrom t i] s"
    "closed_fds (srv s') = closed_fds (srv s) @ [sockfd (conns (srv s) i)]" "connections (srv s') = connections (srv s)"
    "server_loops (srv s') = server_loops (srv s)" "todo s' = todo s" "\<not> stands i (srv s')" by auto
  have W: "world_inv st (todo s') (srv s')" using s'(2) by (simp add: threads_inv_def)
  have nf: "st i \<noteq> Fresh" and "\<not> owned i s'" using r(1) owned_live[OF s'(2)] by (simp_all add: live_def)
  then have "Suc i \<notin> ran (registry (loops (srv s') m))" if "m \<in> server_loops (srv s)" for m
    using registered_owned[OF s'(2), of m] own_channel_not_conn(1)[OF W nf, of m] that s'(6) by (auto simp: ran_def)
  moreover have "i \<notin> ran (connections (srv s'))"
    using W r(1) by (auto simp: world_inv_def map_ok_def in_map_def ran_def)
  ultimately show ?thesis using s' rest by auto
qed

subsection \<open>A sample\<close>

text \<open>A connection has been accepted, and all is quiet; then its peer has hung up.\<close>

lemma sample_open:
  "\<exists>s i. http_reached sample_setup sample_threads s \<and> server_loops (srv s) = {0, 1, 2, 3, 4}
    \<and> (\<forall>m \<in> {0, 1, 2, 3, 4}. loop_at s m = Polling \<and> \<not> quit_flag (loops (srv s) m)
         \<and> event_slots (loops (srv s) m) = kInitEventListSize)
    \<and> connections (srv s) (conn_name (conns (srv s) i)) = Some i
    \<and> conn_state (conns (srv s) i) \<in> {kConnected, kDisconnecting} \<and> conn_loop (conns (srv s) i) = 1
    \<and> in_call s = []"
proof -
  let ?L = "{0, 1, 2, 3, 4} :: nat set" and ?t = TimeStamp_default and ?cbs = "hs_callbacks sample_setup"
  obtain s0 where s0: "http_begin sample_setup sample_threads = Inr s0" using http_begins[OF sample_threads_ok] by blast
  obtain s i evs where s: "plausible_run ?cbs True evs s0" "server_run ?cbs True evs s0 = Inr s"
    "pendingFunctors (loops (srv s) 1) = [ConnectEstablished i]" "conn_loop (conns (srv s) i) = 1"
    "connections (srv s) (conn_name (conns (srv s) i)) = Some i"
    "loop_at s = (\<lambda>_. Polling)(0 := Handling [] ?t)" "server_loops (srv s) = ?L"
    "\<forall>m \<in> ?L. \<not> quit_flag (loops (srv s) m) \<and> event_slots (loops (srv s) m) = kInitEventListSize"
    "in_call s = []"
    using sample_accepts[OF s0, of ?cbs ?t] by blast
  have r: "http_reached sample_setup sample_threads s" unfolding http_reached_def using s0 s(1,2) by blast
  obtain st where T: "threads_inv st s" using http_reached_inv[OF sample_threads_ok r] by blast
  have "staying (st i)"
  proof -
    have "world_inv st (todo s) (srv s)" "1 \<in> server_loops (srv s)" using T s(7) by (simp_all add: threads_inv_def)
    from world_queue(1)[OF this, of i] have "queue_ok (st i) i 1 (srv_loop (srv s)) 1 [ConnectEstablished i]"
      using s(3,4,6) by (simp add: todo_def swapped_def)
    then obtain ds where ds: "[ConnectEstablished i] = ds @ awaited (st i) i 1 (srv_loop (srv s)) 1" "\<forall>f \<in> set ds. is_data f"
      unfolding queue_ok_def by blast
    have "ConnectEstablished i \<in> set (ds @ awaited (st i) i 1 (srv_loop (srv s)) 1)" using ds(1)[symmetric] by simp
    then have "ConnectEstablished i \<in> set (awaited (st i) i 1 (srv_loop (srv s)) 1)" using ds(2) by auto
    then show ?thesis by (cases "st i") (simp_all add: staying_def)
  qed
  moreover have "0 \<in> server_loops (srv s)" "loop_at s 0 = Handling [] ?t" using s(6,7) by simp_all
  from http_threads.round_ends[OF T this, of "hs_answer sample_setup" "hs_order sample_setup" True ?t]
  obtain n s1 st1 where s1: "server_run ?cbs True (turns ?t n 0) s = Inr s1" "plausible_run ?cbs True (turns ?t n 0) s"
    "threads_inv st1 s1" "carried {} st s st1 s1" "loop_at s1 = (loop_at s)(0 := Polling)"
    "server_loops (srv s1) = server_loops (srv s)" unfolding hs_callbacks_def by blast
  have "loop_at s1 m = Polling \<and> \<not> quit_flag (loops (srv s1) m)" if "m \<in> server_loops (srv s1)" for m
    using that s(6-8) s1(4-6) by (auto simp: carried_def)
  from http_threads.loops_settle[OF s1(3) this, of ?t "hs_answer sample_setup" "hs_order sample_setup" True]
  obtain evs' s2 st2 where s2: "server_run ?cbs True evs' s1 = Inr s2" "threads_inv st2 s2"
    "server_loops (srv s2) = server_loops (srv s1)"
    "\<forall>m \<in> server_loops (srv s1). loop_at s2 m = Polling \<and> pendingFunctors (loops (srv s2) m) = []"
    "carried {} st1 s1 st2 s2" "plausible_run ?cbs True evs' s1" unfolding hs_callbacks_def by blast
  have C: "carried {} st s st2 s2" using carried_trans[OF s1(4) s2(5)] .
  ultimately have "staying (st2 i)" by (simp add: carried_def)
  moreover have "todo s2 m = []" if "m \<in> server_loops (srv s2)" for m
    using s2(3,4) that by (simp add: todo_def swapped_def)
  ultimately have "st2 i = Open" by (rule staying_at_rest[OF s2(2)])
  then have "connections (srv s2) (conn_name (conns (srv s2) i)) = Some i"
    "conn_state (conns (srv s2) i) \<in> {kConnected, kDisconnecting}"
    using staying_in_map(2)[OF s2(2), of i] by simp_all
  moreover have "http_reached sample_setup sample_threads s2"
    using http_reached_run[OF http_reached_run[OF r s1(2,1)] s2(6,1)] .
  moreover have "same_identity (conns (srv s) i) (conns (srv s2) i)" using C by (simp add: carried_def)
  then have "conn_loop (conns (srv s2) i) = 1" using s(4) by (simp add: same_identity_def)
  moreover have "\<forall>m \<in> ?L. loop_at s2 m = Polling \<and> \<not> quit_flag (loops (srv s2) m)
         \<and> event_slots (loops (srv s2) m) = kInitEventListSize"
    using s2(4) s(7,8) s1(6) C by (simp add: carried_def)
  moreover have "server_loops (srv s2) = ?L" using s2(3) s1(6) s(7) by simp
  moreover have "in_call s2 = []" using C s(9) by (simp add: carried_def)
  ultimately show ?thesis by blast
qed

lemma sample_closed:
  "\<exists>s i. http_reached sample_setup sample_threads s \<and> server_loops (srv s) = {0, 1, 2, 3, 4}
    \<and> (\<forall>m \<in> {0, 1, 2, 3, 4}. loop_at s m = Polling \<and> \<not> quit_flag (loops (srv s) m))
    \<and> stands i (srv s) \<and> conn_state (conns (srv s) i) = kDisconnected \<and> in_call s = []"
proof -
  let ?L = "{0, 1, 2, 3, 4} :: nat set" and ?cbs = "hs_callbacks sample_setup"
  obtain s i where s: "http_reached sample_setup sample_threads s" "server_loops (srv s) = ?L"
    "\<forall>m \<in> ?L. loop_at s m = Polling \<and> \<not> quit_flag (loops (srv s) m)
         \<and> event_slots (loops (srv s) m) = kInitEventListSize"
    "connections (srv s) (conn_name (conns (srv s) i)) = Some i"
    "conn_state (conns (srv s) i) \<in> {kConnected, kDisconnecting}" "conn_loop (conns (srv s) i) = 1" "in_call s = []"
    using sample_open by blast
  obtain st where T: "threads_inv st s" using http_reached_inv[OF sample_threads_ok s(1)] by blast
  have st: "st i = Open" using staying_in_map(2)[OF T] s(4,5) by blast
  have one: "loop_at s 1 = Polling" "\<not> quit_flag (loops (srv s) 1)"
    "1 < event_slots (loops (srv s) 1)" "event_slots (loops (srv s) 1) < 2 ^ 31"
    using s(3) by (simp_all add: kInitEventListSize_def)
  from http_threads.hangup_round[OF T one(1,2) st s(6) one(3,4), of "hs_answer sample_setup" "hs_order sample_setup" True TimeStamp_default]
  obtain n s1 st1 where s1: "server_run ?cbs True (RunLoop 1 (WaitOk [(EPOLLHUP, sockfd (conns (srv s) i))]) TimeStamp_default
      # turns TimeStamp_default n 1) s = Inr s1"
    "plausible_run ?cbs True (RunLoop 1 (WaitOk [(EPOLLHUP, sockfd (conns (srv s) i))]) TimeStamp_default
      # turns TimeStamp_default n 1) s" "threads_inv st1 s1" "closing (st1 i)" "carried {i} st s st1 s1"
    "loop_at s1 = (loop_at s)(1 := Polling)" "server_loops (srv s1) = server_loops (srv s)"
    unfolding hs_callbacks_def by blast
  have "stands i (srv s1)" using closing_stands[OF s1(5,3)] live_stands[OF T] st s1(4) by (simp add: live_def)
  moreover from this have "conn_state (conns (srv s1) i) = kDisconnected"
    using closed_is_closing(1)[OF s1(3)] s1(4) by blast
  moreover have "\<forall>m \<in> ?L. loop_at s1 m = Polling \<and> \<not> quit_flag (loops (srv s1) m)"
    using s(3) s1(5,6) by (simp add: carried_def)
  moreover have "http_reached sample_setup sample_threads s1" using http_reached_run[OF s(1) s1(2,1)] .
  moreover have "server_loops (srv s1) = ?L" using s1(7) s(2) by simp
  moreover have "in_call s1 = []" using s1(5) s(7) by (simp add: carried_def)
  ultimately show ?thesis by blast
qed

subsection \<open>Properties\<close>

text \<open>At rest, every connection that is neither in the map of the server nor used by a call can be
  destroyed; then, but for those in use, the ones that stand are the ones the map names.\<close>

lemma unowned_released:
  assumes T: "threads_inv st s" and rest: "\<And>l. l \<in> server_loops (srv s) \<Longrightarrow> todo s l = []"
  shows "\<exists>js s'. distinct js
    \<and> set js = {i. stands i (srv s) \<and> connections (srv s) (conn_name (conns (srv s) i)) \<noteq> Some i \<and> \<not> held i s}
    \<and> server_run cbs ok (map (ReleaseFrom t) js) s = Inr s' \<and> plausible_run cbs ok (map (ReleaseFrom t) js) s
    \<and> closed_fds (srv s') = closed_fds (srv s) @ map (\<lambda>i. sockfd (conns (srv s) i)) js
    \<and> conns (srv s') = conns (srv s) \<and> connections (srv s') = connections (srv s)
    \<and> server_loops (srv s') = server_loops (srv s) \<and> todo s' = todo s \<and> in_call s' = in_call s
    \<and> (\<forall>i. \<not> held i s' \<longrightarrow>
         (stands i (srv s') \<longleftrightarrow> connections (srv s') (conn_name (conns (srv s') i)) = Some i))"
proof -
  let ?in = "\<lambda>i. connections (srv s) (conn_name (conns (srv s) i)) = Some i"
  have own: "owned i s \<longleftrightarrow> ?in i" for i using rest by (simp add: owned_def)
  define js where "js = filter (\<lambda>i. stands i (srv s) \<and> \<not> ?in i \<and> \<not> held i s) [0..<next_address (srv s)]"
  have js: "distinct js" "set js = {i. stands i (srv s) \<and> \<not> ?in i \<and> \<not> held i s}"
    using stands_stage(1)[OF T] by (auto simp: js_def dest: Suc_lessD)
  obtain s2 where s2: "server_run cbs ok (map (ReleaseFrom t) js) s = Inr s2"
    "plausible_run cbs ok (map (ReleaseFrom t) js) s"
    "closed_fds (srv s2) = closed_fds (srv s) @ map (\<lambda>i. sockfd (conns (srv s) i)) js"
    "conns (srv s2) = conns (srv s)" "connections (srv s2) = connections (srv s)"
    "server_loops (srv s2) = server_loops (srv s)" "todo s2 = todo s" "in_call s2 = in_call s"
    "\<forall>j. stands j (srv s2) \<longleftrightarrow> stands j (srv s) \<and> j \<notin> set js"
    using release_list[OF T js(1), of cbs ok t] js(2) own by auto
  have "stands i (srv s)" if "?in i" for i
    using that live_stands[OF T] owned_live[OF T] own by blast
  then have "stands i (srv s2) \<longleftrightarrow> connections (srv s2) (conn_name (conns (srv s2) i)) = Some i"
    if "\<not> held i s2" for i using s2(9) js(2) that by (auto simp: s2(4,5,8) held_def)
  then show ?thesis using js s2(1-8) by blast
qed

text \<open>C6: nothing is left of the connections that were closed. From any state of an \<open>HttpServer\<close> in which
  all loops are about to wait and none has been told to quit, some rounds in which nothing is ready
  empty the queues. After them the connections that had been closed, and all others that are not in the map, can
  be destroyed one after the other, by any thread \<open>t\<close>, unless a thread that is in a call of \<open>send\<close> or
  \<open>shutdown\<close> still holds them: exactly their sockets are closed, each once, the connections that
  stand after that, but for those such a thread holds, are those in the map, and every connection
  that was in the map and had not been closed is there.\<close>

theorem http_closed_connections_are_freed:
  assumes "http_world_ok h w" and "http_reached h w s"
    and "\<And>l. l \<in> server_loops (srv s) \<Longrightarrow> loop_at s l = Polling \<and> \<not> quit_flag (loops (srv s) l)"
  shows "\<exists>evs is s'. set evs \<subseteq> {RunLoop l (WaitOk []) now | l. l \<in> server_loops (srv s)} \<and> distinct is
    \<and> {i. stands i (srv s) \<and> conn_state (conns (srv s) i) = kDisconnected \<and> \<not> held i s} \<subseteq> set is
    \<and> server_run (hs_callbacks h) True (evs @ map (ReleaseFrom t) is) s = Inr s' \<and> http_reached h w s'
    \<and> closed_fds (srv s') = closed_fds (srv s) @ map (\<lambda>i. sockfd (conns (srv s') i)) is
    \<and> (\<forall>l \<in> server_loops (srv s'). todo s' l = []) \<and> in_call s' = in_call s
    \<and> (\<forall>i. \<not> held i s' \<longrightarrow>
         (stands i (srv s') \<longleftrightarrow> connections (srv s') (conn_name (conns (srv s') i)) = Some i))
    \<and> (\<forall>k j. connections (srv s) k = Some j \<and> conn_state (conns (srv s) j) \<noteq> kDisconnected \<longrightarrow>
         connections (srv s') k = Some j)"
proof -
  let ?cbs = "hs_callbacks h"
  obtain st where T: "threads_inv st s" using http_reached_inv[OF assms(1,2)] by blast
  from http_threads.loops_settle[OF T assms(3), of now "hs_answer h" "hs_order h" True]
  obtain evs s1 st1 where e: "set evs \<subseteq> {RunLoop l (WaitOk []) now | l. l \<in> server_loops (srv s)}"
    "server_run ?cbs True evs s = Inr s1" "threads_inv st1 s1" "server_loops (srv s1) = server_loops (srv s)"
    "\<forall>l \<in> server_loops (srv s). loop_at s1 l = Polling \<and> pendingFunctors (loops (srv s1) l) = []"
    "carried {} st s st1 s1" "plausible_run ?cbs True evs s"
    unfolding hs_callbacks_def by blast
  have rest: "todo s1 l = []" if "l \<in> server_loops (srv s1)" for l
    using e(4,5) that by (simp add: todo_def swapped_def)
  obtain js s2 where s2: "distinct js"
    "set js = {i. stands i (srv s1) \<and> connections (srv s1) (conn_name (conns (srv s1) i)) \<noteq> Some i \<and> \<not> held i s1}"
    "server_run ?cbs True (map (ReleaseFrom t) js) s1 = Inr s2" "plausible_run ?cbs True (map (ReleaseFrom t) js) s1"
    "closed_fds (srv s2) = closed_fds (srv s1) @ map (\<lambda>i. sockfd (conns (srv s1) i)) js"
    "conns (srv s2) = conns (srv s1)" "connections (srv s2) = connections (srv s1)"
    "server_loops (srv s2) = server_loops (srv s1)" "todo s2 = todo s1" "in_call s2 = in_call s1"
    "\<forall>i. \<not> held i s2 \<longrightarrow> (stands i (srv s2) \<longleftrightarrow> connections (srv s2) (conn_name (conns (srv s2) i)) = Some i)"
    using unowned_released[OF e(3) rest, of ?cbs True t] by blast
  have "i \<in> set js" if i: "stands i (srv s)" "conn_state (conns (srv s) i) = kDisconnected" "\<not> held i s" for i
  proof -
    have cl: "closing (st1 i)" using e(6) closed_is_closing(1)[OF T i(1)] i(2) by (simp add: carried_def)
    then show ?thesis using closing_stands[OF e(6,3) i(1)] closing_at_rest(2)[OF e(3) cl rest] s2(2)
      i(3) e(6) by (simp add: owned_def carried_def held_def)
  qed
  moreover have "closed_fds (srv s2) = closed_fds (srv s) @ map (\<lambda>i. sockfd (conns (srv s2) i)) js"
    using s2(5,6) e(6) by (simp add: carried_def)
  moreover have "server_run ?cbs True (evs @ map (ReleaseFrom t) js) s = Inr s2"
    using e(2) s2(3) by (simp add: server_run_append)
  moreover have "http_reached h w s2" using http_reached_run[OF http_reached_run[OF assms(2) e(7,2)] s2(4,3)] .
  moreover have "todo s2 l = []" if "l \<in> server_loops (srv s2)" for l using rest that by (simp add: s2(8,9))
  moreover have "connections (srv s2) k = Some j"
    if "connections (srv s) k = Some j" "conn_state (conns (srv s) j) \<noteq> kDisconnected" for k j
    using carried_in_map[OF e(6) T e(3) _ that] by (simp add: s2(7))
  ultimately show ?thesis using e(1,6) s2(1,10,11) by (intro exI[of _ evs] exI[of _ js] exI[of _ s2]) (auto simp: carried_def)
qed

theorem http_closed_connections_are_freed_witness:
  "\<exists>s i evs js s'. http_reached sample_setup sample_threads s \<and> stands i (srv s) \<and> i \<in> set js
    \<and> server_run (hs_callbacks sample_setup) True (evs @ map (ReleaseFrom 9) js) s = Inr s'
    \<and> closed_fds (srv s') = closed_fds (srv s) @ map (\<lambda>i. sockfd (conns (srv s') i)) js
    \<and> (\<forall>i. stands i (srv s') \<longleftrightarrow> connections (srv s') (conn_name (conns (srv s') i)) = Some i)"
proof -
  obtain s i where s: "http_reached sample_setup sample_threads s" "server_loops (srv s) = {0, 1, 2, 3, 4}"
    "\<forall>m \<in> {0, 1, 2, 3, 4}. loop_at s m = Polling \<and> \<not> quit_flag (loops (srv s) m)"
    "stands i (srv s)" "conn_state (conns (srv s) i) = kDisconnected" "in_call s = []" using sample_closed by blast
  have idle: "loop_at s m = Polling \<and> \<not> quit_flag (loops (srv s) m)" if "m \<in> server_loops (srv s)" for m
    using that s(2,3) by blast
  obtain evs js s' where "{i. stands i (srv s) \<and> conn_state (conns (srv s) i) = kDisconnected \<and> \<not> held i s} \<subseteq> set js"
    "server_run (hs_callbacks sample_setup) True (evs @ map (ReleaseFrom 9) js) s = Inr s'"
    "closed_fds (srv s') = closed_fds (srv s) @ map (\<lambda>i. sockfd (conns (srv s') i)) js"
    "in_call s' = in_call s"
    "\<forall>i. \<not> held i s' \<longrightarrow> (stands i (srv s') \<longleftrightarrow> connections (srv s') (conn_name (conns (srv s') i)) = Some i)"
    using http_closed_connections_are_freed[OF sample_threads_ok s(1) idle, of TimeStamp_default 9] by blast
  moreover have "\<not> held k s" for k using s(6) by (simp add: held_def)
  moreover from calculation have "i \<in> set js" using s(4,5) by blast
  moreover have "\<not> held k s'" for k using calculation(4) s(6) by (simp add: held_def)
  ultimately show ?thesis using s(1,4) by blast
qed

text \<open>C5: when its peer hangs up, a connection is torn down to the last byte of it, and no other connection
  notices. In any state of an \<open>HttpServer\<close> in which all loops are about to wait and none has been
  told to quit, let connection \<open>i\<close> be open, no thread in a call of \<open>send\<close> or \<open>shutdown\<close> for it, and let
  \<open>epoll_wait\<close> report a hangup on its socket. After
  some rounds in which nothing else is ready and the destructor, which any thread \<open>t\<close> may run, its
  socket has been closed, once, and no other descriptor; the server has no pointer to it, no poller
  refers to its channel, no queue has a functor about it, and the connection is gone. Every other
  connection in the map that has not been closed is still there.\<close>

theorem http_hangup_frees_connection:
  assumes "http_world_ok h w" and "http_reached h w s"
    and idle: "\<And>m. m \<in> server_loops (srv s) \<Longrightarrow> loop_at s m = Polling \<and> \<not> quit_flag (loops (srv s) m)"
    and i: "connections (srv s) n = Some i" "conn_state (conns (srv s) i) \<in> {kConnected, kDisconnecting}" "\<not> held i s"
    and l: "conn_loop (conns (srv s) i) = l" "1 < event_slots (loops (srv s) l)" "event_slots (loops (srv s) l) < 2 ^ 31"
  shows "\<exists>evs s'. set evs \<subseteq> {RunLoop m (WaitOk []) now | m. m \<in> server_loops (srv s)}
    \<and> server_run (hs_callbacks h) True
        (RunLoop l (WaitOk [(EPOLLHUP, sockfd (conns (srv s) i))]) now # evs @ [ReleaseFrom t i]) s = Inr s'
    \<and> http_reached h w s' \<and> closed_fds (srv s') = closed_fds (srv s) @ [sockfd (conns (srv s) i)]
    \<and> i \<notin> ran (connections (srv s')) \<and> \<not> stands i (srv s')
    \<and> (\<forall>m \<in> server_loops (srv s). todo s' m = [] \<and> Suc i \<notin> ran (registry (loops (srv s') m)))
    \<and> (\<forall>k j. j \<noteq> i \<and> connections (srv s) k = Some j \<and> conn_state (conns (srv s) j) \<noteq> kDisconnected \<longrightarrow>
         connections (srv s') k = Some j)"
proof -
  let ?cbs = "hs_callbacks h" and ?ev = "RunLoop l (WaitOk [(EPOLLHUP, sockfd (conns (srv s) i))]) now"
  obtain st where T: "threads_inv st s" using http_reached_inv[OF assms(1,2)] by blast
  then have "conn_name (conns (srv s) i) = n" using i(1) by (simp add: threads_inv_def world_inv_def map_ok_def)
  then have st: "st i = Open" using staying_in_map(2)[OF T] i by simp
  from http_threads.hangup_settles[OF T this l(1) idle l(2,3), of now "hs_answer h" "hs_order h" True]
  obtain evs s1 st1 where s1: "set evs \<subseteq> {RunLoop m (WaitOk []) now | m. m \<in> server_loops (srv s)}"
    "server_run ?cbs True (?ev # evs) s = Inr s1" "plausible_run ?cbs True (?ev # evs) s" "threads_inv st1 s1"
    "closing (st1 i)" "carried {i} st s st1 s1" "server_loops (srv s1) = server_loops (srv s)"
    "\<forall>m \<in> server_loops (srv s1). todo s1 m = []"
    unfolding hs_callbacks_def by blast
  have "stands i (srv s)" using live_stands[OF T] st by (simp add: live_def)
  then have "stands i (srv s1)" using closing_stands[OF s1(6,4) _ s1(5)] by blast
  moreover have "\<not> held i s1" using i(3) s1(6) by (simp add: held_def carried_def)
  ultimately obtain s2 where
    s2: "server_run ?cbs True [ReleaseFrom t i] s1 = Inr s2" "plausible_run ?cbs True [ReleaseFrom t i] s1"
    "closed_fds (srv s2) = closed_fds (srv s1) @ [sockfd (conns (srv s1) i)]" "connections (srv s2) = connections (srv s1)"
    "i \<notin> ran (connections (srv s2))" "\<not> stands i (srv s2)"
    "\<forall>m \<in> server_loops (srv s1). todo s2 m = [] \<and> Suc i \<notin> ran (registry (loops (srv s2) m))"
    using closing_released[OF s1(4,5), of ?cbs True t] s1(8) by blast
  have "http_reached h w s2" using http_reached_run[OF http_reached_run[OF assms(2) s1(3,2)] s2(2,1)] .
  moreover have "server_run ?cbs True (?ev # evs @ [ReleaseFrom t i]) s = Inr s2"
    using s1(2) s2(1) server_run_append[of ?cbs True "?ev # evs" "[ReleaseFrom t i]" s] by simp
  moreover have "closed_fds (srv s2) = closed_fds (srv s) @ [sockfd (conns (srv s) i)]"
    using s2(3) s1(6) by (simp add: carried_def same_identity_def)
  moreover have "connections (srv s2) k = Some j"
    if "j \<noteq> i" "connections (srv s) k = Some j" "conn_state (conns (srv s) j) \<noteq> kDisconnected" for k j
    using carried_in_map[OF s1(6) T s1(4) _ that(2,3)] that(1) by (simp add: s2(4))
  ultimately show ?thesis using s1(1,7) s2(5-7) by (intro exI[of _ evs] exI[of _ s2]) simp
qed

theorem http_hangup_frees_connection_witness:
  "\<exists>s n i evs s'. http_reached sample_setup sample_threads s \<and> connections (srv s) n = Some i
    \<and> server_run (hs_callbacks sample_setup) True
        (RunLoop 1 (WaitOk [(EPOLLHUP, sockfd (conns (srv s) i))]) TimeStamp_default # evs @ [ReleaseFrom 9 i]) s = Inr s'
    \<and> closed_fds (srv s') = closed_fds (srv s) @ [sockfd (conns (srv s) i)]
    \<and> i \<notin> ran (connections (srv s')) \<and> \<not> stands i (srv s')"
proof -
  obtain s i where s: "http_reached sample_setup sample_threads s" "server_loops (srv s) = {0, 1, 2, 3, 4}"
    "\<forall>m \<in> {0, 1, 2, 3, 4}. loop_at s m = Polling \<and> \<not> quit_flag (loops (srv s) m)
         \<and> event_slots (loops (srv s) m) = kInitEventListSize"
    "connections (srv s) (conn_name (conns (srv s) i)) = Some i"
    "conn_state (conns (srv s) i) \<in> {kConnected, kDisconnecting}" "\<not> held i s" "conn_loop (conns (srv s) i) = 1"
    using sample_open by (auto simp: held_def)
  have idle: "loop_at s m = Polling \<and> \<not> quit_flag (loops (srv s) m)" if "m \<in> server_loops (srv s)" for m
    using that s(2,3) by blast
  have slots: "1 < event_slots (loops (srv s) 1)" "event_slots (loops (srv s) 1) < 2 ^ 31"
    using s(3) by (simp_all add: kInitEventListSize_def)
  show ?thesis
    using http_hangup_frees_connection[OF sample_threads_ok s(1) idle s(4-7) slots, of TimeStamp_default 9] s(1,4) by blast
qed

end
