(* ===== verification/Spec2Isabelle.thy ===== *)
theory Spec2Isabelle
  imports Net_Prelude Net_Buffer Time_Stamp Net_Channel Net_Poller Net_EventLoop Loop_Threads
    Net_Inet Net_TcpConnection Conn_Lifecycle Net_TcpServer Timer_Queue Log_Stream Log_File
    Log_Async Log_Program Http_Message Http_Server Base_ThreadPool Mysql_Pool Server_Session Server_Timers
    Echo_Server Mysql_Config Pool_Program Server_Schedules Conn_Owners Conn_Closing
begin

text \<open>
  A verification development for TinyWebLib, a network library in C++ in the style of muduo.

  \<^bold>\<open>The program.\<close> An \<open>EventLoop\<close> owns a poller (\<open>EPollPoller\<close> over \<open>epoll\<close>), a queue of
  functors that any thread may extend, an eventfd that wakes it, and a queue of timers. A
  \<open>Channel\<close> ties a descriptor of the loop to callbacks. A \<open>TcpConnection\<close> is a socket with a
  channel, an input and an output \<open>Buffer\<close> and a state; a \<open>TcpServer\<close> accepts connections
  through its \<open>Acceptor\<close> and spreads them over the loops of an \<open>EventLoopThreadPool\<close>. On top of
  it are an HTTP server and the echo server of the examples; beside it a logger with an asynchronous back end, a pool of threads and
  a pool of MySQL connections. Source paths below are relative to \<open>src/src/\<close>, except
  \<open>example/echo.cpp\<close>, which is in \<open>src/\<close>.

  \<^bold>\<open>Conventions\<close> (\<open>Net_Prelude\<close>). A function that may fail returns a \<open>result\<close>, the sum of
  \<open>failure\<close> and a value: a failed assertion (the build keeps assertions), \<open>LOG_FATAL\<close>, which
  aborts, an access outside of storage, a null pointer, a call of an empty \<open>std::function\<close>, an
  overflow of a signed number, a call that does not return. State is passed explicitly, as the
  record of the class. Objects that are shared by pointers live in maps from addresses. What the
  kernel, the clock or the C library answers is an argument, or a sequence of answers in the
  state that the calls use up one by one. The user's callbacks are arguments. A class that
  several threads use is a step relation whose steps are its critical sections and the code
  between them; statements about it are over all reachable states, that is all interleavings.

  \<^bold>\<open>Theories.\<close>
  \<^item> \<open>Net_Buffer\<close> (\<open>net/Buffer.*\<close>): the record \<open>buffer\<close> has the storage and the two indexes;
    \<open>wf_buffer\<close> is the invariant and \<open>contents\<close> the abstraction to the bytes between them. Every
    operation is shown to do to the contents what its name says, on every branch of \<open>makeSpace\<close>.
    The locale \<open>byte_queue\<close> states the contract of a queue of bytes and is interpreted on the
    operations.
  \<^item> \<open>Time_Stamp\<close> (\<open>base/TimeStamp.*\<close>): time in microseconds, an instance of \<open>linorder\<close>;
    \<open>addTime\<close> rounds as IEEE doubles do.
  \<^item> \<open>Net_Channel\<close> (\<open>net/Channel.*\<close>) and \<open>Net_Poller\<close> (\<open>net/poller/*\<close>): event masks are 32 bit
    words; \<open>poll_state\<close> has the channels by address, the registry of the poller and the interest
    list of the kernel, with the documented failures of \<open>epoll_ctl\<close>; \<open>wf_poller\<close> relates the
    three, every operation of a channel keeps it and never meets a failure, and \<open>poll\<close> reports
    only channels that exist. Results of \<open>epoll_wait\<close> are below \<open>2 ^ 31\<close>, as an \<open>int\<close> is.
  \<^item> \<open>Net_EventLoop\<close> (\<open>net/EventLoop.*\<close>): \<open>eventloop\<close> extends \<open>poll_state\<close>. The functions that
    run callbacks are over any program state with access to a loop (locales \<open>loop_host\<close> and
    \<open>functor_host\<close>). \<open>loop\<close> runs against a finite list of answers of \<open>epoll_wait\<close>, one per
    round, and is structurally recursive on it: when the list is used up the loop is blocked
    in \<open>poll\<close>. \<open>loop_step\<close> is the protocol between the loop and other threads.
  \<^item> \<open>Loop_Threads\<close> (\<open>net/EventLoopThread.*\<close>, \<open>net/EventLoopThreadPool.*\<close>): the pool as
    functions, the handshake of a thread with its creator and its destructor as \<open>thread_step\<close>.
  \<^item> \<open>Net_Inet\<close> (\<open>net/InetAddress.*\<close>): addresses as bytes in network order.
  \<^item> \<open>Net_TcpConnection\<close> and \<open>Conn_Lifecycle\<close> (\<open>net/TcpConnection.*\<close>): \<open>tcpconn\<close> has the members
    of a connection and what happened to its socket (\<open>wire\<close> is what the kernel has taken);
    \<open>world\<close> has the connections, the loops and the answers of the kernel. \<open>conn_inv\<close> is the
    invariant of a connection: its buffers, its channel and its poller are consistent and its
    interest in writing is on exactly when bytes wait while it is open. Every operation and handler keeps it. The
    locale \<open>conn_user\<close> is the contract of the user's callbacks. \<open>stream_grows\<close> says of a call, or of
    a functor that is called later, that the bytes sent or waiting grow by the message.
  \<^item> \<open>Net_TcpServer\<close> (\<open>net/TcpServer.*\<close>, \<open>net/Acceptor.*\<close>, \<open>net/Socket.*\<close>): \<open>server_world\<close>
    extends \<open>world\<close> by the members of the server; \<open>exec_functor\<close> and \<open>handle_channel\<close> give the
    functors and channels of the library their meaning, so that \<open>server_loop\<close> is the program.
    \<open>names_inv\<close> keeps the names of connections apart. Its locale is \<open>server_user\<close>.
  \<^item> \<open>Server_Session\<close>: a server between two rounds of its loop (\<open>serving\<close>) and the abstract
    specification \<open>session\<close> of what clients make of it, with one step for a client that connects,
    sends or hangs up. The locale \<open>answering\<close> is the contract of a server that answers every
    message; for such a server each event is one round and the state after it stands for the
    session after its step (\<open>session_of\<close>). Here the kernel takes whatever is written, which a
    real one does not promise (\<open>handleWrite\<close> sends wrong bytes when it does not), one descriptor
    is ready in a round, and the memory and the socket of a closed connection are not followed
    further; \<open>2 ^ 31 - 1\<close> bounds the number of connections, as the counter in their names is an
    \<open>int\<close>, whose increment overflows there (\<open>newConnection\<close>).
  \<^item> \<open>Echo_Server\<close> (\<open>example/echo.cpp\<close>): the callbacks and \<open>main\<close>, an instance of the contracts
    \<open>conn_user\<close>, \<open>server_user\<close> and \<open>answering\<close>.
  \<^item> \<open>Conn_Frame\<close>: what an operation on a connection leaves alone (\<open>conn_frame\<close>), and how a
    handler leaves the connection, open (\<open>stays\<close>) or closed (\<open>leaves\<close>). The locale
    \<open>local_callbacks\<close> is the contract of callbacks that work on the connection they are called for.
  \<^item> \<open>Server_Threads\<close> (\<open>net/EventLoop.cpp\<close>, \<open>net/TcpConnection.cpp\<close>, run by several threads): a
    server whose loops run in threads of their own. \<open>thread_state\<close> has the server and where each
    thread is in \<open>loop ()\<close>, and the calls of \<open>send\<close> and \<open>shutdown\<close> that other threads are in; a step
    of \<open>server_step\<close> is one call of \<open>poll\<close>, of a handler or of a functor, one critical section, one
    step of such a call (its test of the state, the change of the state, the queueing of the
    functor), or the destructor of a connection that no pointer keeps any more; a schedule
    is any list of steps (\<open>server_run\<close>). \<open>plausible\<close> says what the kernel and the other threads do
    not do, among it that a call goes on once \<open>handleClose\<close> has overtaken it. \<open>stage\<close> is the life of a connection, from \<open>newConnection\<close> to \<open>connectDestroyed\<close>;
    \<open>threads_inv\<close>, the invariant, says for each stage where the connection is registered and which
    functor about it is in which queue.
  \<^item> \<open>Thread_Steps\<close>, \<open>Threads_Safe\<close>: every step keeps the invariant, one lemma for each kind of
    functor, event and part of the round. \<open>Thread_Runs\<close>: what the invariant comes to; \<open>total_work\<close> is
    the measure by which the queues become empty, and \<open>server_threads_start\<close> the state after
    \<open>start\<close>.
  \<^item> \<open>Server_Schedules\<close>: \<open>local_callbacks\<close> interpreted on the callbacks of the echo server and of an
    \<open>HttpServer\<close>, and the \<open>HttpServer\<close> with its four threads, from the constructor on.
  \<^item> \<open>Conn_Owners\<close> (the shared pointers in \<open>net/TcpServer.cpp\<close> and \<open>net/TcpConnection.cpp\<close>, the
    destructors of \<open>net/Channel.cpp\<close> and \<open>net/EventLoop.cpp\<close>): in every state of an \<open>HttpServer\<close> what
    refers to a connection finds it owned, by the map or by a functor that holds a pointer
    (\<open>functor_holds\<close>), and a connection without an owner can be destroyed. \<open>destroy_loop\<close> is the end of a
    loop with the functors of its queue, \<open>shutdown_rest\<close> a call that has been overtaken.
  \<^item> \<open>Conn_Closing\<close> (\<open>handleClose\<close>, \<open>removeConnection\<close>): the way of a connection from the hangup of
    its peer to its destructor, through the queues of two loops. \<open>carried\<close> (in \<open>Threads_Safe\<close>) says
    what a round in which nothing happens outside leaves as it was.
  \<^item> \<open>Server_Timers\<close>: the timers of a loop of a server, an instance of \<open>timer_host\<close>, and the way
    of a timer from another thread into the queue.
  \<^item> \<open>Timer_Queue\<close> (\<open>time/*\<close>): the \<open>std::set\<close> of timers is a sorted list; \<open>timers_inv\<close> is its
    invariant and \<open>armed_ok\<close> says that the timerfd is armed for the first timer. The locale
    \<open>timer_host\<close> is the contract of callbacks, which may add timers; it is interpreted on
    callbacks that run a script of additions.
  \<^item> \<open>Log_Stream\<close>, \<open>Log_File\<close>, \<open>Log_Async\<close> (\<open>log/*\<close>, \<open>base/FixedBuffer.h\<close>): the text of a log
    statement, the files on disk, and \<open>async_step\<close> for the front end, the back end and the
    thread that starts and stops them.
  \<^item> \<open>Log_Program\<close> (\<open>log/test/test.cpp\<close>, the globals of \<open>Logger\<close>): a program that logs, from its
    statements to the standard output and the log files. \<open>sys_step\<close> interleaves the actions of
    \<open>main\<close> with the thread of the logger and its \<open>LogFile\<close>; \<open>expect\<close> is the specification of the
    main thread alone, \<open>log_text\<close> the contents of the files in the order they were opened.
  \<^item> \<open>Http_Message\<close> and \<open>Http_Server\<close> (\<open>http/*\<close>): \<open>parse_loop\<close> is a
    \<open>partial_function (option)\<close>, so \<open>None\<close> is a loop that never ends; \<open>parse_text\<close> is its
    specification on lists of characters, total by the length of the text. The server is an
    instance of the contracts \<open>conn_user\<close> and \<open>server_user\<close>.
  \<^item> \<open>Base_ThreadPool\<close> (\<open>base/Thread.*\<close>, \<open>base/ThreadPool.*\<close>, \<open>base/CurrentThread.*\<close>):
    \<open>worker_step\<close> and \<open>client_step\<close>; a rank shows that workers come to an end after \<open>stop\<close>.
  \<^item> \<open>Mysql_Pool\<close> (\<open>mysql/*\<close>): the C API of MySQL is a record of functions, an argument, with
    the documented behaviour of the calls as hypotheses (\<open>api_ok\<close>, and \<open>query_log\<close>: what the server
    has been sent grows by the argument of \<open>mysql_query\<close> and by nothing else);
    \<open>cp_step\<close> has the critical sections of the connection pool.
  \<^item> \<open>Mysql_Config\<close> (the constructor in \<open>mysql/ConnectionPool.cpp\<close>): the extractions from the
    configuration file, character by character.
  \<^item> \<open>Pool_Program\<close> (\<open>mysql/test/pooltest.cpp\<close>): the benchmark of the pool. A thread is the list of its
    actions and its variable \<open>conn\<close>; \<open>bench_step\<close> interleaves the threads with the producer and the
    recycler, over the C API and the objects behind the connections of \<open>Mysql_Pool\<close>. \<open>main_ok\<close> says of
    a main program that it uses its connections in turn and joins its threads; the results hold for all
    such programs. \<open>bench_work\<close> is the measure by which they come to an end.

  \<^bold>\<open>What is shown.\<close> The properties C1, C2, ... stand in the theories of their components, each
  with an instance on concrete data where it has hypotheses. In short: buffers are queues of
  bytes; the parser meets its specification, whatever pieces a request arrives in, and inverts
  the writing of requests; functors are called once and in order and wake the loop; the
  interest of the kernel follows the channels; due timers run once and in order; accepted
  connections are registered under fresh names and leave the server when they are closed; no
  log line is lost or reordered up to the last pass of the back end, and a whole program that logs
  finds every line in its files; tasks are called once and
  a stopped pool ends; no database connection has two users or is used after it has been deleted, a
  program that uses the pool can always go on, and the pool reads its file back;
  the echo server as a whole, from \<open>main\<close> on, gives every client its own bytes back as long as the
  kernel takes every write whole, and forgets clients that are gone; the destructor of a server leaves no connection behind; under every
  plausible schedule of its threads an \<open>HttpServer\<close> is safe but for reads past the end of a buffer
  in a read or write handler, each thread works on its own loop, and nothing
  of a closed connection is left when the loops are at rest; a connection is not destroyed while
  something refers to it, and when its peer hangs up its socket is closed, and no other. Others show where the code does
  not do what it means to: it sends the bytes behind the contents of a buffer, so that a response over HTTP is zero bytes, it forgets a
  request line that arrives alone, it prints zero as nothing, it counts database connections
  twice and makes an empty pool of a file that breaks off, it loses a
  \<open>quit\<close> that comes before \<open>loop\<close>, a \<open>quit\<close> after the last pass over the queue loses the functor that
  takes a connection out of the poller, and \<open>shutdown\<close> in another thread may reach a connection that
  has been freed.

  \<^bold>\<open>Not modelled.\<close> \<open>noncopyable\<close>, which only deletes the copy
  operations, and the copies of the headers under \<open>src/include\<close>; the close of the descriptors of
  a loop and of its poller; log statements inside the library except for their effect at level
  \<open>FATAL\<close>; tasks that throw; an \<open>fopen\<close> that fails, whose null pointer \<open>FileUtil\<close> would pass on; the
  end of the mutex and the condition variable of the pool of database connections under the threads that
  still use them. Memory is sequentially consistent, so the data races on \<open>state_\<close> of a connection and
  on \<open>running_\<close> of a pool of threads appear as plain reads and writes in some order; a wait for a
  condition may end without a notification.

  A call of \<open>send\<close> or \<open>shutdown\<close> by a thread other than that of the loop is taken in steps, and other
  threads may run between them. What is left out of the schedules is a step of such a call after
  \<open>handleClose\<close> has closed its connection (\<open>plausible\<close>, \<open>not_closed\<close>): the code permits it and it goes
  wrong; \<open>Conn_Owners\<close> follows one such case for \<open>shutdown\<close>. Memory and descriptors that have been
  freed are not used again.

  \<^bold>\<open>Plan.\<close> Sessions of a server whose kernel takes only a part of what is written.
\<close>

end
